(* ===== verification/Prelude.thy ===== *)
theory Prelude
  imports Main "HOL-Library.Word"
begin

text \<open>
  Shared vocabulary of the development: the machine integer types of the C++ sources as
  words of the same width, little-endian loads and stores, sign extension of bit fields,
  and the generic lemmas on words, lists and maps that the component theories use.
\<close>

unbundle bit_operations_syntax

section \<open>Machine integers\<close>

type_synonym u8 = "8 word"
type_synonym u16 = "16 word"
type_synonym u32 = "32 word"
type_synonym u64 = "64 word"

named_theorems word_range \<open>rewriting between word and integer ranges\<close>
named_theorems layout_simps \<open>bit layouts of packed C++ structures\<close>

text \<open>A signed C++ bit field of width \<open>Suc n\<close> read into a 64-bit integer.\<close>

definition sext64 :: "nat \<Rightarrow> 'a::len word \<Rightarrow> u64" where
  "sext64 n w = signed_take_bit n (ucast w)"

lemma signed_take_bit_word_id [word_range]:
  fixes w :: "'a::len word"
  assumes "n < LENGTH('a)" and "- (2 ^ n) \<le> sint w" and "sint w < 2 ^ n"
  shows "signed_take_bit n w = w"
proof -
  have e: "signed_take_bit n (sint w) = sint w"
    using assms by (simp add: signed_take_bit_int_eq_self)
  show ?thesis
  proof (rule bit_word_eqI)
    fix k assume k: "k < LENGTH('a)"
    have b: "bit (sint w) i = bit w (min i (LENGTH('a) - 1))" for i
      by (auto simp: bit_sint_iff min_def dest: bit_imp_le_length)
    have "bit w k = bit (sint w) k" using k by (auto simp: b min_def)
    also have "\<dots> = bit (signed_take_bit n (sint w)) k" by (simp add: e)
    also have "\<dots> = bit (sint w) (min k n)" by (simp add: bit_signed_take_bit_iff min.commute)
    also have "\<dots> = bit w (min k n)" using assms(1) k by (auto simp: b min_def)
    finally show "bit (signed_take_bit n w) k = bit w k" using k by (simp add: bit_signed_take_bit_iff min.commute)
  qed
qed

text \<open>The low-bit masks the sources write as literals, as \<open>take_bit\<close>.\<close>

lemma and_low_mask:
  fixes x :: "'a::len word"
  shows "x AND 1 = take_bit 1 x" "x AND 3 = take_bit 2 x" "x AND 15 = take_bit 4 x"
    "x AND 31 = take_bit 5 x" "x AND 63 = take_bit 6 x" "x AND 127 = take_bit 7 x"
    "x AND 255 = take_bit 8 x" "x AND 4095 = take_bit 12 x" "x AND 7 = take_bit 3 x"
    "x AND 511 = take_bit 9 x" "x AND 0xFFFFFFFF = take_bit 32 x"
  by (simp_all add: take_bit_eq_mask mask_eq_exp_minus_1)

text \<open>A test of one bit.\<close>

lemma and_single_bit:
  fixes x :: "'a::len word"
  shows "x AND 1 = 0 \<longleftrightarrow> \<not> bit x 0" "x AND 2 = 0 \<longleftrightarrow> \<not> bit x 1" "x AND 4 = 0 \<longleftrightarrow> \<not> bit x 2"
    "x AND 8 = 0 \<longleftrightarrow> \<not> bit x 3"
  using bit_iff_and_push_bit_not_eq_0 [of x 0] bit_iff_and_push_bit_not_eq_0 [of x 1]
    bit_iff_and_push_bit_not_eq_0 [of x 2] bit_iff_and_push_bit_not_eq_0 [of x 3]
  by simp_all

lemma unat_ucast_widen [word_range]:
  assumes "LENGTH('a::len) \<le> LENGTH('b::len)"
  shows "unat (ucast (w :: 'a word) :: 'b word) = unat w"
proof -
  have "unat w < 2 ^ LENGTH('a)" by (rule unsigned_less)
  also have "(2::nat) ^ LENGTH('a) \<le> 2 ^ LENGTH('b)" using assms by (rule power_increasing) simp
  finally show ?thesis by (simp add: unsigned_ucast_eq take_bit_nat_eq_self)
qed

section \<open>Little-endian memory\<close>

text \<open>
  \<open>store_le n w\<close> is the sequence of \<open>n\<close> bytes a little-endian host writes for \<open>w\<close>;
  \<open>load_le\<close> reads such a sequence back.
\<close>

primrec store_le :: "nat \<Rightarrow> 'a::len word \<Rightarrow> u8 list" where
  "store_le 0 w = []"
| "store_le (Suc n) w = ucast w # store_le n (drop_bit 8 w)"

primrec load_le :: "u8 list \<Rightarrow> 'a::len word" where
  "load_le [] = 0"
| "load_le (b # bs) = ucast b OR push_bit 8 (load_le bs)"

lemma length_store_le [simp]: "length (store_le n w) = n"
  by (induction n arbitrary: w) simp_all

lemma load_store_le: "load_le (store_le n w) = take_bit (8 * n) w"
proof (induction n arbitrary: w)
  case 0
  then show ?case by simp
next
  case (Suc n)
  have "load_le (store_le (Suc n) w) = ucast (ucast w :: u8) OR push_bit 8 (take_bit (8 * n) (drop_bit 8 w))"
    by (simp add: Suc.IH)
  also have "\<dots> = take_bit (8 * Suc n) w"
    by (rule bit_word_eqI) (auto simp: bit_simps)
  finally show ?case .
qed

lemma load_store_le_full [simp]:
  "LENGTH('a::len) \<le> 8 * n \<Longrightarrow> load_le (store_le n (w :: 'a word)) = w"
  by (simp add: load_store_le take_bit_word_eq_self)

lemma map_list_update_same: "f y = f (xs ! i) \<Longrightarrow> map f (xs[i := y]) = map f xs"
  by (metis list_update_beyond list_update_id map_update not_le)

text \<open>On a sorted list a search for a partition point is a filter.\<close>

lemma takeWhile_eq_filter:
  assumes "sorted_wrt R xs" "\<And>x y. R x y \<Longrightarrow> P y \<Longrightarrow> P x"
  shows "takeWhile P xs = filter P xs"
  using assms(1)
proof (induction xs)
  case (Cons x xs)
  show ?case
  proof (cases "P x")
    case False
    then have "filter P xs = []" using Cons.prems assms(2) by (auto simp: filter_empty_conv)
    then show ?thesis using False by simp
  qed (use Cons in simp)
qed simp

end
