(* ===== verification/Varlen.thy ===== *)
theory Varlen
  imports Prelude
begin

text \<open>
  The variable-length integers of \<open>FEXCore/Source/Utils/variable_length_integer.h\<close>:
  \<open>vl64\<close> encodes one signed 64-bit integer in 1, 2, 5 or 9 bytes, \<open>vl64pair\<close> a pair of
  host-PC and guest-RIP deltas in 1, 2, 9 or 17 bytes. A pointer to the encoded bytes is a
  byte list; a read past its end (undefined in C++) is \<open>None\<close>.
\<close>

section \<open>The codec interface\<close>

text \<open>
  What the users of either format rely on: the size function predicts the number of bytes
  written, the encoding is never empty, and decoding reads back the value and the number
  of bytes consumed whatever follows in memory.
\<close>

locale prefix_codec =
  fixes enc :: "'v \<Rightarrow> u8 list"
    and dec :: "u8 list \<Rightarrow> ('v \<times> nat) option"
    and enc_size :: "'v \<Rightarrow> nat"
  assumes enc_size_exact: "length (enc v) = enc_size v"
    and enc_size_pos: "0 < enc_size v"
    and dec_enc: "dec (enc v @ rest) = Some (v, enc_size v)"
begin

primrec dec_stream :: "nat \<Rightarrow> u8 list \<Rightarrow> 'v list option" where
  "dec_stream 0 bs = Some []"
| "dec_stream (Suc n) bs =
     (case dec bs of None \<Rightarrow> None
      | Some (v, k) \<Rightarrow> map_option (\<lambda>vs. v # vs) (dec_stream n (drop k bs)))"

lemma drop_enc: "drop (enc_size v) (enc v @ rest) = rest"
  by (simp add: enc_size_exact)

lemma dec_stream_concat:
  "dec_stream (length vs) (concat (map enc vs) @ rest) = Some vs"
  by (induction vs) (simp_all add: dec_enc enc_size_exact)

lemma enc_injective: "enc v = enc v' \<Longrightarrow> v = v'"
  using dec_enc [of v "[]"] dec_enc [of v' "[]"] by simp

lemma enc_prefix_free:
  assumes "enc v @ xs = enc v' @ ys"
  shows "v = v' \<and> xs = ys"
proof -
  have "v = v'" using dec_enc [of v xs] dec_enc [of v' ys] assms by simp
  then show ?thesis using assms by simp
qed

lemma length_concat_enc:
  "length (concat (map enc vs)) = sum_list (map enc_size vs)"
  by (induction vs) (simp_all add: enc_size_exact)

end

section \<open>vl64: one signed integer\<close>

definition vl8_min :: int where "vl8_min = drop_bit (64 - 7) (- (2 ^ 63))"
definition vl8_max :: int where "vl8_max = drop_bit (64 - 7) (2 ^ 63 - 1)"
definition vl16_min :: int where "vl16_min = drop_bit (64 - 14) (- (2 ^ 63))"
definition vl16_max :: int where "vl16_max = drop_bit (64 - 14) (2 ^ 63 - 1)"
definition vl32_min :: int where "vl32_min = - (2 ^ 31)"
definition vl32_max :: int where "vl32_max = 2 ^ 31 - 1"

definition vl32_type_header :: u8 where "vl32_type_header = 0xC0"
definition vl64_type_header :: u8 where "vl64_type_header = 0xE0"

lemma vl_limits [layout_simps]:
  "vl8_min = - 64" "vl8_max = 63" "vl16_min = - 8192" "vl16_max = 8191"
  "vl32_min = - 2147483648" "vl32_max = 2147483647"
  by (simp_all add: vl8_min_def vl8_max_def vl16_min_def vl16_max_def vl32_min_def vl32_max_def
      drop_bit_eq_div)

text \<open>The packed structures: bit fields are allocated from the least significant bit.\<close>

definition vl8_byte :: "u8 \<Rightarrow> u8 \<Rightarrow> u8" where
  "vl8_byte integer type = (integer AND 0x7F) OR push_bit 7 (type AND 1)"

definition vl8_Type :: "u8 \<Rightarrow> u8" where
  "vl8_Type b = drop_bit 7 b"

definition vl16_byte :: "u8 \<Rightarrow> u8 \<Rightarrow> u8" where
  "vl16_byte t type = (t AND 0x3F) OR push_bit 6 (type AND 3)"

definition vl16_Type :: "u8 \<Rightarrow> u8" where
  "vl16_Type b = drop_bit 6 b"

text \<open>
  \<open>vl16_enc::Integer\<close>: the signed six-bit top field shifted over the low byte, truncated
  to a signed 16-bit value; the final shift pair is on \<open>int\<close> and changes nothing.
\<close>

definition vl16_Integer :: "u8 \<Rightarrow> u8 \<Rightarrow> u64" where
  "vl16_Integer high low =
     sext64 15 (ucast (push_bit 8 (sext64 5 high) OR ucast low) :: u16)"

definition vl64_EncodedSize :: "u64 \<Rightarrow> nat" where
  "vl64_EncodedSize data =
     (if vl8_min \<le> sint data \<and> sint data \<le> vl8_max then 1
      else if vl16_min \<le> sint data \<and> sint data \<le> vl16_max then 2
      else if vl32_min \<le> sint data \<and> sint data \<le> vl32_max then 5
      else 9)"

definition vl64_Encode :: "u64 \<Rightarrow> u8 list" where
  "vl64_Encode data =
     (if vl8_min \<le> sint data \<and> sint data \<le> vl8_max then
        [vl8_byte (ucast data) 0]
      else if vl16_min \<le> sint data \<and> sint data \<le> vl16_max then
        [vl16_byte (ucast (signed_drop_bit 8 data)) 2, ucast (data AND 0xFF)]
      else if vl32_min \<le> sint data \<and> sint data \<le> vl32_max then
        vl32_type_header # store_le 4 (ucast data :: u32)
      else vl64_type_header # store_le 8 data)"

definition vl64_Decode :: "u8 list \<Rightarrow> (u64 \<times> nat) option" where
  "vl64_Decode bs =
     (case bs of [] \<Rightarrow> None
      | b # r \<Rightarrow>
          if vl8_Type b = 0 then Some (sext64 6 b, 1)
          else if vl16_Type b = 2 then
            (case r of [] \<Rightarrow> None | low # _ \<Rightarrow> Some (vl16_Integer b low, 2))
          else if b = vl32_type_header then
            (if length r < 4 then None else Some (sext64 31 (load_le (take 4 r) :: u32), 5))
          else
            (if length r < 8 then None else Some (load_le (take 8 r), 9)))"

lemma vl8_byte_fields [layout_simps]:
  "vl8_Type (vl8_byte i t) = t AND 1"
  "sext64 6 (vl8_byte (ucast (d :: u64)) t) = signed_take_bit 6 d"
  unfolding vl8_Type_def vl8_byte_def sext64_def
  by (rule bit_word_eqI; auto simp: bit_simps and_low_mask min_def)+


lemma vl16_byte_fields [layout_simps]:
  "vl8_Type (vl16_byte t 2) = 1"
  "vl16_Type (vl16_byte t u) = u AND 3"
  "sext64 5 (vl16_byte t u) = signed_take_bit 5 (ucast t)"
  unfolding vl8_Type_def vl16_Type_def vl16_byte_def sext64_def
  by (rule bit_word_eqI; auto simp: bit_simps and_low_mask min_def)+

lemma vl_headers [layout_simps]:
  "vl8_Type vl32_type_header = 1" "vl16_Type vl32_type_header = 3"
  "vl8_Type vl64_type_header = 1" "vl16_Type vl64_type_header = 3"
  "vl64_type_header \<noteq> vl32_type_header"
  by (simp_all add: vl8_Type_def vl16_Type_def vl32_type_header_def vl64_type_header_def)

lemma vl16_Integer_byte [layout_simps]:
  "vl16_Integer (vl16_byte (ucast (signed_drop_bit 8 d)) u) (ucast (d AND 0xFF)) = signed_take_bit 13 d"
  unfolding vl16_Integer_def sext64_def vl16_byte_def
  by (rule bit_word_eqI)
    (auto simp: bit_simps and_low_mask min_def)

lemma sext64_ucast32 [layout_simps]: "sext64 31 (ucast (d :: u64) :: u32) = signed_take_bit 31 d"
  unfolding sext64_def by (rule bit_word_eqI) (auto simp: bit_simps min_def)

interpretation vl64: prefix_codec vl64_Encode vl64_Decode vl64_EncodedSize
proof
  fix v rest
  show "length (vl64_Encode v) = vl64_EncodedSize v"
    by (simp add: vl64_Encode_def vl64_EncodedSize_def)
  show "0 < vl64_EncodedSize v" by (simp add: vl64_EncodedSize_def)
  show "vl64_Decode (vl64_Encode v @ rest) = Some (v, vl64_EncodedSize v)"
    by (auto simp: vl64_Encode_def vl64_EncodedSize_def vl64_Decode_def layout_simps word_range)
qed


section \<open>vl64pair: a host-PC and a guest-RIP delta\<close>

text \<open>
  The size tests. \<open>can_encode_vl8\<close> compares unsigned values, the other two reinterpret
  both deltas as signed.
\<close>

definition can_encode_vl8 :: "u64 \<Rightarrow> u64 \<Rightarrow> bool" where
  "can_encode_vl8 data_arm data_rip =
     (if data_rip < 1 \<or> data_rip > 8 then False
      else if data_arm AND 3 \<noteq> 0 then False
      else (let shifted = sint (drop_bit 2 data_arm) in \<not> (shifted < 1 \<or> shifted > 16)))"

definition can_encode_vl16 :: "u64 \<Rightarrow> u64 \<Rightarrow> bool" where
  "can_encode_vl16 data_arm data_rip =
     (if sint data_rip < - 32 \<or> sint data_rip > 31 then False
      else if data_arm AND 3 \<noteq> 0 then False
      else (let shifted = sint (signed_drop_bit 2 data_arm) in \<not> (shifted < - 128 \<or> shifted > 127)))"

definition can_encode_vl32 :: "u64 \<Rightarrow> u64 \<Rightarrow> bool" where
  "can_encode_vl32 data_arm data_rip =
     (if sint data_rip < vl32_min \<or> sint data_rip > vl32_max then False
      else if sint data_arm < vl32_min \<or> sint data_arm > vl32_max then False
      else True)"

definition vl64pair_EncodedSize :: "u64 \<times> u64 \<Rightarrow> nat" where
  "vl64pair_EncodedSize d =
     (case d of (data_arm, data_rip) \<Rightarrow>
        if can_encode_vl8 data_arm data_rip then 1
        else if can_encode_vl16 data_arm data_rip then 2
        else if can_encode_vl32 data_arm data_rip then 9
        else 17)"

text \<open>\<open>vl8_enc\<close> of the pair: four bits of host PC, three bits of guest RIP, one type bit.\<close>

definition vl8pair_byte :: "u8 \<Rightarrow> u8 \<Rightarrow> u8 \<Rightarrow> u8" where
  "vl8pair_byte arm rip type =
     (arm AND 0xF) OR push_bit 4 (rip AND 7) OR push_bit 7 (type AND 1)"

definition vl8pair_ARMPC :: "u8 \<Rightarrow> u64" where
  "vl8pair_ARMPC b = ucast (b AND 0xF)"

definition vl8pair_X86RIP :: "u8 \<Rightarrow> u64" where
  "vl8pair_X86RIP b = ucast (drop_bit 4 b AND 7)"

definition vl64pair_Encode :: "u64 \<times> u64 \<Rightarrow> u8 list" where
  "vl64pair_Encode d =
     (case d of (data_arm, data_rip) \<Rightarrow>
        if can_encode_vl8 data_arm data_rip then
          [vl8pair_byte (ucast (drop_bit 2 (data_arm - 1))) (ucast (data_rip - 1)) 0]
        else if can_encode_vl16 data_arm data_rip then
          [vl16_byte (ucast data_rip) 2, ucast (signed_drop_bit 2 data_arm)]
        else if can_encode_vl32 data_arm data_rip then
          vl32_type_header # store_le 4 (ucast data_arm :: u32) @ store_le 4 (ucast data_rip :: u32)
        else vl64_type_header # store_le 8 data_arm @ store_le 8 data_rip)"

text \<open>The three overloads of \<open>Decode\<close> on one encoded structure each.\<close>

definition Decode_vl8 :: "u8 \<Rightarrow> (u64 \<times> u64) \<times> nat" where
  "Decode_vl8 b = ((push_bit 2 (vl8pair_ARMPC b + 1), vl8pair_X86RIP b + 1), 1)"

definition Decode_vl16 :: "u8 \<Rightarrow> u8 \<Rightarrow> (u64 \<times> u64) \<times> nat" where
  "Decode_vl16 high low = ((push_bit 2 (sext64 7 low), sext64 5 high), 2)"

definition Decode_vl32 :: "u32 \<Rightarrow> u32 \<Rightarrow> (u64 \<times> u64) \<times> nat" where
  "Decode_vl32 arm rip = ((sext64 31 arm, sext64 31 rip), 9)"

definition vl64pair_Decode :: "u8 list \<Rightarrow> ((u64 \<times> u64) \<times> nat) option" where
  "vl64pair_Decode bs =
     (case bs of [] \<Rightarrow> None
      | b # r \<Rightarrow>
          if vl8_Type b = 0 then Some (Decode_vl8 b)
          else if vl16_Type b = 2 then
            (case r of [] \<Rightarrow> None | low # _ \<Rightarrow> Some (Decode_vl16 b low))
          else if b = vl32_type_header then
            (if length r < 8 then None
             else Some (Decode_vl32 (load_le (take 4 r)) (load_le (take 4 (drop 4 r)))))
          else
            (if length r < 16 then None
             else Some ((load_le (take 8 r), load_le (take 8 (drop 8 r))), 17)))"

lemma vl8pair_byte_fields [layout_simps]:
  "vl8_Type (vl8pair_byte a r t) = t AND 1"
  "vl8pair_ARMPC (vl8pair_byte a r t) = ucast (take_bit 4 a)"
  "vl8pair_X86RIP (vl8pair_byte a r t) = ucast (take_bit 3 r)"
  unfolding vl8_Type_def vl8pair_byte_def vl8pair_ARMPC_def vl8pair_X86RIP_def
  by (rule bit_word_eqI; auto simp: bit_simps and_low_mask)+

lemma and_3_eq_0_push_drop:
  fixes x :: u64
  assumes "x AND 3 = 0"
  shows "push_bit 2 (drop_bit 2 x) = x" "push_bit 2 (signed_drop_bit 2 x) = x"
proof -
  have "take_bit 2 x = 0" using assms by (simp add: and_low_mask)
  then show e: "push_bit 2 (drop_bit 2 x) = x" using bits_ident [of 2 x] by simp
  have "push_bit 2 (signed_drop_bit 2 x) = push_bit 2 (drop_bit 2 x)"
    by (rule bit_word_eqI) (auto simp: bit_simps)
  with e show "push_bit 2 (signed_drop_bit 2 x) = x" by simp
qed

text \<open>Both narrow fields of the one-byte form store the value minus one.\<close>

lemma ucast_field_succ:
  fixes r :: u64
  assumes "1 \<le> uint r" "uint r \<le> 2 ^ n" "n \<le> 8"
  shows "ucast (take_bit n (ucast (r - 1) :: u8)) + 1 = r"
proof -
  have u: "uint (r - 1) = uint r - 1"
    using assms(1) by (simp add: uint_sub_if')
  have "(2::int) ^ n \<le> 2 ^ 8" using assms(3) by (intro power_increasing) simp_all
  with u assms have "uint (ucast (take_bit n (ucast (r - 1) :: u8)) :: u64) = uint (r - 1)"
    by (simp add: unsigned_ucast_eq unsigned_take_bit_eq take_bit_int_eq_self min_def)
  then have "(ucast (take_bit n (ucast (r - 1) :: u8)) :: u64) = r - 1"
    by (rule word_uint_eqI)
  then show ?thesis by simp
qed

lemma vl8_arm_roundtrip:
  fixes a :: u64
  assumes "a AND 3 = 0" "1 \<le> sint (drop_bit 2 a)" "sint (drop_bit 2 a) \<le> 16"
  shows "push_bit 2 (ucast (take_bit 4 (ucast (drop_bit 2 (a - 1)) :: u8)) + 1) = a"
proof -
  define q where "q = drop_bit 2 a"
  have a: "a = push_bit 2 q" using and_3_eq_0_push_drop(1) [OF assms(1)] by (simp add: q_def)
  have qa: "uint q = uint a div 4"
    by (simp add: q_def drop_bit_eq_div uint_div_distrib)
  have "uint a < 2 ^ 64" using uint_bounded [of a] by simp
  with qa have "uint q < 2 ^ 63" by simp
  moreover have "- (2 ^ 63) \<le> uint q"
    by (rule order_trans [OF _ uint_nonnegative]) simp
  ultimately have "signed_take_bit 63 (uint q) = uint q"
    by (intro signed_take_bit_int_eq_self)
  then have uq: "uint q = sint q" by (simp add: sint_uint)
  have "uint a = 4 * uint q"
    using qa \<open>uint a < 2 ^ 64\<close> by (simp add: a push_bit_eq_mult uint_word_ariths)
  moreover have "1 \<le> uint q" using assms(2) uq by (simp only: q_def)
  ultimately have "uint (drop_bit 2 (a - 1)) = uint (q - 1)"
    by (simp add: drop_bit_eq_div uint_div_distrib uint_sub_if')
  then have d: "drop_bit 2 (a - 1) = q - 1" by (rule word_uint_eqI)
  have "uint q \<le> 2 ^ 4" using assms(3) uq by (simp add: q_def)
  with \<open>1 \<le> uint q\<close> have "ucast (take_bit 4 (ucast (q - 1) :: u8)) + 1 = q"
    by (intro ucast_field_succ) simp_all
  with d show ?thesis by (simp only: a [symmetric])
qed

lemma pair16_roundtrip:
  fixes a :: u64
  assumes "a AND 3 = 0" "- 128 \<le> sint (signed_drop_bit 2 a)" "sint (signed_drop_bit 2 a) \<le> 127"
  shows "push_bit 2 (sext64 7 (ucast (signed_drop_bit 2 a) :: u8)) = a"
proof -
  have "sext64 7 (ucast (signed_drop_bit 2 a) :: u8) = signed_take_bit 7 (signed_drop_bit 2 a)"
    unfolding sext64_def by (rule bit_word_eqI) (auto simp: bit_simps min_def)
  also have "\<dots> = signed_drop_bit 2 a"
    using assms(2,3) by (intro signed_take_bit_word_id) simp_all
  finally show ?thesis using and_3_eq_0_push_drop(2) [OF assms(1)] by simp
qed

lemma can_encode_vl8_roundtrip:
  assumes "can_encode_vl8 a r"
  shows "push_bit 2 (ucast (take_bit 4 (ucast (drop_bit 2 (a - 1)) :: u8)) + 1) = a"
    and "ucast (take_bit 3 (ucast (r - 1) :: u8)) + 1 = r"
  using assms vl8_arm_roundtrip [of a] ucast_field_succ [of r 3]
  by (auto simp: can_encode_vl8_def Let_def word_less_def not_less split: if_splits)

lemma can_encode_vl16_roundtrip:
  assumes "can_encode_vl16 a r"
  shows "push_bit 2 (sext64 7 (ucast (signed_drop_bit 2 a) :: u8)) = a"
    and "signed_take_bit 5 (ucast (ucast r :: u8)) = r"
proof -
  show "push_bit 2 (sext64 7 (ucast (signed_drop_bit 2 a) :: u8)) = a"
    using assms pair16_roundtrip [of a]
    by (auto simp: can_encode_vl16_def Let_def not_less split: if_splits)
  have "signed_take_bit 5 (ucast (ucast r :: u8)) = signed_take_bit 5 r"
    by (rule bit_word_eqI) (auto simp: bit_simps min_def)
  also have "\<dots> = r"
    using assms by (intro signed_take_bit_word_id)
      (auto simp: can_encode_vl16_def not_less split: if_splits)
  finally show "signed_take_bit 5 (ucast (ucast r :: u8)) = r" .
qed

lemma can_encode_vl32_roundtrip:
  assumes "can_encode_vl32 a r"
  shows "signed_take_bit 31 a = a" and "signed_take_bit 31 r = r"
  using assms by (auto simp: can_encode_vl32_def layout_simps word_range not_less split: if_splits)

interpretation vl64pair: prefix_codec vl64pair_Encode vl64pair_Decode vl64pair_EncodedSize
proof
  fix v :: "u64 \<times> u64" and rest
  obtain a r where v: "v = (a, r)" by (cases v)
  show "length (vl64pair_Encode v) = vl64pair_EncodedSize v"
    by (simp add: v vl64pair_Encode_def vl64pair_EncodedSize_def)
  show "0 < vl64pair_EncodedSize v" by (simp add: v vl64pair_EncodedSize_def)
  show "vl64pair_Decode (vl64pair_Encode v @ rest) = Some (v, vl64pair_EncodedSize v)"
    by (auto simp: v vl64pair_Encode_def vl64pair_EncodedSize_def vl64pair_Decode_def layout_simps
        Decode_vl8_def Decode_vl16_def Decode_vl32_def can_encode_vl8_roundtrip
        can_encode_vl16_roundtrip can_encode_vl32_roundtrip)
qed

section \<open>Properties\<close>

text \<open>
  C29. Every 64-bit value survives an encode and decode with \<open>vl64\<close>, whatever bytes follow,
  and the number of bytes consumed is the predicted size.
\<close>

theorem vl64_roundtrip:
  "vl64_Decode (vl64_Encode data @ rest) = Some (data, vl64_EncodedSize data)
   \<and> length (vl64_Encode data) = vl64_EncodedSize data"
  by (simp add: vl64.dec_enc vl64.enc_size_exact)

text \<open>
  Every pair of 64-bit deltas survives an encode and decode with \<open>vl64pair\<close>, whatever
  bytes follow, and the number of bytes consumed is the predicted size.
\<close>

theorem vl64pair_roundtrip:
  "vl64pair_Decode (vl64pair_Encode (arm, rip) @ rest) =
     Some ((arm, rip), vl64pair_EncodedSize (arm, rip))
   \<and> length (vl64pair_Encode (arm, rip)) = vl64pair_EncodedSize (arm, rip)"
  by (simp add: vl64pair.dec_enc vl64pair.enc_size_exact)

end
