(* ===== verification/RipTable.thy ===== *)
theory RipTable
  imports Varlen
begin

text \<open>
  The per-block table that maps host PCs back to guest PCs: the encoding loop at the end of
  \<open>CompileCode\<close> in \<open>FEXCore/Source/Interface/Core/JIT/PPC64LE/JIT.cpp\<close>, and its reader
  \<open>WalkBlockRIPTable\<close> with \<open>RestoreRIPFromHostPC\<close> in \<open>FEXCore/Source/Interface/Core/Core.cpp\<close>.
  The table is a run of \<open>vl64pair\<close> entries; the client lemmas rest on the \<open>prefix_codec\<close>
  interface of \<open>Varlen\<close>.
\<close>

section \<open>State\<close>

record guest_opcode =
  GuestEntryOffset :: u64
  HostEntryOffset :: u64

text \<open>
  \<open>JITCodeTail\<close>; \<open>RIPEntries\<close> is the memory that follows it, at \<open>OffsetToRIPEntries\<close>.
\<close>

record jit_code_tail =
  tail_Size :: u64
  tail_RIP :: u64
  tail_GuestSize :: u64
  NumberOfRIPEntries :: u32
  OffsetToRIPEntries :: u32
  SpinLockFutex :: u32
  SingleInst :: bool
  EntryNZCVLiveIn :: bool
  ColdSize :: u32
  RIPEntries :: "u8 list"

section \<open>Operations\<close>

definition rip_offset :: "guest_opcode \<Rightarrow> u64" where
  "rip_offset g = sext64 31 (ucast (GuestEntryOffset g) :: u32)"

fun encode_rip_entries :: "u64 \<Rightarrow> u64 \<Rightarrow> guest_opcode list \<Rightarrow> u8 list" where
  "encode_rip_entries prev_pc prev_rip [] = []"
| "encode_rip_entries prev_pc prev_rip (g # gs) =
     vl64pair_Encode (HostEntryOffset g - prev_pc, rip_offset g - prev_rip)
     @ encode_rip_entries (HostEntryOffset g) (rip_offset g) gs"

text \<open>
  The tail \<open>CompileCode\<close> publishes for a unit; its entries follow the 48 bytes of the
  structure, and the link thunks (112 bytes each) follow the 16-byte aligned entries.
\<close>

record unit_data =
  unit_CodeSize :: u64
  unit_Entry :: u64
  unit_GuestSize :: u64
  unit_SingleInst :: bool
  unit_EntryNZCVLiveIn :: bool
  unit_NumThunks :: nat

definition cold_size :: "nat \<Rightarrow> guest_opcode list \<Rightarrow> u64" where
  "cold_size thunks gs =
     (let tail_and_entries = 48 + of_nat (length (encode_rip_entries 0 0 gs)) in
      ((tail_and_entries + 15) AND NOT 15) + of_nat thunks * 112)"

definition publish_tail :: "unit_data \<Rightarrow> guest_opcode list \<Rightarrow> jit_code_tail" where
  "publish_tail u gs =
     \<lparr>tail_Size = unit_CodeSize u, tail_RIP = unit_Entry u, tail_GuestSize = unit_GuestSize u,
      NumberOfRIPEntries = of_nat (length gs), OffsetToRIPEntries = 48, SpinLockFutex = 0,
      SingleInst = unit_SingleInst u, EntryNZCVLiveIn = unit_EntryNZCVLiveIn u,
      ColdSize = ucast (cold_size (unit_NumThunks u) gs),
      RIPEntries = encode_rip_entries 0 0 gs\<rparr>"

fun walk_rip_entries :: "nat \<Rightarrow> u8 list \<Rightarrow> u64 \<Rightarrow> u64 \<Rightarrow> u64 \<Rightarrow> u64 option" where
  "walk_rip_entries 0 bs host_pc start_host start_guest = Some start_guest"
| "walk_rip_entries (Suc n) bs host_pc start_host start_guest =
     (case vl64pair_Decode bs of None \<Rightarrow> None
      | Some ((arm, rip), k) \<Rightarrow>
          if host_pc \<ge> start_host + arm then
            walk_rip_entries n (drop k bs) host_pc (start_host + arm) (start_guest + rip)
          else Some start_guest)"

definition WalkBlockRIPTable :: "u64 \<Rightarrow> jit_code_tail \<Rightarrow> u64 \<Rightarrow> u64 option" where
  "WalkBlockRIPTable block_begin tail host_pc =
     walk_rip_entries (unat (NumberOfRIPEntries tail)) (RIPEntries tail) host_pc
       block_begin (tail_RIP tail)"

text \<open>
  \<open>RestoreRIPFromHostPC\<close>: the block the block index found for the host PC, if any, and the
  \<open>State.pc\<close> to fall back on.
\<close>

definition RestoreRIPFromHostPC :: "(u64 \<times> jit_code_tail) option \<Rightarrow> u64 \<Rightarrow> u64 \<Rightarrow> u64 option" where
  "RestoreRIPFromHostPC info state_pc host_pc =
     (case info of
        None \<Rightarrow> Some state_pc
      | Some (block_begin, tail) \<Rightarrow>
          if NumberOfRIPEntries tail = 0 then Some state_pc
          else WalkBlockRIPTable block_begin tail host_pc)"

section \<open>Specification\<close>

text \<open>
  The opcodes whose host code starts at or before the host PC; the last of them is the one
  being executed.
\<close>

definition reached :: "u64 \<Rightarrow> u64 \<Rightarrow> guest_opcode list \<Rightarrow> guest_opcode list" where
  "reached block_begin host_pc gs = filter (\<lambda>g. block_begin + HostEntryOffset g \<le> host_pc) gs"

definition rip_spec :: "u64 \<Rightarrow> u64 \<Rightarrow> u64 \<Rightarrow> guest_opcode list \<Rightarrow> u64" where
  "rip_spec rip block_begin host_pc gs =
     (if reached block_begin host_pc gs = [] then rip
      else rip + rip_offset (last (reached block_begin host_pc gs)))"

text \<open>
  What \<open>CompileCode\<close> asserts of the opcode list (ascending host order), with host code that
  does not wrap around the address space.
\<close>

definition ascending_hosts :: "u64 \<Rightarrow> guest_opcode list \<Rightarrow> bool" where
  "ascending_hosts block_begin gs \<longleftrightarrow>
     sorted (map (\<lambda>g. unat (HostEntryOffset g)) gs)
     \<and> list_all (\<lambda>g. unat block_begin + unat (HostEntryOffset g) < 2 ^ 64) gs"

section \<open>Lemmas\<close>

lemma encode_rip_entries_bound: "length (encode_rip_entries p r gs) \<le> length gs * 17"
proof (induction gs arbitrary: p r)
  case (Cons g gs)
  have "length (vl64pair_Encode v) \<le> 17" for v
    by (simp add: vl64pair.enc_size_exact vl64pair_EncodedSize_def split: prod.split)
  then show ?case using Cons by (simp add: add_mono)
qed simp

lemma add_offset_le_iff:
  fixes b h1 h2 :: u64
  assumes "unat b + unat h1 < 2 ^ 64" "unat b + unat h2 < 2 ^ 64"
  shows "b + h1 \<le> b + h2 \<longleftrightarrow> unat h1 \<le> unat h2"
  using assms by (simp add: word_le_nat_alt unat_add_lem [THEN iffD1])

lemma reached_none:
  assumes "ascending_hosts b (g # gs)" and "\<not> b + HostEntryOffset g \<le> host_pc"
  shows "reached b host_pc (g # gs) = []"
proof -
  have "\<not> b + HostEntryOffset h \<le> host_pc" if "h \<in> set gs" for h
  proof -
    have "b + HostEntryOffset g \<le> b + HostEntryOffset h"
      using assms(1) that by (subst add_offset_le_iff) (auto simp: ascending_hosts_def list_all_iff)
    then show ?thesis using assms(2) by auto
  qed
  then show ?thesis using assms(2) by (auto simp: reached_def filter_empty_conv)
qed

lemma walk_encode:
  assumes "ascending_hosts b gs"
  shows "walk_rip_entries (length gs) (encode_rip_entries p r gs @ rest) host_pc (b + p) (rip + r) =
    Some (if reached b host_pc gs = [] then rip + r
          else rip + rip_offset (last (reached b host_pc gs)))"
  using assms
proof (induction gs arbitrary: p r)
  case Nil
  then show ?case by (simp add: reached_def)
next
  case (Cons g gs)
  show ?case
  proof (cases "b + HostEntryOffset g \<le> host_pc")
    case True
    have "ascending_hosts b gs" using Cons.prems by (simp add: ascending_hosts_def)
    then show ?thesis
      using True Cons.IH [of "HostEntryOffset g" "rip_offset g"]
      by (simp add: vl64pair.dec_enc vl64pair.enc_size_exact reached_def)
  next
    case False
    then show ?thesis
      using reached_none [OF Cons.prems False] by (simp add: vl64pair.dec_enc)
  qed
qed

section \<open>Properties\<close>

text \<open>
  C28. For every unit the JIT publishes, and every host PC, the table walk terminates
  without reading past the table and yields the guest PC of the last guest instruction
  whose host code starts at or before the host PC (the block's own PC when there is none).
\<close>

theorem restore_rip_correct:
  assumes "ascending_hosts block_begin gs" and "gs \<noteq> []" and "length gs < 2 ^ 32"
  shows "RestoreRIPFromHostPC (Some (block_begin, publish_tail u gs)) state_pc host_pc =
    Some (rip_spec (unit_Entry u) block_begin host_pc gs)"
proof -
  have n: "unat (of_nat (length gs) :: u32) = length gs"
    using assms(3) by (simp add: unat_of_nat)
  then have "(of_nat (length gs) :: u32) \<noteq> 0"
    using assms(2) by (metis length_0_conv unat_0)
  with n show ?thesis
    using walk_encode [OF assms(1), of 0 0 "[]" host_pc "unit_Entry u"]
    by (simp add: RestoreRIPFromHostPC_def WalkBlockRIPTable_def publish_tail_def rip_spec_def)
qed

definition demo_unit :: unit_data where
  "demo_unit = \<lparr>unit_CodeSize = 0x200, unit_Entry = 0x400000, unit_GuestSize = 12,
     unit_SingleInst = False, unit_EntryNZCVLiveIn = False, unit_NumThunks = 1\<rparr>"

definition demo_opcodes :: "guest_opcode list" where
  "demo_opcodes = [\<lparr>GuestEntryOffset = 0, HostEntryOffset = 16\<rparr>,
     \<lparr>GuestEntryOffset = 4, HostEntryOffset = 24\<rparr>, \<lparr>GuestEntryOffset = 8, HostEntryOffset = 200\<rparr>]"

theorem restore_rip_correct_witness:
  "RestoreRIPFromHostPC (Some (0x10000, publish_tail demo_unit demo_opcodes)) 7 0x10020 =
     Some 0x400004"
proof -
  have "ascending_hosts 0x10000 demo_opcodes" by (simp add: ascending_hosts_def demo_opcodes_def)
  then have "RestoreRIPFromHostPC (Some (0x10000, publish_tail demo_unit demo_opcodes)) 7 0x10020 =
      Some (rip_spec (unit_Entry demo_unit) 0x10000 0x10020 demo_opcodes)"
    by (rule restore_rip_correct) (simp_all add: demo_opcodes_def)
  also have "rip_spec (unit_Entry demo_unit) 0x10000 0x10020 demo_opcodes = 0x400004"
    by (simp add: rip_spec_def reached_def demo_opcodes_def demo_unit_def rip_offset_def sext64_def)
  finally show ?thesis .
qed

text \<open>
  The encoded entries of a unit with \<open>n\<close> guest opcodes never need more than \<open>17 * n\<close>
  bytes, the size \<open>CompileCode\<close> reserves for them.
\<close>

theorem rip_entries_fit: "length (RIPEntries (publish_tail u gs)) \<le> length gs * 17"
  by (simp add: publish_tail_def encode_rip_entries_bound)

end
