(* ===== verification/Bpf.thy ===== *)
theory Bpf
  imports Prelude
begin

text \<open>
  The classic-BPF validator and interpreter for guest seccomp filters,
  \<open>Source/Tools/LinuxEmulation/LinuxSyscalls/Seccomp/BPFInterpreter.cpp\<close>. The program is a
  list of instructions, the seccomp data a list of bytes, the scratch memory a list of words;
  an access outside them, undefined in C++, is the outcome \<open>Fault\<close>. A program that
  was never validated can loop, so the loop takes fuel and running out of it is \<open>None\<close>.
\<close>

section \<open>Instruction encoding\<close>

text \<open>\<open>struct sock_filter\<close> and the field masks and opcodes of the Linux classic-BPF ABI.\<close>

record sock_filter =
  sf_code :: u16
  sf_jt :: u8
  sf_jf :: u8
  sf_k :: u32

definition BPF_CLASS :: "u16 \<Rightarrow> u16" where "BPF_CLASS c = c AND 0x07"
definition BPF_SIZE :: "u16 \<Rightarrow> u16" where "BPF_SIZE c = c AND 0x18"
definition BPF_MODE :: "u16 \<Rightarrow> u16" where "BPF_MODE c = c AND 0xE0"
definition BPF_OP :: "u16 \<Rightarrow> u16" where "BPF_OP c = c AND 0xF0"
definition BPF_SRC :: "u16 \<Rightarrow> u16" where "BPF_SRC c = c AND 0x08"
definition BPF_RVAL :: "u16 \<Rightarrow> u16" where "BPF_RVAL c = c AND 0x18"
definition BPF_MISCOP :: "u16 \<Rightarrow> u16" where "BPF_MISCOP c = c AND 0xF8"

abbreviation BPF_LD :: u16 where "BPF_LD \<equiv> 0"
abbreviation BPF_LDX :: u16 where "BPF_LDX \<equiv> 1"
abbreviation BPF_ST :: u16 where "BPF_ST \<equiv> 2"
abbreviation BPF_STX :: u16 where "BPF_STX \<equiv> 3"
abbreviation BPF_ALU :: u16 where "BPF_ALU \<equiv> 4"
abbreviation BPF_JMP :: u16 where "BPF_JMP \<equiv> 5"
abbreviation BPF_RET :: u16 where "BPF_RET \<equiv> 6"
abbreviation BPF_MISC :: u16 where "BPF_MISC \<equiv> 7"

abbreviation BPF_W :: u16 where "BPF_W \<equiv> 0"
abbreviation BPF_IMM :: u16 where "BPF_IMM \<equiv> 0x00"
abbreviation BPF_ABS :: u16 where "BPF_ABS \<equiv> 0x20"
abbreviation BPF_MEM :: u16 where "BPF_MEM \<equiv> 0x60"
abbreviation BPF_LEN :: u16 where "BPF_LEN \<equiv> 0x80"

abbreviation BPF_ADD :: u16 where "BPF_ADD \<equiv> 0x00"
abbreviation BPF_SUB :: u16 where "BPF_SUB \<equiv> 0x10"
abbreviation BPF_MUL :: u16 where "BPF_MUL \<equiv> 0x20"
abbreviation BPF_DIV :: u16 where "BPF_DIV \<equiv> 0x30"
abbreviation BPF_OR :: u16 where "BPF_OR \<equiv> 0x40"
abbreviation BPF_AND :: u16 where "BPF_AND \<equiv> 0x50"
abbreviation BPF_LSH :: u16 where "BPF_LSH \<equiv> 0x60"
abbreviation BPF_RSH :: u16 where "BPF_RSH \<equiv> 0x70"
abbreviation BPF_NEG :: u16 where "BPF_NEG \<equiv> 0x80"
abbreviation BPF_MOD :: u16 where "BPF_MOD \<equiv> 0x90"
abbreviation BPF_XOR :: u16 where "BPF_XOR \<equiv> 0xA0"

abbreviation BPF_JA :: u16 where "BPF_JA \<equiv> 0x00"
abbreviation BPF_JEQ :: u16 where "BPF_JEQ \<equiv> 0x10"
abbreviation BPF_JGT :: u16 where "BPF_JGT \<equiv> 0x20"
abbreviation BPF_JGE :: u16 where "BPF_JGE \<equiv> 0x30"
abbreviation BPF_JSET :: u16 where "BPF_JSET \<equiv> 0x40"

abbreviation BPF_K :: u16 where "BPF_K \<equiv> 0x00"
abbreviation BPF_X :: u16 where "BPF_X \<equiv> 0x08"
abbreviation BPF_A :: u16 where "BPF_A \<equiv> 0x10"
abbreviation BPF_TAX :: u16 where "BPF_TAX \<equiv> 0x00"
abbreviation BPF_TXA :: u16 where "BPF_TXA \<equiv> 0x80"

abbreviation BPF_MEMWORDS :: nat where "BPF_MEMWORDS \<equiv> 16"
abbreviation SECCOMP_DATA_SIZE :: nat where "SECCOMP_DATA_SIZE \<equiv> 64"
abbreviation EINVAL :: u64 where "EINVAL \<equiv> 22"

section \<open>Validation\<close>

text \<open>
  One iteration of the loop of \<open>ValidateProgram\<close> on the instruction at index \<open>i\<close>;
  \<open>False\<close> is the early return of \<open>-EINVAL\<close>. Jump targets are computed in 64 bits.
\<close>

definition validate_inst :: "nat \<Rightarrow> nat \<Rightarrow> sock_filter \<Rightarrow> bool" where
  "validate_inst num_insts i inst =
     (let code = sf_code inst; cls = BPF_CLASS code in
      if cls = BPF_LD \<or> cls = BPF_LDX then
        if BPF_SIZE code \<noteq> BPF_W then False
        else if BPF_MODE code = BPF_IMM then True
        else if BPF_MODE code = BPF_ABS then
          \<not> (sf_k inst AND 3 \<noteq> 0 \<or> unat (sf_k inst) \<ge> SECCOMP_DATA_SIZE)
        else if BPF_MODE code = BPF_MEM then \<not> unat (sf_k inst) \<ge> BPF_MEMWORDS
        else if BPF_MODE code = BPF_LEN then True
        else False
      else if cls = BPF_ST \<or> cls = BPF_STX then
        if BPF_SIZE code \<noteq> BPF_W then False
        else \<not> unat (sf_k inst) \<ge> BPF_MEMWORDS
      else if cls = BPF_ALU then
        if BPF_OP code \<in> {BPF_ADD, BPF_SUB, BPF_MUL, BPF_DIV, BPF_OR, BPF_AND, BPF_LSH,
              BPF_RSH, BPF_MOD, BPF_XOR} then True
        else if BPF_OP code = BPF_NEG then BPF_SRC code = BPF_K
        else False
      else if cls = BPF_JMP then
        if BPF_OP code = BPF_JA then
          if BPF_SRC code \<noteq> BPF_K then False
          else \<not> i + unat (sf_k inst) + 1 \<ge> num_insts
        else if BPF_OP code \<in> {BPF_JEQ, BPF_JGT, BPF_JGE, BPF_JSET} then
          \<not> (i + unat (sf_jt inst) + 1 \<ge> num_insts \<or> i + unat (sf_jf inst) + 1 \<ge> num_insts)
        else False
      else if cls = BPF_RET then BPF_RVAL code \<in> {BPF_K, BPF_X, BPF_A}
      else if cls = BPF_MISC then BPF_MISCOP code \<in> {BPF_TAX, BPF_TXA}
      else False)"

fun validate_from :: "nat \<Rightarrow> nat \<Rightarrow> sock_filter list \<Rightarrow> bool" where
  "validate_from num_insts i [] = True"
| "validate_from num_insts i (inst # rest) =
     (if validate_inst num_insts i inst then validate_from num_insts (Suc i) rest else False)"

text \<open>
  \<open>ValidateProgram\<close> after the loop reads the last instruction; for an empty program that
  read is out of bounds (\<open>None\<close>), which is why the callers reject a zero length first.
\<close>

definition ValidateProgram :: "sock_filter list \<Rightarrow> u64 option" where
  "ValidateProgram prog =
     (if \<not> validate_from (length prog) 0 prog then Some (- EINVAL)
      else if prog = [] then None
      else if BPF_CLASS (sf_code (last prog)) \<noteq> BPF_RET then Some (- EINVAL)
      else Some 0)"

section \<open>Execution\<close>

record bpf_state =
  bpf_A :: u32
  bpf_X :: u32
  bpf_IP :: u32
  Scratch :: "u32 list"

datatype bpf_outcome = Continue bpf_state | Return u32 "u32 list" | Fault

text \<open>The value of a load, \<open>None\<close> for an access outside its buffer or an unknown mode.\<close>

datatype bpf_load = Loaded u32 | LoadFault | LoadUnknown

definition load_value :: "u8 list \<Rightarrow> u32 list \<Rightarrow> sock_filter \<Rightarrow> bpf_load" where
  "load_value data scratch inst =
     (let k = sf_k inst; mode = BPF_MODE (sf_code inst) in
      if mode = BPF_IMM then Loaded k
      else if mode = BPF_ABS then
        (if unat k + 4 \<le> length data then Loaded (load_le (take 4 (drop (unat k) data)))
         else LoadFault)
      else if mode = BPF_MEM then
        (if unat k < length scratch then Loaded (scratch ! unat k) else LoadFault)
      else if mode = BPF_LEN then Loaded (of_nat SECCOMP_DATA_SIZE)
      else LoadUnknown)"

text \<open>The ALU; \<open>None\<close> is the fail-closed \<open>return 0\<close>.\<close>

definition alu :: "u16 \<Rightarrow> u32 \<Rightarrow> u32 \<Rightarrow> u32 option" where
  "alu op a src =
     (if op = BPF_ADD then Some (a + src)
      else if op = BPF_SUB then Some (a - src)
      else if op = BPF_MUL then Some (a * src)
      else if op = BPF_DIV then (if src = 0 then None else Some (a div src))
      else if op = BPF_MOD then (if src = 0 then None else Some (a mod src))
      else if op = BPF_OR then Some (a OR src)
      else if op = BPF_AND then Some (a AND src)
      else if op = BPF_XOR then Some (a XOR src)
      else if op = BPF_LSH then Some (push_bit (unat (src AND 31)) a)
      else if op = BPF_RSH then Some (drop_bit (unat (src AND 31)) a)
      else if op = BPF_NEG then Some (- a)
      else None)"

text \<open>The distance a jump adds to \<open>IP\<close> before the loop increment; \<open>None\<close> is \<open>return 0\<close>.\<close>

definition jump_distance :: "sock_filter \<Rightarrow> u32 \<Rightarrow> u32 \<Rightarrow> u32 option" where
  "jump_distance inst a src =
     (let op = BPF_OP (sf_code inst); jt = ucast (sf_jt inst); jf = ucast (sf_jf inst) in
      if op = BPF_JA then Some (sf_k inst)
      else if op = BPF_JEQ then Some (if a = src then jt else jf)
      else if op = BPF_JGT then Some (if a > src then jt else jf)
      else if op = BPF_JGE then Some (if a \<ge> src then jt else jf)
      else if op = BPF_JSET then Some (if a AND src \<noteq> 0 then jt else jf)
      else None)"

definition store_scratch :: "bpf_state \<Rightarrow> u32 \<Rightarrow> u32 \<Rightarrow> bpf_outcome" where
  "store_scratch s k v =
     (if unat k < length (Scratch s) then Continue (s\<lparr>Scratch := (Scratch s)[unat k := v]\<rparr>)
      else Fault)"

text \<open>The body of the loop of \<open>Execute\<close> on one instruction.\<close>

definition bpf_step :: "u8 list \<Rightarrow> sock_filter \<Rightarrow> bpf_state \<Rightarrow> bpf_outcome" where
  "bpf_step data inst s =
     (let code = sf_code inst; k = sf_k inst; cls = BPF_CLASS code;
          src = (if BPF_SRC code = BPF_X then bpf_X s else k);
          fail_closed = Return 0 (Scratch s) in
      if cls = BPF_LD \<or> cls = BPF_LDX then
        (case load_value data (Scratch s) inst of
           LoadFault \<Rightarrow> Fault
         | LoadUnknown \<Rightarrow> fail_closed
         | Loaded v \<Rightarrow> Continue (if cls = BPF_LD then s\<lparr>bpf_A := v\<rparr> else s\<lparr>bpf_X := v\<rparr>))
      else if cls = BPF_ST then store_scratch s k (bpf_A s)
      else if cls = BPF_STX then store_scratch s k (bpf_X s)
      else if cls = BPF_ALU then
        (case alu (BPF_OP code) (bpf_A s) src of
           None \<Rightarrow> fail_closed | Some a \<Rightarrow> Continue (s\<lparr>bpf_A := a\<rparr>))
      else if cls = BPF_JMP then
        (case jump_distance inst (bpf_A s) src of
           None \<Rightarrow> fail_closed | Some d \<Rightarrow> Continue (s\<lparr>bpf_IP := bpf_IP s + d\<rparr>))
      else if cls = BPF_RET then
        Return (if BPF_RVAL code = BPF_K then k
                else if BPF_RVAL code = BPF_X then bpf_X s
                else if BPF_RVAL code = BPF_A then bpf_A s
                else 0) (Scratch s)
      else if cls = BPF_MISC then
        (if BPF_MISCOP code = BPF_TAX then Continue (s\<lparr>bpf_X := bpf_A s\<rparr>)
         else if BPF_MISCOP code = BPF_TXA then Continue (s\<lparr>bpf_A := bpf_X s\<rparr>)
         else fail_closed)
      else fail_closed)"

text \<open>The loop, with the increment of \<open>IP\<close> after every body that continues.\<close>

fun execute_loop :: "nat \<Rightarrow> sock_filter list \<Rightarrow> u8 list \<Rightarrow> bpf_state \<Rightarrow> bpf_outcome option" where
  "execute_loop 0 prog data s = None"
| "execute_loop (Suc fuel) prog data s =
     (if unat (bpf_IP s) < length prog then
        (case bpf_step data (prog ! unat (bpf_IP s)) s of
           Continue s' \<Rightarrow> execute_loop fuel prog data (s'\<lparr>bpf_IP := bpf_IP s' + 1\<rparr>)
         | r \<Rightarrow> Some r)
      else Some (Return 0 (Scratch s)))"

definition Execute :: "nat \<Rightarrow> sock_filter list \<Rightarrow> u8 list \<Rightarrow> u32 list \<Rightarrow> bpf_outcome option" where
  "Execute fuel prog data scratch =
     execute_loop fuel prog data \<lparr>bpf_A = 0, bpf_X = 0, bpf_IP = 0, Scratch = scratch\<rparr>"

lemmas bpf_fields = BPF_CLASS_def BPF_SIZE_def BPF_MODE_def BPF_OP_def BPF_SRC_def BPF_RVAL_def BPF_MISCOP_def

section \<open>Validated programs are safe and terminate\<close>

lemma validate_from_nth:
  "validate_from n i prog \<Longrightarrow> j < length prog \<Longrightarrow> validate_inst n (i + j) (prog ! j)"
proof (induction prog arbitrary: i j)
  case (Cons inst rest)
  then show ?case
    using Cons.IH [of "Suc i" "j - 1"] by (cases j) (auto split: if_splits)
qed simp

lemma ValidateProgram_accepts:
  assumes "ValidateProgram prog = Some 0"
  shows "prog \<noteq> []" "BPF_CLASS (sf_code (last prog)) = BPF_RET"
    and "\<And>j. j < length prog \<Longrightarrow> validate_inst (length prog) j (prog ! j)"
  using assms validate_from_nth [of "length prog" 0 prog]
  by (auto simp: ValidateProgram_def split: if_splits)

text \<open>
  What a validated instruction at index \<open>i\<close> does: it never leaves its buffers, keeps the
  scratch size, and continues only to a later index inside the program.
\<close>

definition step_ok :: "nat \<Rightarrow> nat \<Rightarrow> sock_filter \<Rightarrow> bpf_state \<Rightarrow> bpf_outcome \<Rightarrow> bool" where
  "step_ok n i inst s r =
     (case r of
        Fault \<Rightarrow> False
      | Return v sc \<Rightarrow> length sc = BPF_MEMWORDS
      | Continue s' \<Rightarrow>
          length (Scratch s') = BPF_MEMWORDS \<and> BPF_CLASS (sf_code inst) \<noteq> BPF_RET
          \<and> (bpf_IP s' = bpf_IP s \<or> (\<exists>d. bpf_IP s' = bpf_IP s + d \<and> i + unat d + 1 < n)))"

lemma aligned_word_load:
  fixes k :: u32
  assumes "k AND 3 = 0" "unat k < 64"
  shows "unat k + 4 \<le> 64"
proof -
  have "take_bit 2 (unat k) = 0"
    using assms(1) by (metis and_low_mask(2) unat_0 unsigned_take_bit_eq)
  then have "unat k mod 4 = 0" by (simp add: take_bit_eq_mod)
  then show ?thesis using assms(2) by presburger
qed

lemma load_value_ok:
  assumes "validate_inst n i inst" and "BPF_CLASS (sf_code inst) \<in> {BPF_LD, BPF_LDX}"
    and "length data = SECCOMP_DATA_SIZE" "length scratch = BPF_MEMWORDS"
  shows "load_value data scratch inst \<noteq> LoadFault"
  using assms aligned_word_load [of "sf_k inst"]
  by (auto simp: validate_inst_def load_value_def Let_def split: if_splits)

lemma jump_distance_ok:
  assumes "validate_inst n i inst" and "BPF_CLASS (sf_code inst) = BPF_JMP"
    and "jump_distance inst a src = Some d"
  shows "i + unat d + 1 < n"
proof -
  have "unat (ucast b :: u32) = unat b" for b :: u8
    by (simp add: word_range)
  then show ?thesis
    using assms by (auto simp: validate_inst_def jump_distance_def Let_def split: if_splits)
qed

lemma bpf_step_ok:
  assumes v: "validate_inst n i inst"
    and len: "length data = SECCOMP_DATA_SIZE" "length (Scratch s) = BPF_MEMWORDS"
  shows "step_ok n i inst s (bpf_step data inst s)"
proof -
  consider (ld) "BPF_CLASS (sf_code inst) \<in> {BPF_LD, BPF_LDX}"
    | (st) "BPF_CLASS (sf_code inst) \<in> {BPF_ST, BPF_STX}"
    | (jmp) "BPF_CLASS (sf_code inst) = BPF_JMP"
    | (other) "BPF_CLASS (sf_code inst) \<notin> {BPF_LD, BPF_LDX, BPF_ST, BPF_STX, BPF_JMP}"
    by auto
  then show ?thesis
  proof cases
    case ld
    then show ?thesis
      using load_value_ok [OF v ld len] len
      by (auto simp: bpf_step_def step_ok_def Let_def split: bpf_load.split)
  next
    case st
    then have "unat (sf_k inst) < BPF_MEMWORDS"
      using v by (auto simp: validate_inst_def Let_def split: if_splits)
    then show ?thesis
      using st len by (auto simp: bpf_step_def step_ok_def store_scratch_def Let_def)
  next
    case jmp
    then show ?thesis
      using jump_distance_ok [OF v jmp] len
      by (auto simp: bpf_step_def step_ok_def Let_def split: option.split)
  next
    case other
    then show ?thesis
      using len by (auto simp: bpf_step_def step_ok_def Let_def split: option.split)
  qed
qed

lemma next_ip:
  fixes ip d :: u32
  assumes "unat ip + unat d + 1 < n" "n < 2 ^ 16"
  shows "unat (ip + d + 1) = unat ip + unat d + 1"
  using assms by (simp add: unat_word_ariths)

lemma execute_loop_returns:
  assumes v: "ValidateProgram prog = Some 0" and n: "length prog < 2 ^ 16"
    and d: "length data = SECCOMP_DATA_SIZE"
    and s: "length (Scratch s) = BPF_MEMWORDS" "unat (bpf_IP s) < length prog"
    and f: "length prog \<le> unat (bpf_IP s) + fuel"
  shows "\<exists>r sc. execute_loop fuel prog data s = Some (Return r sc) \<and> length sc = BPF_MEMWORDS"
  using s f
proof (induction fuel arbitrary: s)
  case 0
  then show ?case by simp
next
  case (Suc fuel)
  define i where "i = unat (bpf_IP s)"
  have i: "i < length prog" using Suc.prems by (simp add: i_def)
  have ok: "step_ok (length prog) i (prog ! i) s (bpf_step data (prog ! i) s)"
    by (rule bpf_step_ok) (use ValidateProgram_accepts(3) [OF v i] d Suc.prems in auto)
  show ?case
  proof (cases "bpf_step data (prog ! i) s")
    case (Continue s')
    have "i \<noteq> length prog - 1"
      using ok Continue ValidateProgram_accepts(1,2) [OF v]
      by (auto simp: step_ok_def last_conv_nth)
    with i have "i + 1 < length prog" by simp
    then obtain e where e: "bpf_IP s' = bpf_IP s + e" "i + unat e + 1 < length prog"
      using ok Continue by (auto simp: step_ok_def)
    then have "unat (bpf_IP s' + 1) = i + unat e + 1"
      using next_ip [of "bpf_IP s" e "length prog"] n by (simp add: i_def)
    then show ?thesis
      using Suc.IH [of "s'\<lparr>bpf_IP := bpf_IP s' + 1\<rparr>"] ok Continue Suc.prems e i
      by (simp add: step_ok_def i_def)
  qed (use ok i in \<open>auto simp: step_ok_def i_def\<close>)
qed

lemma execute_loop_fuel_mono:
  "execute_loop fuel prog data s = Some r \<Longrightarrow> execute_loop (fuel + m) prog data s = Some r"
  by (induction fuel arbitrary: s) (auto split: if_splits bpf_outcome.splits)

lemma ValidateProgram_None_iff: "ValidateProgram prog = None \<longleftrightarrow> prog = []"
  by (auto simp: ValidateProgram_def)

lemma Execute_returns:
  assumes "ValidateProgram prog = Some 0" and "length prog < 2 ^ 16"
    and "length data = SECCOMP_DATA_SIZE" and "length scratch = BPF_MEMWORDS"
  shows "\<exists>v sc. Execute (length prog) prog data scratch = Some (Return v sc) \<and> length sc = BPF_MEMWORDS"
  unfolding Execute_def using assms ValidateProgram_accepts(1) [OF assms(1)]
  by (intro execute_loop_returns) auto

section \<open>Properties\<close>

text \<open>
  C8. A filter that \<open>ValidateProgram\<close> accepts runs to a return on any seccomp data, whatever
  fuel of at least its number of instructions it is given, and never accesses memory
  outside the seccomp data or the scratch words.
\<close>

theorem validated_filter_returns:
  assumes "ValidateProgram prog = Some 0" and "length prog < 2 ^ 16"
    and "length data = SECCOMP_DATA_SIZE" and "length scratch = BPF_MEMWORDS"
  shows "\<exists>v sc. length sc = BPF_MEMWORDS \<and>
    (\<forall>extra. Execute (length prog + extra) prog data scratch = Some (Return v sc))"
  using Execute_returns [OF assms] unfolding Execute_def by (metis execute_loop_fuel_mono)

definition demo_filter :: "sock_filter list" where
  "demo_filter =
     [\<lparr>sf_code = 0x20, sf_jt = 0, sf_jf = 0, sf_k = 0\<rparr>,
      \<lparr>sf_code = 0x15, sf_jt = 0, sf_jf = 1, sf_k = 57\<rparr>,
      \<lparr>sf_code = 0x06, sf_jt = 0, sf_jf = 0, sf_k = 0x00050001\<rparr>,
      \<lparr>sf_code = 0x06, sf_jt = 0, sf_jf = 0, sf_k = 0x7FFF0000\<rparr>]"

lemma demo_filter_valid: "ValidateProgram demo_filter = Some 0"
  by (simp add: demo_filter_def ValidateProgram_def validate_inst_def bpf_fields)

theorem validated_filter_returns_witness:
  "ValidateProgram demo_filter = Some 0
   \<and> (\<exists>v sc. length sc = 16 \<and>
       (\<forall>extra. Execute (4 + extra) demo_filter (replicate 64 0) (replicate 16 0) = Some (Return v sc)))"
proof -
  have "length demo_filter = 4" by (simp add: demo_filter_def)
  then show ?thesis
    using validated_filter_returns [OF demo_filter_valid, of "replicate 64 0" "replicate 16 0"]
      demo_filter_valid by simp
qed

text \<open>
  An unvalidated empty program is the one input on which \<open>ValidateProgram\<close> itself reads
  out of bounds; on every non-empty program it answers 0 or \<open>-EINVAL\<close>.
\<close>

theorem ValidateProgram_total: "(ValidateProgram prog = None) = (prog = [])
   \<and> (prog = [] \<or> ValidateProgram prog \<in> {Some 0, Some (- EINVAL)})"
  using ValidateProgram_None_iff [of prog] by (auto simp: ValidateProgram_def)

end
