(* ===== verification/Seccomp.thy ===== *)
theory Seccomp
  imports Bpf
begin

text \<open>
  The seccomp emulator, \<open>Source/Tools/LinuxEmulation/LinuxSyscalls/Seccomp/SeccompEmulator.cpp\<close>:
  the load analysis of an installed filter, the execution of a filter chain, and the
  per-thread cache of ALLOW verdicts of \<open>ThreadManager.h\<close>. Signals and audit log lines are
  events of the outcome. \<open>RestoreRIPFromHostPC\<close> is the argument \<open>rip\<close>.
\<close>

section \<open>State\<close>

record seccomp_filter_info =
  fi_Program :: "sock_filter list"
  fi_RefCount :: nat
  fi_FilterInstructions :: u32
  fi_ShouldLog :: bool
  fi_ReadsIP :: bool
  fi_ReadsArgs :: bool

datatype cache_mode = CacheNone | NrOnly | NrRIP

abbreviation MAX_CACHED_NR :: nat where "MAX_CACHED_NR \<equiv> 512"
abbreviation RIP_WAYS :: nat where "RIP_WAYS \<equiv> 64"

record verdict_cache =
  vc_Generation :: u64
  vc_Mode :: cache_mode
  vc_NeedsRIP :: bool
  vc_AllowedNrs :: "u64 list"
  vc_RIPAllowed :: "(u64 \<times> u64) list"

text \<open>\<open>SyscallArguments\<close>: argument 0 is the syscall number.\<close>

type_synonym syscall_args = "nat \<Rightarrow> u64"

datatype seccomp_event =
    AuditLog u32 u64
  | KillProcess
  | KillThread
  | TrapSignal u32 u64

record filter_result =
  EarlyReturn :: bool
  ResultValue :: u64
  Events :: "seccomp_event list"

abbreviation SECCOMP_RET_ACTION_FULL :: u32 where "SECCOMP_RET_ACTION_FULL \<equiv> 0xFFFF0000"
abbreviation SECCOMP_RET_DATA :: u32 where "SECCOMP_RET_DATA \<equiv> 0x0000FFFF"
abbreviation SECCOMP_RET_KILL_PROCESS :: u32 where "SECCOMP_RET_KILL_PROCESS \<equiv> 0x80000000"
abbreviation SECCOMP_RET_KILL_THREAD :: u32 where "SECCOMP_RET_KILL_THREAD \<equiv> 0x00000000"
abbreviation SECCOMP_RET_TRAP :: u32 where "SECCOMP_RET_TRAP \<equiv> 0x00030000"
abbreviation SECCOMP_RET_ERRNO :: u32 where "SECCOMP_RET_ERRNO \<equiv> 0x00050000"
abbreviation SECCOMP_RET_USER_NOTIF :: u32 where "SECCOMP_RET_USER_NOTIF \<equiv> 0x7FC00000"
abbreviation SECCOMP_RET_TRACE :: u32 where "SECCOMP_RET_TRACE \<equiv> 0x7FF00000"
abbreviation SECCOMP_RET_LOG :: u32 where "SECCOMP_RET_LOG \<equiv> 0x7FFC0000"
abbreviation SECCOMP_RET_ALLOW :: u32 where "SECCOMP_RET_ALLOW \<equiv> 0x7FFF0000"
abbreviation AUDIT_ARCH_AARCH64 :: u32 where "AUDIT_ARCH_AARCH64 \<equiv> 0xC00000B7"
abbreviation ENOSYS :: u64 where "ENOSYS \<equiv> 38"

section \<open>Load analysis\<close>

text \<open>
  The loop of \<open>AnalyzeFilterLoads\<close>, returning \<open>(ReadsIP, ReadsArgs)\<close>. In \<open>seccomp_data\<close>
  the instruction pointer is at offset 8 and the arguments start at offset 16.
\<close>

fun analyze_loads :: "bool \<Rightarrow> bool \<Rightarrow> sock_filter list \<Rightarrow> bool \<times> bool" where
  "analyze_loads reads_ip reads_args [] = (reads_ip, reads_args)"
| "analyze_loads reads_ip reads_args (inst # rest) =
     (let cls = BPF_CLASS (sf_code inst); mode = BPF_MODE (sf_code inst) in
      if cls \<noteq> BPF_LD \<and> cls \<noteq> BPF_LDX then analyze_loads reads_ip reads_args rest
      else if mode = BPF_IMM \<or> mode = BPF_MEM \<or> mode = BPF_LEN then
        analyze_loads reads_ip reads_args rest
      else if mode \<noteq> BPF_ABS then (True, True)
      else if sf_k inst \<ge> 16 then analyze_loads reads_ip True rest
      else if sf_k inst \<ge> 8 then analyze_loads True reads_args rest
      else analyze_loads reads_ip reads_args rest)"

definition AnalyzeFilterLoads :: "seccomp_filter_info \<Rightarrow> seccomp_filter_info" where
  "AnalyzeFilterLoads f =
     (case analyze_loads False False (fi_Program f) of
        (ip, args) \<Rightarrow> f\<lparr>fi_ReadsIP := ip, fi_ReadsArgs := args\<rparr>)"

section \<open>Running the chain\<close>

definition seccomp_data :: "u64 \<Rightarrow> syscall_args \<Rightarrow> u8 list" where
  "seccomp_data rip args =
     store_le 4 (ucast (args 0) :: u32) @ store_le 4 AUDIT_ARCH_AARCH64 @ store_le 8 rip
     @ concat (map (\<lambda>i. store_le 8 (args i)) [1, 2, 3, 4, 5, 6])"

text \<open>
  One filter of the chain on zeroed scratch memory. The fuel is the length of the program,
  which is enough for every installed program; \<open>None\<close> is a fault or a lack of fuel.
\<close>

definition run_filter :: "u8 list \<Rightarrow> seccomp_filter_info \<Rightarrow> u32 option" where
  "run_filter data f =
     (case Execute (length (fi_Program f)) (fi_Program f) data (replicate BPF_MEMWORDS 0) of
        Some (Return v sc) \<Rightarrow> Some v | _ \<Rightarrow> None)"

definition action16 :: "u32 \<Rightarrow> int" where
  "action16 r = sint (ucast (drop_bit 16 (r AND SECCOMP_RET_ACTION_FULL)) :: u16)"

text \<open>
  The loop of \<open>ExecuteFilterSlow\<close> over the filters from the latest to the oldest; the state
  is the result so far with its logging flag, if there is one.
\<close>

fun run_chain :: "u8 list \<Rightarrow> (u32 \<times> bool) option \<Rightarrow> seccomp_filter_info list \<Rightarrow> (u32 \<times> bool) option option" where
  "run_chain data acc [] = Some acc"
| "run_chain data acc (f # fs) =
     (case run_filter data f of
        None \<Rightarrow> None
      | Some cur \<Rightarrow>
          (case acc of
             None \<Rightarrow> run_chain data (Some (cur, fi_ShouldLog f)) fs
           | Some (r, lg) \<Rightarrow>
               if action16 cur < action16 r then run_chain data (Some (cur, fi_ShouldLog f)) fs
               else run_chain data (Some (r, lg)) fs))"

definition chain_result :: "seccomp_filter_info list \<Rightarrow> u64 \<Rightarrow> syscall_args \<Rightarrow> (u32 \<times> bool) option" where
  "chain_result filters rip args =
     map_option (\<lambda>acc. case acc of None \<Rightarrow> (0, False) | Some r \<Rightarrow> r)
       (run_chain (seccomp_data rip args) None (rev filters))"

text \<open>The logging rule and the action switch at the end of \<open>ExecuteFilterSlow\<close>.\<close>

definition audit_events :: "u32 \<Rightarrow> bool \<Rightarrow> u64 \<Rightarrow> seccomp_event list" where
  "audit_events result should_log rip =
     (let action = result AND SECCOMP_RET_ACTION_FULL in
      if (should_log \<and> action \<noteq> SECCOMP_RET_ALLOW) \<or> action = SECCOMP_RET_LOG
      then [AuditLog result rip] else [])"

definition apply_action :: "u32 \<Rightarrow> u64 \<Rightarrow> bool \<times> u64 \<times> seccomp_event list" where
  "apply_action result rip =
     (let action = result AND SECCOMP_RET_ACTION_FULL; data = result AND SECCOMP_RET_DATA in
      if action = SECCOMP_RET_KILL_THREAD then (False, 0, [KillThread])
      else if action = SECCOMP_RET_TRAP then (False, 0, [TrapSignal data rip])
      else if action = SECCOMP_RET_ERRNO then (True, - (min (ucast data) 4095), [])
      else if action = SECCOMP_RET_TRACE then (True, - ENOSYS, [])
      else if action = SECCOMP_RET_USER_NOTIF \<or> action = SECCOMP_RET_LOG
        \<or> action = SECCOMP_RET_ALLOW then (False, 0, [])
      else (False, 0, [KillProcess]))"

definition finish :: "u32 \<Rightarrow> bool \<Rightarrow> u64 \<Rightarrow> filter_result" where
  "finish result should_log rip =
     (case apply_action result rip of (early, v, ev) \<Rightarrow>
        \<lparr>EarlyReturn = early, ResultValue = v, Events = audit_events result should_log rip @ ev\<rparr>)"

section \<open>The verdict cache\<close>

definition rip_way :: "u64 \<Rightarrow> u64 \<Rightarrow> nat" where
  "rip_way rip nr = unat ((rip XOR drop_bit 7 rip XOR nr) AND (of_nat RIP_WAYS - 1))"

definition nr_allowed :: "u64 list \<Rightarrow> u64 \<Rightarrow> bool" where
  "nr_allowed bm nr = (bm ! unat (nr div 64) AND push_bit (unat (nr mod 64)) 1 \<noteq> 0)"

definition allow_nr :: "u64 list \<Rightarrow> u64 \<Rightarrow> u64 list" where
  "allow_nr bm nr =
     bm[unat (nr div 64) := bm ! unat (nr div 64) OR push_bit (unat (nr mod 64)) 1]"

text \<open>The cache update after the chain has produced an ALLOW verdict.\<close>

definition record_allow :: "verdict_cache \<Rightarrow> u64 \<Rightarrow> u64 \<Rightarrow> verdict_cache" where
  "record_allow c nr rip =
     (if vc_Mode c = NrOnly \<and> nr < of_nat MAX_CACHED_NR then
        c\<lparr>vc_AllowedNrs := allow_nr (vc_AllowedNrs c) nr\<rparr>
      else if vc_Mode c = NrRIP then
        c\<lparr>vc_RIPAllowed := (vc_RIPAllowed c)[rip_way rip nr := (rip, nr + 1)]\<rparr>
      else c)"

text \<open>
  \<open>ExecuteFilterSlow\<close>. The data the filters see carry \<open>RIP\<close> only when it was handed in or
  some filter needs it; later uses reconstruct it on demand.
\<close>

definition ExecuteFilterSlow ::
  "seccomp_filter_info list \<Rightarrow> u64 \<Rightarrow> syscall_args \<Rightarrow> bool \<Rightarrow> verdict_cache \<Rightarrow> (filter_result \<times> verdict_cache) option" where
  "ExecuteFilterSlow filters rip args have_rip c =
     (let data_rip = (if have_rip \<or> vc_NeedsRIP c then rip else 0) in
      case chain_result filters data_rip args of
        None \<Rightarrow> None
      | Some (result, should_log) \<Rightarrow>
          Some (finish result should_log rip,
                (if result AND SECCOMP_RET_ACTION_FULL = SECCOMP_RET_ALLOW
                 then record_allow c (args 0) data_rip else c)))"

text \<open>The revalidation at the top of \<open>ExecuteFilter\<close>.\<close>

definition refresh_cache :: "seccomp_filter_info list \<Rightarrow> u64 \<Rightarrow> verdict_cache \<Rightarrow> verdict_cache" where
  "refresh_cache filters gen c =
     (if vc_Generation c \<noteq> gen then
        \<lparr>vc_Generation = gen,
         vc_Mode = (if list_ex fi_ReadsArgs filters then CacheNone
                    else if list_ex fi_ReadsIP filters then NrRIP else NrOnly),
         vc_NeedsRIP = list_ex fi_ReadsIP filters,
         vc_AllowedNrs = replicate (MAX_CACHED_NR div 64) 0,
         vc_RIPAllowed = replicate RIP_WAYS (0, 0)\<rparr>
      else c)"

definition allowed_result :: filter_result where
  "allowed_result = \<lparr>EarlyReturn = False, ResultValue = 0, Events = []\<rparr>"

definition ExecuteFilter ::
  "seccomp_filter_info list \<Rightarrow> u64 \<Rightarrow> u64 \<Rightarrow> syscall_args \<Rightarrow> verdict_cache \<Rightarrow> (filter_result \<times> verdict_cache) option" where
  "ExecuteFilter filters gen rip args c0 =
     (if filters = [] then Some (allowed_result, c0)
      else
        let c = refresh_cache filters gen c0; nr = args 0 in
        if vc_Mode c = NrOnly then
          (if nr < of_nat MAX_CACHED_NR \<and> nr_allowed (vc_AllowedNrs c) nr
           then Some (allowed_result, c)
           else ExecuteFilterSlow filters rip args False c)
        else if vc_Mode c = NrRIP then
          (if vc_RIPAllowed c ! rip_way rip nr = (rip, nr + 1)
           then Some (allowed_result, c)
           else ExecuteFilterSlow filters rip args True c)
        else ExecuteFilterSlow filters rip args False c)"

section \<open>What the analysis guarantees\<close>

text \<open>A load outside the fields the flags admit does not occur.\<close>

definition load_covered :: "bool \<Rightarrow> bool \<Rightarrow> sock_filter \<Rightarrow> bool" where
  "load_covered ip ar inst \<longleftrightarrow>
     BPF_CLASS (sf_code inst) \<notin> {BPF_LD, BPF_LDX}
     \<or> BPF_MODE (sf_code inst) \<in> {BPF_IMM, BPF_MEM, BPF_LEN}
     \<or> (ip \<and> ar)
     \<or> (BPF_MODE (sf_code inst) = BPF_ABS
        \<and> (sf_k inst < 8 \<or> (sf_k inst < 16 \<and> ip) \<or> (16 \<le> sf_k inst \<and> ar)))"

lemma analyze_loads_mono:
  "analyze_loads a b prog = (ip, ar) \<Longrightarrow> (a \<longrightarrow> ip) \<and> (b \<longrightarrow> ar)"
proof (induction a b prog rule: analyze_loads.induct)
  case (2 a b inst rest)
  then show ?case by (simp add: Let_def split: if_splits)
qed simp

lemma analyze_loads_sound:
  "analyze_loads a b prog = (ip, ar) \<Longrightarrow> list_all (load_covered ip ar) prog"
proof (induction a b prog rule: analyze_loads.induct)
  case (2 a b inst rest)
  note mono = analyze_loads_mono [of a True rest ip ar] analyze_loads_mono [of True b rest ip ar]
  from 2 mono show ?case
    by (auto simp: Let_def load_covered_def not_le list_all_iff split: if_splits)
qed simp

text \<open>
  An installed filter: it passed the validator and its flags are those of the analysis.
\<close>

definition installed :: "seccomp_filter_info \<Rightarrow> bool" where
  "installed f \<longleftrightarrow> ValidateProgram (fi_Program f) = Some 0 \<and> length (fi_Program f) < 2 ^ 16
     \<and> analyze_loads False False (fi_Program f) = (fi_ReadsIP f, fi_ReadsArgs f)"

text \<open>Two seccomp data blocks that agree on the fields the flags admit.\<close>

definition data_agree :: "bool \<Rightarrow> bool \<Rightarrow> u8 list \<Rightarrow> u8 list \<Rightarrow> bool" where
  "data_agree ip ar d1 d2 \<longleftrightarrow> length d1 = 64 \<and> length d2 = 64
     \<and> (\<forall>j<64. j < 8 \<or> (8 \<le> j \<and> j < 16 \<and> ip) \<or> (16 \<le> j \<and> ar) \<longrightarrow> d1 ! j = d2 ! j)"

lemma aligned_offset:
  fixes k :: u32
  assumes "k AND 3 = 0" "unat k < 64"
  obtains q where "unat k = 4 * q" "q < 16"
proof -
  have "take_bit 2 (unat k) = 0"
    using assms(1) by (metis and_low_mask(2) unat_0 unsigned_take_bit_eq)
  then have "unat k mod 4 = 0" by (simp add: take_bit_eq_mod)
  then show ?thesis using assms(2) by (intro that [of "unat k div 4"]) presburger+
qed

lemma window_agree:
  assumes "data_agree ip ar d1 d2" "k = 4 * q" "q < 16"
    and "k < 8 \<or> (k < 16 \<and> ip) \<or> (16 \<le> k \<and> ar) \<or> (ip \<and> ar)"
  shows "take 4 (drop k d1) = take 4 (drop k d2)"
proof (rule nth_equalityI)
  fix i assume "i < length (take 4 (drop k d1))"
  then have i: "i < 4" by simp
  then have lt: "k + i < 64" using assms(2,3) by linarith
  have "k + i < 8 \<or> (8 \<le> k + i \<and> k + i < 16 \<and> ip) \<or> (16 \<le> k + i \<and> ar)"
  proof -
    have "k + i < 8 \<longleftrightarrow> k < 8" "k + i < 16 \<longleftrightarrow> k < 16" using assms(2) i by presburger+
    then show ?thesis using assms(4) by auto
  qed
  then have "d1 ! (k + i) = d2 ! (k + i)"
    using assms(1) lt unfolding data_agree_def by blast
  then show "take 4 (drop k d1) ! i = take 4 (drop k d2) ! i"
    using assms(1) i lt by (simp add: data_agree_def)
qed (use assms in \<open>simp add: data_agree_def\<close>)

lemma load_value_agree:
  assumes "validate_inst n i inst" "load_covered ip ar inst" "data_agree ip ar d1 d2"
    and "BPF_CLASS (sf_code inst) \<in> {BPF_LD, BPF_LDX}"
  shows "load_value d1 sc inst = load_value d2 sc inst"
proof (cases "BPF_MODE (sf_code inst) = BPF_ABS")
  case True
  with assms(1,4) have "sf_k inst AND 3 = 0" "unat (sf_k inst) < 64"
    by (auto simp: validate_inst_def Let_def split: if_splits)
  then obtain q where q: "unat (sf_k inst) = 4 * q" "q < 16" by (rule aligned_offset)
  have "unat (sf_k inst) < 8 \<or> (unat (sf_k inst) < 16 \<and> ip) \<or> (16 \<le> unat (sf_k inst) \<and> ar)
        \<or> (ip \<and> ar)"
    using assms(2,4) True by (auto simp: load_covered_def word_less_nat_alt word_le_nat_alt)
  with q window_agree [OF assms(3) q(1) q(2)] assms(3) show ?thesis
    by (simp add: load_value_def data_agree_def Let_def)
qed (simp add: load_value_def Let_def)

lemma bpf_step_agree:
  assumes "validate_inst n i inst" "load_covered ip ar inst" "data_agree ip ar d1 d2"
  shows "bpf_step d1 inst s = bpf_step d2 inst s"
  using load_value_agree [OF assms] by (auto simp: bpf_step_def Let_def)

lemma execute_loop_data_cong:
  assumes "\<And>i s. i < length prog \<Longrightarrow> bpf_step d1 (prog ! i) s = bpf_step d2 (prog ! i) s"
  shows "execute_loop fuel prog d1 s = execute_loop fuel prog d2 s"
  using assms by (induction fuel arbitrary: s) (simp_all split: bpf_outcome.split)

text \<open>A filter cannot tell apart data that agree on the fields its flags admit.\<close>

lemma run_filter_agree:
  assumes f: "installed f" and d: "data_agree (fi_ReadsIP f) (fi_ReadsArgs f) d1 d2"
  shows "run_filter d1 f = run_filter d2 f"
proof -
  from f have v: "ValidateProgram (fi_Program f) = Some 0"
    and "list_all (load_covered (fi_ReadsIP f) (fi_ReadsArgs f)) (fi_Program f)"
    using analyze_loads_sound by (simp_all add: installed_def) blast
  then have "bpf_step d1 (fi_Program f ! i) s = bpf_step d2 (fi_Program f ! i) s"
    if "i < length (fi_Program f)" for i s
    using that bpf_step_agree [OF ValidateProgram_accepts(3) [OF v that] _ d]
    by (simp add: list_all_length)
  then show ?thesis
    unfolding run_filter_def Execute_def by (subst execute_loop_data_cong) simp_all
qed

lemma run_filter_total: "installed f \<Longrightarrow> length d = 64 \<Longrightarrow> \<exists>v. run_filter d f = Some v"
  using Execute_returns [of "fi_Program f" d "replicate BPF_MEMWORDS 0"]
  by (auto simp: installed_def run_filter_def)


section \<open>The chain\<close>

lemma length_seccomp_data [simp]: "length (seccomp_data rip args) = 64"
  by (simp add: seccomp_data_def)

lemma seccomp_data_agree:
  assumes "args 0 = args' 0" "ip \<longrightarrow> rip = rip'" "ar \<longrightarrow> args = args'"
  shows "data_agree ip ar (seccomp_data rip args) (seccomp_data rip' args')"
proof -
  let ?t = "\<lambda>a. concat (map (\<lambda>i. store_le 8 (a i)) [1, 2, 3, 4, 5, 6])"
  have split: "seccomp_data r a ! j =
     (if j < 8 then (store_le 4 (ucast (a 0) :: u32) @ store_le 4 AUDIT_ARCH_AARCH64) ! j
      else if j < 16 then store_le 8 r ! (j - 8) else ?t a ! (j - 16))" for r a j
    unfolding seccomp_data_def append.assoc [symmetric]
    by (auto simp: nth_append simp del: append_assoc)
  show ?thesis
    unfolding data_agree_def split using assms by auto
qed

lemma run_chain_cong:
  "(\<And>f. f \<in> set fs \<Longrightarrow> run_filter d1 f = run_filter d2 f) \<Longrightarrow> run_chain d1 acc fs = run_chain d2 acc fs"
  by (induction fs arbitrary: acc) (auto split: option.split)

lemma run_chain_total:
  "(\<And>f. f \<in> set fs \<Longrightarrow> \<exists>v. run_filter d f = Some v) \<Longrightarrow> \<exists>r. run_chain d acc fs = Some r"
proof (induction fs arbitrary: acc)
  case (Cons f fs)
  then obtain v where "run_filter d f = Some v" by auto
  with Cons show ?case by (auto split: option.split)
qed simp

lemma chain_result_agree:
  assumes "\<And>f. f \<in> set fs \<Longrightarrow> installed f" "args 0 = args' 0"
    and "list_ex fi_ReadsIP fs \<longrightarrow> rip = rip'" "list_ex fi_ReadsArgs fs \<longrightarrow> args = args'"
  shows "chain_result fs rip args = chain_result fs rip' args'"
proof -
  have "run_filter (seccomp_data rip args) f = run_filter (seccomp_data rip' args') f"
    if "f \<in> set fs" for f
    using assms that by (intro run_filter_agree seccomp_data_agree) (auto simp: list_ex_iff)
  then show ?thesis
    unfolding chain_result_def by (subst run_chain_cong) simp_all
qed

lemma chain_result_total:
  assumes "\<And>f. f \<in> set fs \<Longrightarrow> installed f"
  shows "\<exists>r lg. chain_result fs rip args = Some (r, lg)"
  using run_chain_total [of "rev fs" "seccomp_data rip args" None] run_filter_total assms
  by (fastforce simp: chain_result_def)

text \<open>The most restrictive action of the chain, as a signed 16-bit value, wins.\<close>

lemma run_chain_min:
  assumes "run_chain d acc fs = Some (Some (r, lg))"
  shows "(\<forall>f\<in>set fs. \<exists>v. run_filter d f = Some v \<and> action16 r \<le> action16 v)
     \<and> (\<forall>a. acc = Some a \<longrightarrow> action16 r \<le> action16 (fst a))
     \<and> (acc = Some (r, lg) \<or> (\<exists>f\<in>set fs. run_filter d f = Some r \<and> lg = fi_ShouldLog f))"
  using assms
proof (induction fs arbitrary: acc)
  case (Cons f fs)
  then show ?case
    by (cases "run_filter d f"; cases acc)
      (fastforce split: if_splits prod.splits dest: Cons.IH)+
qed simp

section \<open>The cache is transparent\<close>

text \<open>The specification: run the whole chain on the real instruction pointer.\<close>

definition verdict_spec :: "seccomp_filter_info list \<Rightarrow> u64 \<Rightarrow> syscall_args \<Rightarrow> filter_result option" where
  "verdict_spec filters rip args =
     (if filters = [] then Some allowed_result
      else map_option (\<lambda>(result, should_log). finish result should_log rip) (chain_result filters rip args))"

definition chain_allows :: "seccomp_filter_info list \<Rightarrow> u64 \<Rightarrow> syscall_args \<Rightarrow> bool" where
  "chain_allows filters rip args =
     (case chain_result filters rip args of
        Some (result, _) \<Rightarrow> result AND SECCOMP_RET_ACTION_FULL = SECCOMP_RET_ALLOW | None \<Rightarrow> False)"

text \<open>
  The invariant of a cache of the current generation: its mode is the one the filters call
  for, and each recorded verdict is an ALLOW of the chain.
\<close>

definition cache_shape :: "seccomp_filter_info list \<Rightarrow> verdict_cache \<Rightarrow> bool" where
  "cache_shape fs c \<longleftrightarrow>
     vc_Mode c = (if list_ex fi_ReadsArgs fs then CacheNone
                  else if list_ex fi_ReadsIP fs then NrRIP else NrOnly)
     \<and> vc_NeedsRIP c = list_ex fi_ReadsIP fs
     \<and> length (vc_AllowedNrs c) = 8 \<and> length (vc_RIPAllowed c) = 64"

definition cache_sound :: "seccomp_filter_info list \<Rightarrow> verdict_cache \<Rightarrow> bool" where
  "cache_sound fs c \<longleftrightarrow>
     (vc_Mode c = NrOnly \<longrightarrow>
        (\<forall>rip args. args 0 < 512 \<and> nr_allowed (vc_AllowedNrs c) (args 0) \<longrightarrow> chain_allows fs rip args))
     \<and> (vc_Mode c = NrRIP \<longrightarrow>
        (\<forall>rip args w. w < 64 \<and> vc_RIPAllowed c ! w = (rip, args 0 + 1) \<and> (rip, args 0 + 1) \<noteq> (0, 0)
            \<longrightarrow> chain_allows fs rip args))"

definition cache_ok :: "seccomp_filter_info list \<Rightarrow> u64 \<Rightarrow> verdict_cache \<Rightarrow> bool" where
  "cache_ok fs gen c \<longleftrightarrow> (vc_Generation c = gen \<longrightarrow> cache_shape fs c \<and> cache_sound fs c)"

lemma nr_index:
  fixes nr :: u64
  assumes "nr < 512"
  shows "unat (nr div 64) < 8" "unat (nr mod 64) < 64"
  using assms by (simp_all add: unat_div unat_mod word_less_nat_alt)

lemma nr_allowed_bit: "nr_allowed bm nr = bit (bm ! unat (nr div 64)) (unat (nr mod 64))"
  by (simp add: nr_allowed_def bit_iff_and_push_bit_not_eq_0)

lemma nr_allowed_allow_nr:
  assumes "length bm = 8" "nr < 512" "nr' < 512" "nr_allowed (allow_nr bm nr) nr'"
  shows "nr' = nr \<or> nr_allowed bm nr'"
proof (cases "unat (nr div 64) = unat (nr' div 64)")
  case True
  have eq: "nr' = nr" if "unat (nr mod 64) = unat (nr' mod 64)"
    using that True by (metis word_mod_div_equality word_unat_eq_iff)
  have "bit (push_bit (unat (nr mod 64)) (1 :: u64)) (unat (nr' mod 64)) \<longleftrightarrow>
        unat (nr mod 64) = unat (nr' mod 64)"
    using nr_index [OF assms(2)] by (subst push_bit_of_1, subst bit_exp_iff) auto
  then show ?thesis
    using assms(1,4) True nr_index(1) [OF assms(2)] eq
    unfolding nr_allowed_bit allow_nr_def by (auto simp only: nth_list_update_eq bit_or_iff)
next
  case False
  then show ?thesis using assms(4) by (simp add: nr_allowed_bit allow_nr_def)
qed

lemma nr_allowed_empty: "nr < 512 \<Longrightarrow> \<not> nr_allowed (replicate 8 0) nr"
  using nr_index by (simp add: nr_allowed_bit)

lemma rip_way_less: "rip_way rip nr < 64"
proof -
  have "rip_way rip nr = unat (take_bit 6 (rip XOR drop_bit 7 rip XOR nr))"
    by (simp add: rip_way_def and_low_mask del: take_bit_xor)
  also have "\<dots> = take_bit 6 (unat (rip XOR drop_bit 7 rip XOR nr))"
    by (simp add: unsigned_take_bit_eq del: take_bit_xor)
  also have "\<dots> < 64" by (simp add: take_bit_eq_mod)
  finally show ?thesis .
qed

lemma refresh_cache_ok: "cache_ok fs gen c \<Longrightarrow> cache_shape fs (refresh_cache fs gen c) \<and>
    cache_sound fs (refresh_cache fs gen c) \<and> vc_Generation (refresh_cache fs gen c) = gen"
  using nr_allowed_empty
  by (cases "vc_Generation c = gen")
    (auto simp: refresh_cache_def cache_ok_def cache_shape_def cache_sound_def)

lemma finish_allow: "r AND SECCOMP_RET_ACTION_FULL = SECCOMP_RET_ALLOW \<Longrightarrow> finish r lg rip = allowed_result"
  by (simp add: finish_def apply_action_def audit_events_def allowed_result_def Let_def)

lemma chain_allows_spec: "chain_allows fs rip args \<Longrightarrow> verdict_spec fs rip args = Some allowed_result"
  by (auto simp: chain_allows_def verdict_spec_def finish_allow split: option.splits)

text \<open>The slow path answers as the specification and leaves a sound cache.\<close>

lemma chain_allows_cong:
  assumes "\<forall>f\<in>set fs. installed f" "args 0 = args' 0"
    and "list_ex fi_ReadsIP fs \<longrightarrow> rip = rip'" "list_ex fi_ReadsArgs fs \<longrightarrow> args = args'"
  shows "chain_allows fs rip args = chain_allows fs rip' args'"
  using chain_result_agree [of fs args args' rip rip'] assms by (simp add: chain_allows_def)

lemma record_allow_shape: "cache_shape fs c \<Longrightarrow> cache_shape fs (record_allow c nr rip)"
  by (auto simp: record_allow_def cache_shape_def allow_nr_def)

lemma record_allow_sound:
  assumes fs: "\<forall>f\<in>set fs. installed f" and c: "cache_shape fs c" "cache_sound fs c"
    and a: "chain_allows fs rip args"
  shows "cache_sound fs (record_allow c (args 0) rip)"
proof (cases "vc_Mode c")
  case NrOnly
  then have none: "\<not> list_ex fi_ReadsArgs fs" "\<not> list_ex fi_ReadsIP fs"
    using c(1) by (auto simp: cache_shape_def split: if_splits)
  have "chain_allows fs rip' args'"
    if "args' 0 < 512" "args 0 < 512" "nr_allowed (allow_nr (vc_AllowedNrs c) (args 0)) (args' 0)" for rip' args'
    using nr_allowed_allow_nr [OF _ that(2,1,3)] c that(1) NrOnly a none
      chain_allows_cong [OF fs, of args' args rip' rip]
    by (auto simp: cache_shape_def cache_sound_def)
  with NrOnly c(2) show ?thesis by (auto simp: record_allow_def cache_sound_def)
next
  case NrRIP
  then have none: "\<not> list_ex fi_ReadsArgs fs"
    using c(1) by (auto simp: cache_shape_def split: if_splits)
  have "chain_allows fs rip' args'"
    if "w < 64" "(vc_RIPAllowed c)[rip_way rip (args 0) := (rip, args 0 + 1)] ! w = (rip', args' 0 + 1)"
      "(rip', args' 0 + 1) \<noteq> (0, 0)" for rip' args' w
    using that c NrRIP a none chain_allows_cong [OF fs, of args' args rip' rip]
    by (cases "w = rip_way rip (args 0)") (auto simp: cache_shape_def cache_sound_def)
  with NrRIP show ?thesis by (auto simp: record_allow_def cache_sound_def)
qed (simp add: record_allow_def cache_sound_def)

lemma record_allow_generation [simp]: "vc_Generation (record_allow c nr rip) = vc_Generation c"
  by (simp add: record_allow_def)

lemma ExecuteFilterSlow_ok:
  assumes fs: "\<forall>f\<in>set fs. installed f" "fs \<noteq> []" and c: "cache_shape fs c" "cache_sound fs c"
    and g: "vc_Generation c = gen"
  shows "\<exists>c'. ExecuteFilterSlow fs rip args have_rip c = Some (the (verdict_spec fs rip args), c')
           \<and> verdict_spec fs rip args \<noteq> None \<and> cache_ok fs gen c'"
proof -
  let ?d = "if have_rip \<or> vc_NeedsRIP c then rip else 0"
  have eq: "chain_result fs ?d args = chain_result fs rip args"
    using fs c(1) by (intro chain_result_agree) (auto simp: cache_shape_def)
  obtain r lg where r: "chain_result fs rip args = Some (r, lg)"
    using chain_result_total fs(1) by blast
  have "cache_ok fs gen (if r AND SECCOMP_RET_ACTION_FULL = SECCOMP_RET_ALLOW
           then record_allow c (args 0) ?d else c)"
    using record_allow_sound [OF fs(1) c, of ?d args] record_allow_shape [OF c(1)] c eq r g
    by (auto simp: cache_ok_def chain_allows_def)
  then show ?thesis
    using r eq fs(2) by (simp add: ExecuteFilterSlow_def verdict_spec_def Let_def)
qed

text \<open>
  The one key that matches a zeroed entry of the cache by instruction pointer: instruction
  pointer 0 and a call number of all ones, under filters that read the instruction pointer
  and no argument.
\<close>

definition zero_key :: "seccomp_filter_info list \<Rightarrow> u64 \<Rightarrow> syscall_args \<Rightarrow> bool" where
  "zero_key fs rip args \<longleftrightarrow> rip = 0 \<and> args 0 = - 1 \<and> list_ex fi_ReadsIP fs \<and> \<not> list_ex fi_ReadsArgs fs"

lemma ExecuteFilter_ok:
  assumes fs: "\<forall>f\<in>set fs. installed f" and c: "cache_ok fs gen c"
  shows "\<exists>r c'. ExecuteFilter fs gen rip args c = Some (r, c')
           \<and> (verdict_spec fs rip args = Some r \<or> zero_key fs rip args \<and> r = allowed_result) \<and> cache_ok fs gen c'"
proof (cases "fs = []")
  case False
  define c1 where "c1 = refresh_cache fs gen c"
  have c1: "cache_shape fs c1" "cache_sound fs c1" "vc_Generation c1 = gen"
    using refresh_cache_ok [OF c] by (simp_all add: c1_def)
  have ok: "cache_ok fs gen c1" using c1 by (simp add: cache_ok_def)
  have slow: "\<exists>r c'. ExecuteFilterSlow fs rip args h c1 = Some (r, c')
           \<and> (verdict_spec fs rip args = Some r \<or> zero_key fs rip args \<and> r = allowed_result) \<and> cache_ok fs gen c'" for h
    using ExecuteFilterSlow_ok [OF fs False c1, of rip args h] by auto
  have hit1: "verdict_spec fs rip args = Some allowed_result"
    if "vc_Mode c1 = NrOnly" "args 0 < 512" "nr_allowed (vc_AllowedNrs c1) (args 0)"
    using that c1(2) by (intro chain_allows_spec) (auto simp: cache_sound_def)
  have hit2: "verdict_spec fs rip args = Some allowed_result \<or> zero_key fs rip args"
    if "vc_Mode c1 = NrRIP" "vc_RIPAllowed c1 ! rip_way rip (args 0) = (rip, args 0 + 1)"
  proof (cases "(rip, args 0 + 1) = (0, 0)")
    case True
    then show ?thesis using that(1) c1(1) by (auto simp: zero_key_def cache_shape_def add_eq_0_iff2 split: if_splits)
  next
    case False
    with that c1(2) rip_way_less [of rip "args 0"] show ?thesis
      unfolding cache_sound_def by (intro disjI1 chain_allows_spec) blast
  qed
  show ?thesis
    using False slow hit1 hit2 ok by (simp add: ExecuteFilter_def Let_def flip: c1_def)
qed (use c in \<open>simp add: ExecuteFilter_def verdict_spec_def\<close>)

text \<open>Such a call is allowed without running the filters when the cache was just emptied.\<close>

lemma zero_key_allowed:
  assumes "zero_key fs rip args" "vc_Generation c \<noteq> gen"
  shows "ExecuteFilter fs gen rip args c = Some (allowed_result, refresh_cache fs gen c)"
  using assms rip_way_less [of 0 "- 1"]
  by (auto simp: zero_key_def ExecuteFilter_def refresh_cache_def Let_def list_ex_iff)

end
