(* ===== verification/SeccompInstall.thy ===== *)
theory SeccompInstall
  imports Seccomp
begin

text \<open>
  Installing, inheriting and freeing seccomp filters: \<open>SetModeFilter\<close>, \<open>SetModeStrict\<close>,
  \<open>CanDoTSync\<close>, \<open>TSyncFilters\<close>, \<open>InheritSeccompFilters\<close> and \<open>FreeSeccompFilters\<close> of
  \<open>SeccompEmulator.cpp\<close>. The \<open>fextl::list\<close> of filters is a map from addresses, address 0
  is the null pointer, and an access through a dangling pointer makes the operation \<open>None\<close>.
  A reference count is unbounded: it counts pointers that exist in memory.
\<close>

section \<open>State\<close>

record seccomp_thread =
  ts_TID :: u64
  ts_SeccompMode :: u32
  ts_Filters :: "nat list"
  ts_SeccompCache :: verdict_cache

type_synonym filter_pool = "nat \<rightharpoonup> seccomp_filter_info"

record seccomp_emulator =
  se_Filters :: filter_pool
  se_NextFilter :: nat
  se_TotalFilterInstructions :: nat
  se_FilterGeneration :: u64
  se_CurrentKillSignal :: int
  se_Threads :: "seccomp_thread list"

abbreviation SECCOMP_MODE_DISABLED :: u32 where "SECCOMP_MODE_DISABLED \<equiv> 0"
abbreviation SECCOMP_MODE_STRICT :: u32 where "SECCOMP_MODE_STRICT \<equiv> 1"
abbreviation SECCOMP_MODE_FILTER :: u32 where "SECCOMP_MODE_FILTER \<equiv> 2"
abbreviation FLAG_TSYNC :: u32 where "FLAG_TSYNC \<equiv> 1"
abbreviation FLAG_LOG :: u32 where "FLAG_LOG \<equiv> 2"
abbreviation FLAG_NEW_LISTENER :: u32 where "FLAG_NEW_LISTENER \<equiv> 8"
abbreviation FLAG_TSYNC_ESRCH :: u32 where "FLAG_TSYNC_ESRCH \<equiv> 16"
abbreviation SUPPORTED_FLAGS :: u32 where "SUPPORTED_FLAGS \<equiv> 0x17"
abbreviation BPF_MAXINSNS :: nat where "BPF_MAXINSNS \<equiv> 4096"
abbreviation BPF_MULTIFILTERPENALTY :: nat where "BPF_MULTIFILTERPENALTY \<equiv> 4"
abbreviation BPF_MAX_INSNS_PER_PATH :: nat where "BPF_MAX_INSNS_PER_PATH \<equiv> 32768"
abbreviation ESRCH :: u64 where "ESRCH \<equiv> 3"
abbreviation ENOMEM :: u64 where "ENOMEM \<equiv> 12"
abbreviation EACCES :: u64 where "EACCES \<equiv> 13"
abbreviation EFAULT :: u64 where "EFAULT \<equiv> 14"
abbreviation SIGKILL :: int where "SIGKILL \<equiv> 9"
abbreviation SIGSYS :: int where "SIGSYS \<equiv> 31"

definition fresh_cache :: verdict_cache where
  "fresh_cache = \<lparr>vc_Generation = 0, vc_Mode = CacheNone, vc_NeedsRIP = False,
     vc_AllowedNrs = replicate (MAX_CACHED_NR div 64) 0, vc_RIPAllowed = replicate RIP_WAYS (0, 0)\<rparr>"

definition fresh_thread :: "u64 \<Rightarrow> seccomp_thread" where
  "fresh_thread tid = \<lparr>ts_TID = tid, ts_SeccompMode = SECCOMP_MODE_DISABLED, ts_Filters = [],
     ts_SeccompCache = fresh_cache\<rparr>"

section \<open>Reference counts\<close>

fun inc_refs :: "nat list \<Rightarrow> filter_pool \<Rightarrow> filter_pool option" where
  "inc_refs [] pool = Some pool"
| "inc_refs (p # ps) pool =
     (case pool p of
        None \<Rightarrow> None
      | Some f \<Rightarrow> inc_refs ps (pool(p \<mapsto> f\<lparr>fi_RefCount := fi_RefCount f + 1\<rparr>)))"

text \<open>The loop of \<open>FreeSeccompFilters\<close>, with \<open>HasFiltersToDelete\<close>.\<close>

fun dec_refs :: "nat list \<Rightarrow> bool \<Rightarrow> filter_pool \<Rightarrow> (bool \<times> filter_pool) option" where
  "dec_refs [] has pool = Some (has, pool)"
| "dec_refs (p # ps) has pool =
     (if p = 0 then dec_refs ps has pool
      else case pool p of
        None \<Rightarrow> None
      | Some f \<Rightarrow> dec_refs ps (has \<or> fi_RefCount f = 1) (pool(p \<mapsto> f\<lparr>fi_RefCount := fi_RefCount f - 1\<rparr>)))"

definition erase_unreferenced :: "filter_pool \<Rightarrow> filter_pool" where
  "erase_unreferenced pool = (\<lambda>p. case pool p of
     Some f \<Rightarrow> if fi_RefCount f = 0 then None else Some f | None \<Rightarrow> None)"

definition InheritSeccompFilters :: "nat \<Rightarrow> nat \<Rightarrow> seccomp_emulator \<Rightarrow> seccomp_emulator option" where
  "InheritSeccompFilters parent child st =
     (let p = se_Threads st ! parent; c = se_Threads st ! child in
      map_option (\<lambda>pool. st\<lparr>se_Filters := pool,
          se_Threads := (se_Threads st)[child :=
            c\<lparr>ts_Filters := ts_Filters p, ts_SeccompMode := ts_SeccompMode p\<rparr>]\<rparr>)
        (inc_refs (ts_Filters p) (se_Filters st)))"

definition FreeSeccompFilters :: "nat \<Rightarrow> seccomp_emulator \<Rightarrow> seccomp_emulator option" where
  "FreeSeccompFilters t st =
     (let th = se_Threads st ! t in
      map_option (\<lambda>(has, pool). st\<lparr>se_Filters := (if has then erase_unreferenced pool else pool),
          se_Threads := (se_Threads st)[t := th\<lparr>ts_Filters := []\<rparr>]\<rparr>)
        (dec_refs (ts_Filters th) False (se_Filters st)))"

section \<open>Thread synchronisation\<close>

definition tsync_compatible :: "seccomp_thread \<Rightarrow> seccomp_thread \<Rightarrow> bool" where
  "tsync_compatible parent th =
     (ts_SeccompMode th = SECCOMP_MODE_DISABLED
      \<or> (ts_SeccompMode th = ts_SeccompMode parent
         \<and> length (ts_Filters th) = length (ts_Filters parent)
         \<and> list_all (\<lambda>i. ts_Filters th ! i = ts_Filters parent ! i) [0..<length (ts_Filters parent)]))"

definition CanDoTSync :: "nat \<Rightarrow> seccomp_emulator \<Rightarrow> u64" where
  "CanDoTSync t st =
     (case find (\<lambda>i. i \<noteq> t \<and> \<not> tsync_compatible (se_Threads st ! t) (se_Threads st ! i))
             [0..<length (se_Threads st)] of
        None \<Rightarrow> 0 | Some i \<Rightarrow> ts_TID (se_Threads st ! i))"

fun tsync_loop :: "nat \<Rightarrow> nat list \<Rightarrow> seccomp_emulator \<Rightarrow> seccomp_emulator option" where
  "tsync_loop t [] st = Some st"
| "tsync_loop t (i # is) st =
     (if i = t then tsync_loop t is st
      else let p = se_Threads st ! t; th = se_Threads st ! i in
        case inc_refs (ts_Filters p) (se_Filters st) of
          None \<Rightarrow> None
        | Some pool \<Rightarrow> tsync_loop t is (st\<lparr>se_Filters := pool,
            se_Threads := (se_Threads st)[i :=
              th\<lparr>ts_Filters := ts_Filters p, ts_SeccompMode := ts_SeccompMode p\<rparr>]\<rparr>))"

definition TSyncFilters :: "nat \<Rightarrow> seccomp_emulator \<Rightarrow> seccomp_emulator option" where
  "TSyncFilters t st = tsync_loop t [0..<length (se_Threads st)] st"

section \<open>Installation\<close>

text \<open>The part of \<open>SetModeFilter\<close> after a successful validation.\<close>

definition install_filter :: "nat \<Rightarrow> u32 \<Rightarrow> sock_filter list \<Rightarrow> seccomp_emulator \<Rightarrow> seccomp_emulator option" where
  "install_filter t flags prog st =
     (let info = AnalyzeFilterLoads \<lparr>fi_Program = prog, fi_RefCount = 1,
            fi_FilterInstructions = of_nat (length prog), fi_ShouldLog = (flags AND FLAG_LOG \<noteq> 0),
            fi_ReadsIP = False, fi_ReadsArgs = False\<rparr>;
          it = se_NextFilter st; th = se_Threads st ! t;
          st1 = st\<lparr>se_Filters := (se_Filters st)(it \<mapsto> info), se_NextFilter := it + 1,
            se_TotalFilterInstructions := se_TotalFilterInstructions st + length prog,
            se_Threads := (se_Threads st)[t :=
              th\<lparr>ts_Filters := ts_Filters th @ [it], ts_SeccompMode := SECCOMP_MODE_FILTER\<rparr>]\<rparr> in
      map_option (\<lambda>st2. st2\<lparr>se_FilterGeneration := se_FilterGeneration st2 + 1\<rparr>)
        (if flags AND FLAG_TSYNC \<noteq> 0 then TSyncFilters t st1 else Some st1))"

text \<open>
  \<open>SetModeFilter\<close> on thread \<open>t\<close>. \<open>no_new_privs\<close> is what \<open>prctl(PR_GET_NO_NEW_PRIVS)\<close>
  returns, \<open>prog\<close> is \<open>None\<close> for a null pointer.
\<close>

definition SetModeFilter ::
  "nat \<Rightarrow> nat \<Rightarrow> u32 \<Rightarrow> sock_filter list option \<Rightarrow> seccomp_emulator \<Rightarrow> (u64 \<times> seccomp_emulator) option" where
  "SetModeFilter no_new_privs t flags prog st =
     (if flags AND NOT SUPPORTED_FLAGS \<noteq> 0 then Some (- EINVAL, st)
      else if flags AND FLAG_TSYNC \<noteq> 0 \<and> flags AND FLAG_NEW_LISTENER \<noteq> 0
        \<and> flags AND FLAG_TSYNC_ESRCH = 0 then Some (- EINVAL, st)
      else case prog of None \<Rightarrow> Some (- EFAULT, st) | Some insts \<Rightarrow>
        if no_new_privs = 0 then Some (- EACCES, st)
        else if length insts > BPF_MAXINSNS \<or> length insts = 0 then Some (- EINVAL, st)
        else if se_TotalFilterInstructions st + length insts
            + length (ts_Filters (se_Threads st ! t)) * BPF_MULTIFILTERPENALTY > BPF_MAX_INSNS_PER_PATH
          then Some (- ENOMEM, st)
        else if flags AND FLAG_TSYNC \<noteq> 0 \<and> CanDoTSync t st \<noteq> 0 then
          Some (if flags AND FLAG_TSYNC_ESRCH \<noteq> 0 then - ESRCH else CanDoTSync t st, st)
        else case ValidateProgram insts of
          None \<Rightarrow> None
        | Some r \<Rightarrow>
            if r = 0 then map_option (\<lambda>st'. (0, st')) (install_filter t flags insts st)
            else Some (r, st))"

definition BPF_STMT :: "u16 \<Rightarrow> u32 \<Rightarrow> sock_filter" where
  "BPF_STMT code k = \<lparr>sf_code = code, sf_jt = 0, sf_jf = 0, sf_k = k\<rparr>"

definition BPF_JUMP :: "u16 \<Rightarrow> u32 \<Rightarrow> u8 \<Rightarrow> u8 \<Rightarrow> sock_filter" where
  "BPF_JUMP code k jt jf = \<lparr>sf_code = code, sf_jt = jt, sf_jf = jf, sf_k = k\<rparr>"

definition ALLOW_SYSCALL :: "u32 \<Rightarrow> sock_filter list" where
  "ALLOW_SYSCALL nr = [BPF_JUMP (BPF_JMP + BPF_JEQ + BPF_K) nr 0 1, BPF_STMT (BPF_RET + BPF_K) SECCOMP_RET_ALLOW]"

text \<open>The arm64 numbers of \<open>read\<close>, \<open>write\<close>, \<open>exit\<close>, \<open>exit_group\<close> and \<open>rt_sigreturn\<close>.\<close>

definition strict_filter_arm64 :: "sock_filter list" where
  "strict_filter_arm64 =
     BPF_STMT (BPF_LD + BPF_W + BPF_ABS) 0
     # ALLOW_SYSCALL 63 @ ALLOW_SYSCALL 64 @ ALLOW_SYSCALL 93 @ ALLOW_SYSCALL 94 @ ALLOW_SYSCALL 139
     @ [BPF_STMT (BPF_RET + BPF_K) SECCOMP_RET_KILL_PROCESS]"

text \<open>\<open>SetModeStrict\<close> discards what \<open>SetModeFilter\<close> returns. \<open>arg_null\<close>: the argument is null.\<close>

definition SetModeStrict ::
  "nat \<Rightarrow> nat \<Rightarrow> u32 \<Rightarrow> bool \<Rightarrow> seccomp_emulator \<Rightarrow> (u64 \<times> seccomp_emulator) option" where
  "SetModeStrict no_new_privs t flags arg_null st =
     (if no_new_privs = 0 then Some (- EACCES, st)
      else if flags \<noteq> 0 then Some (- EINVAL, st)
      else if \<not> arg_null then Some (- EINVAL, st)
      else if ts_SeccompMode (se_Threads st ! t) = SECCOMP_MODE_FILTER then Some (- EINVAL, st)
      else map_option (\<lambda>(_, st'). (0, st'\<lparr>se_Threads := (se_Threads st')[t :=
               (se_Threads st' ! t)\<lparr>ts_SeccompMode := SECCOMP_MODE_STRICT\<rparr>]\<rparr>))
             (SetModeFilter no_new_privs t 0 (Some strict_filter_arm64)
                (st\<lparr>se_CurrentKillSignal := SIGKILL\<rparr>)))"

section \<open>Executing a system call on a thread\<close>

definition thread_filters :: "filter_pool \<Rightarrow> seccomp_thread \<Rightarrow> seccomp_filter_info list option" where
  "thread_filters pool th = those (map pool (ts_Filters th))"

definition thread_ExecuteFilter ::
  "nat \<Rightarrow> u64 \<Rightarrow> syscall_args \<Rightarrow> seccomp_emulator \<Rightarrow> (filter_result \<times> seccomp_emulator) option" where
  "thread_ExecuteFilter t rip args st =
     (let th = se_Threads st ! t in
      case thread_filters (se_Filters st) th of
        None \<Rightarrow> None
      | Some fs \<Rightarrow>
          map_option (\<lambda>(r, c). (r, st\<lparr>se_Threads := (se_Threads st)[t := th\<lparr>ts_SeccompCache := c\<rparr>]\<rparr>))
            (ExecuteFilter fs (se_FilterGeneration st) rip args (ts_SeccompCache th)))"

section \<open>Steps and reachable states\<close>

definition initial_emulator :: "u64 \<Rightarrow> seccomp_emulator" where
  "initial_emulator tid = \<lparr>se_Filters = Map.empty, se_NextFilter = 1, se_TotalFilterInstructions = 0,
     se_FilterGeneration = 1, se_CurrentKillSignal = SIGSYS, se_Threads = [fresh_thread tid]\<rparr>"

definition drop_thread :: "nat \<Rightarrow> seccomp_emulator \<Rightarrow> seccomp_emulator" where
  "drop_thread t st = st\<lparr>se_Threads := take t (se_Threads st) @ drop (Suc t) (se_Threads st)\<rparr>"

inductive seccomp_step :: "seccomp_emulator \<Rightarrow> seccomp_emulator \<Rightarrow> bool" where
  step_filter: "t < length (se_Threads st) \<Longrightarrow> SetModeFilter nnp t flags prog st = Some (r, st')
    \<Longrightarrow> seccomp_step st st'"
| step_strict: "t < length (se_Threads st) \<Longrightarrow> SetModeStrict nnp t flags arg_null st = Some (r, st')
    \<Longrightarrow> seccomp_step st st'"
| step_clone: "p < length (se_Threads st)
    \<Longrightarrow> InheritSeccompFilters p (length (se_Threads st))
          (st\<lparr>se_Threads := se_Threads st @ [fresh_thread tid]\<rparr>) = Some st'
    \<Longrightarrow> seccomp_step st st'"
| step_exit: "t < length (se_Threads st) \<Longrightarrow> FreeSeccompFilters t st = Some st'
    \<Longrightarrow> seccomp_step st (drop_thread t st')"
| step_syscall: "t < length (se_Threads st) \<Longrightarrow> thread_ExecuteFilter t rip args st = Some (r, st') \<Longrightarrow> seccomp_step st st'"

inductive seccomp_reachable :: "seccomp_emulator \<Rightarrow> bool" where
  reach_init: "seccomp_reachable (initial_emulator tid)"
| reach_step: "seccomp_reachable st \<Longrightarrow> seccomp_step st st' \<Longrightarrow> seccomp_reachable st'"

section \<open>Reference counts cover the references\<close>

definition refs :: "nat \<Rightarrow> seccomp_thread list \<Rightarrow> nat" where
  "refs p ths = sum_list (map (\<lambda>th. count_list (ts_Filters th) p) ths)"

definition pool_inv :: "filter_pool \<Rightarrow> nat \<Rightarrow> seccomp_thread list \<Rightarrow> bool" where
  "pool_inv pool nxt ths \<longleftrightarrow>
     (\<forall>p f. pool p = Some f \<longrightarrow> 0 < p \<and> p < nxt \<and> installed f \<and> refs p ths \<le> fi_RefCount f)
     \<and> (\<forall>th\<in>set ths. set (ts_Filters th) \<subseteq> dom pool)"

definition add_refs :: "nat list \<Rightarrow> filter_pool \<Rightarrow> filter_pool" where
  "add_refs ps pool = (\<lambda>p. map_option (\<lambda>f. f\<lparr>fi_RefCount := fi_RefCount f + count_list ps p\<rparr>) (pool p))"

definition sub_refs :: "nat list \<Rightarrow> filter_pool \<Rightarrow> filter_pool" where
  "sub_refs ps pool = (\<lambda>p. map_option (\<lambda>f. f\<lparr>fi_RefCount := fi_RefCount f - count_list ps p\<rparr>) (pool p))"

lemma inc_refs_eq: "set ps \<subseteq> dom pool \<Longrightarrow> inc_refs ps pool = Some (add_refs ps pool)"
proof (induction ps arbitrary: pool)
  case Nil
  then show ?case by (simp add: add_refs_def fun_eq_iff map_option_case split: option.split)
next
  case (Cons p ps)
  then obtain f where f: "pool p = Some f" by auto
  let ?pool = "pool(p \<mapsto> f\<lparr>fi_RefCount := fi_RefCount f + 1\<rparr>)"
  have "add_refs ps ?pool = add_refs (p # ps) pool"
    using f by (auto simp: add_refs_def fun_eq_iff map_option_case split: option.split)
  moreover have "set ps \<subseteq> dom ?pool" using Cons.prems by auto
  ultimately show ?case using Cons.IH [of ?pool] f by (simp del: fun_upd_apply)
qed

lemma dec_refs_eq:
  "set ps \<subseteq> dom pool \<Longrightarrow> 0 \<notin> set ps \<Longrightarrow> \<exists>h. dec_refs ps has pool = Some (h, sub_refs ps pool)"
proof (induction ps arbitrary: pool has)
  case Nil
  then show ?case by (simp add: sub_refs_def fun_eq_iff map_option_case split: option.split)
next
  case (Cons p ps)
  then obtain f where f: "pool p = Some f" by auto
  let ?pool = "pool(p \<mapsto> f\<lparr>fi_RefCount := fi_RefCount f - 1\<rparr>)"
  have "sub_refs ps ?pool = sub_refs (p # ps) pool"
    using f by (auto simp: sub_refs_def fun_eq_iff map_option_case split: option.split)
  moreover have "set ps \<subseteq> dom ?pool" using Cons.prems by auto
  ultimately show ?case using Cons.IH [of ?pool] Cons.prems f by (simp del: fun_upd_apply)
qed

lemma installed_RefCount [simp]: "installed (f\<lparr>fi_RefCount := n\<rparr>) = installed f"
  by (simp add: installed_def)

lemma dom_add_refs [simp]: "dom (add_refs ps pool) = dom pool"
  by (auto simp: add_refs_def dom_def)

lemma dom_sub_refs [simp]: "dom (sub_refs ps pool) = dom pool"
  by (auto simp: sub_refs_def dom_def)

lemma refs_update:
  "i < length ths \<Longrightarrow> refs p (ths[i := th]) =
     refs p ths + count_list (ts_Filters th) p - count_list (ts_Filters (ths ! i)) p"
  by (simp add: refs_def map_update sum_list_update)

lemma refs_ge: "i < length ths \<Longrightarrow> count_list (ts_Filters (ths ! i)) p \<le> refs p ths"
  unfolding refs_def by (metis (no_types, lifting) elem_le_sum_list length_map nth_map)

lemma pool_inv_share:
  assumes "pool_inv pool nxt ths" "i < length ths" "set ps \<subseteq> dom pool" "ts_Filters th = ps"
  shows "pool_inv (add_refs ps pool) nxt (ths[i := th])"
proof -
  have "0 < p \<and> p < nxt \<and> installed f \<and> refs p (ths[i := th]) \<le> fi_RefCount f"
    if pf: "add_refs ps pool p = Some f" for p f
  proof -
    from pf obtain g where g: "pool p = Some g" "f = g\<lparr>fi_RefCount := fi_RefCount g + count_list ps p\<rparr>"
      by (auto simp: add_refs_def)
    then have "0 < p" "p < nxt" "installed g" "refs p ths \<le> fi_RefCount g"
      using assms(1) by (auto simp: pool_inv_def)
    with g show ?thesis
      using refs_ge [OF assms(2), of p] assms(4) by (simp add: refs_update [OF assms(2)])
  qed
  moreover have "set (ts_Filters th') \<subseteq> dom pool" if "th' \<in> set (ths[i := th])" for th'
    using that assms set_update_subset_insert [of ths i th] unfolding pool_inv_def by blast
  ultimately show ?thesis unfolding pool_inv_def by simp
qed

lemma pool_inv_same_filters:
  assumes "pool_inv pool nxt ths" "map ts_Filters ths' = map ts_Filters ths"
  shows "pool_inv pool nxt ths'"
proof -
  have "refs p ths' = refs p ths" for p
    using arg_cong [OF assms(2), of "map (\<lambda>fs. count_list fs p)"] by (simp add: refs_def comp_def)
  moreover have "ts_Filters ` set ths' = ts_Filters ` set ths"
    using assms(2) by (metis list.set_map)
  ultimately show ?thesis using assms(1)
    unfolding pool_inv_def by (metis (no_types, lifting) image_iff)
qed

lemma pool_inv_install:
  assumes "pool_inv pool nxt ths" "i < length ths" "0 < nxt" "installed f" "fi_RefCount f = 1"
    and "ts_Filters th = ts_Filters (ths ! i) @ [nxt]"
  shows "pool_inv (pool(nxt \<mapsto> f)) (nxt + 1) (ths[i := th])"
proof -
  have sub: "set (ts_Filters t') \<subseteq> dom pool" if "t' \<in> set ths" for t'
    using assms(1) that by (auto simp: pool_inv_def)
  have nxt: "nxt \<notin> dom pool" using assms(1) by (auto simp: pool_inv_def)
  have "count_list (ts_Filters t') nxt = 0" if "t' \<in> set ths" for t'
    using sub [OF that] nxt by (auto simp: count_list_0_iff)
  then have "refs nxt ths = 0" by (simp add: refs_def)
  then have "refs nxt (ths[i := th]) \<le> 1"
    using assms(6) sub [OF nth_mem [OF assms(2)]] nxt
    by (simp add: refs_update [OF assms(2)])
  moreover have "refs p (ths[i := th]) = refs p ths" if "p \<noteq> nxt" for p
    using that assms(6) by (simp add: refs_update [OF assms(2)])
  moreover have "set (ts_Filters th') \<subseteq> insert nxt (dom pool)" if "th' \<in> set (ths[i := th])" for th'
    using that assms(2,6) sub set_update_subset_insert [of ths i th] nth_mem [OF assms(2)]
    by fastforce
  moreover have "0 < p \<and> p < nxt \<and> installed g \<and> refs p ths \<le> fi_RefCount g" if "pool p = Some g" for p g
    using that assms(1) unfolding pool_inv_def by blast
  ultimately show ?thesis
    using assms(3,4,5) less_SucI unfolding pool_inv_def
    by (simp add: less_SucI)
qed

lemma pool_inv_free:
  assumes inv: "pool_inv pool nxt ths" and i: "i < length ths"
    and pool': "pool' = sub_refs (ts_Filters (ths ! i)) pool
      \<or> pool' = erase_unreferenced (sub_refs (ts_Filters (ths ! i)) pool)"
  shows "pool_inv pool' nxt (ths[i := (ths ! i)\<lparr>ts_Filters := []\<rparr>])" (is "pool_inv _ _ ?ths")
proof -
  let ?sub = "sub_refs (ts_Filters (ths ! i)) pool"
  have sub: "0 < p \<and> p < nxt \<and> installed f \<and> refs p ?ths \<le> fi_RefCount f"
    if pf: "?sub p = Some f" for p f
  proof -
    from pf obtain g where g: "pool p = Some g"
      "f = g\<lparr>fi_RefCount := fi_RefCount g - count_list (ts_Filters (ths ! i)) p\<rparr>"
      by (auto simp: sub_refs_def)
    then have "0 < p" "p < nxt" "installed g" "refs p ths \<le> fi_RefCount g"
      using inv by (auto simp: pool_inv_def)
    with g show ?thesis by (simp add: refs_update [OF i])
  qed
  have dom: "set (ts_Filters th) \<subseteq> dom pool" if "th \<in> set ?ths" for th
    using that inv set_update_subset_insert [of ths i] unfolding pool_inv_def by fastforce
  have kept: "p \<in> dom (erase_unreferenced ?sub)" if th: "th \<in> set ?ths" "p \<in> set (ts_Filters th)" for th p
  proof -
    obtain f where f: "?sub p = Some f" using dom [OF th(1)] th(2) dom_sub_refs by blast
    have "0 < count_list (ts_Filters th) p" using th(2) count_list_0_iff by fastforce
    also have "\<dots> \<le> refs p ?ths" using th(1) by (metis in_set_conv_nth refs_ge)
    finally have "0 < fi_RefCount f" using sub [OF f] by simp
    with f show ?thesis by (auto simp: erase_unreferenced_def)
  qed
  from pool' show ?thesis
  proof
    assume "pool' = ?sub"
    then show ?thesis using sub dom unfolding pool_inv_def by auto
  next
    assume p: "pool' = erase_unreferenced ?sub"
    have "?sub q = Some f" if "erase_unreferenced ?sub q = Some f" for q f
      using that by (auto simp: erase_unreferenced_def split: option.splits if_splits)
    then show ?thesis
      using sub kept unfolding pool_inv_def p by blast
  qed
qed

lemma pool_inv_drop:
  assumes "pool_inv pool nxt ths"
  shows "pool_inv pool nxt (take t ths @ drop (Suc t) ths)"
proof -
  have "refs p (take t ths @ drop (Suc t) ths) \<le> refs p ths" for p
  proof (cases "t < length ths")
    case True
    then have "ths = take t ths @ ths ! t # drop (Suc t) ths" by (rule id_take_nth_drop)
    then have "refs p ths = refs p (take t ths @ ths ! t # drop (Suc t) ths)" by simp
    then show ?thesis by (simp add: refs_def)
  qed simp
  moreover have "set (take t ths @ drop (Suc t) ths) \<subseteq> set ths"
    using set_take_subset set_drop_subset by fastforce
  ultimately show ?thesis
    using assms unfolding pool_inv_def by (meson le_trans subsetD)
qed

section \<open>The caches stay transparent\<close>

definition core :: "seccomp_filter_info \<Rightarrow> seccomp_filter_info" where
  "core f = f\<lparr>fi_RefCount := 0\<rparr>"

lemma core_simps [simp]:
  "fi_Program (core f) = fi_Program f" "fi_ShouldLog (core f) = fi_ShouldLog f"
  "fi_ReadsIP (core f) = fi_ReadsIP f" "fi_ReadsArgs (core f) = fi_ReadsArgs f"
  by (simp_all add: core_def)

lemma core_RefCount [simp]: "core (f\<lparr>fi_RefCount := n\<rparr>) = core f"
  by (simp add: core_def)

lemma run_filter_core [simp]: "run_filter d (core f) = run_filter d f"
  by (simp add: run_filter_def)

lemma run_chain_core: "run_chain d acc (map core fs) = run_chain d acc fs"
  by (induction fs arbitrary: acc) (auto split: option.split)

lemma chain_allows_core: "chain_allows (map core fs) = chain_allows fs"
  by (simp add: chain_allows_def chain_result_def rev_map run_chain_core fun_eq_iff)

lemma cache_ok_core: "cache_ok (map core fs) gen c = cache_ok fs gen c"
  by (simp add: cache_ok_def cache_shape_def cache_sound_def chain_allows_core list_ex_iff)

lemma thread_filters_core:
  assumes "\<And>p. p \<in> set (ts_Filters th) \<Longrightarrow> map_option core (pool' p) = map_option core (pool p)"
    and "thread_filters pool' th = Some fs'"
  obtains fs where "thread_filters pool th = Some fs" "map core fs = map core fs'"
proof -
  have "\<exists>fs. those (map pool ps) = Some fs \<and> map core fs = map core fs'"
    if "\<And>p. p \<in> set ps \<Longrightarrow> map_option core (pool' p) = map_option core (pool p)"
      "those (map pool' ps) = Some fs'" for ps fs'
    using that
  proof (induction ps arbitrary: fs')
    case (Cons p ps)
    then obtain f' fs1 where "pool' p = Some f'" "those (map pool' ps) = Some fs1" "fs' = f' # fs1"
      by (auto split: option.splits)
    moreover from this Cons.prems(1) [of p] obtain f where "pool p = Some f" "core f = core f'"
      by (cases "pool p") auto
    ultimately show ?case using Cons.IH [of fs1] Cons.prems(1) by auto
  qed simp
  from this [OF assms(1) assms(2) [unfolded thread_filters_def]] show ?thesis
    using that by (auto simp: thread_filters_def)
qed

definition caches_ok :: "filter_pool \<Rightarrow> u64 \<Rightarrow> seccomp_thread list \<Rightarrow> bool" where
  "caches_ok pool gen ths \<longleftrightarrow> (\<forall>th\<in>set ths. vc_Generation (ts_SeccompCache th) \<le> gen
     \<and> (\<forall>fs. thread_filters pool th = Some fs \<longrightarrow> cache_ok fs gen (ts_SeccompCache th)))"

lemma caches_ok_pool:
  assumes "caches_ok pool gen ths" and "set ths' \<subseteq> set ths"
    and "\<And>th p. th \<in> set ths' \<Longrightarrow> p \<in> set (ts_Filters th) \<Longrightarrow> map_option core (pool' p) = map_option core (pool p)"
  shows "caches_ok pool' gen ths'"
  unfolding caches_ok_def
proof (intro ballI conjI allI impI)
  fix th assume th: "th \<in> set ths'"
  then show "vc_Generation (ts_SeccompCache th) \<le> gen"
    using assms(1,2) by (auto simp: caches_ok_def)
  fix fs' assume "thread_filters pool' th = Some fs'"
  with assms(3) [OF th] obtain fs where "thread_filters pool th = Some fs" "map core fs = map core fs'"
    by (rule thread_filters_core)
  then show "cache_ok fs' gen (ts_SeccompCache th)"
    using assms(1,2) th by (metis cache_ok_core caches_ok_def subsetD)
qed

text \<open>A bump of the generation makes every cache stale, so any change of filters is allowed.\<close>

lemma caches_ok_bump:
  assumes "\<And>th. th \<in> set ths \<Longrightarrow> vc_Generation (ts_SeccompCache th) \<le> gen" "gen \<noteq> - 1"
  shows "caches_ok pool (gen + 1) ths"
proof -
  have "gen < gen + 1"
    using assms(2) unatSuc [of gen] by (simp add: word_less_nat_alt add.commute add_eq_0_iff)
  then have "c \<le> gen + 1 \<and> c \<noteq> gen + 1" if "c \<le> gen" for c
    using that by auto
  then show ?thesis
    using assms(1) unfolding caches_ok_def cache_ok_def by blast
qed

definition emulator_inv :: "seccomp_emulator \<Rightarrow> bool" where
  "emulator_inv st \<longleftrightarrow> 0 < se_NextFilter st
     \<and> pool_inv (se_Filters st) (se_NextFilter st) (se_Threads st)
     \<and> caches_ok (se_Filters st) (se_FilterGeneration st) (se_Threads st)
     \<and> 0 < se_FilterGeneration st
     \<and> unat (se_FilterGeneration st) \<le> Suc (se_TotalFilterInstructions st)
     \<and> se_TotalFilterInstructions st \<le> BPF_MAX_INSNS_PER_PATH"

lemma tsync_loop_inv:
  assumes "pool_inv (se_Filters st) nxt (se_Threads st)" "t < length (se_Threads st)"
    and "\<forall>i\<in>set is. i < length (se_Threads st)"
  shows "\<exists>st'. tsync_loop t is st = Some st' \<and> pool_inv (se_Filters st') nxt (se_Threads st')
     \<and> map ts_SeccompCache (se_Threads st') = map ts_SeccompCache (se_Threads st)
     \<and> se_NextFilter st' = se_NextFilter st \<and> se_FilterGeneration st' = se_FilterGeneration st
     \<and> se_TotalFilterInstructions st' = se_TotalFilterInstructions st"
  using assms
proof (induction "is" arbitrary: st)
  case (Cons i "is")
  show ?case
  proof (cases "i = t")
    case False
    define p where "p = ts_Filters (se_Threads st ! t)"
    have p: "set p \<subseteq> dom (se_Filters st)"
      using Cons.prems(1,2) nth_mem unfolding pool_inv_def p_def by blast
    define st1 where "st1 = st\<lparr>se_Filters := add_refs p (se_Filters st),
      se_Threads := (se_Threads st)[i := (se_Threads st ! i)\<lparr>ts_Filters := p,
        ts_SeccompMode := ts_SeccompMode (se_Threads st ! t)\<rparr>]\<rparr>"
    have "pool_inv (se_Filters st1) nxt (se_Threads st1)"
      unfolding st1_def using Cons.prems p by (simp add: pool_inv_share)
    moreover have "map ts_SeccompCache (se_Threads st1) = map ts_SeccompCache (se_Threads st)"
      using Cons.prems(3) by (simp add: st1_def map_list_update_same)
    moreover have "tsync_loop t (i # is) st = tsync_loop t is st1"
      using False inc_refs_eq [OF p] by (simp add: st1_def Let_def p_def)
    ultimately show ?thesis
      using Cons.IH [of st1] Cons.prems(2,3) by (simp add: st1_def)
  qed (use Cons in simp)
qed simp

lemma AnalyzeFilterLoads_installed:
  "ValidateProgram (fi_Program f) = Some 0 \<Longrightarrow> length (fi_Program f) < 2 ^ 16
   \<Longrightarrow> installed (AnalyzeFilterLoads f) \<and> fi_RefCount (AnalyzeFilterLoads f) = fi_RefCount f"
  by (auto simp: installed_def AnalyzeFilterLoads_def split: prod.split)

lemma install_filter_inv:
  assumes inv: "emulator_inv st" and t: "t < length (se_Threads st)"
    and v: "ValidateProgram prog = Some 0" and len: "0 < length prog" "length prog \<le> BPF_MAXINSNS"
    and tot: "se_TotalFilterInstructions st + length prog \<le> BPF_MAX_INSNS_PER_PATH"
  shows "\<exists>st'. install_filter t flags prog st = Some st' \<and> emulator_inv st'"
proof -
  define info where "info = AnalyzeFilterLoads \<lparr>fi_Program = prog, fi_RefCount = 1,
            fi_FilterInstructions = of_nat (length prog), fi_ShouldLog = (flags AND FLAG_LOG \<noteq> 0),
            fi_ReadsIP = False, fi_ReadsArgs = False\<rparr>"
  have info: "installed info" "fi_RefCount info = 1"
    using AnalyzeFilterLoads_installed v len by (simp_all add: info_def)
  let ?it = "se_NextFilter st" and ?th = "se_Threads st ! t"
  define st1 where "st1 = st\<lparr>se_Filters := (se_Filters st)(?it \<mapsto> info), se_NextFilter := ?it + 1,
            se_TotalFilterInstructions := se_TotalFilterInstructions st + length prog,
            se_Threads := (se_Threads st)[t :=
              ?th\<lparr>ts_Filters := ts_Filters ?th @ [?it], ts_SeccompMode := SECCOMP_MODE_FILTER\<rparr>]\<rparr>"
  have pi: "pool_inv (se_Filters st1) (?it + 1) (se_Threads st1)"
    using pool_inv_install [OF _ t _ info] inv by (simp add: st1_def emulator_inv_def)
  have c1: "map ts_SeccompCache (se_Threads st1) = map ts_SeccompCache (se_Threads st)"
    using t by (simp add: st1_def map_list_update_same)
  obtain st2 where st2: "(if flags AND FLAG_TSYNC \<noteq> 0 then TSyncFilters t st1 else Some st1) = Some st2"
    "pool_inv (se_Filters st2) (?it + 1) (se_Threads st2)"
    "map ts_SeccompCache (se_Threads st2) = map ts_SeccompCache (se_Threads st)"
    "se_NextFilter st2 = ?it + 1" "se_FilterGeneration st2 = se_FilterGeneration st"
    "se_TotalFilterInstructions st2 = se_TotalFilterInstructions st + length prog"
    using tsync_loop_inv [OF pi, of t "[0..<length (se_Threads st1)]"] t c1 pi
    by (cases "flags AND FLAG_TSYNC = 0") (auto simp: TSyncFilters_def st1_def)
  have "vc_Generation (ts_SeccompCache th) \<le> se_FilterGeneration st" if "th \<in> set (se_Threads st2)" for th
  proof -
    have "ts_SeccompCache th \<in> set (map ts_SeccompCache (se_Threads st))"
      using that st2(3) by (metis image_eqI list.set_map)
    then show ?thesis using inv by (auto simp: emulator_inv_def caches_ok_def)
  qed
  moreover have g: "unat (se_FilterGeneration st) \<le> 32769"
    using inv by (simp add: emulator_inv_def)
  then have m1: "se_FilterGeneration st \<noteq> - 1"
    by (auto simp: unsigned_minus_1_eq_mask mask_eq_exp_minus_1)
  moreover have u: "unat (se_FilterGeneration st + 1) = Suc (unat (se_FilterGeneration st))"
    using m1 unatSuc [of "se_FilterGeneration st"] by (simp add: add.commute add_eq_0_iff)
  moreover have "0 < se_FilterGeneration st + 1" using u by (simp add: word_less_nat_alt)
  moreover have "unat (se_FilterGeneration st) \<le> se_TotalFilterInstructions st + length prog"
    using inv len(1) unfolding emulator_inv_def by linarith
  ultimately have "emulator_inv (st2\<lparr>se_FilterGeneration := se_FilterGeneration st2 + 1\<rparr>)"
    using st2 inv tot caches_ok_bump by (simp add: emulator_inv_def)
  moreover have "install_filter t flags prog st =
      Some (st2\<lparr>se_FilterGeneration := se_FilterGeneration st2 + 1\<rparr>)"
    unfolding install_filter_def Let_def
    by (fold info_def, fold st1_def) (simp only: st2(1) option.map)
  ultimately show ?thesis by blast
qed

lemma emulator_inv_threads:
  assumes "emulator_inv st" "map ts_Filters ths = map ts_Filters (se_Threads st)"
    and "map ts_SeccompCache ths = map ts_SeccompCache (se_Threads st)"
  shows "emulator_inv (st\<lparr>se_Threads := ths, se_CurrentKillSignal := k\<rparr>)"
proof -
  have "\<exists>th'\<in>set (se_Threads st). ts_Filters th' = ts_Filters th \<and> ts_SeccompCache th' = ts_SeccompCache th"
    if th: "th \<in> set ths" for th
  proof -
    obtain i where "i < length ths" "th = ths ! i" using th by (auto simp: in_set_conv_nth)
    then have "i < length (se_Threads st)" "ts_Filters th = ts_Filters (se_Threads st ! i)"
      "ts_SeccompCache th = ts_SeccompCache (se_Threads st ! i)"
      using assms(2,3) by (metis length_map nth_map)+
    then show ?thesis by auto
  qed
  then have "caches_ok (se_Filters st) (se_FilterGeneration st) ths"
    using assms(1) unfolding emulator_inv_def caches_ok_def thread_filters_def by metis
  then show ?thesis
    using assms pool_inv_same_filters unfolding emulator_inv_def by auto
qed

lemma SetModeFilter_inv:
  assumes "emulator_inv st" "t < length (se_Threads st)"
  shows "\<exists>r st'. SetModeFilter nnp t flags prog st = Some (r, st') \<and> emulator_inv st'"
proof -
  have ins: "\<exists>st'. install_filter t flags p st = Some st' \<and> emulator_inv st'"
    if "ValidateProgram p = Some 0" "\<not> 4096 < length p"
       "\<not> 32768 < se_TotalFilterInstructions st + length p + length (ts_Filters (se_Threads st ! t)) * 4" for p
    using install_filter_inv [OF assms that(1)] that ValidateProgram_None_iff [of p] by auto
  show ?thesis
  proof (cases prog)
    case (Some p)
    then show ?thesis
      using assms(1) ins [of p]
      by (cases "ValidateProgram p") (auto simp: SetModeFilter_def ValidateProgram_None_iff)
  qed (use assms in \<open>simp add: SetModeFilter_def\<close>)
qed

lemma SetModeStrict_inv:
  assumes inv: "emulator_inv st" and t: "t < length (se_Threads st)"
  shows "\<exists>r st'. SetModeStrict nnp t flags arg_null st = Some (r, st') \<and> emulator_inv st'"
proof -
  have "emulator_inv (st\<lparr>se_CurrentKillSignal := SIGKILL\<rparr>)"
    using emulator_inv_threads [OF inv refl refl, of SIGKILL] by simp
  then obtain r st' where st': "SetModeFilter nnp t 0 (Some strict_filter_arm64)
       (st\<lparr>se_CurrentKillSignal := SIGKILL\<rparr>) = Some (r, st')" "emulator_inv st'"
    using SetModeFilter_inv [of "st\<lparr>se_CurrentKillSignal := SIGKILL\<rparr>"] t by fastforce
  have "emulator_inv (st'\<lparr>se_Threads := (se_Threads st')[t :=
          (se_Threads st' ! t)\<lparr>ts_SeccompMode := SECCOMP_MODE_STRICT\<rparr>]\<rparr>)"
    using emulator_inv_threads [OF st'(2), of "(se_Threads st')[t :=
          (se_Threads st' ! t)\<lparr>ts_SeccompMode := SECCOMP_MODE_STRICT\<rparr>]" "se_CurrentKillSignal st'"]
    by (simp add: map_list_update_same)
  with st' inv show ?thesis unfolding SetModeStrict_def by auto
qed

lemma Inherit_inv:
  assumes inv: "emulator_inv st" and p: "p < length (se_Threads st)"
  shows "\<exists>st'. InheritSeccompFilters p (length (se_Threads st))
      (st\<lparr>se_Threads := se_Threads st @ [fresh_thread tid]\<rparr>) = Some st' \<and> emulator_inv st'"
proof -
  let ?ths = "se_Threads st" and ?pool = "se_Filters st" and ?p = "se_Threads st ! p"
  let ?c = "fresh_thread tid\<lparr>ts_Filters := ts_Filters ?p, ts_SeccompMode := ts_SeccompMode ?p\<rparr>"
  have "pool_inv ?pool (se_NextFilter st) (?ths @ [fresh_thread tid])"
    using inv by (auto simp: emulator_inv_def pool_inv_def refs_def fresh_thread_def)
  moreover have sub: "set (ts_Filters ?p) \<subseteq> dom ?pool"
    using inv p nth_mem unfolding emulator_inv_def pool_inv_def by blast
  ultimately have pi: "pool_inv (add_refs (ts_Filters ?p) ?pool) (se_NextFilter st) (?ths @ [?c])"
    using pool_inv_share [of ?pool _ "?ths @ [fresh_thread tid]" "length ?ths" _ ?c] by simp
  have "caches_ok ?pool (se_FilterGeneration st) ?ths" using inv by (simp add: emulator_inv_def)
  then have "caches_ok (add_refs (ts_Filters ?p) ?pool) (se_FilterGeneration st) ?ths"
    by (rule caches_ok_pool) (auto simp: add_refs_def option.map_comp comp_def)
  then have "caches_ok (add_refs (ts_Filters ?p) ?pool) (se_FilterGeneration st) (?ths @ [?c])"
    using inv by (auto simp: caches_ok_def fresh_thread_def fresh_cache_def cache_ok_def emulator_inv_def)
  with pi inv p inc_refs_eq [OF sub] show ?thesis
    by (simp add: InheritSeccompFilters_def emulator_inv_def nth_append Let_def)
qed

lemma Free_inv:
  assumes inv: "emulator_inv st" and t: "t < length (se_Threads st)"
  shows "\<exists>st'. FreeSeccompFilters t st = Some st' \<and> emulator_inv (drop_thread t st')"
proof -
  let ?ths = "se_Threads st" and ?th = "se_Threads st ! t" and ?pool = "se_Filters st"
  have pi: "pool_inv ?pool (se_NextFilter st) ?ths" using inv by (simp add: emulator_inv_def)
  then have "set (ts_Filters ?th) \<subseteq> dom ?pool" "0 \<notin> set (ts_Filters ?th)"
    using t nth_mem unfolding pool_inv_def by blast+
  then obtain h where dec: "dec_refs (ts_Filters ?th) False ?pool = Some (h, sub_refs (ts_Filters ?th) ?pool)"
    using dec_refs_eq by blast
  define pool' where "pool' = (if h then erase_unreferenced (sub_refs (ts_Filters ?th) ?pool)
    else sub_refs (ts_Filters ?th) ?pool)"
  let ?ths1 = "?ths[t := ?th\<lparr>ts_Filters := []\<rparr>]"
  let ?ths' = "take t ?ths1 @ drop (Suc t) ?ths1"
  have pi': "pool_inv pool' (se_NextFilter st) ?ths'"
    by (rule pool_inv_drop, rule pool_inv_free [OF pi t]) (simp add: pool'_def)
  have sub: "set ?ths' \<subseteq> set ?ths"
    using set_take_subset set_drop_subset by (fastforce simp: take_update_cancel)
  have "caches_ok pool' (se_FilterGeneration st) ?ths'"
  proof (rule caches_ok_pool [OF _ sub])
    fix th p assume "th \<in> set ?ths'" "p \<in> set (ts_Filters th)"
    then obtain f where f: "pool' p = Some f" using pi' unfolding pool_inv_def by blast
    then show "map_option core (pool' p) = map_option core (?pool p)"
      by (auto simp: pool'_def erase_unreferenced_def sub_refs_def split: if_splits option.splits)
  qed (use inv in \<open>simp add: emulator_inv_def\<close>)
  with pi' inv dec show ?thesis
    by (auto simp: FreeSeccompFilters_def emulator_inv_def drop_thread_def pool'_def Let_def)
qed

lemma thread_filters_defined:
  assumes "pool_inv pool nxt ths" "th \<in> set ths"
  obtains fs where "thread_filters pool th = Some fs" "\<forall>f\<in>set fs. installed f"
proof -
  have "\<exists>fs. those (map pool ps) = Some fs \<and> (\<forall>f\<in>set fs. installed f)" if "set ps \<subseteq> dom pool" for ps
    using that
  proof (induction ps)
    case (Cons p ps)
    then obtain f where "pool p = Some f" "installed f" using assms(1) unfolding pool_inv_def by auto
    with Cons show ?case by auto
  qed simp
  then show ?thesis using assms that unfolding pool_inv_def thread_filters_def by meson
qed

lemma thread_ExecuteFilter_inv:
  assumes inv: "emulator_inv st" and t: "t < length (se_Threads st)"
  shows "\<exists>fs r st'. thread_filters (se_Filters st) (se_Threads st ! t) = Some fs
     \<and> thread_ExecuteFilter t rip args st = Some (r, st')
     \<and> (verdict_spec fs rip args = Some r \<or> zero_key fs rip args \<and> r = allowed_result) \<and> emulator_inv st'"
proof -
  let ?th = "se_Threads st ! t" and ?gen = "se_FilterGeneration st"
  obtain fs where fs: "thread_filters (se_Filters st) ?th = Some fs" "\<forall>f\<in>set fs. installed f"
    using thread_filters_defined inv t nth_mem unfolding emulator_inv_def by metis
  have ok: "cache_ok fs ?gen (ts_SeccompCache ?th)" "vc_Generation (ts_SeccompCache ?th) \<le> ?gen"
    using inv t fs(1) nth_mem unfolding emulator_inv_def caches_ok_def by blast+
  obtain r c' where ex: "ExecuteFilter fs ?gen rip args (ts_SeccompCache ?th) = Some (r, c')"
    "verdict_spec fs rip args = Some r \<or> zero_key fs rip args \<and> r = allowed_result" "cache_ok fs ?gen c'"
    using ExecuteFilter_ok [OF fs(2) ok(1)] by blast
  have gen: "vc_Generation c' \<le> ?gen"
    using ex(1) ok(2) by (auto simp: ExecuteFilter_def ExecuteFilterSlow_def refresh_cache_def Let_def
        split: if_splits option.splits)
  let ?th' = "?th\<lparr>ts_SeccompCache := c'\<rparr>"
  have "pool_inv (se_Filters st) (se_NextFilter st) ((se_Threads st)[t := ?th'])"
    using inv pool_inv_same_filters by (auto simp: emulator_inv_def map_list_update_same)
  moreover have "caches_ok (se_Filters st) ?gen ((se_Threads st)[t := ?th'])"
    using inv fs(1) ex(3) gen set_update_subset_insert [of "se_Threads st" t ?th']
    unfolding emulator_inv_def caches_ok_def by (fastforce simp: thread_filters_def)
  ultimately show ?thesis
    using inv ex fs by (simp add: thread_ExecuteFilter_def emulator_inv_def)
qed

lemma emulator_inv_initial: "emulator_inv (initial_emulator tid)"
  by (simp add: emulator_inv_def initial_emulator_def pool_inv_def caches_ok_def fresh_thread_def
      fresh_cache_def cache_ok_def)

lemma emulator_inv_step: "seccomp_step st st' \<Longrightarrow> emulator_inv st \<Longrightarrow> emulator_inv st'"
proof (induction rule: seccomp_step.induct)
  case (step_filter t st nnp flags prog r st')
  then show ?case using SetModeFilter_inv [of st t nnp flags prog] by auto
next
  case (step_strict t st nnp flags arg_null r st')
  then show ?case using SetModeStrict_inv [of st t nnp flags arg_null] by auto
next
  case (step_clone p st tid st')
  then show ?case using Inherit_inv [of st p tid] by auto
next
  case (step_exit t st st')
  then show ?case using Free_inv [of st t] by auto
next
  case (step_syscall t st rip args r st')
  then show ?case using thread_ExecuteFilter_inv [of st t rip args] by auto
qed

lemma emulator_inv_reachable: "seccomp_reachable st \<Longrightarrow> emulator_inv st"
  by (induction rule: seccomp_reachable.induct) (auto intro: emulator_inv_initial emulator_inv_step)

section \<open>The strict filter\<close>

definition strict_info :: seccomp_filter_info where
  "strict_info = AnalyzeFilterLoads \<lparr>fi_Program = strict_filter_arm64, fi_RefCount = 1,
     fi_FilterInstructions = 12, fi_ShouldLog = False, fi_ReadsIP = False, fi_ReadsArgs = False\<rparr>"

lemma strict_filter_list:
  "strict_filter_arm64 =
     [\<lparr>sf_code = 0x20, sf_jt = 0, sf_jf = 0, sf_k = 0\<rparr>,
      \<lparr>sf_code = 0x15, sf_jt = 0, sf_jf = 1, sf_k = 63\<rparr>, \<lparr>sf_code = 6, sf_jt = 0, sf_jf = 0, sf_k = 0x7FFF0000\<rparr>,
      \<lparr>sf_code = 0x15, sf_jt = 0, sf_jf = 1, sf_k = 64\<rparr>, \<lparr>sf_code = 6, sf_jt = 0, sf_jf = 0, sf_k = 0x7FFF0000\<rparr>,
      \<lparr>sf_code = 0x15, sf_jt = 0, sf_jf = 1, sf_k = 93\<rparr>, \<lparr>sf_code = 6, sf_jt = 0, sf_jf = 0, sf_k = 0x7FFF0000\<rparr>,
      \<lparr>sf_code = 0x15, sf_jt = 0, sf_jf = 1, sf_k = 94\<rparr>, \<lparr>sf_code = 6, sf_jt = 0, sf_jf = 0, sf_k = 0x7FFF0000\<rparr>,
      \<lparr>sf_code = 0x15, sf_jt = 0, sf_jf = 1, sf_k = 139\<rparr>, \<lparr>sf_code = 6, sf_jt = 0, sf_jf = 0, sf_k = 0x7FFF0000\<rparr>,
      \<lparr>sf_code = 6, sf_jt = 0, sf_jf = 0, sf_k = 0x80000000\<rparr>]"
  by (simp add: strict_filter_arm64_def BPF_STMT_def BPF_JUMP_def ALLOW_SYSCALL_def)

lemma load_nr: "load_le (take 4 (drop 0 (seccomp_data rip args))) = (ucast (args 0) :: u32)"
  using load_store_le_full [of 4 "ucast (args 0) :: u32"] by (simp add: seccomp_data_def)

text \<open>One instruction of the two kinds the strict filter is made of.\<close>

lemma step_jeq: "bpf_step data \<lparr>sf_code = 0x15, sf_jt = 0, sf_jf = 1, sf_k = k\<rparr> s =
   Continue (s\<lparr>bpf_IP := bpf_IP s + (if bpf_A s = k then 0 else 1)\<rparr>)"
  by (simp add: bpf_step_def bpf_fields jump_distance_def)

lemma step_ret: "bpf_step data \<lparr>sf_code = 6, sf_jt = 0, sf_jf = 0, sf_k = k\<rparr> s = Return k (Scratch s)"
  by (simp add: bpf_step_def bpf_fields)

lemma step_load_nr: "bpf_step (seccomp_data rip args) \<lparr>sf_code = 0x20, sf_jt = 0, sf_jf = 0, sf_k = 0\<rparr> s =
   Continue (s\<lparr>bpf_A := ucast (args 0)\<rparr>)"
  using load_nr [of rip args] by (simp add: bpf_step_def bpf_fields load_value_def)

lemma run_strict: "run_filter (seccomp_data rip args) strict_info =
   Some (if (ucast (args 0) :: u32) \<in> {63, 64, 93, 94, 139} then SECCOMP_RET_ALLOW else SECCOMP_RET_KILL_PROCESS)"
proof -
  have p: "fi_Program strict_info = strict_filter_arm64"
    by (simp add: strict_info_def AnalyzeFilterLoads_def split: prod.split)
  have len: "length strict_filter_arm64 = Suc (Suc (Suc (Suc (Suc (Suc (Suc (Suc (Suc (Suc (Suc (Suc 0)))))))))))"
    by (simp add: strict_filter_list)
  show ?thesis
    unfolding run_filter_def Execute_def p len execute_loop.simps
    by (simp add: strict_filter_list step_load_nr step_jeq step_ret)
qed

section \<open>Properties\<close>

definition demo_info :: seccomp_filter_info where
  "demo_info = \<lparr>fi_Program = demo_filter, fi_RefCount = 1, fi_FilterInstructions = 4,
     fi_ShouldLog = False, fi_ReadsIP = False, fi_ReadsArgs = False\<rparr>"

definition demo_emulator :: seccomp_emulator where
  "demo_emulator = \<lparr>se_Filters = [1 \<mapsto> demo_info], se_NextFilter = 2, se_TotalFilterInstructions = 4,
     se_FilterGeneration = 2, se_CurrentKillSignal = SIGSYS,
     se_Threads = [(fresh_thread 7)\<lparr>ts_Filters := [1], ts_SeccompMode := SECCOMP_MODE_FILTER\<rparr>]\<rparr>"

lemma demo_reachable: "seccomp_reachable demo_emulator"
proof (rule reach_step [OF reach_init [of 7] step_filter])
  have "length demo_filter = 4" "demo_filter \<noteq> []" by (simp_all add: demo_filter_def)
  moreover have "analyze_loads False False demo_filter = (False, False)"
    by (simp add: demo_filter_def bpf_fields)
  ultimately show "SetModeFilter 1 0 0 (Some demo_filter) (initial_emulator 7) = Some (0, demo_emulator)"
    by (simp add: SetModeFilter_def demo_filter_valid install_filter_def initial_emulator_def
        demo_emulator_def AnalyzeFilterLoads_def demo_info_def fresh_thread_def)
qed (simp add: initial_emulator_def)

text \<open>
  C7. In every state the emulator can reach by installing, inheriting and freeing filters and
  running system calls, a system call on any thread returns, no filter pointer dangles, and the
  call gets the verdict of running that thread's whole filter chain on the real instruction pointer,
  so that the per-thread ALLOW cache is invisible, with one exception: a call number of all ones at
  instruction pointer 0, under filters that read the instruction pointer and no argument, matches
  a zeroed cache entry and may be allowed without running the chain (\<open>zero_key_bypass\<close> below).
\<close>

theorem seccomp_verdict_transparent:
  assumes "seccomp_reachable st" and "t < length (se_Threads st)"
  shows "\<exists>fs r st'. thread_filters (se_Filters st) (se_Threads st ! t) = Some fs
     \<and> thread_ExecuteFilter t rip args st = Some (r, st')
     \<and> (verdict_spec fs rip args = Some r \<or> zero_key fs rip args \<and> r = allowed_result)"
  using thread_ExecuteFilter_inv [OF emulator_inv_reachable [OF assms(1)] assms(2)] by blast

theorem seccomp_verdict_transparent_witness:
  "\<exists>fs r st'. thread_filters (se_Filters demo_emulator) (se_Threads demo_emulator ! 0) = Some fs
     \<and> thread_ExecuteFilter 0 4096 (\<lambda>_. 57) demo_emulator = Some (r, st')
     \<and> verdict_spec fs 4096 (\<lambda>_. 57) = Some r"
proof -
  have "\<exists>fs r st'. thread_filters (se_Filters demo_emulator) (se_Threads demo_emulator ! 0) = Some fs
     \<and> thread_ExecuteFilter 0 4096 (\<lambda>_. 57) demo_emulator = Some (r, st')
     \<and> (verdict_spec fs 4096 (\<lambda>_. 57) = Some r \<or> zero_key fs 4096 (\<lambda>_. 57) \<and> r = allowed_result)"
    by (rule seccomp_verdict_transparent [OF demo_reachable]) (simp add: demo_emulator_def)
  then show ?thesis by (simp add: zero_key_def)
qed

text \<open>The exception is real: a filter that reads the instruction pointer and kills every call lets this one pass.\<close>

definition kill_filter :: "sock_filter list" where
  "kill_filter = [BPF_STMT (BPF_LD + BPF_W + BPF_ABS) 8, BPF_STMT (BPF_RET + BPF_K) SECCOMP_RET_KILL_PROCESS]"

definition kill_info :: seccomp_filter_info where
  "kill_info = AnalyzeFilterLoads \<lparr>fi_Program = kill_filter, fi_RefCount = 1, fi_FilterInstructions = 2,
     fi_ShouldLog = False, fi_ReadsIP = False, fi_ReadsArgs = False\<rparr>"

lemma zero_key_bypass:
  "ValidateProgram kill_filter = Some 0"
  "map_option fst (ExecuteFilter [kill_info] 2 0 (\<lambda>_. - 1) fresh_cache) = Some allowed_result"
  "verdict_spec [kill_info] 0 (\<lambda>_. - 1) \<noteq> Some allowed_result"
  by code_simp+

text \<open>
  C38. In every reachable state each filter a thread points to is alive, passed the validator,
  and its reference count is at least the number of pointers to it, so a thread exit never
  erases a filter another thread still uses.
\<close>

theorem seccomp_filters_alive:
  assumes "seccomp_reachable st" and "th \<in> set (se_Threads st)" and "p \<in> set (ts_Filters th)"
  shows "\<exists>f. se_Filters st p = Some f \<and> installed f \<and> 0 < fi_RefCount f
           \<and> refs p (se_Threads st) \<le> fi_RefCount f"
proof -
  have inv: "pool_inv (se_Filters st) (se_NextFilter st) (se_Threads st)"
    using emulator_inv_reachable [OF assms(1)] by (simp add: emulator_inv_def)
  then obtain f where f: "se_Filters st p = Some f" "installed f" "refs p (se_Threads st) \<le> fi_RefCount f"
    using assms(2,3) unfolding pool_inv_def by blast
  have "0 < count_list (ts_Filters th) p" using assms(3) count_list_0_iff by fastforce
  also have "\<dots> \<le> refs p (se_Threads st)" using assms(2) by (metis in_set_conv_nth refs_ge)
  finally show ?thesis using f by auto
qed

theorem seccomp_filters_alive_witness:
  "\<exists>f. se_Filters demo_emulator 1 = Some f \<and> installed f \<and> 0 < fi_RefCount f
       \<and> refs 1 (se_Threads demo_emulator) \<le> fi_RefCount f"
  by (rule seccomp_filters_alive [OF demo_reachable, of "se_Threads demo_emulator ! 0"])
    (simp_all add: demo_emulator_def)

text \<open>
  Of several filters the most restrictive action wins: the chain returns the value of one
  of its filters, with that filter's logging flag, and its action as a signed 16-bit number
  is at most the action of every filter.
\<close>

theorem chain_most_restrictive:
  assumes "chain_result filters rip args = Some (r, lg)" and "filters \<noteq> []"
  shows "(\<forall>f\<in>set filters. \<exists>v. run_filter (seccomp_data rip args) f = Some v \<and> action16 r \<le> action16 v)
     \<and> (\<exists>f\<in>set filters. run_filter (seccomp_data rip args) f = Some r \<and> lg = fi_ShouldLog f)"
proof -
  have "run_chain d acc (f # fs) \<noteq> Some None" for d acc f fs
    by (induction fs arbitrary: f acc) (auto split: option.splits if_splits)
  then have "run_chain (seccomp_data rip args) None (rev filters) \<noteq> Some None"
    using assms(2) by (metis list.exhaust rev_is_Nil_conv)
  moreover obtain z where "run_chain (seccomp_data rip args) None (rev filters) = Some z"
    "(case z of None \<Rightarrow> (0, False) | Some x \<Rightarrow> x) = (r, lg)"
    using assms(1) by (auto simp: chain_result_def)
  ultimately have "run_chain (seccomp_data rip args) None (rev filters) = Some (Some (r, lg))"
    by (cases z) auto
  from run_chain_min [OF this] show ?thesis by simp
qed

theorem chain_most_restrictive_witness:
  "chain_result [strict_info, strict_info] 0 (\<lambda>_. 57) = Some (SECCOMP_RET_KILL_PROCESS, False)
   \<and> (\<exists>v. run_filter (seccomp_data 0 (\<lambda>_. 57)) strict_info = Some v
        \<and> action16 SECCOMP_RET_KILL_PROCESS \<le> action16 v)"
proof -
  have lg: "fi_ShouldLog strict_info = False"
    by (simp add: strict_info_def AnalyzeFilterLoads_def split: prod.split)
  have "chain_result [strict_info, strict_info] 0 (\<lambda>_. 57) = Some (SECCOMP_RET_KILL_PROCESS, False)"
    by (simp add: chain_result_def run_strict lg)
  with chain_most_restrictive [OF this] show ?thesis by simp
qed

text \<open>
  The filter that \<open>SetModeStrict\<close> installs allows exactly \<open>read\<close>, \<open>write\<close>, \<open>exit\<close>,
  \<open>exit_group\<close> and \<open>rt_sigreturn\<close> (by the low 32 bits of the system call number) and kills
  the process on anything else.
\<close>

theorem strict_mode_verdict:
  "verdict_spec [strict_info] rip args =
     Some (if (ucast (args 0) :: u32) \<in> {63, 64, 93, 94, 139} then allowed_result
           else \<lparr>EarlyReturn = False, ResultValue = 0, Events = [KillProcess]\<rparr>)"
proof -
  have lg: "fi_ShouldLog strict_info = False"
    by (simp add: strict_info_def AnalyzeFilterLoads_def split: prod.split)
  show ?thesis
    by (simp add: verdict_spec_def chain_result_def run_strict lg finish_def apply_action_def
        audit_events_def allowed_result_def Let_def)
qed

text \<open>
  C40. \<open>SetModeStrict\<close> ignores a failure of \<open>SetModeFilter\<close>: once the process has used up its
  budget of filter instructions, it reports success and switches to strict mode although no
  filter was installed, so no system call is restricted by it.
\<close>

theorem strict_mode_fails_open:
  assumes "se_TotalFilterInstructions st + 12 > BPF_MAX_INSNS_PER_PATH" and "nnp \<noteq> 0"
    and "ts_SeccompMode (se_Threads st ! t) \<noteq> SECCOMP_MODE_FILTER" and "t < length (se_Threads st)"
  shows "\<exists>st'. SetModeStrict nnp t 0 True st = Some (0, st')
     \<and> ts_SeccompMode (se_Threads st' ! t) = SECCOMP_MODE_STRICT
     \<and> ts_Filters (se_Threads st' ! t) = ts_Filters (se_Threads st ! t)"
proof -
  have "length strict_filter_arm64 = 12" by (simp add: strict_filter_list)
  with assms show ?thesis by (simp add: SetModeStrict_def SetModeFilter_def)
qed

theorem strict_mode_fails_open_witness:
  "\<exists>st'. SetModeStrict 1 0 0 True ((initial_emulator 7)\<lparr>se_TotalFilterInstructions := 32760\<rparr>) = Some (0, st')
     \<and> ts_SeccompMode (se_Threads st' ! 0) = SECCOMP_MODE_STRICT \<and> ts_Filters (se_Threads st' ! 0) = []"
  using strict_mode_fails_open [of "(initial_emulator 7)\<lparr>se_TotalFilterInstructions := 32760\<rparr>" 1 0]
  by (simp add: initial_emulator_def fresh_thread_def)

text \<open>
  \<open>TSyncFilters\<close> overwrites the filter pointers of the other threads without releasing
  them. After two synchronised installs on two threads and the exit of both, no thread is
  left and the first filter is still in the list with a reference count of 1.
\<close>

definition tsync_leak_run :: "seccomp_emulator option" where
  "tsync_leak_run =
     Option.bind (SetModeFilter 1 0 FLAG_TSYNC (Some demo_filter)
        ((initial_emulator 7)\<lparr>se_Threads := [fresh_thread 7, fresh_thread 8]\<rparr>)) (\<lambda>(_, s1).
     Option.bind (SetModeFilter 1 0 FLAG_TSYNC (Some demo_filter) s1) (\<lambda>(_, s2).
     Option.bind (FreeSeccompFilters 1 s2) (\<lambda>s3.
     map_option (drop_thread 0) (FreeSeccompFilters 0 (drop_thread 1 s3)))))"

theorem tsync_leaks_filter:
  "map_option (\<lambda>st. (se_Threads st, map_option fi_RefCount (se_Filters st 1), se_Filters st 2)) tsync_leak_run
     = Some ([], Some 1, None)"
proof -
  have f: "length demo_filter = 4" "demo_filter \<noteq> []" by (simp_all add: demo_filter_def)
  have a: "analyze_loads False False demo_filter = (False, False)"
    by (simp add: demo_filter_def bpf_fields)
  show ?thesis
    unfolding tsync_leak_run_def
    by (simp add: SetModeFilter_def demo_filter_valid f a install_filter_def initial_emulator_def
        AnalyzeFilterLoads_def fresh_thread_def CanDoTSync_def tsync_compatible_def TSyncFilters_def
        upt_rec FreeSeccompFilters_def drop_thread_def erase_unreferenced_def)
qed

end
