(* ===== verification/IntervalList.thy ===== *)
theory IntervalList
  imports Prelude
begin

text \<open>
  The interval list of \<open>FEXCore/include/FEXCore/Utils/IntervalList.h\<close> and its client, the
  forced-TSO metadata of \<open>ContextImpl\<close> (\<open>Core.cpp\<close>). An interval is half open. The
  standard binary searches are modelled by the partition point they return, a prefix on
  which the predicate holds.
\<close>

section \<open>The data structure\<close>

record interval =
  Offset :: u64
  End :: u64

text \<open>
  \<open>std::equal_range\<close> with \<open>LHS.End <= RHS.Offset\<close>: the intervals before, overlapping and
  after the entry.
\<close>

definition equal_range :: "interval \<Rightarrow> interval list \<Rightarrow> interval list \<times> interval list \<times> interval list" where
  "equal_range e l =
     (let before = takeWhile (\<lambda>i. End i \<le> Offset e) l; rest = dropWhile (\<lambda>i. End i \<le> Offset e) l in
      (before, takeWhile (\<lambda>i. \<not> End e \<le> Offset i) rest, dropWhile (\<lambda>i. \<not> End e \<le> Offset i) rest))"

definition Insert :: "interval \<Rightarrow> interval list \<Rightarrow> interval list" where
  "Insert e l =
     (if Offset e = End e then l
      else case equal_range e l of (before, mid, after) \<Rightarrow>
        if mid = [] then before @ [e] @ after
        else before @ [\<lparr>Offset = min (Offset e) (Offset (hd mid)), End = max (End (last mid)) (End e)\<rparr>] @ after)"

definition InsertList :: "interval list \<Rightarrow> interval list \<Rightarrow> interval list" where
  "InsertList other l = fold Insert other l"

definition Remove :: "interval \<Rightarrow> interval list \<Rightarrow> interval list" where
  "Remove e l =
     (if Offset e = End e then l
      else case equal_range e l of (before, mid, after) \<Rightarrow>
        if mid = [] then l
        else if Offset (hd mid) < Offset e \<and> End (hd mid) > End e then
          before @ [(hd mid)\<lparr>End := Offset e\<rparr>, (hd mid)\<lparr>Offset := End e\<rparr>] @ tl mid @ after
        else
          let straddles = Offset (hd mid) < Offset e;
              kept = (if straddles then [(hd mid)\<lparr>End := Offset e\<rparr>] else []);
              mid' = (if straddles then tl mid else mid) in
          if mid' = [] then before @ kept @ after
          else if End (last mid') > End e then before @ kept @ [(last mid')\<lparr>Offset := End e\<rparr>] @ after
          else before @ kept @ after)"

record query_result =
  Enclosed :: bool
  QSize :: u64
  QInterval :: "interval option"

text \<open>\<open>std::upper_bound\<close>: the first interval that ends after the offset.\<close>

definition upper_bound :: "u64 \<Rightarrow> interval list \<Rightarrow> interval list" where
  "upper_bound off l = dropWhile (\<lambda>i. \<not> off < End i) l"

definition Query :: "u64 \<Rightarrow> interval list \<Rightarrow> query_result" where
  "Query off l =
     (case upper_bound off l of
        [] \<Rightarrow> \<lparr>Enclosed = False, QSize = 0, QInterval = None\<rparr>
      | it # _ \<Rightarrow>
          if Offset it > off then \<lparr>Enclosed = False, QSize = Offset it - off, QInterval = Some it\<rparr>
          else \<lparr>Enclosed = True, QSize = End it - off, QInterval = Some it\<rparr>)"

definition Intersect :: "interval \<Rightarrow> interval list \<Rightarrow> bool" where
  "Intersect e l = (case upper_bound (Offset e) l of [] \<Rightarrow> False | it # _ \<Rightarrow> Offset it < End e)"

definition Contains :: "interval \<Rightarrow> interval list \<Rightarrow> bool" where
  "Contains e l =
     (case upper_bound (Offset e) l of [] \<Rightarrow> False | it # _ \<Rightarrow> Offset it \<le> Offset e \<and> End it \<ge> End e)"

section \<open>Interface\<close>

text \<open>
  What a client relies on: a set of addresses to which ranges are added and from which
  ranges are removed.
\<close>

locale range_set =
  fixes ok :: "'r \<Rightarrow> bool"
    and addrs :: "'r \<Rightarrow> u64 set"
    and add :: "interval \<Rightarrow> 'r \<Rightarrow> 'r"
    and del :: "interval \<Rightarrow> 'r \<Rightarrow> 'r"
  assumes add_ok: "ok r \<Longrightarrow> Offset e \<le> End e \<Longrightarrow> ok (add e r)"
    and add_addrs: "ok r \<Longrightarrow> Offset e \<le> End e \<Longrightarrow> addrs (add e r) = addrs r \<union> {Offset e..<End e}"
    and del_ok: "ok r \<Longrightarrow> Offset e \<le> End e \<Longrightarrow> ok (del e r)"
    and del_addrs: "ok r \<Longrightarrow> Offset e \<le> End e \<Longrightarrow> addrs (del e r) = addrs r - {Offset e..<End e}"
begin

lemma add_all:
  assumes "ok r" "\<forall>e\<in>set es. Offset e \<le> End e"
  shows "ok (fold add es r) \<and> addrs (fold add es r) = addrs r \<union> (\<Union>e\<in>set es. {Offset e..<End e})"
  using assms
proof (induction es arbitrary: r)
  case (Cons e es)
  then show ?case using Cons.IH [of "add e r"] add_ok add_addrs by auto
qed simp

lemma del_add:
  assumes "ok r" "Offset e \<le> End e"
  shows "addrs (del e (add e r)) = addrs r - {Offset e..<End e}"
  using assms add_ok add_addrs del_addrs by auto

end

section \<open>Invariant and contents\<close>

definition intervals_ok :: "interval list \<Rightarrow> bool" where
  "intervals_ok l \<longleftrightarrow> list_all (\<lambda>i. Offset i < End i) l \<and> sorted_wrt (\<lambda>a b. End a \<le> Offset b) l"

definition covered :: "interval list \<Rightarrow> u64 set" where
  "covered l = (\<Union>i\<in>set l. {Offset i..<End i})"

lemma covered_simps [simp]:
  "covered [] = {}" "covered (i # l) = {Offset i..<End i} \<union> covered l"
  "covered (k @ l) = covered k \<union> covered l"
  by (auto simp: covered_def)

lemma intervals_ok_append:
  "intervals_ok (k @ l) \<longleftrightarrow> intervals_ok k \<and> intervals_ok l \<and> (\<forall>a\<in>set k. \<forall>b\<in>set l. End a \<le> Offset b)"
  by (auto simp: intervals_ok_def sorted_wrt_append)

lemma intervals_ok_Cons:
  "intervals_ok (i # l) \<longleftrightarrow> Offset i < End i \<and> intervals_ok l \<and> (\<forall>b\<in>set l. End i \<le> Offset b)"
  by (auto simp: intervals_ok_def)

lemma intervals_ok_Nil [simp]: "intervals_ok []"
  by (simp add: intervals_ok_def)

text \<open>Where the entry falls in a well-formed list.\<close>

lemma equal_range_split:
  assumes "intervals_ok l" "equal_range e l = (before, mid, after)"
  shows "l = before @ mid @ after"
    and "\<forall>i\<in>set before. End i \<le> Offset e"
    and "\<forall>i\<in>set mid. Offset i < End e \<and> Offset e < End i"
    and "\<forall>i\<in>set after. End e \<le> Offset i"
proof -
  define rest where "rest = dropWhile (\<lambda>i. End i \<le> Offset e) l"
  have b: "before = takeWhile (\<lambda>i. End i \<le> Offset e) l"
    and m: "mid = takeWhile (\<lambda>i. \<not> End e \<le> Offset i) rest"
    and a: "after = dropWhile (\<lambda>i. \<not> End e \<le> Offset i) rest"
    using assms(2) by (auto simp: equal_range_def Let_def rest_def)
  show l: "l = before @ mid @ after" by (simp add: b m a rest_def)
  show "\<forall>i\<in>set before. End i \<le> Offset e" using set_takeWhileD unfolding b by fastforce
  have ok: "intervals_ok rest"
    using assms(1) takeWhile_dropWhile_id [of "\<lambda>i. End i \<le> Offset e" l]
    unfolding rest_def by (metis intervals_ok_append)
  have "Offset e < End i" if i: "i \<in> set rest" for i
  proof (cases rest)
    case (Cons r rs)
    then have "Offset e < End r"
      using hd_dropWhile [of "\<lambda>i. End i \<le> Offset e" l] unfolding rest_def by force
    then show ?thesis
      using i ok Cons by (fastforce simp: intervals_ok_Cons intervals_ok_def list_all_iff)
  qed (use i in simp)
  then show "\<forall>i\<in>set mid. Offset i < End e \<and> Offset e < End i"
    using set_takeWhileD unfolding m by fastforce
  show "\<forall>i\<in>set after. End e \<le> Offset i"
  proof (cases after)
    case (Cons x xs)
    then have "End e \<le> Offset x"
      using hd_dropWhile [of "\<lambda>i. \<not> End e \<le> Offset i" rest] unfolding a by force
    moreover have "intervals_ok after" using ok unfolding m a by (metis intervals_ok_append takeWhile_dropWhile_id)
    ultimately show ?thesis
      using Cons by (fastforce simp: intervals_ok_Cons)
  qed simp
qed

lemma intervals_ok_nonempty: "intervals_ok l \<Longrightarrow> i \<in> set l \<Longrightarrow> Offset i < End i"
  by (auto simp: intervals_ok_def list_all_iff)

lemma intervals_ok_bounds:
  assumes "intervals_ok l" "i \<in> set l"
  shows "Offset (hd l) \<le> Offset i" "End i \<le> End (last l)"
proof -
  show "Offset (hd l) \<le> Offset i"
  proof (cases l)
    case (Cons a k)
    then have "i = a \<or> End a \<le> Offset i" "Offset a < End a"
      using assms by (auto simp: intervals_ok_Cons)
    then show ?thesis using Cons by auto
  qed (use assms in simp)
  show "End i \<le> End (last l)"
  proof (cases l rule: rev_cases)
    case (snoc k z)
    then have "i = z \<or> End i \<le> Offset z" "Offset z < End z"
      using assms by (auto simp: intervals_ok_append intervals_ok_Cons)
    then show ?thesis using snoc by auto
  qed (use assms in simp)
qed

lemma Insert_ok:
  assumes "intervals_ok l" "Offset e \<le> End e"
  shows "intervals_ok (Insert e l) \<and> covered (Insert e l) = covered l \<union> {Offset e..<End e}"
proof (cases "Offset e = End e")
  case False
  then have e: "Offset e < End e" using assms(2) by simp
  obtain before mid after where eq: "equal_range e l = (before, mid, after)" by (metis prod_cases3)
  note split = equal_range_split [OF assms(1) eq]
  have ok: "intervals_ok before" "intervals_ok mid" "intervals_ok after"
    and sep: "\<forall>a\<in>set before. \<forall>b\<in>set mid \<union> set after. End a \<le> Offset b"
      "\<forall>a\<in>set mid. \<forall>b\<in>set after. End a \<le> Offset b"
    using assms(1) unfolding split(1) intervals_ok_append by auto
  show ?thesis
  proof (cases "mid = []")
    case True
    then show ?thesis
      using False eq split ok sep e
      by (auto simp: Insert_def intervals_ok_append intervals_ok_Cons)
  next
    case mid: False
    define m where "m = \<lparr>Offset = min (Offset e) (Offset (hd mid)), End = max (End (last mid)) (End e)\<rparr>"
    have ends: "hd mid \<in> set mid" "last mid \<in> set mid" using mid by auto
    have ins: "Insert e l = before @ [m] @ after" using False eq mid by (simp add: Insert_def m_def)
    have m1: "{Offset m..<End m} = covered mid \<union> {Offset e..<End e}"
    proof (intro equalityI subsetI)
      fix x assume x: "x \<in> {Offset m..<End m}"
      have h: "Offset e < End (hd mid)" "Offset (last mid) < End e" using split(3) ends by auto
      have "x \<in> {Offset e..<End e} \<or> x \<in> {Offset (hd mid)..<End (hd mid)} \<or> x \<in> {Offset (last mid)..<End (last mid)}"
        using x h by (auto simp: m_def min_def max_def split: if_splits)
      then show "x \<in> covered mid \<union> {Offset e..<End e}" using ends by (auto simp: covered_def)
    next
      fix x assume "x \<in> covered mid \<union> {Offset e..<End e}"
      then consider i where "i \<in> set mid" "x \<in> {Offset i..<End i}" | "x \<in> {Offset e..<End e}"
        by (auto simp: covered_def)
      then show "x \<in> {Offset m..<End m}"
      proof cases
        case (1 i)
        then show ?thesis
          using intervals_ok_bounds [OF ok(2) 1(1)] by (auto simp: m_def min_le_iff_disj less_max_iff_disj)
      qed (auto simp: m_def min_le_iff_disj less_max_iff_disj)
    qed
    have "intervals_ok (before @ [m] @ after)"
      using ok split(2,4) sep ends e
      by (auto simp: intervals_ok_append intervals_ok_Cons m_def min_less_iff_disj less_max_iff_disj)
    moreover have "covered l = covered before \<union> covered mid \<union> covered after"
      using arg_cong [OF split(1), of covered] by auto
    ultimately show ?thesis using m1 unfolding ins by auto
  qed
qed (use assms in \<open>simp add: Insert_def\<close>)

text \<open>What is left of the overlapping intervals that start inside the removed one.\<close>

lemma covered_tail:
  assumes "intervals_ok k" "k \<noteq> []" "\<forall>i\<in>set k. Offset e \<le> Offset i \<and> Offset i < End e"
  shows "covered k - {Offset e..<End e} = (if End (last k) > End e then {End e..<End (last k)} else {})"
proof (cases k rule: rev_cases)
  case (snoc k' z)
  have "End i < End e" if "i \<in> set k'" for i
    using assms(1,3) that snoc by (fastforce simp: intervals_ok_append)
  moreover have "Offset e \<le> Offset i" if "i \<in> set k'" for i using assms(3) that snoc by auto
  ultimately have "covered k' \<subseteq> {Offset e..<End e}" by (fastforce simp: covered_def)
  moreover have "Offset e \<le> Offset z" "Offset z < End e" using assms(3) snoc by auto
  ultimately show ?thesis using snoc by auto
qed (use assms in simp)

lemma Remove_ok:
  assumes "intervals_ok l" "Offset e \<le> End e"
  shows "intervals_ok (Remove e l) \<and> covered (Remove e l) = covered l - {Offset e..<End e}"
proof (cases "Offset e = End e")
  case False
  then have e: "Offset e < End e" using assms(2) by simp
  obtain before mid after where eq: "equal_range e l = (before, mid, after)" by (metis prod_cases3)
  note split = equal_range_split [OF assms(1) eq]
  have ok: "intervals_ok before" "intervals_ok mid" "intervals_ok after"
    and sep: "\<forall>a\<in>set before. \<forall>b\<in>set mid. End a \<le> Offset b" "\<forall>a\<in>set before. \<forall>b\<in>set after. End a \<le> Offset b"
      "\<forall>a\<in>set mid. \<forall>b\<in>set after. End a \<le> Offset b"
    using assms(1) unfolding split(1) intervals_ok_append by auto
  have outer: "covered before \<inter> {Offset e..<End e} = {}" "covered after \<inter> {Offset e..<End e} = {}"
    using split(2,4) by (fastforce simp: covered_def)+
  have body: "intervals_ok (before @ new @ after) \<and> covered (before @ new @ after) = covered l - {Offset e..<End e}"
    if "intervals_ok new" "covered new = covered mid - {Offset e..<End e}"
      "\<forall>a\<in>set before. \<forall>b\<in>set new. End a \<le> Offset b" "\<forall>a\<in>set new. \<forall>b\<in>set after. End a \<le> Offset b" for new
    using that ok sep outer split(1) by (auto simp: intervals_ok_append)
  show ?thesis
  proof (cases "mid = []")
    case True
    then show ?thesis using False eq assms(1) outer split(1) by (auto simp: Remove_def)
  next
    case mid: False
    obtain h t where ht: "mid = h # t" using mid by (cases mid) auto
    have h: "Offset h < End e" "Offset e < End h" "Offset h < End h"
      and t: "\<forall>b\<in>set t. End h \<le> Offset b" "intervals_ok t" "\<forall>b\<in>set t. Offset b < End e \<and> Offset e < End b"
      using split(3) ok(2) ht by (auto simp: intervals_ok_Cons)
    show ?thesis
    proof (cases "Offset h < Offset e \<and> End h > End e")
      case True
      then have "t = []" using t(1,3) by (cases t) auto
      then show ?thesis
        using False True eq ht sep h e body [of "[h\<lparr>End := Offset e\<rparr>, h\<lparr>Offset := End e\<rparr>]"]
        by (fastforce simp: Remove_def intervals_ok_Cons)
    next
      case part: False
      define straddles where "straddles = (Offset h < Offset e)"
      define kept where "kept = (if straddles then [h\<lparr>End := Offset e\<rparr>] else [])"
      define mid' where "mid' = (if straddles then t else mid)"
      have sub: "set mid' \<subseteq> set mid" "intervals_ok mid'" using ht ok(2) t(2) by (auto simp: mid'_def)
      have in_e: "\<forall>i\<in>set mid'. Offset e \<le> Offset i \<and> Offset i < End e"
      proof -
        have "Offset e \<le> Offset b" if "b \<in> set t" for b
          using t(1) h(2) that by (meson less_imp_le less_le_trans)
        then show ?thesis using t(3) h(1) ht by (auto simp: mid'_def straddles_def)
      qed
      have cov: "covered mid - {Offset e..<End e} = covered kept \<union> (covered mid' - {Offset e..<End e})"
        using ht part h by (auto simp: kept_def mid'_def straddles_def)
      define last' where "last' = (if mid' \<noteq> [] \<and> End (last mid') > End e then [(last mid')\<lparr>Offset := End e\<rparr>] else [])"
      have rem: "Remove e l = before @ (kept @ last') @ after"
        using False eq mid part ht by (simp add: Remove_def kept_def mid'_def last'_def straddles_def Let_def)
      have "covered last' = covered mid' - {Offset e..<End e}"
        using covered_tail [OF sub(2) _ in_e] by (cases "mid' = []") (auto simp: last'_def)
      moreover have "last mid' \<in> set mid" if "mid' \<noteq> []" using that sub(1) by auto
      ultimately show ?thesis
        unfolding rem using cov sep h e ht
        by (intro body) (auto simp: kept_def last'_def straddles_def intervals_ok_append intervals_ok_Cons)
    qed
  qed
qed (use assms in \<open>simp add: Remove_def\<close>)

interpretation il: range_set intervals_ok covered Insert Remove
  using Insert_ok Remove_ok by unfold_locales auto

section \<open>Queries\<close>

lemma upper_bound_spec:
  assumes "intervals_ok l"
  shows "case upper_bound off l of
      [] \<Rightarrow> \<forall>i\<in>set l. End i \<le> off
    | it # rest \<Rightarrow> it \<in> set l \<and> off < End it \<and> (\<forall>i\<in>set l. i = it \<or> End i \<le> off \<or> End it \<le> Offset i)"
proof -
  define pre where "pre = takeWhile (\<lambda>i. \<not> off < End i) l"
  have l: "l = pre @ upper_bound off l" by (simp add: pre_def upper_bound_def)
  have pre: "\<forall>i\<in>set pre. End i \<le> off" using set_takeWhileD unfolding pre_def by fastforce
  show ?thesis
  proof (cases "upper_bound off l")
    case Nil
    then have "l = pre" using l by simp
    then show ?thesis using Nil pre by simp
  next
    case (Cons it rest)
    then have "off < End it"
      using hd_dropWhile [of "\<lambda>i. \<not> off < End i" l] by (simp add: upper_bound_def)
    moreover have l': "l = pre @ it # rest" using l Cons by simp
    moreover have "\<forall>b\<in>set rest. End it \<le> Offset b"
      using assms unfolding l' by (simp add: intervals_ok_Cons intervals_ok_append)
    moreover have "set l = set pre \<union> insert it (set rest)" using arg_cong [OF l', of set] by simp
    ultimately show ?thesis using pre Cons by auto
  qed
qed

text \<open>Every other interval lies on one side of the one a search returns.\<close>

lemma upper_bound_Cons:
  assumes "intervals_ok l" "upper_bound off l = it # rest"
  shows "it \<in> set l" "off < End it" "\<And>i. i \<in> set l \<Longrightarrow> i = it \<or> End i \<le> off \<or> End it \<le> Offset i"
  using upper_bound_spec [OF assms(1), of off] assms(2) by auto

lemma upper_bound_Nil:
  assumes "intervals_ok l" "upper_bound off l = []" "i \<in> set l"
  shows "End i \<le> off"
  using upper_bound_spec [OF assms(1), of off] assms(2,3) by auto

text \<open>The interval a search returns is the only one that can hold the offset.\<close>

lemma upper_bound_hit:
  assumes "intervals_ok l" "upper_bound off l = it # rest" "i \<in> set l" "Offset i \<le> off" "off < End i"
  shows "i = it"
  using upper_bound_Cons(2) [OF assms(1,2)] upper_bound_Cons(3) [OF assms(1,2,3)] assms(4,5) by auto

lemma covered_iff: "x \<in> covered l \<longleftrightarrow> (\<exists>i\<in>set l. Offset i \<le> x \<and> x < End i)"
  by (auto simp: covered_def)

lemma Query_enclosed:
  assumes ok: "intervals_ok l"
  shows "Enclosed (Query off l) = (off \<in> covered l)"
proof (cases "upper_bound off l")
  case Nil
  then show ?thesis
    using upper_bound_Nil [OF ok Nil] unfolding covered_iff by (auto simp: Query_def not_less [symmetric])
next
  case (Cons it rest)
  note u = upper_bound_Cons(1,2) [OF ok Cons] and h = upper_bound_hit [OF ok Cons]
  have "(off \<in> covered l) = (Offset it \<le> off)"
    unfolding covered_iff using u h by blast
  then show ?thesis using Cons by (auto simp: Query_def)
qed

lemma Query_interval:
  assumes ok: "intervals_ok l" and off: "off \<in> covered l"
  shows "\<exists>i\<in>set l. Offset i \<le> off \<and> off < End i \<and> QInterval (Query off l) = Some i
           \<and> QSize (Query off l) = End i - off"
proof (cases "upper_bound off l")
  case (Cons it rest)
  then show ?thesis
    using Query_enclosed [OF ok, of off] off upper_bound_Cons(1,2) [OF ok Cons]
    by (auto simp: Query_def split: if_splits)
qed (use off Query_enclosed [OF ok, of off] in \<open>simp add: Query_def\<close>)

lemma Intersect_iff:
  assumes ok: "intervals_ok l" and e: "Offset e < End e"
  shows "Intersect e l = (covered l \<inter> {Offset e..<End e} \<noteq> {})"
proof (cases "upper_bound (Offset e) l")
  case Nil
  have "x \<notin> covered l" if "Offset e \<le> x" for x
    using upper_bound_Nil [OF ok Nil] that unfolding covered_iff by (meson le_less_trans less_le_not_le)
  then show ?thesis using Nil by (auto simp: Intersect_def)
next
  case (Cons it rest)
  note u = upper_bound_Cons [OF ok Cons]
  have "max (Offset it) (Offset e) \<in> covered l \<inter> {Offset e..<End e}" if "Offset it < End e"
    using u(1,2) intervals_ok_nonempty [OF ok u(1)] that e by (auto simp: covered_iff max_def)
  moreover have "Offset it < End e" if x: "x \<in> covered l" "Offset e \<le> x" "x < End e" for x
  proof -
    from x(1) obtain i where i: "i \<in> set l" "Offset i \<le> x" "x < End i" by (auto simp: covered_iff)
    from u(3) [OF i(1)] i x intervals_ok_nonempty [OF ok u(1)] show ?thesis by auto
  qed
  ultimately show ?thesis using Cons by (simp add: Intersect_def) force
qed

lemma Contains_iff:
  assumes ok: "intervals_ok l" and e: "Offset e < End e"
  shows "Contains e l = (\<exists>i\<in>set l. Offset i \<le> Offset e \<and> End e \<le> End i)"
proof (cases "upper_bound (Offset e) l")
  case Nil
  have "End i < End e" if "i \<in> set l" for i
    using upper_bound_Nil [OF ok Nil that] e by (rule le_less_trans)
  then show ?thesis using Nil by (fastforce simp: Contains_def)
next
  case (Cons it rest)
  note u = upper_bound_Cons(1) [OF ok Cons] and h = upper_bound_hit [OF ok Cons]
  have "i = it" if "i \<in> set l" "Offset i \<le> Offset e" "End e \<le> End i" for i
    using h that e less_le_trans by blast
  then show ?thesis using Cons u by (auto simp: Contains_def)
qed

section \<open>Forced-TSO metadata\<close>

text \<open>
  \<open>AddForceTSOInformation\<close> and \<open>RemoveForceTSOInformation\<close> of \<open>ContextImpl\<close>. The removal
  erases the instructions from \<open>lower_bound(Address)\<close> up to \<open>upper_bound(Address + Size)\<close>.
\<close>

record force_tso =
  ForceTSOValidRanges :: "interval list"
  ForceTSOInstructions :: "u64 set"

definition AddForceTSOInformation :: "interval list \<Rightarrow> u64 set \<Rightarrow> force_tso \<Rightarrow> force_tso" where
  "AddForceTSOInformation ranges insts st =
     st\<lparr>ForceTSOValidRanges := InsertList ranges (ForceTSOValidRanges st),
        ForceTSOInstructions := ForceTSOInstructions st \<union> insts\<rparr>"

definition RemoveForceTSOInformation :: "u64 \<Rightarrow> u64 \<Rightarrow> force_tso \<Rightarrow> force_tso" where
  "RemoveForceTSOInformation address sz st =
     st\<lparr>ForceTSOValidRanges := Remove \<lparr>Offset = address, End = address + sz\<rparr> (ForceTSOValidRanges st),
        ForceTSOInstructions := {i \<in> ForceTSOInstructions st. \<not> (address \<le> i \<and> i \<le> address + sz)}\<rparr>"

section \<open>Properties\<close>

text \<open>
  C12. \<open>Insert\<close> and \<open>Remove\<close> keep the list sorted, disjoint and free of empty intervals, and
  act on the covered addresses as union and difference with the entry.
\<close>

theorem interval_list_set_semantics:
  assumes "intervals_ok l" and "Offset e \<le> End e"
  shows "intervals_ok (Insert e l) \<and> covered (Insert e l) = covered l \<union> {Offset e..<End e}
     \<and> intervals_ok (Remove e l) \<and> covered (Remove e l) = covered l - {Offset e..<End e}"
  using assms il.add_ok il.add_addrs il.del_ok il.del_addrs by blast

theorem interval_list_set_semantics_witness:
  "covered (Insert \<lparr>Offset = 4, End = 9\<rparr> [\<lparr>Offset = 2, End = 5\<rparr>, \<lparr>Offset = 8, End = 12\<rparr>])
     = {2..<5} \<union> {8..<12} \<union> {4..<9}
   \<and> Insert \<lparr>Offset = 4, End = 9\<rparr> [\<lparr>Offset = 2, End = 5\<rparr>, \<lparr>Offset = 8, End = 12\<rparr>] = [\<lparr>Offset = 2, End = 12\<rparr>]"
  using interval_list_set_semantics [of "[\<lparr>Offset = 2, End = 5\<rparr>, \<lparr>Offset = 8, End = 12\<rparr>]" "\<lparr>Offset = 4, End = 9\<rparr>"]
  by (simp add: intervals_ok_def Insert_def equal_range_def Un_assoc)

text \<open>
  \<open>Query\<close>, \<open>Intersect\<close> and \<open>Contains\<close> on a well-formed list: an offset is enclosed iff it
  is covered, and the size is then the distance to the end of its interval and otherwise
  the distance to the next covered address; \<open>Intersect\<close> is intersection with the covered
  addresses; \<open>Contains\<close> is containment in one stored interval.
\<close>

theorem interval_list_queries:
  assumes "intervals_ok l" and "Offset e < End e"
  shows "Enclosed (Query off l) = (off \<in> covered l)
    \<and> (off \<in> covered l \<longrightarrow> (\<exists>i\<in>set l. Offset i \<le> off \<and> off < End i \<and> QInterval (Query off l) = Some i
           \<and> QSize (Query off l) = End i - off))
    \<and> Intersect e l = (covered l \<inter> {Offset e..<End e} \<noteq> {})
    \<and> Contains e l = (\<exists>i\<in>set l. Offset i \<le> Offset e \<and> End e \<le> End i)"
  using assms by (simp add: Query_enclosed Query_interval Intersect_iff Contains_iff)

theorem interval_list_queries_witness:
  "Enclosed (Query 3 [\<lparr>Offset = 2, End = 5\<rparr>]) \<and> QSize (Query 3 [\<lparr>Offset = 2, End = 5\<rparr>]) = 2
   \<and> \<not> Contains \<lparr>Offset = 2, End = 9\<rparr> [\<lparr>Offset = 2, End = 5\<rparr>, \<lparr>Offset = 5, End = 9\<rparr>]"
proof -
  have "intervals_ok [\<lparr>Offset = 2, End = 5\<rparr>]" "intervals_ok [\<lparr>Offset = 2, End = 5\<rparr>, \<lparr>Offset = 5, End = 9\<rparr>]"
    by (simp_all add: intervals_ok_def)
  with interval_list_queries [of "[\<lparr>Offset = 2, End = 5\<rparr>]" "\<lparr>Offset = 2, End = 5\<rparr>" 3]
    interval_list_queries [of "[\<lparr>Offset = 2, End = 5\<rparr>, \<lparr>Offset = 5, End = 9\<rparr>]" "\<lparr>Offset = 2, End = 9\<rparr>" 3]
  show ?thesis by simp
qed

text \<open>
  \<open>RemoveForceTSOInformation\<close> takes exactly the given range out of the valid ranges, but
  also erases an instruction at the first address after the range: where that address is
  still valid, its forced-TSO mark is lost.
\<close>

theorem force_tso_removal:
  assumes "intervals_ok (ForceTSOValidRanges st)" and "address \<le> address + sz"
  shows "covered (ForceTSOValidRanges (RemoveForceTSOInformation address sz st))
      = covered (ForceTSOValidRanges st) - {address..<address + sz}
    \<and> ForceTSOInstructions (RemoveForceTSOInformation address sz st)
      = ForceTSOInstructions st - {address..<address + sz} - {address + sz}"
proof -
  have "{i \<in> S. \<not> (a \<le> i \<and> i \<le> b)} = S - {a..<b} - {b}" if "a \<le> b" for S and a b :: u64
    using that by auto
  from this [OF assms(2)] il.del_addrs [OF assms(1), of "\<lparr>Offset = address, End = address + sz\<rparr>"] assms(2)
  show ?thesis by (simp add: RemoveForceTSOInformation_def)
qed

definition tso_demo :: force_tso where
  "tso_demo = \<lparr>ForceTSOValidRanges = [\<lparr>Offset = 0x1000, End = 0x3000\<rparr>], ForceTSOInstructions = {0x1800, 0x2000}\<rparr>"

theorem force_tso_removal_witness:
  "0x2000 \<in> covered (ForceTSOValidRanges (RemoveForceTSOInformation 0x1000 0x1000 tso_demo))
   \<and> ForceTSOInstructions (RemoveForceTSOInformation 0x1000 0x1000 tso_demo) = {}"
  using force_tso_removal [of tso_demo "0x1000" "0x1000"]
  by (simp add: tso_demo_def intervals_ok_def)

text \<open>
  \<open>AddForceTSOInformation\<close> adds every given range and instruction and keeps the range
  list well formed.
\<close>

theorem force_tso_addition:
  assumes "intervals_ok (ForceTSOValidRanges st)" and "intervals_ok ranges"
  shows "intervals_ok (ForceTSOValidRanges (AddForceTSOInformation ranges insts st))
    \<and> covered (ForceTSOValidRanges (AddForceTSOInformation ranges insts st))
      = covered (ForceTSOValidRanges st) \<union> covered ranges
    \<and> ForceTSOInstructions (AddForceTSOInformation ranges insts st) = ForceTSOInstructions st \<union> insts"
proof -
  have "\<forall>e\<in>set ranges. Offset e \<le> End e" using intervals_ok_nonempty [OF assms(2)] less_imp_le by blast
  from il.add_all [OF assms(1) this] show ?thesis
    by (simp add: AddForceTSOInformation_def InsertList_def covered_def)
qed

theorem force_tso_addition_witness:
  "covered (ForceTSOValidRanges (AddForceTSOInformation [\<lparr>Offset = 0x8000, End = 0x9000\<rparr>] {0x8004} tso_demo))
     = {0x1000..<0x3000} \<union> {0x8000..<0x9000}"
  using force_tso_addition [of tso_demo "[\<lparr>Offset = 0x8000, End = 0x9000\<rparr>]" "{0x8004}"]
  by (simp add: tso_demo_def intervals_ok_def)

end
