(* ===== verification/OrderedMap.thy ===== *)
theory OrderedMap
  imports Prelude
begin

text \<open>
  \<open>fextl::map\<close> keyed by 64-bit integers: an association list in key order, with the operations
  the sources use and their meaning as operations on maps.
\<close>

section \<open>The ordered map\<close>

fun put :: "u64 \<Rightarrow> 'v \<Rightarrow> (u64 \<times> 'v) list \<Rightarrow> (u64 \<times> 'v) list" where
  "put k v [] = [(k, v)]"
| "put k v ((k', v') # l) =
     (if k < k' then (k, v) # (k', v') # l else if k = k' then (k, v) # l else (k', v') # put k v l)"

definition erase :: "u64 \<Rightarrow> (u64 \<times> 'v) list \<Rightarrow> (u64 \<times> 'v) list" where
  "erase k l = filter (\<lambda>(k', _). k' \<noteq> k) l"

text \<open>\<open>emplace\<close> leaves an existing entry alone.\<close>

definition emplace :: "u64 \<Rightarrow> 'v \<Rightarrow> (u64 \<times> 'v) list \<Rightarrow> (u64 \<times> 'v) list" where
  "emplace k v l = (case map_of l k of None \<Rightarrow> put k v l | Some _ \<Rightarrow> l)"

definition modify :: "u64 \<Rightarrow> ('v \<Rightarrow> 'v) \<Rightarrow> (u64 \<times> 'v) list \<Rightarrow> (u64 \<times> 'v) list" where
  "modify k f l = map (\<lambda>(k', v). (k', if k' = k then f v else v)) l"

text \<open>The keys below \<open>lower_bound(Top)\<close>, from the highest down.\<close>

definition keys_below :: "u64 \<Rightarrow> (u64 \<times> 'v) list \<Rightarrow> u64 list" where
  "keys_below t l = rev (takeWhile (\<lambda>k. k < t) (map fst l))"

text \<open>The entries from \<open>lower_bound(lo)\<close> up to \<open>upper_bound(hi)\<close>, and their erasure.\<close>

definition between :: "u64 \<Rightarrow> u64 \<Rightarrow> (u64 \<times> 'v) list \<Rightarrow> (u64 \<times> 'v) list" where
  "between lo hi l = takeWhile (\<lambda>(k, _). k \<le> hi) (dropWhile (\<lambda>(k, _). k < lo) l)"

definition erase_between :: "u64 \<Rightarrow> u64 \<Rightarrow> (u64 \<times> 'v) list \<Rightarrow> (u64 \<times> 'v) list" where
  "erase_between lo hi l = filter (\<lambda>(k, _). \<not> (lo \<le> k \<and> k \<le> hi)) l"

section \<open>The ordered map as a map\<close>

definition keys_sorted :: "(u64 \<times> 'v) list \<Rightarrow> bool" where
  "keys_sorted l \<longleftrightarrow> sorted_wrt (<) (map fst l)"

lemma map_of_put [simp]: "map_of (put k v l) = (map_of l)(k \<mapsto> v)"
  by (induction k v l rule: put.induct) auto

lemma map_of_erase [simp]: "map_of (erase k l) = (map_of l)(k := None)"
  by (induction l) (auto simp: erase_def)

lemma map_of_modify [simp]: "map_of (modify k f l) = (map_of l)(k := map_option f (map_of l k))"
  by (induction l) (auto simp: modify_def)

lemma map_of_emplace: "map_of (emplace k v l) = (if map_of l k = None then (map_of l)(k \<mapsto> v) else map_of l)"
  by (auto simp: emplace_def split: option.split)

lemma keys_put: "fst ` set (put k v l) = insert k (fst ` set l)"
  by (induction k v l rule: put.induct) auto

lemma keys_sorted_put [simp]: "keys_sorted l \<Longrightarrow> keys_sorted (put k v l)"
proof (induction k v l rule: put.induct)
  case (2 k v k' v' l)
  then show ?case using keys_put [of k v l] by (auto simp: keys_sorted_def)
qed (simp add: keys_sorted_def)

lemma keys_sorted_erase [simp]: "keys_sorted l \<Longrightarrow> keys_sorted (erase k l)"
  by (induction l) (auto simp: keys_sorted_def erase_def)

lemma keys_sorted_modify [simp]: "keys_sorted (modify k f l) = keys_sorted l"
  by (simp add: keys_sorted_def modify_def comp_def case_prod_beta)

lemma keys_sorted_emplace [simp]: "keys_sorted l \<Longrightarrow> keys_sorted (emplace k v l)"
  by (simp add: emplace_def split: option.split)

lemma keys_below_props:
  assumes "keys_sorted l"
  shows "set (keys_below t l) = {k \<in> dom (map_of l). k < t}" "sorted_wrt (>) (keys_below t l)"
proof -
  have "keys_below t l = rev (filter (\<lambda>k. k < t) (map fst l))"
    using assms unfolding keys_below_def keys_sorted_def
    by (subst takeWhile_eq_filter [of "(<)"]) (auto intro: less_trans)
  with assms show "set (keys_below t l) = {k \<in> dom (map_of l). k < t}" "sorted_wrt (>) (keys_below t l)"
    by (auto simp: dom_map_of_conv_image_fst keys_sorted_def sorted_wrt_filter sorted_wrt_rev)
qed

lemma dropWhile_eq_filter:
  assumes "sorted_wrt R xs" "\<And>x y. R x y \<Longrightarrow> \<not> P x \<Longrightarrow> \<not> P y"
  shows "dropWhile P xs = filter (\<lambda>x. \<not> P x) xs"
  using assms(1)
proof (induction xs)
  case (Cons x xs)
  show ?case
  proof (cases "P x")
    case False
    then have "filter (\<lambda>x. \<not> P x) xs = xs" using Cons.prems assms(2) by (auto simp: filter_id_conv)
    then show ?thesis using False by simp
  qed (use Cons in simp)
qed simp

lemma between_filter:
  assumes "keys_sorted l"
  shows "between lo hi l = filter (\<lambda>(k, _). lo \<le> k \<and> k \<le> hi) l"
proof -
  have s: "sorted_wrt (\<lambda>x y. fst x < fst y) l" using assms by (simp add: keys_sorted_def sorted_wrt_map)
  have "dropWhile (\<lambda>(k, _). k < lo) l = filter (\<lambda>x. \<not> (\<lambda>(k, _). k < lo) x) l"
    using s by (rule dropWhile_eq_filter) auto
  moreover have "takeWhile (\<lambda>(k, _). k \<le> hi) (filter P l) = filter (\<lambda>(k, _). k \<le> hi) (filter P l)" for P
    using sorted_wrt_filter [OF s] by (rule takeWhile_eq_filter) auto
  ultimately show ?thesis by (auto simp: between_def case_prod_beta not_less intro: filter_cong)
qed

lemma between_set:
  assumes "keys_sorted l"
  shows "(k, v) \<in> set (between lo hi l) \<longleftrightarrow> lo \<le> k \<and> k \<le> hi \<and> map_of l k = Some v"
proof -
  have "distinct (map fst l)" using assms strict_sorted_iff by (auto simp: keys_sorted_def)
  then show ?thesis using assms by (auto simp: between_filter)
qed

lemma map_of_erase_between:
  "map_of (erase_between lo hi l) k = (if lo \<le> k \<and> k \<le> hi then None else map_of l k)"
  by (induction l) (auto simp: erase_between_def)

lemma keys_sorted_erase_between [simp]: "keys_sorted l \<Longrightarrow> keys_sorted (erase_between lo hi l)"
  by (induction l) (auto simp: keys_sorted_def erase_between_def)

end
