(* ===== verification/VMATracking.thy ===== *)
theory VMATracking
  imports OrderedMap
begin

text \<open>
  Tracking of guest virtual memory areas,
  \<open>Source/Tools/LinuxEmulation/LinuxSyscalls/SyscallsVMATracking.{h,cpp}\<close>. The map
  \<open>VMAs\<close> is an ordered map (theory OrderedMap). An entry never changes its \<open>Base\<close>, so a
  pointer to an entry is its key. The intrusive list of a resource, from \<open>FirstVMA\<close> along
  \<open>ResourceNextVMA\<close>, is the list of the keys of its members. The debug assertions are left
  out.
\<close>

section \<open>State\<close>

record vma_prot =
  Readable :: bool
  Writable :: bool
  Executable :: bool

record vma_entry =
  vm_Resource :: "nat option"
  vm_Base :: u64
  vm_Offset :: u64
  vm_Length :: u64
  vm_Shared :: bool
  vm_Prot :: vma_prot

record mapped_resource =
  mr_dev :: u64
  mr_VMAs :: "u64 list"
  mr_Length :: u64

record vma_tracking =
  VMAs :: "(u64 \<times> vma_entry) list"
  MappedResources :: "nat \<rightharpoonup> mapped_resource"
  Generation :: u64
  MarkNoOpCache :: "u64 list"

abbreviation SpecialDev_SHM :: u64 where "SpecialDev_SHM \<equiv> 0x200000000"
abbreviation MarkNoOpIndexBits :: nat where "MarkNoOpIndexBits \<equiv> 9"
abbreviation MarkNoOpEntries :: nat where "MarkNoOpEntries \<equiv> 512"
abbreviation MarkNoOpGenBits :: nat where "MarkNoOpGenBits \<equiv> 32"
abbreviation MarkNoOpGenMask :: u64 where "MarkNoOpGenMask \<equiv> 0xFFFFFFFF"
abbreviation FEX_GUEST_PAGE_SHIFT :: nat where "FEX_GUEST_PAGE_SHIFT \<equiv> 12"

section \<open>Protection bits\<close>

definition fromProt :: "u32 \<Rightarrow> vma_prot" where
  "fromProt p = \<lparr>Readable = (p AND 1 \<noteq> 0), Writable = (p AND 2 \<noteq> 0), Executable = (p AND 4 \<noteq> 0)\<rparr>"

definition fromSHM :: "u32 \<Rightarrow> vma_prot" where
  "fromSHM f = \<lparr>Readable = True, Writable = (f AND 0x1000 = 0), Executable = (f AND 0x8000 \<noteq> 0)\<rparr>"

definition fromFlags :: "u32 \<Rightarrow> bool" where
  "fromFlags f = (f AND 1 \<noteq> 0)"

section \<open>The memo of pages with nothing to mark\<close>

definition MarkNoOpIndex :: "u64 \<Rightarrow> nat" where
  "MarkNoOpIndex page_base = unat (drop_bit FEX_GUEST_PAGE_SHIFT page_base AND (of_nat MarkNoOpEntries - 1))"

definition EncodeMarkNoOp :: "u64 \<Rightarrow> u64 \<Rightarrow> u64 option" where
  "EncodeMarkNoOp page_base gen =
     (let tag = drop_bit MarkNoOpIndexBits (drop_bit FEX_GUEST_PAGE_SHIFT page_base) in
      if drop_bit (64 - MarkNoOpGenBits) tag \<noteq> 0 then None
      else let entry = push_bit MarkNoOpGenBits tag OR (gen AND MarkNoOpGenMask) in
        if entry \<noteq> 0 then Some entry else None)"

definition IsMarkNoOp :: "u64 \<Rightarrow> u64 \<Rightarrow> vma_tracking \<Rightarrow> bool" where
  "IsMarkNoOp page_base gen st =
     (case EncodeMarkNoOp page_base gen of
        None \<Rightarrow> False | Some entry \<Rightarrow> MarkNoOpCache st ! MarkNoOpIndex page_base = entry)"

definition RecordMarkNoOp :: "u64 \<Rightarrow> u64 \<Rightarrow> vma_tracking \<Rightarrow> vma_tracking" where
  "RecordMarkNoOp page_base gen st =
     (case EncodeMarkNoOp page_base gen of
        None \<Rightarrow> st
      | Some entry \<Rightarrow> st\<lparr>MarkNoOpCache := (MarkNoOpCache st)[MarkNoOpIndex page_base := entry]\<rparr>)"

definition BumpGeneration :: "vma_tracking \<Rightarrow> vma_tracking" where
  "BumpGeneration st =
     (let new = Generation st + 1 in
      if new AND MarkNoOpGenMask = 0 then
        st\<lparr>Generation := new + 1, MarkNoOpCache := map (\<lambda>_. 0) (MarkNoOpCache st)\<rparr>
      else st\<lparr>Generation := new\<rparr>)"

section \<open>Lookup\<close>

definition FindVMAEntry :: "u64 \<Rightarrow> (u64 \<times> vma_entry) list \<Rightarrow> vma_entry option" where
  "FindVMAEntry addr l =
     (let below = takeWhile (\<lambda>(k, _). k \<le> addr) l in
      if below = [] then None
      else let (k, e) = last below in
        if k \<le> addr \<and> k + vm_Length e > addr then Some e else None)"

section \<open>Resource lists\<close>

fun insert_after :: "u64 \<Rightarrow> u64 \<Rightarrow> u64 list \<Rightarrow> u64 list" where
  "insert_after a n [] = []"
| "insert_after a n (k # ks) = (if k = a then k # n # ks else k # insert_after a n ks)"

definition on_resource :: "nat option \<Rightarrow> (u64 list \<Rightarrow> u64 list) \<Rightarrow> vma_tracking \<Rightarrow> vma_tracking" where
  "on_resource res f st =
     (case res of None \<Rightarrow> st | Some r \<Rightarrow>
        st\<lparr>MappedResources := (MappedResources st)
             (r := map_option (\<lambda>m. m\<lparr>mr_VMAs := f (mr_VMAs m)\<rparr>) (MappedResources st r))\<rparr>)"

definition ListRemove :: "u64 \<Rightarrow> nat option \<Rightarrow> vma_tracking \<Rightarrow> vma_tracking" where
  "ListRemove k res st = on_resource res (filter (\<lambda>k'. k' \<noteq> k)) st"

definition ListReplace :: "u64 \<Rightarrow> u64 \<Rightarrow> nat option \<Rightarrow> vma_tracking \<Rightarrow> vma_tracking" where
  "ListReplace k new res st = on_resource res (map (\<lambda>k'. if k' = k then new else k')) st"

definition ListInsertAfter :: "u64 \<Rightarrow> u64 \<Rightarrow> nat option \<Rightarrow> vma_tracking \<Rightarrow> vma_tracking" where
  "ListInsertAfter after new res st = on_resource res (insert_after after new) st"

definition ListPrepend :: "u64 \<Rightarrow> nat option \<Rightarrow> vma_tracking \<Rightarrow> vma_tracking" where
  "ListPrepend new res st = on_resource res (\<lambda>ks. new # ks) st"

definition list_empty :: "nat option \<Rightarrow> vma_tracking \<Rightarrow> bool" where
  "list_empty res st =
     (case res of None \<Rightarrow> False
      | Some r \<Rightarrow> (case MappedResources st r of None \<Rightarrow> False | Some m \<Rightarrow> mr_VMAs m = []))"

definition erase_resource :: "nat option \<Rightarrow> vma_tracking \<Rightarrow> vma_tracking" where
  "erase_resource res st =
     (case res of None \<Rightarrow> st | Some r \<Rightarrow> st\<lparr>MappedResources := (MappedResources st)(r := None)\<rparr>)"

abbreviation on_VMAs :: "((u64 \<times> vma_entry) list \<Rightarrow> (u64 \<times> vma_entry) list) \<Rightarrow> vma_tracking \<Rightarrow> vma_tracking" where
  "on_VMAs f st \<equiv> st\<lparr>VMAs := f (VMAs st)\<rparr>"

section \<open>Deleting a range\<close>

text \<open>The body of the loop of \<open>DeleteVMARange\<close> on one mapping that reaches into the range.\<close>

definition delete_mapping ::
  "u64 \<Rightarrow> u64 \<Rightarrow> nat option \<Rightarrow> vma_entry \<Rightarrow> vma_tracking \<Rightarrow> vma_tracking" where
  "delete_mapping base Top preserved cur st =
     (let map_base = vm_Base cur; map_top = map_base + vm_Length cur;
          offset_diff = vm_Offset cur - map_base;
          has_first = map_base < base; has_trailing = map_top > Top;
          trailing = cur\<lparr>vm_Base := Top, vm_Offset := offset_diff + Top, vm_Length := map_top - Top\<rparr> in
      if \<not> has_first \<and> \<not> has_trailing then
        let st1 = ListRemove map_base (vm_Resource cur) st;
            st2 = (if list_empty (vm_Resource cur) st1 \<and> vm_Resource cur \<noteq> preserved
                   then erase_resource (vm_Resource cur) st1 else st1) in
        on_VMAs (erase map_base) st2
      else
        let st1 = (if has_first then on_VMAs (modify map_base (vm_Length_update (\<lambda>_. base - map_base))) st else st);
            st2 = (if has_trailing then
                     let s = on_VMAs (emplace Top trailing) st1 in
                     if \<not> has_first then ListReplace map_base Top (vm_Resource cur) s
                     else ListInsertAfter map_base Top (vm_Resource cur) s
                   else st1) in
        if \<not> has_first then on_VMAs (erase map_base) st2 else st2)"

fun delete_loop :: "u64 \<Rightarrow> u64 \<Rightarrow> nat option \<Rightarrow> u64 list \<Rightarrow> vma_tracking \<Rightarrow> vma_tracking" where
  "delete_loop base Top preserved [] st = st"
| "delete_loop base Top preserved (k # ks) st =
     (case map_of (VMAs st) k of
        None \<Rightarrow> delete_loop base Top preserved ks st
      | Some cur \<Rightarrow>
          if vm_Base cur + vm_Length cur \<le> base then st
          else delete_loop base Top preserved ks (delete_mapping base Top preserved cur st))"

definition DeleteVMARange :: "u64 \<Rightarrow> u64 \<Rightarrow> nat option \<Rightarrow> vma_tracking \<Rightarrow> vma_tracking" where
  "DeleteVMARange base len preserved st =
     (let st1 = BumpGeneration st; Top = base + len in
      delete_loop base Top preserved (keys_below Top (VMAs st1)) st1)"

section \<open>Tracking a range\<close>

fun res_prev :: "u64 \<Rightarrow> u64 option \<Rightarrow> u64 list \<Rightarrow> u64 option" where
  "res_prev base prev [] = prev"
| "res_prev base prev (k # ks) = (if k < base then res_prev base (Some k) ks else prev)"

definition track_position :: "u64 \<Rightarrow> u64 list \<Rightarrow> u64 option" where
  "track_position base vmas =
     (case vmas of [] \<Rightarrow> None | k # ks \<Rightarrow> if k > base then None else res_prev base (Some k) ks)"

definition resource_vmas :: "nat option \<Rightarrow> vma_tracking \<Rightarrow> u64 list" where
  "resource_vmas res st =
     (case res of None \<Rightarrow> []
      | Some r \<Rightarrow> (case MappedResources st r of None \<Rightarrow> [] | Some m \<Rightarrow> mr_VMAs m))"

definition TrackVMARange ::
  "nat option \<Rightarrow> u64 \<Rightarrow> u64 \<Rightarrow> u64 \<Rightarrow> bool \<Rightarrow> vma_prot \<Rightarrow> vma_tracking \<Rightarrow> vma_tracking" where
  "TrackVMARange res base offset len shared prot st =
     (let st1 = DeleteVMARange base len res (BumpGeneration st);
          prev = track_position base (resource_vmas res st1);
          entry = \<lparr>vm_Resource = res, vm_Base = base, vm_Offset = offset, vm_Length = len,
                   vm_Shared = shared, vm_Prot = prot\<rparr>;
          st2 = on_VMAs (emplace base entry) st1 in
      case prev of
        None \<Rightarrow> ListPrepend base res st2
      | Some p \<Rightarrow> ListInsertAfter p base res st2)"

section \<open>Well-formed maps and what they map\<close>

type_synonym vma_view = "nat option \<times> u64 \<times> bool \<times> vma_prot"

definition inside :: "vma_entry \<Rightarrow> u64 \<Rightarrow> bool" where
  "inside e x \<longleftrightarrow> vm_Base e \<le> x \<and> x < vm_Base e + vm_Length e"

text \<open>What an entry says about an address: resource, offset in it, sharing, protection.\<close>

definition entry_view :: "vma_entry \<Rightarrow> u64 \<Rightarrow> vma_view" where
  "entry_view e x = (vm_Resource e, vm_Offset e + (x - vm_Base e), vm_Shared e, vm_Prot e)"

definition vma_map_ok :: "(u64 \<rightharpoonup> vma_entry) \<Rightarrow> bool" where
  "vma_map_ok m \<longleftrightarrow> (\<forall>k e. m k = Some e \<longrightarrow> vm_Base e = k \<and> k < k + vm_Length e)
     \<and> (\<forall>k e k'. m k = Some e \<longrightarrow> k' \<in> dom m \<longrightarrow> k < k' \<longrightarrow> k + vm_Length e \<le> k')"

definition vmas_ok :: "(u64 \<times> vma_entry) list \<Rightarrow> bool" where
  "vmas_ok l \<longleftrightarrow> keys_sorted l \<and> vma_map_ok (map_of l)"

definition sees :: "(u64 \<rightharpoonup> vma_entry) \<Rightarrow> u64 \<Rightarrow> vma_view \<Rightarrow> bool" where
  "sees m x v \<longleftrightarrow> (\<exists>k e. m k = Some e \<and> inside e x \<and> v = entry_view e x)"

lemma vma_map_okD:
  assumes "vma_map_ok m" "m k = Some e"
  shows "vm_Base e = k" "k < k + vm_Length e" "k' \<in> dom m \<Longrightarrow> k < k' \<Longrightarrow> k + vm_Length e \<le> k'"
  using assms unfolding vma_map_ok_def by blast+

lemma inside_unique:
  assumes "vma_map_ok m" "m k = Some e" "inside e x" "m k' = Some e'" "inside e' x"
  shows "k = k'"
proof (rule ccontr)
  assume "k \<noteq> k'"
  then have "k < k' \<or> k' < k" by auto
  moreover have "k \<le> x" "x < k + vm_Length e" "k' \<le> x" "x < k' + vm_Length e'"
    using assms vma_map_okD(1) unfolding inside_def by blast+
  moreover have "k < k' \<Longrightarrow> k + vm_Length e \<le> k'" "k' < k \<Longrightarrow> k' + vm_Length e' \<le> k"
    using vma_map_okD(3) assms by blast+
  ultimately show False by auto
qed

text \<open>\<open>FindVMAEntry\<close> returns the entry that holds the address, if there is one.\<close>

lemma FindVMAEntry_iff:
  assumes "vmas_ok l"
  shows "FindVMAEntry x l = Some e \<longleftrightarrow> (\<exists>k. map_of l k = Some e \<and> inside e x)"
proof -
  define below where "below = takeWhile (\<lambda>(k, _). k \<le> x) l"
  have srt: "keys_sorted l" and ok: "vma_map_ok (map_of l)" using assms by (auto simp: vmas_ok_def)
  have dist: "distinct (map fst l)"
    using srt unfolding keys_sorted_def by (simp add: strict_sorted_iff)
  have below: "below = filter (\<lambda>(k, _). k \<le> x) l"
    using srt unfolding below_def keys_sorted_def sorted_wrt_map
    by (rule takeWhile_eq_filter) (auto intro: less_imp_le less_le_trans)
  have find: "FindVMAEntry x l = Some e \<longleftrightarrow> below \<noteq> [] \<and> snd (last below) = e \<and> inside e x"
  proof (cases "below = []")
    case False
    obtain k e0 where ke: "last below = (k, e0)" by fastforce
    then have "(k, e0) \<in> set below" using False last_in_set by fastforce
    then have "(k, e0) \<in> set l" by (simp add: below)
    then have "map_of l k = Some e0" using dist by simp
    then have "vm_Base e0 = k" using vma_map_okD(1) ok by blast
    then show ?thesis using False ke by (auto simp: FindVMAEntry_def inside_def below_def [symmetric])
  qed (simp add: FindVMAEntry_def below_def [symmetric])
  show ?thesis
  proof
    assume "FindVMAEntry x l = Some e"
    then have "below \<noteq> []" "snd (last below) = e" "inside e x" using find by auto
    then have "(fst (last below), e) \<in> set below" by (metis last_in_set prod.collapse)
    then have "(fst (last below), e) \<in> set l" by (simp add: below)
    then show "\<exists>k. map_of l k = Some e \<and> inside e x" using dist \<open>inside e x\<close> by auto
  next
    assume "\<exists>k. map_of l k = Some e \<and> inside e x"
    then obtain k where k: "map_of l k = Some e" "inside e x" by blast
    then have "(k, e) \<in> set l" "k \<le> x" using map_of_SomeD vma_map_okD(1) [OF ok] unfolding inside_def by fastforce+
    then have mem: "(k, e) \<in> set below" by (simp add: below)
    obtain k' e' where last: "last below = (k', e')" by fastforce
    have "(k', e') \<in> set below" using mem last by (metis last_in_set list.set(1) equals0D)
    then have k': "map_of l k' = Some e'" "k' \<le> x" using dist by (auto simp: below)
    have "sorted_wrt (<) (map fst below)"
      using srt unfolding below keys_sorted_def by (simp add: sorted_wrt_map sorted_wrt_filter)
    then have "k \<le> k'"
      using mem last by (cases below rule: rev_cases) (auto simp: sorted_wrt_append)
    moreover have "k < k' \<Longrightarrow> k + vm_Length e \<le> x"
      using vma_map_okD(3) [OF ok k(1), of k'] k' by (meson domI order_trans)
    then have "\<not> k < k'"
      using k(2) vma_map_okD(1) [OF ok k(1)] unfolding inside_def by auto
    ultimately have "k = k'" by auto
    then show "FindVMAEntry x l = Some e" using find mem last k k' by force
  qed
qed

section \<open>Deleting a range\<close>

lemma on_resource_VMAs [simp]: "VMAs (on_resource res f st) = VMAs st"
  by (simp add: on_resource_def split: option.split)

lemma list_ops_VMAs [simp]:
  "VMAs (ListRemove k res st) = VMAs st" "VMAs (ListReplace k n res st) = VMAs st"
  "VMAs (ListInsertAfter k n res st) = VMAs st" "VMAs (ListPrepend n res st) = VMAs st"
  "VMAs (erase_resource res st) = VMAs st" "VMAs (BumpGeneration st) = VMAs st"
  by (simp_all add: ListRemove_def ListReplace_def ListInsertAfter_def ListPrepend_def
      erase_resource_def BumpGeneration_def Let_def split: option.split)

text \<open>The entries one step of the deletion leaves of a mapping.\<close>

definition cut_head :: "u64 \<Rightarrow> vma_entry \<Rightarrow> vma_entry" where
  "cut_head base cur = cur\<lparr>vm_Length := base - vm_Base cur\<rparr>"

definition cut_tail :: "u64 \<Rightarrow> vma_entry \<Rightarrow> vma_entry" where
  "cut_tail Top cur = cur\<lparr>vm_Base := Top, vm_Offset := vm_Offset cur - vm_Base cur + Top,
     vm_Length := vm_Base cur + vm_Length cur - Top\<rparr>"

definition cut_map :: "u64 \<Rightarrow> u64 \<Rightarrow> vma_entry \<Rightarrow> (u64 \<rightharpoonup> vma_entry) \<Rightarrow> (u64 \<rightharpoonup> vma_entry)" where
  "cut_map base Top cur m =
     (let b = vm_Base cur;
          m1 = (if b + vm_Length cur > Top then m(Top \<mapsto> cut_tail Top cur) else m) in
      m1(b := (if b < base then Some (cut_head base cur) else None)))"

lemma cut_tail_simps [simp]:
  "vm_Base (cut_tail Top cur) = Top" "vm_Resource (cut_tail Top cur) = vm_Resource cur"
  "vm_Shared (cut_tail Top cur) = vm_Shared cur" "vm_Prot (cut_tail Top cur) = vm_Prot cur"
  "Top + vm_Length (cut_tail Top cur) = vm_Base cur + vm_Length cur"
  by (simp_all add: cut_tail_def)

lemma cut_head_simps [simp]:
  "vm_Base (cut_head base cur) = vm_Base cur"
  "vm_Base cur + vm_Length (cut_head base cur) = base"
  by (simp_all add: cut_head_def)

lemma cut_views [simp]:
  "entry_view (cut_tail Top cur) x = entry_view cur x" "entry_view (cut_head base cur) x = entry_view cur x"
  by (simp_all add: entry_view_def cut_tail_def cut_head_def)

lemma inside_cut:
  "inside (cut_tail Top cur) x \<longleftrightarrow> Top \<le> x \<and> x < vm_Base cur + vm_Length cur"
  "inside (cut_head base cur) x \<longleftrightarrow> vm_Base cur \<le> x \<and> x < base"
  by (simp_all add: inside_def)

text \<open>A key strictly inside a mapping is free.\<close>

lemma no_key_inside:
  assumes "vma_map_ok m" "m k = Some e" "k < t" "t < k + vm_Length e"
  shows "m t = None"
proof (rule ccontr)
  assume "m t \<noteq> None"
  then have "k + vm_Length e \<le> t" using vma_map_okD(3) [OF assms(1,2), of t] assms(3) by auto
  then show False using assms(4) by auto
qed

lemma delete_mapping_VMAs:
  assumes ok: "vma_map_ok (map_of (VMAs st))" and cur: "map_of (VMAs st) k = Some cur"
    and k: "k < Top" "base \<le> Top"
  shows "map_of (VMAs (delete_mapping base Top res cur st)) = cut_map base Top cur (map_of (VMAs st))"
proof -
  have b: "vm_Base cur = k" using vma_map_okD(1) [OF ok cur] .
  have free: "map_of (VMAs st) Top = None" if "k + vm_Length cur > Top"
    using no_key_inside [OF ok cur k(1) that] .
  have "Top \<noteq> k" using k(1) by auto
  then show ?thesis
    using b cur free k(1)
    by (auto simp: delete_mapping_def cut_map_def cut_tail_def cut_head_def Let_def map_of_emplace fun_eq_iff)
qed

lemma keys_sorted_delete_mapping:
  "keys_sorted (VMAs st) \<Longrightarrow> keys_sorted (VMAs (delete_mapping base Top res cur st))"
  by (simp add: delete_mapping_def Let_def)

text \<open>Replacing a mapping by disjoint pieces of itself keeps the map well formed.\<close>

definition piece :: "vma_entry \<Rightarrow> u64 \<Rightarrow> vma_entry \<Rightarrow> bool" where
  "piece cur q e \<longleftrightarrow> vm_Base e = q \<and> q < q + vm_Length e \<and> vm_Base cur \<le> q
     \<and> q + vm_Length e \<le> vm_Base cur + vm_Length cur"

lemma vma_map_ok_pieces:
  assumes ok: "vma_map_ok m" and cur: "m k = Some cur"
    and new: "\<And>q e. m' q = Some e \<Longrightarrow> (q \<noteq> k \<and> m q = Some e) \<or> piece cur q e"
    and disj: "\<And>q e q' e'. m' q = Some e \<Longrightarrow> m' q' = Some e' \<Longrightarrow> piece cur q e \<Longrightarrow> piece cur q' e'
      \<Longrightarrow> q < q' \<Longrightarrow> q + vm_Length e \<le> q'"
  shows "vma_map_ok m'"
proof -
  have b: "vm_Base cur = k" "k < k + vm_Length cur" using vma_map_okD(1,2) [OF ok cur] .
  have entry: "vm_Base e = q \<and> q < q + vm_Length e" if "m' q = Some e" for q e
    using new [OF that] vma_map_okD(1,2) [OF ok] unfolding piece_def by blast
  have "q + vm_Length e \<le> q'" if q: "m' q = Some e" "m' q' = Some e'" "q < q'" for q e q' e'
  proof -
    consider "m q = Some e" "q \<noteq> k" "m q' = Some e'" | "m q = Some e" "q \<noteq> k" "piece cur q' e'"
      | "piece cur q e" "m q' = Some e'" "q' \<noteq> k" | "piece cur q e" "piece cur q' e'"
      using new [OF q(1)] new [OF q(2)] by blast
    then show ?thesis
    proof cases
      case 1
      then show ?thesis using vma_map_okD(3) [OF ok 1(1), of q'] q(3) by auto
    next
      case 2
      then have "k \<le> q'" "q' < k + vm_Length cur" unfolding piece_def b by auto
      moreover have "q < k"
        using no_key_inside [OF ok cur, of q] 2(1,2) \<open>q' < k + vm_Length cur\<close> q(3) by fastforce
      ultimately show ?thesis using vma_map_okD(3) [OF ok 2(1), of k] cur by (meson domI order_trans)
    next
      case 3
      then have "k < q'" "q + vm_Length e \<le> k + vm_Length cur" using q(3) unfolding piece_def b by auto
      then show ?thesis using vma_map_okD(3) [OF ok cur, of q'] 3(2) by (meson domI order_trans)
    next
      case 4
      then show ?thesis using disj q by blast
    qed
  qed
  with entry show ?thesis unfolding vma_map_ok_def by blast
qed

lemma cut_map_cases:
  assumes "cut_map base Top cur m q = Some e" "vm_Base cur < Top"
  shows "(q \<noteq> vm_Base cur \<and> m q = Some e)
     \<or> (q = vm_Base cur \<and> q < base \<and> e = cut_head base cur)
     \<or> (q = Top \<and> Top < vm_Base cur + vm_Length cur \<and> e = cut_tail Top cur)"
  using assms by (auto simp: cut_map_def Let_def split: if_splits)

lemma cut_map_ok:
  assumes ok: "vma_map_ok m" and cur: "m k = Some cur" and k: "k < Top" "base \<le> Top" "base < k + vm_Length cur"
  shows "vma_map_ok (cut_map base Top cur m)"
proof (rule vma_map_ok_pieces [OF ok cur])
  have b: "vm_Base cur = k" "k < k + vm_Length cur" using vma_map_okD(1,2) [OF ok cur] .
  note cases = cut_map_cases [of base Top cur m, unfolded b, OF _ k(1)]
  fix q e assume q: "cut_map base Top cur m q = Some e"
  from cases [OF q] show "(q \<noteq> k \<and> m q = Some e) \<or> piece cur q e"
    using k cut_head_simps(2) [of cur base] by (auto simp: piece_def b)
  fix q' e' assume q': "cut_map base Top cur m q' = Some e'" "piece cur q e" "piece cur q' e'" "q < q'"
  have old: "m r \<noteq> Some f" if "piece cur r f" "r \<noteq> k" for r f
  proof -
    have "k < r" "r < k + vm_Length cur" using that unfolding piece_def b by auto
    then show ?thesis using no_key_inside [OF ok cur] by simp
  qed
  have "q = k \<and> e = cut_head base cur \<or> q = Top" "q' = k \<or> q' = Top"
    using cases [OF q] cases [OF q'(1)] old q'(2,3) by blast+
  then show "q + vm_Length e \<le> q'"
    using q'(4) k cut_head_simps(2) [of cur base] by (auto simp: b)
qed

lemma cut_map_sees:
  assumes ok: "vma_map_ok m" and cur: "m k = Some cur" and k: "k < Top" "base \<le> Top" "base < k + vm_Length cur"
  shows "sees (cut_map base Top cur m) x v \<longleftrightarrow> sees m x v \<and> \<not> (inside cur x \<and> base \<le> x \<and> x < Top)"
proof -
  have b: "vm_Base cur = k" "k < k + vm_Length cur" using vma_map_okD(1,2) [OF ok cur] .
  have keep: "cut_map base Top cur m q = m q" if "q \<noteq> k" "q \<noteq> Top \<or> \<not> Top < k + vm_Length cur" for q
    using that b by (auto simp: cut_map_def Let_def)
  have hd: "cut_map base Top cur m k = Some (cut_head base cur)" if "k < base"
    using that b by (simp add: cut_map_def Let_def)
  have tl: "cut_map base Top cur m Top = Some (cut_tail Top cur)" if "Top < k + vm_Length cur"
    using that b k by (auto simp: cut_map_def Let_def)
  show ?thesis
  proof
    assume "sees (cut_map base Top cur m) x v"
    then obtain q e where q: "cut_map base Top cur m q = Some e" "inside e x" "v = entry_view e x"
      unfolding sees_def by blast
    from cut_map_cases [OF q(1)] k(1) b consider "q \<noteq> k" "m q = Some e" | "e = cut_head base cur"
      | "Top < k + vm_Length cur" "e = cut_tail Top cur" by auto
    then show "sees m x v \<and> \<not> (inside cur x \<and> base \<le> x \<and> x < Top)"
    proof cases
      case 1
      then have "\<not> inside cur x" using inside_unique [OF ok 1(2) q(2) cur] by blast
      then show ?thesis using 1 q unfolding sees_def by blast
    next
      case 2
      then have "x < base" "inside cur x" using q(2) k(3) unfolding 2 inside_cut by (auto simp: inside_def b)
      then show ?thesis using q(3) cur unfolding 2 sees_def by auto
    next
      case 3
      then have "Top \<le> x" "inside cur x" using q(2) k unfolding 3 inside_cut by (auto simp: inside_def b)
      then show ?thesis using q(3) cur unfolding 3 sees_def by auto
    qed
  next
    assume "sees m x v \<and> \<not> (inside cur x \<and> base \<le> x \<and> x < Top)"
    then obtain q e where q: "m q = Some e" "inside e x" "v = entry_view e x"
      and out: "\<not> (inside cur x \<and> base \<le> x \<and> x < Top)" unfolding sees_def by blast
    show "sees (cut_map base Top cur m) x v"
    proof (cases "q = k")
      case False
      then have "\<not> (q = Top \<and> Top < k + vm_Length cur)"
        using no_key_inside [OF ok cur, of Top] q(1) k(1) by auto
      then show ?thesis using keep [OF False] q unfolding sees_def by auto
    next
      case True
      then have e: "e = cur" using q(1) cur by simp
      then consider "k \<le> x" "x < base" | "Top \<le> x" "x < k + vm_Length cur"
        using q(2) out by (auto simp: inside_def b)
      then show ?thesis
      proof cases
        case 1
        then have "inside (cut_head base cur) x" "k < base" by (auto simp: inside_cut b)
        then show ?thesis using hd q(3) e unfolding sees_def by (metis cut_views(2))
      next
        case 2
        then have "inside (cut_tail Top cur) x" "Top < k + vm_Length cur" by (auto simp: inside_cut b)
        then show ?thesis using tl q(3) e unfolding sees_def by (metis cut_views(1))
      qed
    qed
  qed
qed

lemma delete_loop_spec:
  assumes "vmas_ok (VMAs st)" "base \<le> Top" "sorted_wrt (>) ks"
    and "set ks \<subseteq> dom (map_of (VMAs st))" "\<forall>k\<in>set ks. k < Top"
  shows "vmas_ok (VMAs (delete_loop base Top res ks st))
    \<and> (\<forall>x v. sees (map_of (VMAs (delete_loop base Top res ks st))) x v \<longleftrightarrow> sees (map_of (VMAs st)) x v
         \<and> \<not> (base \<le> x \<and> x < Top \<and> (\<exists>k\<in>set ks. \<exists>e. map_of (VMAs st) k = Some e \<and> inside e x)))"
  using assms
proof (induction ks arbitrary: st)
  case (Cons k ks)
  let ?m = "map_of (VMAs st)"
  have ok: "vma_map_ok ?m" "keys_sorted (VMAs st)" using Cons.prems(1) by (auto simp: vmas_ok_def)
  obtain cur where cur: "?m k = Some cur" using Cons.prems(4) by auto
  have b: "vm_Base cur = k" using vma_map_okD(1) [OF ok(1) cur] .
  have lt: "k' < k" if "k' \<in> set ks" for k' using Cons.prems(3) that by simp
  show ?case
  proof (cases "k + vm_Length cur \<le> base")
    case True
    have "\<not> base \<le> x" if k': "k' \<in> set (k # ks)" "?m k' = Some e" "inside e x" for k' e x
    proof (cases "k' = k")
      case True
      then show ?thesis using k' cur b \<open>k + vm_Length cur \<le> base\<close> by (auto simp: inside_def)
    next
      case False
      then have "k' + vm_Length e \<le> k" using vma_map_okD(3) [OF ok(1) k'(2), of k] lt k'(1) cur by auto
      moreover have "k < k + vm_Length cur" using vma_map_okD(2) [OF ok(1) cur] .
      ultimately show ?thesis
        using k' vma_map_okD(1) [OF ok(1) k'(2)] True by (auto simp: inside_def)
    qed
    then have "\<not> (base \<le> x \<and> x < Top \<and> (\<exists>k\<in>set (k # ks). \<exists>e. ?m k = Some e \<and> inside e x))" for x
      by blast
    then show ?thesis using cur b True Cons.prems(1) by simp
  next
    case False
    define st1 where "st1 = delete_mapping base Top res cur st"
    have k: "k < Top" "base < k + vm_Length cur" using Cons.prems(5) False by auto
    have m1: "map_of (VMAs st1) = cut_map base Top cur ?m"
      unfolding st1_def using delete_mapping_VMAs [OF ok(1) cur k(1) Cons.prems(2)] .
    have keep: "map_of (VMAs st1) k' = ?m k'" if "k' < k" for k'
      using that k b by (auto simp: m1 cut_map_def Let_def)
    have "vmas_ok (VMAs st1)"
      using cut_map_ok [OF ok(1) cur k(1) Cons.prems(2) k(2)] keys_sorted_delete_mapping [OF ok(2)] m1
      by (simp add: vmas_ok_def st1_def)
    moreover have "set ks \<subseteq> dom (map_of (VMAs st1))"
    proof
      fix k' assume k': "k' \<in> set ks"
      then have "?m k' \<noteq> None" using Cons.prems(4) by auto
      then show "k' \<in> dom (map_of (VMAs st1))" using keep [OF lt [OF k']] by auto
    qed
    moreover have "sorted_wrt (>) ks" "\<forall>k\<in>set ks. k < Top" using Cons.prems(3,5) by simp_all
    ultimately have ih: "vmas_ok (VMAs (delete_loop base Top res ks st1))"
      "sees (map_of (VMAs (delete_loop base Top res ks st1))) x v \<longleftrightarrow> sees (map_of (VMAs st1)) x v
         \<and> \<not> (base \<le> x \<and> x < Top \<and> (\<exists>k\<in>set ks. \<exists>e. map_of (VMAs st1) k = Some e \<and> inside e x))" for x v
      using Cons.IH [of st1] Cons.prems(2) by blast+
    have same: "(\<exists>k\<in>set ks. \<exists>e. map_of (VMAs st1) k = Some e \<and> inside e x)
        \<longleftrightarrow> (\<exists>k\<in>set ks. \<exists>e. ?m k = Some e \<and> inside e x)" for x
      by (rule bex_cong) (simp_all add: keep lt)
    have split: "(\<exists>k\<in>set (k # ks). \<exists>e. ?m k = Some e \<and> inside e x)
        \<longleftrightarrow> inside cur x \<or> (\<exists>k\<in>set ks. \<exists>e. ?m k = Some e \<and> inside e x)" for x
      using cur by simp
    have loop: "delete_loop base Top res (k # ks) st = delete_loop base Top res ks st1"
      using cur b False by (simp add: st1_def)
    note cut = cut_map_sees [OF ok(1) cur k(1) Cons.prems(2) k(2), folded m1]
    show ?thesis
      unfolding loop split ih(2) same cut using ih(1) by blast
  qed
qed simp

lemma DeleteVMARange_spec:
  assumes ok: "vmas_ok (VMAs st)" and len: "base \<le> base + len"
  shows "vmas_ok (VMAs (DeleteVMARange base len res st))"
    and "sees (map_of (VMAs (DeleteVMARange base len res st))) x v
      \<longleftrightarrow> sees (map_of (VMAs st)) x v \<and> \<not> (base \<le> x \<and> x < base + len)"
proof -
  let ?ks = "keys_below (base + len) (VMAs st)" and ?m = "map_of (VMAs st)"
  have srt: "keys_sorted (VMAs st)" and mok: "vma_map_ok ?m" using ok by (auto simp: vmas_ok_def)
  note kb = keys_below_props [OF srt, of "base + len"]
  have loop: "vmas_ok (VMAs (delete_loop base (base + len) res ?ks (BumpGeneration st)))
    \<and> (\<forall>x v. sees (map_of (VMAs (delete_loop base (base + len) res ?ks (BumpGeneration st)))) x v
       \<longleftrightarrow> sees ?m x v
         \<and> \<not> (base \<le> x \<and> x < base + len \<and> (\<exists>k\<in>set ?ks. \<exists>e. ?m k = Some e \<and> inside e x)))"
  proof -
    have "set ?ks \<subseteq> dom ?m" "\<forall>k\<in>set ?ks. k < base + len" using kb(1) by auto
    then show ?thesis
      using delete_loop_spec [of "BumpGeneration st" base "base + len" ?ks res] ok len kb(2) by simp
  qed
  then show "vmas_ok (VMAs (DeleteVMARange base len res st))"
    by (simp add: DeleteVMARange_def Let_def)
  have "\<exists>k\<in>set ?ks. \<exists>e. ?m k = Some e \<and> inside e x" if "sees ?m x v" "x < base + len"
  proof -
    from that obtain k e where k: "?m k = Some e" "inside e x" unfolding sees_def by blast
    then have "k \<le> x" using vma_map_okD(1) [OF mok k(1)] by (simp add: inside_def)
    then show ?thesis using k kb(1) that(2) by auto
  qed
  with loop show "sees (map_of (VMAs (DeleteVMARange base len res st))) x v
      \<longleftrightarrow> sees ?m x v \<and> \<not> (base \<le> x \<and> x < base + len)"
    unfolding DeleteVMARange_def Let_def list_ops_VMAs by blast
qed

lemma TrackVMARange_VMAs:
  "VMAs (TrackVMARange res base off len shared prot st) =
     emplace base \<lparr>vm_Resource = res, vm_Base = base, vm_Offset = off, vm_Length = len,
                   vm_Shared = shared, vm_Prot = prot\<rparr> (VMAs (DeleteVMARange base len res (BumpGeneration st)))"
  by (simp add: TrackVMARange_def Let_def split: option.split)

lemma TrackVMARange_spec:
  assumes ok: "vmas_ok (VMAs st)" and len: "base < base + len"
  shows "vmas_ok (VMAs (TrackVMARange res base off len shared prot st))"
    and "sees (map_of (VMAs (TrackVMARange res base off len shared prot st))) x v
      \<longleftrightarrow> (if base \<le> x \<and> x < base + len then v = (res, off + (x - base), shared, prot)
           else sees (map_of (VMAs st)) x v)"
proof -
  define d where "d = VMAs (DeleteVMARange base len res (BumpGeneration st))"
  define e where "e = \<lparr>vm_Resource = res, vm_Base = base, vm_Offset = off, vm_Length = len,
                   vm_Shared = shared, vm_Prot = prot\<rparr>"
  have d: "keys_sorted d" "vma_map_ok (map_of d)"
    "sees (map_of d) x v \<longleftrightarrow> sees (map_of (VMAs st)) x v \<and> \<not> (base \<le> x \<and> x < base + len)" for x v
    using DeleteVMARange_spec [of "BumpGeneration st" base len res] ok len
    by (simp_all add: d_def vmas_ok_def)
  have sep: "k + vm_Length f \<le> base \<or> base + len \<le> k" if k: "map_of d k = Some f" for k f
  proof (rule ccontr)
    assume "\<not> (k + vm_Length f \<le> base \<or> base + len \<le> k)"
    then have "base < k + vm_Length f" "k < base + len" by auto
    moreover have "vm_Base f = k" "k < k + vm_Length f" using vma_map_okD(1,2) [OF d(2) k] .
    ultimately have "inside f (max base k)" "base \<le> max base k" "max base k < base + len"
      using len by (auto simp: inside_def max_def)
    then show False using d(3) k unfolding sees_def by blast
  qed
  have free: "map_of d base = None"
  proof (rule ccontr)
    assume "map_of d base \<noteq> None"
    then obtain f where f: "map_of d base = Some f" by auto
    then show False using sep [OF f] vma_map_okD(2) [OF d(2) f] len by auto
  qed
  have vm: "VMAs (TrackVMARange res base off len shared prot st) = emplace base e d"
    by (simp add: TrackVMARange_VMAs d_def e_def)
  have mp: "map_of (emplace base e d) = (map_of d)(base \<mapsto> e)" using free by (simp add: map_of_emplace)
  have "vma_map_ok ((map_of d)(base \<mapsto> e))"
    unfolding vma_map_ok_def
  proof (intro conjI allI impI)
    fix k f assume k: "((map_of d)(base \<mapsto> e)) k = Some f"
    then show "vm_Base f = k" using vma_map_okD(1) [OF d(2)] by (auto simp: e_def split: if_splits)
    show "k < k + vm_Length f" using k vma_map_okD(2) [OF d(2)] len by (auto simp: e_def split: if_splits)
    fix k' assume k': "k' \<in> dom ((map_of d)(base \<mapsto> e))" "k < k'"
    show "k + vm_Length f \<le> k'"
    proof (cases "k = base")
      case True
      then obtain f' where "map_of d k' = Some f'" "f = e" using k k' by (auto split: if_splits)
      then show ?thesis using sep [of k' f'] k'(2) True vma_map_okD(2) [OF d(2), of k' f'] len
        by (auto simp: e_def)
    next
      case False
      then have f: "map_of d k = Some f" using k by simp
      show ?thesis
      proof (cases "k' = base")
        case True
        then show ?thesis using sep [OF f] k'(2) len by auto
      next
        case False
        then show ?thesis using vma_map_okD(3) [OF d(2) f, of k'] k' by auto
      qed
    qed
  qed
  then show "vmas_ok (VMAs (TrackVMARange res base off len shared prot st))"
    using d(1) by (simp add: vm vmas_ok_def mp)
  have "sees ((map_of d)(base \<mapsto> e)) x v \<longleftrightarrow> (inside e x \<and> v = entry_view e x) \<or> sees (map_of d) x v"
  proof -
    have "((map_of d)(base \<mapsto> e)) k = Some f \<longleftrightarrow> (k = base \<and> f = e) \<or> map_of d k = Some f" for k f
      using free by auto
    then show ?thesis unfolding sees_def by (simp only:) blast
  qed
  then show "sees (map_of (VMAs (TrackVMARange res base off len shared prot st))) x v
      \<longleftrightarrow> (if base \<le> x \<and> x < base + len then v = (res, off + (x - base), shared, prot)
           else sees (map_of (VMAs st)) x v)"
  proof -
    have "inside e x \<longleftrightarrow> base \<le> x \<and> x < base + len" "entry_view e x = (res, off + (x - base), shared, prot)"
      by (simp_all add: inside_def entry_view_def e_def)
    then show ?thesis
      unfolding vm mp using d(3) [of x v] \<open>sees ((map_of d)(base \<mapsto> e)) x v \<longleftrightarrow> _\<close> by auto
  qed
qed

section \<open>The view of the address space\<close>

text \<open>
  The abstract state: for each address, what is mapped there. It is what \<open>FindVMAEntry\<close>
  shows a client.
\<close>

definition view :: "vma_tracking \<Rightarrow> u64 \<Rightarrow> vma_view option" where
  "view st x = map_option (\<lambda>e. entry_view e x) (FindVMAEntry x (VMAs st))"

lemma view_Some:
  assumes "vmas_ok (VMAs st)"
  shows "view st x = Some v \<longleftrightarrow> sees (map_of (VMAs st)) x v"
  using FindVMAEntry_iff [OF assms] unfolding view_def sees_def by auto

lemma view_eqI:
  assumes "vmas_ok (VMAs st)" "\<And>v. sees (map_of (VMAs st)) x v \<longleftrightarrow> r = Some v"
  shows "view st x = r"
  using view_Some [OF assms(1), of x] assms(2) by (metis option.exhaust)

lemma view_DeleteVMARange:
  assumes "vmas_ok (VMAs st)" "base \<le> base + len"
  shows "view (DeleteVMARange base len res st) x = (if base \<le> x \<and> x < base + len then None else view st x)"
  by (rule view_eqI [OF DeleteVMARange_spec(1) [OF assms]])
    (use DeleteVMARange_spec(2) [OF assms] view_Some [OF assms(1)] in auto)

lemma view_TrackVMARange:
  assumes "vmas_ok (VMAs st)" "base < base + len"
  shows "view (TrackVMARange res base off len shared prot st) x =
     (if base \<le> x \<and> x < base + len then Some (res, off + (x - base), shared, prot) else view st x)"
  by (rule view_eqI [OF TrackVMARange_spec(1) [OF assms]])
    (use TrackVMARange_spec(2) [OF assms] view_Some [OF assms(1)] in auto)

end
