(* ===== verification/VMAProtect.thy ===== *)
theory VMAProtect
  imports VMATracking
begin

text \<open>
  \<open>ChangeProtectionFlags\<close> and \<open>DeleteSHMRegion\<close> of \<open>SyscallsVMATracking.cpp\<close>.
  \<open>ERROR_AND_DIE_FMT\<close> is the error \<open>Die\<close>; reading the entry of \<open>VMAs.end()\<close>, undefined in
  C++, is the error \<open>EndIterator\<close>.
\<close>

section \<open>Changing protections\<close>

datatype vma_error = Die | EndIterator

text \<open>\<open>emplace\<close> of a split-off entry, fatal when the key is taken, and the list insertion.\<close>

definition emplace_or_die :: "u64 \<Rightarrow> u64 \<Rightarrow> vma_entry \<Rightarrow> vma_tracking \<Rightarrow> vma_error + vma_tracking" where
  "emplace_or_die after key e st =
     (if map_of (VMAs st) key \<noteq> None then Inl Die
      else Inr (ListInsertAfter after key (vm_Resource e) (on_VMAs (emplace key e) st)))"

text \<open>The body of the first loop. The tail takes the offset of the start of the mapping.\<close>

definition protect_overlap ::
  "u64 \<Rightarrow> vma_prot \<Rightarrow> vma_entry \<Rightarrow> vma_tracking \<Rightarrow> vma_error + vma_tracking" where
  "protect_overlap Top new_prot cur st =
     (let cur_base = vm_Base cur; cur_top = cur_base + vm_Length cur;
          offset_diff = vm_Offset cur - cur_base;
          tail = cur\<lparr>vm_Base := Top, vm_Offset := offset_diff + cur_base, vm_Length := cur_top - Top\<rparr>;
          change = on_VMAs (modify cur_base (\<lambda>e. e\<lparr>vm_Prot := new_prot, vm_Length := Top - cur_base\<rparr>)) in
      if cur_top > Top then map_sum id change (emplace_or_die cur_base Top tail st)
      else Inr (change st))"

text \<open>
  The first loop over the keys below \<open>Top\<close>, from the highest down. It returns the key where it
  stopped (\<open>None\<close>: it reached \<open>VMAs.begin()\<close>) and the remaining \<open>Top\<close>.
\<close>

fun protect_loop ::
  "u64 \<Rightarrow> u64 \<Rightarrow> vma_prot \<Rightarrow> u64 list \<Rightarrow> vma_tracking \<Rightarrow> vma_error + u64 option \<times> u64 \<times> vma_tracking" where
  "protect_loop base Top new_prot [] st = Inr (None, Top, st)"
| "protect_loop base Top new_prot (k # ks) st =
     (case map_of (VMAs st) k of
        None \<Rightarrow> protect_loop base Top new_prot ks st
      | Some cur \<Rightarrow>
          if vm_Base cur \<le> base \<or> vm_Base cur + vm_Length cur < Top then Inr (Some k, Top, st)
          else case protect_overlap Top new_prot cur st of
            Inl err \<Rightarrow> Inl err
          | Inr st' \<Rightarrow> protect_loop base (base + (vm_Base cur - base)) new_prot ks st')"

text \<open>The final case distinction on the mapping the loop stopped at.\<close>

definition protect_final ::
  "u64 \<Rightarrow> u64 \<Rightarrow> vma_prot \<Rightarrow> vma_entry \<Rightarrow> vma_tracking \<Rightarrow> vma_error + vma_tracking" where
  "protect_final base Top new_prot cur st =
     (let cur_base = vm_Base cur; cur_top = cur_base + vm_Length cur;
          offset_diff = vm_Offset cur - cur_base;
          tail = cur\<lparr>vm_Base := Top, vm_Offset := offset_diff + Top, vm_Length := cur_top - Top\<rparr> in
      if cur_top \<le> base then Inr st
      else if cur_base = base \<and> cur_top = Top then
        Inr (on_VMAs (modify cur_base (vm_Prot_update (\<lambda>_. new_prot))) st)
      else if cur_base = base \<and> cur_top > Top then
        emplace_or_die cur_base Top tail
          (on_VMAs (modify cur_base (\<lambda>e. e\<lparr>vm_Prot := new_prot, vm_Length := Top - cur_base\<rparr>)) st)
      else if cur_base < base \<and> cur_top \<ge> Top then
        (case emplace_or_die cur_base base
                (cur\<lparr>vm_Base := base, vm_Offset := offset_diff + base, vm_Length := Top - base, vm_Prot := new_prot\<rparr>)
                (on_VMAs (modify cur_base (vm_Length_update (\<lambda>_. base - cur_base))) st) of
           Inl err \<Rightarrow> Inl err
         | Inr st' \<Rightarrow> if cur_top > Top then emplace_or_die cur_base Top tail st' else Inr st')
      else Inl Die)"

definition ChangeProtectionFlags ::
  "u64 \<Rightarrow> u64 \<Rightarrow> vma_prot \<Rightarrow> vma_tracking \<Rightarrow> vma_error + vma_tracking" where
  "ChangeProtectionFlags base len new_prot st0 =
     (let st = BumpGeneration st0 in
      if len = 0 then Inr st
      else
        case protect_loop base (base + len) new_prot (keys_below (base + len) (VMAs st)) st of
          Inl err \<Rightarrow> Inl err
        | Inr (it, Top, st') \<Rightarrow>
            (case (case it of Some k \<Rightarrow> map_of (VMAs st') k
                   | None \<Rightarrow> (case VMAs st' of [] \<Rightarrow> None | (_, e) # _ \<Rightarrow> Some e)) of
               None \<Rightarrow> Inl EndIterator
             | Some cur \<Rightarrow> protect_final base Top new_prot cur st'))"

section \<open>Deleting a shared-memory region\<close>

definition is_shm :: "vma_tracking \<Rightarrow> vma_entry \<Rightarrow> bool" where
  "is_shm st e =
     (case vm_Resource e of None \<Rightarrow> False
      | Some r \<Rightarrow> (case MappedResources st r of None \<Rightarrow> False | Some m \<Rightarrow> mr_dev m = SpecialDev_SHM))"

text \<open>The \<open>do\<close>-\<open>while\<close> loop: it visits the entries in key order and stops past the segment.\<close>

fun shm_loop :: "u64 \<Rightarrow> u64 \<Rightarrow> nat option \<Rightarrow> (u64 \<times> vma_entry) list \<Rightarrow> vma_tracking \<Rightarrow> vma_tracking" where
  "shm_loop base shm_len res [] st = st"
| "shm_loop base shm_len res ((k, e) # rest) st =
     (let st' = (if vm_Resource e = res then
                   let st1 = ListRemove k res st;
                       st2 = (if list_empty res st1 then erase_resource res st1 else st1) in
                   on_VMAs (erase k) st2
                 else st) in
      case rest of
        [] \<Rightarrow> st'
      | (k', e') # _ \<Rightarrow>
          if vm_Base e' + vm_Length e' - base \<le> shm_len then shm_loop base shm_len res rest st' else st')"

definition DeleteSHMRegion :: "u64 \<Rightarrow> vma_tracking \<Rightarrow> u64 \<times> vma_tracking" where
  "DeleteSHMRegion base st0 =
     (let st = BumpGeneration st0;
          from = dropWhile (\<lambda>(k, _). k < base) (VMAs st);
          hit = dropWhile (\<lambda>(_, e). \<not> (vm_Base e - base = vm_Offset e \<and> is_shm st e)) from in
      case hit of
        [] \<Rightarrow> (0, st)
      | (_, e) # _ \<Rightarrow>
          (case vm_Resource e of None \<Rightarrow> (0, st) | Some r \<Rightarrow>
             (case MappedResources st r of None \<Rightarrow> (0, st) | Some m \<Rightarrow>
                (mr_Length m, shm_loop base (mr_Length m) (Some r) hit st))))"

section \<open>Splitting a mapping at the changed range\<close>

definition set_prot :: "vma_prot \<Rightarrow> vma_view \<Rightarrow> vma_view" where
  "set_prot p v = (case v of (r, off, s, _) \<Rightarrow> (r, off, s, p))"

definition prot_mid :: "u64 \<Rightarrow> u64 \<Rightarrow> vma_prot \<Rightarrow> vma_entry \<Rightarrow> vma_entry" where
  "prot_mid b Top p cur = cur\<lparr>vm_Base := b, vm_Offset := vm_Offset cur + (b - vm_Base cur),
     vm_Length := Top - b, vm_Prot := p\<rparr>"

definition prot_tail :: "u64 \<Rightarrow> u64 \<Rightarrow> vma_entry \<Rightarrow> vma_entry" where
  "prot_tail Top toff cur = cur\<lparr>vm_Base := Top, vm_Offset := toff,
     vm_Length := vm_Base cur + vm_Length cur - Top\<rparr>"

definition prot_map ::
  "u64 \<Rightarrow> u64 \<Rightarrow> vma_prot \<Rightarrow> u64 \<Rightarrow> vma_entry \<Rightarrow> (u64 \<rightharpoonup> vma_entry) \<Rightarrow> (u64 \<rightharpoonup> vma_entry)" where
  "prot_map base Top p toff cur m =
     (let k = vm_Base cur; b = max k base;
          m1 = (if k + vm_Length cur > Top then m(Top \<mapsto> prot_tail Top toff cur) else m);
          m2 = (if k < base then m1(k \<mapsto> cut_head base cur) else m1) in
      m2(b \<mapsto> prot_mid b Top p cur))"

lemma prot_map_cases:
  assumes "prot_map base Top p toff cur m q = Some e" "vm_Base cur < Top" "base < Top"
  shows "(q \<noteq> vm_Base cur \<and> m q = Some e)
     \<or> (q = vm_Base cur \<and> q < base \<and> e = cut_head base cur)
     \<or> (q = max (vm_Base cur) base \<and> e = prot_mid q Top p cur)
     \<or> (q = Top \<and> Top < vm_Base cur + vm_Length cur \<and> e = prot_tail Top toff cur)"
  using assms by (auto simp: prot_map_def Let_def max_def split: if_splits)

lemma prot_piece_simps [simp]:
  "vm_Base (prot_mid b Top p cur) = b" "b + vm_Length (prot_mid b Top p cur) = Top"
  "vm_Base (prot_tail Top toff cur) = Top"
  "Top + vm_Length (prot_tail Top toff cur) = vm_Base cur + vm_Length cur"
  by (simp_all add: prot_mid_def prot_tail_def)

lemma prot_map_at:
  assumes "vm_Base cur < Top" "base < Top"
  shows "prot_map base Top p toff cur m (max (vm_Base cur) base) = Some (prot_mid (max (vm_Base cur) base) Top p cur)"
    and "vm_Base cur < base \<Longrightarrow> prot_map base Top p toff cur m (vm_Base cur) = Some (cut_head base cur)"
    and "Top < vm_Base cur + vm_Length cur \<Longrightarrow> prot_map base Top p toff cur m Top = Some (prot_tail Top toff cur)"
    and "q \<notin> {vm_Base cur, max (vm_Base cur) base, Top} \<Longrightarrow> prot_map base Top p toff cur m q = m q"
    and "\<not> Top < vm_Base cur + vm_Length cur \<Longrightarrow> prot_map base Top p toff cur m Top = m Top"
  using assms by (auto simp: prot_map_def Let_def max_def)

lemma prot_map_ok:
  assumes ok: "vma_map_ok m" and cur: "m k = Some cur"
    and k: "k < Top" "base < Top" "Top \<le> k + vm_Length cur"
  shows "vma_map_ok (prot_map base Top p toff cur m)"
proof (rule vma_map_ok_pieces [OF ok cur])
  have b: "vm_Base cur = k" "k < k + vm_Length cur" using vma_map_okD(1,2) [OF ok cur] .
  let ?m = "prot_map base Top p toff cur m"
  note cases = prot_map_cases [of base Top p toff cur m, unfolded b, OF _ k(1,2)]
  have mid: "max k base < Top" "k \<le> max k base" using k by auto
  have "base < k + vm_Length cur" using k by auto
  note head = cut_head_simps(2) [of cur base, unfolded b]
  fix q e assume q: "?m q = Some e"
  from cases [OF q] show "(q \<noteq> k \<and> m q = Some e) \<or> piece cur q e"
    using mid k head \<open>base < k + vm_Length cur\<close> by (auto simp: piece_def b)
  fix q' e' assume q': "?m q' = Some e'" "piece cur q e" "piece cur q' e'" "q < q'"
  have old: "m r \<noteq> Some f" if "piece cur r f" "r \<noteq> k" for r f
  proof -
    have "k < r" "r < k + vm_Length cur" using that unfolding piece_def b by auto
    then show ?thesis using no_key_inside [OF ok cur] by simp
  qed
  have "(q = k \<and> q < base \<and> e = cut_head base cur) \<or> (q = max k base \<and> e = prot_mid q Top p cur) \<or> q = Top"
    "(q' = k \<and> q' < base) \<or> q' = max k base \<or> q' = Top"
    using cases [OF q] cases [OF q'(1)] old q'(2,3) by blast+
  then show "q + vm_Length e \<le> q'"
    using q'(4) mid head by (auto simp: max_def split: if_splits)
qed

definition prot_view :: "u64 \<Rightarrow> u64 \<Rightarrow> vma_prot \<Rightarrow> u64 \<Rightarrow> vma_entry \<Rightarrow> u64 \<Rightarrow> vma_view" where
  "prot_view base Top p toff cur x =
     (if x < base then entry_view cur x
      else if x < Top then set_prot p (entry_view cur x)
      else (vm_Resource cur, toff + (x - Top), vm_Shared cur, vm_Prot cur))"

lemma prot_piece_views:
  "entry_view (prot_mid b Top p cur) x = set_prot p (entry_view cur x)"
  "entry_view (prot_tail Top toff cur) x = (vm_Resource cur, toff + (x - Top), vm_Shared cur, vm_Prot cur)"
  by (simp_all add: entry_view_def prot_mid_def prot_tail_def set_prot_def)

lemma prot_map_sees:
  assumes ok: "vma_map_ok m" and cur: "m k = Some cur"
    and k: "k < Top" "base < Top" "Top \<le> k + vm_Length cur"
  shows "sees (prot_map base Top p toff cur m) x v \<longleftrightarrow>
     (if inside cur x then v = prot_view base Top p toff cur x else sees m x v)"
proof -
  let ?m = "prot_map base Top p toff cur m"
  have b: "vm_Base cur = k" "k < k + vm_Length cur" using vma_map_okD(1,2) [OF ok cur] .
  note at = prot_map_at [where cur = cur and Top = Top and base = base and p = p and toff = toff and m = m, unfolded b, OF k(1,2)]
  have ok': "vma_map_ok ?m" using prot_map_ok [OF ok cur k] .
  show ?thesis
  proof (cases "inside cur x")
    case True
    then have x: "k \<le> x" "x < k + vm_Length cur" by (auto simp: inside_def b)
    have "\<exists>q e. ?m q = Some e \<and> inside e x \<and> entry_view e x = prot_view base Top p toff cur x"
    proof -
      consider "x < base" | "base \<le> x" "x < Top" | "Top \<le> x" by fastforce
      then show ?thesis
      proof cases
        case 1
        then have "?m k = Some (cut_head base cur)" "inside (cut_head base cur) x"
          using at(2) x by (auto simp: inside_cut b)
        then show ?thesis using 1 by (force simp: prot_view_def)
      next
        case 2
        have "inside (prot_mid (max k base) Top p cur) x" using 2 x by (simp add: inside_def)
        then show ?thesis using at(1) 2 by (force simp: prot_view_def prot_piece_views)
      next
        case 3
        then have "Top < k + vm_Length cur" "inside (prot_tail Top toff cur) x" using x by (auto simp: inside_def b)
        then show ?thesis using at(3) 3 k(2) by (force simp: prot_view_def prot_piece_views)
      qed
    qed
    then obtain q e where q: "?m q = Some e" "inside e x" "entry_view e x = prot_view base Top p toff cur x"
      by blast
    have "e' = e" if "?m q' = Some e'" "inside e' x" for q' e'
      using inside_unique [OF ok' q(1,2) that] q(1) that(1) by simp
    then show ?thesis using True q unfolding sees_def by metis
  next
    case False
    have "?m q = Some e \<and> inside e x \<longleftrightarrow> m q = Some e \<and> inside e x" for q e
    proof
      assume q: "?m q = Some e \<and> inside e x"
      have "\<not> inside e x" if "e \<in> {cut_head base cur, prot_mid (max k base) Top p cur} \<or> e = prot_tail Top toff cur \<and> Top < k + vm_Length cur"
        using False that k cut_head_simps(2) [of cur base, unfolded b]
        by (auto simp: inside_def b max_def not_less split: if_splits)
      then show "m q = Some e \<and> inside e x"
        using prot_map_cases [of base Top p toff cur m q e] q k b by auto
    next
      assume q: "m q = Some e \<and> inside e x"
      then have "q \<noteq> k" using cur False by auto
      moreover have "\<not> (q = Top \<and> Top < k + vm_Length cur)"
        using no_key_inside [OF ok cur k(1)] q by auto
      moreover have "q \<noteq> max k base"
        using no_key_inside [OF ok cur, of base] q \<open>q \<noteq> k\<close> less_le_trans [OF k(2,3)]
        by (cases "k < base") (auto simp: max_def split: if_splits)
      ultimately have "q \<notin> {k, max k base}" "\<not> (q = Top \<and> Top < k + vm_Length cur)" by auto
      then have "?m q = m q" using at(4) [of q] at(5) by auto
      then show "?m q = Some e \<and> inside e x" using q by simp
    qed
    then show ?thesis using False unfolding sees_def by simp metis
  qed
qed

lemma emplace_or_die_ok:
  assumes "map_of (VMAs st) key = None"
  obtains st' where "emplace_or_die after key e st = Inr st'" "VMAs st' = emplace key e (VMAs st)"
    "map_of (VMAs st') = (map_of (VMAs st))(key \<mapsto> e)"
  using assms that by (simp add: emplace_or_die_def map_of_emplace)

lemma prot_mid_self: "vm_Base cur = k \<Longrightarrow> prot_mid k Top p cur = cur\<lparr>vm_Prot := p, vm_Length := Top - k\<rparr>"
  by (cases cur) (simp add: prot_mid_def)

lemma protect_overlap_ok:
  assumes ok: "vmas_ok (VMAs st)" and cur: "map_of (VMAs st) k = Some cur"
    and k: "base \<le> k" "k < Top" "Top \<le> k + vm_Length cur"
  obtains st' where "protect_overlap Top p cur st = Inr st'"
    "map_of (VMAs st') = prot_map base Top p (vm_Offset cur) cur (map_of (VMAs st))"
    "vmas_ok (VMAs st')"
proof -
  let ?m = "map_of (VMAs st)"
  have mok: "vma_map_ok ?m" "keys_sorted (VMAs st)" using ok by (auto simp: vmas_ok_def)
  have b: "vm_Base cur = k" using vma_map_okD(1) [OF mok(1) cur] .
  have base: "base < Top" using k by auto
  have tail: "cur\<lparr>vm_Base := Top, vm_Length := k + vm_Length cur - Top\<rparr> = prot_tail Top (vm_Offset cur) cur"
    by (cases cur) (use b in \<open>simp add: prot_tail_def\<close>)
  have "\<exists>st'. protect_overlap Top p cur st = Inr st' \<and> keys_sorted (VMAs st')
     \<and> map_of (VMAs st') = prot_map base Top p (vm_Offset cur) cur ?m"
  proof (cases "k + vm_Length cur > Top")
    case True
    have "?m Top = None" using no_key_inside [OF mok(1) cur k(2) True] .
    then show ?thesis
      using True cur mok(2) k
      by (auto simp: protect_overlap_def Let_def b tail emplace_or_die_def map_of_emplace prot_map_def
          prot_mid_self [OF b] fun_eq_iff max_def)
  next
    case False
    then show ?thesis
      using cur mok(2) k by (auto simp: protect_overlap_def Let_def b prot_map_def prot_mid_self [OF b] max_def fun_eq_iff)
  qed
  with prot_map_ok [OF mok(1) cur k(2) base k(3)] show ?thesis
    using that unfolding vmas_ok_def by metis
qed

lemma protect_final_ok:
  assumes ok: "vmas_ok (VMAs st)" and cur: "map_of (VMAs st) k = Some cur"
    and k: "k \<le> base" "base < Top" "Top \<le> k + vm_Length cur"
  obtains st' where "protect_final base Top p cur st = Inr st'"
    "map_of (VMAs st') = prot_map base Top p (vm_Offset cur - k + Top) cur (map_of (VMAs st))"
    "vmas_ok (VMAs st')"
proof -
  let ?m = "map_of (VMAs st)"
  have mok: "vma_map_ok ?m" "keys_sorted (VMAs st)" using ok by (auto simp: vmas_ok_def)
  have b: "vm_Base cur = k" using vma_map_okD(1) [OF mok(1) cur] .
  have kt: "k < Top" "base < k + vm_Length cur" using k by auto
  have tail: "cur\<lparr>vm_Base := Top, vm_Offset := vm_Offset cur - k + Top, vm_Length := k + vm_Length cur - Top\<rparr>
      = prot_tail Top (vm_Offset cur - k + Top) cur" by (simp add: prot_tail_def b)
  have mid: "cur\<lparr>vm_Base := base, vm_Offset := vm_Offset cur - k + base, vm_Length := Top - base, vm_Prot := p\<rparr>
      = prot_mid base Top p cur" by (simp add: prot_mid_def b)
  have none: "?m Top = None" if "Top < k + vm_Length cur" using no_key_inside [OF mok(1) cur kt(1) that] .
  have "\<exists>st'. protect_final base Top p cur st = Inr st' \<and> keys_sorted (VMAs st')
     \<and> map_of (VMAs st') = prot_map base Top p (vm_Offset cur - k + Top) cur ?m"
  proof (cases "k = base")
    case True
    have exact: "cur\<lparr>vm_Prot := p\<rparr> = prot_mid k Top p cur" if "k + vm_Length cur = Top"
    proof -
      have "vm_Length cur = Top - k" using that by auto
      then show ?thesis using b by (cases cur) (simp add: prot_mid_def)
    qed
    show ?thesis
      using True cur mok(2) k none exact
      by (auto simp: protect_final_def Let_def b [unfolded True] tail [unfolded True] emplace_or_die_def
          map_of_emplace prot_map_def prot_mid_self [OF b, unfolded True] max_def fun_eq_iff not_le)
  next
    case False
    then have lt: "k < base" using k by auto
    have "?m base = None" using no_key_inside [OF mok(1) cur lt kt(2)] .
    then show ?thesis
      using False lt cur mok(2) k kt none
      by (auto simp: protect_final_def Let_def b tail mid emplace_or_die_def map_of_emplace prot_map_def
          cut_head_def max_def fun_eq_iff not_le)
  qed
  with prot_map_ok [OF mok(1) cur kt(1) k(2,3)] show ?thesis
    using that unfolding vmas_ok_def by metis
qed

section \<open>The effect on the address space\<close>

text \<open>What is mapped at an address, without the offset in the resource.\<close>

definition attrs :: "vma_tracking \<Rightarrow> u64 \<Rightarrow> (nat option \<times> bool \<times> vma_prot) option" where
  "attrs st x = map_option (\<lambda>(r, off, s, p). (r, s, p)) (view st x)"

definition with_prot :: "vma_prot \<Rightarrow> nat option \<times> bool \<times> vma_prot \<Rightarrow> nat option \<times> bool \<times> vma_prot" where
  "with_prot p a = (case a of (r, s, _) \<Rightarrow> (r, s, p))"

lemma with_prot_twice [simp]: "with_prot p (with_prot q a) = with_prot p a"
  by (simp add: with_prot_def split: prod.split)

lemma view_prot_map:
  assumes ok: "vmas_ok (VMAs st)" "vmas_ok (VMAs st')" and cur: "map_of (VMAs st) k = Some cur"
    and k: "k < Top" "base < Top" "Top \<le> k + vm_Length cur"
    and st': "map_of (VMAs st') = prot_map base Top p toff cur (map_of (VMAs st))"
  shows "view st' x = (if inside cur x then Some (prot_view base Top p toff cur x) else view st x)"
proof -
  have mok: "vma_map_ok (map_of (VMAs st))" using ok(1) by (simp add: vmas_ok_def)
  show ?thesis
    using view_Some [OF ok(1), of x] prot_map_sees [OF mok cur k, of p toff x]
    by (intro view_eqI [OF ok(2)]) (auto simp: st')
qed

lemma attrs_prot_map:
  assumes ok: "vmas_ok (VMAs st)" "vmas_ok (VMAs st')" and cur: "map_of (VMAs st) k = Some cur"
    and k: "k < Top" "base < Top" "Top \<le> k + vm_Length cur"
    and st': "map_of (VMAs st') = prot_map base Top p toff cur (map_of (VMAs st))"
  shows "attrs st' x = (if max k base \<le> x \<and> x < Top then map_option (with_prot p) (attrs st x) else attrs st x)"
proof -
  have mok: "vma_map_ok (map_of (VMAs st))" using ok(1) by (simp add: vmas_ok_def)
  have b: "vm_Base cur = k" using vma_map_okD(1) [OF mok cur] .
  have "view st x = Some (entry_view cur x)" if "inside cur x"
    using view_Some [OF ok(1), of x] cur that unfolding sees_def by blast
  moreover have "max k base \<le> x \<and> x < Top \<Longrightarrow> inside cur x" using k by (auto simp: inside_def b)
  moreover have "inside cur x \<Longrightarrow> k \<le> x" by (simp add: inside_def b)
  ultimately show ?thesis
    using view_prot_map [OF ok cur k st', of x]
    by (auto simp: attrs_def prot_view_def entry_view_def set_prot_def with_prot_def)
qed

lemma attrs_None [simp]: "attrs st x = None \<longleftrightarrow> view st x = None"
  by (simp add: attrs_def)

lemma mapped_key:
  assumes "vmas_ok (VMAs st)" "view st x \<noteq> None"
  obtains q e where "map_of (VMAs st) q = Some e" "q \<le> x" "x < q + vm_Length e"
proof -
  from assms obtain q e where q: "map_of (VMAs st) q = Some e" "inside e x"
    using view_Some [OF assms(1)] unfolding sees_def by fastforce
  moreover have "vm_Base e = q" using vma_map_okD(1) assms(1) q(1) unfolding vmas_ok_def by blast
  ultimately show ?thesis using that by (auto simp: inside_def)
qed

text \<open>If the range is mapped throughout, the highest mapping below its end reaches its end.\<close>

lemma highest_reaches_top:
  assumes ok: "vmas_ok (VMAs st)" and k: "map_of (VMAs st) k = Some cur" "k < Top" "base < Top"
    and hi: "\<And>q. q \<in> dom (map_of (VMAs st)) \<Longrightarrow> q < Top \<Longrightarrow> q \<le> k"
    and full: "\<And>x. base \<le> x \<Longrightarrow> x < Top \<Longrightarrow> view st x \<noteq> None"
  shows "Top \<le> k + vm_Length cur"
proof (rule ccontr)
  assume "\<not> Top \<le> k + vm_Length cur"
  then have lt: "max base (k + vm_Length cur) < Top" using k by auto
  have mok: "vma_map_ok (map_of (VMAs st))" using ok by (simp add: vmas_ok_def)
  obtain q e where q: "map_of (VMAs st) q = Some e" "q \<le> max base (k + vm_Length cur)"
    "max base (k + vm_Length cur) < q + vm_Length e"
    using mapped_key [OF ok full [OF _ lt]] by auto
  then have "q \<le> k" using hi [of q] le_less_trans [OF q(2) lt] by blast
  moreover have "q \<noteq> k" using q(3) q(1) k(1) by auto
  ultimately have "q < k" by auto
  then have "q + vm_Length e \<le> k" using vma_map_okD(3) [OF mok q(1), of k] k(1) by auto
  moreover have "k < k + vm_Length cur" using vma_map_okD(2) [OF mok k(1)] .
  ultimately show False using q(3) by auto
qed

lemma protect_loop_ok:
  assumes "vmas_ok (VMAs st)" "base < Top" "\<And>x. base \<le> x \<Longrightarrow> x < Top \<Longrightarrow> view st x \<noteq> None"
    and "set ks = {k \<in> dom (map_of (VMAs st)). k < Top}" "sorted_wrt (>) ks"
  shows "\<exists>k cur T st'. protect_loop base Top p ks st = Inr (Some k, T, st') \<and> vmas_ok (VMAs st')
     \<and> map_of (VMAs st') k = Some cur \<and> k \<le> base \<and> base < T \<and> T \<le> Top \<and> T \<le> k + vm_Length cur
     \<and> (\<forall>x. attrs st' x = (if T \<le> x \<and> x < Top then map_option (with_prot p) (attrs st x) else attrs st x))"
  using assms
proof (induction ks arbitrary: Top st)
  case Nil
  have "view st base \<noteq> None" using Nil.prems(2,3) by blast
  then obtain q e where "map_of (VMAs st) q = Some e" "q \<le> base" by (rule mapped_key [OF Nil.prems(1)])
  then show ?case using Nil.prems(2,4) by auto
next
  case (Cons k ks)
  let ?m = "map_of (VMAs st)"
  have mok: "vma_map_ok ?m" using Cons.prems(1) by (simp add: vmas_ok_def)
  obtain cur where cur: "?m k = Some cur" and kT: "k < Top" using Cons.prems(4) by auto
  have b: "vm_Base cur = k" using vma_map_okD(1) [OF mok cur] .
  have lt: "q < k" if "q \<in> set ks" for q using Cons.prems(5) that by simp
  have hi: "q \<le> k" if "q \<in> dom ?m" "q < Top" for q
  proof -
    have "q \<in> set (k # ks)" using Cons.prems(4) that by blast
    then show ?thesis using lt by (auto intro: less_imp_le)
  qed
  have reach: "Top \<le> k + vm_Length cur"
    using highest_reaches_top [OF Cons.prems(1) cur kT Cons.prems(2) hi Cons.prems(3)] .
  show ?case
  proof (cases "k \<le> base")
    case True
    then show ?thesis using cur b Cons.prems(1,2) reach by auto
  next
    case False
    then have kb: "base \<le> k" "base < k" by auto
    obtain st1 where st1: "protect_overlap Top p cur st = Inr st1"
      "map_of (VMAs st1) = prot_map base Top p (vm_Offset cur) cur ?m" "vmas_ok (VMAs st1)"
      using protect_overlap_ok [OF Cons.prems(1) cur kb(1) kT reach] .
    have step: "attrs st1 x = (if k \<le> x \<and> x < Top then map_option (with_prot p) (attrs st x) else attrs st x)" for x
      using attrs_prot_map [OF Cons.prems(1) st1(3) cur kT Cons.prems(2) reach st1(2), of x] kb(1)
      by (simp add: max_absorb1)
    have keep: "map_of (VMAs st1) q = ?m q" if "q < k" for q
      using that kb kT unfolding st1(2) by (auto simp: prot_map_def Let_def b max_def)
    have "set ks = {q \<in> dom (map_of (VMAs st1)). q < k}"
    proof -
      have "set ks = {q \<in> dom ?m. q < k}" using Cons.prems(4) lt kT by fastforce
      then show ?thesis using keep by (auto simp: dom_def)
    qed
    moreover have "view st1 x \<noteq> None" if "base \<le> x" "x < k" for x
      using step [of x] that Cons.prems(3) [of x] kT by (metis attrs_None leD less_trans)
    moreover have "sorted_wrt (>) ks" using Cons.prems(5) by simp
    ultimately obtain k' cur' T st' where ih: "protect_loop base k p ks st1 = Inr (Some k', T, st')"
      "vmas_ok (VMAs st')" "map_of (VMAs st') k' = Some cur'" "k' \<le> base" "base < T" "T \<le> k" "T \<le> k' + vm_Length cur'"
      "\<forall>x. attrs st' x = (if T \<le> x \<and> x < k then map_option (with_prot p) (attrs st1 x) else attrs st1 x)"
      using Cons.IH [of st1 k] st1(3) kb(2) by blast
    have "protect_loop base Top p (k # ks) st = protect_loop base k p ks st1"
      using cur b False reach st1(1) by auto
    moreover have "attrs st' x = (if T \<le> x \<and> x < Top then map_option (with_prot p) (attrs st x) else attrs st x)" for x
      using ih(8) step [of x] ih(6) kT by auto
    ultimately show ?thesis using ih kT by auto
  qed
qed

lemma ChangeProtectionFlags_ok:
  assumes ok: "vmas_ok (VMAs st)" and len: "base < base + len"
    and full: "\<And>x. base \<le> x \<Longrightarrow> x < base + len \<Longrightarrow> view st x \<noteq> None"
  shows "\<exists>st'. ChangeProtectionFlags base len p st = Inr st' \<and> vmas_ok (VMAs st')
     \<and> (\<forall>x. attrs st' x = (if base \<le> x \<and> x < base + len then map_option (with_prot p) (attrs st x) else attrs st x))"
proof -
  let ?st = "BumpGeneration st" and ?ks = "keys_below (base + len) (VMAs st)"
  have srt: "keys_sorted (VMAs st)" using ok by (simp add: vmas_ok_def)
  have view: "view ?st = view st" by (simp add: view_def fun_eq_iff)
  obtain k cur T st1 where l: "protect_loop base (base + len) p ?ks ?st = Inr (Some k, T, st1)"
    "vmas_ok (VMAs st1)" "map_of (VMAs st1) k = Some cur" "k \<le> base" "base < T" "T \<le> base + len" "T \<le> k + vm_Length cur"
    "\<forall>x. attrs st1 x = (if T \<le> x \<and> x < base + len then map_option (with_prot p) (attrs ?st x) else attrs ?st x)"
    using protect_loop_ok [of ?st base "base + len" ?ks p] ok len full keys_below_props [OF srt, of "base + len"] view
    by auto
  obtain st2 where f: "protect_final base T p cur st1 = Inr st2"
    "map_of (VMAs st2) = prot_map base T p (vm_Offset cur - k + T) cur (map_of (VMAs st1))" "vmas_ok (VMAs st2)"
    using protect_final_ok [OF l(2,3,4,5,7)] .
  have "len \<noteq> 0" using len by auto
  then have "ChangeProtectionFlags base len p st = Inr st2"
    using l(1,3) f(1) by (simp add: ChangeProtectionFlags_def Let_def)
  moreover have "attrs st2 x = (if base \<le> x \<and> x < base + len then map_option (with_prot p) (attrs st x) else attrs st x)" for x
    using attrs_prot_map [OF l(2) f(3) l(3) _ l(5,7) f(2), of x] l(4,5,6,8) view
    by (auto simp: max_absorb2 attrs_def option.map_comp)
  ultimately show ?thesis using f(3) by blast
qed

section \<open>The memo\<close>

lemma EncodeMarkNoOp_bits:
  assumes "EncodeMarkNoOp p g = Some w"
  shows "take_bit 32 w = take_bit 32 g" "drop_bit 32 w = drop_bit 21 p" "w \<noteq> 0"
proof -
  let ?tag = "drop_bit 21 p"
  have t: "drop_bit 32 ?tag = 0" and w: "w = push_bit 32 ?tag OR take_bit 32 g" and "w \<noteq> 0"
    using assms by (auto simp: EncodeMarkNoOp_def Let_def and_low_mask split: if_splits)
  then show "w \<noteq> 0" by simp
  show "take_bit 32 w = take_bit 32 g"
    unfolding w by (rule bit_word_eqI) (auto simp: bit_simps)
  have tag: "bit ?tag n = bit (take_bit 32 ?tag) n" for n
  proof (cases "n < 32")
    case False
    then obtain j where "n = 32 + j" using le_Suc_ex not_less by blast
    then show ?thesis using arg_cong [OF t, of "\<lambda>x. bit x j"] by (simp add: bit_simps)
  qed (simp add: bit_simps)
  have "n < 32" if "bit p (21 + n)" for n using that tag [of n] by (auto simp: bit_simps)
  then show "drop_bit 32 w = drop_bit 21 p"
    unfolding w by (intro bit_word_eqI) (auto simp: bit_simps)
qed

lemma EncodeMarkNoOp_inj:
  assumes "EncodeMarkNoOp p g = Some w" "EncodeMarkNoOp p' g' = Some w" "MarkNoOpIndex p = MarkNoOpIndex p'"
  shows "drop_bit 12 p = drop_bit 12 p' \<and> take_bit 32 g = take_bit 32 g'"
proof -
  have hi: "drop_bit 21 p = drop_bit 21 p'" and g: "take_bit 32 g = take_bit 32 g'"
    using EncodeMarkNoOp_bits(1,2) [OF assms(1)] EncodeMarkNoOp_bits(1,2) [OF assms(2)] by simp_all
  have lo: "take_bit 9 (drop_bit 12 p) = take_bit 9 (drop_bit 12 p')"
    using assms(3) by (simp add: MarkNoOpIndex_def and_low_mask word_unat_eq_iff)
  have "bit p (12 + n) = bit p' (12 + n)" for n
  proof (cases "n < 9")
    case True
    then show ?thesis using arg_cong [OF lo, of "\<lambda>x. bit x n"] by (simp add: bit_simps)
  next
    case False
    then show ?thesis using arg_cong [OF hi, of "\<lambda>x. bit x (n - 9)"] by (simp add: bit_simps)
  qed
  then show ?thesis using g by (auto intro!: bit_word_eqI simp: bit_simps)
qed

text \<open>
  A run of the memo: mutations of the map bump the generation, and a reader publishes a page
  with a generation it sampled since the 32-bit generation field last wrapped. The set
  records what has been published since then.
\<close>

inductive memo_run :: "vma_tracking \<Rightarrow> (u64 \<times> u64) set \<Rightarrow> bool" where
  memo_init: "Generation st = 1 \<Longrightarrow> MarkNoOpCache st = replicate MarkNoOpEntries 0 \<Longrightarrow> memo_run st {}"
| memo_mutate: "memo_run st pubs
    \<Longrightarrow> memo_run (BumpGeneration st) (if (Generation st + 1) AND MarkNoOpGenMask = 0 then {} else pubs)"
| memo_publish: "memo_run st pubs \<Longrightarrow> drop_bit 32 g = drop_bit 32 (Generation st) \<Longrightarrow> g \<le> Generation st
    \<Longrightarrow> memo_run (RecordMarkNoOp p g st) (insert (p, g) pubs)"

definition memo_ok :: "vma_tracking \<Rightarrow> (u64 \<times> u64) set \<Rightarrow> bool" where
  "memo_ok st pubs \<longleftrightarrow> length (MarkNoOpCache st) = MarkNoOpEntries
     \<and> (\<forall>i<MarkNoOpEntries. MarkNoOpCache st ! i \<noteq> 0 \<longrightarrow>
          (\<exists>p g. (p, g) \<in> pubs \<and> MarkNoOpIndex p = i \<and> EncodeMarkNoOp p g = Some (MarkNoOpCache st ! i)
             \<and> drop_bit 32 g = drop_bit 32 (Generation st)))"

lemma same_epoch:
  fixes g :: u64
  assumes "take_bit 32 (g + 1) \<noteq> 0"
  shows "drop_bit 32 (g + 1) = drop_bit 32 g"
proof -
  have "1 + g \<noteq> 0" using assms by (auto simp: add.commute)
  then have u: "unat (g + 1) = Suc (unat g)" using unatSuc [of g] by (simp add: add.commute)
  have "unat (take_bit 32 (g + 1)) \<noteq> 0" using assms by (simp only: unat_eq_zero not_False_eq_True)
  moreover have "unat (take_bit 32 (g + 1)) = take_bit 32 (unat (g + 1))" by (fact unsigned_take_bit_eq)
  ultimately have "Suc (unat g) mod 2 ^ 32 \<noteq> 0" unfolding u take_bit_nat_def by simp
  then have "Suc (unat g) div 2 ^ 32 = unat g div 2 ^ 32" by (simp add: div_Suc)
  then show ?thesis by (simp only: word_unat_eq_iff unat_drop_bit_eq u drop_bit_nat_def)
qed

lemma MarkNoOpIndex_less: "MarkNoOpIndex p < MarkNoOpEntries"
proof -
  have "MarkNoOpIndex p = take_bit 9 (unat (drop_bit 12 p))"
    by (simp add: MarkNoOpIndex_def and_low_mask unsigned_take_bit_eq)
  then show ?thesis by (simp add: take_bit_eq_mod)
qed

lemma memo_run_ok: "memo_run st pubs \<Longrightarrow> memo_ok st pubs"
proof (induction rule: memo_run.induct)
  case (memo_init st)
  then show ?case by (simp add: memo_ok_def)
next
  case (memo_mutate st pubs)
  show ?case
  proof (cases "(Generation st + 1) AND MarkNoOpGenMask = 0")
    case True
    then show ?thesis using memo_mutate.IH by (simp add: memo_ok_def BumpGeneration_def Let_def)
  next
    case False
    then have "drop_bit 32 (Generation st + 1) = drop_bit 32 (Generation st)"
      using same_epoch by (simp add: and_low_mask)
    then show ?thesis using memo_mutate.IH False by (simp add: memo_ok_def BumpGeneration_def Let_def)
  qed
next
  case (memo_publish st pubs g p)
  show ?case
  proof (cases "EncodeMarkNoOp p g")
    case None
    then show ?thesis using memo_publish.IH by (fastforce simp: memo_ok_def RecordMarkNoOp_def)
  next
    case (Some w)
    then show ?thesis
      using memo_publish MarkNoOpIndex_less [of p]
      by (auto simp: memo_ok_def RecordMarkNoOp_def nth_list_update) blast+
  qed
qed

section \<open>Properties\<close>

text \<open>
  C9. \<open>TrackVMARange\<close> maps exactly the given range to the resource, with consecutive offsets,
  and leaves every other address as it was, splitting and dropping older mappings as needed;
  the map stays ordered and disjoint.
\<close>

theorem track_range_view:
  assumes "vmas_ok (VMAs st)" and "base < base + len"
  shows "vmas_ok (VMAs (TrackVMARange res base off len shared prot st))
    \<and> view (TrackVMARange res base off len shared prot st) =
      (\<lambda>x. if base \<le> x \<and> x < base + len then Some (res, off + (x - base), shared, prot) else view st x)"
  using TrackVMARange_spec(1) [OF assms] view_TrackVMARange [OF assms] by auto

definition prot_rw :: vma_prot where "prot_rw = \<lparr>Readable = True, Writable = True, Executable = False\<rparr>"
definition prot_ro :: vma_prot where "prot_ro = \<lparr>Readable = True, Writable = False, Executable = False\<rparr>"

definition empty_tracking :: vma_tracking where
  "empty_tracking = \<lparr>VMAs = [], MappedResources = Map.empty, Generation = 1,
     MarkNoOpCache = replicate MarkNoOpEntries 0\<rparr>"

lemma empty_tracking_ok: "vmas_ok (VMAs empty_tracking)"
  by (simp add: empty_tracking_def vmas_ok_def keys_sorted_def vma_map_ok_def)

text \<open>One file mapped twice, back to back, with different protections.\<close>

definition two_maps :: vma_tracking where
  "two_maps = TrackVMARange None 0x2000 0x1000 0x3000 False prot_rw
     (TrackVMARange None 0x1000 0 0x1000 False prot_ro empty_tracking)"

theorem track_range_view_witness:
  "vmas_ok (VMAs (TrackVMARange None 0x1000 0 0x1000 False prot_ro empty_tracking))
   \<and> view (TrackVMARange None 0x1000 0 0x1000 False prot_ro empty_tracking) 0x1800 = Some (None, 0x800, False, prot_ro)"
  using track_range_view [OF empty_tracking_ok, of "0x1000" "0x1000" None 0 False prot_ro] by simp

text \<open>
  C10. \<open>DeleteVMARange\<close> unmaps exactly the given range: every other address keeps its
  resource, offset, sharing and protection, also where a mapping was split.
\<close>

theorem delete_range_view:
  assumes "vmas_ok (VMAs st)" and "base \<le> base + len"
  shows "vmas_ok (VMAs (DeleteVMARange base len preserved st))
    \<and> view (DeleteVMARange base len preserved st) =
      (\<lambda>x. if base \<le> x \<and> x < base + len then None else view st x)"
  using DeleteVMARange_spec(1) [OF assms] view_DeleteVMARange [OF assms] by auto

lemma two_maps_ok: "vmas_ok (VMAs two_maps)"
  unfolding two_maps_def by (intro TrackVMARange_spec(1)) (simp_all add: empty_tracking_ok)

lemma two_maps_view: "view two_maps x =
   (if 0x2000 \<le> x \<and> x < 0x5000 then Some (None, 0x1000 + (x - 0x2000), False, prot_rw)
    else if 0x1000 \<le> x \<and> x < 0x2000 then Some (None, x - 0x1000, False, prot_ro) else None)"
  unfolding two_maps_def
  by (simp add: view_TrackVMARange TrackVMARange_spec(1) empty_tracking_ok)
    (simp add: view_def empty_tracking_def FindVMAEntry_def)

theorem delete_range_view_witness:
  "view (DeleteVMARange 0x3000 0x1000 None two_maps) 0x4010 = Some (None, 0x3010, False, prot_rw)
   \<and> view (DeleteVMARange 0x3000 0x1000 None two_maps) 0x3010 = None"
  using delete_range_view [OF two_maps_ok, of "0x3000" "0x1000" None] by (simp add: two_maps_view)

text \<open>
  C37. On a range that is mapped throughout, \<open>ChangeProtectionFlags\<close> never dies: it sets the
  protection of exactly that range and keeps the resource and sharing of every address.
\<close>

theorem change_protection_attrs:
  assumes "vmas_ok (VMAs st)" and "base < base + len"
    and "\<And>x. base \<le> x \<Longrightarrow> x < base + len \<Longrightarrow> view st x \<noteq> None"
  shows "\<exists>st'. ChangeProtectionFlags base len p st = Inr st' \<and> vmas_ok (VMAs st')
     \<and> attrs st' = (\<lambda>x. if base \<le> x \<and> x < base + len then map_option (with_prot p) (attrs st x) else attrs st x)"
  using ChangeProtectionFlags_ok [OF assms] by blast

theorem change_protection_attrs_witness:
  "\<exists>st'. ChangeProtectionFlags 0x1000 0x3000 prot_ro two_maps = Inr st' \<and> vmas_ok (VMAs st')
     \<and> attrs st' 0x2000 = Some (None, False, prot_ro) \<and> attrs st' 0x4000 = Some (None, False, prot_rw)"
proof -
  have "view two_maps x \<noteq> None" if "0x1000 \<le> x" "x < 0x1000 + 0x3000" for x
    using that less_trans [of x "0x4000" "0x5000"] by (auto simp: two_maps_view)
  then obtain st' where st': "ChangeProtectionFlags 0x1000 0x3000 prot_ro two_maps = Inr st'" "vmas_ok (VMAs st')"
    "attrs st' = (\<lambda>x. if 0x1000 \<le> x \<and> x < 0x1000 + 0x3000 then map_option (with_prot prot_ro) (attrs two_maps x)
       else attrs two_maps x)"
    using change_protection_attrs [OF two_maps_ok, of "0x1000" "0x3000" prot_ro] by auto
  have a: "attrs two_maps 0x2000 = Some (None, False, prot_rw)" "attrs two_maps 0x4000 = Some (None, False, prot_rw)"
    by (simp_all add: attrs_def two_maps_view)
  have "attrs st' 0x2000 = Some (None, False, prot_ro)" "attrs st' 0x4000 = Some (None, False, prot_rw)"
    using a by (simp_all add: st'(3) with_prot_def)
  then show ?thesis using st'(1,2) by blast
qed

text \<open>
  When the changed range starts in one mapping and ends inside a later one, the part of the
  later mapping after the range takes the offset of the start of that mapping: here address
  \<open>0x4000\<close>, at offset \<open>0x3000\<close> of its file, is recorded at offset \<open>0x1000\<close>.
\<close>

theorem change_protection_offset_wrong:
  "view two_maps 0x4000 = Some (None, 0x3000, False, prot_rw)
   \<and> map_sum id (\<lambda>st. view st 0x4000) (ChangeProtectionFlags 0x1000 0x3000 prot_ro two_maps)
     = Inr (Some (None, 0x1000, False, prot_rw))"
proof -
  have vmas: "VMAs two_maps =
     [(0x1000, \<lparr>vm_Resource = None, vm_Base = 0x1000, vm_Offset = 0, vm_Length = 0x1000, vm_Shared = False, vm_Prot = prot_ro\<rparr>),
      (0x2000, \<lparr>vm_Resource = None, vm_Base = 0x2000, vm_Offset = 0x1000, vm_Length = 0x3000, vm_Shared = False, vm_Prot = prot_rw\<rparr>)]"
    unfolding two_maps_def
    by (simp add: TrackVMARange_VMAs DeleteVMARange_def empty_tracking_def keys_below_def emplace_def)
  show ?thesis
    by (simp add: two_maps_view ChangeProtectionFlags_def vmas keys_below_def protect_overlap_def
        emplace_or_die_def emplace_def ListInsertAfter_def on_resource_def modify_def protect_final_def
        view_def FindVMAEntry_def entry_view_def)
qed

text \<open>
  The list of a resource is documented as ordered by address. Changing the protection of
  the middle of a mapping inserts the middle and then the tail right after the head, so the
  list holds the tail before the middle.
\<close>

definition one_file :: vma_tracking where
  "one_file = TrackVMARange (Some 5) 0x1000 0 0x3000 False prot_rw
     (empty_tracking\<lparr>MappedResources := [5 \<mapsto> \<lparr>mr_dev = 1, mr_VMAs = [], mr_Length = 0\<rparr>]\<rparr>)"

theorem change_protection_list_order:
  "resource_vmas (Some 5) one_file = [0x1000]
   \<and> map_sum id (resource_vmas (Some 5)) (ChangeProtectionFlags 0x2000 0x1000 prot_ro one_file)
     = Inr [0x1000, 0x3000, 0x2000]"
proof -
  have one: "one_file = \<lparr>VMAs = [(0x1000, \<lparr>vm_Resource = Some 5, vm_Base = 0x1000, vm_Offset = 0,
       vm_Length = 0x3000, vm_Shared = False, vm_Prot = prot_rw\<rparr>)],
     MappedResources = [5 \<mapsto> \<lparr>mr_dev = 1, mr_VMAs = [0x1000], mr_Length = 0\<rparr>], Generation = 3,
     MarkNoOpCache = replicate MarkNoOpEntries 0\<rparr>"
    by (simp add: one_file_def TrackVMARange_def DeleteVMARange_def empty_tracking_def keys_below_def
        emplace_def resource_vmas_def track_position_def ListPrepend_def on_resource_def BumpGeneration_def Let_def)
  show ?thesis
    by (simp add: one resource_vmas_def ChangeProtectionFlags_def BumpGeneration_def Let_def keys_below_def
        protect_final_def emplace_or_die_def emplace_def ListInsertAfter_def on_resource_def modify_def)
qed

text \<open>
  A hit in the memo of pages with nothing to mark means that the page was published with
  the current generation, so the map has not been changed since the publisher looked at it.
\<close>

theorem memo_hit_current:
  assumes "memo_run st pubs" and "IsMarkNoOp page (Generation st) st"
  shows "\<exists>p. drop_bit 12 p = drop_bit 12 page \<and> (p, Generation st) \<in> pubs"
proof -
  let ?i = "MarkNoOpIndex page"
  obtain w where w: "EncodeMarkNoOp page (Generation st) = Some w" "MarkNoOpCache st ! ?i = w"
    using assms(2) by (auto simp: IsMarkNoOp_def split: option.splits)
  then have "MarkNoOpCache st ! ?i \<noteq> 0" using EncodeMarkNoOp_bits(3) by blast
  then obtain p g where p: "(p, g) \<in> pubs" "MarkNoOpIndex p = ?i" "EncodeMarkNoOp p g = Some w"
    "drop_bit 32 g = drop_bit 32 (Generation st)"
    using memo_run_ok [OF assms(1)] MarkNoOpIndex_less [of page] w(2) unfolding memo_ok_def by blast
  have eq: "drop_bit 12 p = drop_bit 12 page" "take_bit 32 g = take_bit 32 (Generation st)"
    using EncodeMarkNoOp_inj [OF p(3) w(1) p(2)] by auto
  have "g = Generation st" by (metis bits_ident eq(2) p(4))
  then show ?thesis using p(1) eq(1) by blast
qed

theorem memo_hit_current_witness:
  "\<exists>p. drop_bit 12 p = drop_bit 12 (0x5000 :: u64) \<and> (p, 1 :: u64) \<in> {(0x5123, 1)}"
proof -
  have "memo_run (RecordMarkNoOp 0x5123 1 empty_tracking) (insert (0x5123, 1) {})"
    by (rule memo_publish [OF memo_init]) (simp_all add: empty_tracking_def)
  moreover have g: "Generation (RecordMarkNoOp 0x5123 1 empty_tracking) = 1"
    by (simp add: RecordMarkNoOp_def empty_tracking_def split: option.split)
  moreover have "IsMarkNoOp 0x5000 1 (RecordMarkNoOp 0x5123 1 empty_tracking)"
    by (simp add: IsMarkNoOp_def RecordMarkNoOp_def EncodeMarkNoOp_def MarkNoOpIndex_def empty_tracking_def)
  ultimately show ?thesis using memo_hit_current [of _ "insert (0x5123, 1) {}" "0x5000"] by metis
qed

end
