(* ===== verification/GranuleTable.thy ===== *)
theory GranuleTable
  imports Prelude
begin

text \<open>
  The granule table of hosts with pages larger than 4096 bytes,
  \<open>Source/Tools/LinuxEmulation/LinuxSyscalls/GranuleTable.{h,cpp}\<close>, with the host page
  arithmetic of \<open>FEXCore/Utils/TypeDefines.h\<close>. \<open>s\<close> is the host page shift, a runtime quantity
  of the code. Addresses and sizes are 64-bit words, which wrap; a loop over pages that wraps past
  its end does not return, and the loops are partial functions. The answers of the SMC granule table (\<open>Armed\<close>, \<open>Known\<close>), of
  \<open>ApplyGuestProt\<close> and of \<open>mprotect\<close> are arguments.
\<close>

section \<open>Host pages\<close>

abbreviation FEX_GUEST_PAGE_SHIFT :: nat where "FEX_GUEST_PAGE_SHIFT \<equiv> 12"
abbreviation FEX_GUEST_PAGE_SIZE :: u64 where "FEX_GUEST_PAGE_SIZE \<equiv> 4096"

definition HostPageSize :: "nat \<Rightarrow> u64" where "HostPageSize s = 2 ^ s"

definition HostPageMask :: "nat \<Rightarrow> u64" where "HostPageMask s = NOT (HostPageSize s - 1)"

definition AlignDown :: "nat \<Rightarrow> u64 \<Rightarrow> u64" where
  "AlignDown s a = a AND HostPageMask s"

definition AlignUp :: "nat \<Rightarrow> u64 \<Rightarrow> u64" where
  "AlignUp s a = (a + HostPageSize s - 1) AND HostPageMask s"

definition PagesPerGranule :: "nat \<Rightarrow> nat" where
  "PagesPerGranule s = unat (drop_bit FEX_GUEST_PAGE_SHIFT (HostPageSize s))"

definition GranuleOf :: "nat \<Rightarrow> u64 \<Rightarrow> u64" where "GranuleOf s a = AlignDown s a"

definition IndexOf :: "nat \<Rightarrow> u64 \<Rightarrow> nat" where
  "IndexOf s a = unat (drop_bit FEX_GUEST_PAGE_SHIFT (a - GranuleOf s a))"

section \<open>Nibbles\<close>

abbreviation PROT_READ :: u32 where "PROT_READ \<equiv> 1"
abbreviation PROT_WRITE :: u32 where "PROT_WRITE \<equiv> 2"
abbreviation PROT_EXEC :: u32 where "PROT_EXEC \<equiv> 4"
abbreviation PageLive :: u64 where "PageLive \<equiv> 1"
abbreviation PageRead :: u64 where "PageRead \<equiv> 2"
abbreviation PageWrite :: u64 where "PageWrite \<equiv> 4"
abbreviation PageExec :: u64 where "PageExec \<equiv> 8"
abbreviation PageNibbleMask :: u64 where "PageNibbleMask \<equiv> 15"

definition NibbleFromProt :: "u32 \<Rightarrow> u64" where
  "NibbleFromProt p =
     PageLive OR (if p AND PROT_READ \<noteq> 0 then PageRead else 0)
     OR (if p AND PROT_WRITE \<noteq> 0 then PageWrite else 0) OR (if p AND PROT_EXEC \<noteq> 0 then PageExec else 0)"

definition ProtFromNibble :: "u64 \<Rightarrow> u32" where
  "ProtFromNibble n =
     (if n AND PageRead \<noteq> 0 then PROT_READ else 0) OR (if n AND PageWrite \<noteq> 0 then PROT_WRITE else 0)
     OR (if n AND PageExec \<noteq> 0 then PROT_EXEC else 0)"

record granule_entry =
  Nibbles :: u64
  HostProt :: u8
  FEXBacked :: bool
  SharedFd :: int
  SharedOffset :: u64

definition fresh_granule :: granule_entry where
  "fresh_granule = \<lparr>Nibbles = 0, HostProt = 0, FEXBacked = False, SharedFd = - 1, SharedOffset = 0\<rparr>"

definition NibbleAt :: "nat \<Rightarrow> granule_entry \<Rightarrow> u64" where
  "NibbleAt i e = drop_bit (i * 4) (Nibbles e) AND PageNibbleMask"

definition SetNibbleAt :: "nat \<Rightarrow> u64 \<Rightarrow> granule_entry \<Rightarrow> granule_entry" where
  "SetNibbleAt i n e =
     e\<lparr>Nibbles := (Nibbles e AND NOT (push_bit (i * 4) PageNibbleMask)) OR push_bit (i * 4) (n AND PageNibbleMask)\<rparr>"



section \<open>The table\<close>

type_synonym granule_table = "u64 \<rightharpoonup> granule_entry"

definition FindOrCreate :: "u64 \<Rightarrow> granule_table \<Rightarrow> granule_table" where
  "FindOrCreate g t = (case t g of None \<Rightarrow> t(g \<mapsto> fresh_granule) | Some _ \<Rightarrow> t)"

definition on_entry :: "u64 \<Rightarrow> (granule_entry \<Rightarrow> granule_entry) \<Rightarrow> granule_table \<Rightarrow> granule_table" where
  "on_entry g f t = t(g := map_option f (t g))"

text \<open>The loop \<open>for (Page = page; Page < limit; Page += step)\<close>.\<close>

partial_function (option) for_pages :: "(u64 \<Rightarrow> 'a \<Rightarrow> 'a) \<Rightarrow> u64 \<Rightarrow> u64 \<Rightarrow> u64 \<Rightarrow> 'a \<Rightarrow> 'a option" where
  "for_pages f step page limit t = (if page < limit then for_pages f step (page + step) limit (f page t) else Some t)"

definition SetIntended :: "nat \<Rightarrow> u64 \<Rightarrow> u64 \<Rightarrow> u32 \<Rightarrow> granule_table \<Rightarrow> granule_table option" where
  "SetIntended s base len prot t =
     (if len = 0 then Some t
      else for_pages (\<lambda>page t. on_entry (GranuleOf s page) (SetNibbleAt (IndexOf s page) (NibbleFromProt prot))
                        (FindOrCreate (GranuleOf s page) t))
             FEX_GUEST_PAGE_SIZE base (base + len) t)"

text \<open>\<open>ClearIntended\<close>, with the list it appends to \<open>Emptied\<close>.\<close>

definition clear_pages :: "nat \<Rightarrow> u64 \<Rightarrow> u64 \<Rightarrow> granule_table \<Rightarrow> granule_table option" where
  "clear_pages s base len t =
     for_pages (\<lambda>page t. on_entry (GranuleOf s page) (SetNibbleAt (IndexOf s page) 0) t)
       FEX_GUEST_PAGE_SIZE base (base + len) t"

definition ClearIntended :: "nat \<Rightarrow> u64 \<Rightarrow> u64 \<Rightarrow> granule_table \<Rightarrow> (granule_table \<times> u64 list) option" where
  "ClearIntended s base len t =
     (if len = 0 then Some (t, [])
      else Option.bind (clear_pages s base len t) (\<lambda>t.
        map_option (Pair t)
          (for_pages (\<lambda>g acc. case t g of Some e \<Rightarrow> if Nibbles e = 0 then acc @ [g] else acc | None \<Rightarrow> acc)
             (HostPageSize s) (GranuleOf s base) (AlignUp s (base + len)) [])))"

definition LookupPage :: "nat \<Rightarrow> granule_table \<Rightarrow> u64 \<Rightarrow> u32 option" where
  "LookupPage s t page =
     (case t (GranuleOf s page) of
        None \<Rightarrow> None
      | Some e \<Rightarrow>
          let nibble = NibbleAt (IndexOf s page) e in
          if nibble AND PageLive = 0 then None else Some (ProtFromNibble nibble))"

text \<open>\<open>Forget\<close>, with the file descriptor it closes.\<close>

definition Forget :: "u64 \<Rightarrow> granule_table \<Rightarrow> granule_table \<times> int option" where
  "Forget g t =
     (case t g of
        None \<Rightarrow> (t, None)
      | Some e \<Rightarrow> (t(g := None), if SharedFd e \<ge> 0 then Some (SharedFd e) else None))"

section \<open>Materialisation\<close>



definition NoteHostProt :: "u64 \<Rightarrow> u32 \<Rightarrow> granule_table \<Rightarrow> granule_table" where
  "NoteHostProt g prot t =
     on_entry g (HostProt_update (\<lambda>_. ucast (prot AND (PROT_READ OR PROT_WRITE OR PROT_EXEC)))) t"


section \<open>Nibbles\<close>

lemma NibbleAt_bit: "bit (NibbleAt i e) k \<longleftrightarrow> k < 4 \<and> bit (Nibbles e) (4 * i + k)"
  by (auto simp: NibbleAt_def and_low_mask bit_simps mult.commute add.commute)

lemma bit_15: "bit (15 :: int) q \<longleftrightarrow> q < 4"
proof -
  have "bit (mask 4 :: int) q \<longleftrightarrow> q < 4" unfolding bit_mask_iff by auto
  then show ?thesis by (simp add: mask_numeral)
qed

lemma NibbleAt_SetNibbleAt:
  assumes "i < 16" "j < 16"
  shows "NibbleAt j (SetNibbleAt i n e) = (if i = j then take_bit 4 n else NibbleAt j e)"
proof (rule bit_word_eqI)
  fix k :: nat
  have "bit (Nibbles (SetNibbleAt i n e)) q \<longleftrightarrow>
      (if 4 * i \<le> q \<and> q < 4 * i + 4 then bit n (q - 4 * i) else bit (Nibbles e) q)" if "q < 64" for q
    using that assms(1) by (auto simp: SetNibbleAt_def and_low_mask bit_simps bit_15 mult.commute)
  then have "bit (NibbleAt j (SetNibbleAt i n e)) k \<longleftrightarrow> k < 4 \<and>
      (if 4 * i \<le> 4 * j + k \<and> 4 * j + k < 4 * i + 4 then bit n (4 * j + k - 4 * i) else bit (Nibbles e) (4 * j + k))"
    using assms(2) by (cases "k < 4") (simp_all add: NibbleAt_bit)
  also have "\<dots> \<longleftrightarrow> bit (if i = j then take_bit 4 n else NibbleAt j e) k"
  proof (cases "k < 4")
    case True
    then have "4 * i \<le> 4 * j + k \<and> 4 * j + k < 4 * i + 4 \<longleftrightarrow> i = j" by presburger
    then show ?thesis using True by (simp add: NibbleAt_bit bit_take_bit_iff)
  qed (simp add: NibbleAt_bit bit_take_bit_iff)
  finally show "bit (NibbleAt j (SetNibbleAt i n e)) k = bit (if i = j then take_bit 4 n else NibbleAt j e) k" .
qed

lemma NibbleAt_fresh [simp]: "NibbleAt i fresh_granule = 0"
  by (simp add: NibbleAt_def fresh_granule_def)

lemma bit_push_of_bool:
  "bit (push_bit m (of_bool b) :: 'a::len word) k \<longleftrightarrow> k = m \<and> b \<and> m < LENGTH('a)"
  by (cases b) (auto simp: push_bit_of_1 bit_exp_iff)

lemma ProtFromNibble_eq:
  "ProtFromNibble n = push_bit 0 (of_bool (bit n 1)) OR push_bit 1 (of_bool (bit n 2)) OR push_bit 2 (of_bool (bit n 3))"
  by (simp add: ProtFromNibble_def and_single_bit)

lemma NibbleFromProt_eq:
  "NibbleFromProt p = push_bit 0 (of_bool True) OR push_bit 1 (of_bool (bit p 0)) OR push_bit 2 (of_bool (bit p 1))
     OR push_bit 3 (of_bool (bit p 2))"
  by (simp add: NibbleFromProt_def and_single_bit)

lemma ProtFromNibble_bits: "bit (ProtFromNibble n) k \<longleftrightarrow> k < 3 \<and> bit n (Suc k)"
proof -
  have "bit (ProtFromNibble n) k \<longleftrightarrow> k = 0 \<and> bit n 1 \<or> k = 1 \<and> bit n 2 \<or> k = 2 \<and> bit n 3"
    unfolding ProtFromNibble_eq bit_or_iff bit_push_of_bool by auto
  also have "\<dots> \<longleftrightarrow> k < 3 \<and> bit n (Suc k)" by (auto simp: less_Suc_eq numeral_2_eq_2 numeral_3_eq_3)
  finally show ?thesis .
qed

lemma NibbleFromProt_bits:
  "bit (NibbleFromProt p) 0" "bit (NibbleFromProt p) (Suc k) \<longleftrightarrow> k < 3 \<and> bit p k"
proof -
  have b: "bit (NibbleFromProt p) q \<longleftrightarrow> q = 0 \<or> q = 1 \<and> bit p 0 \<or> q = 2 \<and> bit p 1 \<or> q = 3 \<and> bit p 2" for q
    unfolding NibbleFromProt_eq bit_or_iff bit_push_of_bool by auto
  show "bit (NibbleFromProt p) 0" by (simp add: b)
  show "bit (NibbleFromProt p) (Suc k) \<longleftrightarrow> k < 3 \<and> bit p k"
    unfolding b by (auto simp: less_Suc_eq numeral_2_eq_2 numeral_3_eq_3)
qed

lemma Prot_Nibble_roundtrip: "ProtFromNibble (take_bit 4 (NibbleFromProt p)) = p AND 7"
  by (rule bit_word_eqI) (auto simp: ProtFromNibble_bits bit_take_bit_iff NibbleFromProt_bits and_low_mask)



section \<open>Pages\<close>

text \<open>A host page that holds a whole number, at most 16, of guest pages.\<close>

definition shift_ok :: "nat \<Rightarrow> bool" where "shift_ok s \<longleftrightarrow> 12 \<le> s \<and> s \<le> 16"

lemma HostPageMask_mask: "HostPageMask s = NOT (mask s)"
  by (simp add: HostPageMask_def HostPageSize_def mask_eq_exp_minus_1)

lemma unat_exp: "k < 64 \<Longrightarrow> unat (2 ^ k :: u64) = 2 ^ k"
  using power_strict_increasing [of k 64 "2 :: nat"] unat_of_nat [of "2 ^ k", where ?'a = 64] by simp

lemma bit_GranuleOf: "bit (GranuleOf s a) k \<longleftrightarrow> s \<le> k \<and> bit a k"
  by (auto simp: GranuleOf_def AlignDown_def HostPageMask_mask bit_and_iff bit_not_iff bit_mask_iff dest: bit_imp_le_length)

lemma granule_offset: "a - GranuleOf s a = take_bit s a"
proof -
  have "GranuleOf s a AND take_bit s a = 0" by (rule bit_word_eqI) (auto simp: bit_and_iff bit_GranuleOf bit_take_bit_iff)
  then have "GranuleOf s a + take_bit s a = GranuleOf s a OR take_bit s a" by (rule disjunctive_add_eq_or)
  also have "\<dots> = a" by (rule bit_word_eqI) (auto simp: bit_or_iff bit_GranuleOf bit_take_bit_iff)
  finally show ?thesis by (metis add_diff_cancel_left')
qed

lemma IndexOf_bits: "IndexOf s a = unat (drop_bit 12 (take_bit s a))"
  by (simp add: IndexOf_def granule_offset)

lemma IndexOf_less:
  assumes "shift_ok s"
  shows "IndexOf s a < PagesPerGranule s" "PagesPerGranule s \<le> 16"
proof -
  have "12 \<le> s" "s \<le> 16" using assms by (simp_all add: shift_ok_def)
  then obtain k where s: "s = 12 + k" "k \<le> 4" by (auto dest: le_Suc_ex)
  have d: "drop_bit 12 (HostPageSize s) = 2 ^ k" unfolding HostPageSize_def
    by (rule bit_word_eqI) (use s in \<open>auto simp: bit_drop_bit_eq bit_exp_iff\<close>)
  have pp: "PagesPerGranule s = 2 ^ k" using s(2) unat_exp [of k] by (simp add: PagesPerGranule_def d)
  have "drop_bit 12 (take_bit s a) = take_bit k (drop_bit 12 a)" using s by (simp add: drop_bit_take_bit)
  then have "IndexOf s a = take_bit k (unat (drop_bit 12 a))" by (simp add: IndexOf_bits unsigned_take_bit_eq)
  then show "IndexOf s a < PagesPerGranule s" by (simp add: pp)
  show "PagesPerGranule s \<le> 16" using power_increasing [OF s(2), of "2 :: nat"] by (simp add: pp)
qed

text \<open>Two page-aligned addresses with the same granule and index are equal.\<close>

abbreviation page_aligned :: "u64 \<Rightarrow> bool" where "page_aligned a \<equiv> a AND 0xFFF = 0"

lemma page_aligned_bit: "page_aligned a \<longleftrightarrow> take_bit 12 a = 0"
  by (simp add: and_low_mask)

lemma page_unique:
  assumes "shift_ok s" "page_aligned p" "page_aligned q" "GranuleOf s p = GranuleOf s q" "IndexOf s p = IndexOf s q"
  shows "p = q"
proof (rule bit_word_eqI)
  fix k assume "k < LENGTH(64)"
  have i: "drop_bit 12 (take_bit s p) = drop_bit 12 (take_bit s q)" using assms(5) unfolding IndexOf_bits by (rule unsigned_word_eqI)
  have low: "\<not> bit p k \<and> \<not> bit q k" if "k < 12"
    using assms(2,3) that unfolding page_aligned_bit by (metis bit_0_eq bit_take_bit_iff bot_apply bot_bool_def)
  have mid: "bit p k = bit q k" if "12 \<le> k" "k < s"
    using arg_cong [OF i, of "\<lambda>w. bit w (k - 12)"] that by (simp add: bit_drop_bit_eq bit_take_bit_iff)
  have high: "bit p k = bit q k" if "s \<le> k" using arg_cong [OF assms(4), of "\<lambda>w. bit w k"] that by (simp add: bit_GranuleOf)
  show "bit p k = bit q k" using low mid high by (meson not_le)
qed

section \<open>Updating a range of pages\<close>

text \<open>
  Loops over aligned addresses whose limit is at least one step below the end of memory: the
  address does not wrap.
\<close>

abbreviation step_of :: "nat \<Rightarrow> u64" where "step_of k \<equiv> 2 ^ k"

lemma aligned_unat: "take_bit k (a :: u64) = 0 \<longleftrightarrow> 2 ^ k dvd unat a"
proof -
  have "take_bit k a = 0 \<longleftrightarrow> take_bit k (unat a) = 0" by (metis unsigned_take_bit_eq unsigned_0 unsigned_word_eqI)
  then show ?thesis by (simp add: take_bit_eq_0_iff)
qed

lemma aligned_next:
  assumes "k < 64" "take_bit k page = 0" "page < limit" "unat limit + 2 ^ k \<le> 2 ^ 64"
  shows "unat (page + step_of k) = unat page + 2 ^ k" "take_bit k (page + step_of k) = 0"
    "take_bit k p = 0 \<Longrightarrow> page \<le> p \<and> p < limit \<longleftrightarrow> p = page \<or> page + step_of k \<le> p \<and> p < limit"
proof -
  have u: "unat page < unat limit" using assms(3) by (simp add: word_less_nat_alt)
  show n: "unat (page + step_of k) = unat page + 2 ^ k"
    using u assms(4) unat_exp [OF assms(1)] by (subst unat_add_lem [THEN iffD1]) simp_all
  show "take_bit k (page + step_of k) = 0" using assms(2) by (simp add: aligned_unat n)
  assume "take_bit k p = 0"
  then obtain a b where ab: "unat page = 2 ^ k * a" "unat p = 2 ^ k * b" using assms(2) unfolding aligned_unat by (meson dvdE)
  have "2 ^ k * a + 2 ^ k \<le> 2 ^ k * b \<longleftrightarrow> a < b"
  proof -
    have "2 ^ k * a + 2 ^ k = 2 ^ k * Suc a" by simp
    then show ?thesis by (simp only: mult_le_cancel1) auto
  qed
  moreover have "2 ^ k * a \<le> (2 :: nat) ^ k * b \<longleftrightarrow> a \<le> b" by simp
  moreover have "p = page \<longleftrightarrow> a = b" using ab by (metis unsigned_word_eqI mult_cancel1 power_not_zero zero_neq_numeral)
  ultimately show "page \<le> p \<and> p < limit \<longleftrightarrow> p = page \<or> page + step_of k \<le> p \<and> p < limit"
    using assms(3) unfolding word_le_nat_alt n ab by (auto simp: le_less)
qed

text \<open>
  A loop whose body sets what is seen of the visited page and leaves the other pages alone
  returns and sets what is seen of all visited pages.
\<close>

lemma for_pages_view:
  assumes k: "k < 64" and lim: "unat limit + 2 ^ k \<le> 2 ^ 64"
    and body: "\<And>q t p. take_bit k q = 0 \<Longrightarrow> take_bit k p = 0 \<Longrightarrow> look (f q t) p = (if p = q then new else look t p)"
  shows "take_bit k page = 0 \<Longrightarrow>
    \<exists>t'. for_pages f (step_of k) page limit t = Some t' \<and> (\<forall>p. take_bit k p = 0 \<longrightarrow> look t' p = (if page \<le> p \<and> p < limit then new else look t p))"
proof (induction "unat limit - unat page" arbitrary: page t rule: less_induct)
  case less
  show ?case
  proof (cases "page < limit")
    case True
    note a = aligned_next [OF k less.prems True lim]
    have "unat limit - unat (page + step_of k) < unat limit - unat page" using a(1) True by (simp add: word_less_nat_alt diff_less_mono2)
    from less.hyps [OF this a(2)] obtain t' where t': "for_pages f (step_of k) (page + step_of k) limit (f page t) = Some t'"
      "\<forall>p. take_bit k p = 0 \<longrightarrow> look t' p = (if page + step_of k \<le> p \<and> p < limit then new else look (f page t) p)" by blast
    have "look t' p = (if page \<le> p \<and> p < limit then new else look t p)" if "take_bit k p = 0" for p
      using t'(2) that a(3) [OF that] body [OF less.prems that] by auto
    then show ?thesis using t'(1) True by (subst for_pages.simps) simp
  qed (subst for_pages.simps, auto)
qed

lemma LookupPage_set:
  assumes s: "shift_ok s" and q: "page_aligned q" "page_aligned p"
    and t': "t' = on_entry (GranuleOf s q) (SetNibbleAt (IndexOf s q) n) t" "t (GranuleOf s q) \<noteq> None"
  shows "LookupPage s t' p = (if p = q then if bit n 0 then Some (ProtFromNibble (take_bit 4 n)) else None
     else LookupPage s t p)"
proof -
  obtain e where e: "t (GranuleOf s q) = Some e" using t'(2) by auto
  have i: "IndexOf s a < 16" for a using IndexOf_less [OF s] less_le_trans by blast
  have nib: "NibbleAt (IndexOf s p) (SetNibbleAt (IndexOf s q) n e) =
      (if IndexOf s q = IndexOf s p then take_bit 4 n else NibbleAt (IndexOf s p) e)"
    using NibbleAt_SetNibbleAt [OF i i] .
  show ?thesis
  proof (cases "GranuleOf s p = GranuleOf s q")
    case True
    then have "p = q \<longleftrightarrow> IndexOf s q = IndexOf s p" using page_unique [OF s q(2,1) True] by auto
    then show ?thesis
      using True e nib by (auto simp: LookupPage_def t'(1) on_entry_def Let_def and_single_bit bit_take_bit_iff)
  next
    case False
    then show ?thesis by (auto simp: LookupPage_def t'(1) on_entry_def)
  qed
qed

lemma LookupPage_FindOrCreate [simp]: "LookupPage s (FindOrCreate g t) p = LookupPage s t p"
  by (auto simp: LookupPage_def FindOrCreate_def split: option.split)

text \<open>A range of pages that ends at least one host page below the end of memory.\<close>

definition range_below_top :: "nat \<Rightarrow> u64 \<Rightarrow> u64 \<Rightarrow> bool" where
  "range_below_top s base len \<longleftrightarrow> page_aligned base \<and> unat base + unat len + 2 ^ s \<le> 2 ^ 64"

lemma range_limit:
  assumes "shift_ok s" "range_below_top s base len"
  shows "unat (base + len) = unat base + unat len" "unat (base + len) + 2 ^ s \<le> 2 ^ 64" "unat (base + len) + 2 ^ 12 \<le> 2 ^ 64"
proof -
  have p: "(0 :: nat) < 2 ^ s" by simp
  have b: "unat base + unat len + 2 ^ s \<le> 2 ^ 64" using assms(2) by (simp add: range_below_top_def)
  then have "unat base + unat len < 2 ^ 64" using p by linarith
  then show u: "unat (base + len) = unat base + unat len" using unat_add_lem [of base len] by simp
  show "unat (base + len) + 2 ^ s \<le> 2 ^ 64" using b by (simp add: u)
  moreover have "(2 :: nat) ^ 12 \<le> 2 ^ s" using assms(1) unfolding shift_ok_def by (intro power_increasing) simp_all
  ultimately show "unat (base + len) + 2 ^ 12 \<le> 2 ^ 64" by linarith
qed

lemma page_step: "FEX_GUEST_PAGE_SIZE = step_of 12"
  by simp

lemma LookupPage_SetIntended:
  assumes s: "shift_ok s" and r: "range_below_top s base len"
  shows "\<exists>t'. SetIntended s base len prot t = Some t' \<and>
    (\<forall>p. page_aligned p \<longrightarrow> LookupPage s t' p = (if base \<le> p \<and> p < base + len then Some (prot AND 7) else LookupPage s t p))"
proof (cases "len = 0")
  case False
  have "LookupPage s (on_entry (GranuleOf s q) (SetNibbleAt (IndexOf s q) (NibbleFromProt prot))
        (FindOrCreate (GranuleOf s q) t)) p = (if p = q then Some (prot AND 7) else LookupPage s t p)"
    if "take_bit 12 q = 0" "take_bit 12 p = 0" for q p t
  proof -
    have "FindOrCreate (GranuleOf s q) t (GranuleOf s q) \<noteq> None"
      by (simp add: FindOrCreate_def split: option.split)
    then show ?thesis
      by (subst LookupPage_set [OF s that [folded page_aligned_bit] refl]) (simp_all add: NibbleFromProt_bits Prot_Nibble_roundtrip)
  qed
  then have "\<exists>t'. for_pages (\<lambda>q t. on_entry (GranuleOf s q) (SetNibbleAt (IndexOf s q) (NibbleFromProt prot))
        (FindOrCreate (GranuleOf s q) t)) (step_of 12) base (base + len) t = Some t' \<and>
      (\<forall>p. take_bit 12 p = 0 \<longrightarrow> LookupPage s t' p = (if base \<le> p \<and> p < base + len then Some (prot AND 7) else LookupPage s t p))"
    using range_limit(3) [OF s r] r unfolding range_below_top_def page_aligned_bit
    by (intro for_pages_view [where look = "LookupPage s"]) simp_all
  then show ?thesis using False unfolding SetIntended_def page_step page_aligned_bit by (simp only: if_False)
qed (auto simp: SetIntended_def)

lemma LookupPage_clear_pages:
  assumes s: "shift_ok s" and r: "range_below_top s base len"
  shows "\<exists>t'. clear_pages s base len t = Some t' \<and>
    (\<forall>p. page_aligned p \<longrightarrow> LookupPage s t' p = (if base \<le> p \<and> p < base + len then None else LookupPage s t p))"
proof -
  have "LookupPage s (on_entry (GranuleOf s q) (SetNibbleAt (IndexOf s q) 0) t) p
        = (if p = q then None else LookupPage s t p)" if "take_bit 12 q = 0" "take_bit 12 p = 0" for q p t
  proof (cases "t (GranuleOf s q)")
    case None
    then have "on_entry (GranuleOf s q) (SetNibbleAt (IndexOf s q) 0) t = t"
      by (auto simp: on_entry_def fun_eq_iff)
    then show ?thesis using None by (auto simp: LookupPage_def)
  next
    case (Some e)
    then show ?thesis using LookupPage_set [OF s that [folded page_aligned_bit] refl, of t 0] by simp
  qed
  then show ?thesis
    using range_limit(3) [OF s r] r unfolding clear_pages_def page_step range_below_top_def page_aligned_bit
    by (intro for_pages_view [where look = "LookupPage s"]) simp_all
qed

text \<open>The granules that a loop with the host page as its step collects.\<close>

lemma for_pages_collect:
  assumes k: "k < 64" and lim: "unat limit + 2 ^ k \<le> 2 ^ 64"
  shows "take_bit k page = 0 \<Longrightarrow>
    \<exists>gs. for_pages (\<lambda>g acc. if P g then acc @ [g] else acc) (step_of k) page limit acc = Some gs
      \<and> set gs = set acc \<union> {g. take_bit k g = 0 \<and> page \<le> g \<and> g < limit \<and> P g}"
proof (induction "unat limit - unat page" arbitrary: page acc rule: less_induct)
  case less
  show ?case
  proof (cases "page < limit")
    case True
    note a = aligned_next [OF k less.prems True lim]
    have "unat limit - unat (page + step_of k) < unat limit - unat page" using a(1) True by (simp add: word_less_nat_alt diff_less_mono2)
    from less.hyps [OF this a(2), of "if P page then acc @ [page] else acc"] obtain gs where
      gs: "for_pages (\<lambda>g acc. if P g then acc @ [g] else acc) (step_of k) (page + step_of k) limit (if P page then acc @ [page] else acc) = Some gs"
      "set gs = set (if P page then acc @ [page] else acc) \<union> {g. take_bit k g = 0 \<and> page + step_of k \<le> g \<and> g < limit \<and> P g}" by blast
    have "{g. take_bit k g = 0 \<and> page \<le> g \<and> g < limit \<and> P g} =
        (if P page then {page} else {}) \<union> {g. take_bit k g = 0 \<and> page + step_of k \<le> g \<and> g < limit \<and> P g}"
      using less.prems a(3) True by auto
    then show ?thesis using gs True by (subst for_pages.simps) auto
  qed (subst for_pages.simps, auto)
qed

lemma bit_AlignUp_low: "take_bit s (AlignUp s a) = 0"
  by (rule bit_word_eqI) (auto simp: AlignUp_def HostPageMask_mask bit_take_bit_iff bit_and_iff bit_not_iff bit_mask_iff)

lemma AlignUp_limit:
  assumes "shift_ok s" "unat a + 2 ^ s \<le> 2 ^ 64"
  shows "unat (AlignUp s a) + 2 ^ s \<le> 2 ^ 64"
proof -
  have s: "s < 64" using assms(1) by (simp add: shift_ok_def)
  have "AlignUp s a \<le> a + HostPageSize s - 1" by (simp add: AlignUp_def word_and_le2)
  moreover have "unat (a + HostPageSize s - 1) = unat a + (2 ^ s - 1)"
  proof -
    have "HostPageSize s \<noteq> 0" using s by (simp add: HostPageSize_def)
    then have "unat (HostPageSize s - 1) = 2 ^ s - 1" using unat_minus_one [of "HostPageSize s"] unat_exp [OF s] by (simp add: HostPageSize_def)
    then have "unat (a + (HostPageSize s - 1)) = unat a + (2 ^ s - 1)"
      using assms(2) by (subst unat_add_lem [THEN iffD1]) (simp_all add: less_le_trans)
    then show ?thesis by (simp add: add_diff_eq)
  qed
  ultimately have "unat (AlignUp s a) < unat a + 2 ^ s"
    unfolding word_le_nat_alt using zero_less_power [of "2 :: nat" s] by linarith
  moreover obtain x where x: "unat (AlignUp s a) = 2 ^ s * x" using bit_AlignUp_low [of s a] unfolding aligned_unat by (meson dvdE)
  moreover have "(2 :: nat) ^ 64 = 2 ^ s * 2 ^ (64 - s)" using s by (simp flip: power_add)
  ultimately have "2 ^ s * x < 2 ^ s * (2 :: nat) ^ (64 - s)" using assms(2) by linarith
  then have "Suc x \<le> 2 ^ (64 - s)" by simp
  then have "2 ^ s * Suc x \<le> 2 ^ s * (2 :: nat) ^ (64 - s)" by (rule mult_le_mono2)
  then show ?thesis using x \<open>(2 :: nat) ^ 64 = 2 ^ s * 2 ^ (64 - s)\<close> by simp
qed

lemma ClearIntended_returns:
  assumes s: "shift_ok s" and r: "range_below_top s base len"
  shows "\<exists>t' gs. ClearIntended s base len t = Some (t', gs)
    \<and> (\<forall>p. page_aligned p \<longrightarrow> LookupPage s t' p = (if base \<le> p \<and> p < base + len then None else LookupPage s t p))
    \<and> (len \<noteq> 0 \<longrightarrow> set gs = {g. take_bit s g = 0 \<and> GranuleOf s base \<le> g \<and> g < AlignUp s (base + len) \<and> (\<exists>e. t' g = Some e \<and> Nibbles e = 0)})"
proof (cases "len = 0")
  case False
  from LookupPage_clear_pages [OF s r] obtain t' where t': "clear_pages s base len t = Some t'"
    "\<forall>p. page_aligned p \<longrightarrow> LookupPage s t' p = (if base \<le> p \<and> p < base + len then None else LookupPage s t p)" by blast
  let ?P = "\<lambda>g. \<exists>e. t' g = Some e \<and> Nibbles e = 0"
  have body: "(\<lambda>g acc. case t' g of Some e \<Rightarrow> if Nibbles e = 0 then acc @ [g] else acc | None \<Rightarrow> acc)
      = (\<lambda>g acc. if ?P g then acc @ [g] else acc)"
    by (auto simp: fun_eq_iff split: option.split)
  have al: "take_bit s (GranuleOf s base) = 0" by (rule bit_word_eqI) (auto simp: bit_take_bit_iff bit_GranuleOf)
  have s64: "s < 64" using s by (simp add: shift_ok_def)
  from for_pages_collect [OF s64 AlignUp_limit [OF s range_limit(2) [OF s r]] al, of ?P "[]"] show ?thesis
    using False t' by (auto simp: ClearIntended_def body HostPageSize_def)
qed (auto simp: ClearIntended_def)

section \<open>Interface\<close>

text \<open>
  What the memory system calls rely on: a map from guest pages to the protection the guest
  asked for, with updates of ranges.
\<close>

locale page_intent =
  fixes lookup :: "'t \<Rightarrow> u64 \<Rightarrow> u32 option"
    and in_range :: "u64 \<Rightarrow> u64 \<Rightarrow> bool"
    and set_range :: "u64 \<Rightarrow> u64 \<Rightarrow> u32 \<Rightarrow> 't \<Rightarrow> 't option"
    and clear_range :: "u64 \<Rightarrow> u64 \<Rightarrow> 't \<Rightarrow> 't option"
  assumes lookup_set: "in_range base len \<Longrightarrow> \<exists>t'. set_range base len prot t = Some t' \<and>
      (\<forall>p. page_aligned p \<longrightarrow> lookup t' p = (if base \<le> p \<and> p < base + len then Some (prot AND 7) else lookup t p))"
    and lookup_clear: "in_range base len \<Longrightarrow> \<exists>t'. clear_range base len t = Some t' \<and>
      (\<forall>p. page_aligned p \<longrightarrow> lookup t' p = (if base \<le> p \<and> p < base + len then None else lookup t p))"
begin

text \<open>An \<open>munmap\<close> undoes an earlier \<open>mmap\<close> of the range; a later protection replaces an earlier one.\<close>

lemma clear_set:
  assumes "in_range base len"
  shows "\<exists>t1 t2 t3. set_range base len prot t = Some t1 \<and> clear_range base len t1 = Some t2 \<and> clear_range base len t = Some t3
    \<and> (\<forall>p. page_aligned p \<longrightarrow> lookup t2 p = lookup t3 p)"
proof -
  from lookup_set [OF assms] obtain t1 where 1: "set_range base len prot t = Some t1"
    "\<forall>p. page_aligned p \<longrightarrow> lookup t1 p = (if base \<le> p \<and> p < base + len then Some (prot AND 7) else lookup t p)" by blast
  from lookup_clear [OF assms, of t1] 1 lookup_clear [OF assms, of t] show ?thesis by fastforce
qed

lemma set_set:
  assumes "in_range base len"
  shows "\<exists>t1 t2 t3. set_range base len prot t = Some t1 \<and> set_range base len q t1 = Some t2 \<and> set_range base len q t = Some t3
    \<and> (\<forall>p. page_aligned p \<longrightarrow> lookup t2 p = lookup t3 p)"
proof -
  from lookup_set [OF assms] obtain t1 where 1: "set_range base len prot t = Some t1"
    "\<forall>p. page_aligned p \<longrightarrow> lookup t1 p = (if base \<le> p \<and> p < base + len then Some (prot AND 7) else lookup t p)" by blast
  from lookup_set [OF assms, of q t1] 1 lookup_set [OF assms, of q t] show ?thesis by fastforce
qed

end

text \<open>The 64K-page hosts the table is built for.\<close>

interpretation g64: page_intent "LookupPage 16" "range_below_top 16" "SetIntended 16" "\<lambda>base len t. map_option fst (ClearIntended 16 base len t)"
proof
  have s: "shift_ok 16" by (simp add: shift_ok_def)
  fix base len prot and t :: granule_table assume r: "range_below_top 16 base len"
  show "\<exists>t'. SetIntended 16 base len prot t = Some t' \<and>
      (\<forall>p. page_aligned p \<longrightarrow> LookupPage 16 t' p = (if base \<le> p \<and> p < base + len then Some (prot AND 7) else LookupPage 16 t p))"
    by (rule LookupPage_SetIntended [OF s r])
  from ClearIntended_returns [OF s r, of t] obtain t' gs where "ClearIntended 16 base len t = Some (t', gs)"
    "\<forall>p. page_aligned p \<longrightarrow> LookupPage 16 t' p = (if base \<le> p \<and> p < base + len then None else LookupPage 16 t p)"
    by blast
  then show "\<exists>t'. map_option fst (ClearIntended 16 base len t) = Some t' \<and>
      (\<forall>p. page_aligned p \<longrightarrow> LookupPage 16 t' p = (if base \<le> p \<and> p < base + len then None else LookupPage 16 t p))" by auto
qed

section \<open>Materialised protections\<close>





section \<open>Properties\<close>

text \<open>
  C13. Seen page by page, the granule table of a 64K host is the map from guest pages to
  intended protections. For an aligned range that ends at least one host page below the end of
  memory, so that no address wraps, \<open>SetIntended\<close> returns and sets exactly the pages of the range, and
  \<open>ClearIntended\<close> returns and clears exactly them, although 16 pages share one word of the table.
\<close>

theorem granule_pages:
  assumes "page_aligned base" and "unat base + unat len + 0x10000 \<le> 2 ^ 64"
  shows "(\<exists>t'. SetIntended 16 base len prot t = Some t' \<and> (\<forall>p. page_aligned p \<longrightarrow>
        LookupPage 16 t' p = (if base \<le> p \<and> p < base + len then Some (prot AND 7) else LookupPage 16 t p)))
    \<and> (\<exists>t'. map_option fst (ClearIntended 16 base len t) = Some t' \<and> (\<forall>p. page_aligned p \<longrightarrow>
        LookupPage 16 t' p = (if base \<le> p \<and> p < base + len then None else LookupPage 16 t p)))"
proof -
  have "range_below_top 16 base len" using assms by (simp add: range_below_top_def)
  then show ?thesis using g64.lookup_set [of base len prot t] g64.lookup_clear [of base len t] by blast
qed

theorem granule_pages_witness:
  "\<exists>t'. SetIntended 16 0x13000 0x2000 3 Map.empty = Some t' \<and> LookupPage 16 t' 0x14000 = Some 3 \<and> LookupPage 16 t' 0x15000 = None"
proof -
  from granule_pages [of "0x13000" "0x2000" 3 Map.empty] obtain t' where t': "SetIntended 16 0x13000 0x2000 3 Map.empty = Some t'"
    "\<forall>p. page_aligned p \<longrightarrow> LookupPage 16 t' p = (if 0x13000 \<le> p \<and> p < 0x13000 + 0x2000 then Some (3 AND 7) else LookupPage 16 Map.empty p)"
    by auto
  show ?thesis using t'(1) t'(2) [rule_format, of "0x14000"] t'(2) [rule_format, of "0x15000"] by (simp add: LookupPage_def)
qed

text \<open>
  \<open>ClearIntended\<close> reports exactly the tracked granules that meet the range and have no
  page left in the table.
\<close>

theorem granule_emptied:
  assumes "page_aligned base" and "unat base + unat len + 0x10000 \<le> 2 ^ 64" and "len \<noteq> 0"
  shows "\<exists>t' gs. ClearIntended 16 base len t = Some (t', gs) \<and>
     set gs = {g. take_bit 16 g = 0 \<and> GranuleOf 16 base \<le> g \<and> g < AlignUp 16 (base + len) \<and> (\<exists>e. t' g = Some e \<and> Nibbles e = 0)}"
proof -
  have "range_below_top 16 base len" "shift_ok 16" using assms by (simp_all add: range_below_top_def shift_ok_def)
  from ClearIntended_returns [OF this(2,1), of t] assms(3) show ?thesis by blast
qed

theorem granule_emptied_witness:
  "\<exists>t' gs. ClearIntended 16 0x10000 0x10000 [0x10000 \<mapsto> fresh_granule] = Some (t', gs) \<and>
     set gs = {g. take_bit 16 g = 0 \<and> GranuleOf 16 0x10000 \<le> g \<and> g < AlignUp 16 (0x10000 + 0x10000) \<and> (\<exists>e. t' g = Some e \<and> Nibbles e = 0)}"
  by (rule granule_emptied) simp_all






end
