(* ===== verification/WriteMutex.thy ===== *)
theory WriteMutex
  imports Prelude
begin

text \<open>
  The mutex that guards code invalidation, \<open>FEXCore/Utils/WritePriorityMutex.h\<close>, as a state
  machine: the 32-bit futex word and a program counter for every thread. Each atomic access of
  the code is one step, and so is each futex call; between them any other thread may run. The
  word is the only shared location, so that the memory orders add nothing.

  A program counter keeps the thread's \<open>Expected\<close> or \<open>Desired\<close>. \<open>timed\<close> tells \<open>try_lock_for\<close> from
  \<open>lock\<close>, and \<open>block\<close> tells \<open>lock_shared\<close> from \<open>try_lock_shared\<close>. The spin with \<open>WFE\<close> exists on arm64
  only; on this host \<open>Attempt_WFE_WriteLock\<close> and \<open>Attempt_WFE_ReadLock\<close> return false at once. The
  kernel may wake a sleeper spuriously, and may time a timed one out.
\<close>

section \<open>The word\<close>

abbreviation WRITE_OWNED_BIT :: u32 where "WRITE_OWNED_BIT \<equiv> 0x80000000"
abbreviation READ_WAITER_BIT :: u32 where "READ_WAITER_BIT \<equiv> 0x40000000"
abbreviation WRITE_WAITER_INCREMENT :: u32 where "WRITE_WAITER_INCREMENT \<equiv> 0x10000"
abbreviation READ_OWNER_INCREMENT :: u32 where "READ_OWNER_INCREMENT \<equiv> 1"
abbreviation WRITE_WAITER_COUNT_MASK :: u32 where "WRITE_WAITER_COUNT_MASK \<equiv> 0x3FFF0000"
abbreviation READ_OWNER_COUNT_MASK :: u32 where "READ_OWNER_COUNT_MASK \<equiv> 0xFFFF"

definition is_write_owned :: "u32 \<Rightarrow> bool" where "is_write_owned f \<longleftrightarrow> f AND WRITE_OWNED_BIT \<noteq> 0"

text \<open>The value that a waiting writer tries to install, or none when it must sleep.\<close>

definition write_attempt :: "u32 \<Rightarrow> u32 option" where
  "write_attempt e =
     (if e AND WRITE_OWNED_BIT = 0 \<and> e AND READ_OWNER_COUNT_MASK = 0
      then Some ((e OR WRITE_OWNED_BIT) - WRITE_WAITER_INCREMENT) else None)"

text \<open>The value that a reader tries to install, and whether it sleeps then.\<close>

definition read_attempt :: "u32 \<Rightarrow> bool \<times> u32" where
  "read_attempt e =
     (if e AND WRITE_OWNED_BIT = 0 \<and> e AND WRITE_WAITER_COUNT_MASK = 0
      then (False, e + READ_OWNER_INCREMENT) else (True, e OR READ_WAITER_BIT))"

definition read_barred :: "u32 \<Rightarrow> bool" where
  "read_barred e \<longleftrightarrow> e AND WRITE_OWNED_BIT \<noteq> 0 \<or> e AND WRITE_WAITER_COUNT_MASK \<noteq> 0"

definition unlock_value :: "u32 \<Rightarrow> u32" where
  "unlock_value e =
     (let d = e AND NOT WRITE_OWNED_BIT in
      if d AND WRITE_WAITER_COUNT_MASK = 0 then d AND NOT READ_WAITER_BIT else d)"

definition withdraw_value :: "u32 \<Rightarrow> bool \<times> u32" where
  "withdraw_value e =
     (let d = e - WRITE_WAITER_INCREMENT in
      if d AND WRITE_WAITER_COUNT_MASK = 0 \<and> d AND READ_WAITER_BIT \<noteq> 0 \<and> d AND WRITE_OWNED_BIT = 0
      then (True, d AND NOT READ_WAITER_BIT) else (False, d))"

section \<open>Threads\<close>

datatype pc =
    Idle
  | LockTry bool | LockRegister bool | LockCas bool u32 | LockWait bool u32 | LockAsleep bool | LockLoad bool
  | TryLock | TimeoutLoad | TimeoutCas u32
  | WriteOwner | UnlockLoad | UnlockCas u32
  | SharedTryLoad bool | SharedTryCas bool u32 | SharedLoad | SharedCas u32 | SharedWait u32 | SharedAsleep
  | ReadOwner | UnlockShared
  | WakeWriter | WakeReaders

text \<open>
  \<open>try_lock\<close>, and what a thread does after the access that ends \<open>unlock\<close>, \<open>unlock_shared\<close> or a
  withdrawal: which wake-up it sends, if any.
\<close>

definition try_lock :: "u32 \<Rightarrow> bool \<times> u32" where [simp]:
  "try_lock f = (if f = 0 then (True, WRITE_OWNED_BIT) else (False, f))"

definition unlock_wake :: "u32 \<Rightarrow> pc" where [simp]:
  "unlock_wake e =
     (if e AND WRITE_WAITER_COUNT_MASK \<noteq> 0 then WakeWriter
      else if e AND READ_WAITER_BIT \<noteq> 0 then WakeReaders else Idle)"

definition unlock_shared_wake :: "u32 \<Rightarrow> pc" where [simp]:
  "unlock_shared_wake d =
     (if d AND WRITE_WAITER_COUNT_MASK \<noteq> 0 \<and> d AND READ_OWNER_COUNT_MASK = 0 then WakeWriter else Idle)"

definition withdraw_wake :: "bool \<Rightarrow> u32 \<Rightarrow> pc" where [simp]:
  "withdraw_wake wakeReaders d =
     (if wakeReaders then WakeReaders
      else if d AND WRITE_WAITER_COUNT_MASK \<noteq> 0 \<and> d AND WRITE_OWNED_BIT = 0 \<and> d AND READ_OWNER_COUNT_MASK = 0
      then WakeWriter else Idle)"

text \<open>
  One access of a running thread: its next program counter and the new word. A thread that is
  idle, owns the lock, sleeps, or is about to wake others does not move by itself.
\<close>

fun advance :: "pc \<Rightarrow> u32 \<Rightarrow> pc \<times> u32" where
  "advance (LockTry timed) f = (let (locked, f') = try_lock f in (if locked then WriteOwner else LockRegister timed, f'))"
| "advance TryLock f = (let (locked, f') = try_lock f in (if locked then WriteOwner else Idle, f'))"
| "advance (LockRegister timed) f = (LockCas timed (f + WRITE_WAITER_INCREMENT), f + WRITE_WAITER_INCREMENT)"
| "advance (LockCas timed e) f =
     (case write_attempt e of
        None \<Rightarrow> (LockWait timed e, f)
      | Some d \<Rightarrow> if f = e then (WriteOwner, d) else (LockCas timed f, f))"
| "advance (LockWait timed e) f = (if f = e then LockAsleep timed else LockLoad timed, f)"
| "advance (LockLoad timed) f = (LockCas timed f, f)"
| "advance TimeoutLoad f = (TimeoutCas f, f)"
| "advance (TimeoutCas e) f =
     (let (wakeReaders, d) = withdraw_value e in
      if f = e then (withdraw_wake wakeReaders d, d) else (TimeoutCas f, f))"
| "advance UnlockLoad f = (UnlockCas f, f)"
| "advance (UnlockCas e) f =
     (if f = e then (unlock_wake e, unlock_value e) else (UnlockCas f, f))"
| "advance (SharedTryLoad block) f =
     (if read_barred f then (if block then SharedLoad else Idle, f) else (SharedTryCas block f, f))"
| "advance (SharedTryCas block e) f =
     (if f = e then (ReadOwner, e + READ_OWNER_INCREMENT) else (if block then SharedLoad else Idle, f))"
| "advance SharedLoad f = (SharedCas f, f)"
| "advance (SharedCas e) f =
     (let (sleep, d) = read_attempt e in
      if f = e then (if sleep then SharedWait d else ReadOwner, d) else (SharedCas f, f))"
| "advance (SharedWait e) f = (if f = e then SharedAsleep else SharedLoad, f)"
| "advance UnlockShared f =
     (let d = f - READ_OWNER_INCREMENT in (unlock_shared_wake d, d))"
| "advance p f = (p, f)"

text \<open>The calls that a client may make.\<close>

fun calls :: "pc \<Rightarrow> pc list" where
  "calls Idle = [LockTry False, LockTry True, TryLock, SharedTryLoad True, SharedTryLoad False]"
| "calls WriteOwner = [UnlockLoad]"
| "calls ReadOwner = [UnlockShared]"
| "calls _ = []"

record mutex_state =
  Futex :: u32
  PC :: "nat \<Rightarrow> pc"

definition Mutex :: mutex_state where "Mutex = \<lparr>Futex = 0, PC = (\<lambda>_. Idle)\<rparr>"

text \<open>The effect of \<open>FutexWakeReaders\<close> on a program counter.\<close>

definition woken_reader :: "pc \<Rightarrow> pc" where
  "woken_reader p = (if p = SharedAsleep then SharedLoad else p)"

text \<open>The steps of \<open>n\<close> threads.\<close>

inductive mutex_step :: "nat \<Rightarrow> mutex_state \<Rightarrow> mutex_state \<Rightarrow> bool" for n :: nat where
  call: "\<lbrakk>t < n; p \<in> set (calls (PC s t))\<rbrakk> \<Longrightarrow> mutex_step n s (s\<lparr>PC := (PC s)(t := p)\<rparr>)"
| run: "\<lbrakk>t < n; advance (PC s t) (Futex s) = (p, f)\<rbrakk> \<Longrightarrow> mutex_step n s \<lparr>Futex = f, PC = (PC s)(t := p)\<rparr>"
| wake_writer: "\<lbrakk>t < n; PC s t = WakeWriter; v < n; PC s v = LockAsleep timed\<rbrakk> \<Longrightarrow>
    mutex_step n s (s\<lparr>PC := (PC s)(t := Idle, v := LockLoad timed)\<rparr>)"
| wake_no_writer: "\<lbrakk>t < n; PC s t = WakeWriter; \<forall>v < n. \<forall>timed. PC s v \<noteq> LockAsleep timed\<rbrakk> \<Longrightarrow>
    mutex_step n s (s\<lparr>PC := (PC s)(t := Idle)\<rparr>)"
| wake_readers: "\<lbrakk>t < n; PC s t = WakeReaders\<rbrakk> \<Longrightarrow>
    mutex_step n s (s\<lparr>PC := (\<lambda>v. woken_reader (((PC s)(t := Idle)) v))\<rparr>)"
| spurious_writer: "\<lbrakk>t < n; PC s t = LockAsleep timed\<rbrakk> \<Longrightarrow> mutex_step n s (s\<lparr>PC := (PC s)(t := LockLoad timed)\<rparr>)"
| spurious_reader: "\<lbrakk>t < n; PC s t = SharedAsleep\<rbrakk> \<Longrightarrow> mutex_step n s (s\<lparr>PC := (PC s)(t := SharedLoad)\<rparr>)"
| timeout: "\<lbrakk>t < n; PC s t = LockAsleep True\<rbrakk> \<Longrightarrow> mutex_step n s (s\<lparr>PC := (PC s)(t := TimeoutLoad)\<rparr>)"

inductive mutex_reach :: "nat \<Rightarrow> mutex_state \<Rightarrow> bool" for n :: nat where
  start: "mutex_reach n Mutex"
| step: "\<lbrakk>mutex_reach n s; mutex_step n s s'\<rbrakk> \<Longrightarrow> mutex_reach n s'"

section \<open>The layout of the word\<close>

definition word_of :: "nat \<Rightarrow> nat \<Rightarrow> bool \<Rightarrow> bool \<Rightarrow> u32" where
  "word_of r w rb ob = of_nat (r + 65536 * w + 1073741824 * of_bool rb + 2147483648 * of_bool ob)"

lemma unat_word_of:
  assumes "r < 65536" "w < 16384"
  shows "unat (word_of r w rb ob) = r + 65536 * w + 1073741824 * of_bool rb + 2147483648 * of_bool ob"
proof -
  define k where "k = r + 65536 * w + 1073741824 * of_bool rb + 2147483648 * of_bool ob"
  have "k < 2 ^ 32" using assms by (cases rb; cases ob) (simp_all add: k_def)
  then have "unat (of_nat k :: u32) = k" by (simp add: unat_of_nat take_bit_nat_eq_self)
  then show ?thesis unfolding word_of_def k_def .
qed

lemma bit_unat: "bit (x :: u32) n \<longleftrightarrow> odd (unat x div 2 ^ n)"
  by (simp add: bit_iff_odd [symmetric] bit_unsigned_iff)

lemma single_bits:
  fixes x :: u32
  shows "x AND WRITE_OWNED_BIT = 0 \<longleftrightarrow> \<not> bit x 31" "x AND READ_WAITER_BIT = 0 \<longleftrightarrow> \<not> bit x 30"
    "x AND READ_OWNER_COUNT_MASK = 0 \<longleftrightarrow> unat x mod 65536 = 0" "x AND WRITE_WAITER_COUNT_MASK = 0 \<longleftrightarrow> unat x div 65536 mod 16384 = 0"
proof -
  show "x AND WRITE_OWNED_BIT = 0 \<longleftrightarrow> \<not> bit x 31" "x AND READ_WAITER_BIT = 0 \<longleftrightarrow> \<not> bit x 30"
    using bit_iff_and_push_bit_not_eq_0 [of x 31] bit_iff_and_push_bit_not_eq_0 [of x 30] by simp_all
  have m: "x AND READ_OWNER_COUNT_MASK = take_bit 16 x" by (simp add: take_bit_eq_mask mask_eq_exp_minus_1)
  have "unat (take_bit 16 x) = unat x mod 65536" by (simp only: unsigned_take_bit_eq) (simp add: take_bit_eq_mod)
  then show "x AND READ_OWNER_COUNT_MASK = 0 \<longleftrightarrow> unat x mod 65536 = 0" unfolding m by (metis unat_eq_zero)
  have c: "(WRITE_WAITER_COUNT_MASK :: u32) = push_bit 16 (mask 14)" by (simp add: mask_eq_exp_minus_1)
  have w: "x AND WRITE_WAITER_COUNT_MASK = push_bit 16 (take_bit 14 (drop_bit 16 x))"
    unfolding c by (rule bit_word_eqI) (auto simp: bit_simps)
  have "push_bit 16 (take_bit 14 (drop_bit 16 x)) = 0 \<longleftrightarrow> take_bit 14 (drop_bit 16 x) = 0"
    by (auto simp: bit_eq_iff bit_simps) (metis le_add_diff_inverse less_imp_diff_less)
  moreover have "unat (take_bit 14 (drop_bit 16 x)) = unat x div 65536 mod 16384"
    by (simp only: unsigned_take_bit_eq unat_drop_bit_eq) (simp add: take_bit_eq_mod drop_bit_eq_div)
  ultimately show "x AND WRITE_WAITER_COUNT_MASK = 0 \<longleftrightarrow> unat x div 65536 mod 16384 = 0" unfolding w by (metis unat_eq_zero)
qed

lemma word_of_fields:
  assumes "r < 65536" "w < 16384"
  shows "word_of r w rb ob AND WRITE_OWNED_BIT = 0 \<longleftrightarrow> \<not> ob" "word_of r w rb ob AND READ_WAITER_BIT = 0 \<longleftrightarrow> \<not> rb"
    "word_of r w rb ob AND READ_OWNER_COUNT_MASK = 0 \<longleftrightarrow> r = 0" "word_of r w rb ob AND WRITE_WAITER_COUNT_MASK = 0 \<longleftrightarrow> w = 0"
    "bit (word_of r w rb ob) 31 \<longleftrightarrow> ob" "bit (word_of r w rb ob) 30 \<longleftrightarrow> rb"
proof -
  note u = unat_word_of [OF assms, of rb ob]
  have d: "unat (word_of r w rb ob) div 65536 = w + 16384 * of_bool rb + 32768 * of_bool ob"
    unfolding u using assms(1) by (cases rb; cases ob) simp_all
  have "unat (word_of r w rb ob) div 2 ^ 31 = unat (word_of r w rb ob) div 65536 div 32768"
    "unat (word_of r w rb ob) div 2 ^ 30 = unat (word_of r w rb ob) div 65536 div 16384" by (simp_all add: div_mult2_eq [symmetric])
  then have d31: "unat (word_of r w rb ob) div 2 ^ 31 = of_bool ob" "unat (word_of r w rb ob) div 2 ^ 30 = of_bool rb + 2 * of_bool ob"
    unfolding d using assms(2) by (cases rb; cases ob; simp)+
  show b: "bit (word_of r w rb ob) 31 \<longleftrightarrow> ob" "bit (word_of r w rb ob) 30 \<longleftrightarrow> rb" unfolding bit_unat d31 by simp_all
  then show "word_of r w rb ob AND WRITE_OWNED_BIT = 0 \<longleftrightarrow> \<not> ob" "word_of r w rb ob AND READ_WAITER_BIT = 0 \<longleftrightarrow> \<not> rb"
    by (simp_all only: single_bits)
  have "unat (word_of r w rb ob) mod 65536 = (r + 65536 * (w + 16384 * of_bool rb + 32768 * of_bool ob)) mod 65536"
    unfolding u by (simp add: algebra_simps)
  also have "\<dots> = r" using assms(1) by (simp only: mod_mult_self2 mod_less)
  finally show "word_of r w rb ob AND READ_OWNER_COUNT_MASK = 0 \<longleftrightarrow> r = 0" by (simp only: single_bits)
  have "unat (word_of r w rb ob) div 65536 mod 16384 = (w + 16384 * (of_bool rb + 2 * of_bool ob)) mod 16384"
    unfolding d by (simp add: algebra_simps)
  also have "\<dots> = w" using assms(2) by (simp only: mod_mult_self2 mod_less)
  finally show "word_of r w rb ob AND WRITE_WAITER_COUNT_MASK = 0 \<longleftrightarrow> w = 0" by (simp only: single_bits)
qed

lemma word_of_counts:
  assumes "r < 65536" "w < 16384"
  shows "unat (word_of r w rb ob) mod 65536 = r" "unat (word_of r w rb ob) div 65536 mod 16384 = w"
proof -
  have d: "r + 65536 * w + 1073741824 * of_bool rb + 2147483648 * of_bool ob = r + 65536 * (w + 16384 * (of_bool rb + 2 * of_bool ob))" by simp
  show "unat (word_of r w rb ob) mod 65536 = r" unfolding unat_word_of [OF assms] d mod_mult_self2 using assms(1) by simp
  have "(r + 65536 * (w + 16384 * (of_bool rb + 2 * of_bool ob))) div 65536 = w + 16384 * (of_bool rb + 2 * of_bool ob)"
    using assms(1) by simp
  then show "unat (word_of r w rb ob) div 65536 mod 16384 = w" unfolding unat_word_of [OF assms] d using assms(2)
    by (simp only: mod_mult_self2 mod_less)
qed

lemma word_of_zero: "word_of 0 0 False False = 0"
  by (simp add: word_of_def)

lemma word_of_add:
  "word_of r w rb ob + WRITE_WAITER_INCREMENT = word_of r (Suc w) rb ob"
  "word_of r w rb ob + READ_OWNER_INCREMENT = word_of (Suc r) w rb ob"
  "0 < w \<Longrightarrow> word_of r w rb ob - WRITE_WAITER_INCREMENT = word_of r (w - 1) rb ob"
  "0 < r \<Longrightarrow> word_of r w rb ob - READ_OWNER_INCREMENT = word_of (r - 1) w rb ob"
  by (simp_all add: word_of_def of_nat_diff algebra_simps)

lemma disjoint_bits:
  fixes x m :: u32
  assumes "x AND m = 0"
  shows "x OR m = x + m" "(x OR m) AND NOT m = x" "x AND NOT m = x"
proof -
  show "x OR m = x + m" using word_plus_and_or [of x m] unfolding assms add_0 .
  have "\<not> (bit x n \<and> bit m n)" for n using arg_cong [OF assms, of "\<lambda>y. bit y n"] by (simp add: bit_and_iff)
  then show "(x OR m) AND NOT m = x" "x AND NOT m = x" by (auto simp: bit_eq_iff bit_simps)
qed

lemma word_of_set:
  assumes "r < 65536" "w < 16384"
  shows "word_of r w rb False OR WRITE_OWNED_BIT = word_of r w rb True" "word_of r w rb ob OR READ_WAITER_BIT = word_of r w True ob"
    "word_of r w rb True AND NOT WRITE_OWNED_BIT = word_of r w rb False" "word_of r w rb ob AND NOT READ_WAITER_BIT = word_of r w False ob"
proof -
  note f = word_of_fields [OF assms]
  have z: "word_of r w rb False AND WRITE_OWNED_BIT = 0" "word_of r w False ob AND READ_WAITER_BIT = 0" by (simp_all only: f not_False_eq_True)
  note d = disjoint_bits [OF z(1)] disjoint_bits [OF z(2)]
  have "word_of r w rb False + WRITE_OWNED_BIT = word_of r w rb True" "word_of r w False ob + READ_WAITER_BIT = word_of r w True ob"
    by (simp_all add: word_of_def)
  then have s: "word_of r w rb False OR WRITE_OWNED_BIT = word_of r w rb True" "word_of r w False ob OR READ_WAITER_BIT = word_of r w True ob"
    by (simp_all only: d)
  then show "word_of r w rb False OR WRITE_OWNED_BIT = word_of r w rb True"
    "word_of r w rb True AND NOT WRITE_OWNED_BIT = word_of r w rb False" using d(2) by simp_all
  have "word_of r w True ob OR READ_WAITER_BIT = word_of r w True ob" unfolding s(2) [symmetric] or.assoc or.idem ..
  then show "word_of r w rb ob OR READ_WAITER_BIT = word_of r w True ob" using s(2) by (cases rb) simp_all
  show "word_of r w rb ob AND NOT READ_WAITER_BIT = word_of r w False ob" using d(5,6) unfolding s(2) by (cases rb) simp_all
qed

lemma word_of_eq_0:
  assumes "r < 65536" "w < 16384" "word_of r w rb ob = 0"
  shows "r = 0 \<and> w = 0 \<and> \<not> rb \<and> \<not> ob"
  using unat_word_of [OF assms(1,2), of rb ob] assms(3) by simp

text \<open>
  The writer count has 14 bits: the 16384th waiting writer turns it to zero and sets
  \<open>READ_WAITER_BIT\<close>.
\<close>

lemma writer_count_overflow:
  "advance (LockRegister timed) (word_of r 16383 False ob) = (LockCas timed (word_of r 0 True ob), word_of r 0 True ob)"
proof -
  have "word_of r 16383 False ob + WRITE_WAITER_INCREMENT = word_of r 0 True ob" by (simp add: word_of_def)
  then show ?thesis by (simp only: advance.simps)
qed

end
