(* ===== verification/WriteMutexSpec.thy ===== *)
theory WriteMutexSpec
  imports WriteMutex
begin

text \<open>
  The invariant of the mutex: the fields of the word count the threads by what they are doing,
  and every sleeping thread has somebody who will wake it.
\<close>

section \<open>Classes of threads\<close>

fun holds_write :: "pc \<Rightarrow> bool" where
  "holds_write WriteOwner = True"
| "holds_write UnlockLoad = True"
| "holds_write (UnlockCas e) = True"
| "holds_write _ = False"

fun holds_read :: "pc \<Rightarrow> bool" where
  "holds_read ReadOwner = True"
| "holds_read UnlockShared = True"
| "holds_read _ = False"

fun sleeping_writer :: "pc \<Rightarrow> bool" where
  "sleeping_writer (LockAsleep timed) = True"
| "sleeping_writer _ = False"

fun active_writer :: "pc \<Rightarrow> bool" where
  "active_writer (LockCas timed e) = True"
| "active_writer (LockWait timed e) = True"
| "active_writer (LockLoad timed) = True"
| "active_writer TimeoutLoad = True"
| "active_writer (TimeoutCas e) = True"
| "active_writer _ = False"

definition waiting_writer :: "pc \<Rightarrow> bool" where
  "waiting_writer p \<longleftrightarrow> sleeping_writer p \<or> active_writer p"

text \<open>What a program counter remembers of the word it saw.\<close>

fun pc_ok :: "pc \<Rightarrow> bool" where
  "pc_ok (LockWait timed e) \<longleftrightarrow> write_attempt e = None"
| "pc_ok (SharedTryCas block e) \<longleftrightarrow> \<not> read_barred e"
| "pc_ok (SharedWait e) \<longleftrightarrow> e AND READ_WAITER_BIT \<noteq> 0"
| "pc_ok _ \<longleftrightarrow> True"

definition count :: "nat \<Rightarrow> (pc \<Rightarrow> bool) \<Rightarrow> (nat \<Rightarrow> pc) \<Rightarrow> nat" where
  "count n P pcs = card {t. t < n \<and> P (pcs t)}"

lemma count_finite [simp]: "finite {t. t < (n :: nat) \<and> P (pcs t)}"
  by (rule finite_subset [of _ "{..<n}"]) auto

lemma count_le: "count n P pcs \<le> n"
  using card_mono [of "{..<n}" "{t. t < n \<and> P (pcs t)}"] by (auto simp: count_def)

lemma count_pos: "0 < count n P pcs \<longleftrightarrow> (\<exists>t < n. P (pcs t))"
  by (auto simp: count_def card_gt_0_iff)

lemma count_upd:
  assumes "t < n"
  shows "count n P (pcs(t := p)) + of_bool (P (pcs t)) = count n P pcs + of_bool (P p)"
proof -
  define A where "A = {v. v < n \<and> v \<noteq> t \<and> P (pcs v)}"
  have f: "finite A" "t \<notin> A" by (simp_all add: A_def)
  have "{v. v < n \<and> P (pcs v)} = (if P (pcs t) then insert t A else A)"
    "{v. v < n \<and> P ((pcs(t := p)) v)} = (if P p then insert t A else A)" using assms by (auto simp: A_def)
  then show ?thesis using f by (simp add: count_def)
qed

lemma count_cong: "(\<And>t. t < n \<Longrightarrow> P (pcs t) \<longleftrightarrow> P (pcs' t)) \<Longrightarrow> count n P pcs = count n P pcs'"
  unfolding count_def by (rule arg_cong [where f = card]) auto

section \<open>The invariant\<close>

text \<open>
  The word against the numbers of threads that hold the lock for reading (\<open>hr\<close>), wait for writing
  (asleep \<open>sw\<close>, active \<open>aw\<close>), hold it for writing (\<open>hw\<close>), sleep as readers (\<open>sr\<close>), or are about to
  wake readers (\<open>kr\<close>) or a writer (\<open>kw\<close>).
\<close>

definition shape :: "u32 \<Rightarrow> nat \<Rightarrow> nat \<Rightarrow> nat \<Rightarrow> nat \<Rightarrow> nat \<Rightarrow> nat \<Rightarrow> nat \<Rightarrow> bool" where
  "shape f hr sw aw hw sr kr kw \<longleftrightarrow> (\<exists>rb.
     f = word_of hr (sw + aw) rb (0 < hw) \<and> hw \<le> 1 \<and> (0 < hw \<longrightarrow> hr = 0) \<and> (rb \<longrightarrow> 0 < hw \<or> 0 < sw + aw) \<and>
     (0 < sr \<longrightarrow> rb \<or> 0 < kr) \<and> (0 < sw \<longrightarrow> 0 < hw \<or> 0 < hr \<or> 0 < kw \<or> 0 < aw))"

definition mutex_inv :: "nat \<Rightarrow> mutex_state \<Rightarrow> bool" where
  "mutex_inv n s \<longleftrightarrow> (\<forall>t < n. pc_ok (PC s t)) \<and>
     shape (Futex s) (count n holds_read (PC s)) (count n sleeping_writer (PC s)) (count n active_writer (PC s))
       (count n holds_write (PC s)) (count n (\<lambda>p. p = SharedAsleep) (PC s)) (count n (\<lambda>p. p = WakeReaders) (PC s))
       (count n (\<lambda>p. p = WakeWriter) (PC s))"

lemma count_waiting: "count n sleeping_writer pcs + count n active_writer pcs = count n waiting_writer pcs"
proof -
  have "\<not> (sleeping_writer p \<and> active_writer p)" for p by (cases p) simp_all
  then have "card ({t. t < n \<and> sleeping_writer (pcs t)} \<union> {t. t < n \<and> active_writer (pcs t)}) =
      card {t. t < n \<and> sleeping_writer (pcs t)} + card {t. t < n \<and> active_writer (pcs t)}"
    by (intro card_Un_disjoint) auto
  moreover have "{t. t < n \<and> sleeping_writer (pcs t)} \<union> {t. t < n \<and> active_writer (pcs t)} = {t. t < n \<and> waiting_writer (pcs t)}"
    by (auto simp: waiting_writer_def)
  ultimately show ?thesis by (simp add: count_def)
qed

section \<open>Steps of one thread\<close>

text \<open>
  The step of a thread with program counter \<open>p\<close>, seen from the numbers of the other threads in each
  class.
\<close>

definition shape_with :: "u32 \<Rightarrow> pc \<Rightarrow> nat \<Rightarrow> nat \<Rightarrow> nat \<Rightarrow> nat \<Rightarrow> nat \<Rightarrow> nat \<Rightarrow> nat \<Rightarrow> bool" where
  "shape_with f p hr sw aw hw sr kr kw \<longleftrightarrow>
     shape f (hr + of_bool (holds_read p)) (sw + of_bool (sleeping_writer p)) (aw + of_bool (active_writer p))
       (hw + of_bool (holds_write p)) (sr + of_bool (p = SharedAsleep)) (kr + of_bool (p = WakeReaders)) (kw + of_bool (p = WakeWriter))"

lemma shapeI:
  assumes "f = word_of hr (sw + aw) rb (0 < hw)" "hw \<le> 1" "0 < hw \<Longrightarrow> hr = 0" "rb \<Longrightarrow> 0 < hw \<or> 0 < sw + aw"
    "0 < sr \<Longrightarrow> rb \<or> 0 < kr" "0 < sw \<Longrightarrow> 0 < hw \<or> 0 < hr \<or> 0 < kw \<or> 0 < aw"
  shows "shape f hr sw aw hw sr kr kw"
  using assms unfolding shape_def by blast

lemma shapeE:
  assumes "shape f hr sw aw hw sr kr kw"
  obtains rb where "f = word_of hr (sw + aw) rb (0 < hw)" "hw \<le> 1" "0 < hw \<longrightarrow> hr = 0" "rb \<longrightarrow> 0 < hw \<or> 0 < sw + aw"
    "0 < sr \<longrightarrow> rb \<or> 0 < kr" "0 < sw \<longrightarrow> 0 < hw \<or> 0 < hr \<or> 0 < kw \<or> 0 < aw"
  using assms unfolding shape_def by (elim exE conjE) (rule that)

lemmas fields = word_of_fields word_of_set word_of_set(3,4) [simplified] word_of_add

text \<open>A writer takes a lock that is entirely free.\<close>

lemma shape_try_lock:
  assumes "shape 0 hr sw aw hw sr kr kw" "hr < 65535" "sw + aw < 16383"
  shows "shape WRITE_OWNED_BIT hr sw aw (Suc hw) sr kr kw"
proof -
  from assms(1) obtain rb where f: "0 = word_of hr (sw + aw) rb (0 < hw)" and sr: "0 < sr \<longrightarrow> rb \<or> 0 < kr" by (rule shapeE)
  have "hr = 0 \<and> sw + aw = 0 \<and> \<not> rb \<and> \<not> 0 < hw" using word_of_eq_0 [OF _ _ f [symmetric]] assms(2,3) by simp
  then show ?thesis using sr by (intro shapeI [where rb = False]) (simp_all add: word_of_def)
qed

lemma shape_register:
  assumes "shape f hr sw aw hw sr kr kw"
  shows "shape (f + WRITE_WAITER_INCREMENT) hr sw (Suc aw) hw sr kr kw"
proof -
  from assms obtain rb where "f = word_of hr (sw + aw) rb (0 < hw)" "hw \<le> 1" "0 < hw \<longrightarrow> hr = 0" "0 < sr \<longrightarrow> rb \<or> 0 < kr"
    by (rule shapeE)
  then show ?thesis by (intro shapeI [where rb = rb]) (simp_all add: word_of_add)
qed

lemma shape_acquire:
  assumes "shape e hr sw (Suc aw) hw sr kr kw" "hr < 65535" "sw + aw < 16383" "write_attempt e = Some d"
  shows "shape d hr sw aw (Suc hw) sr kr kw"
proof -
  from assms(1) obtain rb where e: "e = word_of hr (Suc (sw + aw)) rb (0 < hw)" and sr: "0 < sr \<longrightarrow> rb \<or> 0 < kr"
    by (rule shapeE) simp
  have free: "hw = 0" "hr = 0" using assms(2-4) unfolding e write_attempt_def by (auto simp: fields split: if_splits)
  have "d = (word_of 0 (Suc (sw + aw)) rb False OR WRITE_OWNED_BIT) - WRITE_WAITER_INCREMENT"
    using assms(4) free unfolding e write_attempt_def by (auto split: if_splits)
  also have "\<dots> = word_of 0 (sw + aw) rb True" using assms(3) by (simp add: fields)
  finally show ?thesis using free sr by (intro shapeI [where rb = rb]) simp_all
qed

text \<open>A writer goes to sleep only while somebody holds the lock.\<close>

lemma shape_writer_sleeps:
  assumes "shape e hr sw (Suc aw) hw sr kr kw" "hr < 65535" "sw + aw < 16383" "write_attempt e = None"
  shows "shape e hr (Suc sw) aw hw sr kr kw"
proof -
  from assms(1) obtain rb where e: "e = word_of hr (Suc (sw + aw)) rb (0 < hw)" and
    inv: "hw \<le> 1" "0 < hw \<longrightarrow> hr = 0" "0 < sr \<longrightarrow> rb \<or> 0 < kr" by (rule shapeE) simp
  have "0 < hw \<or> 0 < hr" using assms(2-4) unfolding e write_attempt_def by (auto simp: fields split: if_splits)
  then show ?thesis using inv e by (intro shapeI [where rb = rb]) auto
qed

text \<open>A writer that timed out withdraws and settles the handoff it owes.\<close>

lemma shape_withdraw:
  assumes "shape e hr sw (Suc aw) hw sr kr kw" "hr < 65535" "sw + aw < 16383" "withdraw_value e = (k, d)"
  shows "if k then shape d hr sw aw hw sr (Suc kr) kw
    else if d AND WRITE_WAITER_COUNT_MASK \<noteq> 0 \<and> d AND WRITE_OWNED_BIT = 0 \<and> d AND READ_OWNER_COUNT_MASK = 0
    then shape d hr sw aw hw sr kr (Suc kw) else shape d hr sw aw hw sr kr kw"
proof -
  from assms(1) obtain rb where e: "e = word_of hr (Suc (sw + aw)) rb (0 < hw)" and
    inv: "hw \<le> 1" "0 < hw \<longrightarrow> hr = 0" "0 < sr \<longrightarrow> rb \<or> 0 < kr" by (rule shapeE) simp
  have d: "e - WRITE_WAITER_INCREMENT = word_of hr (sw + aw) rb (0 < hw)" unfolding e by (simp add: word_of_add)
  show ?thesis
  proof (cases "sw + aw = 0 \<and> rb \<and> hw = 0")
    case True
    then have "withdraw_value e = (True, word_of hr 0 False False)"
      unfolding withdraw_value_def d Let_def using assms(2) by (simp add: fields)
    then show ?thesis using assms(4) True inv by (auto intro!: shapeI [where rb = False])
  next
    case False
    then have v: "withdraw_value e = (False, word_of hr (sw + aw) rb (0 < hw))"
      unfolding withdraw_value_def d Let_def using assms(2,3) by (simp add: fields)
    then have r: "\<not> k" "d = word_of hr (sw + aw) rb (0 < hw)" using assms(4) by simp_all
    then have "if sw + aw \<noteq> 0 \<and> hw = 0 \<and> hr = 0 then shape d hr sw aw hw sr kr (Suc kw) else shape d hr sw aw hw sr kr kw"
      using False inv by (auto intro!: shapeI [where rb = rb])
    moreover have "d AND WRITE_WAITER_COUNT_MASK = 0 \<longleftrightarrow> sw + aw = 0" "d AND READ_OWNER_COUNT_MASK = 0 \<longleftrightarrow> hr = 0"
      "d AND WRITE_OWNED_BIT = 0 \<longleftrightarrow> hw = 0" unfolding r using assms(2,3) by (simp_all add: fields)
    ultimately show ?thesis using r(1) by simp
  qed
qed

lemma shape_unlock:
  assumes "shape e hr sw aw (Suc hw) sr kr kw" "sw + aw < 16383"
  shows "if e AND WRITE_WAITER_COUNT_MASK \<noteq> 0 then shape (unlock_value e) hr sw aw hw sr kr (Suc kw)
    else if e AND READ_WAITER_BIT \<noteq> 0 then shape (unlock_value e) hr sw aw hw sr (Suc kr) kw
    else shape (unlock_value e) hr sw aw hw sr kr kw"
proof -
  from assms(1) obtain rb where own: "hw = 0" "hr = 0" and e: "e = word_of 0 (sw + aw) rb True" and sr: "0 < sr \<longrightarrow> rb \<or> 0 < kr"
    by (rule shapeE) simp
  have v: "unlock_value e = word_of 0 (sw + aw) (rb \<and> sw + aw \<noteq> 0) False"
    using assms(2) unfolding e by (auto simp: unlock_value_def Let_def fields)
  have "if sw + aw \<noteq> 0 then shape (unlock_value e) hr sw aw hw sr kr (Suc kw)
    else if rb then shape (unlock_value e) hr sw aw hw sr (Suc kr) kw else shape (unlock_value e) hr sw aw hw sr kr kw"
    unfolding v using own sr by (auto intro!: shapeI [where rb = "rb \<and> sw + aw \<noteq> 0"])
  moreover have "e AND WRITE_WAITER_COUNT_MASK = 0 \<longleftrightarrow> sw + aw = 0" "e AND READ_WAITER_BIT = 0 \<longleftrightarrow> \<not> rb"
    unfolding e using assms(2) by (simp_all add: fields)
  ultimately show ?thesis by (auto split: if_splits)
qed

lemma shape_read:
  assumes "shape e hr sw aw hw sr kr kw" "hr < 65535" "sw + aw < 16383" "\<not> read_barred e"
  shows "shape (e + READ_OWNER_INCREMENT) (Suc hr) sw aw hw sr kr kw"
proof -
  from assms(1) obtain rb where e: "e = word_of hr (sw + aw) rb (0 < hw)" and
    inv: "rb \<longrightarrow> 0 < hw \<or> 0 < sw + aw" "0 < sr \<longrightarrow> rb \<or> 0 < kr" by (rule shapeE)
  have "hw = 0" "sw + aw = 0" using assms(2-4) unfolding e read_barred_def by (auto simp: fields)
  then show ?thesis using inv unfolding e by (intro shapeI [where rb = rb]) (simp_all add: word_of_add)
qed

lemma shape_read_waits:
  assumes "shape e hr sw aw hw sr kr kw" "hr < 65535" "sw + aw < 16383" "read_barred e"
  shows "shape (e OR READ_WAITER_BIT) hr sw aw hw sr kr kw" "(e OR READ_WAITER_BIT) AND READ_WAITER_BIT \<noteq> 0"
proof -
  from assms(1) obtain rb where e: "e = word_of hr (sw + aw) rb (0 < hw)" and inv: "hw \<le> 1" "0 < hw \<longrightarrow> hr = 0"
    "0 < sw \<longrightarrow> 0 < hw \<or> 0 < hr \<or> 0 < kw \<or> 0 < aw" by (rule shapeE)
  have v: "e OR READ_WAITER_BIT = word_of hr (sw + aw) True (0 < hw)" unfolding e using assms(2,3) by (simp add: fields)
  then show "(e OR READ_WAITER_BIT) AND READ_WAITER_BIT \<noteq> 0" using assms(2,3) by (simp add: fields)
  have "0 < hw \<or> 0 < sw + aw" using assms(2-4) unfolding e read_barred_def by (auto simp: fields)
  then show "shape (e OR READ_WAITER_BIT) hr sw aw hw sr kr kw" unfolding v using inv by (intro shapeI [where rb = True]) auto
qed

lemma shape_reader_sleeps:
  assumes "shape e hr sw aw hw sr kr kw" "hr < 65535" "sw + aw < 16383" "e AND READ_WAITER_BIT \<noteq> 0"
  shows "shape e hr sw aw hw (Suc sr) kr kw"
proof -
  from assms(1) obtain rb where e: "e = word_of hr (sw + aw) rb (0 < hw)" and inv: "hw \<le> 1" "0 < hw \<longrightarrow> hr = 0"
    "rb \<longrightarrow> 0 < hw \<or> 0 < sw + aw" "0 < sw \<longrightarrow> 0 < hw \<or> 0 < hr \<or> 0 < kw \<or> 0 < aw" by (rule shapeE)
  have rb using assms(2-4) unfolding e by (simp add: fields)
  then show ?thesis using inv e by (intro shapeI [where rb = rb]) auto
qed

lemma shape_unlock_shared:
  assumes "shape f (Suc hr) sw aw hw sr kr kw" "hr < 65535" "sw + aw < 16383"
  defines "d \<equiv> f - READ_OWNER_INCREMENT"
  shows "if d AND WRITE_WAITER_COUNT_MASK \<noteq> 0 \<and> d AND READ_OWNER_COUNT_MASK = 0 then shape d hr sw aw hw sr kr (Suc kw)
    else shape d hr sw aw hw sr kr kw"
proof -
  from assms(1) obtain rb where own: "hw = 0" and f: "f = word_of (Suc hr) (sw + aw) rb False" and
    inv: "rb \<longrightarrow> 0 < sw + aw" "0 < sr \<longrightarrow> rb \<or> 0 < kr" by (rule shapeE) auto
  have d: "d = word_of hr (sw + aw) rb False" unfolding d_def f by (simp add: word_of_add)
  have "if sw + aw \<noteq> 0 \<and> hr = 0 then shape d hr sw aw hw sr kr (Suc kw) else shape d hr sw aw hw sr kr kw"
    unfolding d using own inv by (auto intro!: shapeI [where rb = rb])
  moreover have "d AND WRITE_WAITER_COUNT_MASK = 0 \<longleftrightarrow> sw + aw = 0" "d AND READ_OWNER_COUNT_MASK = 0 \<longleftrightarrow> hr = 0"
    unfolding d using assms(2,3) by (simp_all add: fields)
  ultimately show ?thesis by simp
qed

lemma run_shape:
  assumes "advance p f = (p', f')" "pc_ok p" "shape_with f p hr sw aw hw sr kr kw" "hr < 65535" "sw + aw < 16383"
  shows "shape_with f' p' hr sw aw hw sr kr kw \<and> pc_ok p'"
proof (cases p)
  case (LockTry timed)
  then show ?thesis using assms shape_try_lock [of hr sw aw hw sr kr kw] by (auto simp: shape_with_def split: if_splits)
next
  case TryLock
  then show ?thesis using assms shape_try_lock [of hr sw aw hw sr kr kw] by (auto simp: shape_with_def split: if_splits)
next
  case (LockRegister timed)
  then show ?thesis using assms shape_register [of f hr sw aw hw sr kr kw] by (auto simp: shape_with_def)
next
  case (LockCas timed e)
  then show ?thesis using assms shape_acquire [of f hr sw aw hw sr kr kw] by (auto simp: shape_with_def split: if_splits option.splits)
next
  case (LockWait timed e)
  then show ?thesis using assms shape_writer_sleeps [of f hr sw aw hw sr kr kw] by (auto simp: shape_with_def split: if_splits)
next
  case (TimeoutCas e)
  then show ?thesis using assms shape_withdraw [of f hr sw aw hw sr kr kw]
    by (cases "withdraw_value e") (auto simp: shape_with_def split: if_splits)
next
  case (UnlockCas e)
  then show ?thesis using assms shape_unlock [of f hr sw aw hw sr kr kw] by (auto simp: shape_with_def split: if_splits)
next
  case (SharedTryLoad block)
  then show ?thesis using assms by (cases block) (auto simp: shape_with_def split: if_splits)
next
  case (SharedTryCas block e)
  then show ?thesis using assms shape_read [of f hr sw aw hw sr kr kw] by (cases block) (auto simp: shape_with_def split: if_splits)
next
  case (SharedCas e)
  then show ?thesis using assms shape_read [of f hr sw aw hw sr kr kw] shape_read_waits [of f hr sw aw hw sr kr kw]
    by (cases "read_barred e") (auto simp: shape_with_def read_attempt_def read_barred_def split: if_splits)
next
  case (SharedWait e)
  then show ?thesis using assms shape_reader_sleeps [of f hr sw aw hw sr kr kw] by (auto simp: shape_with_def split: if_splits)
next
  case UnlockShared
  then show ?thesis using assms shape_unlock_shared [of f hr sw aw hw sr kr kw] by (auto simp: shape_with_def Let_def split: if_splits)
qed (use assms in \<open>auto simp: shape_with_def\<close>)

section \<open>Steps of the machine\<close>

definition others :: "nat \<Rightarrow> (pc \<Rightarrow> bool) \<Rightarrow> (nat \<Rightarrow> pc) \<Rightarrow> nat \<Rightarrow> nat" where
  "others n P pcs t = card {v. v < n \<and> v \<noteq> t \<and> P (pcs v)}"

lemma count_others:
  assumes "t < n"
  shows "count n P pcs = others n P pcs t + of_bool (P (pcs t))"
proof -
  have "{v. v < n \<and> P (pcs v)} = (if P (pcs t) then insert t {v. v < n \<and> v \<noteq> t \<and> P (pcs v)} else {v. v < n \<and> v \<noteq> t \<and> P (pcs v)})"
    using assms by auto
  then show ?thesis by (simp add: count_def others_def)
qed

lemma others_upd [simp]: "others n P (pcs(t := p)) t = others n P pcs t"
  unfolding others_def by (rule arg_cong [where f = card]) auto

lemma others_less: "t < n \<Longrightarrow> others n P pcs t < n"
  using psubset_card_mono [of "{..<n}" "{v. v < n \<and> v \<noteq> t \<and> P (pcs v)}"] by (auto simp: others_def)

lemma others_pos: "0 < others n P pcs t \<longleftrightarrow> (\<exists>v < n. v \<noteq> t \<and> P (pcs v))"
  by (auto simp: others_def card_gt_0_iff)

lemma others_waiting: "t < n \<Longrightarrow> others n sleeping_writer pcs t + others n active_writer pcs t < n"
proof -
  assume t: "t < n"
  define q where "q = pcs(t := Idle)"
  have "others n P pcs t = count n P q" if "\<not> P Idle" for P using count_others [OF t, of P q] that by (simp add: q_def)
  then have "others n sleeping_writer pcs t + others n active_writer pcs t = count n waiting_writer q" by (simp add: count_waiting)
  moreover have "count n waiting_writer q < n" using count_others [OF t, of waiting_writer q] others_less [OF t, of waiting_writer q]
    by (simp add: q_def waiting_writer_def)
  ultimately show ?thesis by simp
qed

text \<open>The invariant, seen from one thread.\<close>

definition shape_at :: "nat \<Rightarrow> (nat \<Rightarrow> pc) \<Rightarrow> nat \<Rightarrow> u32 \<Rightarrow> pc \<Rightarrow> bool" where
  "shape_at n pcs t f p \<longleftrightarrow>
     shape_with f p (others n holds_read pcs t) (others n sleeping_writer pcs t) (others n active_writer pcs t) (others n holds_write pcs t)
       (others n (\<lambda>p. p = SharedAsleep) pcs t) (others n (\<lambda>p. p = WakeReaders) pcs t) (others n (\<lambda>p. p = WakeWriter) pcs t)"

lemma mutex_inv_at:
  assumes "t < n"
  shows "mutex_inv n s \<longleftrightarrow> (\<forall>v < n. pc_ok (PC s v)) \<and> shape_at n (PC s) t (Futex s) (PC s t)"
  unfolding mutex_inv_def shape_at_def shape_with_def by (simp add: count_others [OF assms])

lemma mutex_inv_upd:
  assumes "t < n" "mutex_inv n s" "shape_at n (PC s) t (Futex s) (PC s t) \<Longrightarrow> shape_at n (PC s) t f p \<and> pc_ok p"
  shows "mutex_inv n \<lparr>Futex = f, PC = (PC s)(t := p)\<rparr>"
  using assms(2,3) unfolding mutex_inv_at [OF assms(1)] shape_at_def by simp

lemma inv_run:
  assumes "mutex_inv n s" "t < n" "n < 16384" "advance (PC s t) (Futex s) = (p, f)"
  shows "mutex_inv n \<lparr>Futex = f, PC = (PC s)(t := p)\<rparr>"
proof (rule mutex_inv_upd [OF assms(2,1)])
  assume a: "shape_at n (PC s) t (Futex s) (PC s t)"
  have "others n holds_read (PC s) t < 65535" "others n sleeping_writer (PC s) t + others n active_writer (PC s) t < 16383"
    using others_less [OF assms(2), of holds_read "PC s"] others_waiting [OF assms(2), of "PC s"] assms(3) by simp_all
  moreover have "pc_ok (PC s t)" using assms(1,2) by (simp add: mutex_inv_def)
  ultimately show "shape_at n (PC s) t f p \<and> pc_ok p" using run_shape [OF assms(4) _ a [unfolded shape_at_def]] unfolding shape_at_def by simp
qed

lemma inv_call:
  assumes "mutex_inv n s" "t < n" "p \<in> set (calls (PC s t))"
  shows "mutex_inv n \<lparr>Futex = Futex s, PC = (PC s)(t := p)\<rparr>"
  by (rule mutex_inv_upd [OF assms(2,1)], use assms(3) in \<open>cases "PC s t"\<close>) (auto simp: shape_at_def shape_with_def)

lemma shape_rouse: "shape f hr (Suc sw) aw hw sr kr kw \<Longrightarrow> shape f hr sw (Suc aw) hw sr kr kw"
  by (erule shapeE, rule shapeI) auto

lemma shape_rouse_reader: "shape f hr sw aw hw (Suc sr) kr kw \<Longrightarrow> shape f hr sw aw hw sr kr kw"
  by (erule shapeE, rule shapeI) auto

lemma inv_rouse:
  assumes "mutex_inv n s" "t < n" "PC s t = LockAsleep timed" "active_writer p" "pc_ok p"
  shows "mutex_inv n \<lparr>Futex = Futex s, PC = (PC s)(t := p)\<rparr>"
proof -
  have "\<not> holds_read p \<and> \<not> holds_write p \<and> \<not> sleeping_writer p \<and> p \<noteq> SharedAsleep \<and> p \<noteq> WakeReaders \<and> p \<noteq> WakeWriter"
    using assms(4) by (cases p) simp_all
  then show ?thesis using mutex_inv_upd [OF assms(2,1), of "Futex s" p] assms(3,4,5)
    by (auto simp: shape_at_def shape_with_def intro: shape_rouse)
qed

lemma inv_rouse_reader:
  assumes "mutex_inv n s" "t < n" "PC s t = SharedAsleep"
  shows "mutex_inv n \<lparr>Futex = Futex s, PC = (PC s)(t := SharedLoad)\<rparr>"
  by (rule mutex_inv_upd [OF assms(2,1)]) (auto simp: assms(3) shape_at_def shape_with_def intro: shape_rouse_reader)

text \<open>A waker may leave once a writer is awake, or none sleeps.\<close>

lemma inv_waker_leaves:
  assumes "mutex_inv n s" "t < n" "PC s t = WakeWriter" "(\<exists>v < n. active_writer (PC s v)) \<or> (\<forall>v < n. \<not> sleeping_writer (PC s v))"
  shows "mutex_inv n \<lparr>Futex = Futex s, PC = (PC s)(t := Idle)\<rparr>"
proof (rule mutex_inv_upd [OF assms(2,1)])
  let ?o = "\<lambda>P. others n P (PC s) t"
  have *: "0 < ?o active_writer \<or> ?o sleeping_writer = 0"
  proof (cases "\<exists>v < n. active_writer (PC s v)")
    case True
    then obtain v where v: "v < n" "active_writer (PC s v)" by blast
    then have "v \<noteq> t" using assms(3) by auto
    then show ?thesis using v by (auto simp: others_pos)
  next
    case False
    then show ?thesis using assms(4) by (auto simp: others_def)
  qed
  have "shape f hr sw aw hw sr kr (Suc kw) \<Longrightarrow> 0 < aw \<or> sw = 0 \<Longrightarrow> shape f hr sw aw hw sr kr kw" for f hr sw aw hw sr kr kw
    by (erule shapeE, rule shapeI) auto
  then show "shape_at n (PC s) t (Futex s) (PC s t) \<Longrightarrow> shape_at n (PC s) t (Futex s) Idle \<and> pc_ok Idle"
    using * unfolding shape_at_def shape_with_def assms(3) by simp
qed

lemma inv_wake_readers:
  assumes "mutex_inv n s" "t < n" "PC s t = WakeReaders"
  shows "mutex_inv n \<lparr>Futex = Futex s, PC = (\<lambda>v. woken_reader (((PC s)(t := Idle)) v))\<rparr>"
proof -
  define q where "q = (PC s)(t := Idle)"
  have w: "P (woken_reader p) \<longleftrightarrow> P p" if "\<not> P SharedAsleep" "\<not> P SharedLoad" for P p
    using that by (simp add: woken_reader_def)
  have o: "others n P (\<lambda>v. woken_reader (q v)) t = others n P (PC s) t" if "\<not> P SharedAsleep" "\<not> P SharedLoad" for P
    unfolding others_def q_def by (rule arg_cong [where f = card]) (auto simp: w [of P] that)
  have z: "others n (\<lambda>p. p = SharedAsleep) (\<lambda>v. woken_reader (q v)) t = 0"
    unfolding others_def by (simp add: woken_reader_def)
  have k: "shape f hr sw aw hw sr kr kw \<Longrightarrow> shape f hr sw aw hw 0 kr' kw" for f hr sw aw hw sr kr kw kr'
    unfolding shape_def by (elim exE conjE) (intro exI conjI, assumption, simp_all)
  have i: "woken_reader (q t) = Idle" by (simp add: q_def woken_reader_def)
  have "pc_ok (woken_reader p)" if "pc_ok p" for p using that by (simp add: woken_reader_def)
  then have "\<forall>v < n. pc_ok (woken_reader (q v))" using assms(1) by (simp add: mutex_inv_def q_def)
  moreover have "shape_at n (PC s) t (Futex s) (PC s t)" using assms(1) unfolding mutex_inv_at [OF assms(2)] by simp
  then have "shape_at n (\<lambda>v. woken_reader (q v)) t (Futex s) Idle"
    unfolding shape_at_def shape_with_def assms(3) by (simp add: o z k)
  ultimately show ?thesis unfolding mutex_inv_at [OF assms(2)] q_def [symmetric] by (simp add: i)
qed

lemma set_PC: "s\<lparr>PC := p\<rparr> = \<lparr>Futex = Futex s, PC = p\<rparr>"
  by (cases s) simp

theorem mutex_step_inv:
  assumes "mutex_step n s s'" "mutex_inv n s" "n < 16384"
  shows "mutex_inv n s'"
  using assms(1)
proof cases
  case (call t p)
  then show ?thesis using inv_call [OF assms(2)] by (simp add: set_PC)
next
  case (run t p f)
  then show ?thesis using inv_run [OF assms(2) _ assms(3)] by simp
next
  case (wake_writer t v timed)
  define m where "m = \<lparr>Futex = Futex s, PC = (PC s)(v := LockLoad timed)\<rparr>"
  have ne: "t \<noteq> v" using wake_writer by auto
  have "mutex_inv n m" unfolding m_def by (rule inv_rouse [OF assms(2)]) (use wake_writer in auto)
  then have "mutex_inv n \<lparr>Futex = Futex m, PC = (PC m)(t := Idle)\<rparr>"
    by (rule inv_waker_leaves) (use wake_writer ne in \<open>auto simp: m_def\<close>)
  then show ?thesis using wake_writer ne by (simp add: m_def set_PC fun_upd_twist)
next
  case (wake_no_writer t)
  have "\<forall>v < n. \<not> sleeping_writer (PC s v)" using wake_no_writer(4) by (metis sleeping_writer.elims(2))
  then show ?thesis using inv_waker_leaves [OF assms(2)] wake_no_writer by (simp add: set_PC)
next
  case (wake_readers t)
  then show ?thesis using inv_wake_readers [OF assms(2)] by (simp add: set_PC)
next
  case (spurious_writer t timed)
  then show ?thesis using inv_rouse [OF assms(2), of t timed "LockLoad timed"] by (simp add: set_PC)
next
  case (spurious_reader t)
  then show ?thesis using inv_rouse_reader [OF assms(2)] by (simp add: set_PC)
next
  case (timeout t)
  then show ?thesis using inv_rouse [OF assms(2), of t True TimeoutLoad] by (simp add: set_PC)
qed

lemma mutex_reach_inv:
  assumes "mutex_reach n s" "n < 16384"
  shows "mutex_inv n s"
  using assms(1)
proof induction
  case start
  show ?case by (auto simp: Mutex_def mutex_inv_def count_def shape_def word_of_zero intro!: exI [of _ False])
next
  case (step s s')
  then show ?case using mutex_step_inv assms(2) by blast
qed

section \<open>The promises of the mutex\<close>

fun asleep :: "pc \<Rightarrow> bool" where
  "asleep (LockAsleep timed) = True"
| "asleep SharedAsleep = True"
| "asleep _ = False"

lemma shape_of_reach:
  assumes "mutex_reach n s" "n < 16384"
  obtains rb where "Futex s = word_of (count n holds_read (PC s)) (count n waiting_writer (PC s)) rb (0 < count n holds_write (PC s))"
    "count n holds_write (PC s) \<le> 1" "0 < count n holds_write (PC s) \<longrightarrow> count n holds_read (PC s) = 0"
    "count n holds_read (PC s) < 65536" "count n waiting_writer (PC s) < 16384"
proof -
  have "count n holds_read (PC s) < 65536" "count n waiting_writer (PC s) < 16384"
    using assms(2) count_le [of n holds_read "PC s"] count_le [of n waiting_writer "PC s"] by simp_all
  with mutex_reach_inv [OF assms] show ?thesis unfolding mutex_inv_def count_waiting [symmetric]
    by (elim conjE shapeE) (rule that [unfolded count_waiting [symmetric]])
qed

lemma sleeper_has_waker:
  assumes "mutex_reach n s" "n < 16384" "t < n" "asleep (PC s t)"
  shows "\<exists>v < n. holds_write (PC s v) \<or> holds_read (PC s v) \<or> active_writer (PC s v) \<or> PC s v = WakeWriter \<or> PC s v = WakeReaders"
proof -
  let ?c = "\<lambda>P. count n P (PC s)"
  have "0 < ?c sleeping_writer \<or> 0 < ?c (\<lambda>p. p = SharedAsleep)" using assms(3,4) unfolding count_pos by (cases "PC s t") auto
  then have "0 < ?c holds_write \<or> 0 < ?c holds_read \<or> 0 < ?c active_writer \<or> 0 < ?c (\<lambda>p. p = WakeWriter) \<or> 0 < ?c (\<lambda>p. p = WakeReaders)"
    using mutex_reach_inv [OF assms(1,2)] unfolding mutex_inv_def by (elim conjE shapeE) auto
  then show ?thesis unfolding count_pos by blast
qed

lemma advance_read:
  assumes "advance p f = (p', f')" "pc_ok p" "holds_read p'"
  shows "holds_read p \<or> \<not> read_barred f"
  using assms by (cases p) (auto simp: Let_def read_attempt_def read_barred_def split: if_splits option.splits prod.splits)

lemma waiting_writer_bars:
  assumes "mutex_reach n s" "n < 16384" "v < n" "waiting_writer (PC s v)"
  shows "read_barred (Futex s)"
proof -
  obtain rb where f: "Futex s = word_of (count n holds_read (PC s)) (count n waiting_writer (PC s)) rb (0 < count n holds_write (PC s))"
    and b: "count n holds_read (PC s) < 65536" "count n waiting_writer (PC s) < 16384" by (rule shape_of_reach [OF assms(1,2)])
  have "0 < count n waiting_writer (PC s)" using assms(3,4) by (auto simp: count_pos)
  then show ?thesis using word_of_fields(4) [OF b, of rb "0 < count n holds_write (PC s)"] unfolding read_barred_def f by simp
qed

end
