(* ===== verification/WriteMutexLive.thy ===== *)
theory WriteMutexLive
  imports WriteMutexSpec
begin

text \<open>
  The mutex never deadlocks. From every reachable state the threads that are not asleep can,
  by releasing what they own and finishing the calls they are in, bring every thread back to
  idle: no spurious wake-up, no timeout and no new call is needed.
\<close>

section \<open>Steps that only finish what was begun\<close>

inductive settle :: "nat \<Rightarrow> mutex_state \<Rightarrow> mutex_state \<Rightarrow> bool" for n :: nat where
  unlock: "\<lbrakk>t < n; PC s t = WriteOwner\<rbrakk> \<Longrightarrow> settle n s (s\<lparr>PC := (PC s)(t := UnlockLoad)\<rparr>)"
| unlock_shared: "\<lbrakk>t < n; PC s t = ReadOwner\<rbrakk> \<Longrightarrow> settle n s (s\<lparr>PC := (PC s)(t := UnlockShared)\<rparr>)"
| run: "\<lbrakk>t < n; advance (PC s t) (Futex s) = (p, f)\<rbrakk> \<Longrightarrow> settle n s \<lparr>Futex = f, PC = (PC s)(t := p)\<rparr>"
| wake_writer: "\<lbrakk>t < n; PC s t = WakeWriter; v < n; PC s v = LockAsleep timed\<rbrakk> \<Longrightarrow>
    settle n s (s\<lparr>PC := (PC s)(t := Idle, v := LockLoad timed)\<rparr>)"
| wake_no_writer: "\<lbrakk>t < n; PC s t = WakeWriter; \<forall>v < n. \<forall>timed. PC s v \<noteq> LockAsleep timed\<rbrakk> \<Longrightarrow>
    settle n s (s\<lparr>PC := (PC s)(t := Idle)\<rparr>)"
| wake_readers: "\<lbrakk>t < n; PC s t = WakeReaders\<rbrakk> \<Longrightarrow>
    settle n s (s\<lparr>PC := (\<lambda>v. woken_reader (((PC s)(t := Idle)) v))\<rparr>)"

lemma settle_step: "settle n s s' \<Longrightarrow> mutex_step n s s'"
  by (induction rule: settle.induct) (auto intro: mutex_step.intros simp del: fun_upd_apply)

lemma settles_reach: "(settle n)\<^sup>*\<^sup>* s s' \<Longrightarrow> mutex_reach n s \<Longrightarrow> mutex_reach n s'"
  by (induction rule: rtranclp_induct) (auto intro: mutex_reach.step settle_step)

section \<open>A thread that runs alone\<close>

text \<open>Where a thread stops: outside the mutex, as an owner, asleep, or about to wake others.\<close>

fun settled :: "pc \<Rightarrow> bool" where
  "settled Idle = True"
| "settled WriteOwner = True"
| "settled ReadOwner = True"
| "settled (LockAsleep timed) = True"
| "settled SharedAsleep = True"
| "settled WakeWriter = True"
| "settled WakeReaders = True"
| "settled _ = False"

inductive alone :: "pc \<Rightarrow> u32 \<Rightarrow> pc \<Rightarrow> u32 \<Rightarrow> bool" where
  rest: "settled p \<Longrightarrow> alone p f p f"
| move: "\<lbrakk>advance p f = (p', f'); alone p' f' p'' f''\<rbrakk> \<Longrightarrow> alone p f p'' f''"

lemma alone_settled: "alone p f p' f' \<Longrightarrow> settled p'"
  by (induction rule: alone.induct)

lemma alone_settles:
  assumes "alone p f p' f'" "t < n"
  shows "PC s t = p \<Longrightarrow> Futex s = f \<Longrightarrow> (settle n)\<^sup>*\<^sup>* s \<lparr>Futex = f', PC = (PC s)(t := p')\<rparr>"
  using assms
proof (induction arbitrary: s rule: alone.induct)
  case (rest p f)
  have "\<lparr>Futex = f, PC = (PC s)(t := p)\<rparr> = s" using rest.prems(1,2) by (cases s) (auto simp: fun_upd_idem_iff)
  then show ?case by (simp only: rtranclp.rtrancl_refl)
next
  case (move p f q g p'' f'')
  let ?m = "\<lparr>Futex = g, PC = (PC s)(t := q)\<rparr>"
  have "settle n s ?m" using move.hyps(1) move.prems by (auto intro!: settle.run)
  moreover have "(settle n)\<^sup>*\<^sup>* ?m \<lparr>Futex = f'', PC = (PC ?m)(t := p'')\<rparr>" by (rule move.IH) (use move.prems in simp_all)
  ultimately show ?case by (simp add: converse_rtranclp_into_rtranclp del: fun_upd_apply)
qed

abbreviation settles :: "pc \<Rightarrow> u32 \<Rightarrow> bool" where "settles p f \<equiv> \<exists>p' f'. alone p f p' f'"

lemma settles_move: "advance p f = (p', f') \<Longrightarrow> settles p' f' \<Longrightarrow> settles p f"
  by (blast intro: alone.move)

lemma settles_rest: "settled p \<Longrightarrow> settles p f"
  by (blast intro: alone.rest)

lemma settles_wait: "settles (LockWait timed f) f" "settles (SharedWait f) f"
  by (rule settles_move, simp, rule settles_rest, simp)+

lemma settles_fresh: "settles (LockCas timed f) f" "settles (SharedCas f) f"
proof -
  show "settles (LockCas timed f) f"
    by (cases "write_attempt f"; rule settles_move, simp) (simp_all add: settles_wait settles_rest)
  show "settles (SharedCas f) f"
    by (cases "read_attempt f"; cases "fst (read_attempt f)"; rule settles_move, simp) (simp_all add: settles_wait settles_rest)
qed

lemma settles_load: "settles (LockLoad timed) f" "settles SharedLoad f"
  by (rule settles_move, simp, rule settles_fresh)+

lemma settles_stale: "settles (LockWait timed e) f" "settles (SharedWait e) f"
  by (cases "f = e"; rule settles_move, simp, simp add: settles_load settles_rest)+

lemma settles_cas: "settles (LockCas timed e) f" "settles (SharedCas e) f"
proof -
  show "settles (LockCas timed e) f"
    by (cases "f = e"; cases "write_attempt e"; rule settles_move, simp) (simp_all add: settles_stale settles_rest settles_fresh)
  show "settles (SharedCas e) f"
    by (cases "f = e"; cases "read_attempt e"; cases "fst (read_attempt e)"; rule settles_move, simp)
      (simp_all add: settles_stale settles_rest settles_fresh)
qed

text \<open>The calls that end in a bounded number of accesses of their own.\<close>

lemma settles_lock: "settles (LockRegister timed) f" "settles (LockTry timed) f" "settles TryLock f"
proof -
  show r: "settles (LockRegister timed) f" for timed f by (rule settles_move, simp, rule settles_cas)
  show "settles (LockTry timed) f" by (cases "f = 0"; rule settles_move, simp) (simp_all add: settles_rest r)
  show "settles TryLock f" by (cases "f = 0"; rule settles_move, simp) (simp_all add: settles_rest)
qed

lemma settles_timeout: "settles (TimeoutCas e) f" "settles TimeoutLoad f"
proof -
  have fresh: "settles (TimeoutCas f) f" for f by (cases "withdraw_value f"; rule settles_move, simp) (simp add: settles_rest)
  show "settles (TimeoutCas e) f" using fresh [of f] settles_move [of "TimeoutCas e" f "TimeoutCas f" f]
    by (cases "f = e"; cases "withdraw_value e") simp_all
  show "settles TimeoutLoad f" by (rule settles_move, simp, rule fresh)
qed

lemma settles_unlock: "settles (UnlockCas e) f" "settles UnlockLoad f" "settles UnlockShared f"
proof -
  have fresh: "settles (UnlockCas f) f" for f by (rule settles_move, simp, simp add: settles_rest)
  show "settles (UnlockCas e) f" using fresh [of f] settles_move [of "UnlockCas e" f "UnlockCas f" f] by (cases "f = e") simp_all
  show "settles UnlockLoad f" by (rule settles_move, simp, rule fresh)
  show "settles UnlockShared f" by (rule settles_move, simp add: Let_def, simp add: settles_rest)
qed

lemma settles_shared: "settles (SharedTryCas block e) f" "settles (SharedTryLoad block) f"
proof -
  show c: "settles (SharedTryCas block e) f" for block e f
    by (cases "f = e"; cases block; rule settles_move, simp) (simp_all add: settles_rest settles_load)
  show "settles (SharedTryLoad block) f"
    by (cases "read_barred f"; cases block; rule settles_move, simp) (simp_all add: settles_rest settles_load c)
qed

lemma settles_all: "settles p f"
  by (cases p) (simp_all add: settles_cas settles_stale settles_load settles_rest settles_lock settles_timeout settles_unlock settles_shared)

section \<open>The state drains\<close>

text \<open>A thread that is further from idle weighs more; a waker outweighs all those it may wake.\<close>

definition weight :: "nat \<Rightarrow> pc \<Rightarrow> nat" where
  "weight n p = (if p = Idle then 0 else if p = WakeWriter \<or> p = WakeReaders then n + 1
     else if p = WriteOwner \<or> p = ReadOwner then n + 3 else if holds_write p \<or> holds_read p then n + 2
     else if asleep p then n + 4 else n + 5)"

definition load :: "nat \<Rightarrow> mutex_state \<Rightarrow> nat" where
  "load n s = (\<Sum>v < n. weight n (PC s v))"

lemma load_upd:
  assumes "t < n"
  shows "(\<Sum>v < n. weight n ((q(t := p)) v)) + weight n (q t) = (\<Sum>v < n. weight n (q v)) + weight n p"
proof -
  have "(\<Sum>v \<in> {..<n} - {t}. weight n ((q(t := p)) v)) = (\<Sum>v \<in> {..<n} - {t}. weight n (q v))" by (rule sum.cong) auto
  then show ?thesis using assms by (simp add: sum.remove [of _ t])
qed

text \<open>Alone, a thread ends below where it started.\<close>

lemma advance_weight:
  assumes "advance p f = (p', f')"
  shows "weight n p' \<le> weight n p"
  using assms by (cases p) (auto simp: weight_def Let_def split: if_splits option.splits prod.splits)

lemma alone_weight:
  assumes "alone p f p' f'"
  shows "weight n p' \<le> weight n p" "\<not> settled p \<Longrightarrow> weight n p' < weight n p"
proof -
  show le: "weight n p' \<le> weight n p" using assms
  proof induction
    case (move p f p' f' p'' f'')
    then show ?case using advance_weight [OF move.hyps(1), of n] by simp
  qed simp
  assume "\<not> settled p"
  then have "weight n p = n + 2 \<or> weight n p = n + 5" by (cases p) (simp_all add: weight_def)
  moreover have "settled p'" using assms by (rule alone_settled)
  then have "weight n p' \<noteq> n + 2 \<and> weight n p' \<noteq> n + 5" by (cases p') (simp_all add: weight_def)
  ultimately show "weight n p' < weight n p" using le by auto
qed

lemma load_set:
  assumes "t < n" "weight n p < weight n (PC s t)"
  shows "load n \<lparr>Futex = f, PC = (PC s)(t := p)\<rparr> < load n s"
  using load_upd [OF assms(1), of "PC s" p] assms(2) by (simp add: load_def)

text \<open>Waking a writer, or all readers, costs less than the waker weighed.\<close>

lemma load_wake_writer:
  assumes "t < n" "v < n" "PC s t = WakeWriter" "PC s v = LockAsleep timed"
  shows "load n \<lparr>Futex = f, PC = (PC s)(t := Idle, v := LockLoad timed)\<rparr> < load n s"
proof -
  have "v \<noteq> t" using assms(3,4) by auto
  then show ?thesis
    using load_upd [OF assms(1), of "PC s" Idle] load_upd [OF assms(2), of "(PC s)(t := Idle)" "LockLoad timed"] assms
    by (simp add: load_def weight_def)
qed

lemma load_wake_readers:
  assumes "t < n" "PC s t = WakeReaders"
  shows "load n \<lparr>Futex = f, PC = (\<lambda>v. woken_reader (((PC s)(t := Idle)) v))\<rparr> < load n s"
proof -
  let ?q = "(PC s)(t := Idle)"
  have "weight n (woken_reader p) \<le> weight n p + 1" for p by (simp add: woken_reader_def weight_def)
  then have "(\<Sum>v < n. weight n (woken_reader (?q v))) \<le> (\<Sum>v < n. weight n (?q v) + 1)" by (intro sum_mono)
  also have "\<dots> = (\<Sum>v < n. weight n (?q v)) + n" by (simp only: sum.distrib) simp
  also have "\<dots> < load n s" using load_upd [OF assms(1), of "PC s" Idle] assms(2) by (simp add: load_def weight_def)
  finally show ?thesis by (simp add: load_def)
qed

lemma settle_busy:
  assumes "t < n" "PC s t \<noteq> Idle" "\<not> asleep (PC s t)"
  shows "\<exists>s'. (settle n)\<^sup>*\<^sup>* s s' \<and> load n s' < load n s"
proof (cases "settled (PC s t)")
  case False
  obtain p f where a: "alone (PC s t) (Futex s) p f" using settles_all by blast
  show ?thesis using alone_settles [OF a assms(1)] load_set [OF assms(1) alone_weight(2) [OF a False]] by blast
next
  case True
  have done_by: ?thesis if "settle n s \<lparr>Futex = Futex s, PC = q\<rparr>" "load n \<lparr>Futex = Futex s, PC = q\<rparr> < load n s" for q
    using that by blast
  from True consider "PC s t = WriteOwner" | "PC s t = ReadOwner" | "PC s t = WakeWriter" | "PC s t = WakeReaders"
    using assms(2,3) by (cases "PC s t") simp_all
  then show ?thesis
  proof cases
    case 1
    then show ?thesis using settle.unlock [OF assms(1) 1] load_set [OF assms(1), of UnlockLoad s "Futex s"]
      by (intro done_by) (simp_all only: set_PC, simp add: weight_def)
  next
    case 2
    then show ?thesis using settle.unlock_shared [OF assms(1) 2] load_set [OF assms(1), of UnlockShared s "Futex s"]
      by (intro done_by) (simp_all only: set_PC, simp add: weight_def)
  next
    case 3
    show ?thesis
    proof (cases "\<exists>v < n. \<exists>timed. PC s v = LockAsleep timed")
      case True
      then obtain v timed where v: "v < n" "PC s v = LockAsleep timed" by blast
      show ?thesis by (rule done_by [OF settle.wake_writer [OF assms(1) 3 v, unfolded set_PC] load_wake_writer [OF assms(1) v(1) 3 v(2)]])
    next
      case False
      then have "settle n s (s\<lparr>PC := (PC s)(t := Idle)\<rparr>)" by (intro settle.wake_no_writer [OF assms(1) 3]) blast
      then show ?thesis using load_set [OF assms(1), of Idle s "Futex s"] 3
        by (intro done_by) (simp_all only: set_PC, simp add: weight_def)
    qed
  next
    case 4
    show ?thesis by (rule done_by [OF settle.wake_readers [OF assms(1) 4, unfolded set_PC] load_wake_readers [OF assms(1) 4]])
  qed
qed

lemma all_idle_free:
  assumes "mutex_inv n s" "\<forall>t < n. PC s t = Idle"
  shows "Futex s = 0"
proof -
  have z: "count n P (PC s) = 0" if "\<not> P Idle" for P using assms(2) that by (auto simp: count_def)
  show ?thesis using assms(1) unfolding mutex_inv_def by (auto simp: z shape_def word_of_zero)
qed

section \<open>A contended mutex\<close>

lemma reach_call: "\<lbrakk>mutex_reach n \<lparr>Futex = f, PC = q\<rparr>; t < n; p \<in> set (calls (q t))\<rbrakk> \<Longrightarrow> mutex_reach n \<lparr>Futex = f, PC = q(t := p)\<rparr>"
  using mutex_reach.step [OF _ mutex_step.call [where s = "\<lparr>Futex = f, PC = q\<rparr>"]] by simp

lemma reach_run: "\<lbrakk>mutex_reach n \<lparr>Futex = f, PC = q\<rparr>; t < n; advance (q t) f = (p, f')\<rbrakk> \<Longrightarrow> mutex_reach n \<lparr>Futex = f', PC = q(t := p)\<rparr>"
  using mutex_reach.step [OF _ mutex_step.run [where s = "\<lparr>Futex = f, PC = q\<rparr>"]] by simp

text \<open>Thread 0 owns the mutex for writing, and thread 1 sleeps in \<open>lock\<close>.\<close>

definition contended :: mutex_state where
  "contended = \<lparr>Futex = 0x80010000, PC = (\<lambda>_. Idle)(0 := WriteOwner, 1 := LockAsleep False)\<rparr>"

lemma contended_reach: "mutex_reach 2 contended"
proof -
  have "mutex_reach 2 \<lparr>Futex = 0, PC = \<lambda>_. Idle\<rparr>" using mutex_reach.start unfolding Mutex_def .
  then have *: "mutex_reach 2 \<lparr>Futex = 0, PC = (\<lambda>_. Idle)(0 := TryLock)\<rparr>" by (rule reach_call) simp_all
  have "mutex_reach 2 \<lparr>Futex = 0x80000000, PC = (\<lambda>_. Idle)(0 := WriteOwner)\<rparr>"
    using reach_run [OF *, where t = 0] by simp
  from reach_call [OF this, where t = 1 and p = "LockTry False"]
  have "mutex_reach 2 \<lparr>Futex = 0x80000000, PC = (\<lambda>_. Idle)(0 := WriteOwner, 1 := LockTry False)\<rparr>" by simp
  from reach_run [OF this, where t = 1 and p = "LockRegister False" and f' = "0x80000000"]
  have "mutex_reach 2 \<lparr>Futex = 0x80000000, PC = (\<lambda>_. Idle)(0 := WriteOwner, 1 := LockRegister False)\<rparr>" by simp
  from reach_run [OF this, where t = 1 and p = "LockCas False 0x80010000" and f' = "0x80010000"]
  have "mutex_reach 2 \<lparr>Futex = 0x80010000, PC = (\<lambda>_. Idle)(0 := WriteOwner, 1 := LockCas False 0x80010000)\<rparr>" by simp
  from reach_run [OF this, where t = 1 and p = "LockWait False 0x80010000" and f' = "0x80010000"]
  have "mutex_reach 2 \<lparr>Futex = 0x80010000, PC = (\<lambda>_. Idle)(0 := WriteOwner, 1 := LockWait False 0x80010000)\<rparr>"
    by (simp add: write_attempt_def)
  from reach_run [OF this, where t = 1 and p = "LockAsleep False" and f' = "0x80010000"] show ?thesis by (simp add: contended_def)
qed

section \<open>Properties\<close>

text \<open>
  C14. Mutual exclusion of the write-priority mutex. In every state that fewer than 16384 threads
  reach by any interleaving of their atomic accesses, futex calls, wake-ups and timeouts, a thread
  that holds the mutex for writing is the only one that holds it at all, and \<open>is_write_owned\<close>
  answers yes.
\<close>

theorem mutex_exclusion:
  assumes "mutex_reach n s" "n < 16384" "t < n" "holds_write (PC s t)"
  shows "is_write_owned (Futex s) \<and> {v. v < n \<and> (holds_write (PC s v) \<or> holds_read (PC s v))} = {t}"
proof -
  obtain rb where f: "Futex s = word_of (count n holds_read (PC s)) (count n waiting_writer (PC s)) rb (0 < count n holds_write (PC s))"
    and i: "count n holds_write (PC s) \<le> 1" "0 < count n holds_write (PC s) \<longrightarrow> count n holds_read (PC s) = 0"
    and b: "count n holds_read (PC s) < 65536" "count n waiting_writer (PC s) < 16384" by (rule shape_of_reach [OF assms(1,2)])
  have p: "0 < count n holds_write (PC s)" using assms(3,4) by (auto simp: count_pos)
  then have "\<not> holds_read (PC s v)" if "v < n" for v using i(2) count_pos [of n holds_read "PC s"] that by auto
  moreover have "others n holds_write (PC s) t = 0" using i(1) count_others [OF assms(3), of holds_write "PC s"] assms(4) by simp
  then have "\<not> holds_write (PC s v)" if "v < n" "v \<noteq> t" for v using others_pos [of n holds_write "PC s" t] that by auto
  ultimately have "{v. v < n \<and> (holds_write (PC s v) \<or> holds_read (PC s v))} = {t}" using assms(3,4) by auto
  moreover have "is_write_owned (Futex s)" using word_of_fields(1) [OF b, of rb "0 < count n holds_write (PC s)"] p
    unfolding is_write_owned_def f by (simp only: simp_thms)
  ultimately show ?thesis by simp
qed

theorem mutex_exclusion_witness:
  "is_write_owned (Futex contended) \<and> {v. v < 2 \<and> (holds_write (PC contended v) \<or> holds_read (PC contended v))} = {0}"
  by (rule mutex_exclusion [OF contended_reach]) (simp_all add: contended_def)

text \<open>
  C31. The fields of the futex word are exact: bits 15 to 0 count the readers that hold the mutex,
  bits 29 to 16 the writers that wait for it, and bit 31 tells whether a writer holds it.
\<close>

theorem mutex_word_exact:
  assumes "mutex_reach n s" "n < 16384"
  shows "unat (Futex s) mod 65536 = card {t. t < n \<and> holds_read (PC s t)} \<and>
    unat (Futex s) div 65536 mod 16384 = card {t. t < n \<and> waiting_writer (PC s t)} \<and>
    (is_write_owned (Futex s) \<longleftrightarrow> (\<exists>t. t < n \<and> holds_write (PC s t)))"
proof -
  obtain rb where f: "Futex s = word_of (count n holds_read (PC s)) (count n waiting_writer (PC s)) rb (0 < count n holds_write (PC s))"
    and b: "count n holds_read (PC s) < 65536" "count n waiting_writer (PC s) < 16384" by (rule shape_of_reach [OF assms])
  show ?thesis unfolding count_pos [symmetric] count_def [symmetric] using word_of_counts [OF b] word_of_fields(1) [OF b]
    unfolding f is_write_owned_def by simp
qed

theorem mutex_word_exact_witness:
  "card {t. t < 2 \<and> holds_read (PC contended t)} = 0 \<and> card {t. t < 2 \<and> waiting_writer (PC contended t)} = 1 \<and>
   (\<exists>t. t < 2 \<and> holds_write (PC contended t))"
  using mutex_word_exact [OF contended_reach] by (simp add: contended_def is_write_owned_def)

text \<open>
  C32. Writer priority. While a thread waits for the mutex for writing, no step of any thread
  makes a reader of a thread that was not one.
\<close>

theorem mutex_writer_priority:
  assumes "mutex_reach n s" "n < 16384" "v < n" "waiting_writer (PC s v)" "mutex_step n s s'"
  shows "holds_read (PC s' t) \<longrightarrow> holds_read (PC s t)"
  using assms(5)
proof cases
  case (call u p)
  then show ?thesis by (cases "PC s u") auto
next
  case (run u p f)
  have "pc_ok (PC s u)" using mutex_reach_inv [OF assms(1,2)] run(2) by (simp add: mutex_inv_def)
  then show ?thesis using run advance_read [OF run(3)] waiting_writer_bars [OF assms(1-4)] by auto
qed (auto simp: woken_reader_def split: if_splits)

theorem mutex_writer_priority_witness:
  "mutex_step 2 contended (contended\<lparr>PC := (PC contended)(0 := UnlockLoad)\<rparr>) \<and>
   \<not> (holds_read (PC (contended\<lparr>PC := (PC contended)(0 := UnlockLoad)\<rparr>) 1) \<and> \<not> holds_read (PC contended 1))"
proof -
  have "mutex_step 2 contended (contended\<lparr>PC := (PC contended)(0 := UnlockLoad)\<rparr>)"
    by (rule mutex_step.call) (simp_all add: contended_def)
  then show ?thesis using mutex_writer_priority [OF contended_reach, of 1 _ 1] by (auto simp: contended_def waiting_writer_def)
qed

text \<open>
  C15. The mutex never deadlocks. From every reachable state a finite run leads to the free mutex
  with every thread idle, in which threads only release what they own and finish the calls they
  are in: sleeping threads are woken by the code's own wake-ups, and no spurious wake-up, timeout
  or new call is needed.
\<close>

theorem mutex_drains:
  assumes "mutex_reach n s" "n < 16384"
  shows "\<exists>s'. (settle n)\<^sup>*\<^sup>* s s' \<and> (\<forall>t < n. PC s' t = Idle) \<and> Futex s' = 0"
  using assms(1)
proof (induction "load n s" arbitrary: s rule: less_induct)
  case less
  show ?case
  proof (cases "\<forall>t < n. PC s t = Idle")
    case True
    then show ?thesis using all_idle_free [OF mutex_reach_inv [OF less.prems assms(2)]] by blast
  next
    case False
    then obtain t where t: "t < n" "PC s t \<noteq> Idle" by blast
    have "\<exists>v < n. PC s v \<noteq> Idle \<and> \<not> asleep (PC s v)"
    proof (cases "asleep (PC s t)")
      case True
      have "holds_write p \<or> holds_read p \<or> active_writer p \<or> p = WakeWriter \<or> p = WakeReaders \<Longrightarrow> p \<noteq> Idle \<and> \<not> asleep p" for p
        by (cases p) simp_all
      then show ?thesis using sleeper_has_waker [OF less.prems assms(2) t(1) True] by blast
    qed (use t in blast)
    then obtain v where "v < n" "PC s v \<noteq> Idle" "\<not> asleep (PC s v)" by blast
    then obtain m where m: "(settle n)\<^sup>*\<^sup>* s m" "load n m < load n s" using settle_busy by blast
    obtain s' where "(settle n)\<^sup>*\<^sup>* m s'" "\<forall>t < n. PC s' t = Idle" "Futex s' = 0"
      using less.hyps [OF m(2) settles_reach [OF m(1) less.prems]] by blast
    then show ?thesis using rtranclp_trans [OF m(1)] by blast
  qed
qed

theorem mutex_drains_witness:
  "\<exists>s'. (settle 2)\<^sup>*\<^sup>* contended s' \<and> PC s' 0 = Idle \<and> PC s' 1 = Idle \<and> Futex s' = 0"
  using mutex_drains [OF contended_reach] by auto

end
