(* ===== verification/NZCVScan.thy ===== *)
theory NZCVScan
  imports Prelude
begin

text \<open>
  The scan of guest code that decides whether the condition flags are dead at an exit target,
  \<open>JIT/PPC64LE/NZCVExitCensus.cpp\<close>: the classification of A64 words and the bounded walk over
  the words that can run next. Guest memory is a function from addresses to the word that can be
  read there, \<open>None\<close> where the word is not provably executable.
\<close>

section \<open>Word classes\<close>

datatype WordClass =
    WC_NEUTRAL | WC_READER | WC_WRITER | WC_PARTIAL | WC_BRANCH | WC_TWOWAY | WC_CALL | WC_SVC | WC_RET | WC_TERM

text \<open>The sign extension of a field of 32 bits to a signed 64-bit displacement.\<close>

definition SignExtend :: "u32 \<Rightarrow> nat \<Rightarrow> u64" where
  "SignExtend v n = (let sign = push_bit (n - 1) 1 in scast ((v XOR sign) - sign))"

definition ClassifyWordImpl :: "u32 \<Rightarrow> WordClass \<times> u64" where
  "ClassifyWordImpl I =
    (let Hi7 = drop_bit 24 I AND 0x7F in
     if drop_bit 26 I = 0b000101 then (WC_BRANCH, SignExtend (I AND 0x3FFFFFF) 26 * 4)
     else if drop_bit 26 I = 0b100101 then (WC_CALL, SignExtend (I AND 0x3FFFFFF) 26 * 4)
     else if drop_bit 24 I AND 0xFF = 0x54 then (WC_READER, 0)
     else if Hi7 = 0x34 \<or> Hi7 = 0x35 then (WC_TWOWAY, SignExtend (drop_bit 5 I AND 0x7FFFF) 19 * 4)
     else if Hi7 = 0x36 \<or> Hi7 = 0x37 then (WC_TWOWAY, SignExtend (drop_bit 5 I AND 0x3FFF) 14 * 4)
     else if drop_bit 25 I AND 0x7F = 0b1101011 then
       (let Opc = drop_bit 21 I AND 0xF in
        if Opc = 0b0010 \<or> Opc = 0b0100 \<or> Opc = 0b0101 then (WC_RET, 0) else (WC_TERM, 0))
     else if drop_bit 24 I AND 0xFF = 0xD4 then
       (if I AND 0xFFE0001F = 0xD4000001 then (WC_SVC, 0) else (WC_TERM, 0))
     else if I AND 0xFFFFFFE0 = 0xD53B4200 then (WC_READER, 0)
     else if I AND 0xFFFFFFE0 = 0xD51B4200 then (WC_WRITER, 0)
     else if I = 0xD500401F \<or> I = 0xD500403F \<or> I = 0xD500405F then (WC_PARTIAL, 0)
     else if drop_bit 21 I AND 0xFF = 0b11010000 then (WC_READER, 0)
     else if drop_bit 21 I AND 0xFF = 0b11010010 then (WC_READER, 0)
     else if drop_bit 21 I AND 0xFF = 0b11010100 then (WC_READER, 0)
     else if drop_bit 24 I AND 0x1F = 0b01011 then
       (if drop_bit 29 I AND 1 \<noteq> 0 then WC_WRITER else WC_NEUTRAL, 0)
     else if drop_bit 24 I AND 0x1F = 0b01010 then
       (if drop_bit 29 I AND 3 = 3 then WC_WRITER else WC_NEUTRAL, 0)
     else if drop_bit 21 I = 0b10111010000 \<and> drop_bit 10 I AND 0x1F = 1 \<and> drop_bit 4 I AND 1 = 0 then (WC_PARTIAL, 0)
     else if I AND 0xFFFFFC1F = 0x3A00080D \<or> I AND 0xFFFFFC1F = 0x3A00480D then (WC_PARTIAL, 0)
     else if drop_bit 23 I AND 0x3F = 0b100010 then
       (if drop_bit 29 I AND 1 \<noteq> 0 then WC_WRITER else WC_NEUTRAL, 0)
     else if drop_bit 23 I AND 0x3F = 0b100100 then
       (if drop_bit 29 I AND 3 = 3 then WC_WRITER else WC_NEUTRAL, 0)
     else if drop_bit 30 I = 0 \<and> drop_bit 24 I AND 0x1F = 0b11110 \<and> drop_bit 21 I AND 1 \<noteq> 0 then
       (let Op = drop_bit 10 I AND 3 in
        if Op = 0b00 then (if drop_bit 10 I AND 0x3F = 0b001000 then WC_WRITER else WC_NEUTRAL, 0)
        else if Op = 0b01 \<or> Op = 0b11 then (WC_READER, 0)
        else (WC_NEUTRAL, 0))
     else (WC_NEUTRAL, 0))"

definition ClassifyGuestWord :: "u32 \<Rightarrow> WordClass \<times> u64" where
  "ClassifyGuestWord Insn = ClassifyWordImpl Insn"

section \<open>Witness extents\<close>

record witness_extent =
  Low :: u64
  High :: u64

definition Witness :: witness_extent where "Witness = \<lparr>Low = - 1, High = 0\<rparr>"

definition witness_Empty :: "witness_extent \<Rightarrow> bool" where
  "witness_Empty w \<longleftrightarrow> Low w > High w"

definition witness_Note :: "u64 \<Rightarrow> witness_extent \<Rightarrow> witness_extent" where
  "witness_Note a w = \<lparr>Low = (if a < Low w then a else Low w), High = (if a + 4 > High w then a + 4 else High w)\<rparr>"

definition witness_Merge :: "witness_extent \<Rightarrow> witness_extent \<Rightarrow> witness_extent" where
  "witness_Merge w v =
     (if witness_Empty v then w
      else \<lparr>Low = (if Low v < Low w then Low v else Low w), High = (if High v > High w then High v else High w)\<rparr>)"

section \<open>The scan\<close>

datatype ScanVerdict = SCAN_DEAD | SCAN_LIVE | SCAN_UNRESOLVED

abbreviation kMaxInsnsPerPath :: nat where "kMaxInsnsPerPath \<equiv> 48"
abbreviation kMaxVisitedWords :: nat where "kMaxVisitedWords \<equiv> 96"

type_synonym guest_words = "u64 \<Rightarrow> u32 option"
type_synonym frame = "u64 \<times> nat"
type_synonym callee_scan = "u64 \<Rightarrow> witness_extent \<Rightarrow> ScanVerdict \<times> witness_extent"

text \<open>
  The state of the walk: the paths still to follow, the words seen, their number, the worst
  verdict of a finished path and the witness extent. One round of the inner loop returns a
  verdict, leaves the path, or continues it at another program counter.
\<close>

record scan_state =
  Stack :: "frame list"
  Seen :: "u64 list"
  Nodes :: nat
  Worst :: ScanVerdict
  Out :: witness_extent

datatype scan_next =
    Return ScanVerdict witness_extent
  | Break scan_state
  | Continue u64 scan_state

text \<open>The scan of a followed call: a dead callee ends the path, a live one ends the scan.\<close>

definition scan_call :: "callee_scan option \<Rightarrow> u64 \<Rightarrow> scan_state \<Rightarrow> scan_next" where
  "scan_call callee target s =
     (case callee of
        None \<Rightarrow> Break (s\<lparr>Worst := SCAN_UNRESOLVED\<rparr>)
      | Some scan \<Rightarrow>
          (case scan target (Out s) of (v, W) \<Rightarrow>
            (case v of
               SCAN_DEAD \<Rightarrow> Break (s\<lparr>Out := W\<rparr>)
             | SCAN_LIVE \<Rightarrow> Return SCAN_LIVE W
             | SCAN_UNRESOLVED \<Rightarrow> Break (s\<lparr>Worst := SCAN_UNRESOLVED, Out := W\<rparr>))))"

text \<open>The walk after a word was read at \<open>pc\<close>.\<close>

definition scan_kind :: "callee_scan option \<Rightarrow> u64 \<Rightarrow> nat \<Rightarrow> WordClass \<times> u64 \<Rightarrow> scan_state \<Rightarrow> scan_next" where
  "scan_kind callee pc Depth W s =
     (case W of (Kind, Offset) \<Rightarrow>
       (case Kind of
          WC_READER \<Rightarrow> Return SCAN_LIVE (Out s)
        | WC_WRITER \<Rightarrow> Break s
        | WC_PARTIAL \<Rightarrow> Break (s\<lparr>Worst := SCAN_UNRESOLVED\<rparr>)
        | WC_TERM \<Rightarrow> Break (s\<lparr>Worst := SCAN_UNRESOLVED\<rparr>)
        | WC_RET \<Rightarrow> Break (s\<lparr>Worst := SCAN_UNRESOLVED\<rparr>)
        | WC_SVC \<Rightarrow> Continue (pc + 4) s
        | WC_CALL \<Rightarrow> scan_call callee (pc + Offset) s
        | WC_BRANCH \<Rightarrow> Continue (pc + Offset) s
        | WC_TWOWAY \<Rightarrow> Continue (pc + 4) (s\<lparr>Stack := (pc + Offset, Depth) # Stack s\<rparr>)
        | WC_NEUTRAL \<Rightarrow> Continue (pc + 4) s))"

definition scan_word :: "guest_words \<Rightarrow> callee_scan option \<Rightarrow> u64 \<Rightarrow> nat \<Rightarrow> nat \<Rightarrow> scan_state \<Rightarrow> scan_next" where
  "scan_word rd callee pc Depth Path s =
     (if pc \<in> set (Seen s) then Break s
      else
        let s1 = s\<lparr>Seen := Seen s @ [pc], Nodes := Suc (Nodes s)\<rparr> in
        if Nodes s1 > kMaxVisitedWords \<or> Path > kMaxInsnsPerPath then Return SCAN_UNRESOLVED (Out s1)
        else
          case rd pc of
            None \<Rightarrow> Return SCAN_UNRESOLVED (Out s1)
          | Some Insn \<Rightarrow> scan_kind callee pc (Suc Depth) (ClassifyGuestWord Insn) (s1\<lparr>Out := witness_Note pc (Out s1)\<rparr>))"

text \<open>No round gives back visited words, and only one that reads a new word continues.\<close>

definition scan_load :: "scan_state \<Rightarrow> nat" where
  "scan_load s = 2 * (97 - Nodes s) + length (Stack s)"

lemma scan_word_load:
  "scan_word rd callee pc Depth Path s = Break s' \<Longrightarrow> scan_load s' \<le> scan_load s"
  "scan_word rd callee pc Depth Path s = Continue pc' s' \<Longrightarrow> scan_load s' < scan_load s"
  unfolding scan_word_def scan_kind_def scan_call_def scan_load_def
  by (auto simp: Let_def split: if_splits option.splits prod.splits WordClass.splits ScanVerdict.splits)

function (sequential) scan_stack :: "guest_words \<Rightarrow> callee_scan option \<Rightarrow> scan_state \<Rightarrow> ScanVerdict \<times> witness_extent"
  and scan_path :: "guest_words \<Rightarrow> callee_scan option \<Rightarrow> u64 \<Rightarrow> nat \<Rightarrow> nat \<Rightarrow> scan_state \<Rightarrow> ScanVerdict \<times> witness_extent"
where
  "scan_stack rd callee s =
     (case Stack s of
        [] \<Rightarrow> (Worst s, Out s)
      | (pc, Depth) # fs \<Rightarrow> scan_path rd callee pc Depth 0 (s\<lparr>Stack := fs\<rparr>))"
| "scan_path rd callee pc Depth Path s =
     (case scan_word rd callee pc Depth Path s of
        Return v W \<Rightarrow> (v, W)
      | Break s' \<Rightarrow> scan_stack rd callee s'
      | Continue pc' s' \<Rightarrow> scan_path rd callee pc' (Suc Depth) (Suc Path) s')"
  by pat_completeness auto
termination
proof (relation "measure (\<lambda>x. case x of
    Inl (rd, callee, s) \<Rightarrow> 2 * scan_load s
  | Inr (rd, callee, pc, Depth, Path, s) \<Rightarrow> 2 * scan_load s + 1)")
qed (auto simp: scan_load_def [of "_\<lparr>Stack := _\<rparr>"] scan_load_def dest!: scan_word_load)

declare scan_stack.simps [simp del] scan_path.simps [simp del]

definition scan_start :: "u64 \<Rightarrow> witness_extent \<Rightarrow> scan_state" where
  "scan_start Target W = \<lparr>Stack = [(Target, 0)], Seen = [], Nodes = 0, Worst = SCAN_DEAD, Out = W\<rparr>"

definition ScanWitnessed :: "u64 \<Rightarrow> bool \<Rightarrow> guest_words \<Rightarrow> witness_extent \<Rightarrow> ScanVerdict \<times> witness_extent" where
  "ScanWitnessed Target FollowBL rd W =
     scan_stack rd (if FollowBL then Some (\<lambda>t v. scan_stack rd None (scan_start t v)) else None) (scan_start Target W)"

definition Scan :: "u64 \<Rightarrow> bool \<Rightarrow> guest_words \<Rightarrow> ScanVerdict" where
  "Scan Target FollowBL rd = fst (ScanWitnessed Target FollowBL rd Witness)"

text \<open>The memoised pair of scans.\<close>

definition memo_slot :: "u64 \<Rightarrow> u64" where "memo_slot t = drop_bit 2 t AND 0xFFFF"

type_synonym scan_memo = "u64 \<rightharpoonup> u64 \<times> ScanVerdict \<times> ScanVerdict"

definition ScanBoth :: "u64 \<Rightarrow> guest_words \<Rightarrow> scan_memo \<Rightarrow> (ScanVerdict \<times> ScanVerdict) \<times> scan_memo" where
  "ScanBoth Target rd Memo =
     (let fresh =
        (let Simple = Scan Target False rd;
             Follow = (if Simple = SCAN_UNRESOLVED then Scan Target True rd else Simple)
         in ((Simple, Follow), Memo(memo_slot Target \<mapsto> (Target, Simple, Follow))))
      in case Memo (memo_slot Target) of
           None \<Rightarrow> fresh
         | Some (t, Simple, Follow) \<Rightarrow> if t = Target then ((Simple, Follow), Memo) else fresh)"

end
