(* ===== verification/NZCVSound.thy ===== *)
theory NZCVSound
  imports NZCVScan
begin

text \<open>
  Soundness of the scan. A verdict that the flags are dead means that the words that can run
  from the target form a closed set without readers, and rests on the witness extent alone.
\<close>

section \<open>Closed sets of program counters\<close>

text \<open>
  A program counter is safe when its word can be read and does not use the flags: it overwrites
  them all, or control stays in the set. Calls are safe only when they are followed.
\<close>

definition safe_at :: "guest_words \<Rightarrow> bool \<Rightarrow> u64 set \<Rightarrow> u64 \<Rightarrow> bool" where
  "safe_at rd FollowBL S pc \<longleftrightarrow>
     (case rd pc of
        None \<Rightarrow> False
      | Some Insn \<Rightarrow>
          (case ClassifyGuestWord Insn of (Kind, Offset) \<Rightarrow>
            (case Kind of
               WC_NEUTRAL \<Rightarrow> pc + 4 \<in> S
             | WC_SVC \<Rightarrow> pc + 4 \<in> S
             | WC_BRANCH \<Rightarrow> pc + Offset \<in> S
             | WC_TWOWAY \<Rightarrow> pc + 4 \<in> S \<and> pc + Offset \<in> S
             | WC_CALL \<Rightarrow> FollowBL \<and> pc + Offset \<in> S
             | WC_WRITER \<Rightarrow> True
             | _ \<Rightarrow> False)))"

definition safe_set :: "guest_words \<Rightarrow> bool \<Rightarrow> u64 set \<Rightarrow> bool" where
  "safe_set rd FollowBL S \<longleftrightarrow> (\<forall>pc \<in> S. safe_at rd FollowBL S pc)"

lemma safe_at_mono: "safe_at rd f S pc \<Longrightarrow> S \<subseteq> S' \<Longrightarrow> safe_at rd f S' pc"
  unfolding safe_at_def by (auto split: option.splits prod.splits WordClass.splits)

lemma safe_at_follow: "safe_at rd False S pc \<Longrightarrow> safe_at rd f S pc"
  unfolding safe_at_def by (auto split: option.splits prod.splits WordClass.splits)

text \<open>What a scan has established: the words in \<open>A\<close> are safe, up to those in \<open>T\<close> still to be scanned.\<close>

definition safe_upto :: "guest_words \<Rightarrow> bool \<Rightarrow> u64 set \<Rightarrow> u64 set \<Rightarrow> bool" where
  "safe_upto rd f A T \<longleftrightarrow> (\<forall>pc \<in> A. safe_at rd f (A \<union> T) pc)"

definition completes :: "guest_words \<Rightarrow> bool \<Rightarrow> u64 set \<Rightarrow> bool" where
  "completes rd f B \<longleftrightarrow> (\<exists>S. B \<subseteq> S \<and> safe_set rd f S)"

definition callee_sound :: "guest_words \<Rightarrow> bool \<Rightarrow> callee_scan option \<Rightarrow> bool" where
  "callee_sound rd f callee \<longleftrightarrow>
     (f \<longleftrightarrow> callee \<noteq> None) \<and> (\<forall>scan t W W'. callee = Some scan \<longrightarrow> scan t W = (SCAN_DEAD, W') \<longrightarrow> completes rd f {t})"

lemma completes_mono: "completes rd f B \<Longrightarrow> A \<subseteq> B \<Longrightarrow> completes rd f A"
  unfolding completes_def by blast

lemma safe_upto_step:
  assumes "safe_upto rd f A (insert pc T)" "safe_at rd f (insert pc A \<union> T') pc" "T \<subseteq> T'"
  shows "safe_upto rd f (insert pc A) T'"
proof -
  have "safe_at rd f (insert pc A \<union> T') x" if "x \<in> A" for x
    using assms(1,3) that unfolding safe_upto_def by (blast intro: safe_at_mono)
  then show ?thesis using assms(2) unfolding safe_upto_def by blast
qed

text \<open>A followed call adds the closed set of its callee.\<close>

lemma safe_upto_call:
  assumes "safe_upto rd f A (insert pc T)" "safe_set rd f C" "safe_at rd f C pc"
  shows "safe_upto rd f (insert pc A \<union> C) T"
proof -
  have "safe_at rd f (insert pc A \<union> C \<union> T) x" if "x \<in> insert pc A \<union> C" for x
    using assms that unfolding safe_upto_def safe_set_def by (blast intro: safe_at_mono)
  then show ?thesis unfolding safe_upto_def by blast
qed

section \<open>One round of the walk\<close>

lemmas round_defs = scan_word_def scan_kind_def scan_call_def
lemmas round_splits = if_splits option.splits prod.splits WordClass.splits ScanVerdict.splits

lemma round_return: "scan_word rd callee pc Depth Path s = Return v W \<Longrightarrow> v \<noteq> SCAN_DEAD"
  unfolding round_defs by (auto simp: Let_def split: round_splits)

lemma round_worst:
  "scan_word rd callee pc Depth Path s = Break s' \<Longrightarrow> Worst s \<noteq> SCAN_DEAD \<Longrightarrow> Worst s' \<noteq> SCAN_DEAD"
  "scan_word rd callee pc Depth Path s = Continue pc' s' \<Longrightarrow> Worst s' = Worst s"
  unfolding round_defs by (auto simp: Let_def split: round_splits)

text \<open>A path that did not end well keeps the verdict from being dead.\<close>

lemma scan_worst:
  "fst (scan_stack rd callee s) = SCAN_DEAD \<Longrightarrow> Worst s = SCAN_DEAD"
  "fst (scan_path rd callee pc Depth Path s) = SCAN_DEAD \<Longrightarrow> Worst s = SCAN_DEAD"
proof (induction rd callee s and rd callee pc Depth Path s rule: scan_stack_scan_path.induct)
  case (1 rd callee s)
  then show ?case by (auto simp: scan_stack.simps split: list.splits)
next
  case (2 rd callee pc Depth Path s)
  show ?case
  proof (cases "scan_word rd callee pc Depth Path s")
    case (Return v W)
    then show ?thesis using 2(3) round_return [OF Return] by (simp add: scan_path.simps)
  next
    case (Break s')
    then show ?thesis using 2(1) [OF Break] 2(3) round_worst(1) [OF Break] by (auto simp: scan_path.simps)
  next
    case (Continue pc' s')
    then show ?thesis using 2(2) [OF Continue] 2(3) round_worst(2) [OF Continue] by (simp add: scan_path.simps)
  qed
qed

abbreviation pending :: "scan_state \<Rightarrow> u64 set" where "pending s \<equiv> fst ` set (Stack s)"

lemma round_continue:
  assumes "scan_word rd callee pc Depth Path s = Continue pc' s'" "safe_upto rd f A (insert pc (pending s))"
  shows "set (Seen s') = insert pc (set (Seen s))" "pending s \<subseteq> pending s'" "safe_upto rd f (insert pc A) (insert pc' (pending s'))"
proof -
  show "set (Seen s') = insert pc (set (Seen s))" and p: "pending s \<subseteq> pending s'"
    using assms(1) unfolding round_defs by (auto simp: Let_def split: round_splits)
  have "safe_at rd f (insert pc A \<union> insert pc' (pending s')) pc"
    using assms(1) unfolding round_defs safe_at_def by (auto simp: Let_def split: round_splits)
  then show "safe_upto rd f (insert pc A) (insert pc' (pending s'))" by (rule safe_upto_step [OF assms(2)]) (use p in blast)
qed

lemma round_break:
  assumes "scan_word rd callee pc Depth Path s = Break s'" "Worst s' = SCAN_DEAD" "callee_sound rd f callee"
    "set (Seen s) \<subseteq> A" "safe_upto rd f A (insert pc (pending s))"
  obtains A' where "insert pc A \<subseteq> A'" "set (Seen s') \<subseteq> A'" "pending s' = pending s" "safe_upto rd f A' (pending s')"
proof (cases "pc \<in> set (Seen s)")
  case True
  then have "s' = s" "pc \<in> A" using assms(1,4) by (auto simp: scan_word_def)
  then show ?thesis using assms(4,5) that [of A] by (simp add: insert_absorb safe_upto_def)
next
  case False
  then obtain Insn Kind Offset where rd: "rd pc = Some Insn" and c: "ClassifyGuestWord Insn = (Kind, Offset)"
    using assms(1) by (cases "ClassifyGuestWord (the (rd pc))") (auto simp: scan_word_def Let_def split: if_splits option.splits)
  have seen: "set (Seen s') \<subseteq> insert pc A" and pend: "pending s' = pending s"
    using False assms(1,4) unfolding round_defs by (auto simp: Let_def split: round_splits)
  have "Kind = WC_WRITER \<or> Kind = WC_CALL"
    using False assms(1,2) rd c unfolding round_defs by (auto simp: Let_def split: round_splits)
  then show ?thesis
  proof
    assume "Kind = WC_WRITER"
    then have "safe_at rd f (insert pc A \<union> pending s) pc" using rd c by (simp add: safe_at_def)
    then have "safe_upto rd f (insert pc A) (pending s)" by (rule safe_upto_step [OF assms(5)]) blast
    then show ?thesis using that [of "insert pc A"] seen pend by simp
  next
    assume k: "Kind = WC_CALL"
    obtain scan W W' where "callee = Some scan" "scan (pc + Offset) W = (SCAN_DEAD, W')"
      using False assms(1,2) rd c k unfolding round_defs by (auto simp: Let_def split: round_splits)
    then have f: f and "completes rd f {pc + Offset}" using assms(3) unfolding callee_sound_def by blast+
    then obtain C where C: "pc + Offset \<in> C" "safe_set rd f C" unfolding completes_def by blast
    then have "safe_at rd f C pc" using rd c k f by (simp add: safe_at_def)
    then have "safe_upto rd f (insert pc A \<union> C) (pending s)" by (rule safe_upto_call [OF assms(5) C(2)])
    then show ?thesis using that [of "insert pc A \<union> C"] seen pend by auto
  qed
qed

section \<open>The whole walk\<close>

lemma scan_completes:
  "fst (scan_stack rd callee s) = SCAN_DEAD \<Longrightarrow> callee_sound rd f callee \<Longrightarrow> set (Seen s) \<subseteq> A \<Longrightarrow>
    safe_upto rd f A (pending s) \<Longrightarrow> completes rd f (A \<union> pending s)"
  "fst (scan_path rd callee pc Depth Path s) = SCAN_DEAD \<Longrightarrow> callee_sound rd f callee \<Longrightarrow> set (Seen s) \<subseteq> A \<Longrightarrow>
    safe_upto rd f A (insert pc (pending s)) \<Longrightarrow> completes rd f (A \<union> insert pc (pending s))"
proof (induction rd callee s and rd callee pc Depth Path s arbitrary: A and A rule: scan_stack_scan_path.induct)
  case (1 rd callee s)
  show ?case
  proof (cases "Stack s")
    case Nil
    then show ?thesis using 1 by (auto simp: completes_def safe_upto_def safe_set_def)
  next
    case (Cons fr fs)
    obtain pc Depth where fr: "fr = (pc, Depth)" by (cases fr)
    then show ?thesis using 1(1) [OF Cons fr [symmetric]] 1(2-) Cons by (simp add: scan_stack.simps)
  qed
next
  case (2 rd callee pc Depth Path s)
  show ?case
  proof (cases "scan_word rd callee pc Depth Path s")
    case (Return v W)
    then show ?thesis using 2(3) round_return [OF Return] by (simp add: scan_path.simps)
  next
    case (Break s')
    then have d: "fst (scan_stack rd callee s') = SCAN_DEAD" using 2(3) by (simp add: scan_path.simps)
    obtain A' where A': "insert pc A \<subseteq> A'" "set (Seen s') \<subseteq> A'" "pending s' = pending s" "safe_upto rd f A' (pending s')"
      by (rule round_break [OF Break scan_worst(1) [OF d] 2(4-6)])
    have "completes rd f (A' \<union> pending s')" by (rule 2(1) [OF Break d 2(4) A'(2,4)])
    then show ?thesis by (rule completes_mono) (use A' in auto)
  next
    case (Continue pc' s')
    then have d: "fst (scan_path rd callee pc' (Suc Depth) (Suc Path) s') = SCAN_DEAD" using 2(3) by (simp add: scan_path.simps)
    note r = round_continue [OF Continue 2(6)]
    have "completes rd f (insert pc A \<union> insert pc' (pending s'))"
      by (rule 2(2) [OF Continue d 2(4) _ r(3)]) (use r(1) 2(5) in blast)
    then show ?thesis by (rule completes_mono) (use r(2) in auto)
  qed
qed

lemma scan_start_completes:
  assumes "fst (scan_stack rd callee (scan_start t W)) = SCAN_DEAD" "callee_sound rd f callee"
  shows "completes rd f {t}"
  using scan_completes(1) [OF assms, of "{}"] by (simp add: scan_start_def safe_upto_def)

lemma safe_set_follow: "safe_set rd False S \<Longrightarrow> safe_set rd f S"
  unfolding safe_set_def by (blast intro: safe_at_follow)

lemma ScanWitnessed_completes:
  assumes "fst (ScanWitnessed t f rd W) = SCAN_DEAD"
  shows "completes rd f {t}"
proof -
  have plain: "completes rd f {u}" if "scan_stack rd None (scan_start u V) = (SCAN_DEAD, V')" for u V V'
    using scan_start_completes [of rd None u V False] that
    by (simp add: callee_sound_def completes_def) (blast intro: safe_set_follow)
  have "callee_sound rd f (if f then Some (\<lambda>t v. scan_stack rd None (scan_start t v)) else None)"
    unfolding callee_sound_def using plain by auto
  then show ?thesis using assms unfolding ScanWitnessed_def by (rule scan_start_completes [rotated])
qed

section \<open>Flags are unobservable\<close>

text \<open>
  The guest processor is a parameter: a step function, the program counter of a state and the
  relation \<open>eqv\<close> of states that differ at most in the flags. What the walk relies on: a word that
  can be read runs as its class says. Only readers look at the flags, writers set all of them,
  and the kernel preserves them across a system call.
\<close>

definition respects_classes :: "guest_words \<Rightarrow> ('s \<Rightarrow> 's) \<Rightarrow> ('s \<Rightarrow> u64) \<Rightarrow> ('s \<Rightarrow> 's \<Rightarrow> bool) \<Rightarrow> bool" where
  "respects_classes rd step pc eqv \<longleftrightarrow>
     (\<forall>s. eqv s s) \<and>
     (\<forall>s t Insn. eqv s t \<longrightarrow> pc s = pc t \<and> (rd (pc s) = Some Insn \<longrightarrow>
       (case ClassifyGuestWord Insn of (Kind, Offset) \<Rightarrow>
         (case Kind of
            WC_NEUTRAL \<Rightarrow> eqv (step s) (step t) \<and> pc (step s) = pc s + 4
          | WC_SVC \<Rightarrow> eqv (step s) (step t) \<and> pc (step s) = pc s + 4
          | WC_BRANCH \<Rightarrow> eqv (step s) (step t) \<and> pc (step s) = pc s + Offset
          | WC_CALL \<Rightarrow> eqv (step s) (step t) \<and> pc (step s) = pc s + Offset
          | WC_TWOWAY \<Rightarrow> eqv (step s) (step t) \<and> (pc (step s) = pc s + 4 \<or> pc (step s) = pc s + Offset)
          | WC_WRITER \<Rightarrow> step s = step t
          | _ \<Rightarrow> True))))"

lemma safe_step:
  assumes "respects_classes rd step pc eqv" "safe_at rd f S (pc s)" "eqv s t"
  shows "step s = step t \<or> eqv (step s) (step t) \<and> pc (step s) \<in> S"
proof -
  obtain Insn Kind Offset where rd: "rd (pc s) = Some Insn" and c: "ClassifyGuestWord Insn = (Kind, Offset)"
    using assms(2) by (cases "ClassifyGuestWord (the (rd (pc s)))") (auto simp: safe_at_def split: option.splits)
  have "case Kind of
            WC_NEUTRAL \<Rightarrow> eqv (step s) (step t) \<and> pc (step s) = pc s + 4
          | WC_SVC \<Rightarrow> eqv (step s) (step t) \<and> pc (step s) = pc s + 4
          | WC_BRANCH \<Rightarrow> eqv (step s) (step t) \<and> pc (step s) = pc s + Offset
          | WC_CALL \<Rightarrow> eqv (step s) (step t) \<and> pc (step s) = pc s + Offset
          | WC_TWOWAY \<Rightarrow> eqv (step s) (step t) \<and> (pc (step s) = pc s + 4 \<or> pc (step s) = pc s + Offset)
          | WC_WRITER \<Rightarrow> step s = step t
          | _ \<Rightarrow> True" (is ?k)
    using assms(1,3) rd c unfolding respects_classes_def by fastforce
  then show ?thesis using assms(2) rd c by (cases Kind) (auto simp: safe_at_def)
qed

lemma safe_run:
  assumes "respects_classes rd step pc eqv" "safe_set rd f S" "pc s \<in> S" "eqv s t"
  shows "(step ^^ k) s = (step ^^ k) t \<or> eqv ((step ^^ k) s) ((step ^^ k) t) \<and> pc ((step ^^ k) s) \<in> S"
proof (induction k)
  case (Suc k)
  then show ?case
  proof
    assume "eqv ((step ^^ k) s) ((step ^^ k) t) \<and> pc ((step ^^ k) s) \<in> S"
    then show ?thesis using safe_step [OF assms(1), of f S "(step ^^ k) s" "(step ^^ k) t"] assms(2)
      by (auto simp: safe_set_def)
  qed simp
qed (use assms in simp)

section \<open>The witness extent\<close>

text \<open>The words that a scan has read lie in its extent, as long as none is at the very top of memory.\<close>

definition widens :: "witness_extent \<Rightarrow> witness_extent \<Rightarrow> bool" where
  "widens W W' \<longleftrightarrow> Low W' \<le> Low W \<and> High W \<le> High W'"

definition in_extent :: "witness_extent \<Rightarrow> u64 \<Rightarrow> bool" where
  "in_extent W a \<longleftrightarrow> Low W \<le> a \<and> a < a + 4 \<and> a + 4 \<le> High W"

definition below_top :: "guest_words \<Rightarrow> bool" where
  "below_top rd \<longleftrightarrow> (\<forall>a. rd a \<noteq> None \<longrightarrow> a < a + 4)"

definition agrees :: "witness_extent \<Rightarrow> guest_words \<Rightarrow> guest_words \<Rightarrow> bool" where
  "agrees W rd rd' \<longleftrightarrow> (\<forall>a. in_extent W a \<longrightarrow> rd' a = rd a)"

lemma widens_refl [simp]: "widens W W"
  by (simp add: widens_def)

lemma widens_trans: "widens W W' \<Longrightarrow> widens W' W'' \<Longrightarrow> widens W W''"
  unfolding widens_def by auto

lemma widens_Note: "widens W (witness_Note a W)"
  unfolding widens_def witness_Note_def by auto

lemma in_extent_Note: "a < a + 4 \<Longrightarrow> in_extent (witness_Note a W) a"
  unfolding in_extent_def witness_Note_def by auto

lemma in_extent_widens: "in_extent W a \<Longrightarrow> widens W W' \<Longrightarrow> in_extent W' a"
  unfolding in_extent_def widens_def by auto

lemma agrees_widens: "agrees W' rd rd' \<Longrightarrow> widens W W' \<Longrightarrow> agrees W rd rd'"
  unfolding agrees_def by (blast intro: in_extent_widens)

definition callee_widens :: "callee_scan option \<Rightarrow> bool" where
  "callee_widens callee \<longleftrightarrow> (\<forall>scan t V. callee = Some scan \<longrightarrow> widens V (snd (scan t V)))"

lemma callee_widens_None [simp]: "callee_widens None"
  by (simp add: callee_widens_def)

fun next_widens :: "witness_extent \<Rightarrow> scan_next \<Rightarrow> bool" where
  "next_widens V (Return v W) \<longleftrightarrow> widens V W"
| "next_widens V (Break s) \<longleftrightarrow> widens V (Out s)"
| "next_widens V (Continue pc s) \<longleftrightarrow> widens V (Out s)"

lemma next_widens_trans: "widens U V \<Longrightarrow> next_widens V r \<Longrightarrow> next_widens U r"
  by (cases r) (auto intro: widens_trans)

lemma scan_call_widens:
  assumes "callee_widens callee"
  shows "next_widens (Out s) (scan_call callee t s)"
proof (cases callee)
  case (Some scan)
  then have "widens (Out s) (snd (scan t (Out s)))" using assms by (simp add: callee_widens_def)
  then show ?thesis using Some by (auto simp: scan_call_def split: prod.splits ScanVerdict.splits)
qed (simp add: scan_call_def)

lemma scan_kind_widens:
  assumes "callee_widens callee"
  shows "next_widens (Out s) (scan_kind callee pc Depth w s)"
proof -
  obtain Kind Offset where w: "w = (Kind, Offset)" by (cases w)
  show ?thesis using scan_call_widens [OF assms, where t = "pc + Offset" and s = s] unfolding w
    by (cases Kind) (simp_all add: scan_kind_def)
qed

lemma round_widens:
  assumes "callee_widens callee"
  shows "next_widens (Out s) (scan_word rd callee pc Depth Path s)"
  using next_widens_trans [OF widens_Note scan_kind_widens [OF assms, where pc = pc and Depth = "Suc Depth" and w = "ClassifyGuestWord (the (rd pc))" and
      s = "s\<lparr>Seen := Seen s @ [pc], Nodes := Suc (Nodes s), Out := witness_Note pc (Out s)\<rparr>", simplified]]
  by (auto simp: scan_word_def Let_def split: option.splits)

lemma scan_widens:
  "callee_widens callee \<Longrightarrow> widens (Out s) (snd (scan_stack rd callee s))"
  "callee_widens callee \<Longrightarrow> widens (Out s) (snd (scan_path rd callee pc Depth Path s))"
proof (induction rd callee s and rd callee pc Depth Path s rule: scan_stack_scan_path.induct)
  case (1 rd callee s)
  then show ?case by (cases "Stack s") (auto simp: scan_stack.simps [of rd callee s] split: prod.splits)
next
  case (2 rd callee pc Depth Path s)
  note r = round_widens [OF 2(3), where rd = rd and pc = pc and Depth = Depth and Path = Path and s = s]
  show ?case
  proof (cases "scan_word rd callee pc Depth Path s")
    case (Break s')
    then show ?thesis using 2(1) [OF Break 2(3)] r by (simp add: scan_path.simps [of rd callee pc]) (rule widens_trans)
  next
    case (Continue pc' s')
    then show ?thesis using 2(2) [OF Continue 2(3)] r by (simp add: scan_path.simps [of rd callee pc]) (rule widens_trans)
  qed (use r in \<open>simp add: scan_path.simps\<close>)
qed

text \<open>A dead verdict is the same for any memory that agrees on the extent.\<close>

definition callee_frame :: "guest_words \<Rightarrow> guest_words \<Rightarrow> callee_scan option \<Rightarrow> callee_scan option \<Rightarrow> bool" where
  "callee_frame rd rd' callee callee' \<longleftrightarrow> (callee = None \<longleftrightarrow> callee' = None) \<and>
     (\<forall>scan scan' t V V'. callee = Some scan \<longrightarrow> callee' = Some scan' \<longrightarrow> scan t V = (SCAN_DEAD, V') \<longrightarrow> agrees V' rd rd' \<longrightarrow>
        scan' t V = (SCAN_DEAD, V'))"

lemma scan_call_frame:
  assumes "scan_call callee t s = Break s'" "Worst s' = SCAN_DEAD" "agrees (Out s') rd rd'" "callee_frame rd rd' callee callee'"
  shows "scan_call callee' t s = Break s'"
proof (cases callee)
  case None
  then show ?thesis using assms by (auto simp: scan_call_def callee_frame_def)
next
  case (Some scan)
  then obtain scan' where c': "callee' = Some scan'" using assms(4) by (cases callee') (auto simp: callee_frame_def)
  obtain V where V: "scan t (Out s) = (SCAN_DEAD, V)" "s' = s\<lparr>Out := V\<rparr>"
    using assms(1,2) Some by (auto simp: scan_call_def split: prod.splits ScanVerdict.splits)
  then have "scan' t (Out s) = (SCAN_DEAD, V)" using assms(3,4) Some c' unfolding callee_frame_def by simp
  then show ?thesis using V(2) c' by (simp add: scan_call_def)
qed

lemma scan_call_not_Continue: "scan_call callee t s \<noteq> Continue pc' s'"
  by (simp add: scan_call_def split: option.splits prod.splits ScanVerdict.splits)

lemma scan_kind_frame:
  assumes "callee_frame rd rd' callee callee'"
  shows "scan_kind callee pc Depth w s = Break s' \<Longrightarrow> Worst s' = SCAN_DEAD \<Longrightarrow> agrees (Out s') rd rd' \<Longrightarrow>
      scan_kind callee' pc Depth w s = Break s'"
    and "scan_kind callee pc Depth w s = Continue pc' s' \<Longrightarrow> scan_kind callee' pc Depth w s = Continue pc' s'"
proof -
  obtain Kind Offset where w: "w = (Kind, Offset)" by (cases w)
  show "scan_kind callee pc Depth w s = Break s' \<Longrightarrow> Worst s' = SCAN_DEAD \<Longrightarrow> agrees (Out s') rd rd' \<Longrightarrow>
      scan_kind callee' pc Depth w s = Break s'"
    using scan_call_frame [OF _ _ _ assms] unfolding w by (cases Kind) (simp_all add: scan_kind_def)
  show "scan_kind callee pc Depth w s = Continue pc' s' \<Longrightarrow> scan_kind callee' pc Depth w s = Continue pc' s'"
    unfolding w by (cases Kind) (simp_all add: scan_kind_def scan_call_not_Continue)
qed

lemma round_frame:
  assumes "callee_frame rd rd' callee callee'" "callee_widens callee" "below_top rd"
  shows "scan_word rd callee pc Depth Path s = Break s' \<Longrightarrow> Worst s' = SCAN_DEAD \<Longrightarrow> agrees (Out s') rd rd' \<Longrightarrow>
      scan_word rd' callee' pc Depth Path s = Break s'"
    and "scan_word rd callee pc Depth Path s = Continue pc' s' \<Longrightarrow> agrees (Out s') rd rd' \<Longrightarrow>
      scan_word rd' callee' pc Depth Path s = Continue pc' s'"
proof -
  let ?s = "s\<lparr>Seen := Seen s @ [pc], Nodes := Suc (Nodes s), Out := witness_Note pc (Out s)\<rparr>"
  have same: "rd' pc = rd pc" if "rd pc = Some Insn" "widens (Out ?s) V" "agrees V rd rd'" for Insn V
  proof -
    have "pc < pc + 4" using assms(3) that(1) by (auto simp: below_top_def)
    then have "in_extent V pc" using in_extent_widens [OF in_extent_Note that(2) [simplified]] by blast
    then show ?thesis using that(3) by (simp add: agrees_def)
  qed
  have k: "widens (Out ?s) (Out s')" if "scan_kind callee pc (Suc Depth) w ?s = Break s' \<or> scan_kind callee pc (Suc Depth) w ?s = Continue pc' s'" for w s' pc'
    using scan_kind_widens [OF assms(2), where pc = pc and Depth = "Suc Depth" and w = w and s = ?s] that by auto
  have step: "scan_word rd' callee' pc Depth Path s = scan_kind callee' pc (Suc Depth) (ClassifyGuestWord Insn) ?s"
    if "pc \<notin> set (Seen s)" "\<not> (Suc (Nodes s) > kMaxVisitedWords \<or> Path > kMaxInsnsPerPath)" "rd pc = Some Insn"
      "widens (Out ?s) V" "agrees V rd rd'" for Insn V
    using same [OF that(3-5)] that(1-3) by (simp add: scan_word_def)
  show "scan_word rd' callee' pc Depth Path s = Break s'"
    if b: "scan_word rd callee pc Depth Path s = Break s'" and d: "Worst s' = SCAN_DEAD" and a: "agrees (Out s') rd rd'"
  proof (cases "pc \<in> set (Seen s)")
    case False
    then obtain Insn where i: "rd pc = Some Insn" "\<not> (Suc (Nodes s) > kMaxVisitedWords \<or> Path > kMaxInsnsPerPath)"
      and w: "scan_kind callee pc (Suc Depth) (ClassifyGuestWord Insn) ?s = Break s'"
      using b by (auto simp: scan_word_def Let_def split: if_splits option.splits)
    show ?thesis using step [OF False i(2,1) k [OF disjI1 [OF w]] a] scan_kind_frame(1) [OF assms(1) w d a] by simp
  qed (use b in \<open>simp add: scan_word_def\<close>)
  show "scan_word rd' callee' pc Depth Path s = Continue pc' s'"
    if b: "scan_word rd callee pc Depth Path s = Continue pc' s'" and a: "agrees (Out s') rd rd'"
  proof -
    obtain Insn where n: "pc \<notin> set (Seen s)" and i: "rd pc = Some Insn" "\<not> (Suc (Nodes s) > kMaxVisitedWords \<or> Path > kMaxInsnsPerPath)"
      and w: "scan_kind callee pc (Suc Depth) (ClassifyGuestWord Insn) ?s = Continue pc' s'"
      using b by (auto simp: scan_word_def Let_def split: if_splits option.splits)
    show ?thesis using step [OF n i(2,1) k [OF disjI2 [OF w]] a] scan_kind_frame(2) [OF assms(1) w] by simp
  qed
qed

lemma scan_frame:
  "scan_stack rd callee s = (SCAN_DEAD, W) \<Longrightarrow> callee_frame rd rd' callee callee' \<Longrightarrow> callee_widens callee \<Longrightarrow> below_top rd \<Longrightarrow>
    agrees W rd rd' \<Longrightarrow> scan_stack rd' callee' s = (SCAN_DEAD, W)"
  "scan_path rd callee pc Depth Path s = (SCAN_DEAD, W) \<Longrightarrow> callee_frame rd rd' callee callee' \<Longrightarrow> callee_widens callee \<Longrightarrow> below_top rd \<Longrightarrow>
    agrees W rd rd' \<Longrightarrow> scan_path rd' callee' pc Depth Path s = (SCAN_DEAD, W)"
proof (induction rd callee s and rd callee pc Depth Path s rule: scan_stack_scan_path.induct)
  case (1 rd callee s)
  show ?case
  proof (cases "Stack s")
    case Nil
    then show ?thesis using 1(2) by (simp add: scan_stack.simps)
  next
    case (Cons fr fs)
    obtain pc Depth where fr: "fr = (pc, Depth)" by (cases fr)
    then show ?thesis using 1(1) [OF Cons fr [symmetric]] 1(2-) Cons by (simp add: scan_stack.simps [of rd callee s] scan_stack.simps [of rd' callee' s])
  qed
next
  case (2 rd callee pc Depth Path s)
  note r = round_frame [OF 2(4-6)]
  show ?case
  proof (cases "scan_word rd callee pc Depth Path s")
    case (Return v W')
    then show ?thesis using 2(3) round_return [OF Return] by (simp add: scan_path.simps)
  next
    case (Break s')
    then have d: "scan_stack rd callee s' = (SCAN_DEAD, W)" using 2(3) by (simp add: scan_path.simps)
    then have "agrees (Out s') rd rd'" "Worst s' = SCAN_DEAD"
      using agrees_widens [OF 2(7)] scan_widens(1) [OF 2(5), where rd = rd and s = s'] scan_worst(1) [of rd callee s'] by simp_all
    then show ?thesis using r(1) [OF Break] 2(1) [OF Break d 2(4-7)] by (simp add: scan_path.simps [of rd' callee' pc])
  next
    case (Continue pc' s')
    then have d: "scan_path rd callee pc' (Suc Depth) (Suc Path) s' = (SCAN_DEAD, W)" using 2(3) by (simp add: scan_path.simps [of rd callee pc])
    then have "agrees (Out s') rd rd'"
      using agrees_widens [OF 2(7)] scan_widens(2) [OF 2(5), where rd = rd and pc = pc' and Depth = "Suc Depth" and Path = "Suc Path" and s = s'] by simp
    then show ?thesis using r(2) [OF Continue] 2(2) [OF Continue d 2(4-7)] by (simp add: scan_path.simps [of rd' callee' pc])
  qed
qed

lemma ScanWitnessed_frame:
  assumes "ScanWitnessed t f rd W = (SCAN_DEAD, W')" "below_top rd" "agrees W' rd rd'"
  shows "ScanWitnessed t f rd' W = (SCAN_DEAD, W')"
proof -
  let ?c = "\<lambda>rd. if f then Some (\<lambda>t v. scan_stack rd None (scan_start t v)) else None"
  have n: "callee_frame rd rd' None None" by (simp add: callee_frame_def)
  have "scan_stack rd' None (scan_start t V) = (SCAN_DEAD, V')" if "scan_stack rd None (scan_start t V) = (SCAN_DEAD, V')" "agrees V' rd rd'" for t V V'
    by (rule scan_frame(1) [OF that(1) n _ assms(2) that(2)]) simp
  then have "callee_frame rd rd' (?c rd) (?c rd')" by (auto simp: callee_frame_def)
  moreover have "callee_widens (?c rd)"
  proof -
    have "widens V (snd (scan_stack rd None (scan_start t V)))" for t V
      using scan_widens(1) [where callee = None and rd = rd and s = "scan_start t V"] by (simp add: scan_start_def)
    then show ?thesis by (simp add: callee_widens_def)
  qed
  ultimately show ?thesis using scan_frame(1) [OF assms(1) [unfolded ScanWitnessed_def] _ _ assms(2,3)] unfolding ScanWitnessed_def by blast
qed

lemma ScanWitnessed_widens: "ScanWitnessed t False rd W = (v, W') \<Longrightarrow> widens W W'"
  using scan_widens(1) [where callee = None and rd = rd and s = "scan_start t W"] by (simp add: ScanWitnessed_def scan_start_def)

section \<open>Live verdicts\<close>

inductive flows :: "guest_words \<Rightarrow> bool \<Rightarrow> u64 \<Rightarrow> u64 \<Rightarrow> bool" for rd :: guest_words and FollowBL :: bool and target :: u64 where
  start: "flows rd FollowBL target target"
| next_word: "\<lbrakk>flows rd FollowBL target pc; rd pc = Some Insn; ClassifyGuestWord Insn = (Kind, Offset); Kind = WC_NEUTRAL \<or> Kind = WC_SVC \<or> Kind = WC_TWOWAY\<rbrakk>
    \<Longrightarrow> flows rd FollowBL target (pc + 4)"
| branch: "\<lbrakk>flows rd FollowBL target pc; rd pc = Some Insn; ClassifyGuestWord Insn = (Kind, Offset); Kind = WC_BRANCH \<or> Kind = WC_TWOWAY \<or> Kind = WC_CALL \<and> FollowBL\<rbrakk>
    \<Longrightarrow> flows rd FollowBL target (pc + Offset)"

definition reader_at :: "guest_words \<Rightarrow> u64 \<Rightarrow> bool" where
  "reader_at rd pc \<longleftrightarrow> (case rd pc of None \<Rightarrow> False | Some Insn \<Rightarrow> fst (ClassifyGuestWord Insn) = WC_READER)"

definition meets_reader :: "guest_words \<Rightarrow> bool \<Rightarrow> u64 \<Rightarrow> bool" where
  "meets_reader rd f t \<longleftrightarrow> (\<exists>pc. flows rd f t pc \<and> reader_at rd pc)"

lemma flows_trans: "flows rd f u pc \<Longrightarrow> flows rd f t u \<Longrightarrow> flows rd f t pc"
  by (induction rule: flows.induct) (auto intro: flows.intros)

lemma flows_follow: "flows rd False t pc \<Longrightarrow> flows rd f t pc"
  by (induction rule: flows.induct) (auto intro: flows.intros)

lemma meets_reader_flows: "meets_reader rd f u \<Longrightarrow> flows rd f t u \<Longrightarrow> meets_reader rd f t"
  unfolding meets_reader_def by (blast intro: flows_trans)

definition callee_live :: "guest_words \<Rightarrow> bool \<Rightarrow> callee_scan option \<Rightarrow> bool" where
  "callee_live rd f callee \<longleftrightarrow> (\<forall>scan t V V'. callee = Some scan \<longrightarrow> scan t V = (SCAN_LIVE, V') \<longrightarrow> f \<and> meets_reader rd f t)"

lemma round_flows:
  assumes "flows rd f t pc" "callee_live rd f callee"
  shows "scan_word rd callee pc Depth Path s = Return SCAN_LIVE W \<Longrightarrow> meets_reader rd f t"
    and "scan_word rd callee pc Depth Path s = Break s' \<Longrightarrow> Stack s' = Stack s \<and> (Worst s' = SCAN_LIVE \<longrightarrow> Worst s = SCAN_LIVE)"
    and "scan_word rd callee pc Depth Path s = Continue pc' s' \<Longrightarrow>
      flows rd f t pc' \<and> pending s' \<subseteq> Collect (flows rd f t) \<union> pending s \<and> Worst s' = Worst s"
proof -
  show "scan_word rd callee pc Depth Path s = Break s' \<Longrightarrow> Stack s' = Stack s \<and> (Worst s' = SCAN_LIVE \<longrightarrow> Worst s = SCAN_LIVE)"
    unfolding round_defs by (auto simp: Let_def split: round_splits)
  show "scan_word rd callee pc Depth Path s = Continue pc' s' \<Longrightarrow>
      flows rd f t pc' \<and> pending s' \<subseteq> Collect (flows rd f t) \<union> pending s \<and> Worst s' = Worst s"
  proof -
    assume c: "scan_word rd callee pc Depth Path s = Continue pc' s'"
    then obtain Insn Kind Offset where i: "rd pc = Some Insn" "ClassifyGuestWord Insn = (Kind, Offset)"
      by (cases "ClassifyGuestWord (the (rd pc))") (auto simp: scan_word_def Let_def split: if_splits option.splits)
    show ?thesis using c i flows.next_word [OF assms(1) i] flows.branch [OF assms(1) i] unfolding round_defs
      by (cases Kind) (auto simp: Let_def image_iff split: if_splits option.splits prod.splits ScanVerdict.splits)
  qed
  assume r: "scan_word rd callee pc Depth Path s = Return SCAN_LIVE W"
  then obtain Insn Kind Offset where i: "rd pc = Some Insn" "ClassifyGuestWord Insn = (Kind, Offset)"
    by (cases "ClassifyGuestWord (the (rd pc))") (auto simp: scan_word_def Let_def split: if_splits option.splits)
  have "Kind = WC_READER \<or> Kind = WC_CALL \<and> (\<exists>scan V V'. callee = Some scan \<and> scan (pc + Offset) V = (SCAN_LIVE, V'))"
    using r i unfolding round_defs by (auto simp: Let_def split: round_splits)
  then show "meets_reader rd f t"
  proof
    assume "Kind = WC_READER"
    then show ?thesis using assms(1) i by (auto simp: meets_reader_def reader_at_def)
  next
    assume k: "Kind = WC_CALL \<and> (\<exists>scan V V'. callee = Some scan \<and> scan (pc + Offset) V = (SCAN_LIVE, V'))"
    then have "f" "meets_reader rd f (pc + Offset)" using assms(2) unfolding callee_live_def by blast+
    then show ?thesis using flows.branch [OF assms(1) i] k meets_reader_flows by blast
  qed
qed

lemma scan_live:
  "fst (scan_stack rd callee s) = SCAN_LIVE \<Longrightarrow> callee_live rd f callee \<Longrightarrow> Worst s \<noteq> SCAN_LIVE \<Longrightarrow>
    \<forall>x \<in> pending s. flows rd f t x \<Longrightarrow> meets_reader rd f t"
  "fst (scan_path rd callee pc Depth Path s) = SCAN_LIVE \<Longrightarrow> callee_live rd f callee \<Longrightarrow> Worst s \<noteq> SCAN_LIVE \<Longrightarrow>
    \<forall>x \<in> insert pc (pending s). flows rd f t x \<Longrightarrow> meets_reader rd f t"
proof (induction rd callee s and rd callee pc Depth Path s rule: scan_stack_scan_path.induct)
  case (1 rd callee s)
  show ?case
  proof (cases "Stack s")
    case Nil
    then show ?thesis using 1(2,4) by (simp add: scan_stack.simps)
  next
    case (Cons fr fs)
    obtain pc Depth where fr: "fr = (pc, Depth)" by (cases fr)
    then show ?thesis using 1(1) [OF Cons fr [symmetric]] 1(2-) Cons by (simp add: scan_stack.simps [of rd callee s])
  qed
next
  case (2 rd callee pc Depth Path s)
  have pc: "flows rd f t pc" using 2(6) by blast
  note r = round_flows [OF pc 2(4)]
  show ?case
  proof (cases "scan_word rd callee pc Depth Path s")
    case (Return v W)
    then show ?thesis using 2(3) r(1) by (simp add: scan_path.simps)
  next
    case (Break s')
    then show ?thesis using 2(1) [OF Break _ 2(4)] 2(3,5,6) r(2) [OF Break] by (auto simp: scan_path.simps [of rd callee pc])
  next
    case (Continue pc' s')
    have n: "flows rd f t pc'" "pending s' \<subseteq> Collect (flows rd f t) \<union> pending s" "Worst s' = Worst s"
      using r(3) [OF Continue] by simp_all
    have "pending s \<subseteq> Collect (flows rd f t)" using 2(6) by auto
    then have "pending s' \<subseteq> Collect (flows rd f t)" using n(2) by blast
    then have "\<forall>x \<in> insert pc' (pending s'). flows rd f t x" using n(1) by auto
    moreover have "Worst s' \<noteq> SCAN_LIVE" using n(3) 2(5) by simp
    ultimately show ?thesis using 2(2) [OF Continue _ 2(4)] 2(3) Continue by (simp add: scan_path.simps [of rd callee pc])
  qed
qed

lemma ScanWitnessed_live:
  assumes "fst (ScanWitnessed t f rd W) = SCAN_LIVE"
  shows "meets_reader rd f t"
proof -
  have start: "meets_reader rd g u" if "fst (scan_stack rd c (scan_start u V)) = SCAN_LIVE" "callee_live rd g c" for g u V c
    by (rule scan_live(1) [OF that]) (simp_all add: scan_start_def flows.start)
  have "meets_reader rd f u" if "scan_stack rd None (scan_start u V) = (SCAN_LIVE, V')" for u V V'
    using start [of None u V False] that by (auto simp: callee_live_def meets_reader_def intro: flows_follow)
  then have "callee_live rd f (if f then Some (\<lambda>t v. scan_stack rd None (scan_start t v)) else None)"
    by (auto simp: callee_live_def)
  then show ?thesis using assms start unfolding ScanWitnessed_def by blast
qed

section \<open>Properties\<close>

text \<open>
  A concrete processor for the witnesses: a program counter and the flags, and words that run as
  their classes say.
\<close>

definition demo_step :: "guest_words \<Rightarrow> u64 \<times> u8 \<Rightarrow> u64 \<times> u8" where
  "demo_step rd s =
     (case rd (fst s) of
        None \<Rightarrow> s
      | Some Insn \<Rightarrow>
          (case ClassifyGuestWord Insn of (Kind, Offset) \<Rightarrow>
            if Kind = WC_WRITER then (fst s + 4, 0)
            else if Kind = WC_BRANCH \<or> Kind = WC_CALL \<or> Kind = WC_TWOWAY then (fst s + Offset, snd s)
            else (fst s + 4, snd s)))"

lemma demo_respects: "respects_classes rd (demo_step rd) fst (\<lambda>s t. fst s = fst t)"
  unfolding respects_classes_def by (auto simp: demo_step_def split: option.splits prod.splits WordClass.splits)

text \<open>\<open>add x0, x0, #1; cmp x0, x1\<close>\<close>

definition demo_words :: guest_words where
  "demo_words = [0x1000 \<mapsto> 0x91000400, 0x1004 \<mapsto> 0xEB01001F]"

lemma demo_scan: "ScanWitnessed 0x1000 False demo_words Witness = (SCAN_DEAD, \<lparr>Low = 0x1000, High = 0x1008\<rparr>)"
  by code_simp

text \<open>
  C16. A dead verdict of the flag scan is sound and rests on the scanned words alone. Let the scan
  of a target answer \<open>SCAN_DEAD\<close> with some extent. On any processor that runs words as their classes
  say, and over any later memory that agrees with the scanned one on that extent, two states at
  the target that differ only in the flags never differ in anything else, however long they run.
\<close>

theorem nzcv_dead_unobservable:
  assumes "ScanWitnessed (pc s) FollowBL rd W = (SCAN_DEAD, W')" "below_top rd" "agrees W' rd rd'"
    "respects_classes rd' step pc eqv" "eqv s t"
  shows "eqv ((step ^^ k) s) ((step ^^ k) t)"
proof -
  have "fst (ScanWitnessed (pc s) FollowBL rd' W) = SCAN_DEAD" using ScanWitnessed_frame [OF assms(1-3)] by simp
  then obtain S where S: "pc s \<in> S" "safe_set rd' FollowBL S" using ScanWitnessed_completes unfolding completes_def by blast
  have "\<forall>s. eqv s s" using assms(4) unfolding respects_classes_def by (rule conjunct1)
  then show ?thesis using safe_run [OF assms(4) S(2,1) assms(5), of k] by auto
qed

lemma demo_below_top: "below_top demo_words"
  by (auto simp: below_top_def demo_words_def)

theorem nzcv_dead_unobservable_witness:
  "fst ((demo_step demo_words ^^ 5) (0x1000, 7)) = fst ((demo_step demo_words ^^ 5) (0x1000, 2))"
  by (rule nzcv_dead_unobservable [where pc = fst and rd = demo_words and s = "(0x1000, 7)" and FollowBL = False, simplified, OF demo_scan demo_below_top _ demo_respects])
    (simp_all add: agrees_def)

text \<open>
  A live verdict is justified: some path of words that do not overwrite the flags leads from
  the target to a word that reads them.
\<close>

theorem nzcv_live_reader:
  assumes "Scan Target FollowBL rd = SCAN_LIVE"
  shows "\<exists>pc. flows rd FollowBL Target pc \<and> reader_at rd pc"
  using ScanWitnessed_live assms unfolding Scan_def meets_reader_def .

theorem nzcv_live_reader_witness:
  "\<exists>pc. flows [0x1000 \<mapsto> 0x54000040] False 0x1000 pc \<and> reader_at [0x1000 \<mapsto> 0x54000040] pc"
proof (rule nzcv_live_reader)
  show "Scan 0x1000 False [0x1000 \<mapsto> 0x54000040] = SCAN_LIVE" by code_simp
qed

end
