(* ===== verification/DecodeTable.thy ===== *)
theory DecodeTable
  imports Prelude "HOL-Library.Multiset" "HOL-Library.List_Lexorder" "HOL-Library.Char_ord"
begin

text \<open>
  The A64 decode table: the lookup of \<open>A64Frontend/DecodeTable.cpp\<close> over the bucket arrays, and the
  build-time generator of those arrays, \<open>FEXCore/Scripts/a64_decode_table_generator.py\<close>. The list of
  entries (the file \<open>a64.inc\<close>), the handler table and the weights are arguments.
\<close>

section \<open>Entries\<close>

record raw_entry =
  EntryName :: string
  EntryDescription :: string
  EntryBits :: string

fun ParseBits_from :: "nat \<Rightarrow> string \<Rightarrow> u32 \<times> u32 \<Rightarrow> u32 \<times> u32" where
  "ParseBits_from i [] out = out"
| "ParseBits_from i (c # cs) (Mask, Expect) =
     (let Bit = push_bit (31 - i) 1 in
      ParseBits_from (Suc i) cs
        (if c = CHR ''0'' then (Mask OR Bit, Expect)
         else if c = CHR ''1'' then (Mask OR Bit, Expect OR Bit)
         else (Mask, Expect)))"

definition ParseBits :: "string \<Rightarrow> u32 \<times> u32" where
  "ParseBits s = ParseBits_from 0 s (0, 0)"

definition FastLookupIndex :: "u32 \<Rightarrow> u32" where
  "FastLookupIndex w = (drop_bit 10 w AND 0x00F) OR (drop_bit 18 w AND 0x3FF0)"

definition entry_mask :: "raw_entry \<Rightarrow> u32" where "entry_mask e = fst (ParseBits (EntryBits e))"

definition entry_expect :: "raw_entry \<Rightarrow> u32" where "entry_expect e = snd (ParseBits (EntryBits e))"

definition entry_matches :: "u32 \<Rightarrow> raw_entry \<Rightarrow> bool" where
  "entry_matches w e \<longleftrightarrow> w AND entry_mask e = entry_expect e"

section \<open>The generator\<close>

text \<open>An entry of the generator is its position in the file and the file's entry.\<close>

type_synonym gen_entry = "nat \<times> raw_entry"

definition comes_first :: "gen_entry \<Rightarrow> bool" where
  "comes_first e \<longleftrightarrow> EntryDescription (snd e) \<in>
     {''MOVI, MVNI, ORR, BIC (vector, immediate)'', ''FMOV (vector, immediate)'', ''Unallocated SIMD modified immediate''}"

definition priority_order :: "gen_entry list \<Rightarrow> gen_entry list" where
  "priority_order es =
     (let by_specificity = sort_key (\<lambda>e. - int (card {n. bit (entry_mask (snd e)) n})) es
      in filter comes_first by_specificity @ filter (\<lambda>e. \<not> comes_first e) by_specificity)"

text \<open>The loop of \<open>reachable_buckets\<close> over the subsets of the free index bits.\<close>

lemma and_less_word: "(x :: u32) \<noteq> 0 \<Longrightarrow> unat ((x - 1) AND m) < unat x"
proof -
  assume "x \<noteq> 0"
  then have "unat (x - 1) < unat x" by (simp add: unat_minus_one unat_gt_0)
  moreover have "(x - 1) AND m \<le> x - 1" by (simp add: word_and_le1 word_and_le2)
  ultimately show ?thesis by (simp add: word_le_nat_alt)
qed

function subset_loop :: "u32 \<Rightarrow> u32 \<Rightarrow> u32 \<Rightarrow> u32 list" where
  "subset_loop free want sub = (want OR sub) # (if sub = 0 then [] else subset_loop free want ((sub - 1) AND free))"
  by pat_completeness auto
termination
  by (relation "measure (\<lambda>(free, want, sub). unat sub)") (simp_all add: and_less_word)

declare subset_loop.simps [simp del]

abbreviation INDEX_MASK :: u32 where "INDEX_MASK \<equiv> 0x3FFF"
abbreviation INDEX_COUNT :: nat where "INDEX_COUNT \<equiv> 16384"

definition reachable_buckets :: "raw_entry \<Rightarrow> u32 list" where
  "reachable_buckets e =
     (let fixed = FastLookupIndex (entry_mask e); want = FastLookupIndex (entry_expect e); free = NOT fixed AND INDEX_MASK
      in subset_loop free want free)"

definition build_buckets :: "gen_entry list \<Rightarrow> gen_entry list list" where
  "build_buckets order =
     fold (\<lambda>e bs. fold (\<lambda>i bs. bs[unat i := bs ! unat i @ [e]]) (reachable_buckets (snd e)) bs) order (replicate INDEX_COUNT [])"

definition disjoint_entries :: "gen_entry \<Rightarrow> gen_entry \<Rightarrow> bool" where
  "disjoint_entries a b \<longleftrightarrow> (entry_expect (snd a) XOR entry_expect (snd b)) AND entry_mask (snd a) AND entry_mask (snd b) \<noteq> 0"

text \<open>One pass over a bucket, and the passes until nothing moves.\<close>

type_synonym weights = "string \<times> string \<Rightarrow> nat"

definition weight_of :: "weights \<Rightarrow> gen_entry \<Rightarrow> nat" where
  "weight_of weight e = weight (EntryName (snd e), EntryBits (snd e))"

fun reorder_pass :: "weights \<Rightarrow> gen_entry list \<Rightarrow> bool \<times> gen_entry list" where
  "reorder_pass weight (x # y # b) =
     (if weight_of weight y > weight_of weight x \<and> disjoint_entries x y
      then (True, y # snd (reorder_pass weight (x # b)))
      else (let (swapped, b') = reorder_pass weight (y # b) in (swapped, x # b')))"
| "reorder_pass weight b = (False, b)"

fun inversions :: "weights \<Rightarrow> gen_entry list \<Rightarrow> nat" where
  "inversions weight [] = 0"
| "inversions weight (x # b) = length (filter (\<lambda>y. weight_of weight y > weight_of weight x) b) + inversions weight b"

lemma reorder_pass_mset [simp]: "mset (snd (reorder_pass weight b)) = mset b"
  by (induction weight b rule: reorder_pass.induct) (auto simp: add_mset_commute split: prod.splits)

lemma length_filter_mset: "mset b = mset b' \<Longrightarrow> length (filter P b) = length (filter P b')"
  by (metis mset_filter size_mset)

lemma reorder_pass_inversions:
  "inversions weight (snd (reorder_pass weight b)) + of_bool (fst (reorder_pass weight b)) \<le> inversions weight b"
proof (induction weight b rule: reorder_pass.induct)
  case (1 weight x y b)
  show ?case
  proof (cases "weight_of weight y > weight_of weight x \<and> disjoint_entries x y")
    case True
    have "length (filter (\<lambda>z. weight_of weight z > weight_of weight y) (snd (reorder_pass weight (x # b)))) =
        length (filter (\<lambda>z. weight_of weight z > weight_of weight y) (x # b))" by (rule length_filter_mset) simp
    then show ?thesis using 1(1) [OF True] True by (simp split: if_splits)
  next
    case False
    have "length (filter (\<lambda>z. weight_of weight z > weight_of weight x) (snd (reorder_pass weight (y # b)))) =
        length (filter (\<lambda>z. weight_of weight z > weight_of weight x) (y # b))" by (rule length_filter_mset) simp
    then show ?thesis using 1(2) [OF False] False by (auto simp: split: prod.splits)
  qed
qed simp_all

function reorder_by_weight :: "weights \<Rightarrow> gen_entry list \<Rightarrow> gen_entry list" where
  "reorder_by_weight weight b =
     (let (swapped, b') = reorder_pass weight b in if swapped then reorder_by_weight weight b' else b')"
  by pat_completeness auto
termination
proof (relation "measure (\<lambda>(weight, b). inversions weight b)")
  show "((weight, b'), weight, b) \<in> measure (\<lambda>(weight, b). inversions weight b)"
    if "x = reorder_pass weight b" "(swapped, b') = x" swapped for weight b x swapped b'
  proof -
    have "reorder_pass weight b = (True, b')" using that by simp
    then show ?thesis using reorder_pass_inversions [of weight b] by simp
  qed
qed simp

declare reorder_by_weight.simps [simp del]

definition starts_of :: "gen_entry list list \<Rightarrow> nat list" where
  "starts_of buckets = map (\<lambda>k. sum_list (map length (take k buckets))) [0..<Suc (length buckets)]"

section \<open>The lookup\<close>

record 'h inst_matcher =
  Name :: string
  Mask :: u32
  Expect :: u32
  Handler :: "'h option"
  RawIndex :: nat

record 'h decode_tables =
  RawTable :: "raw_entry list"
  A64DecodeSlot :: "nat list"
  A64DecodeBucketStart :: "nat list"
  HandlerTable :: "(string \<times> 'h) list"

text \<open>Positions of the handler table in the order of their names, the first position of a name first.\<close>

definition HandlerOrder :: "(string \<times> 'h) list \<Rightarrow> nat list" where
  "HandlerOrder H = sort_key (\<lambda>i. fst (H ! i)) [0..<length H]"

definition FindHandler :: "(string \<times> 'h) list \<Rightarrow> string \<Rightarrow> 'h option" where
  "FindHandler H n =
     (case dropWhile (\<lambda>i. fst (H ! i) < n) (HandlerOrder H) of
        [] \<Rightarrow> None
      | i # _ \<Rightarrow> if fst (H ! i) = n then Some (snd (H ! i)) else None)"

definition Matchers :: "'h decode_tables \<Rightarrow> nat \<Rightarrow> 'h inst_matcher" where
  "Matchers T i =
     \<lparr>Name = EntryName (RawTable T ! i), Mask = entry_mask (RawTable T ! i), Expect = entry_expect (RawTable T ! i),
      Handler = FindHandler (HandlerTable T) (EntryName (RawTable T ! i)), RawIndex = i\<rparr>"

definition ScanTable :: "'h decode_tables \<Rightarrow> nat \<Rightarrow> u32 \<times> u32" where
  "ScanTable T i = (entry_mask (RawTable T ! (A64DecodeSlot T ! i)), entry_expect (RawTable T ! (A64DecodeSlot T ! i)))"

definition DecodeInstruction :: "'h decode_tables \<Rightarrow> u32 \<Rightarrow> 'h inst_matcher option" where
  "DecodeInstruction T w =
     (let Index = unat (FastLookupIndex w);
          End = A64DecodeBucketStart T ! (Index + 1)
      in case filter (\<lambda>Slot. w AND fst (ScanTable T Slot) = snd (ScanTable T Slot)) [A64DecodeBucketStart T ! Index..<End] of
           [] \<Rightarrow> None
         | Slot # _ \<Rightarrow> Some (Matchers T (A64DecodeSlot T ! Slot)))"

text \<open>The arrays that the generator writes for a list of entries.\<close>

definition generate :: "weights \<Rightarrow> raw_entry list \<Rightarrow> (string \<times> 'h) list \<Rightarrow> 'h decode_tables" where
  "generate weight raw H =
     (let buckets = map (reorder_by_weight weight) (build_buckets (priority_order (enumerate 0 raw)))
      in \<lparr>RawTable = raw, A64DecodeSlot = map fst (concat buckets), A64DecodeBucketStart = starts_of buckets, HandlerTable = H\<rparr>)"

end
