(* ===== verification/DecodeTableSpec.thy ===== *)
theory DecodeTableSpec
  imports DecodeTable
begin

text \<open>
  The generated decode table against its specification: the first matching entry in priority
  order.
\<close>

section \<open>Subsets of the index bits\<close>

lemma nat_submask_iff:
  fixes t free :: nat
  shows "t AND free = t \<longleftrightarrow> (odd t \<longrightarrow> odd free) \<and> t div 2 AND free div 2 = t div 2"
proof -
  have r: "t AND free = of_bool (odd t \<and> odd free) + 2 * (t div 2 AND free div 2)" by (rule and_rec)
  have d: "t = of_bool (odd t) + 2 * (t div 2)" by simp
  show ?thesis
  proof
    assume e: "t AND free = t"
    then have "odd (t AND free) = odd t" "(t AND free) div 2 = t div 2" by simp_all
    then show "(odd t \<longrightarrow> odd free) \<and> t div 2 AND free div 2 = t div 2" unfolding r by auto
  next
    assume "(odd t \<longrightarrow> odd free) \<and> t div 2 AND free div 2 = t div 2"
    then show "t AND free = t" unfolding r using d by (cases "odd t") simp_all
  qed
qed

lemma nat_submask_pred:
  fixes t sub free :: nat
  assumes "t AND free = t" "sub AND free = sub" "t < sub"
  shows "t \<le> (sub - 1) AND free"
  using assms
proof (induction sub arbitrary: t free rule: less_induct)
  case (less sub)
  have t: "odd t \<longrightarrow> odd free" "t div 2 AND free div 2 = t div 2" using less.prems(1) nat_submask_iff [of t free] by simp_all
  have s: "odd sub \<longrightarrow> odd free" "sub div 2 AND free div 2 = sub div 2" using less.prems(2) nat_submask_iff [of sub free] by simp_all
  have r: "(sub - 1) AND free = of_bool (odd (sub - 1) \<and> odd free) + 2 * ((sub - 1) div 2 AND free div 2)" by (rule and_rec)
  show ?case
  proof (cases "odd sub")
    case True
    then have "(sub - 1) div 2 = sub div 2" "even (sub - 1)" by presburger+
    then have "(sub - 1) AND free = 2 * (sub div 2)" unfolding r using s(2) by simp
    then show ?thesis using less.prems(3) True by presburger
  next
    case False
    then have e: "(sub - 1) div 2 = sub div 2 - 1" "odd (sub - 1)" "t div 2 < sub div 2" "sub div 2 < sub" using less.prems(3) by presburger+
    have "t div 2 \<le> (sub div 2 - 1) AND free div 2" using less.IH [OF e(4) t(2) s(2) e(3)] .
    moreover have "t \<le> of_bool (odd free) + 2 * (t div 2)" using t(1) by (cases "odd t") auto
    ultimately have "t \<le> of_bool (odd free) + 2 * ((sub div 2 - 1) AND free div 2)" by linarith
    then show ?thesis unfolding r e(1) using e(2) by simp
  qed
qed

lemma submask_pred:
  fixes t sub free :: u32
  assumes "t AND free = t" "sub AND free = sub" "t < sub"
  shows "t \<le> (sub - 1) AND free"
proof -
  have u: "unat (x AND y) = unat x AND unat y" for x y :: u32 by (rule unsigned_and_eq)
  have "unat t AND unat free = unat t" "unat sub AND unat free = unat sub" using assms(1,2) by (simp_all flip: u)
  moreover have "unat t < unat sub" using assms(3) by (simp add: word_less_nat_alt)
  ultimately have "unat t \<le> (unat sub - 1) AND unat free" by (rule nat_submask_pred)
  moreover have "unat (sub - 1) = unat sub - 1" using assms(3) by (intro unat_minus_one) auto
  ultimately show ?thesis by (simp add: word_le_nat_alt u)
qed

lemma subset_loop_complete:
  assumes "t AND free = t" "sub AND free = sub" "t \<le> sub"
  shows "want OR t \<in> set (subset_loop free want sub)"
  using assms
proof (induction free want sub rule: subset_loop.induct)
  case (1 free want sub)
  show ?case
  proof (cases "t = sub")
    case True
    then show ?thesis by (subst subset_loop.simps) simp
  next
    case False
    then have l: "t < sub" "sub \<noteq> 0" using "1.prems"(3) by auto
    have "want OR t \<in> set (subset_loop free want ((sub - 1) AND free))"
    proof (rule "1.IH" [OF l(2) "1.prems"(1)])
      show "((sub - 1) AND free) AND free = (sub - 1) AND free" by (simp add: and.assoc)
      show "t \<le> (sub - 1) AND free" using "1.prems"(1,2) l(1) by (rule submask_pred)
    qed
    then show ?thesis using l(2) by (subst subset_loop.simps) simp
  qed
qed

section \<open>Index bits\<close>

lemma index_bit: "bit (FastLookupIndex w) n \<longleftrightarrow> n < 4 \<and> bit w (n + 10) \<or> 4 \<le> n \<and> n < 14 \<and> bit w (n + 18)"
proof -
  have c: "(0xF :: u32) = mask 4" "(0x3FF0 :: u32) = push_bit 4 (mask 10)" by (simp_all add: mask_eq_exp_minus_1)
  show ?thesis unfolding FastLookupIndex_def c by (auto simp: bit_simps add.commute)
qed

lemma index_and: "FastLookupIndex (a AND b) = FastLookupIndex a AND FastLookupIndex b"
  by (rule bit_word_eqI) (auto simp: index_bit bit_simps)

lemma index_bound: "FastLookupIndex w AND INDEX_MASK = FastLookupIndex w" "unat (FastLookupIndex w) < INDEX_COUNT"
proof -
  have c: "INDEX_MASK = mask 14" by (simp add: mask_eq_exp_minus_1)
  show m: "FastLookupIndex w AND INDEX_MASK = FastLookupIndex w"
    unfolding c by (rule bit_word_eqI) (auto simp: index_bit bit_simps)
  have "FastLookupIndex w \<le> INDEX_MASK" using word_and_le1 [of "FastLookupIndex w" INDEX_MASK] unfolding m by simp
  then show "unat (FastLookupIndex w) < INDEX_COUNT" by (simp add: word_le_nat_alt)
qed

lemma ParseBits_subset:
  "snd out AND fst out = snd out \<Longrightarrow> snd (ParseBits_from i cs out) AND fst (ParseBits_from i cs out) = snd (ParseBits_from i cs out)"
proof (induction i cs out rule: ParseBits_from.induct)
  case (2 i c cs Mask Expect)
  have *: "snd (Mask OR b, Expect) AND fst (Mask OR b, Expect) = snd (Mask OR b, Expect)"
    "snd (Mask OR b, Expect OR b) AND fst (Mask OR b, Expect OR b) = snd (Mask OR b, Expect OR b)" for b
    using "2.prems" by (auto simp: bit_eq_iff bit_simps)
  show ?case unfolding ParseBits_from.simps Let_def
    by (rule "2.IH" [unfolded Let_def]) (use * "2.prems" in auto)
qed simp

lemma expect_subset: "entry_expect e AND entry_mask e = entry_expect e"
  unfolding entry_expect_def entry_mask_def ParseBits_def by (rule ParseBits_subset) simp

text \<open>A word that an entry matches has its index among the buckets of the entry.\<close>

lemma matches_reachable:
  assumes "entry_matches w e"
  shows "FastLookupIndex w \<in> set (reachable_buckets e)"
proof -
  define fixed where "fixed = FastLookupIndex (entry_mask e)"
  define free where "free = NOT fixed AND INDEX_MASK"
  have w: "FastLookupIndex w AND fixed = FastLookupIndex (entry_expect e)"
    using assms unfolding entry_matches_def fixed_def index_and [symmetric] by simp
  have "FastLookupIndex w = FastLookupIndex (entry_expect e) OR (FastLookupIndex w AND free)"
    unfolding w [symmetric] free_def by (rule bit_word_eqI) (use index_bound(1) [of w] in \<open>auto simp: bit_simps bit_eq_iff\<close>)
  moreover have "FastLookupIndex (entry_expect e) OR (FastLookupIndex w AND free) \<in> set (subset_loop free (FastLookupIndex (entry_expect e)) free)"
    by (rule subset_loop_complete) (simp_all add: and.assoc word_and_le1 word_and_le2)
  ultimately show ?thesis unfolding reachable_buckets_def Let_def fixed_def [symmetric] free_def [symmetric] by simp
qed

section \<open>Buckets\<close>

lemma fold_append_nth:
  assumes "k < length bs"
  shows "length (fold (\<lambda>i bs. bs[unat i := bs ! unat i @ [e]]) is bs) = length bs"
    and "fold (\<lambda>i bs. bs[unat i := bs ! unat i @ [e]]) is bs ! k = bs ! k @ replicate (length (filter (\<lambda>i. unat i = k) is)) e"
  using assms by (induction "is" arbitrary: bs) (auto simp: nth_list_update replicate_app_Cons_same)

lemma find_replicate: "find P (replicate n x @ xs) = (if P x \<and> 0 < n then Some x else find P xs)"
  by (induction n) auto

text \<open>The first match in the bucket of a word is the first match of all.\<close>

lemma find_bucket:
  fixes P :: "gen_entry \<Rightarrow> bool"
  assumes "\<And>e. e \<in> set order \<Longrightarrow> P e \<Longrightarrow> i \<in> set (reachable_buckets (snd e))" "unat i < length bs"
  defines "add \<equiv> \<lambda>e bs. fold (\<lambda>i bs. bs[unat i := bs ! unat i @ [e]]) (reachable_buckets (snd e)) bs"
  shows "length (fold add order bs) = length bs" "find P (fold add order bs ! unat i) = (case find P (bs ! unat i) of Some e \<Rightarrow> Some e | None \<Rightarrow> find P order)"
proof -
  have len: "length (add e bs) = length bs" if "unat i < length bs" for e bs
    unfolding add_def using fold_append_nth(1) [OF that] .
  show "length (fold add order bs) = length bs"
    using assms(2) by (induction order arbitrary: bs) (simp_all add: len)
  have app: "find P (xs @ ys) = (case find P xs of Some e \<Rightarrow> Some e | None \<Rightarrow> find P ys)" for xs ys :: "gen_entry list"
    by (induction xs) auto
  show "find P (fold add order bs ! unat i) = (case find P (bs ! unat i) of Some e \<Rightarrow> Some e | None \<Rightarrow> find P order)"
    using assms(1,2)
  proof (induction order arbitrary: bs)
    case (Cons e order)
    define c where "c = length (filter (\<lambda>j. unat j = unat i) (reachable_buckets (snd e)))"
    have b: "add e bs ! unat i = bs ! unat i @ replicate c e" unfolding add_def c_def using fold_append_nth(2) [OF Cons.prems(2)] .
    have "0 < c" if "P e" using Cons.prems(1) [of e] that by (auto simp: c_def filter_empty_conv)
    then have "find P (add e bs ! unat i) = (case find P (bs ! unat i) of Some x \<Rightarrow> Some x | None \<Rightarrow> if P e then Some e else None)"
      unfolding b app using find_replicate [of P c e "[]"] by (cases "P e") (auto split: option.splits)
    moreover have "find P (fold add order (add e bs) ! unat i) = (case find P (add e bs ! unat i) of Some x \<Rightarrow> Some x | None \<Rightarrow> find P order)"
      by (rule Cons.IH) (use Cons.prems len in simp_all)
    ultimately show ?case by (auto split: option.splits)
  qed (simp split: option.splits)
qed

lemma build_buckets_find:
  fixes P :: "gen_entry \<Rightarrow> bool"
  assumes "\<And>e. P e \<Longrightarrow> FastLookupIndex w \<in> set (reachable_buckets (snd e))"
  shows "length (build_buckets order) = INDEX_COUNT" "find P (build_buckets order ! unat (FastLookupIndex w)) = find P order"
  unfolding build_buckets_def
  using find_bucket [of order P "FastLookupIndex w" "replicate INDEX_COUNT []"] index_bound(2) [of w] assms by simp_all

lemma build_buckets_subset:
  assumes "b \<in> set (build_buckets order)"
  shows "set b \<subseteq> set order"
proof -
  let ?add = "\<lambda>e bs. fold (\<lambda>i bs. bs[unat i := bs ! unat i @ [e]]) (reachable_buckets (snd e)) bs"
  have one: "\<Union> (set ` set (fold (\<lambda>i bs. bs[unat i := bs ! unat i @ [e]]) is bs)) \<subseteq> insert e (\<Union> (set ` set bs))" for e "is" bs
  proof (induction "is" arbitrary: bs)
    case (Cons i "is")
    have "\<Union> (set ` set (bs[unat i := bs ! unat i @ [e]])) \<subseteq> insert e (\<Union> (set ` set bs))"
      using set_update_subset_insert [of bs "unat i" "bs ! unat i @ [e]"]
      by (cases "unat i < length bs") (fastforce simp: list_update_beyond)+
    moreover have "A \<subseteq> insert e B \<Longrightarrow> B \<subseteq> insert e C \<Longrightarrow> A \<subseteq> insert e C" for A B C by blast
    ultimately show ?case using Cons.IH [of "bs[unat i := bs ! unat i @ [e]]"] by (simp only: fold_Cons comp_apply)
  qed auto
  have "\<Union> (set ` set (fold ?add order bs)) \<subseteq> set order \<union> \<Union> (set ` set bs)" for order bs
  proof (induction order arbitrary: bs)
    case (Cons e order)
    then show ?case using one [of e "reachable_buckets (snd e)" bs] Cons.IH [of "?add e bs"] by auto
  qed simp
  from this [of order "replicate INDEX_COUNT []"] show ?thesis using assms unfolding build_buckets_def by auto
qed

section \<open>Reordering\<close>

lemma disjoint_no_common:
  assumes "disjoint_entries x y" "entry_matches w (snd x)" "entry_matches w (snd y)"
  shows False
proof -
  have "(w AND a XOR w AND b) AND a AND b = 0" for a b :: u32 by (rule bit_word_eqI) (auto simp: bit_simps)
  then show False using assms unfolding disjoint_entries_def entry_matches_def by (metis and.assoc)
qed

lemma reorder_pass_find:
  "find (\<lambda>e. entry_matches w (snd e)) (snd (reorder_pass weight b)) = find (\<lambda>e. entry_matches w (snd e)) b"
  by (induction weight b rule: reorder_pass.induct) (auto split: prod.splits dest: disjoint_no_common)

lemma reorder_find:
  "find (\<lambda>e. entry_matches w (snd e)) (reorder_by_weight weight b) = find (\<lambda>e. entry_matches w (snd e)) b"
proof (induction weight b rule: reorder_by_weight.induct)
  case (1 weight b)
  obtain swapped b' where r: "reorder_pass weight b = (swapped, b')" by (cases "reorder_pass weight b")
  then show ?case using "1.IH" [OF r [symmetric] refl] reorder_pass_find [of w weight b]
    by (subst reorder_by_weight.simps) (simp add: Let_def)
qed

lemma reorder_mset [simp]: "mset (reorder_by_weight weight b) = mset b"
proof (induction weight b rule: reorder_by_weight.induct)
  case (1 weight b)
  obtain swapped b' where r: "reorder_pass weight b = (swapped, b')" by (cases "reorder_pass weight b")
  then show ?case using "1.IH" [OF r [symmetric] refl] reorder_pass_mset [of weight b]
    by (subst reorder_by_weight.simps) (simp add: Let_def)
qed

section \<open>The flattened arrays\<close>

lemma slice_concat:
  assumes "i < length bs"
  shows "map ((!) (map f (concat bs))) [sum_list (map length (take i bs))..<sum_list (map length (take (Suc i) bs))] = map f (bs ! i)"
proof -
  define a where "a = sum_list (map length (take i bs))"
  have c: "concat bs = concat (take i bs) @ bs ! i @ concat (drop (Suc i) bs)"
    using id_take_nth_drop [OF assms] by (metis concat.simps(2) concat_append)
  have a: "length (concat (take i bs)) = a" by (simp add: a_def length_concat)
  have s: "sum_list (map length (take (Suc i) bs)) = a + length (bs ! i)" using assms by (simp add: take_Suc_conv_app_nth a_def)
  show ?thesis unfolding s a_def [symmetric]
  proof (rule nth_equalityI)
    fix k assume "k < length (map ((!) (map f (concat bs))) [a..<a + length (bs ! i)])"
    then have k: "k < length (bs ! i)" by simp
    then have "map f (concat bs) ! (a + k) = f (bs ! i ! k)" unfolding c using a by (simp add: nth_append)
    then show "map ((!) (map f (concat bs))) [a..<a + length (bs ! i)] ! k = map f (bs ! i) ! k" using k by simp
  qed simp
qed

section \<open>Handlers\<close>

lemma dropWhile_sorted_key:
  fixes f :: "'a \<Rightarrow> 'b::linorder"
  assumes "sorted (map f xs)"
  shows "dropWhile (\<lambda>x. f x < n) xs = filter (\<lambda>x. f x = n) xs @ filter (\<lambda>x. n < f x) xs"
  using assms
proof (induction xs)
  case (Cons x xs)
  show ?case
  proof (cases "f x < n")
    case True
    then show ?thesis using Cons by auto
  next
    case False
    then have le: "\<forall>y \<in> set xs. n \<le> f y" using Cons.prems by auto
    then have "filter (\<lambda>x. f x = n) xs = [] \<or> f x = n" using False Cons.prems by (force simp: filter_empty_conv)
    moreover have "dropWhile (\<lambda>x. f x < n) xs = xs" using le by (cases xs) auto
    ultimately show ?thesis using False Cons.IH Cons.prems by auto
  qed
qed simp

lemma map_of_filter: "map_of H n = (case filter (\<lambda>i. fst (H ! i) = n) [0..<length H] of [] \<Rightarrow> None | i # _ \<Rightarrow> Some (snd (H ! i)))"
proof (induction H)
  case (Cons h H)
  have "filter (\<lambda>i. fst ((h # H) ! i) = n) [0..<length (h # H)] =
      (if fst h = n then [0] else []) @ map Suc (filter (\<lambda>i. fst (H ! i) = n) [0..<length H])"
    by (simp add: upt_conv_Cons filter_map comp_def flip: map_Suc_upt del: upt_Suc)
  then show ?case using Cons.IH by (auto split: list.splits)
qed simp

lemma FindHandler_map_of: "FindHandler H n = map_of H n"
proof -
  let ?f = "\<lambda>i. fst (H ! i)"
  have "dropWhile (\<lambda>i. ?f i < n) (HandlerOrder H) = filter (\<lambda>i. ?f i = n) (HandlerOrder H) @ filter (\<lambda>i. n < ?f i) (HandlerOrder H)"
    by (rule dropWhile_sorted_key) (simp add: HandlerOrder_def)
  also have "filter (\<lambda>i. ?f i = n) (HandlerOrder H) = filter (\<lambda>i. ?f i = n) [0..<length H]"
    unfolding HandlerOrder_def by (rule sort_key_stable)
  finally have d: "dropWhile (\<lambda>i. ?f i < n) (HandlerOrder H) = filter (\<lambda>i. ?f i = n) [0..<length H] @ filter (\<lambda>i. n < ?f i) (HandlerOrder H)" .
  show ?thesis
  proof (cases "filter (\<lambda>i. ?f i = n) [0..<length H]")
    case Nil
    have "?f i \<noteq> n" if "filter (\<lambda>i. n < ?f i) (HandlerOrder H) = i # js" for i js
      using arg_cong [OF that, of "\<lambda>xs. i \<in> set xs"] by auto
    then show ?thesis unfolding FindHandler_def d map_of_filter [of H n] Nil by (auto split: list.splits)
  next
    case (Cons i ks)
    have "i \<in> set (filter (\<lambda>i. ?f i = n) [0..<length H])" unfolding Cons by simp
    then have "?f i = n" by simp
    then show ?thesis unfolding FindHandler_def d map_of_filter [of H n] Cons by simp
  qed
qed

lemma first_filter: "(case filter (\<lambda>x. Q (h x)) xs of [] \<Rightarrow> None | x # _ \<Rightarrow> Some (g (h x))) = map_option g (find Q (map h xs))"
  by (induction xs) auto

lemma find_map: "find Q (map h xs) = map_option h (find (\<lambda>x. Q (h x)) xs)"
  by (induction xs) auto

section \<open>Properties\<close>

text \<open>
  C22. The decode table decodes as its specification says. For every list of entries, every table
  of handlers and every assignment of weights, the lookup over the generated arrays returns for
  every word the entry that comes first in priority order among those that match it (more fixed
  bits first, after the hoisted entries), with the handler of that name, and nothing when no entry
  matches.
\<close>

theorem decode_reference:
  "DecodeInstruction (generate weight raw H) w =
     map_option (\<lambda>(i, e). \<lparr>Name = EntryName e, Mask = entry_mask e, Expect = entry_expect e, Handler = map_of H (EntryName e), RawIndex = i\<rparr>)
       (find (\<lambda>e. entry_matches w (snd e)) (priority_order (enumerate 0 raw)))"
proof -
  define order where "order = priority_order (enumerate 0 raw)"
  define bs where "bs = map (reorder_by_weight weight) (build_buckets order)"
  define T where "T = generate weight raw H"
  define i where "i = unat (FastLookupIndex w)"
  let ?P = "\<lambda>e :: gen_entry. entry_matches w (snd e)"
  note bb = build_buckets_find [of ?P w order, OF matches_reachable]
  have len: "length bs = INDEX_COUNT" using bb(1) by (simp add: bs_def)
  have i: "i < length bs" using index_bound(2) [of w] by (simp add: i_def len)
  have T: "A64DecodeSlot T = map fst (concat bs)" "A64DecodeBucketStart T = starts_of bs" "RawTable T = raw" "HandlerTable T = H"
    by (simp_all add: T_def generate_def Let_def bs_def order_def)
  have st: "starts_of bs ! k = sum_list (map length (take k bs))" if "k \<le> length bs" for k
    using that by (simp add: starts_of_def nth_map_upt del: upt_Suc)
  have slots: "map ((!) (A64DecodeSlot T)) [A64DecodeBucketStart T ! i..<A64DecodeBucketStart T ! (i + 1)] = map fst (bs ! i)"
    unfolding T using slice_concat [OF i, of fst] st [of i] st [of "Suc i"] i by simp
  have "set (bs ! i) \<subseteq> set order"
  proof -
    have "set (bs ! i) = set (build_buckets order ! i)" using i reorder_mset [THEN mset_eq_setD] by (simp add: bs_def)
    then show ?thesis using build_buckets_subset [of "build_buckets order ! i" order] i by (simp add: bs_def)
  qed
  moreover have "set order = set (enumerate 0 raw)" by (auto simp: order_def priority_order_def Let_def)
  ultimately have raw: "raw ! fst e = snd e" if "e \<in> set (bs ! i)" for e using that by (auto simp: in_set_enumerate_eq)
  let ?Q = "\<lambda>k. w AND entry_mask (raw ! k) = entry_expect (raw ! k)"
  have "DecodeInstruction T w = map_option (Matchers T) (find ?Q (map ((!) (A64DecodeSlot T)) [A64DecodeBucketStart T ! i..<A64DecodeBucketStart T ! (i + 1)]))"
    unfolding DecodeInstruction_def Let_def i_def [symmetric] ScanTable_def T(3) fst_conv snd_conv by (rule first_filter)
  also have "\<dots> = map_option (Matchers T) (map_option fst (find ?P (bs ! i)))"
    unfolding slots find_map by (rule arg_cong [where f = "\<lambda>x. map_option (Matchers T) (map_option fst x)"], rule find_cong) (auto simp: raw entry_matches_def)
  also have "find ?P (bs ! i) = find ?P order" using bb(2) i by (simp add: bs_def i_def reorder_find)
  finally have d: "DecodeInstruction T w = map_option (Matchers T) (map_option fst (find ?P order))" .
  have "raw ! fst e = snd e" if "find ?P order = Some e" for e
    using that \<open>set order = set (enumerate 0 raw)\<close> by (auto simp: find_Some_iff in_set_enumerate_eq)
  then show ?thesis using d unfolding T_def [symmetric] order_def [symmetric]
    by (cases "find ?P order") (auto simp: Matchers_def T FindHandler_map_of split: prod.splits)
qed

end
