(* ===== verification/CodeGranules.thy ===== *)
theory CodeGranules
  imports Prelude
begin

text \<open>
  The code granule bitmap, \<open>FEXCore/Source/Interface/Core/SMCCodeGranules.h\<close>: one bit per 64
  bytes of guest memory in a three-level radix tree. Nodes and leaves live in the vectors
  \<open>AllL1Nodes\<close> and \<open>AllLeaves\<close> that own them, and a pointer is an index into its vector.
  \<open>VirtualAlloc\<close> is the argument \<open>grant\<close>: whether the \<open>n\<close>-th request of this bitmap succeeds.
  The accesses run under the write lock of the map, so that the atomic loads and stores are
  plain ones.
\<close>

section \<open>Layout\<close>

abbreviation kMaxAddress :: u64 where "kMaxAddress \<equiv> 0x1000000000000"

definition L0Index :: "u64 \<Rightarrow> u64" where "L0Index a = drop_bit 35 a AND 0x1FFF"
definition L1Index :: "u64 \<Rightarrow> u64" where "L1Index a = drop_bit 22 a AND 0x1FFF"
definition WordIndex :: "u64 \<Rightarrow> u64" where "WordIndex a = drop_bit 12 a AND 0x3FF"

type_synonym leaf = "u64 \<Rightarrow> u64"
type_synonym pointers = "u64 \<Rightarrow> nat option"

record granule_bitmap =
  Root :: "pointers option"
  AllL1Nodes :: "pointers list"
  AllLeaves :: "leaf list"
  Requests :: nat

definition zero_leaf :: leaf where "zero_leaf = (\<lambda>_. 0)"
definition null_node :: pointers where "null_node = (\<lambda>_. None)"
definition new_bitmap :: granule_bitmap where
  "new_bitmap = \<lparr>Root = None, AllL1Nodes = [], AllLeaves = [], Requests = 0\<rparr>"

section \<open>Operations\<close>

definition AllocZeroed :: "(nat \<Rightarrow> bool) \<Rightarrow> granule_bitmap \<Rightarrow> bool \<times> granule_bitmap" where
  "AllocZeroed grant b = (grant (Requests b), b\<lparr>Requests := Suc (Requests b)\<rparr>)"

definition Enable :: "(nat \<Rightarrow> bool) \<Rightarrow> granule_bitmap \<Rightarrow> granule_bitmap" where
  "Enable grant b =
     (if Root b \<noteq> None then b
      else let (ok, b') = AllocZeroed grant b in if ok then b'\<lparr>Root := Some null_node\<rparr> else b')"

definition Enabled :: "granule_bitmap \<Rightarrow> bool" where "Enabled b \<longleftrightarrow> Root b \<noteq> None"

definition FindLeafFrom :: "granule_bitmap \<Rightarrow> pointers \<Rightarrow> u64 \<Rightarrow> nat option" where
  "FindLeafFrom b r a = (case r (L0Index a) of None \<Rightarrow> None | Some n \<Rightarrow> (AllL1Nodes b ! n) (L1Index a))"

definition FindLeaf :: "granule_bitmap \<Rightarrow> u64 \<Rightarrow> nat option" where
  "FindLeaf b a =
     (case Root b of None \<Rightarrow> None | Some r \<Rightarrow> if kMaxAddress \<le> a then None else FindLeafFrom b r a)"

text \<open>The two halves of \<open>GetOrCreateLeaf\<close>: the interior node, then the leaf.\<close>

definition get_node :: "(nat \<Rightarrow> bool) \<Rightarrow> u64 \<Rightarrow> pointers \<Rightarrow> granule_bitmap \<Rightarrow> nat option \<times> granule_bitmap" where
  "get_node grant a r b =
     (case r (L0Index a) of
        Some n \<Rightarrow> (Some n, b)
      | None \<Rightarrow>
          let (ok, b1) = AllocZeroed grant b in
          if \<not> ok then (None, b1)
          else
            let n = length (AllL1Nodes b1) in
            (Some n, b1\<lparr>AllL1Nodes := AllL1Nodes b1 @ [null_node], Root := Some (r(L0Index a \<mapsto> n))\<rparr>))"

definition get_leaf :: "(nat \<Rightarrow> bool) \<Rightarrow> u64 \<Rightarrow> nat \<Rightarrow> granule_bitmap \<Rightarrow> nat option \<times> granule_bitmap" where
  "get_leaf grant a n b =
     (case (AllL1Nodes b ! n) (L1Index a) of
        Some l \<Rightarrow> (Some l, b)
      | None \<Rightarrow>
          let (ok, b1) = AllocZeroed grant b in
          if \<not> ok then (None, b1)
          else
            let l = length (AllLeaves b1) in
            (Some l, b1\<lparr>AllLeaves := AllLeaves b1 @ [zero_leaf],
                        AllL1Nodes := (AllL1Nodes b1)[n := (AllL1Nodes b1 ! n)(L1Index a \<mapsto> l)]\<rparr>))"

definition GetOrCreateLeaf :: "(nat \<Rightarrow> bool) \<Rightarrow> u64 \<Rightarrow> granule_bitmap \<Rightarrow> nat option \<times> granule_bitmap" where
  "GetOrCreateLeaf grant a b =
     (case Root b of
        None \<Rightarrow> (None, b)
      | Some r \<Rightarrow>
          if kMaxAddress \<le> a then (None, b)
          else case get_node grant a r b of
              (None, b1) \<Rightarrow> (None, b1)
            | (Some n, b1) \<Rightarrow> get_leaf grant a n b1)"

text \<open>Bit numbers are below 64, so that natural numbers stand for the \<open>uint32_t\<close> of the code.\<close>

definition BitRangeMask :: "nat \<Rightarrow> nat \<Rightarrow> u64" where
  "BitRangeMask f l =
     (let cnt = l - f + 1; base = (if cnt \<ge> 64 then NOT 0 else push_bit cnt 1 - 1) in push_bit f base)"

definition PageMaskFor :: "u64 \<Rightarrow> u64 \<Rightarrow> u64 \<Rightarrow> u64" where
  "PageMaskFor base start len =
     (if len = 0 then NOT 0
      else
        let pend = base + push_bit 12 1;
            lo = (if start > base then start else base);
            hi = (if start + len < pend then start + len else pend) in
        if lo \<ge> hi then NOT 0
        else BitRangeMask (unat (drop_bit 6 (lo - base))) (unat (drop_bit 6 (hi - 1 - base))))"

definition write_leaf :: "nat \<Rightarrow> u64 \<Rightarrow> u64 \<Rightarrow> granule_bitmap \<Rightarrow> granule_bitmap" where
  "write_leaf l a w b = b\<lparr>AllLeaves := (AllLeaves b)[l := (AllLeaves b ! l)(WordIndex a := w)]\<rparr>"

definition SetPageRange :: "(nat \<Rightarrow> bool) \<Rightarrow> u64 \<Rightarrow> u64 \<Rightarrow> u64 \<Rightarrow> granule_bitmap \<Rightarrow> granule_bitmap" where
  "SetPageRange grant base start len b =
     (case GetOrCreateLeaf grant base b of
        (None, b1) \<Rightarrow> b1
      | (Some l, b1) \<Rightarrow> write_leaf l base ((AllLeaves b1 ! l) (WordIndex base) OR PageMaskFor base start len) b1)"

definition RecomputePageWord :: "u64 \<Rightarrow> u64 \<Rightarrow> granule_bitmap \<Rightarrow> granule_bitmap" where
  "RecomputePageWord base w b = (case FindLeaf b base of None \<Rightarrow> b | Some l \<Rightarrow> write_leaf l base w b)"

definition ClearPage :: "u64 \<Rightarrow> granule_bitmap \<Rightarrow> granule_bitmap" where
  "ClearPage base b = (case FindLeaf b base of None \<Rightarrow> b | Some l \<Rightarrow> write_leaf l base 0 b)"

definition ClearAll :: "granule_bitmap \<Rightarrow> granule_bitmap" where
  "ClearAll b = b\<lparr>AllLeaves := map (\<lambda>_. zero_leaf) (AllLeaves b)\<rparr>"

text \<open>The body of the page loop of \<open>ProvablyClear\<close>: false where the function returns false.\<close>

definition page_clear :: "granule_bitmap \<Rightarrow> pointers \<Rightarrow> u64 \<Rightarrow> u64 \<Rightarrow> u64 \<Rightarrow> bool" where
  "page_clear b r start fin page =
     (let base = push_bit 12 page in
      case FindLeafFrom b r base of
        None \<Rightarrow> True
      | Some l \<Rightarrow>
          let w = (AllLeaves b ! l) (WordIndex base) in
          if w = 0 then True
          else
            let pend = base + push_bit 12 1;
                lo = (if start > base then start else base);
                hi = (if fin < pend then fin else pend) in
            w AND BitRangeMask (unat (drop_bit 6 (lo - base))) (unat (drop_bit 6 (hi - 1 - base))) = 0)"

definition ProvablyClear :: "granule_bitmap \<Rightarrow> u64 \<Rightarrow> u64 \<Rightarrow> bool" where
  "ProvablyClear b start len =
     (case Root b of
        None \<Rightarrow> False
      | Some r \<Rightarrow>
          if len = 0 then False
          else
            let fin = start + len in
            if fin < start \<or> fin > kMaxAddress then False
            else
              let first = drop_bit 12 start; lst = drop_bit 12 (fin - 1) in
              if lst - first > 3 then False
              else list_all (\<lambda>i. page_clear b r start fin (first + of_nat i)) [0..<Suc (unat (lst - first))])"


section \<open>The tree as an array of page words\<close>

definition wf_bitmap :: "granule_bitmap \<Rightarrow> bool" where
  "wf_bitmap b \<longleftrightarrow>
     (\<forall>r i n. Root b = Some r \<longrightarrow> r i = Some n \<longrightarrow> n < length (AllL1Nodes b)) \<and>
     (\<forall>r i j n. Root b = Some r \<longrightarrow> r i = Some n \<longrightarrow> r j = Some n \<longrightarrow> i = j) \<and>
     (\<forall>n i l. n < length (AllL1Nodes b) \<longrightarrow> (AllL1Nodes b ! n) i = Some l \<longrightarrow> l < length (AllLeaves b)) \<and>
     (\<forall>n i m j l. n < length (AllL1Nodes b) \<longrightarrow> m < length (AllL1Nodes b) \<longrightarrow>
        (AllL1Nodes b ! n) i = Some l \<longrightarrow> (AllL1Nodes b ! m) j = Some l \<longrightarrow> n = m \<and> i = j)"

definition page_word :: "granule_bitmap \<Rightarrow> u64 \<Rightarrow> u64" where
  "page_word b a = (case FindLeaf b a of None \<Rightarrow> 0 | Some l \<Rightarrow> (AllLeaves b ! l) (WordIndex a))"

lemma index_masks:
  "L0Index a = take_bit 13 (drop_bit 35 a)" "L1Index a = take_bit 13 (drop_bit 22 a)"
  "WordIndex a = take_bit 10 (drop_bit 12 a)"
  by (simp_all add: L0Index_def L1Index_def WordIndex_def take_bit_eq_mask mask_eq_exp_minus_1)

lemma below_max_bits: "a < kMaxAddress \<Longrightarrow> 48 \<le> i \<Longrightarrow> \<not> bit a i"
proof -
  assume a: "a < kMaxAddress" and i: "48 \<le> i"
  have "unat a < 2 ^ 48" using a by (simp add: word_less_nat_alt)
  then have "take_bit 48 a = a" by (simp add: take_bit_nat_eq_self unat_arith_simps word_unat_eq_iff unsigned_take_bit_eq)
  then show ?thesis using i by (metis bit_take_bit_iff not_le)
qed

text \<open>The radix aliases nothing: the three indices determine the page.\<close>

lemma radix_injective:
  assumes "a < kMaxAddress" "a' < kMaxAddress"
  shows "L0Index a = L0Index a' \<and> L1Index a = L1Index a' \<and> WordIndex a = WordIndex a' \<longleftrightarrow>
    drop_bit 12 a = drop_bit 12 a'"
proof
  assume e: "L0Index a = L0Index a' \<and> L1Index a = L1Index a' \<and> WordIndex a = WordIndex a'"
  have p0: "bit a (35 + k) = bit a' (35 + k)" if "k < 13" for k
    using arg_cong [OF conjunct1 [OF e], of "\<lambda>x. bit x k"] that by (simp add: index_masks bit_simps add.commute)
  have p1: "bit a (22 + k) = bit a' (22 + k)" if "k < 13" for k
    using arg_cong [OF conjunct1 [OF conjunct2 [OF e]], of "\<lambda>x. bit x k"] that
    by (simp add: index_masks bit_simps add.commute)
  have p2: "bit a (12 + k) = bit a' (12 + k)" if "k < 10" for k
    using arg_cong [OF conjunct2 [OF conjunct2 [OF e]], of "\<lambda>x. bit x k"] that
    by (simp add: index_masks bit_simps add.commute)
  show "drop_bit 12 a = drop_bit 12 a'"
  proof (rule bit_word_eqI)
    fix k assume "k < LENGTH(64)"
    consider "k < 10" | "10 \<le> k" "k < 23" | "23 \<le> k" "k < 36" | "36 \<le> k" by linarith
    then have "bit a (12 + k) = bit a' (12 + k)"
    proof cases
      case 2 then show ?thesis using p1 [of "k - 10"] by simp
    next
      case 3 then show ?thesis using p0 [of "k - 23"] by simp
    next
      case 4 then show ?thesis using below_max_bits assms by simp
    qed (rule p2)
    then show "bit (drop_bit 12 a) k = bit (drop_bit 12 a') k" by (simp add: bit_simps)
  qed
next
  assume d: "drop_bit 12 a = drop_bit 12 a'"
  note d
  moreover have "drop_bit 35 a = drop_bit 35 a'" using arg_cong [OF d, of "drop_bit 23"] by simp
  moreover have "drop_bit 22 a = drop_bit 22 a'" using arg_cong [OF d, of "drop_bit 10"] by simp
  ultimately show "L0Index a = L0Index a' \<and> L1Index a = L1Index a' \<and> WordIndex a = WordIndex a'"
    by (simp add: index_masks)
qed

lemma find_leaf_Some:
  "FindLeaf b a = Some l \<longleftrightarrow>
     (\<exists>r n. Root b = Some r \<and> a < kMaxAddress \<and> r (L0Index a) = Some n \<and> (AllL1Nodes b ! n) (L1Index a) = Some l)"
  by (auto simp: FindLeaf_def FindLeafFrom_def not_le split: option.splits if_splits)

lemma find_leaf_bound:
  assumes "wf_bitmap b" "FindLeaf b a = Some l"
  shows "l < length (AllLeaves b)"
proof -
  obtain r n where "Root b = Some r" "r (L0Index a) = Some n" "(AllL1Nodes b ! n) (L1Index a) = Some l"
    using assms(2) by (auto simp: find_leaf_Some)
  then show ?thesis using assms(1) unfolding wf_bitmap_def by blast
qed

lemma find_leaf_inj:
  assumes "wf_bitmap b" "FindLeaf b a = Some l" "FindLeaf b a' = Some l"
  shows "L0Index a = L0Index a' \<and> L1Index a = L1Index a'"
proof -
  obtain r n where 1: "Root b = Some r" "r (L0Index a) = Some n" "(AllL1Nodes b ! n) (L1Index a) = Some l"
    using assms(2) by (auto simp: find_leaf_Some)
  obtain n' where 2: "r (L0Index a') = Some n'" "(AllL1Nodes b ! n') (L1Index a') = Some l"
    using assms(3) 1(1) by (auto simp: find_leaf_Some)
  have w: "\<And>i n. r i = Some n \<Longrightarrow> n < length (AllL1Nodes b)"
    "\<And>i j n. r i = Some n \<Longrightarrow> r j = Some n \<Longrightarrow> i = j"
    "\<And>n i m j l. n < length (AllL1Nodes b) \<Longrightarrow> m < length (AllL1Nodes b) \<Longrightarrow>
        (AllL1Nodes b ! n) i = Some l \<Longrightarrow> (AllL1Nodes b ! m) j = Some l \<Longrightarrow> n = m \<and> i = j"
    using assms(1) 1(1) unfolding wf_bitmap_def by blast+
  have "n = n' \<and> L1Index a = L1Index a'" using w(3) [OF w(1) [OF 1(2)] w(1) [OF 2(1)] 1(3) 2(2)] .
  then show ?thesis using w(2) 1(2) 2(1) by simp
qed

lemma write_leaf_find [simp]: "FindLeaf (write_leaf l a w b) a' = FindLeaf b a'"
  by (simp add: write_leaf_def FindLeaf_def FindLeafFrom_def split: option.split)

lemma write_leaf_wf [simp]: "wf_bitmap (write_leaf l a w b) = wf_bitmap b"
  by (simp add: write_leaf_def wf_bitmap_def)

lemma write_leaf_root [simp]: "Root (write_leaf l a w b) = Root b"
  by (simp add: write_leaf_def)

lemma find_leaf_cong:
  "\<lbrakk>L0Index a = L0Index a'; L1Index a = L1Index a'; a < kMaxAddress; a' < kMaxAddress\<rbrakk> \<Longrightarrow> FindLeaf b a = FindLeaf b a'"
  by (cases "Root b") (simp_all add: FindLeaf_def FindLeafFrom_def linorder_not_le [symmetric] split: option.split)

lemma page_word_write:
  assumes "wf_bitmap b" "FindLeaf b a = Some l" "a' < kMaxAddress"
  shows "page_word (write_leaf l a w b) a' = (if drop_bit 12 a = drop_bit 12 a' then w else page_word b a')"
proof -
  have a: "a < kMaxAddress" using assms(2) by (auto simp: find_leaf_Some)
  note r = radix_injective [OF a assms(3)]
  show ?thesis
  proof (cases "FindLeaf b a' = Some l")
    case True
    then have "L0Index a = L0Index a' \<and> L1Index a = L1Index a'" using assms find_leaf_inj by blast
    then show ?thesis using r True find_leaf_bound [OF assms(1,2)]
      by (simp add: page_word_def) (auto simp: write_leaf_def)
  next
    case False
    then have "drop_bit 12 a \<noteq> drop_bit 12 a'" using r assms(2,3) a find_leaf_cong [of a a' b] by metis
    with False show ?thesis by (auto simp: page_word_def write_leaf_def FindLeaf_def FindLeafFrom_def split: option.split)
  qed
qed

section \<open>Creation of leaves\<close>

lemma wf_bitmapD:
  assumes "wf_bitmap b"
  shows "\<lbrakk>Root b = Some r; r i = Some n\<rbrakk> \<Longrightarrow> n < length (AllL1Nodes b)"
    and "\<lbrakk>Root b = Some r; r i = Some n; r j = Some n\<rbrakk> \<Longrightarrow> i = j"
    and "\<lbrakk>n < length (AllL1Nodes b); (AllL1Nodes b ! n) i = Some l\<rbrakk> \<Longrightarrow> l < length (AllLeaves b)"
    and "\<lbrakk>n < length (AllL1Nodes b); m < length (AllL1Nodes b);
      (AllL1Nodes b ! n) i = Some l; (AllL1Nodes b ! m) j = Some l\<rbrakk> \<Longrightarrow> n = m \<and> i = j"
  using assms unfolding wf_bitmap_def by (elim conjE, simp)+

lemma wf_bitmapI:
  assumes "\<And>r i n. Root b = Some r \<Longrightarrow> r i = Some n \<Longrightarrow> n < length (AllL1Nodes b)"
    and "\<And>r i j n. Root b = Some r \<Longrightarrow> r i = Some n \<Longrightarrow> r j = Some n \<Longrightarrow> i = j"
    and "\<And>n i l. n < length (AllL1Nodes b) \<Longrightarrow> (AllL1Nodes b ! n) i = Some l \<Longrightarrow> l < length (AllLeaves b)"
    and "\<And>n i m j l. n < length (AllL1Nodes b) \<Longrightarrow> m < length (AllL1Nodes b) \<Longrightarrow>
      (AllL1Nodes b ! n) i = Some l \<Longrightarrow> (AllL1Nodes b ! m) j = Some l \<Longrightarrow> n = m \<and> i = j"
  shows "wf_bitmap b"
  using assms unfolding wf_bitmap_def by blast

lemma get_node_spec:
  assumes wf: "wf_bitmap b" and r: "Root b = Some r" and g: "\<And>n. grant n" and a: "a < kMaxAddress"
  obtains n b1 r1 where "get_node grant a r b = (Some n, b1)" "wf_bitmap b1" "Root b1 = Some r1" "r1 (L0Index a) = Some n"
    "n < length (AllL1Nodes b1)" "AllLeaves b1 = AllLeaves b" "\<forall>x. FindLeaf b1 x = FindLeaf b x"
proof (cases "r (L0Index a)")
  case (Some n)
  then show ?thesis using that [of n b r] wf r unfolding wf_bitmap_def get_node_def by simp
next
  case None
  define n where "n = length (AllL1Nodes b)"
  define b1 where "b1 = b\<lparr>Requests := Suc (Requests b), AllL1Nodes := AllL1Nodes b @ [null_node],
    Root := Some (r(L0Index a \<mapsto> n))\<rparr>"
  have w: "\<And>i m. r i = Some m \<Longrightarrow> m < n"
    using wf r unfolding wf_bitmap_def n_def by blast
  have nth: "((AllL1Nodes b @ [null_node]) ! m) i = (if m = n then None else (AllL1Nodes b ! m) i)" if "m \<le> n" for m i
    using that by (auto simp: nth_append n_def null_node_def)
  note w1 = wf_bitmapD(2) [OF wf r] and w2 = wf_bitmapD(3,4) [OF wf, folded n_def]
  have old: "m < n \<and> (AllL1Nodes b ! m) i = Some k" if "m \<le> n" "((AllL1Nodes b @ [null_node]) ! m) i = Some k" for m i k
    using that nth [OF that(1), of i] by (cases "m = n") auto
  note bnd = w2(1) [OF conjunct1 [OF old] conjunct2 [OF old]]
  have inj: "m = m' \<and> i = j" if "m \<le> n" "m' \<le> n" "((AllL1Nodes b @ [null_node]) ! m) i = Some k"
      "((AllL1Nodes b @ [null_node]) ! m') j = Some k" for m i m' j k
    using old [OF that(1,3)] old [OF that(2,4)] w2(2) by blast
  have b1: "AllL1Nodes b1 = AllL1Nodes b @ [null_node]" "Root b1 = Some (r(L0Index a \<mapsto> n))"
    "AllLeaves b1 = AllLeaves b" "length (AllL1Nodes b1) = Suc n" by (simp_all add: b1_def n_def)
  have "wf_bitmap b1"
  proof (rule wf_bitmapI, goal_cases)
    case (1 r' i m)
    then show ?case using w [of i m] unfolding b1 by (auto simp: n_def split: if_splits)
  next
    case (2 r' i j m)
    then show ?case using w [of i m] w [of j m] w1 [of i m j] unfolding b1 by (auto split: if_splits)
  next
    case (3 m i k)
    then show ?case using bnd unfolding b1(4) less_Suc_eq_le unfolding b1(1,3) by blast
  next
    case (4 m i m' j k)
    then show ?case using inj unfolding b1(4) less_Suc_eq_le unfolding b1(1) by blast
  qed
  moreover have "FindLeaf b1 x = FindLeaf b x" for x
  proof (cases "r (L0Index x)")
    case (Some m)
    have "((AllL1Nodes b @ [null_node]) ! m) (L1Index x) = (AllL1Nodes b ! m) (L1Index x)"
      using w [OF Some] by (simp add: n_def nth_append)
    with Some show ?thesis using r None by (auto simp: b1_def FindLeaf_def FindLeafFrom_def)
  next
    case none: None
    have "((AllL1Nodes b @ [null_node]) ! n) i = None" for i by (simp add: nth)
    with none show ?thesis using r by (simp add: b1_def FindLeaf_def FindLeafFrom_def)
  qed
  ultimately show ?thesis
    using that [of n b1 "r(L0Index a \<mapsto> n)"] None g
    by (simp add: get_node_def AllocZeroed_def b1_def n_def Let_def)
qed

lemma get_leaf_spec:
  assumes wf: "wf_bitmap b" and r: "Root b = Some r" "r (L0Index a) = Some n" "n < length (AllL1Nodes b)"
    and g: "\<And>n. grant n" and a: "a < kMaxAddress"
  obtains l b1 where "get_leaf grant a n b = (Some l, b1)" "wf_bitmap b1" "Root b1 = Some r" "FindLeaf b1 a = Some l"
    "\<forall>x. page_word b1 x = page_word b x"
proof (cases "(AllL1Nodes b ! n) (L1Index a)")
  case (Some l)
  then show ?thesis using that [of l b] wf r a by (simp add: get_leaf_def find_leaf_Some)
next
  case None
  define l where "l = length (AllLeaves b)"
  define nodes where "nodes = (AllL1Nodes b)[n := (AllL1Nodes b ! n)(L1Index a \<mapsto> l)]"
  define b1 where "b1 = b\<lparr>Requests := Suc (Requests b), AllLeaves := AllLeaves b @ [zero_leaf], AllL1Nodes := nodes\<rparr>"
  have w: "\<And>m i k. m < length (AllL1Nodes b) \<Longrightarrow> (AllL1Nodes b ! m) i = Some k \<Longrightarrow> k < l"
    using wf unfolding wf_bitmap_def l_def by blast
  have inj: "\<And>m i m' j k. m < length (AllL1Nodes b) \<Longrightarrow> m' < length (AllL1Nodes b) \<Longrightarrow>
      (AllL1Nodes b ! m) i = Some k \<Longrightarrow> (AllL1Nodes b ! m') j = Some k \<Longrightarrow> m = m' \<and> i = j"
    using wf unfolding wf_bitmap_def by blast
  have nth: "(nodes ! m) i = (if m = n \<and> i = L1Index a then Some l else (AllL1Nodes b ! m) i)"
    if "m < length (AllL1Nodes b)" for m i using that r(3) by (simp add: nodes_def nth_list_update)
  have len: "length nodes = length (AllL1Nodes b)" by (simp add: nodes_def)
  have b: "k < length (AllLeaves b1)" if "m < length nodes" "(nodes ! m) i = Some k" for m i k
    using that w [of m i k] by (auto simp: nth len b1_def l_def split: if_splits)
  have "m = m' \<and> i = j"
    if "m < length nodes" "m' < length nodes" "(nodes ! m) i = Some k" "(nodes ! m') j = Some k" for m i m' j k
    using that inj [of m m' i k j] w [of m i k] w [of m' j k] by (auto simp: nth len split: if_splits)
  then have "wf_bitmap b1" using wf b unfolding wf_bitmap_def by (simp add: b1_def len)
  moreover have "FindLeaf b1 a = Some l" using a r nth by (simp add: find_leaf_Some b1_def)
  moreover have "page_word b1 x = page_word b x" for x
  proof (cases "r (L0Index x)")
    case (Some m)
    then have m: "m < length (AllL1Nodes b)" using wf r(1) unfolding wf_bitmap_def by blast
    show ?thesis
    proof (cases "(AllL1Nodes b ! m) (L1Index x)")
      case (Some k)
      then show ?thesis using \<open>r (L0Index x) = Some m\<close> r m None nth w [OF m Some]
        by (auto simp: page_word_def FindLeaf_def FindLeafFrom_def b1_def nth_append l_def)
    next
      case none: None
      then show ?thesis using \<open>r (L0Index x) = Some m\<close> r m nth
        by (simp add: page_word_def FindLeaf_def FindLeafFrom_def b1_def nth_append l_def zero_leaf_def)
    qed
  qed (use r in \<open>simp add: page_word_def FindLeaf_def FindLeafFrom_def b1_def\<close>)
  ultimately show ?thesis
    using that [of l b1] None g r by (simp add: get_leaf_def AllocZeroed_def b1_def l_def nodes_def Let_def)
qed

lemma get_or_create_spec:
  assumes "wf_bitmap b" "Enabled b" "\<And>n. grant n" "a < kMaxAddress"
  obtains l b1 where "GetOrCreateLeaf grant a b = (Some l, b1)" "wf_bitmap b1" "Enabled b1" "FindLeaf b1 a = Some l"
    "\<forall>x. page_word b1 x = page_word b x"
proof -
  obtain r where r: "Root b = Some r" using assms(2) by (auto simp: Enabled_def)
  obtain n b1 r1 where 1: "get_node grant a r b = (Some n, b1)" "wf_bitmap b1" "Root b1 = Some r1" "r1 (L0Index a) = Some n"
    "n < length (AllL1Nodes b1)" "AllLeaves b1 = AllLeaves b" "\<forall>x. FindLeaf b1 x = FindLeaf b x"
    by (rule get_node_spec [where grant = grant, OF assms(1) r assms(3,4)])
  obtain l b2 where 2: "get_leaf grant a n b1 = (Some l, b2)" "wf_bitmap b2" "Root b2 = Some r1" "FindLeaf b2 a = Some l"
    "\<forall>x. page_word b2 x = page_word b1 x"
    by (rule get_leaf_spec [where grant = grant, OF 1(2,3,4,5) assms(3,4)])
  have "page_word b1 x = page_word b x" for x by (simp add: page_word_def 1(6,7) split: option.split)
  moreover have "\<not> kMaxAddress \<le> a" using assms(4) by (simp only: not_le)
  then have "GetOrCreateLeaf grant a b = (Some l, b2)" by (simp add: GetOrCreateLeaf_def r 1 2)
  ultimately show ?thesis using that [of l b2] 2 by (simp add: Enabled_def)
qed

section \<open>What the operations do to page words\<close>

lemma set_page_range_spec:
  assumes "wf_bitmap b" "Enabled b" "\<And>n. grant n" "p < kMaxAddress"
  shows "wf_bitmap (SetPageRange grant p s len b)" "Enabled (SetPageRange grant p s len b)"
    "a < kMaxAddress \<Longrightarrow> page_word (SetPageRange grant p s len b) a =
       (if drop_bit 12 p = drop_bit 12 a then page_word b p OR PageMaskFor p s len else page_word b a)"
proof -
  obtain l b1 where l: "GetOrCreateLeaf grant p b = (Some l, b1)" "wf_bitmap b1" "Enabled b1" "FindLeaf b1 p = Some l"
    "\<forall>x. page_word b1 x = page_word b x"
    by (rule get_or_create_spec [where grant = grant, OF assms])
  have w: "page_word b p = (AllLeaves b1 ! l) (WordIndex p)" using l(4,5) by (metis page_word_def option.simps(5))
  show "wf_bitmap (SetPageRange grant p s len b)" "Enabled (SetPageRange grant p s len b)"
    using l by (simp_all add: SetPageRange_def Enabled_def)
  assume a: "a < kMaxAddress"
  show "page_word (SetPageRange grant p s len b) a =
       (if drop_bit 12 p = drop_bit 12 a then page_word b p OR PageMaskFor p s len else page_word b a)"
    using page_word_write [OF l(2,4) a] l by (simp add: SetPageRange_def w)
qed

lemma recompute_spec:
  assumes "wf_bitmap b"
  shows "wf_bitmap (RecomputePageWord p w b)" "Enabled (RecomputePageWord p w b) = Enabled b"
    "a < kMaxAddress \<Longrightarrow> page_word (RecomputePageWord p w b) a =
       (if drop_bit 12 p = drop_bit 12 a \<and> FindLeaf b p \<noteq> None then w else page_word b a)"
  using assms page_word_write [OF assms]
  by (auto simp: RecomputePageWord_def Enabled_def split: option.split)

lemma clear_page_recompute: "ClearPage p b = RecomputePageWord p 0 b"
  by (simp add: ClearPage_def RecomputePageWord_def)

lemma clear_page_spec:
  assumes "wf_bitmap b" "p < kMaxAddress" "a < kMaxAddress"
  shows "page_word (ClearPage p b) a = (if drop_bit 12 p = drop_bit 12 a then 0 else page_word b a)"
proof -
  have "page_word b a = 0" if "FindLeaf b p = None" "drop_bit 12 p = drop_bit 12 a"
    using that radix_injective [OF assms(2,3)] find_leaf_cong [of p a b] assms by (simp add: page_word_def)
  then show ?thesis using recompute_spec(3) [OF assms(1,3)] by (auto simp: clear_page_recompute)
qed

lemma clear_all_spec:
  assumes "wf_bitmap b"
  shows "wf_bitmap (ClearAll b)" "Enabled (ClearAll b) = Enabled b" "page_word (ClearAll b) a = 0"
proof -
  have f: "FindLeaf (ClearAll b) a = FindLeaf b a"
    by (simp add: ClearAll_def FindLeaf_def FindLeafFrom_def split: option.split)
  show "wf_bitmap (ClearAll b)" "Enabled (ClearAll b) = Enabled b"
    using assms by (simp_all add: ClearAll_def wf_bitmap_def Enabled_def)
  show "page_word (ClearAll b) a = 0"
  proof (cases "FindLeaf b a")
    case (Some l)
    then show ?thesis using f find_leaf_bound [OF assms Some] by (simp add: page_word_def ClearAll_def zero_leaf_def)
  qed (simp add: page_word_def f)
qed

lemma enable_spec: "wf_bitmap (Enable grant new_bitmap)" "page_word (Enable grant new_bitmap) a = 0"
  "Enabled (Enable grant new_bitmap) = grant 0"
  by (auto simp: Enable_def new_bitmap_def AllocZeroed_def wf_bitmap_def page_word_def FindLeaf_def FindLeafFrom_def
      null_node_def Enabled_def)

section \<open>Masks\<close>

lemma bit_range_mask:
  assumes "f \<le> l" "l < 64"
  shows "bit (BitRangeMask f l) i \<longleftrightarrow> f \<le> i \<and> i \<le> l"
proof -
  have "(if l - f + 1 \<ge> 64 then NOT 0 else push_bit (l - f + 1) 1 - 1) = (mask (l - f + 1) :: u64)"
  proof (cases "64 \<le> l - f + 1")
    case True
    have "NOT 0 = (mask (l - f + 1) :: u64)" using True by (intro bit_word_eqI) (auto simp: bit_simps)
    then show ?thesis using True by simp
  next
    case False
    have "push_bit (l - f + 1) 1 - 1 = (mask (l - f + 1) :: u64)"
      unfolding mask_eq_exp_minus_1 push_bit_eq_mult by (simp only: mult_1)
    then show ?thesis using False by (simp only: if_False)
  qed
  then have "BitRangeMask f l = push_bit f (mask (l - f + 1))" unfolding BitRangeMask_def Let_def by (rule arg_cong)
  then show ?thesis using assms by (auto simp: bit_simps)
qed

lemma granule_div: "unat (drop_bit 6 (x :: u64)) = unat x div 64"
  by (simp only: unat_drop_bit_eq) (simp add: drop_bit_eq_div)


lemma page_shift: "unat (push_bit 12 (drop_bit 12 (a :: u64))) = unat a div 4096 * 4096"
proof -
  have "push_bit 12 (drop_bit 12 a) + take_bit 12 a = a" by (rule bits_ident)
  moreover have "push_bit 12 (drop_bit 12 a) = a - take_bit 12 a" using calculation by (simp add: algebra_simps)
  moreover have "unat (take_bit 12 a) = unat a mod 4096" by (simp only: unsigned_take_bit_eq) (simp add: take_bit_eq_mod)
  moreover have "take_bit 12 a \<le> a" by (simp add: word_le_nat_alt calculation(3))
  ultimately show ?thesis by (simp add: unat_sub minus_mod_eq_div_mult)
qed

lemma page_index: "unat (drop_bit 12 (a :: u64)) = unat a div 4096"
  by (simp only: unat_drop_bit_eq) (simp add: drop_bit_eq_div)

text \<open>The mask of the bytes from \<open>lo\<close> to \<open>hi\<close> of a page holds the granules of those bytes.\<close>

lemma byte_range_mask:
  fixes base lo hi :: u64
  assumes "4096 dvd unat base" "unat base \<le> unat lo" "unat lo < unat hi" "unat hi \<le> unat base + 4096"
  shows "bit (BitRangeMask (unat (drop_bit 6 (lo - base))) (unat (drop_bit 6 (hi - 1 - base)))) i \<longleftrightarrow>
    (\<exists>x. unat lo \<le> x \<and> x < unat hi \<and> i = x mod 4096 div 64)"
proof -
  have l: "unat (lo - base) = unat lo - unat base" using assms by (simp add: unat_sub word_le_nat_alt)
  have "unat (hi - 1) = unat hi - 1" using assms by (intro unat_minus_one) auto
  then have h: "unat (hi - 1 - base) = unat hi - 1 - unat base" using assms by (simp add: unat_sub word_le_nat_alt)
  obtain k where k: "unat base = 4096 * k" using assms(1) by auto
  have m: "bit (BitRangeMask (unat (drop_bit 6 (lo - base))) (unat (drop_bit 6 (hi - 1 - base)))) i \<longleftrightarrow>
      (unat lo - unat base) div 64 \<le> i \<and> i \<le> (unat hi - 1 - unat base) div 64"
    unfolding granule_div l h using assms by (intro bit_range_mask) (auto intro: div_le_mono)
  show ?thesis
  proof
    assume "bit (BitRangeMask (unat (drop_bit 6 (lo - base))) (unat (drop_bit 6 (hi - 1 - base)))) i"
    then have i: "(unat lo - unat base) div 64 \<le> i" "i \<le> (unat hi - 1 - unat base) div 64" using m by auto
    define x where "x = max (unat lo) (unat base + 64 * i)"
    have "unat lo \<le> x \<and> x < unat hi" using i assms by (auto simp: x_def)
    moreover have "i = (x - unat base) div 64" using i assms by (auto simp: x_def max_def)
    moreover have "x mod 4096 = x - unat base"
      using calculation assms by (intro mod_nat_eqI) (auto simp: k dvd_minus_self)
    ultimately show "\<exists>x. unat lo \<le> x \<and> x < unat hi \<and> i = x mod 4096 div 64" by auto
  next
    assume "\<exists>x. unat lo \<le> x \<and> x < unat hi \<and> i = x mod 4096 div 64"
    then obtain x where x: "unat lo \<le> x" "x < unat hi" "i = x mod 4096 div 64" by blast
    have "x mod 4096 = x - unat base" using x assms by (intro mod_nat_eqI) (auto simp: k)
    then show "bit (BitRangeMask (unat (drop_bit 6 (lo - base))) (unat (drop_bit 6 (hi - 1 - base)))) i"
      using x assms unfolding m by (auto intro: div_le_mono)
  qed
qed

section \<open>The bitmap as a set of bytes\<close>

definition marked :: "granule_bitmap \<Rightarrow> u64 \<Rightarrow> bool" where
  "marked b a \<longleftrightarrow> bit (page_word b a) (unat a mod 4096 div 64)"

lemma marked_below: "marked b a \<Longrightarrow> a < kMaxAddress"
  by (auto simp: marked_def page_word_def FindLeaf_def split: option.splits if_splits)

lemma below_max_iff: "a < kMaxAddress \<longleftrightarrow> unat a < 2 ^ 48"
  by (simp add: word_less_nat_alt)

text \<open>The bounds of the part of a range that lies on the page of \<open>a\<close>.\<close>

lemma page_bounds:
  fixes a base pend :: u64
  assumes "a < kMaxAddress" and base: "base = push_bit 12 (drop_bit 12 a)" and pend: "pend = base + push_bit 12 1"
  shows "4096 dvd unat base" "unat base \<le> unat a" "unat a < unat base + 4096" "unat pend = unat base + 4096"
proof -
  have B: "unat base = unat a div 4096 * 4096" by (simp add: base page_shift)
  show "4096 dvd unat base" by (simp add: B)
  show 1: "unat base \<le> unat a" unfolding B by (rule div_times_less_eq_dividend)
  show "unat a < unat base + 4096" unfolding B by (simp add: dividend_less_div_times)
  have "unat base + 4096 < 2 ^ 64" using 1 assms(1) by (simp add: below_max_iff)
  then show "unat pend = unat base + 4096" by (simp add: pend unat_word_ariths)
qed

lemma page_part:
  fixes s fin base pend lo hi :: u64
  assumes "lo = (if s > base then s else base)" "hi = (if fin < pend then fin else pend)"
  shows "unat lo = max (unat s) (unat base)" "unat hi = min (unat fin) (unat pend)"
  using assms by (simp_all add: word_less_nat_alt)

lemma page_mask_covers:
  assumes a: "a < kMaxAddress" and s: "unat s \<le> unat a" "unat a < unat s + unat len"
  shows "bit (PageMaskFor (push_bit 12 (drop_bit 12 a)) s len) (unat a mod 4096 div 64)"
proof -
  define base where "base = push_bit 12 (drop_bit 12 a)"
  define pend where "pend = base + push_bit 12 1"
  define lo where "lo = (if s > base then s else base)"
  define hi where "hi = (if s + len < pend then s + len else pend)"
  note B = page_bounds [OF a base_def pend_def] and part = page_part [OF lo_def hi_def]
  have m: "PageMaskFor base s len = (if len = 0 \<or> lo \<ge> hi then NOT 0
      else BitRangeMask (unat (drop_bit 6 (lo - base))) (unat (drop_bit 6 (hi - 1 - base))))"
    unfolding PageMaskFor_def Let_def pend_def [symmetric] lo_def [symmetric] hi_def [symmetric]
    by (cases "len = 0") simp_all
  have i: "unat a mod 4096 div 64 < 64" by (simp add: less_mult_imp_div_less)
  have "bit (PageMaskFor base s len) (unat a mod 4096 div 64)"
  proof (cases "len = 0 \<or> lo \<ge> hi")
    case True
    then show ?thesis using i unfolding m by (simp add: bit_simps)
  next
    case False
    then have "lo < hi" by (simp add: not_le)
    then have less: "unat lo < unat hi" by (simp only: word_less_nat_alt)
    have "unat (s + len) = unat s + unat len"
    proof (rule ccontr)
      assume "unat (s + len) \<noteq> unat s + unat len"
      then have "s + len \<le> s" using unsigned_less [of len, where 'a = nat] by (simp add: word_le_nat_alt unat_plus_if_size word_size split: if_splits)
      then show False using less unfolding part word_le_nat_alt by linarith
    qed
    then have "unat lo \<le> unat a \<and> unat a < unat hi" using s B unfolding part by simp
    then have "\<exists>x. unat lo \<le> x \<and> x < unat hi \<and> unat a mod 4096 div 64 = x mod 4096 div 64" by blast
    moreover have "unat base \<le> unat lo" "unat hi \<le> unat base + 4096" using B unfolding part by simp_all
    ultimately have "bit (BitRangeMask (unat (drop_bit 6 (lo - base))) (unat (drop_bit 6 (hi - 1 - base)))) (unat a mod 4096 div 64)"
      using byte_range_mask [OF B(1) _ less] by blast
    then show ?thesis unfolding m using False by simp
  qed
  then show ?thesis unfolding base_def .
qed


lemma and_zero_iff: "w AND m = 0 \<longleftrightarrow> (\<forall>i. bit m i \<longrightarrow> \<not> bit w i)" for w m :: u64
  using bit_imp_le_length [of m] by (auto simp: bit_eq_iff bit_and_iff)

lemma page_clear_iff:
  assumes r: "Root b = Some r" and fin: "unat fin \<le> 2 ^ 48" and less: "unat start < unat fin"
    and page: "unat start div 4096 \<le> unat page" "unat page \<le> (unat fin - 1) div 4096"
  shows "page_clear b r start fin page \<longleftrightarrow>
    (\<forall>a. unat a div 4096 = unat page \<and> unat start \<le> unat a \<and> unat a < unat fin \<longrightarrow> \<not> marked b a)"
proof -
  define base where "base = push_bit 12 page"
  have p: "unat page \<le> (2 ^ 48 - 1) div 4096" using page(2) fin div_le_mono [of "unat fin - 1" "2 ^ 48 - 1" 4096] by linarith
  have ub: "unat base = unat page * 4096"
    using p by (simp add: base_def push_bit_eq_mult unat_word_ariths)
  have below: "base < kMaxAddress" using p ub by (simp add: below_max_iff)
  have dp: "push_bit 12 (drop_bit 12 base) = base" by (rule bit_word_eqI) (auto simp: base_def bit_simps)
  define pend where "pend = base + push_bit 12 1"
  define lo where "lo = (if start > base then start else base)"
  define hi where "hi = (if fin < pend then fin else pend)"
  note B = page_bounds [OF below dp [symmetric] pend_def] and part = page_part [OF lo_def hi_def]
  have same: "page_word b a = page_word b base" if "unat a div 4096 = unat page" "unat a < unat fin" for a
  proof -
    have a: "a < kMaxAddress" using that fin by (simp add: below_max_iff)
    have "unat (drop_bit 12 a) = unat (drop_bit 12 base)" by (simp add: page_index that ub del: unat_drop_bit_eq)
    then have "drop_bit 12 a = drop_bit 12 base" by (simp only: word_unat_eq_iff)
    then have "L0Index a = L0Index base \<and> L1Index a = L1Index base \<and> WordIndex a = WordIndex base"
      using radix_injective [OF a below] by blast
    then show ?thesis using find_leaf_cong [of a base b] a below by (simp add: page_word_def split: option.split)
  qed
  have bounds: "unat base \<le> unat lo" "unat lo < unat hi" "unat hi \<le> unat base + 4096"
    using B page less ub unfolding part by auto
  have "page_clear b r start fin page \<longleftrightarrow>
      page_word b base AND BitRangeMask (unat (drop_bit 6 (lo - base))) (unat (drop_bit 6 (hi - 1 - base))) = 0"
    using r below unfolding page_clear_def Let_def base_def [symmetric] pend_def [symmetric] lo_def [symmetric] hi_def [symmetric]
    by (auto simp: page_word_def FindLeaf_def not_le [symmetric] split: option.split)
  also have "\<dots> \<longleftrightarrow> (\<forall>x. unat lo \<le> x \<and> x < unat hi \<longrightarrow> \<not> bit (page_word b base) (x mod 4096 div 64))"
    unfolding and_zero_iff byte_range_mask [OF B(1) bounds] by blast
  also have "\<dots> \<longleftrightarrow> (\<forall>a. unat a div 4096 = unat page \<and> unat start \<le> unat a \<and> unat a < unat fin \<longrightarrow> \<not> marked b a)"
  proof (intro iffI allI impI; elim conjE)
    fix a :: u64
    assume *: "\<forall>x. unat lo \<le> x \<and> x < unat hi \<longrightarrow> \<not> bit (page_word b base) (x mod 4096 div 64)"
      and a: "unat a div 4096 = unat page" "unat start \<le> unat a" "unat a < unat fin"
    have "unat lo \<le> unat a \<and> unat a < unat hi" using a B ub unfolding part by auto
    then show "\<not> marked b a" using * same [OF a(1,3)] by (simp add: marked_def)
  next
    fix x assume *: "\<forall>a. unat a div 4096 = unat page \<and> unat start \<le> unat a \<and> unat a < unat fin \<longrightarrow> \<not> marked b a"
      and x: "unat lo \<le> x" "x < unat hi"
    define a :: u64 where "a = of_nat x"
    have "x < 2 ^ 64" using x(2) unsigned_less [of hi, where 'a = nat] by simp
    then have a: "unat a = x" by (simp add: a_def unat_of_nat)
    have "x div 4096 = unat page" using x B ub unfolding part by (intro div_nat_eqI) auto
    then show "\<not> bit (page_word b base) (x mod 4096 div 64)"
      using * [rule_format, of a] same [of a] x unfolding part by (simp add: marked_def a)
  qed
  finally show ?thesis .
qed


lemma provably_clear_pages:
  fixes start fin :: u64
  assumes "unat fin \<le> 2 ^ 48" "unat start < unat fin"
  defines "first \<equiv> drop_bit 12 start" and "lst \<equiv> drop_bit 12 (fin - 1)"
  shows "unat (lst - first) = (unat fin - 1) div 4096 - unat start div 4096"
    "i \<le> unat (lst - first) \<Longrightarrow> unat (first + of_nat i) = unat start div 4096 + i"
proof -
  have "unat (fin - 1) = unat fin - 1" using assms(2) by (intro unat_minus_one) auto
  then have u: "unat first = unat start div 4096" "unat lst = (unat fin - 1) div 4096"
    by (simp_all only: first_def lst_def page_index)
  have le: "unat start div 4096 \<le> (unat fin - 1) div 4096" using assms(2) by (intro div_le_mono) linarith
  show 1: "unat (lst - first) = (unat fin - 1) div 4096 - unat start div 4096"
    using le by (simp add: unat_sub word_le_nat_alt u)
  have b: "(unat fin - 1) div 4096 < 2 ^ 36" using assms(1,2) by (intro less_mult_imp_div_less) simp
  show "unat (first + of_nat i) = unat start div 4096 + i" if "i \<le> unat (lst - first)"
  proof -
    have s: "unat start div 4096 + i < 2 ^ 36" using that le b unfolding 1 by linarith
    then have "unat (of_nat i :: u64) = i" by (simp add: unat_of_nat take_bit_nat_eq_self)
    then show ?thesis using s by (simp add: unat_word_ariths u)
  qed
qed

lemma provably_clear_set:
  "ProvablyClear b start len \<longleftrightarrow>
     Enabled b \<and> len \<noteq> 0 \<and> unat start + unat len \<le> 2 ^ 48 \<and>
     (unat start + unat len - 1) div 4096 - unat start div 4096 \<le> 3 \<and>
     {a. unat start \<le> unat a \<and> unat a < unat start + unat len} \<inter> {a. marked b a} = {}"
proof (cases "Enabled b \<and> len \<noteq> 0 \<and> unat start + unat len \<le> 2 ^ 48")
  case True
  then obtain r where r: "Root b = Some r" by (auto simp: Enabled_def)
  define fin where "fin = start + len"
  have "0 < unat len" using True by (simp add: unat_gt_0)
  then have fin: "unat fin = unat start + unat len" "unat fin \<le> 2 ^ 48" "unat start < unat fin"
    using True by (auto simp: fin_def unat_word_ariths)
  define n where "n = unat (drop_bit 12 (fin - 1) - drop_bit 12 start)"
  note pages = provably_clear_pages [OF fin(2,3), folded n_def]
  have le: "unat start div 4096 \<le> (unat fin - 1) div 4096" using fin(3) by (intro div_le_mono) linarith
  have "page_clear b r start fin (drop_bit 12 start + of_nat i) \<longleftrightarrow>
      (\<forall>a. unat a div 4096 = unat start div 4096 + i \<and> unat start \<le> unat a \<and> unat a < unat fin \<longrightarrow> \<not> marked b a)"
    if "i \<le> n" for i
  proof -
    have "unat start div 4096 + i \<le> (unat fin - 1) div 4096" using that le unfolding pages(1) by linarith
    then show ?thesis
      using page_clear_iff [OF r fin(2,3), of "drop_bit 12 start + of_nat i"] unfolding pages(2) [OF that] by simp
  qed
  then have all: "list_all (\<lambda>i. page_clear b r start fin (drop_bit 12 start + of_nat i)) [0..<Suc n] \<longleftrightarrow>
      (\<forall>a. unat start \<le> unat a \<and> unat a < unat fin \<longrightarrow> \<not> marked b a)" (is "_ \<longleftrightarrow> ?none")
  proof -
    assume *: "\<And>i. i \<le> n \<Longrightarrow> page_clear b r start fin (drop_bit 12 start + of_nat i) \<longleftrightarrow>
      (\<forall>a. unat a div 4096 = unat start div 4096 + i \<and> unat start \<le> unat a \<and> unat a < unat fin \<longrightarrow> \<not> marked b a)"
    have "\<exists>i \<le> n. unat a div 4096 = unat start div 4096 + i" if "unat start \<le> unat a" "unat a < unat fin" for a :: u64
    proof (rule exI [of _ "unat a div 4096 - unat start div 4096"])
      have "unat start div 4096 \<le> unat a div 4096" "unat a div 4096 \<le> (unat fin - 1) div 4096"
        using that by (simp_all add: div_le_mono)
      then show "unat a div 4096 - unat start div 4096 \<le> n \<and>
          unat a div 4096 = unat start div 4096 + (unat a div 4096 - unat start div 4096)" unfolding pages(1) by linarith
    qed
    then show ?thesis using * unfolding list_all_iff set_upt by (metis atLeastLessThan_iff le_simps(2) zero_le)
  qed
  have "\<not> (fin < start \<or> fin > kMaxAddress)" using fin by (simp add: word_less_nat_alt)
  moreover have "drop_bit 12 (fin - 1) - drop_bit 12 start > 3 \<longleftrightarrow> \<not> n \<le> 3"
    by (simp add: word_less_nat_alt n_def not_le)
  ultimately have "ProvablyClear b start len \<longleftrightarrow> n \<le> 3 \<and> ?none"
    using True all unfolding ProvablyClear_def r option.case Let_def fin_def [symmetric] n_def [symmetric] by simp
  moreover have "n = (unat start + unat len - 1) div 4096 - unat start div 4096" by (simp only: pages(1) fin(1))
  ultimately show ?thesis using True fin(1) by auto
next
  case False
  have "fin < start \<or> fin > kMaxAddress" if "len \<noteq> 0" "\<not> unat start + unat len \<le> 2 ^ 48" "fin = start + len" for fin
    using that unsigned_less [of start, where 'a = nat] unsigned_less [of len, where 'a = nat]
    by (auto simp: word_less_nat_alt unat_plus_if_size word_size)
  with False show ?thesis by (auto simp: ProvablyClear_def Enabled_def Let_def split: option.split)
qed



section \<open>Histories of maintenance operations\<close>

datatype granule_op = OpSet u64 u64 u64 | OpRecompute u64 u64 | OpClear u64 | OpClearAll

primrec granule_step :: "(nat \<Rightarrow> bool) \<Rightarrow> granule_op \<Rightarrow> granule_bitmap \<Rightarrow> granule_bitmap" where
  "granule_step grant (OpSet p s len) b = SetPageRange grant p s len b"
| "granule_step grant (OpRecompute p w) b = RecomputePageWord p w b"
| "granule_step grant (OpClear p) b = ClearPage p b"
| "granule_step grant OpClearAll b = ClearAll b"

text \<open>Whether an operation may clear the granule of byte \<open>a\<close>.\<close>

primrec clears :: "granule_op \<Rightarrow> u64 \<Rightarrow> bool" where
  "clears (OpSet p s len) a = False"
| "clears (OpRecompute p w) a = (drop_bit 12 p = drop_bit 12 a)"
| "clears (OpClear p) a = (drop_bit 12 p = drop_bit 12 a)"
| "clears OpClearAll a = True"

primrec in_space :: "granule_op \<Rightarrow> bool" where
  "in_space (OpSet p s len) = (p < kMaxAddress \<and> take_bit 12 p = 0)"
| "in_space (OpRecompute p w) = True"
| "in_space (OpClear p) = True"
| "in_space OpClearAll = True"

text \<open>The bytes a registration of a block's extent on one code page stands for.\<close>

definition extent_byte :: "u64 \<Rightarrow> u64 \<Rightarrow> u64 \<Rightarrow> u64 \<Rightarrow> bool" where
  "extent_byte p s len a \<longleftrightarrow>
     drop_bit 12 a = drop_bit 12 p \<and> (len = 0 \<or> (unat s \<le> unat a \<and> unat a < unat s + unat len))"

text \<open>
  The contract between the bitmap and its writers: a set covers its extent, and a mark stays
  until an operation that clears its page.
\<close>

locale code_marks =
  fixes granted :: "'g \<Rightarrow> bool" and ok :: "'b \<Rightarrow> bool" and marks :: "'b \<Rightarrow> u64 \<Rightarrow> bool"
    and step :: "'g \<Rightarrow> granule_op \<Rightarrow> 'b \<Rightarrow> 'b"
  assumes step_ok: "\<lbrakk>granted g; ok b; in_space op\<rbrakk> \<Longrightarrow> ok (step g op b)"
    and set_covers: "\<lbrakk>granted g; ok b; in_space (OpSet p s len); extent_byte p s len a\<rbrakk> \<Longrightarrow>
      marks (step g (OpSet p s len) b) a"
    and keeps: "\<lbrakk>granted g; ok b; in_space op; \<not> clears op a; marks b a\<rbrakk> \<Longrightarrow> marks (step g op b) a"
begin

lemma run_ok: "\<lbrakk>granted g; ok b; list_all in_space ops\<rbrakk> \<Longrightarrow> ok (fold (step g) ops b)"
  by (induction ops arbitrary: b) (simp_all add: step_ok)

lemma run_keeps:
  "\<lbrakk>granted g; ok b; list_all in_space ops; \<not> list_ex (\<lambda>op. clears op a) ops; marks b a\<rbrakk> \<Longrightarrow>
     marks (fold (step g) ops b) a"
  by (induction ops arbitrary: b) (simp_all add: step_ok keeps)

lemma run_marks:
  assumes "granted g" "ok b" "list_all in_space (pre @ OpSet p s len # post)"
    "\<not> list_ex (\<lambda>op. clears op a) post" "extent_byte p s len a"
  shows "marks (fold (step g) (pre @ OpSet p s len # post) b) a"
proof -
  have "ok (fold (step g) pre b)" using assms by (simp add: run_ok)
  then have "marks (step g (OpSet p s len) (fold (step g) pre b)) a" "ok (step g (OpSet p s len) (fold (step g) pre b))"
    using assms by (simp_all add: set_covers step_ok)
  then show ?thesis using assms by (simp add: run_keeps)
qed

end

lemma extent_byte_marked:
  assumes "extent_byte p s len a" "take_bit 12 p = 0" "p < kMaxAddress"
  shows "a < kMaxAddress" "bit (PageMaskFor p s len) (unat a mod 4096 div 64)"
proof -
  have d: "drop_bit 12 a = drop_bit 12 p" using assms(1) by (simp add: extent_byte_def)
  have p: "push_bit 12 (drop_bit 12 a) = p" using bits_ident [of 12 p] assms(2) d by simp
  have "unat p < 2 ^ 48" using assms(3) by (simp only: below_max_iff)
  moreover have "unat a div 4096 = unat p div 4096" using arg_cong [OF d, of unat] by (simp only: page_index)
  ultimately have "unat a < 2 ^ 48"
    using div_less_iff_less_mult [of 4096 "unat a" "2 ^ 36"] div_less_iff_less_mult [of 4096 "unat p" "2 ^ 36"] by simp
  then show a: "a < kMaxAddress" by (simp only: below_max_iff)
  show "bit (PageMaskFor p s len) (unat a mod 4096 div 64)"
  proof (cases "len = 0")
    case True
    have "unat a mod 4096 div 64 < 64" by (simp add: less_mult_imp_div_less)
    then show ?thesis using True by (simp add: PageMaskFor_def bit_simps)
  next
    case False
    then show ?thesis using page_mask_covers [OF a, of s len] assms(1) by (simp add: p extent_byte_def)
  qed
qed

interpretation gm: code_marks "\<lambda>grant. \<forall>n. grant n" "\<lambda>b. wf_bitmap b \<and> Enabled b" marked granule_step
proof (unfold_locales, goal_cases)
  case (1 grant b op)
  then show ?case
    by (cases op) (auto simp: set_page_range_spec recompute_spec clear_page_recompute clear_all_spec)
next
  case (2 grant b p s len a)
  then have a: "a < kMaxAddress" "bit (PageMaskFor p s len) (unat a mod 4096 div 64)"
    using extent_byte_marked [of p s len a] by simp_all
  have "drop_bit 12 p = drop_bit 12 a" using 2(4) by (simp add: extent_byte_def)
  then show ?case using 2 a by (simp add: marked_def set_page_range_spec bit_or_iff)
next
  case (3 grant b op a)
  have a: "a < kMaxAddress" using 3(5) by (rule marked_below)
  show ?case
  proof (cases op)
    case (OpSet p s len)
    have "page_word b p = page_word b a" if "drop_bit 12 p = drop_bit 12 a"
      using that 3(3) OpSet a radix_injective [of p a] find_leaf_cong [of p a b]
      by (simp add: page_word_def split: option.split)
    then show ?thesis using 3 OpSet a by (auto simp: marked_def set_page_range_spec bit_or_iff)
  qed (use 3 a in \<open>auto simp: marked_def recompute_spec clear_page_recompute clear_all_spec\<close>)
qed

text \<open>
  C11. No false negative. Take any history of maintenance operations on a fresh enabled bitmap
  whose allocations all succeed. If a block extent was registered on a page and no later
  operation cleared or recomputed that page, a range that \<open>ProvablyClear\<close> accepts contains no
  byte of the extent on that page.
\<close>

theorem granule_no_false_negative:
  assumes "\<And>n. grant n" "list_all in_space (pre @ OpSet p s len # post)"
    "\<not> list_ex (\<lambda>op. clears op p) post"
    "ProvablyClear (fold (granule_step grant) (pre @ OpSet p s len # post) (Enable grant new_bitmap)) start n"
  shows "{a. extent_byte p s len a} \<inter> {a. unat start \<le> unat a \<and> unat a < unat start + unat n} = {}"
proof -
  define b where "b = fold (granule_step grant) (pre @ OpSet p s len # post) (Enable grant new_bitmap)"
  have "marked b a" if "extent_byte p s len a" for a
  proof -
    have "clears op a = clears op p" for op using that by (cases op) (simp_all add: extent_byte_def)
    then show ?thesis unfolding b_def using assms(1-3) that by (intro gm.run_marks) (simp_all add: enable_spec)
  qed
  then show ?thesis using assms(4) unfolding b_def [symmetric] provably_clear_set by blast
qed

text \<open>
  The instance: the byte at \<open>0x1040\<close> is registered after a clear of its page and before a
  clear of the next one; the reader accepts the 64 bytes before it.
\<close>

theorem granule_no_false_negative_witness:
  "{a. extent_byte 0x1000 0x1040 1 a} \<inter> {a :: u64. unat (0x1000 :: u64) \<le> unat a \<and> unat a < unat (0x1000 :: u64) + unat (64 :: u64)} = {}"
proof (rule granule_no_false_negative [where grant = "\<lambda>_. True" and pre = "[OpClear 0x1000]" and post = "[OpClear 0x2000]"])
  show "\<not> list_ex (\<lambda>op. clears op 0x1000) [OpClear 0x2000]" by code_simp
  show "list_all in_space ([OpClear 0x1000] @ OpSet 0x1000 0x1040 1 # [OpClear 0x2000])" by code_simp
  show "ProvablyClear (fold (granule_step (\<lambda>_. True)) ([OpClear 0x1000] @ OpSet 0x1000 0x1040 1 # [OpClear 0x2000])
      (Enable (\<lambda>_. True) new_bitmap)) 0x1000 64" by code_simp
qed simp

text \<open>
  A failed allocation of a node is not conservative: \<open>SetPageRange\<close> returns without a
  mark, and the reader takes the missing leaf for a page that never held code. Here the root is
  allocated, the next allocation fails, and the bytes of the registered block are reported clear.
\<close>

theorem granule_lost_on_failed_allocation:
  "ProvablyClear (SetPageRange (\<lambda>n. n = 0) 0x1000 0x1000 64 (Enable (\<lambda>n. n = 0) new_bitmap)) 0x1000 64"
  by code_simp

end
