(* ===== verification/BlockLinks.thy ===== *)
theory BlockLinks
  imports Prelude "HOL-Library.Multiset"
begin

text \<open>
  The registry of inbound block links of \<open>GuestToHostMap\<close>,
  \<open>FEXCore/Source/Interface/Core/LookupCache.h\<close>: a hash map from a guest destination to the
  head of a singly linked chain of records that live in one pool, and a free list threaded
  through the same pool. Indices are natural numbers with \<open>None\<close> for \<open>BlockLinkInvalid\<close>. A
  delinker is a function pointer; its calls are returned in order with the record they get.
\<close>

section \<open>The pool\<close>

record link_node =
  HostLink :: u64
  Delinker :: u64
  Next :: "nat option"

record block_links =
  BlockLinkPool :: "link_node list"
  BlockLinkFreeHead :: "nat option"
  BlockLinkHeads :: "u64 \<rightharpoonup> nat option"

definition no_links :: block_links where
  "no_links = \<lparr>BlockLinkPool = [], BlockLinkFreeHead = None, BlockLinkHeads = (\<lambda>_. None)\<rparr>"

text \<open>
  The loop of \<open>SeverLinks\<close>: the indices it visits. A chain visits no node twice, so that the
  size of the pool is enough fuel.
\<close>

fun chain_walk :: "link_node list \<Rightarrow> nat \<Rightarrow> nat option \<Rightarrow> nat list" where
  "chain_walk pool (Suc fuel) (Some i) = (if i < length pool then i # chain_walk pool fuel (Next (pool ! i)) else [])"
| "chain_walk pool _ _ = []"

definition chain :: "block_links \<Rightarrow> nat option \<Rightarrow> nat list" where
  "chain s h = chain_walk (BlockLinkPool s) (length (BlockLinkPool s)) h"

definition link_data :: "link_node \<Rightarrow> u64 \<times> u64" where "link_data n = (Delinker n, HostLink n)"

text \<open>The result is the number of links, the calls of delinkers and the new state.\<close>

definition SeverLinks :: "u64 \<Rightarrow> block_links \<Rightarrow> nat \<times> (u64 \<times> u64) list \<times> block_links" where
  "SeverLinks a s =
     (case BlockLinkHeads s a of
        None \<Rightarrow> (0, [], s)
      | Some h \<Rightarrow>
          let visited = chain s h;
              s1 = (if visited = [] then s
                    else s\<lparr>BlockLinkPool := (BlockLinkPool s)[last visited :=
                               (BlockLinkPool s ! last visited)\<lparr>Next := BlockLinkFreeHead s\<rparr>],
                           BlockLinkFreeHead := h\<rparr>) in
          (length visited, map (\<lambda>i. link_data (BlockLinkPool s ! i)) visited,
           s1\<lparr>BlockLinkHeads := (BlockLinkHeads s1)(a := None)\<rparr>))"

definition AddBlockLink :: "u64 \<Rightarrow> u64 \<Rightarrow> u64 \<Rightarrow> block_links \<Rightarrow> block_links" where
  "AddBlockLink dest link delinker s =
     (let heads = (case BlockLinkHeads s dest of None \<Rightarrow> (BlockLinkHeads s)(dest \<mapsto> None) | Some _ \<Rightarrow> BlockLinkHeads s);
          node = \<lparr>HostLink = link, Delinker = delinker, Next = the (heads dest)\<rparr> in
      case BlockLinkFreeHead s of
        Some i \<Rightarrow>
          s\<lparr>BlockLinkFreeHead := Next (BlockLinkPool s ! i), BlockLinkPool := (BlockLinkPool s)[i := node],
            BlockLinkHeads := heads(dest \<mapsto> Some i)\<rparr>
      | None \<Rightarrow>
          s\<lparr>BlockLinkPool := BlockLinkPool s @ [node],
            BlockLinkHeads := heads(dest \<mapsto> Some (length (BlockLinkPool s)))\<rparr>)"

definition ClearLinks :: "block_links \<Rightarrow> block_links" where
  "ClearLinks s = s\<lparr>BlockLinkHeads := (\<lambda>_. None), BlockLinkPool := [], BlockLinkFreeHead := None\<rparr>"

section \<open>Chains\<close>

fun is_chain :: "link_node list \<Rightarrow> nat option \<Rightarrow> nat list \<Rightarrow> bool" where
  "is_chain pool h [] \<longleftrightarrow> h = None"
| "is_chain pool h (i # xs) \<longleftrightarrow> h = Some i \<and> i < length pool \<and> is_chain pool (Next (pool ! i)) xs"

lemma is_chain_bound: "is_chain pool h xs \<Longrightarrow> set xs \<subseteq> {..<length pool}"
  by (induction xs arbitrary: h) auto

lemma is_chain_unique: "is_chain pool h xs \<Longrightarrow> is_chain pool h ys \<Longrightarrow> xs = ys"
  by (induction xs arbitrary: h ys) (case_tac ys; auto)+

lemma is_chain_suffix: "is_chain pool h (xs @ i # ys) \<Longrightarrow> is_chain pool (Some i) (i # ys)"
  by (induction xs arbitrary: h) auto

lemma is_chain_distinct: "is_chain pool h xs \<Longrightarrow> distinct xs"
proof (induction xs arbitrary: h)
  case (Cons i xs)
  have "i \<notin> set xs"
  proof
    assume "i \<in> set xs"
    then obtain us vs where "xs = us @ i # vs" by (auto simp: in_set_conv_decomp)
    then have "is_chain pool (Some i) (i # vs)" using Cons.prems is_chain_suffix [of pool _ us i vs] by auto
    then have "i # xs = i # vs" using Cons.prems is_chain_unique by (metis is_chain.simps(2))
    then show False using \<open>xs = us @ i # vs\<close> by simp
  qed
  then show ?case using Cons by auto
qed simp

lemma is_chain_length: "is_chain pool h xs \<Longrightarrow> length xs \<le> length pool"
  using is_chain_bound is_chain_distinct
  by (metis card_lessThan card_mono distinct_card finite_lessThan)

lemma walk_chain: "is_chain pool h xs \<Longrightarrow> length xs \<le> fuel \<Longrightarrow> chain_walk pool fuel h = xs"
proof (induction xs arbitrary: h fuel)
  case Nil
  then show ?case by (cases fuel) simp_all
next
  case (Cons i xs)
  then show ?case by (cases fuel) simp_all
qed

lemma chain_eq: "is_chain (BlockLinkPool s) h xs \<Longrightarrow> chain s h = xs"
  by (simp add: chain_def walk_chain is_chain_length)

lemma is_chain_update: "i \<notin> set xs \<Longrightarrow> is_chain (pool[i := n]) h xs = is_chain pool h xs"
  by (induction xs arbitrary: h) auto

lemma is_chain_grow: "is_chain pool h xs \<Longrightarrow> is_chain (pool @ [n]) h xs"
  by (induction xs arbitrary: h) (auto simp: nth_append)

lemma is_chain_splice:
  assumes "is_chain pool h xs" "xs \<noteq> []" "is_chain pool f ys" "set xs \<inter> set ys = {}"
  shows "is_chain (pool[last xs := (pool ! last xs)\<lparr>Next := f\<rparr>]) h (xs @ ys)"
  using assms
proof (induction xs arbitrary: h)
  case (Cons i xs)
  show ?case
  proof (cases "xs = []")
    case True
    then show ?thesis using Cons.prems by (simp add: is_chain_update)
  next
    case False
    have "i \<noteq> last xs" using is_chain_distinct [OF Cons.prems(1)] False by (metis distinct.simps(2) last_in_set)
    then show ?thesis using Cons False by simp
  qed
qed simp

section \<open>The invariant\<close>

text \<open>
  \<open>F\<close> is the free list and \<open>C d\<close> the chain of destination \<open>d\<close>: the chains are disjoint and
  every node of the pool is on one of them.
\<close>

definition links_rel :: "block_links \<Rightarrow> nat list \<Rightarrow> (u64 \<Rightarrow> nat list) \<Rightarrow> bool" where
  "links_rel s F C \<longleftrightarrow>
     is_chain (BlockLinkPool s) (BlockLinkFreeHead s) F \<and>
     (\<forall>d. case BlockLinkHeads s d of None \<Rightarrow> C d = [] | Some h \<Rightarrow> C d \<noteq> [] \<and> is_chain (BlockLinkPool s) h (C d)) \<and>
     (\<forall>d. set (C d) \<inter> set F = {}) \<and> (\<forall>d d'. d \<noteq> d' \<longrightarrow> set (C d) \<inter> set (C d') = {}) \<and>
     set F \<union> (\<Union>d. set (C d)) = {..<length (BlockLinkPool s)}"

definition links_ok :: "block_links \<Rightarrow> bool" where "links_ok s \<longleftrightarrow> (\<exists>F C. links_rel s F C)"

text \<open>The links registered for a destination, the most recent first.\<close>

definition links :: "block_links \<Rightarrow> u64 \<Rightarrow> (u64 \<times> u64) list" where
  "links s d = (case BlockLinkHeads s d of None \<Rightarrow> []
     | Some h \<Rightarrow> map (\<lambda>i. link_data (BlockLinkPool s ! i)) (chain s h))"

lemma links_relD:
  assumes "links_rel s F C"
  shows "is_chain (BlockLinkPool s) (BlockLinkFreeHead s) F"
    "BlockLinkHeads s d = None \<Longrightarrow> C d = []"
    "BlockLinkHeads s d = Some h \<Longrightarrow> C d \<noteq> [] \<and> is_chain (BlockLinkPool s) h (C d)"
    "set (C d) \<inter> set F = {}" "d \<noteq> d' \<Longrightarrow> set (C d) \<inter> set (C d') = {}"
    "set F \<union> (\<Union>d. set (C d)) = {..<length (BlockLinkPool s)}"
proof -
  have "case BlockLinkHeads s d of None \<Rightarrow> C d = [] | Some h \<Rightarrow> C d \<noteq> [] \<and> is_chain (BlockLinkPool s) h (C d)"
    using assms by (simp add: links_rel_def)
  then show "BlockLinkHeads s d = None \<Longrightarrow> C d = []"
    "BlockLinkHeads s d = Some h \<Longrightarrow> C d \<noteq> [] \<and> is_chain (BlockLinkPool s) h (C d)" by simp_all
qed (use assms in \<open>simp_all add: links_rel_def\<close>)

lemma links_relI:
  assumes "is_chain (BlockLinkPool s) (BlockLinkFreeHead s) F"
    "\<And>d. BlockLinkHeads s d = None \<Longrightarrow> C d = []"
    "\<And>d h. BlockLinkHeads s d = Some h \<Longrightarrow> C d \<noteq> [] \<and> is_chain (BlockLinkPool s) h (C d)"
    "\<And>d. set (C d) \<inter> set F = {}" "\<And>d d'. d \<noteq> d' \<Longrightarrow> set (C d) \<inter> set (C d') = {}"
    "set F \<union> (\<Union>d. set (C d)) = {..<length (BlockLinkPool s)}"
  shows "links_rel s F C"
  using assms by (auto simp: links_rel_def split: option.split)

lemma links_rel_links:
  assumes "links_rel s F C"
  shows "links s d = map (\<lambda>i. link_data (BlockLinkPool s ! i)) (C d)"
  using links_relD(2,3) [OF assms] chain_eq by (fastforce simp: links_def split: option.split)

lemma no_links_rel: "links_rel no_links [] (\<lambda>_. [])"
  by (simp add: links_rel_def no_links_def)

text \<open>\<open>AddBlockLink\<close> takes the node \<open>i\<close>, free or new, for the head of the chain.\<close>

lemma add_link_rel:
  fixes d l k :: u64
  assumes rel: "links_rel s F C"
  defines "i \<equiv> (case F of [] \<Rightarrow> length (BlockLinkPool s) | i # _ \<Rightarrow> i)" and "s' \<equiv> AddBlockLink d l k s"
  shows "links_rel s' (tl F) (C(d := i # C d))"
    "j \<noteq> i \<Longrightarrow> j < length (BlockLinkPool s) \<Longrightarrow> BlockLinkPool s' ! j = BlockLinkPool s ! j"
    "link_data (BlockLinkPool s' ! i) = (k, l)"
    "length (BlockLinkPool s') = (if F = [] then Suc (length (BlockLinkPool s)) else length (BlockLinkPool s))"
proof -
  note r = links_relD [OF rel]
  define nx where "nx = (case BlockLinkHeads s d of None \<Rightarrow> None | Some h \<Rightarrow> h)"
  define node where "node = \<lparr>HostLink = l, Delinker = k, Next = nx\<rparr>"
  define pool where "pool = (if F = [] then BlockLinkPool s @ [node] else (BlockLinkPool s)[i := node])"
  have head: "is_chain (BlockLinkPool s) nx (C d)"
    using r(2,3) [of d] by (auto simp: nx_def split: option.split)
  have F: "F = [] \<longleftrightarrow> BlockLinkFreeHead s = None" using r(1) by (cases F) auto
  have s': "s' = s\<lparr>BlockLinkPool := pool, BlockLinkFreeHead := (if F = [] then None else Next (BlockLinkPool s ! i)),
      BlockLinkHeads := (BlockLinkHeads s)(d \<mapsto> Some i)\<rparr>"
    using r(1) by (cases F; cases "BlockLinkHeads s d")
      (auto simp: s'_def AddBlockLink_def i_def pool_def node_def nx_def Let_def)
  have i: "i < length pool" "i \<notin> set (tl F)" "i \<notin> set (C e)" for e
    using r(1) r(4) [of e] r(6) is_chain_distinct [OF r(1)] by (cases F; auto simp: i_def pool_def)+
  have keep: "is_chain pool h xs" if "is_chain (BlockLinkPool s) h xs" "i \<notin> set xs" for h xs
    using that by (simp add: pool_def is_chain_grow is_chain_update)
  have ith: "pool ! i = node" using r(1) by (cases F) (auto simp: pool_def i_def)
  have len: "length pool = (if F = [] then Suc (length (BlockLinkPool s)) else length (BlockLinkPool s))"
    by (simp add: pool_def)
  show "links_rel s' (tl F) (C(d := i # C d))"
  proof (rule links_relI)
    show "is_chain (BlockLinkPool s') (BlockLinkFreeHead s') (tl F)"
      using r(1) i(2) by (cases F) (auto simp: s' i_def intro: keep)
    show "(C(d := i # C d)) e = []" if "BlockLinkHeads s' e = None" for e
      using that r(2) [of e] by (auto simp: s' split: if_splits)
    show "(C(d := i # C d)) e \<noteq> [] \<and> is_chain (BlockLinkPool s') h ((C(d := i # C d)) e)"
      if "BlockLinkHeads s' e = Some h" for e h
      using that r(3) [of e h] keep [OF head i(3)] keep i ith by (auto simp: s' node_def split: if_splits)
    show "set ((C(d := i # C d)) e) \<inter> set (tl F) = {}" for e
      using r(4) [of e] i(2) by (cases F) auto
    show "set ((C(d := i # C d)) e) \<inter> set ((C(d := i # C d)) e') = {}" if "e \<noteq> e'" for e e'
      using that r(5) [of e e'] i(3) by (auto split: if_splits)
    have "(\<Union>e. set ((C(d := i # C d)) e)) = insert i (\<Union>e. set (C e))" by (auto split: if_splits)
    then show "set (tl F) \<union> (\<Union>e. set ((C(d := i # C d)) e)) = {..<length (BlockLinkPool s')}"
      using r(6) by (cases F) (auto simp: s' len i_def)
  qed
  show "BlockLinkPool s' ! j = BlockLinkPool s ! j" if "j \<noteq> i" "j < length (BlockLinkPool s)"
    using that by (simp add: s' pool_def nth_append)
  show "link_data (BlockLinkPool s' ! i) = (k, l)" by (simp add: s' ith node_def link_data_def)
  show "length (BlockLinkPool s') = (if F = [] then Suc (length (BlockLinkPool s)) else length (BlockLinkPool s))"
    by (simp add: s' len)
qed

lemma sever_links_rel:
  assumes rel: "links_rel s F C" and sev: "SeverLinks a s = (n, calls, s')"
  shows "links_rel s' (C a @ F) (C(a := []))" "n = length (C a)" "calls = links s a"
    "j < length (BlockLinkPool s) \<Longrightarrow> link_data (BlockLinkPool s' ! j) = link_data (BlockLinkPool s ! j)"
    "length (BlockLinkPool s') = length (BlockLinkPool s)"
proof -
  note r = links_relD [OF rel]
  define pool where "pool = (if C a = [] then BlockLinkPool s
    else (BlockLinkPool s)[last (C a) := (BlockLinkPool s ! last (C a))\<lparr>Next := BlockLinkFreeHead s\<rparr>])"
  define front where "front = (if C a = [] then BlockLinkFreeHead s else the (BlockLinkHeads s a))"
  have "chain s h = C a" if "BlockLinkHeads s a = Some h" for h using that r(3) [of a h] by (simp add: chain_eq)
  then have s': "s' = s\<lparr>BlockLinkPool := pool, BlockLinkFreeHead := front, BlockLinkHeads := (BlockLinkHeads s)(a := None)\<rparr>"
    and n: "n = length (C a)" and calls: "calls = links s a"
    using sev r(2,3) [of a] unfolding links_rel_links [OF rel]
    by (auto simp: SeverLinks_def Let_def pool_def front_def fun_upd_idem split: option.splits)
  show "n = length (C a)" "calls = links s a" by (fact n calls)+
  show "link_data (BlockLinkPool s' ! j) = link_data (BlockLinkPool s ! j)" if "j < length (BlockLinkPool s)"
    using that by (cases "j = last (C a)") (simp_all add: s' pool_def link_data_def)
  show len: "length (BlockLinkPool s') = length (BlockLinkPool s)" by (simp add: s' pool_def)
  have keep: "is_chain pool h xs" if "is_chain (BlockLinkPool s) h xs" "set (C a) \<inter> set xs = {}" for h xs
  proof (cases "C a = []")
    case False
    then have "last (C a) \<notin> set xs" using that(2) last_in_set [of "C a"] by blast
    then show ?thesis using that(1) False by (simp add: pool_def is_chain_update)
  qed (use that in \<open>simp add: pool_def\<close>)
  show "links_rel s' (C a @ F) (C(a := []))"
  proof (rule links_relI)
    show "is_chain (BlockLinkPool s') (BlockLinkFreeHead s') (C a @ F)"
    proof (cases "BlockLinkHeads s a")
      case None
      then show ?thesis using r(1,2) by (simp add: s' pool_def front_def)
    next
      case (Some h)
      then show ?thesis using r(3) [OF Some] r(1) r(4) [of a] by (simp add: s' pool_def front_def is_chain_splice)
    qed
    show "(C(a := [])) e = []" if "BlockLinkHeads s' e = None" for e
      using that r(2) [of e] by (auto simp: s' split: if_splits)
    show "(C(a := [])) e \<noteq> [] \<and> is_chain (BlockLinkPool s') h ((C(a := [])) e)" if "BlockLinkHeads s' e = Some h" for e h
      using that r(3) [of e h] r(5) [of a e] keep by (auto simp: s' split: if_splits)
    show "set ((C(a := [])) e) \<inter> set (C a @ F) = {}" for e using r(4) [of e] r(5) [of e a] by auto
    show "set ((C(a := [])) e) \<inter> set ((C(a := [])) e') = {}" if "e \<noteq> e'" for e e' using that r(5) by simp
    have "(\<Union>e. set (C e)) = set (C a) \<union> (\<Union>e. set ((C(a := [])) e))" by (auto split: if_splits)
    then show "set (C a @ F) \<union> (\<Union>e. set ((C(a := [])) e)) = {..<length (BlockLinkPool s')}"
      using r(6) len by auto
  qed
qed

section \<open>The registry as a map of lists\<close>

lemma links_add:
  assumes "links_ok s"
  shows "links_ok (AddBlockLink d l k s)" "links (AddBlockLink d l k s) = (links s)(d := (k, l) # links s d)"
proof -
  obtain F C where rel: "links_rel s F C" using assms by (auto simp: links_ok_def)
  note add = add_link_rel [OF rel, where d = d and l = l and k = k]
  define i where "i = (case F of [] \<Rightarrow> length (BlockLinkPool s) | i # _ \<Rightarrow> i)"
  show "links_ok (AddBlockLink d l k s)" using add(1) by (auto simp: links_ok_def)
  have in_pool: "\<forall>j \<in> set (C e). j < length (BlockLinkPool s) \<and> j \<noteq> i" for e
  proof
    fix j assume j: "j \<in> set (C e)"
    then have "j < length (BlockLinkPool s)" using links_relD(6) [OF rel] by auto
    moreover have "j \<notin> set F" using j links_relD(4) [OF rel] by auto
    ultimately show "j < length (BlockLinkPool s) \<and> j \<noteq> i" by (auto simp: i_def split: list.splits)
  qed
  have "map (\<lambda>j. link_data (BlockLinkPool (AddBlockLink d l k s) ! j)) (C e) = map (\<lambda>j. link_data (BlockLinkPool s ! j)) (C e)" for e
    using in_pool [of e] add(2) unfolding i_def by simp
  then show "links (AddBlockLink d l k s) = (links s)(d := (k, l) # links s d)"
    unfolding fun_eq_iff links_rel_links [OF rel] links_rel_links [OF add(1)] using add(3) by simp
qed

lemma links_sever:
  assumes "links_ok s"
  shows "links_ok (snd (snd (SeverLinks a s)))" "links (snd (snd (SeverLinks a s))) = (links s)(a := [])"
    "fst (SeverLinks a s) = length (links s a)" "fst (snd (SeverLinks a s)) = links s a"
proof -
  obtain F C where rel: "links_rel s F C" using assms by (auto simp: links_ok_def)
  obtain n calls s' where sev: "SeverLinks a s = (n, calls, s')" by (metis prod_cases3)
  note sv = sever_links_rel [OF rel sev]
  show "links_ok (snd (snd (SeverLinks a s)))" using sv(1) sev by (auto simp: links_ok_def)
  show "fst (SeverLinks a s) = length (links s a)" "fst (snd (SeverLinks a s)) = links s a"
    using sv(2,3) sev by (simp_all add: links_rel_links [OF rel])
  have "\<forall>j \<in> set (C e). j < length (BlockLinkPool s)" for e using links_relD(6) [OF rel] by auto
  then have "map (\<lambda>j. link_data (BlockLinkPool s' ! j)) (C e) = map (\<lambda>j. link_data (BlockLinkPool s ! j)) (C e)" for e
    using sv(4) by simp
  then show "links (snd (snd (SeverLinks a s))) = (links s)(a := [])"
    unfolding fun_eq_iff links_rel_links [OF rel] sev snd_conv links_rel_links [OF sv(1)] by simp
qed

lemma links_clear: "links_ok (ClearLinks s)" "links (ClearLinks s) = (\<lambda>_. [])"
proof -
  have "links_rel (ClearLinks s) [] (\<lambda>_. [])" by (simp add: links_rel_def ClearLinks_def)
  then show "links_ok (ClearLinks s)" by (auto simp: links_ok_def)
  show "links (ClearLinks s) = (\<lambda>_. [])" by (simp add: fun_eq_iff links_def ClearLinks_def)
qed

lemma links_empty: "links_ok no_links" "links no_links = (\<lambda>_. [])"
  using no_links_rel by (auto simp: links_ok_def links_def no_links_def)

datatype link_op = LinkAdd u64 u64 u64 | LinkSever u64

primrec link_step :: "link_op \<Rightarrow> block_links \<Rightarrow> (u64 \<times> u64) list \<times> block_links" where
  "link_step (LinkAdd d l k) s = ([], AddBlockLink d l k s)"
| "link_step (LinkSever d) s = snd (SeverLinks d s)"

text \<open>
  A history, with the calls of delinkers it makes for destination \<open>d\<close>, and the links it adds
  for \<open>d\<close>.
\<close>

primrec link_run :: "(link_op \<Rightarrow> 's \<Rightarrow> (u64 \<times> u64) list \<times> 's) \<Rightarrow> u64 \<Rightarrow> link_op list \<Rightarrow> 's \<Rightarrow> (u64 \<times> u64) list \<times> 's" where
  "link_run step d [] s = ([], s)"
| "link_run step d (x # ops) s =
     (let (calls, s1) = step x s; (rest, s2) = link_run step d ops s1 in
      ((if x = LinkSever d then calls else []) @ rest, s2))"

primrec links_added :: "u64 \<Rightarrow> link_op list \<Rightarrow> (u64 \<times> u64) list" where
  "links_added d [] = []"
| "links_added d (x # ops) =
     (case x of LinkAdd d' l k \<Rightarrow> if d' = d then [(k, l)] else [] | LinkSever _ \<Rightarrow> []) @ links_added d ops"

text \<open>A history that adds no link of a destination while the link is registered there.\<close>

fun no_duplicates :: "(u64 \<times> u64) list \<Rightarrow> link_op list \<Rightarrow> bool" where
  "no_duplicates P [] = True"
| "no_duplicates P (LinkAdd d l k # ops) \<longleftrightarrow> (d, l) \<notin> set P \<and> no_duplicates ((d, l) # P) ops"
| "no_duplicates P (LinkSever d # ops) = no_duplicates (filter (\<lambda>p. fst p \<noteq> d) P) ops"

text \<open>
  What the linker and the invalidation code rely on. The client lemma is a balance: a link that
  was added is either still registered or was handed to its delinker, once.
\<close>

locale link_registry =
  fixes ok :: "'s \<Rightarrow> bool" and lookup :: "'s \<Rightarrow> u64 \<Rightarrow> (u64 \<times> u64) list"
    and step :: "link_op \<Rightarrow> 's \<Rightarrow> (u64 \<times> u64) list \<times> 's"
  assumes step_ok: "ok s \<Longrightarrow> ok (snd (step x s))"
    and add_lookup: "ok s \<Longrightarrow> lookup (snd (step (LinkAdd d l k) s)) = (lookup s)(d := (k, l) # lookup s d)"
    and sever_lookup: "ok s \<Longrightarrow> lookup (snd (step (LinkSever d) s)) = (lookup s)(d := [])"
    and sever_calls: "ok s \<Longrightarrow> fst (step (LinkSever d) s) = lookup s d"
begin

lemma run_ok: "ok s \<Longrightarrow> ok (snd (link_run step d ops s))"
  by (induction ops arbitrary: s) (auto simp: Let_def case_prod_beta step_ok)

lemma balance:
  "ok s \<Longrightarrow> mset (fst (link_run step d ops s)) + mset (lookup (snd (link_run step d ops s)) d) =
     mset (lookup s d) + mset (links_added d ops)"
proof (induction ops arbitrary: s)
  case (Cons x ops)
  have IH: "mset (fst (link_run step d ops (snd (step x s)))) + mset (lookup (snd (link_run step d ops (snd (step x s)))) d) =
     mset (lookup (snd (step x s)) d) + mset (links_added d ops)" by (rule Cons.IH [OF step_ok [OF Cons.prems]])
  show ?case using Cons.prems IH
    by (cases x) (auto simp: Let_def case_prod_beta add_lookup sever_lookup sever_calls add.assoc)
qed simp

lemma registered_once:
  "ok s \<Longrightarrow> (\<forall>e. distinct (map snd (lookup s e)) \<and> (\<forall>l. l \<in> set (map snd (lookup s e)) \<longleftrightarrow> (e, l) \<in> set P)) \<Longrightarrow> no_duplicates P ops \<Longrightarrow>
   distinct (map snd (lookup (snd (link_run step d ops s)) d))"
proof (induction P ops arbitrary: s rule: no_duplicates.induct)
  case (2 P e l k ops)
  have "ok (snd (step (LinkAdd e l k) s))" by (rule step_ok [OF 2(2)])
  from "2.IH" [OF this] show ?case using 2(2-4) by (simp add: add_lookup case_prod_beta Let_def)
next
  case (3 P e ops)
  have "ok (snd (step (LinkSever e) s))" by (rule step_ok [OF 3(2)])
  from "3.IH" [OF this] show ?case using 3(2-4) by (simp add: sever_lookup case_prod_beta Let_def)
qed simp

end

interpretation bl: link_registry links_ok links link_step
proof
  show "links_ok s \<Longrightarrow> links_ok (snd (link_step x s))" for s x by (cases x) (simp_all add: links_add links_sever)
qed (simp_all add: links_add links_sever)

text \<open>
  C27. Balance of the registry. After any history of \<open>AddBlockLink\<close> and \<open>SeverLinks\<close> on an
  empty registry that adds no link to a destination while it is registered there, for every
  destination the delinkers that ran and the links still registered are together exactly the
  links that were added, and no link is registered twice: no patched branch is forgotten, and each
  registration is restored at most once. Registrations of a link that is present are left out:
  there the code differs from its documentation (\<open>link_duplicates\<close> below).
\<close>

theorem link_balance:
  assumes "no_duplicates [] ops"
  shows "mset (fst (link_run link_step d ops no_links)) + mset (links (snd (link_run link_step d ops no_links)) d) =
     mset (links_added d ops) \<and> distinct (map snd (links (snd (link_run link_step d ops no_links)) d))"
  using bl.balance [of no_links d ops] bl.registered_once [OF links_empty(1) _ assms] by (simp add: links_empty)

theorem link_balance_witness:
  "mset (fst (link_run link_step 8 [LinkAdd 8 1 2, LinkSever 8, LinkAdd 8 1 2, LinkAdd 8 3 4, LinkSever 16] no_links)) +
     mset (links (snd (link_run link_step 8 [LinkAdd 8 1 2, LinkSever 8, LinkAdd 8 1 2, LinkAdd 8 3 4, LinkSever 16] no_links)) 8) =
   {#(2, 1), (2, 1), (4, 3)#}"
proof -
  have "no_duplicates [] [LinkAdd 8 1 2, LinkSever 8, LinkAdd 8 1 2, LinkAdd 8 3 4, LinkSever 16]" by simp
  from link_balance [OF this, of 8] show ?thesis by (simp add: add_mset_commute)
qed

text \<open>
  The pool only grows at its high-water mark. In a state with a well-formed pool the walk
  of \<open>SeverLinks\<close> delinks every link of the destination and no other, its nodes become free and
  the pool keeps its size; \<open>AddBlockLink\<close> puts the link first, and it enlarges the pool only
  when every node of the pool is on a live chain.
\<close>

theorem link_pool:
  assumes "links_ok s"
  shows "links_ok (snd (snd (SeverLinks a s))) \<and> links_ok (AddBlockLink a l k s) \<and>
    fst (SeverLinks a s) = length (links s a) \<and> fst (snd (SeverLinks a s)) = links s a \<and>
    links (snd (snd (SeverLinks a s))) = (links s)(a := []) \<and>
    links (AddBlockLink a l k s) = (links s)(a := (k, l) # links s a) \<and>
    length (BlockLinkPool (snd (snd (SeverLinks a s)))) = length (BlockLinkPool s) \<and>
    (length (BlockLinkPool (AddBlockLink a l k s)) = length (BlockLinkPool s) \<or>
     length (BlockLinkPool (AddBlockLink a l k s)) = Suc (length (BlockLinkPool s)) \<and>
     (\<Union>d \<in> dom (BlockLinkHeads s). set (chain s (the (BlockLinkHeads s d)))) = {..<length (BlockLinkPool s)})"
proof -
  obtain F C where rel: "links_rel s F C" using assms by (auto simp: links_ok_def)
  obtain n calls s' where sev: "SeverLinks a s = (n, calls, s')" by (metis prod_cases3)
  note add = add_link_rel(4) [OF rel, where d = a and l = l and k = k]
  have "d \<in> dom (BlockLinkHeads s)" if "x \<in> set (C d)" for x d
    using that links_relD(2) [OF rel, of d] by (cases "BlockLinkHeads s d") auto
  then have "(\<Union>d. set (C d)) = (\<Union>d \<in> dom (BlockLinkHeads s). set (C d))"
    by (intro equalityI subsetI) (elim UN_E, rule UN_I, simp_all, elim bexE, rule exI)
  moreover have "C d = chain s (the (BlockLinkHeads s d))" if "d \<in> dom (BlockLinkHeads s)" for d
    using that links_relD(3) [OF rel, of d] by (auto simp: chain_eq)
  ultimately have "(\<Union>d. set (C d)) = (\<Union>d \<in> dom (BlockLinkHeads s). set (chain s (the (BlockLinkHeads s d))))"
    by simp
  then have "(\<Union>d \<in> dom (BlockLinkHeads s). set (chain s (the (BlockLinkHeads s d)))) = {..<length (BlockLinkPool s)}" if "F = []"
    using that links_relD(6) [OF rel] by simp
  then have "length (BlockLinkPool (AddBlockLink a l k s)) = length (BlockLinkPool s) \<or>
      length (BlockLinkPool (AddBlockLink a l k s)) = Suc (length (BlockLinkPool s)) \<and>
      (\<Union>d \<in> dom (BlockLinkHeads s). set (chain s (the (BlockLinkHeads s d)))) = {..<length (BlockLinkPool s)}"
    using add by (cases "F = []") simp_all
  moreover have "length (BlockLinkPool (snd (snd (SeverLinks a s)))) = length (BlockLinkPool s)"
    using sever_links_rel(5) [OF rel sev] sev by simp
  ultimately show ?thesis using links_add [OF assms, of a l k] links_sever [OF assms, of a] by blast
qed

theorem link_pool_witness:
  "links (snd (snd (SeverLinks 8 (AddBlockLink 8 1 2 no_links)))) 8 = [] \<and>
   fst (snd (SeverLinks 8 (AddBlockLink 8 1 2 no_links))) = [(2, 1)]"
  using link_pool [of "AddBlockLink 8 1 2 no_links" 8 1 2] links_add [OF links_empty(1), of 8 1 2]
  by (simp add: links_empty)

text \<open>
  A second registration of the same link of the same destination is kept as a second
  record: \<open>AddBlockLink\<close> does not look for an existing entry, and the delinker will run twice.
\<close>

theorem link_duplicates:
  "links (AddBlockLink d l k' (AddBlockLink d l k no_links)) d = [(k', l), (k, l)]"
  by (simp add: links_add links_empty)

end
