(* ===== verification/GuestMap.thy ===== *)
theory GuestMap
  imports OrderedMap CodeGranules BlockLinks
begin

text \<open>
  The shared block database \<open>GuestToHostMap\<close> of
  \<open>FEXCore/Source/Interface/Core/LookupCache.{h,cpp}\<close>, with the part of
  \<open>ContextImpl::CompileBlock\<close> (\<open>Core.cpp\<close>) that registers a compiled unit in it. Every
  operation runs under the write lock, so that a call is one step. \<open>std::map\<close> is the ordered
  map of \<open>OrderedMap\<close>, \<open>robin_map\<close> a map and \<open>robin_set\<close> a list without repetitions.
  \<open>DelinkLog\<close> records the calls of delinkers, the effect of \<open>SeverLinks\<close> on host code.
\<close>

section \<open>State\<close>

record block_entry =
  HostCode :: u64
  BlockBegin :: u64
  EntryCodePages :: "u64 list"
  GuestRangeStart :: u64
  GuestRangeLength :: u64
  GuestHash :: u64
  ExtentStart :: u64
  ExtentLength :: u64

record guest_map =
  BlockLinks :: block_links
  DelinkLog :: "(u64 \<times> u64) list"
  BlockList :: "u64 \<rightharpoonup> block_entry"
  CodePages :: "(u64 \<times> u64 list) list"
  CodePagesMemoIndex :: u64
  RetainedBlocks :: "u64 \<rightharpoonup> block_entry"
  RetainedCodePages :: "(u64 \<times> u64 list) list"
  CodeGranules :: granule_bitmap

definition GuestToHostMap :: "bool \<Rightarrow> (nat \<Rightarrow> bool) \<Rightarrow> guest_map" where
  "GuestToHostMap tracking grant =
     \<lparr>BlockLinks = no_links, DelinkLog = [], BlockList = (\<lambda>_. None), CodePages = [], CodePagesMemoIndex = NOT 0,
      RetainedBlocks = (\<lambda>_. None), RetainedCodePages = [],
      CodeGranules = (if tracking then Enable grant new_bitmap else new_bitmap)\<rparr>"

definition InvalidateCodePagesMemo :: "guest_map \<Rightarrow> guest_map" where
  "InvalidateCodePagesMemo g = g\<lparr>CodePagesMemoIndex := NOT 0\<rparr>"

definition PageOf :: "u64 \<Rightarrow> u64" where "PageOf a = drop_bit 12 a"

section \<open>Blocks\<close>

definition AddBlockMapping ::
  "u64 \<Rightarrow> u64 \<Rightarrow> u64 list \<Rightarrow> u64 \<Rightarrow> u64 \<Rightarrow> u64 \<Rightarrow> u64 \<Rightarrow> u64 \<Rightarrow> u64 \<Rightarrow> guest_map \<Rightarrow> guest_map" where
  "AddBlockMapping addr bbegin pages host rstart rlen hash xstart xlen g =
     g\<lparr>BlockList := (BlockList g)(addr \<mapsto>
        \<lparr>HostCode = host, BlockBegin = bbegin, EntryCodePages = pages, GuestRangeStart = rstart,
         GuestRangeLength = rlen, GuestHash = hash, ExtentStart = xstart, ExtentLength = xlen\<rparr>)\<rparr>"

definition MapFindBlock :: "u64 \<Rightarrow> guest_map \<Rightarrow> block_entry option" where
  "MapFindBlock a g = BlockList g a"

definition sever :: "u64 \<Rightarrow> guest_map \<Rightarrow> guest_map" where
  "sever a g = (case SeverLinks a (BlockLinks g) of
     (n, calls, l) \<Rightarrow> g\<lparr>BlockLinks := l, DelinkLog := DelinkLog g @ calls\<rparr>)"

definition Erase :: "u64 \<Rightarrow> guest_map \<Rightarrow> bool \<times> guest_map" where
  "Erase a g = (let g1 = sever a g in
     (BlockList g1 a \<noteq> None, g1\<lparr>BlockList := (BlockList g1)(a := None)\<rparr>))"

definition EntryOverlaps :: "block_entry \<Rightarrow> u64 \<Rightarrow> u64 \<Rightarrow> bool" where
  "EntryOverlaps e start fin =
     (if ExtentLength e = 0 then True else ExtentStart e < fin \<and> ExtentStart e + ExtentLength e > start)"

section \<open>Retained blocks\<close>

text \<open>The loop over code pages that takes an address out of the retained index.\<close>

definition unindex :: "u64 \<Rightarrow> u64 \<Rightarrow> (u64 \<times> u64 list) list \<Rightarrow> (u64 \<times> u64 list) list" where
  "unindex a page l =
     (case map_of l (PageOf page) of
        None \<Rightarrow> l
      | Some s \<Rightarrow> let s' = removeAll a s in if s' = [] then erase (PageOf page) l else put (PageOf page) s' l)"

definition DropRetainedBlockLocked :: "u64 \<Rightarrow> guest_map \<Rightarrow> guest_map" where
  "DropRetainedBlockLocked a g =
     (case RetainedBlocks g a of
        None \<Rightarrow> g
      | Some e \<Rightarrow> g\<lparr>RetainedCodePages := fold (unindex a) (EntryCodePages e) (RetainedCodePages g),
                   RetainedBlocks := (RetainedBlocks g)(a := None)\<rparr>)"

definition index :: "u64 \<Rightarrow> u64 \<Rightarrow> (u64 \<times> u64 list) list \<Rightarrow> (u64 \<times> u64 list) list" where
  "index a page l =
     (let s = (case map_of l (PageOf page) of None \<Rightarrow> [] | Some s \<Rightarrow> s) in put (PageOf page) (List.insert a s) l)"

definition SoftEraseBlock :: "u64 \<Rightarrow> guest_map \<Rightarrow> guest_map" where
  "SoftEraseBlock a g =
     (case BlockList g a of
        None \<Rightarrow> g
      | Some e \<Rightarrow>
          let g1 = sever a g in
          if GuestRangeLength e = 0 \<or> EntryCodePages e = [] then g1\<lparr>BlockList := (BlockList g1)(a := None)\<rparr>
          else
            let g2 = DropRetainedBlockLocked a g1 in
            g2\<lparr>RetainedCodePages := fold (index a) (EntryCodePages e) (RetainedCodePages g2),
               RetainedBlocks := (RetainedBlocks g2)(a \<mapsto> e), BlockList := (BlockList g2)(a := None)\<rparr>)"

definition DropRetainedRange :: "u64 \<Rightarrow> u64 \<Rightarrow> guest_map \<Rightarrow> guest_map" where
  "DropRetainedRange start len g =
     (if RetainedCodePages g = [] then g
      else
        let doomed = concat (map snd (between (PageOf start) (PageOf (start + len - 1)) (RetainedCodePages g))) in
        fold DropRetainedBlockLocked doomed g)"

definition TakeRetainedBlock :: "u64 \<Rightarrow> guest_map \<Rightarrow> block_entry option \<times> guest_map" where
  "TakeRetainedBlock a g =
     (case RetainedBlocks g a of
        None \<Rightarrow> (None, g)
      | Some e \<Rightarrow>
          let g1 = g\<lparr>RetainedBlocks := (RetainedBlocks g)(a := None)\<rparr> in
          (Some e, g1\<lparr>RetainedCodePages := fold (unindex a) (EntryCodePages e) (RetainedCodePages g1)\<rparr>))"

section \<open>Invalidation\<close>

definition clear_granule_page :: "u64 \<Rightarrow> guest_map \<Rightarrow> guest_map" where
  "clear_granule_page page g =
     (if Enabled (CodeGranules g) then g\<lparr>CodeGranules := ClearPage (push_bit 12 page) (CodeGranules g)\<rparr> else g)"

definition SoftInvalidateRange :: "u64 \<Rightarrow> u64 \<Rightarrow> guest_map \<Rightarrow> guest_map" where
  "SoftInvalidateRange start len g =
     (let lo = PageOf start; hi = PageOf (start + len - 1);
          g1 = fold (\<lambda>(page, entries) g. clear_granule_page page (fold SoftEraseBlock entries g))
                 (between lo hi (CodePages g)) g in
      InvalidateCodePagesMemo (g1\<lparr>CodePages := erase_between lo hi (CodePages g1)\<rparr>))"

definition InvalidateRange :: "u64 \<Rightarrow> u64 \<Rightarrow> guest_map \<Rightarrow> guest_map" where
  "InvalidateRange start len g =
     (let lo = PageOf start; hi = PageOf (start + len - 1);
          g1 = fold (\<lambda>(page, entries) g. clear_granule_page page (fold (\<lambda>a g. snd (Erase a g)) entries g))
                 (between lo hi (CodePages g)) g;
          g2 = InvalidateCodePagesMemo (g1\<lparr>CodePages := erase_between lo hi (CodePages g1)\<rparr>) in
      DropRetainedRange start len g2)"

text \<open>
  The inner loop of \<open>InvalidateRangePrecise\<close>: the entries of a page that are kept, the granules
  they need and the number of erased blocks.
\<close>

primrec precise_entries ::
  "u64 \<Rightarrow> u64 \<Rightarrow> u64 \<Rightarrow> u64 list \<Rightarrow> u64 list \<times> u64 \<times> nat \<times> guest_map \<Rightarrow> u64 list \<times> u64 \<times> nat \<times> guest_map" where
  "precise_entries base start fin [] st = st"
| "precise_entries base start fin (a # as) st =
     (case st of (kept, bits, erased, g) \<Rightarrow>
        precise_entries base start fin as
          (case BlockList g a of
             None \<Rightarrow> (kept, bits, erased, g)
           | Some e \<Rightarrow>
               if \<not> EntryOverlaps e start fin
               then (kept @ [a], bits OR PageMaskFor base (ExtentStart e) (ExtentLength e), erased, g)
               else (kept, bits, Suc erased, snd (Erase a g))))"

definition precise_page :: "u64 \<Rightarrow> u64 \<Rightarrow> u64 \<times> u64 list \<Rightarrow> nat \<times> guest_map \<Rightarrow> nat \<times> guest_map" where
  "precise_page start fin pe st =
     (case (pe, st) of ((page, entries), (n, g)) \<Rightarrow>
        let base = push_bit 12 page;
            (kept, bits, erased, g1) = precise_entries base start fin entries ([], 0, n, g);
            g2 = g1\<lparr>CodePages := put page kept (CodePages g1)\<rparr>;
            g3 = (if Enabled (CodeGranules g2)
                  then g2\<lparr>CodeGranules := RecomputePageWord base bits (CodeGranules g2)\<rparr> else g2) in
        (erased,
         if kept = [] then InvalidateCodePagesMemo (g3\<lparr>CodePages := erase page (CodePages g3)\<rparr>) else g3))"

definition InvalidateRangePrecise :: "u64 \<Rightarrow> u64 \<Rightarrow> guest_map \<Rightarrow> nat \<times> guest_map" where
  "InvalidateRangePrecise start len g =
     (let fin = start + len;
          (n, g1) = fold (precise_page start fin) (between (PageOf start) (PageOf (fin - 1)) (CodePages g)) (0, g) in
      (n, DropRetainedRange start len g1))"

text \<open>
  \<open>tail\<close> reads the \<open>JITCodeTail\<close> of the block that begins at a host address: its guest address
  and size.
\<close>

definition RangeOverlapsCompiledCode :: "(u64 \<Rightarrow> u64 \<times> u64) \<Rightarrow> u64 \<Rightarrow> u64 \<Rightarrow> guest_map \<Rightarrow> bool" where
  "RangeOverlapsCompiledCode tail start len g =
     (let fin = start + len in
      list_ex (\<lambda>(page, entries). list_ex (\<lambda>a.
          case BlockList g a of
            None \<Rightarrow> False
          | Some e \<Rightarrow> (case tail (BlockBegin e) of (rip, gsize) \<Rightarrow>
              if gsize = 0 then True else rip < fin \<and> rip + gsize > start)) entries)
        (between (PageOf start) (PageOf (fin - 1)) (CodePages g)))"

section \<open>Registration\<close>

text \<open>
  One turn of the loop of \<open>AddBlockExecutableRange\<close>. When the memo names the page, the code
  appends through the remembered pointer: the vector of that page, which the map must still
  own. Otherwise \<open>operator[]\<close> creates the vector if it is missing.
\<close>

definition add_to_page ::
  "(nat \<Rightarrow> bool) \<Rightarrow> u64 list \<Rightarrow> u64 \<Rightarrow> u64 \<Rightarrow> u64 \<Rightarrow> bool \<times> guest_map \<Rightarrow> bool \<times> guest_map" where
  "add_to_page grant addrs rstart rlen page st =
     (case st of (rv, g) \<Rightarrow>
        let g1 = (if page = CodePagesMemoIndex g then g
                  else g\<lparr>CodePages := emplace page [] (CodePages g), CodePagesMemoIndex := page\<rparr>);
            fresh = (case map_of (CodePages g1) page of None \<Rightarrow> True | Some v \<Rightarrow> v = []);
            g2 = g1\<lparr>CodePages := modify page (\<lambda>v. v @ addrs) (CodePages g1)\<rparr> in
        (rv \<or> fresh,
         if Enabled (CodeGranules g2)
         then g2\<lparr>CodeGranules := SetPageRange grant (push_bit 12 page) rstart rlen (CodeGranules g2)\<rparr> else g2))"

definition page_list :: "u64 \<Rightarrow> u64 \<Rightarrow> u64 list" where
  "page_list first lst = (if first \<le> lst then map (\<lambda>i. first + of_nat i) [0..<Suc (unat (lst - first))] else [])"

definition AddBlockExecutableRange ::
  "(nat \<Rightarrow> bool) \<Rightarrow> u64 list \<Rightarrow> u64 \<Rightarrow> u64 \<Rightarrow> u64 \<Rightarrow> u64 \<Rightarrow> guest_map \<Rightarrow> bool \<times> guest_map" where
  "AddBlockExecutableRange grant addrs start len rstart rlen g =
     fold (add_to_page grant addrs rstart rlen) (page_list (PageOf start) (PageOf (start + len - 1))) (False, g)"

definition MapClearCache :: "guest_map \<Rightarrow> guest_map" where
  "MapClearCache g =
     (let g1 = g\<lparr>BlockLinks := ClearLinks (BlockLinks g), BlockList := (\<lambda>_. None),
                RetainedBlocks := (\<lambda>_. None), RetainedCodePages := []\<rparr>;
          g2 = InvalidateCodePagesMemo g1 in
      g2\<lparr>CodeGranules := ClearAll (CodeGranules g2)\<rparr>)"

section \<open>Page indices\<close>

text \<open>The addresses listed for a page, by the code page index or by the retained index.\<close>

definition listed :: "(u64 \<times> u64 list) list \<Rightarrow> u64 \<Rightarrow> u64 set" where
  "listed l page = (case map_of l page of None \<Rightarrow> {} | Some v \<Rightarrow> set v)"

text \<open>Every block is listed for each of its code pages.\<close>

definition indexed :: "(u64 \<rightharpoonup> block_entry) \<Rightarrow> (u64 \<times> u64 list) list \<Rightarrow> bool" where
  "indexed blocks l \<longleftrightarrow> keys_sorted l \<and>
     (\<forall>a e p. blocks a = Some e \<longrightarrow> p \<in> set (EntryCodePages e) \<longrightarrow> a \<in> listed l (PageOf p))"

lemma indexedD: "\<lbrakk>indexed blocks l; blocks a = Some e; p \<in> set (EntryCodePages e)\<rbrakk> \<Longrightarrow> a \<in> listed l (PageOf p)"
  unfolding indexed_def by blast

lemma indexed_sorted: "indexed blocks l \<Longrightarrow> keys_sorted l"
  by (simp add: indexed_def)

lemma indexedI:
  "\<lbrakk>keys_sorted l; \<And>a e p. blocks a = Some e \<Longrightarrow> p \<in> set (EntryCodePages e) \<Longrightarrow> a \<in> listed l (PageOf p)\<rbrakk> \<Longrightarrow>
     indexed blocks l"
  by (simp add: indexed_def)

text \<open>Fewer blocks need fewer listings: what survives an update of both.\<close>

lemma indexed_mono:
  assumes "indexed blocks l" "keys_sorted l'"
    "\<And>a e p. blocks' a = Some e \<Longrightarrow> blocks a = Some e \<and> (p \<in> set (EntryCodePages e) \<longrightarrow> a \<in> listed l (PageOf p) \<longrightarrow> a \<in> listed l' (PageOf p))"
  shows "indexed blocks' l'"
  using assms indexedD by (intro indexedI) blast+

lemma removeAll_empty: "removeAll a v = [] \<longleftrightarrow> set v \<subseteq> {a}"
  by (induction v) auto

lemma listed_unindex: "listed (unindex a page l) p = (if p = PageOf page then listed l p - {a} else listed l p)"
  by (auto simp: listed_def unindex_def Let_def removeAll_empty split: option.splits)

lemma keys_sorted_unindex [simp]: "keys_sorted l \<Longrightarrow> keys_sorted (unindex a page l)"
  by (simp add: unindex_def Let_def split: option.split)

lemma fold_unindex:
  "keys_sorted l \<Longrightarrow> keys_sorted (fold (unindex a) pages l)"
  "listed (fold (unindex a) pages l) p = (if p \<in> PageOf ` set pages then listed l p - {a} else listed l p)"
  by (induction pages arbitrary: l) (auto simp: listed_unindex)

lemma listed_index: "listed (index a page l) p = (if p = PageOf page then insert a (listed l p) else listed l p)"
  by (auto simp: listed_def index_def Let_def split: option.splits)

lemma keys_sorted_index [simp]: "keys_sorted l \<Longrightarrow> keys_sorted (index a page l)"
  by (simp add: index_def Let_def)

lemma fold_index:
  "keys_sorted l \<Longrightarrow> keys_sorted (fold (index a) pages l)"
  "listed (fold (index a) pages l) p = (if p \<in> PageOf ` set pages then insert a (listed l p) else listed l p)"
  by (induction pages arbitrary: l) (auto simp: listed_index)

lemma listed_between:
  assumes "keys_sorted l"
  shows "\<Union>(set ` snd ` set (between lo hi l)) = (\<Union>p \<in> {lo..hi}. listed l p)"
proof -
  have "\<Union>(set ` snd ` set (between lo hi l)) = {x. \<exists>k v. (k, v) \<in> set (between lo hi l) \<and> x \<in> set v}"
    by force
  also have "\<dots> = (\<Union>p \<in> {lo..hi}. listed l p)"
    by (auto simp: between_set [OF assms] listed_def split: option.splits) 
  finally show ?thesis .
qed

lemma listed_erase_between: "listed (erase_between lo hi l) p = (if lo \<le> p \<and> p \<le> hi then {} else listed l p)"
  by (simp add: listed_def map_of_erase_between)

section \<open>Frames\<close>

lemma sever_frame [simp]:
  "BlockList (sever a g) = BlockList g" "CodePages (sever a g) = CodePages g"
  "CodePagesMemoIndex (sever a g) = CodePagesMemoIndex g" "RetainedBlocks (sever a g) = RetainedBlocks g"
  "RetainedCodePages (sever a g) = RetainedCodePages g" "CodeGranules (sever a g) = CodeGranules g"
  by (simp_all add: sever_def split: prod.split)

lemma sever_links:
  assumes "links_ok (BlockLinks g)"
  shows "links_ok (BlockLinks (sever a g))" "links (BlockLinks (sever a g)) = (links (BlockLinks g))(a := [])"
    "DelinkLog (sever a g) = DelinkLog g @ links (BlockLinks g) a"
  using links_sever [OF assms, of a] by (auto simp: sever_def split: prod.split)

lemma Erase_frame [simp]:
  "BlockList (snd (Erase a g)) = (BlockList g)(a := None)" "CodePages (snd (Erase a g)) = CodePages g"
  "CodePagesMemoIndex (snd (Erase a g)) = CodePagesMemoIndex g" "RetainedBlocks (snd (Erase a g)) = RetainedBlocks g"
  "RetainedCodePages (snd (Erase a g)) = RetainedCodePages g" "CodeGranules (snd (Erase a g)) = CodeGranules g"
  "BlockLinks (snd (Erase a g)) = BlockLinks (sever a g)"
  by (simp_all add: Erase_def Let_def)

lemma drop_frame [simp]:
  "BlockList (DropRetainedBlockLocked a g) = BlockList g" "CodePages (DropRetainedBlockLocked a g) = CodePages g"
  "CodePagesMemoIndex (DropRetainedBlockLocked a g) = CodePagesMemoIndex g"
  "CodeGranules (DropRetainedBlockLocked a g) = CodeGranules g" "BlockLinks (DropRetainedBlockLocked a g) = BlockLinks g"
  "RetainedBlocks (DropRetainedBlockLocked a g) = (RetainedBlocks g)(a := None)"
  by (auto simp: DropRetainedBlockLocked_def split: option.split)

lemma clear_granule_frame [simp]:
  "BlockList (clear_granule_page p g) = BlockList g" "CodePages (clear_granule_page p g) = CodePages g"
  "CodePagesMemoIndex (clear_granule_page p g) = CodePagesMemoIndex g"
  "RetainedBlocks (clear_granule_page p g) = RetainedBlocks g" "RetainedCodePages (clear_granule_page p g) = RetainedCodePages g"
  "BlockLinks (clear_granule_page p g) = BlockLinks g"
  by (simp_all add: clear_granule_page_def)

lemma fold_Erase:
  defines "erase_all \<equiv> fold (\<lambda>a g. snd (Erase a g))"
  shows "BlockList (erase_all as g) = (BlockList g) |` (- set as)" "CodePages (erase_all as g) = CodePages g"
    "CodePagesMemoIndex (erase_all as g) = CodePagesMemoIndex g" "RetainedBlocks (erase_all as g) = RetainedBlocks g"
    "RetainedCodePages (erase_all as g) = RetainedCodePages g" "CodeGranules (erase_all as g) = CodeGranules g"
    "links_ok (BlockLinks g) \<Longrightarrow> links_ok (BlockLinks (erase_all as g)) \<and>
      links (BlockLinks (erase_all as g)) = (\<lambda>d. if d \<in> set as then [] else links (BlockLinks g) d)"
  unfolding erase_all_def
  by (induction as arbitrary: g) (auto simp: fun_eq_iff restrict_map_def sever_links)

lemma fold_drop:
  "BlockList (fold DropRetainedBlockLocked as g) = BlockList g" "CodePages (fold DropRetainedBlockLocked as g) = CodePages g"
  "CodePagesMemoIndex (fold DropRetainedBlockLocked as g) = CodePagesMemoIndex g"
  "CodeGranules (fold DropRetainedBlockLocked as g) = CodeGranules g" "BlockLinks (fold DropRetainedBlockLocked as g) = BlockLinks g"
  "RetainedBlocks (fold DropRetainedBlockLocked as g) = (RetainedBlocks g) |` (- set as)"
  by (induction as arbitrary: g) (auto simp: fun_eq_iff restrict_map_def)

lemma drop_indexed:
  assumes "indexed (RetainedBlocks g) (RetainedCodePages g)"
  shows "indexed (RetainedBlocks (DropRetainedBlockLocked a g)) (RetainedCodePages (DropRetainedBlockLocked a g))"
proof (cases "RetainedBlocks g a")
  case None
  then show ?thesis using assms by (simp add: DropRetainedBlockLocked_def)
next
  case (Some e)
  then show ?thesis
    by (auto intro!: indexed_mono [OF assms] fold_unindex(1) indexed_sorted [OF assms]
        simp: DropRetainedBlockLocked_def fold_unindex(2) split: if_splits)
qed

lemma drop_range:
  fixes start len :: u64
  assumes "indexed (RetainedBlocks g) (RetainedCodePages g)"
  defines "g' \<equiv> DropRetainedRange start len g"
  shows "BlockList g' = BlockList g" "CodePages g' = CodePages g" "CodePagesMemoIndex g' = CodePagesMemoIndex g"
    "CodeGranules g' = CodeGranules g" "BlockLinks g' = BlockLinks g"
    "indexed (RetainedBlocks g') (RetainedCodePages g')"
    "RetainedBlocks g' = RetainedBlocks g |` (- (\<Union>p \<in> {PageOf start..PageOf (start + len - 1)}. listed (RetainedCodePages g) p))"
proof -
  define doomed where "doomed = concat (map snd (between (PageOf start) (PageOf (start + len - 1)) (RetainedCodePages g)))"
  have g': "g' = fold DropRetainedBlockLocked doomed g"
    by (simp add: g'_def DropRetainedRange_def doomed_def between_def)
  have d: "set doomed = (\<Union>p \<in> {PageOf start..PageOf (start + len - 1)}. listed (RetainedCodePages g) p)"
    using listed_between [OF indexed_sorted [OF assms(1)]] by (simp add: doomed_def)
  show "BlockList g' = BlockList g" "CodePages g' = CodePages g" "CodePagesMemoIndex g' = CodePagesMemoIndex g"
    "CodeGranules g' = CodeGranules g" "BlockLinks g' = BlockLinks g"
    "RetainedBlocks g' = RetainedBlocks g |` (- (\<Union>p \<in> {PageOf start..PageOf (start + len - 1)}. listed (RetainedCodePages g) p))"
    by (simp_all only: g' fold_drop d)
  have "indexed (RetainedBlocks (fold DropRetainedBlockLocked as g)) (RetainedCodePages (fold DropRetainedBlockLocked as g))" for as
    using assms(1) by (induction as arbitrary: g) (simp_all add: drop_indexed del: drop_frame)
  then show "indexed (RetainedBlocks g') (RetainedCodePages g')" by (simp only: g')
qed

section \<open>The invariant of the map\<close>

abbreviation max_page :: u64 where "max_page \<equiv> 0xFFFFFFFFFFFFF"

text \<open>The memo never names a page that has left the index, so that its pointer is live.\<close>

definition memo_ok :: "guest_map \<Rightarrow> bool" where
  "memo_ok g \<longleftrightarrow> CodePagesMemoIndex g = NOT 0 \<or> map_of (CodePages g) (CodePagesMemoIndex g) \<noteq> None"

text \<open>The bytes of the live blocks on their code pages.\<close>

definition live_byte :: "guest_map \<Rightarrow> u64 \<Rightarrow> bool" where
  "live_byte g x \<longleftrightarrow> (\<exists>a e p. BlockList g a = Some e \<and> p \<in> set (EntryCodePages e) \<and> p < kMaxAddress \<and>
     take_bit 12 p = 0 \<and> extent_byte p (ExtentStart e) (ExtentLength e) x)"

definition covered :: "guest_map \<Rightarrow> bool" where
  "covered g \<longleftrightarrow> Enabled (CodeGranules g) \<longrightarrow> {x. live_byte g x} \<subseteq> {x. marked (CodeGranules g) x}"

definition map_ok :: "guest_map \<Rightarrow> bool" where
  "map_ok g \<longleftrightarrow> links_ok (BlockLinks g) \<and> indexed (BlockList g) (CodePages g) \<and>
     indexed (RetainedBlocks g) (RetainedCodePages g) \<and> memo_ok g \<and>
     fst ` set (CodePages g) \<subseteq> {..max_page} \<and> wf_bitmap (CodeGranules g) \<and> covered g"

lemma map_okD:
  assumes "map_ok g"
  shows "links_ok (BlockLinks g)" "indexed (BlockList g) (CodePages g)" "keys_sorted (CodePages g)"
    "indexed (RetainedBlocks g) (RetainedCodePages g)" "memo_ok g" "fst ` set (CodePages g) \<subseteq> {..max_page}"
    "wf_bitmap (CodeGranules g)" "covered g"
  using assms indexed_sorted unfolding map_ok_def by blast+

lemma PageOf_max: "PageOf a \<le> max_page"
proof -
  have "unat (PageOf a) \<le> unat max_page"
    using unsigned_less [of a, where 'a = nat] by (simp only: PageOf_def page_index) simp
  then show ?thesis by (simp only: word_le_nat_alt)
qed

lemma page_of_base: "p \<le> max_page \<Longrightarrow> drop_bit 12 (push_bit 12 p) = p"
proof -
  assume "p \<le> max_page"
  then have "take_bit 52 p = p" by (simp add: word_le_nat_alt word_unat_eq_iff unsigned_take_bit_eq take_bit_nat_eq_self)
  then have "bit p n \<Longrightarrow> n < 52" for n by (metis bit_take_bit_iff)
  then show ?thesis by (intro bit_word_eqI) (auto simp: bit_simps)
qed

lemma not_a_page: "p \<le> max_page \<Longrightarrow> p \<noteq> NOT 0"
proof -
  have "\<not> NOT 0 \<le> max_page" by code_simp
  then show "p \<le> max_page \<Longrightarrow> p \<noteq> NOT 0" by metis
qed

lemma clear_granule_marked:
  assumes "wf_bitmap (CodeGranules g)" "p \<le> max_page"
  shows "wf_bitmap (CodeGranules (clear_granule_page p g))"
    "Enabled (CodeGranules (clear_granule_page p g)) = Enabled (CodeGranules g)"
    "marked (CodeGranules g) x \<Longrightarrow> PageOf x \<noteq> p \<Longrightarrow> marked (CodeGranules (clear_granule_page p g)) x"
  using assms(1) page_of_base [OF assms(2)] marked_below [of "CodeGranules g" x] recompute_spec(1,2) [OF assms(1)]
    recompute_spec(3) [OF assms(1), where p = "push_bit 12 p" and w = 0 and a = x]
  by (auto simp: clear_granule_page_def clear_page_recompute marked_def PageOf_def)

lemma live_byte_page:
  assumes "indexed (BlockList g) (CodePages g)" "BlockList g a = Some e" "p \<in> set (EntryCodePages e)"
    "a \<notin> (\<Union>q \<in> {lo..hi}. listed (CodePages g) q)"
  shows "PageOf p \<notin> {lo..hi}"
  using indexedD [OF assms(1-3)] assms(4) by blast

section \<open>Hard invalidation\<close>

lemma hard_pass:
  assumes "fst ` set L \<subseteq> {..max_page}"
  defines "pass \<equiv> fold (\<lambda>(page, entries) g. clear_granule_page page (fold (\<lambda>a g. snd (Erase a g)) entries g)) L"
  shows "BlockList (pass g) = BlockList g |` (- \<Union>(set ` snd ` set L))" "CodePages (pass g) = CodePages g"
    "CodePagesMemoIndex (pass g) = CodePagesMemoIndex g" "RetainedBlocks (pass g) = RetainedBlocks g"
    "RetainedCodePages (pass g) = RetainedCodePages g"
    "links_ok (BlockLinks g) \<Longrightarrow> links_ok (BlockLinks (pass g)) \<and>
      links (BlockLinks (pass g)) = (\<lambda>d. if d \<in> \<Union>(set ` snd ` set L) then [] else links (BlockLinks g) d)"
    "wf_bitmap (CodeGranules g) \<Longrightarrow> wf_bitmap (CodeGranules (pass g)) \<and>
      Enabled (CodeGranules (pass g)) = Enabled (CodeGranules g) \<and>
      (\<forall>x. marked (CodeGranules g) x \<longrightarrow> PageOf x \<notin> fst ` set L \<longrightarrow> marked (CodeGranules (pass g)) x)"
  using assms(1) unfolding pass_def
proof (induction L arbitrary: g)
  case (Cons pe L)
  obtain page entries where pe: "pe = (page, entries)" by (cases pe)
  { case 1 then show ?case using Cons.IH(1) by (auto simp: pe fold_Erase fun_eq_iff restrict_map_def) }
  { case 2 then show ?case using Cons.IH(2) by (simp add: pe fold_Erase) }
  { case 3 then show ?case using Cons.IH(3) by (simp add: pe fold_Erase) }
  { case 4 then show ?case using Cons.IH(4) by (simp add: pe fold_Erase) }
  { case 5 then show ?case using Cons.IH(5) by (simp add: pe fold_Erase) }
  { case 6 then show ?case using Cons.IH(6) [of "clear_granule_page page (fold (\<lambda>a g. snd (Erase a g)) entries g)"]
      fold_Erase(7) [of g entries] by (auto simp: pe fun_eq_iff) }
  { case 7 then show ?case using Cons.IH(7) [of "clear_granule_page page (fold (\<lambda>a g. snd (Erase a g)) entries g)"]
      clear_granule_marked [of "fold (\<lambda>a g. snd (Erase a g)) entries g" page] by (auto simp: pe fold_Erase) }
qed (simp_all add: restrict_map_def)

lemma between_pages: "fst ` set (between lo hi l) \<subseteq> fst ` set l"
  unfolding between_def by (auto dest!: set_takeWhileD set_dropWhileD)

definition pages_of :: "u64 \<Rightarrow> u64 \<Rightarrow> u64 set" where
  "pages_of start len = {PageOf start..PageOf (start + len - 1)}"

definition entries_on :: "(u64 \<times> u64 list) list \<Rightarrow> u64 set \<Rightarrow> u64 set" where
  "entries_on l P = (\<Union>p \<in> P. listed l p)"

lemma indexed_off:
  assumes "indexed blocks l" "blocks a = Some e" "a \<notin> entries_on l P"
  shows "PageOf ` set (EntryCodePages e) \<inter> P = {}"
  using indexedD [OF assms(1,2)] assms(3) by (auto simp: entries_on_def)

lemma indexed_restrict:
  assumes "indexed blocks l" "keys_sorted l'" "\<And>p. p \<notin> P \<Longrightarrow> listed l' p = listed l p"
  shows "indexed (blocks |` (- entries_on l P)) l'"
proof (rule indexedI)
  fix a e p assume a: "(blocks |` (- entries_on l P)) a = Some e" and p: "p \<in> set (EntryCodePages e)"
  then have "blocks a = Some e" "a \<notin> entries_on l P" by (auto simp: restrict_map_def split: if_splits)
  then show "a \<in> listed l' (PageOf p)"
    using indexed_off [OF assms(1)] assms(3) [of "PageOf p"] indexedD [OF assms(1)] p by (metis IntI empty_iff imageI)
qed (rule assms(2))

lemma covered_restrict:
  assumes "covered g" "indexed (BlockList g) (CodePages g)"
    and "BlockList g' = BlockList g |` (- entries_on (CodePages g) P)"
    and "Enabled (CodeGranules g') = Enabled (CodeGranules g)"
    and "\<And>x. marked (CodeGranules g) x \<Longrightarrow> PageOf x \<notin> P \<Longrightarrow> marked (CodeGranules g') x"
  shows "covered g'"
proof -
  have "marked (CodeGranules g') x" if en: "Enabled (CodeGranules g)" and live: "live_byte g' x" for x
  proof -
    obtain a e p where b: "BlockList g' a = Some e" "p \<in> set (EntryCodePages e)" "p < kMaxAddress" "take_bit 12 p = 0"
      "extent_byte p (ExtentStart e) (ExtentLength e) x" using live unfolding live_byte_def by blast
    then have a: "BlockList g a = Some e" "a \<notin> entries_on (CodePages g) P"
      unfolding assms(3) by (auto simp: restrict_map_def split: if_splits)
    then have "live_byte g x" unfolding live_byte_def using b by blast
    then have "marked (CodeGranules g) x" using assms(1) en by (auto simp: covered_def)
    moreover have "PageOf x = PageOf p" using b(5) by (simp add: extent_byte_def PageOf_def)
    then have "PageOf x \<notin> P" using indexed_off [OF assms(2) a] b(2) by auto
    ultimately show ?thesis by (rule assms(5))
  qed
  then show ?thesis by (auto simp: covered_def assms(4))
qed

lemma invalidate_range_spec:
  fixes start len :: u64
  assumes ok: "map_ok g"
  defines "g' \<equiv> InvalidateRange start len g" and "D \<equiv> entries_on (CodePages g) (pages_of start len)"
  shows "map_ok g'" "BlockList g' = BlockList g |` (- D)"
    "RetainedBlocks g' = RetainedBlocks g |` (- entries_on (RetainedCodePages g) (pages_of start len))"
    "links (BlockLinks g') = (\<lambda>d. if d \<in> D then [] else links (BlockLinks g) d)"
proof -
  note inv = map_okD [OF ok]
  define L where "L = between (PageOf start) (PageOf (start + len - 1)) (CodePages g)"
  define g1 where "g1 = fold (\<lambda>(page, entries) g. clear_granule_page page (fold (\<lambda>a g. snd (Erase a g)) entries g)) L g"
  define g2 where "g2 = InvalidateCodePagesMemo
    (g1\<lparr>CodePages := erase_between (PageOf start) (PageOf (start + len - 1)) (CodePages g1)\<rparr>)"
  have g': "g' = DropRetainedRange start len g2" by (simp add: g'_def InvalidateRange_def g2_def g1_def L_def Let_def)
  have "fst ` set L \<subseteq> {..max_page}" using between_pages inv(6) unfolding L_def by blast
  note pass = hard_pass [OF this, where g = g, folded g1_def]
  have D: "\<Union>(set ` snd ` set L) = D" using listed_between [OF inv(3)] by (simp add: L_def D_def entries_on_def pages_of_def)
  have g2: "BlockList g2 = BlockList g |` (- D)" "RetainedBlocks g2 = RetainedBlocks g" "RetainedCodePages g2 = RetainedCodePages g"
    "CodePages g2 = erase_between (PageOf start) (PageOf (start + len - 1)) (CodePages g)" "BlockLinks g2 = BlockLinks g1"
    "CodeGranules g2 = CodeGranules g1" "CodePagesMemoIndex g2 = NOT 0"
    using pass(1) unfolding D by (simp_all add: g2_def InvalidateCodePagesMemo_def pass(2-5))
  have ret: "indexed (RetainedBlocks g2) (RetainedCodePages g2)" using inv(4) by (simp add: g2)
  note drop = drop_range [OF ret, where start = start and len = len, folded g']
  show bl: "BlockList g' = BlockList g |` (- D)" by (simp add: drop g2)
  show "RetainedBlocks g' = RetainedBlocks g |` (- entries_on (RetainedCodePages g) (pages_of start len))"
    by (simp only: drop g2 entries_on_def pages_of_def)
  have lo: "links_ok (BlockLinks g') \<and> links (BlockLinks g') = (\<lambda>d. if d \<in> D then [] else links (BlockLinks g) d)"
    using pass(6) [OF inv(1)] unfolding D by (simp only: drop g2)
  then show "links (BlockLinks g') = (\<lambda>d. if d \<in> D then [] else links (BlockLinks g) d)" by blast
  have cp: "CodePages g' = erase_between (PageOf start) (PageOf (start + len - 1)) (CodePages g)" by (simp only: drop g2)
  have "indexed (BlockList g') (CodePages g')"
    unfolding bl cp D_def using inv(2,3)
    by (intro indexed_restrict) (auto simp: listed_erase_between pages_of_def)
  moreover have "covered g'"
  proof (rule covered_restrict [OF inv(8,2)])
    show "BlockList g' = BlockList g |` (- entries_on (CodePages g) (pages_of start len))" using bl unfolding D_def .
    show "Enabled (CodeGranules g') = Enabled (CodeGranules g)" using pass(7) [OF inv(7)] by (simp only: drop g2)
    show "marked (CodeGranules g') x" if "marked (CodeGranules g) x" "PageOf x \<notin> pages_of start len" for x
    proof -
      have "PageOf x \<notin> fst ` set L" using that(2) between_set [OF inv(3)] by (auto simp: L_def pages_of_def)
      then show ?thesis using pass(7) [OF inv(7)] that(1) by (simp only: drop g2) blast
    qed
  qed
  moreover have "fst ` set (CodePages g') \<subseteq> {..max_page}" using inv(6) unfolding cp erase_between_def by auto
  ultimately show "map_ok g'" unfolding map_ok_def
    using lo drop(6) pass(7) [OF inv(7)] by (simp add: drop(3,4) g2 memo_ok_def)
qed

section \<open>Soft invalidation\<close>

text \<open>A block that can be revalidated: it has a content hash and code pages.\<close>

definition hashed :: "block_entry \<Rightarrow> bool" where
  "hashed e \<longleftrightarrow> GuestRangeLength e \<noteq> 0 \<and> EntryCodePages e \<noteq> []"

definition retains :: "(u64 \<rightharpoonup> block_entry) \<Rightarrow> u64 set \<Rightarrow> (u64 \<rightharpoonup> block_entry) \<Rightarrow> (u64 \<rightharpoonup> block_entry)" where
  "retains blocks D old = (\<lambda>a. case blocks a of None \<Rightarrow> old a | Some e \<Rightarrow> if a \<in> D \<and> hashed e then Some e else old a)"

lemma soft_erase:
  "BlockList (SoftEraseBlock a g) = (BlockList g)(a := None)" "CodePages (SoftEraseBlock a g) = CodePages g"
  "CodePagesMemoIndex (SoftEraseBlock a g) = CodePagesMemoIndex g" "CodeGranules (SoftEraseBlock a g) = CodeGranules g"
  "RetainedBlocks (SoftEraseBlock a g) = retains (BlockList g) {a} (RetainedBlocks g)"
  by (auto simp: SoftEraseBlock_def retains_def hashed_def Let_def fun_eq_iff split: option.split)

lemma soft_erase_links:
  assumes "links_ok (BlockLinks g)"
  shows "links_ok (BlockLinks (SoftEraseBlock a g))"
    "links (BlockLinks (SoftEraseBlock a g)) = (\<lambda>d. if d = a \<and> BlockList g a \<noteq> None then [] else links (BlockLinks g) d)"
  using assms sever_links [OF assms, of a] by (auto simp: SoftEraseBlock_def Let_def split: option.split)

lemma soft_erase_indexed:
  assumes "indexed (RetainedBlocks g) (RetainedCodePages g)"
  shows "indexed (RetainedBlocks (SoftEraseBlock a g)) (RetainedCodePages (SoftEraseBlock a g))"
proof (cases "\<exists>e. BlockList g a = Some e \<and> hashed e")
  case True
  then obtain e where e: "BlockList g a = Some e" "hashed e" by blast
  define g2 where "g2 = DropRetainedBlockLocked a (sever a g)"
  have 2: "indexed (RetainedBlocks g2) (RetainedCodePages g2)" unfolding g2_def using assms by (intro drop_indexed) simp
  have "indexed ((RetainedBlocks g2)(a \<mapsto> e)) (fold (index a) (EntryCodePages e) (RetainedCodePages g2))"
  proof (rule indexedI)
    show "keys_sorted (fold (index a) (EntryCodePages e) (RetainedCodePages g2))"
      by (rule fold_index(1) [OF indexed_sorted [OF 2]])
    show "b \<in> listed (fold (index a) (EntryCodePages e) (RetainedCodePages g2)) (PageOf p)"
      if "((RetainedBlocks g2)(a \<mapsto> e)) b = Some e'" "p \<in> set (EntryCodePages e')" for b e' p
      using that indexedD [OF 2] by (cases "b = a") (auto simp: fold_index(2))
  qed
  then show ?thesis using e by (simp add: SoftEraseBlock_def hashed_def Let_def g2_def)
next
  case False
  then show ?thesis using assms by (auto simp: SoftEraseBlock_def hashed_def Let_def split: option.split)
qed

text \<open>\<open>g'\<close> is \<open>g\<close> with the addresses \<open>D\<close> soft-erased and granules of the pages \<open>P\<close> cleared.\<close>

definition soft_rel :: "u64 set \<Rightarrow> u64 set \<Rightarrow> guest_map \<Rightarrow> guest_map \<Rightarrow> bool" where
  "soft_rel D P g g' \<longleftrightarrow>
     BlockList g' = BlockList g |` (- D) \<and> CodePages g' = CodePages g \<and> CodePagesMemoIndex g' = CodePagesMemoIndex g \<and>
     RetainedBlocks g' = retains (BlockList g) D (RetainedBlocks g) \<and>
     (links_ok (BlockLinks g) \<longrightarrow> links_ok (BlockLinks g') \<and>
        links (BlockLinks g') = (\<lambda>d. if d \<in> D \<inter> dom (BlockList g) then [] else links (BlockLinks g) d)) \<and>
     (indexed (RetainedBlocks g) (RetainedCodePages g) \<longrightarrow> indexed (RetainedBlocks g') (RetainedCodePages g')) \<and>
     (wf_bitmap (CodeGranules g) \<longrightarrow> wf_bitmap (CodeGranules g') \<and> Enabled (CodeGranules g') = Enabled (CodeGranules g) \<and>
        (\<forall>x. marked (CodeGranules g) x \<longrightarrow> PageOf x \<notin> P \<longrightarrow> marked (CodeGranules g') x))"

lemma soft_rel_refl: "soft_rel {} {} g g"
  by (auto simp: soft_rel_def retains_def restrict_map_def fun_eq_iff split: option.split)

lemma soft_relD:
  assumes "soft_rel D P g g'"
  shows "BlockList g' = BlockList g |` (- D)" "CodePages g' = CodePages g" "CodePagesMemoIndex g' = CodePagesMemoIndex g"
    "RetainedBlocks g' = retains (BlockList g) D (RetainedBlocks g)"
    "links_ok (BlockLinks g) \<Longrightarrow> links_ok (BlockLinks g')"
    "links_ok (BlockLinks g) \<Longrightarrow>
      links (BlockLinks g') = (\<lambda>d. if d \<in> D \<inter> dom (BlockList g) then [] else links (BlockLinks g) d)"
    "indexed (RetainedBlocks g) (RetainedCodePages g) \<Longrightarrow> indexed (RetainedBlocks g') (RetainedCodePages g')"
    "wf_bitmap (CodeGranules g) \<Longrightarrow> wf_bitmap (CodeGranules g')"
    "wf_bitmap (CodeGranules g) \<Longrightarrow> Enabled (CodeGranules g') = Enabled (CodeGranules g)"
    "wf_bitmap (CodeGranules g) \<Longrightarrow> marked (CodeGranules g) x \<Longrightarrow> PageOf x \<notin> P \<Longrightarrow> marked (CodeGranules g') x"
  using assms unfolding soft_rel_def by (elim conjE, simp)+

lemma soft_rel_trans:
  assumes 1: "soft_rel D P g g1" and 2: "soft_rel E Q g1 g2"
  shows "soft_rel (D \<union> E) (P \<union> Q) g g2"
  unfolding soft_rel_def
proof (intro conjI impI allI)
  note d = soft_relD [OF 1] and e = soft_relD [OF 2]
  show "BlockList g2 = BlockList g |` (- (D \<union> E))" unfolding e(1) d(1) by (auto simp: restrict_map_def fun_eq_iff)
  show "RetainedBlocks g2 = retains (BlockList g) (D \<union> E) (RetainedBlocks g)"
    unfolding e(4) d(1,4) by (auto simp: retains_def fun_eq_iff restrict_map_def split: option.split)
  show "links_ok (BlockLinks g) \<Longrightarrow> links_ok (BlockLinks g2)" by (rule e(5) [OF d(5)])
  show "links (BlockLinks g2) = (\<lambda>x. if x \<in> (D \<union> E) \<inter> dom (BlockList g) then [] else links (BlockLinks g) x)"
    if l: "links_ok (BlockLinks g)"
    unfolding e(6) [OF d(5) [OF l]] d(6) [OF l] d(1) by (auto simp: fun_eq_iff restrict_map_def)
  show "marked (CodeGranules g2) x" if "wf_bitmap (CodeGranules g)" "marked (CodeGranules g) x" "PageOf x \<notin> P \<union> Q" for x
    using that d(8,10) e(10) by blast
qed (use soft_relD [OF 1] soft_relD [OF 2] in simp_all)

lemma soft_rel_erase: "soft_rel {a} {} g (SoftEraseBlock a g)"
  unfolding soft_rel_def soft_erase
  using soft_erase_links [of g a] soft_erase_indexed [of g a]
  by (auto simp: restrict_map_def fun_eq_iff soft_erase(5))

lemma soft_rel_entries: "soft_rel (set as) {} g (fold SoftEraseBlock as g)"
proof (induction as arbitrary: g)
  case (Cons a as)
  show ?case using soft_rel_trans [OF soft_rel_erase Cons.IH, of a g] by simp
qed (simp add: soft_rel_refl)

lemma soft_rel_clear: "p \<le> max_page \<Longrightarrow> soft_rel {} {p} g (clear_granule_page p g)"
  using soft_rel_refl [of g] clear_granule_marked [of g p] by (auto simp: soft_rel_def)

lemma soft_rel_pass:
  "fst ` set L \<subseteq> {..max_page} \<Longrightarrow> soft_rel (\<Union>(set ` snd ` set L)) (fst ` set L) g
     (fold (\<lambda>(page, entries) g. clear_granule_page page (fold SoftEraseBlock entries g)) L g)"
proof (induction L arbitrary: g)
  case (Cons pe L)
  obtain page entries where pe: "pe = (page, entries)" by (cases pe)
  have "soft_rel (set entries \<union> {}) ({} \<union> {page}) g (clear_granule_page page (fold SoftEraseBlock entries g))"
    using Cons.prems by (intro soft_rel_trans [OF soft_rel_entries soft_rel_clear]) (simp add: pe)
  then show ?case using soft_rel_trans [OF _ Cons.IH] Cons.prems by (fastforce simp: pe)
qed (simp add: soft_rel_refl)

lemma soft_invalidate_spec:
  fixes start len :: u64
  assumes ok: "map_ok g"
  defines "g' \<equiv> SoftInvalidateRange start len g" and "D \<equiv> entries_on (CodePages g) (pages_of start len)"
  shows "map_ok g'" "BlockList g' = BlockList g |` (- D)" "RetainedBlocks g' = retains (BlockList g) D (RetainedBlocks g)"
    "links (BlockLinks g') = (\<lambda>d. if d \<in> D \<inter> dom (BlockList g) then [] else links (BlockLinks g) d)"
proof -
  note inv = map_okD [OF ok]
  define L where "L = between (PageOf start) (PageOf (start + len - 1)) (CodePages g)"
  define g1 where "g1 = fold (\<lambda>(page, entries) g. clear_granule_page page (fold SoftEraseBlock entries g)) L g"
  have D: "\<Union>(set ` snd ` set L) = D" using listed_between [OF inv(3)] by (simp add: L_def D_def entries_on_def pages_of_def)
  have "fst ` set L \<subseteq> {..max_page}" using between_pages inv(6) unfolding L_def by blast
  note r = soft_relD [OF soft_rel_pass [OF this, of g, folded g1_def, unfolded D]]
  have L: "x \<notin> fst ` set L" if "x \<notin> pages_of start len" for x
    using that between_set [OF inv(3)] by (auto simp: L_def pages_of_def)
  have g': "g' = g1\<lparr>CodePages := erase_between (PageOf start) (PageOf (start + len - 1)) (CodePages g), CodePagesMemoIndex := NOT 0\<rparr>"
    unfolding r(2) [symmetric] by (simp add: g'_def SoftInvalidateRange_def g1_def L_def Let_def InvalidateCodePagesMemo_def)
  show bl: "BlockList g' = BlockList g |` (- D)" "RetainedBlocks g' = retains (BlockList g) D (RetainedBlocks g)"
    "links (BlockLinks g') = (\<lambda>d. if d \<in> D \<inter> dom (BlockList g) then [] else links (BlockLinks g) d)"
    using r(1,4) r(6) [OF inv(1)] by (simp_all add: g')
  have "indexed (BlockList g') (CodePages g')"
    unfolding bl D_def using inv(2,3) by (intro indexed_restrict) (auto simp: g' listed_erase_between pages_of_def)
  moreover have "covered g'"
    using r(9,10) [OF inv(7)] L by (intro covered_restrict [OF inv(8,2) bl(1) [unfolded D_def]]) (simp_all add: g')
  moreover have "fst ` set (CodePages g') \<subseteq> {..max_page}" using inv(6) unfolding g' erase_between_def by auto
  moreover have "links_ok (BlockLinks g')" "indexed (RetainedBlocks g') (RetainedCodePages g')" "wf_bitmap (CodeGranules g')"
    using r(5) [OF inv(1)] r(7) [OF inv(4)] r(8) [OF inv(7)] by (simp_all add: g')
  ultimately show "map_ok g'" unfolding map_ok_def by (simp add: g' memo_ok_def)
qed

section \<open>Precise invalidation\<close>

definition victims :: "u64 \<Rightarrow> u64 \<Rightarrow> (u64 \<rightharpoonup> block_entry) \<Rightarrow> u64 set \<Rightarrow> u64 set" where
  "victims start fin blocks A = {a \<in> A. \<exists>e. blocks a = Some e \<and> EntryOverlaps e start fin}"

definition survivors :: "u64 \<Rightarrow> u64 \<Rightarrow> (u64 \<rightharpoonup> block_entry) \<Rightarrow> u64 set \<Rightarrow> u64 set" where
  "survivors start fin blocks A = {a \<in> A. \<exists>e. blocks a = Some e \<and> \<not> EntryOverlaps e start fin}"

lemma victims_finite: "finite A \<Longrightarrow> finite (victims start fin blocks A)"
  by (simp add: victims_def)

lemma victims_insert:
  "victims start fin blocks (insert a A) = (case blocks a of None \<Rightarrow> victims start fin blocks A
     | Some e \<Rightarrow> if EntryOverlaps e start fin then insert a (victims start fin blocks A) else victims start fin blocks A)"
  "survivors start fin blocks (insert a A) = (case blocks a of None \<Rightarrow> survivors start fin blocks A
     | Some e \<Rightarrow> if EntryOverlaps e start fin then survivors start fin blocks A else insert a (survivors start fin blocks A))"
  by (auto simp: victims_def survivors_def split: option.split)

lemma victims_upd:
  assumes "blocks a = Some e" "EntryOverlaps e start fin"
  shows "victims start fin (blocks(a := None)) A = victims start fin blocks A - {a}"
    "survivors start fin (blocks(a := None)) A = survivors start fin blocks A"
  using assms by (auto simp: victims_def survivors_def)

text \<open>The inner loop erases the victims of the page one by one; the rest of its work is a fold.\<close>

lemma precise_entries_erases:
  assumes "precise_entries base start fin as (kept, bits, n, g) = (kept', bits', n', g')"
  obtains vs where "g' = fold (\<lambda>a g. snd (Erase a g)) vs g" "distinct vs"
    "set vs = victims start fin (BlockList g) (set as)" "n' = n + length vs"
  using assms
proof (induction as arbitrary: kept bits n g thesis)
  case Nil
  from Nil.prems(2) have "g' = g" "n' = n" by simp_all
  then show ?case using Nil.prems(1) [of "[]"] by (simp add: victims_def)
next
  case (Cons a as)
  show ?case
  proof (cases "\<exists>e. BlockList g a = Some e \<and> EntryOverlaps e start fin")
    case True
    then obtain e where e: "BlockList g a = Some e" "EntryOverlaps e start fin" by blast
    have "precise_entries base start fin as (kept, bits, Suc n, snd (Erase a g)) = (kept', bits', n', g')"
      using Cons.prems(2) e by simp
    then obtain vs where vs: "g' = fold (\<lambda>a g. snd (Erase a g)) vs (snd (Erase a g))" "distinct vs"
      "set vs = victims start fin (BlockList (snd (Erase a g))) (set as)" "n' = Suc n + length vs"
      using Cons.IH by blast
    have v: "set vs = victims start fin (BlockList g) (set as) - {a}"
      unfolding vs(3) Erase_frame by (rule victims_upd(1) [where blocks = "BlockList g", OF e])
    show ?thesis
    proof (rule Cons.prems(1) [of "a # vs"])
      show "set (a # vs) = victims start fin (BlockList g) (set (a # as))"
        using e v by (auto simp: victims_def)
    qed (use vs(1,2,4) v in simp_all)
  next
    case False
    then have "victims start fin (BlockList g) (set (a # as)) = victims start fin (BlockList g) (set as)"
      by (auto simp: victims_def)
    moreover obtain k b where "precise_entries base start fin as (k, b, n, g) = (kept', bits', n', g')"
      using Cons.prems(2) False by (auto split: option.splits if_splits)
    ultimately show ?thesis using Cons.IH Cons.prems(1) by metis
  qed
qed

lemma precise_entries_keeps:
  assumes "precise_entries base start fin as (kept, bits, n, g) = (kept', bits', n', g')"
  shows "set kept' = set kept \<union> survivors start fin (BlockList g) (set as)"
    "bit bits i \<or> (\<exists>a e. a \<in> set as \<and> BlockList g a = Some e \<and> \<not> EntryOverlaps e start fin \<and>
       bit (PageMaskFor base (ExtentStart e) (ExtentLength e)) i) \<Longrightarrow> bit bits' i"
  using assms
proof (induction as arbitrary: kept bits n g)
  case (Cons a as)
  have cases: "BlockList g a = None \<or> (\<exists>e. BlockList g a = Some e \<and> EntryOverlaps e start fin) \<or>
      (\<exists>e. BlockList g a = Some e \<and> \<not> EntryOverlaps e start fin)" for g by (cases "BlockList g a") auto
  { case (1 kept bits n g)
    consider (none) "BlockList g a = None" | (hit) e where "BlockList g a = Some e" "EntryOverlaps e start fin"
      | (miss) e where "BlockList g a = Some e" "\<not> EntryOverlaps e start fin" using cases by blast
    then show ?case
    proof cases
      case hit
      then show ?thesis using Cons.IH(1) [of kept bits "Suc n" "snd (Erase a g)"] 1 victims_upd(2) [of "BlockList g", OF hit]
        by (simp add: victims_insert fun_upd_def)
    qed (use 1 Cons.IH(1) in \<open>auto simp: victims_insert\<close>) }
  { case (2 kept bits n g)
    consider (none) "BlockList g a = None" | (hit) e where "BlockList g a = Some e" "EntryOverlaps e start fin"
      | (miss) e where "BlockList g a = Some e" "\<not> EntryOverlaps e start fin" using cases by blast
    then show ?case
    proof cases
      case hit
      then have "(\<exists>b e. b \<in> set as \<and> BlockList (snd (Erase a g)) b = Some e \<and> \<not> EntryOverlaps e start fin \<and>
          bit (PageMaskFor base (ExtentStart e) (ExtentLength e)) i) \<or> bit bits i" using 2(1) by (auto, metis option.inject)
      then show ?thesis using Cons.IH(2) [where bits = bits and g = "snd (Erase a g)" and kept = kept and n = "Suc n"] 2(2) hit by auto
    next
      case none
      then show ?thesis using Cons.IH(2) [where bits = bits and g = g and kept = kept and n = n] 2 by auto
    next
      case miss
      then show ?thesis using Cons.IH(2) [where bits = "bits OR PageMaskFor base (ExtentStart e) (ExtentLength e)"
            and g = g and kept = "kept @ [a]" and n = n] 2 by (auto simp: bit_or_iff)
    qed }
qed (simp_all add: survivors_def)


lemma recompute_marked:
  assumes "wf_bitmap b" "marked b x" "b' = RecomputePageWord p w b"
    and "drop_bit 12 p = drop_bit 12 x \<Longrightarrow> bit w (unat x mod 4096 div 64)"
  shows "marked b' x"
  using assms(2,4) recompute_spec(3) [OF assms(1) marked_below [OF assms(2)], of p w]
  by (auto simp: marked_def assms(3))

lemma precise_page_spec:
  assumes ok: "map_ok g" and page: "map_of (CodePages g) page = Some entries"
    and res: "precise_page start fin (page, entries) (n, g) = (n', g')"
  defines "V \<equiv> victims start fin (BlockList g) (set entries)"
  shows "map_ok g'" "BlockList g' = BlockList g |` (- V)" "n' = n + card V"
    "q \<noteq> page \<Longrightarrow> map_of (CodePages g') q = map_of (CodePages g) q"
    "RetainedBlocks g' = RetainedBlocks g" "RetainedCodePages g' = RetainedCodePages g"
    "links (BlockLinks g') = (\<lambda>d. if d \<in> V then [] else links (BlockLinks g) d)"
proof -
  note inv = map_okD [OF ok]
  define base where "base = push_bit 12 page"
  obtain kept bits m g1 where r: "precise_entries base start fin entries ([], 0, n, g) = (kept, bits, m, g1)"
    by (metis prod_cases4)
  obtain vs where vs: "g1 = fold (\<lambda>a g. snd (Erase a g)) vs g" "distinct vs" "set vs = V" "m = n + length vs"
    using precise_entries_erases [OF r] unfolding V_def by metis
  note keep = precise_entries_keeps [OF r]
  note g1 = fold_Erase [where as = vs and g = g, folded vs(1), unfolded vs(3)]
  define g2 where "g2 = g1\<lparr>CodePages := (if kept = [] then erase page (put page kept (CodePages g)) else put page kept (CodePages g)),
    CodePagesMemoIndex := (if kept = [] then NOT 0 else CodePagesMemoIndex g),
    CodeGranules := (if Enabled (CodeGranules g) then RecomputePageWord base bits (CodeGranules g) else CodeGranules g)\<rparr>"
  have g': "g' = g2" "n' = m"
    using res by (auto simp: precise_page_def base_def [symmetric] r g2_def g1 InvalidateCodePagesMemo_def Let_def
        intro!: guest_map.equality)
  show bl: "BlockList g' = BlockList g |` (- V)" "n' = n + card V"
    "RetainedBlocks g' = RetainedBlocks g" "RetainedCodePages g' = RetainedCodePages g"
    "links (BlockLinks g') = (\<lambda>d. if d \<in> V then [] else links (BlockLinks g) d)"
    using g1(7) [OF inv(1)] vs(3,4) distinct_card [OF vs(2)] by (simp_all add: g' g2_def g1)
  show cp: "map_of (CodePages g') q = map_of (CodePages g) q" if "q \<noteq> page" for q
    using that by (simp add: g' g2_def)
  have here: "listed (CodePages g') page = survivors start fin (BlockList g) (set entries)"
    using keep(1) by (auto simp: g' g2_def listed_def)
  have pm: "page \<in> fst ` set (CodePages g)" using map_of_SomeD [OF page] by force
  have idx: "indexed (BlockList g') (CodePages g')"
  proof (rule indexedI)
    show "keys_sorted (CodePages g')" using inv(3) by (simp add: g' g2_def)
    fix a e p assume a: "BlockList g' a = Some e" and p: "p \<in> set (EntryCodePages e)"
    have b: "BlockList g a = Some e" "a \<notin> V" using a unfolding bl by (auto simp: restrict_map_def split: if_splits)
    have l: "a \<in> listed (CodePages g) (PageOf p)" using indexedD [OF inv(2) b(1) p] .
    show "a \<in> listed (CodePages g') (PageOf p)"
    proof (cases "PageOf p = page")
      case True
      then show ?thesis using l b unfolding True here by (auto simp: listed_def page survivors_def V_def victims_def)
    next
      case False
      then show ?thesis using l cp [OF False] by (simp add: listed_def)
    qed
  qed
  show "map_ok g'" unfolding map_ok_def
  proof (intro conjI)
    show "memo_ok g'" using inv(5) by (auto simp: memo_ok_def g' g2_def)
    show "fst ` set (CodePages g') \<subseteq> {..max_page}"
      using inv(6) pm keys_put [of page kept "CodePages g"] by (auto simp: g' g2_def erase_def)
    show "wf_bitmap (CodeGranules g')" using inv(7) by (simp add: g' g2_def recompute_spec)
    show "covered g'"
    proof -
      have "marked (CodeGranules g') x" if en: "Enabled (CodeGranules g)" and live: "live_byte g' x" for x
      proof -
        obtain a e p where b: "BlockList g' a = Some e" "p \<in> set (EntryCodePages e)" "p < kMaxAddress" "take_bit 12 p = 0"
          "extent_byte p (ExtentStart e) (ExtentLength e) x" using live unfolding live_byte_def by blast
        have a: "BlockList g a = Some e" "a \<notin> V" using b(1) unfolding bl by (auto simp: restrict_map_def split: if_splits)
        then have "live_byte g x" unfolding live_byte_def using b by blast
        then have m: "marked (CodeGranules g) x" using inv(8) en by (auto simp: covered_def)
        have px: "drop_bit 12 x = drop_bit 12 p" using b(5) by (simp add: extent_byte_def)
        show ?thesis
        proof (rule recompute_marked [OF inv(7) m])
          show "CodeGranules g' = RecomputePageWord base bits (CodeGranules g)" using en by (simp add: g' g2_def)
          assume "drop_bit 12 base = drop_bit 12 x"
          then have "PageOf p = page" using px inv(6) pm page_of_base by (auto simp: base_def PageOf_def)
          then have "a \<in> set entries" "base = p"
            using indexedD [OF inv(2) a(1) b(2)] bits_ident [of 12 p] b(4) by (auto simp: listed_def page base_def PageOf_def)
          then show "bit bits (unat x mod 4096 div 64)"
            using a extent_byte_marked(2) [OF b(5,4,3)] by (intro keep(2)) (auto simp: V_def victims_def)
        qed
      qed
      then show ?thesis by (auto simp: covered_def g' g2_def recompute_spec inv(7))
    qed
  qed (use g1(7) [OF inv(1)] inv(4) idx bl in \<open>simp_all add: g' g2_def\<close>)
qed

lemma victims_restrict:
  "victims start fin (blocks |` (- victims start fin blocks A)) B = victims start fin blocks B - victims start fin blocks A"
  by (auto simp: victims_def restrict_map_def)

lemma precise_pass:
  assumes "map_ok g" "distinct (map fst L)" "\<forall>pe \<in> set L. map_of (CodePages g) (fst pe) = Some (snd pe)"
    and "fold (precise_page start fin) L (n, g) = (n', g')"
  shows "map_ok g' \<and> BlockList g' = BlockList g |` (- victims start fin (BlockList g) (\<Union>(set ` snd ` set L))) \<and>
    n' = n + card (victims start fin (BlockList g) (\<Union>(set ` snd ` set L))) \<and>
    RetainedBlocks g' = RetainedBlocks g \<and> RetainedCodePages g' = RetainedCodePages g \<and>
    links (BlockLinks g') = (\<lambda>d. if d \<in> victims start fin (BlockList g) (\<Union>(set ` snd ` set L)) then [] else links (BlockLinks g) d)"
  using assms
proof (induction L arbitrary: n g)
  case Nil
  then show ?case by (simp add: victims_def restrict_map_def)
next
  case (Cons pe L)
  obtain page entries where pe: "pe = (page, entries)" by (cases pe)
  obtain m g1 where r: "precise_page start fin (page, entries) (n, g) = (m, g1)" by fastforce
  have "map_of (CodePages g) page = Some entries" using Cons.prems(3) by (simp add: pe)
  note step = precise_page_spec [OF Cons.prems(1) this r]
  define A where "A = set entries"
  define B where "B = \<Union>(set ` snd ` set L)"
  define V where "V = victims start fin (BlockList g) A"
  have rest: "\<forall>qe \<in> set L. map_of (CodePages g1) (fst qe) = Some (snd qe)"
  proof
    fix qe assume q: "qe \<in> set L"
    then have "fst qe \<noteq> page" using Cons.prems(2) by (auto simp: pe)
    then show "map_of (CodePages g1) (fst qe) = Some (snd qe)" using step(4) Cons.prems(3) q by simp
  qed
  have "fold (precise_page start fin) L (m, g1) = (n', g')" "distinct (map fst L)" using Cons.prems(2,4) r by (simp_all add: pe)
  note IH = Cons.IH [OF step(1) this(2) rest this(1), folded B_def]
  have u: "victims start fin (BlockList g) (A \<union> B) = V \<union> (victims start fin (BlockList g) B - V)"
    by (auto simp: V_def victims_def)
  have fin: "finite A" "finite B" by (auto simp: A_def B_def)
  have c: "card (victims start fin (BlockList g) (A \<union> B)) = card V + card (victims start fin (BlockList g) B - V)"
    unfolding u using fin by (intro card_Un_disjoint) (auto simp: V_def victims_finite)
  have bl: "BlockList g1 = BlockList g |` (- V)" using step(2) by (simp only: V_def A_def)
  have v: "victims start fin (BlockList g1) B = victims start fin (BlockList g) B - V"
    unfolding bl V_def by (rule victims_restrict)
  have "(BlockList g |` (- V)) |` (- (victims start fin (BlockList g) B - V)) = BlockList g |` (- victims start fin (BlockList g) (A \<union> B))"
    unfolding u by (auto simp: restrict_map_def fun_eq_iff)
  moreover have "links (BlockLinks g') = (\<lambda>d. if d \<in> victims start fin (BlockList g) (A \<union> B) then [] else links (BlockLinks g) d)"
    using IH step(7) unfolding v u by (auto simp: V_def A_def fun_eq_iff)
  moreover have "m = n + card V" using step(3) by (simp only: V_def A_def)
  moreover have "\<Union>(set ` snd ` set (pe # L)) = A \<union> B" by (simp add: pe A_def B_def)
  ultimately show ?case using IH c step(5,6) unfolding v unfolding bl by (simp only: add.assoc simp_thms)
qed

lemma map_ok_drop:
  assumes "map_ok g"
  shows "map_ok (DropRetainedRange start len g)"
proof -
  note inv = map_okD [OF assms]
  note drop = drop_range [OF inv(4), where start = start and len = len]
  show ?thesis
    unfolding map_ok_def covered_def memo_ok_def live_byte_def
    using inv drop(6) unfolding covered_def memo_ok_def live_byte_def drop(1-5) by blast
qed

lemma precise_spec:
  fixes start len :: u64
  assumes ok: "map_ok g" and res: "InvalidateRangePrecise start len g = (n, g')"
  defines "V \<equiv> victims start (start + len) (BlockList g) (entries_on (CodePages g) (pages_of start len))"
  shows "map_ok g'" "BlockList g' = BlockList g |` (- V)" "n = card V"
    "RetainedBlocks g' = RetainedBlocks g |` (- entries_on (RetainedCodePages g) (pages_of start len))"
    "links (BlockLinks g') = (\<lambda>d. if d \<in> V then [] else links (BlockLinks g) d)"
proof -
  note inv = map_okD [OF ok]
  define L where "L = between (PageOf start) (PageOf (start + len - 1)) (CodePages g)"
  obtain m g1 where r: "fold (precise_page start (start + len)) L (0, g) = (m, g1)" by fastforce
  have g': "g' = DropRetainedRange start len g1" "n = m"
    using res unfolding InvalidateRangePrecise_def Let_def L_def [symmetric] r by simp_all
  have D: "\<Union>(set ` snd ` set L) = entries_on (CodePages g) (pages_of start len)"
    using listed_between [OF inv(3)] by (simp add: L_def entries_on_def pages_of_def)
  have "distinct (map fst L)"
    using inv(3) unfolding L_def between_filter [OF inv(3)] keys_sorted_def
    by (intro distinct_map_filter) (simp add: strict_sorted_iff)
  moreover have "\<forall>pe \<in> set L. map_of (CodePages g) (fst pe) = Some (snd pe)"
    using between_set [OF inv(3)] by (auto simp: L_def)
  ultimately have p: "map_ok g1" "BlockList g1 = BlockList g |` (- V)" "m = card V" "RetainedBlocks g1 = RetainedBlocks g"
    "RetainedCodePages g1 = RetainedCodePages g" "links (BlockLinks g1) = (\<lambda>d. if d \<in> V then [] else links (BlockLinks g) d)"
    using precise_pass [OF ok _ _ r, unfolded D, folded V_def] by (simp_all only: add_0)
  note drop = drop_range [OF map_okD(4) [OF p(1)], where start = start and len = len, folded g'(1)]
  show "BlockList g' = BlockList g |` (- V)" "n = card V" "links (BlockLinks g') = (\<lambda>d. if d \<in> V then [] else links (BlockLinks g) d)"
    by (simp_all only: drop p g'(2))
  show "RetainedBlocks g' = RetainedBlocks g |` (- entries_on (RetainedCodePages g) (pages_of start len))"
    by (simp only: drop p entries_on_def pages_of_def)
  show "map_ok g'" unfolding g'(1) by (rule map_ok_drop [OF p(1)])
qed

end
