(* ===== verification/GuestMapSpec.thy ===== *)
theory GuestMapSpec
  imports GuestMap
begin

text \<open>
  Registration in the shared block database and the contracts of its operations: what an
  invalidation of a range leaves behind, exactness of the byte-precise form, the one-entry memo
  against the plain index, and soundness of the lock-free filter.
\<close>

section \<open>Registration of pages\<close>

text \<open>One turn of the loop of \<open>AddBlockExecutableRange\<close> on the index alone, without the memo.\<close>

definition append_listing :: "u64 list \<Rightarrow> u64 \<Rightarrow> bool \<times> (u64 \<times> u64 list) list \<Rightarrow> bool \<times> (u64 \<times> u64 list) list" where
  "append_listing addrs page st =
     (case st of (rv, l) \<Rightarrow>
        (rv \<or> (case map_of l page of None \<Rightarrow> True | Some v \<Rightarrow> v = []), modify page (\<lambda>v. v @ addrs) (emplace page [] l)))"

lemma emplace_present: "map_of l k \<noteq> None \<Longrightarrow> emplace k v l = l"
  by (auto simp: emplace_def)

lemma add_to_page_memo:
  assumes "memo_ok g" "page \<le> max_page" "add_to_page grant addrs rstart rlen page (rv, g) = (rv', g')"
  shows "(rv', CodePages g') = append_listing addrs page (rv, CodePages g)"
    "memo_ok g'" "BlockList g' = BlockList g" "RetainedBlocks g' = RetainedBlocks g"
    "RetainedCodePages g' = RetainedCodePages g" "BlockLinks g' = BlockLinks g"
    "CodeGranules g' = (if Enabled (CodeGranules g)
       then SetPageRange grant (push_bit 12 page) rstart rlen (CodeGranules g) else CodeGranules g)"
proof -
  define g1 where "g1 = (if page = CodePagesMemoIndex g then g
    else g\<lparr>CodePages := emplace page [] (CodePages g), CodePagesMemoIndex := page\<rparr>)"
  have hit: "map_of (CodePages g) page \<noteq> None" if "page = CodePagesMemoIndex g"
    using that assms(1) not_a_page [OF assms(2)] by (simp add: memo_ok_def)
  have cp: "CodePages g1 = emplace page [] (CodePages g)"
    using hit by (auto simp: g1_def emplace_present)
  have rest: "BlockList g1 = BlockList g" "RetainedBlocks g1 = RetainedBlocks g" "CodeGranules g1 = CodeGranules g"
    "RetainedCodePages g1 = RetainedCodePages g" "BlockLinks g1 = BlockLinks g" "CodePagesMemoIndex g1 = page"
    by (auto simp: g1_def)
  have g': "g' = (if Enabled (CodeGranules g)
      then g1\<lparr>CodePages := modify page (\<lambda>v. v @ addrs) (CodePages g1), CodeGranules := SetPageRange grant (push_bit 12 page) rstart rlen (CodeGranules g)\<rparr>
      else g1\<lparr>CodePages := modify page (\<lambda>v. v @ addrs) (CodePages g1)\<rparr>)"
    and rv: "rv' = (rv \<or> (case map_of (CodePages g1) page of None \<Rightarrow> True | Some v \<Rightarrow> v = []))"
    using assms(3) by (auto simp: add_to_page_def g1_def [symmetric] Let_def rest)
  show "(rv', CodePages g') = append_listing addrs page (rv, CodePages g)"
    by (auto simp: append_listing_def rv g' cp map_of_emplace)
  show "BlockList g' = BlockList g" "RetainedBlocks g' = RetainedBlocks g"
    "RetainedCodePages g' = RetainedCodePages g" "BlockLinks g' = BlockLinks g"
    "CodeGranules g' = (if Enabled (CodeGranules g)
       then SetPageRange grant (push_bit 12 page) rstart rlen (CodeGranules g) else CodeGranules g)"
    by (auto simp: g' rest)
  show "memo_ok g'" by (auto simp: memo_ok_def g' rest cp map_of_emplace)
qed

lemma listed_append_listing:
  "listed (snd (append_listing addrs page (rv, l))) q = (if q = page then listed l q \<union> set addrs else listed l q)"
  by (auto simp: append_listing_def listed_def map_of_emplace split: option.split)

lemma keys_modify: "fst ` set (modify k f l) = fst ` set l"
  by (force simp: modify_def)

lemma keys_emplace: "fst ` set (emplace k v l) \<subseteq> insert k (fst ` set l)"
  using keys_put [of k v l] by (auto simp: emplace_def split: option.split)

lemma keys_append_listing:
  "fst ` set (snd (append_listing addrs page (rv, l))) \<subseteq> insert page (fst ` set l)"
  using keys_emplace [of page "[]" l] by (simp add: append_listing_def keys_modify)

lemma sorted_append_listing: "keys_sorted l \<Longrightarrow> keys_sorted (snd (append_listing addrs page (rv, l)))"
  by (simp add: append_listing_def)

section \<open>Marks only grow\<close>

lemma set_range_marks:
  assumes "wf_bitmap b" "Enabled b" "\<And>n. grant n"
  shows "wf_bitmap (SetPageRange grant p s len b)" "Enabled (SetPageRange grant p s len b)"
    "marked b x \<Longrightarrow> marked (SetPageRange grant p s len b) x"
proof -
  have "wf_bitmap (SetPageRange grant p s len b) \<and> Enabled (SetPageRange grant p s len b) \<and>
    (marked b x \<longrightarrow> marked (SetPageRange grant p s len b) x)"
  proof (cases "p < kMaxAddress")
    case True
    note spec = set_page_range_spec [where grant = grant, OF assms True]
    have "marked (SetPageRange grant p s len b) x" if m: "marked b x"
    proof -
      have x: "x < kMaxAddress" by (rule marked_below [OF m])
      have "page_word b p = page_word b x" if "drop_bit 12 p = drop_bit 12 x"
        using that x True radix_injective [of p x] find_leaf_cong [of p x b] by (simp add: page_word_def split: option.split)
      then show ?thesis using m by (auto simp: marked_def spec(3) [OF x] bit_or_iff)
    qed
    then show ?thesis using spec(1,2) by blast
  next
    case False
    then have "SetPageRange grant p s len b = b"
      by (auto simp: SetPageRange_def GetOrCreateLeaf_def not_less split: option.split)
    then show ?thesis using assms by simp
  qed
  then show "wf_bitmap (SetPageRange grant p s len b)" "Enabled (SetPageRange grant p s len b)"
    "marked b x \<Longrightarrow> marked (SetPageRange grant p s len b) x" by blast+
qed

text \<open>Registration of a list of pages keeps the invariant and lists the addresses.\<close>

lemma add_pages_ok:
  assumes "map_ok g" "\<And>n. grant n" "set pages \<subseteq> {..max_page}"
    and "fold (add_to_page grant addrs rstart rlen) pages (rv, g) = (rv', g')"
  shows "map_ok g' \<and> BlockList g' = BlockList g \<and> RetainedBlocks g' = RetainedBlocks g \<and> BlockLinks g' = BlockLinks g \<and>
    Enabled (CodeGranules g') = Enabled (CodeGranules g) \<and> (\<forall>x. marked (CodeGranules g) x \<longrightarrow> marked (CodeGranules g') x) \<and>
    (\<forall>q. listed (CodePages g') q = (if q \<in> set pages then listed (CodePages g) q \<union> set addrs else listed (CodePages g) q)) \<and>
    (rv', CodePages g') = fold (append_listing addrs) pages (rv, CodePages g) \<and>
    (\<forall>p x. Enabled (CodeGranules g) \<longrightarrow> PageOf p \<in> set pages \<longrightarrow> p < kMaxAddress \<longrightarrow> take_bit 12 p = 0 \<longrightarrow>
       extent_byte p rstart rlen x \<longrightarrow> marked (CodeGranules g') x)"
  using assms
proof (induction pages arbitrary: rv g)
  case Nil
  then show ?case by simp
next
  case (Cons page pages)
  obtain rv1 g1 where st: "add_to_page grant addrs rstart rlen page (rv, g) = (rv1, g1)" by fastforce
  note inv = map_okD [OF Cons.prems(1)]
  have pg: "page \<le> max_page" using Cons.prems(3) by simp
  note a = add_to_page_memo [OF inv(5) pg st]
  have cp: "CodePages g1 = snd (append_listing addrs page (rv, CodePages g))" using a(1) by (metis snd_conv)
  note sr = set_range_marks [where grant = grant, OF inv(7) _ Cons.prems(2)]
  have en: "Enabled (CodeGranules g1) = Enabled (CodeGranules g)" using sr(2) by (simp add: a(7))
  have mk: "marked (CodeGranules g1) x" if "marked (CodeGranules g) x" for x using that sr(3) by (simp add: a(7))
  have ok1: "map_ok g1" unfolding map_ok_def
  proof (intro conjI)
    show "links_ok (BlockLinks g1)" "indexed (RetainedBlocks g1) (RetainedCodePages g1)" "memo_ok g1"
      using inv a(2,4,5,6) by simp_all
    show "indexed (BlockList g1) (CodePages g1)"
      by (rule indexed_mono [OF inv(2)]) (simp_all add: cp sorted_append_listing inv(3) a(3) listed_append_listing)
    show "fst ` set (CodePages g1) \<subseteq> {..max_page}"
      using keys_append_listing [of addrs page rv "CodePages g"] inv(6) pg unfolding cp by blast
    show "wf_bitmap (CodeGranules g1)" using sr(1) inv(7) by (simp add: a(7))
    have "live_byte g1 = live_byte g" by (simp add: fun_eq_iff live_byte_def a(3))
    then show "covered g1" using inv(8) mk en by (auto simp: covered_def)
  qed
  have "set pages \<subseteq> {..max_page}" using Cons.prems(3) by simp
  moreover have "fold (add_to_page grant addrs rstart rlen) pages (rv1, g1) = (rv', g')" using Cons.prems(4) st by simp
  ultimately have IH: "map_ok g'" "BlockList g' = BlockList g1" "RetainedBlocks g' = RetainedBlocks g1" "BlockLinks g' = BlockLinks g1"
    "Enabled (CodeGranules g') = Enabled (CodeGranules g1)" "\<And>x. marked (CodeGranules g1) x \<Longrightarrow> marked (CodeGranules g') x"
    "\<And>q. listed (CodePages g') q = (if q \<in> set pages then listed (CodePages g1) q \<union> set addrs else listed (CodePages g1) q)"
    "(rv', CodePages g') = fold (append_listing addrs) pages (rv1, CodePages g1)"
    "\<And>p x. \<lbrakk>Enabled (CodeGranules g1); PageOf p \<in> set pages; p < kMaxAddress; take_bit 12 p = 0; extent_byte p rstart rlen x\<rbrakk> \<Longrightarrow>
       marked (CodeGranules g') x"
    using Cons.IH [OF ok1 Cons.prems(2), of rv1] by blast+
  have new: "marked (CodeGranules g1) x" if "Enabled (CodeGranules g)" "PageOf p = page" "p < kMaxAddress" "take_bit 12 p = 0"
    "extent_byte p rstart rlen x" for p x
  proof -
    have p: "push_bit 12 page = p" using bits_ident [of 12 p] that(2,4) by (simp add: PageOf_def)
    have x: "x < kMaxAddress" "bit (PageMaskFor p rstart rlen) (unat x mod 4096 div 64)"
      using extent_byte_marked [OF that(5,4,3)] by simp_all
    have "drop_bit 12 p = drop_bit 12 x" using that(5) by (simp add: extent_byte_def)
    then show ?thesis
      using that(1) x set_page_range_spec(3) [where grant = grant, OF inv(7) that(1) Cons.prems(2) that(3) x(1), of rstart rlen]
      by (simp add: marked_def a(7) p bit_or_iff)
  qed
  show ?case
  proof (intro conjI allI impI)
    show "listed (CodePages g') q = (if q \<in> set (page # pages) then listed (CodePages g) q \<union> set addrs else listed (CodePages g) q)" for q
      by (auto simp: IH(7) cp listed_append_listing)
    show "(rv', CodePages g') = fold (append_listing addrs) (page # pages) (rv, CodePages g)" by (simp add: IH(8) a(1))
    show "marked (CodeGranules g') x"
      if "Enabled (CodeGranules g)" "PageOf p \<in> set (page # pages)" "p < kMaxAddress" "take_bit 12 p = 0" "extent_byte p rstart rlen x" for p x
      using that IH(6,9) new en by (metis set_ConsD)
  qed (use IH(1-6) a(3,4,6) en mk in simp_all)
qed

section \<open>Registration of blocks\<close>

lemma new_map_ok: "map_ok (GuestToHostMap tracking grant)"
  by (auto simp: map_ok_def GuestToHostMap_def links_empty indexed_def keys_sorted_def memo_ok_def covered_def live_byte_def
      enable_spec(1)) (simp add: new_bitmap_def wf_bitmap_def)

lemma add_mapping_ok:
  assumes ok: "map_ok g" and listing: "\<And>p. p \<in> set pages \<Longrightarrow> a \<in> listed (CodePages g) (PageOf p)"
    and marks: "\<And>p x. \<lbrakk>Enabled (CodeGranules g); p \<in> set pages; p < kMaxAddress; take_bit 12 p = 0; extent_byte p xstart xlen x\<rbrakk> \<Longrightarrow>
      marked (CodeGranules g) x"
  shows "map_ok (AddBlockMapping a bb pages host rs rl hash xstart xlen g)"
proof -
  define g' where "g' = AddBlockMapping a bb pages host rs rl hash xstart xlen g"
  note inv = map_okD [OF ok]
  have same: "BlockLinks g' = BlockLinks g" "CodePages g' = CodePages g" "CodePagesMemoIndex g' = CodePagesMemoIndex g"
    "RetainedBlocks g' = RetainedBlocks g" "RetainedCodePages g' = RetainedCodePages g" "CodeGranules g' = CodeGranules g"
    by (simp_all add: g'_def AddBlockMapping_def)
  have "indexed (BlockList g') (CodePages g')"
    using indexedD [OF inv(2)] listing inv(3) by (auto simp: g'_def AddBlockMapping_def intro!: indexedI split: if_splits)
  moreover have "covered g'"
  proof -
    have "marked (CodeGranules g) x" if en: "Enabled (CodeGranules g)" and "live_byte g' x" for x
    proof (cases "live_byte g x")
      case True
      then show ?thesis using inv(8) en by (auto simp: covered_def)
    next
      case False
      obtain b e p where b: "BlockList g' b = Some e" "p \<in> set (EntryCodePages e)" "p < kMaxAddress" "take_bit 12 p = 0"
        "extent_byte p (ExtentStart e) (ExtentLength e) x" using \<open>live_byte g' x\<close> unfolding live_byte_def by blast
      have "b = a" using False b unfolding live_byte_def by (auto simp: g'_def AddBlockMapping_def split: if_splits)
      then have "p \<in> set pages" "extent_byte p xstart xlen x" using b by (auto simp: g'_def AddBlockMapping_def)
      then show ?thesis using marks en b by blast
    qed
    then show ?thesis by (auto simp: covered_def same)
  qed
  ultimately show ?thesis using inv unfolding g'_def [symmetric] map_ok_def memo_ok_def same by blast
qed

lemma take_retained_ok:
  assumes "map_ok g" "TakeRetainedBlock a g = (r, g')"
  shows "map_ok g'" "r = RetainedBlocks g a" "BlockList g' = BlockList g" "RetainedBlocks g' = (RetainedBlocks g)(a := None)"
    "CodePages g' = CodePages g" "CodeGranules g' = CodeGranules g"
proof -
  note inv = map_okD [OF assms(1)]
  have same: "BlockLinks g' = BlockLinks g" "CodePages g' = CodePages g" "CodePagesMemoIndex g' = CodePagesMemoIndex g"
    "BlockList g' = BlockList g" "CodeGranules g' = CodeGranules g"
    using assms(2) by (auto simp: TakeRetainedBlock_def Let_def split: option.splits)
  show "BlockList g' = BlockList g" "CodePages g' = CodePages g" "CodeGranules g' = CodeGranules g" by (rule same)+
  show "r = RetainedBlocks g a" "RetainedBlocks g' = (RetainedBlocks g)(a := None)"
    using assms(2) by (auto simp: TakeRetainedBlock_def Let_def split: option.splits)
  have "indexed (RetainedBlocks g') (RetainedCodePages g')"
    using assms(2) inv(4)
    by (auto simp: TakeRetainedBlock_def Let_def fold_unindex(2) split: option.splits if_splits
        intro!: indexed_mono [OF inv(4)] fold_unindex(1) indexed_sorted [OF inv(4)])
  then show "map_ok g'" using inv unfolding map_ok_def memo_ok_def covered_def live_byte_def same by blast
qed

lemma clear_map_ok:
  assumes "map_ok g"
  shows "map_ok (MapClearCache g)" "BlockList (MapClearCache g) = (\<lambda>_. None)" "RetainedBlocks (MapClearCache g) = (\<lambda>_. None)"
  using map_okD [OF assms]
  by (auto simp: map_ok_def MapClearCache_def Let_def InvalidateCodePagesMemo_def links_clear indexed_def keys_sorted_def
      memo_ok_def covered_def live_byte_def clear_all_spec)

section \<open>Pages of a range\<close>

lemma page_list_set: "set (page_list lo hi) = {lo..hi}"
proof (cases "lo \<le> hi")
  case True
  have d: "unat (hi - lo) = unat hi - unat lo" using True by (simp add: unat_sub)
  have "x \<in> {lo..hi} \<longleftrightarrow> (\<exists>i \<le> unat (hi - lo). x = lo + of_nat i)" for x
  proof
    assume x: "x \<in> {lo..hi}"
    then have "unat (x - lo) \<le> unat (hi - lo)" using True by (simp add: unat_sub word_le_nat_alt diff_le_mono)
    then show "\<exists>i \<le> unat (hi - lo). x = lo + of_nat i" by (intro exI [of _ "unat (x - lo)"]) simp
  next
    assume "\<exists>i \<le> unat (hi - lo). x = lo + of_nat i"
    then obtain i where i: "i \<le> unat (hi - lo)" "x = lo + of_nat i" by blast
    then have s: "unat lo + i \<le> unat hi" using True unfolding d by (simp add: word_le_nat_alt)
    then have "unat lo + i < 2 ^ 64" using unsigned_less [of hi, where 'a = nat] by simp
    then have "unat x = unat lo + i" by (simp add: i(2) unat_word_ariths unat_of_nat take_bit_nat_eq_self)
    then show "x \<in> {lo..hi}" using s by (simp add: word_le_nat_alt)
  qed
  moreover have "set (page_list lo hi) = (\<lambda>i. lo + of_nat i) ` {..unat (hi - lo)}"
    unfolding page_list_def using True by (simp only: if_True set_map set_upt atLeast0LessThan lessThan_Suc_atMost)
  ultimately show ?thesis by blast
qed (simp add: page_list_def)

lemma page_list_max: "set (page_list (PageOf a) (PageOf b)) \<subseteq> {..max_page}"
  using PageOf_max [of b] by (auto simp: page_list_set intro: order_trans)

lemmas add_range_ok = add_pages_ok [OF _ _ page_list_max]

text \<open>A guest map with one block, for the instances below.\<close>

definition sample_map :: "guest_map" where
  "sample_map = AddBlockMapping 0x1000 0x9000 [0x1000] 0x9010 0x1000 16 7 0x1000 16
     (snd (AddBlockExecutableRange (\<lambda>_. True) [0x1000] 0x1000 4096 0x1000 16 (GuestToHostMap True (\<lambda>_. True))))"

lemma sample_map_ok: "map_ok sample_map"
proof -
  obtain rv g where r: "AddBlockExecutableRange (\<lambda>_. True) [0x1000] 0x1000 4096 0x1000 16 (GuestToHostMap True (\<lambda>_. True)) = (rv, g)"
    by fastforce
  have pages: "page_list (PageOf 0x1000) (PageOf (0x1000 + 4096 - 1)) = [1]" by code_simp
  have one: "PageOf 0x1000 = 1" by code_simp
  note a = add_range_ok [OF new_map_ok, where grant = "\<lambda>_. True", OF _ r [unfolded AddBlockExecutableRange_def], unfolded pages]
  have "marked (CodeGranules g) x" if "Enabled (CodeGranules g)" "extent_byte 0x1000 0x1000 16 x" for x
  proof -
    have "take_bit 12 (0x1000 :: u64) = 0" "(0x1000 :: u64) < kMaxAddress" by code_simp+
    then show ?thesis using a that one by (metis list.set_intros(1))
  qed
  moreover have "0x1000 \<in> listed (CodePages g) 1" using a by simp
  ultimately show ?thesis unfolding sample_map_def r snd_conv
    using a by (intro add_mapping_ok) (simp_all add: one)
qed


section \<open>Contracts\<close>

text \<open>
  C6. A hard invalidation is complete and local. After \<open>InvalidateRange\<close> no live and no
  retained block has a code page in the range; the blocks that the index does not list on those
  pages are all kept, unchanged; the inbound links of every erased block have been severed; and
  the invariant of the map (page indices, pool of links, memo, granules) holds again.
\<close>

theorem invalidate_range_complete:
  assumes "map_ok g" "g' = InvalidateRange start len g"
  shows "map_ok g' \<and>
    (\<forall>a e. BlockList g' a = Some e \<longrightarrow> BlockList g a = Some e \<and> PageOf ` set (EntryCodePages e) \<inter> pages_of start len = {}) \<and>
    (\<forall>a e. RetainedBlocks g' a = Some e \<longrightarrow> RetainedBlocks g a = Some e \<and> PageOf ` set (EntryCodePages e) \<inter> pages_of start len = {}) \<and>
    (\<forall>a. a \<notin> entries_on (CodePages g) (pages_of start len) \<longrightarrow> BlockList g' a = BlockList g a) \<and>
    (\<forall>a. BlockList g' a \<noteq> BlockList g a \<longrightarrow> links (BlockLinks g') a = [])"
proof -
  note spec = invalidate_range_spec [OF assms(1), where start = start and len = len, folded assms(2)]
  note inv = map_okD [OF assms(1)]
  show ?thesis
    using spec indexed_off [OF inv(2)] indexed_off [OF inv(4)]
    by (auto simp: restrict_map_def split: if_splits)
qed

theorem invalidate_range_complete_witness:
  "map_ok (InvalidateRange 0x1008 4 sample_map) \<and> BlockList sample_map 0x1000 \<noteq> None \<and>
   BlockList (InvalidateRange 0x1008 4 sample_map) 0x1000 = None"
proof (intro conjI)
  note w = invalidate_range_complete [OF sample_map_ok refl, where start = "0x1008" and len = 4]
  show "map_ok (InvalidateRange 0x1008 4 sample_map)" using w by blast
  show some: "BlockList sample_map 0x1000 \<noteq> None" by (simp add: sample_map_def AddBlockMapping_def)
  have "EntryCodePages e = [0x1000]" if "BlockList sample_map 0x1000 = Some e" for e
    using that by (auto simp: sample_map_def AddBlockMapping_def)
  moreover have "PageOf 0x1000 \<in> pages_of 0x1008 4" unfolding pages_of_def by code_simp
  ultimately show "BlockList (InvalidateRange 0x1008 4 sample_map) 0x1000 = None"
    using w by (cases "BlockList (InvalidateRange 0x1008 4 sample_map) 0x1000") force+
qed

text \<open>
  C5. The byte-precise invalidation is exact. \<open>InvalidateRangePrecise\<close> erases exactly the
  blocks listed on the pages of the range whose recorded extent overlaps it (or is unknown),
  returns their number, severs their links, keeps every other block, and re-establishes the
  invariant, the recomputed granule words included.
\<close>

theorem invalidate_precise_exact:
  assumes "map_ok g" "InvalidateRangePrecise start len g = (n, g')"
  shows "map_ok g' \<and> n = card {a. BlockList g' a \<noteq> BlockList g a} \<and>
    (\<forall>a e. BlockList g a = Some e \<longrightarrow>
       BlockList g' a = (if a \<in> entries_on (CodePages g) (pages_of start len) \<and> EntryOverlaps e start (start + len)
         then None else Some e)) \<and>
    (\<forall>a. BlockList g a = None \<longrightarrow> BlockList g' a = None) \<and>
    (\<forall>a. BlockList g' a \<noteq> BlockList g a \<longrightarrow> links (BlockLinks g') a = [])"
proof -
  note spec = precise_spec [OF assms]
  have "{a. BlockList g' a \<noteq> BlockList g a} = victims start (start + len) (BlockList g) (entries_on (CodePages g) (pages_of start len))"
    unfolding spec(2) by (auto simp: restrict_map_def victims_def)
  then show ?thesis using spec by (auto simp: restrict_map_def victims_def split: if_splits)
qed

theorem invalidate_precise_exact_witness:
  "BlockList (snd (InvalidateRangePrecise 0x1010 4 sample_map)) 0x1000 \<noteq> None \<and>
   BlockList (snd (InvalidateRangePrecise 0x1008 4 sample_map)) 0x1000 = None"
proof -
  obtain e where e: "BlockList sample_map 0x1000 = Some e" "ExtentStart e = 0x1000" "ExtentLength e = 16" "EntryCodePages e = [0x1000]"
    by (simp add: sample_map_def AddBlockMapping_def)
  have "0x1000 \<in> listed (CodePages sample_map) (PageOf 0x1000)"
    using indexedD [OF map_okD(2) [OF sample_map_ok] e(1)] e(4) by simp
  moreover have "PageOf 0x1000 \<in> pages_of 0x1008 4" unfolding pages_of_def by code_simp
  ultimately have "0x1000 \<in> entries_on (CodePages sample_map) (pages_of 0x1008 4)" unfolding entries_on_def by blast
  moreover have "EntryOverlaps e 0x1008 (0x1008 + 4)" "\<not> EntryOverlaps e 0x1010 (0x1010 + 4)" by (simp_all add: EntryOverlaps_def e)
  ultimately show ?thesis
    using invalidate_precise_exact [OF sample_map_ok prod.collapse [symmetric], where start = "0x1008" and len = 4]
      invalidate_precise_exact [OF sample_map_ok prod.collapse [symmetric], where start = "0x1010" and len = 4] e(1) by simp
qed

text \<open>
  The one-entry memo of \<open>AddBlockExecutableRange\<close> is transparent and never dangles. The
  result and the index are those of the plain loop that looks every page up, whatever the memo
  held, and afterwards the memo still names a page of the index.
\<close>

theorem memo_transparent:
  assumes "map_ok g" "\<And>n. grant n" "AddBlockExecutableRange grant addrs start len rstart rlen g = (rv, g')"
  shows "(rv, CodePages g') = fold (append_listing addrs) (page_list (PageOf start) (PageOf (start + len - 1))) (False, CodePages g) \<and>
    memo_ok g' \<and> map_ok g'"
  using add_range_ok [OF assms(1), where grant = grant, OF assms(2) assms(3) [unfolded AddBlockExecutableRange_def]]
  by (simp add: map_okD(5))

theorem memo_transparent_witness:
  "fst (AddBlockExecutableRange (\<lambda>_. True) [8] 0x1000 4096 0x1000 16 sample_map) =
     fst (fold (append_listing [8]) (page_list (PageOf 0x1000) (PageOf (0x1000 + 4096 - 1))) (False, CodePages sample_map))"
  using memo_transparent [OF sample_map_ok, where grant = "\<lambda>_. True", OF TrueI prod.collapse [symmetric],
      where addrs = "[8]" and start = "0x1000" and len = 4096 and rstart = "0x1000" and rlen = 16]
  by (metis fst_conv)

text \<open>
  The lock-free filter is sound for the whole map. In a map that satisfies the invariant, a
  range that \<open>ProvablyClear\<close> accepts contains no byte of a live block on any of its code pages.
\<close>

theorem filter_sound:
  assumes "map_ok g" "ProvablyClear (CodeGranules g) start n"
  shows "{x. live_byte g x} \<inter> {x. unat start \<le> unat x \<and> unat x < unat start + unat n} = {}"
  using map_okD(8) [OF assms(1)] assms(2) unfolding covered_def provably_clear_set by blast

theorem filter_sound_witness:
  "{x. live_byte sample_map x} \<inter> {x. unat (0x1040 :: u64) \<le> unat x \<and> unat x < unat (0x1040 :: u64) + unat (8 :: u64)} = {}"
proof (rule filter_sound [OF sample_map_ok])
  show "ProvablyClear (CodeGranules sample_map) 0x1040 8" by code_simp
qed

end
