(* ===== verification/LookupCache.thy ===== *)
theory LookupCache
  imports GuestMap
begin

text \<open>
  The per-thread lookup cache \<open>LookupCache\<close> of
  \<open>FEXCore/Source/Interface/Core/LookupCache.{h,cpp}\<close>: a direct-mapped table of entries (L1), a
  table of pages of entries (L2), and the shared block database (L3). An entry is the pair of
  \<open>HostCode\<close> and \<open>GuestCode\<close>. The L1 table, the page pointers and the page backing are zeroed
  memory: an absent key reads as the pair of zeros. A page pointer is the offset of its backing
  in \<open>PageMemory\<close>. \<open>VirtualMemSize\<close> is the value of \<open>Context.h\<close>, which nothing changes.

  The release and acquire fences of \<open>Publish\<close> and \<open>FindBlock\<close> are not modelled: a lookup is one
  step. The rate of hits in \<open>UpdateDynamicL1Stats\<close> is computed in double precision; its two
  comparisons with the configured thresholds are the arguments \<open>hot\<close> and \<open>cold\<close>.
\<close>

section \<open>State\<close>

type_synonym cache_entry = "u64 \<times> u64"

record lookup_cache =
  L1Table :: "u64 \<Rightarrow> cache_entry"
  L1PointerMask :: u64
  ThreadL1Mask :: u64
  PagePointers :: "u64 \<Rightarrow> u64 option"
  PageMemory :: "u64 \<Rightarrow> u64 \<Rightarrow> cache_entry"
  AllocateOffset :: u64
  CachedCodePages :: "(u64 \<times> u64 list) list"
  CachedCodePagesMemoIndex :: u64
  LazySMCDrainPending :: bool
  CurrentL1Entries :: u64
  L2L3CacheHits :: u64
  LastPeriod :: int
  DynamicL1Cache :: bool
  DisableL2Cache :: bool

abbreviation MIN_L1_ENTRIES :: u64 where "MIN_L1_ENTRIES \<equiv> 0x2000"
abbreviation MAX_L1_ENTRIES :: u64 where "MAX_L1_ENTRIES \<equiv> 0x20000"
abbreviation CODE_SIZE :: u64 where "CODE_SIZE \<equiv> 0x8000000"
abbreviation SIZE_PER_PAGE :: u64 where "SIZE_PER_PAGE \<equiv> 0x4000"
abbreviation VirtualMemSize :: u64 where "VirtualMemSize \<equiv> 0x1000000000"
abbreviation SamplePeriod :: int where "SamplePeriod \<equiv> 1000000000"

definition zero_table :: "u64 \<Rightarrow> cache_entry" where "zero_table = (\<lambda>_. (0, 0))"

definition GetScaledL1PointerMask :: "lookup_cache \<Rightarrow> u64" where
  "GetScaledL1PointerMask c = push_bit 4 (L1PointerMask c)"

definition new_lookup_cache :: "bool \<Rightarrow> bool \<Rightarrow> lookup_cache" where
  "new_lookup_cache dyn noL2 =
     \<lparr>L1Table = zero_table, L1PointerMask = (if dyn then MIN_L1_ENTRIES - 1 else MAX_L1_ENTRIES - 1), ThreadL1Mask = 0,
      PagePointers = (\<lambda>_. None), PageMemory = (\<lambda>_. zero_table), AllocateOffset = 0, CachedCodePages = [],
      CachedCodePagesMemoIndex = NOT 0, LazySMCDrainPending = False, CurrentL1Entries = MIN_L1_ENTRIES,
      L2L3CacheHits = 0, LastPeriod = 0, DynamicL1Cache = dyn, DisableL2Cache = noL2\<rparr>"

section \<open>Slots\<close>

definition L1Slot :: "lookup_cache \<Rightarrow> u64 \<Rightarrow> u64" where
  "L1Slot c a = drop_bit 2 a AND L1PointerMask c"

definition L2Offset :: "u64 \<Rightarrow> u64" where "L2Offset a = drop_bit 2 (a AND 4095)"

definition PageIndex :: "u64 \<Rightarrow> u64" where "PageIndex a = drop_bit 12 (a AND (VirtualMemSize - 1))"

definition PublishL1 :: "u64 \<Rightarrow> u64 \<Rightarrow> lookup_cache \<Rightarrow> lookup_cache" where
  "PublishL1 host guest c = c\<lparr>L1Table := (L1Table c)(L1Slot c guest := (host, guest))\<rparr>"

definition InvalidateCachedCodePagesMemo :: "lookup_cache \<Rightarrow> lookup_cache" where
  "InvalidateCachedCodePagesMemo c = c\<lparr>CachedCodePagesMemoIndex := NOT 0\<rparr>"

section \<open>Clearing\<close>

definition ClearL2Cache :: "lookup_cache \<Rightarrow> lookup_cache" where
  "ClearL2Cache c = c\<lparr>PagePointers := (\<lambda>_. None), PageMemory := (\<lambda>_. zero_table), AllocateOffset := 0\<rparr>"

definition ClearThreadLocalCaches :: "lookup_cache \<Rightarrow> lookup_cache" where
  "ClearThreadLocalCaches c =
     InvalidateCachedCodePagesMemo
       (c\<lparr>PagePointers := (\<lambda>_. None), PageMemory := (\<lambda>_. zero_table), L1Table := zero_table, CachedCodePages := []\<rparr>)"

definition ClearCache :: "lookup_cache \<Rightarrow> guest_map \<Rightarrow> lookup_cache \<times> guest_map" where
  "ClearCache c g = (ClearThreadLocalCaches c, MapClearCache g)"

definition ScrubForLazySMC :: "lookup_cache \<Rightarrow> lookup_cache" where
  "ScrubForLazySMC c = c\<lparr>LazySMCDrainPending := True, L1Table := zero_table\<rparr>"

definition ArmLazySMCDrainPending :: "lookup_cache \<Rightarrow> lookup_cache" where
  "ArmLazySMCDrainPending c = c\<lparr>LazySMCDrainPending := True\<rparr>"

definition TakeLazySMCDrainPending :: "lookup_cache \<Rightarrow> bool \<times> lookup_cache" where
  "TakeLazySMCDrainPending c =
     (if \<not> LazySMCDrainPending c then (False, c) else (True, c\<lparr>LazySMCDrainPending := False\<rparr>))"

section \<open>Filling\<close>

definition AllocateBackingForPage :: "lookup_cache \<Rightarrow> u64 option \<times> lookup_cache" where
  "AllocateBackingForPage c =
     (let base = AllocateOffset c; fin = AllocateOffset c + SIZE_PER_PAGE in
      if fin \<ge> CODE_SIZE then (None, c) else (Some base, c\<lparr>AllocateOffset := fin\<rparr>))"

text \<open>
  The loop of \<open>CacheBlockMapping\<close> over the code pages of the entry. With a hit in the memo the
  address goes through the remembered pointer, the set of that page.
\<close>

definition note_page :: "u64 \<Rightarrow> u64 \<Rightarrow> lookup_cache \<Rightarrow> lookup_cache" where
  "note_page a page c =
     (let c1 = (if PageOf page \<noteq> CachedCodePagesMemoIndex c
                then c\<lparr>CachedCodePages := emplace (PageOf page) [] (CachedCodePages c),
                       CachedCodePagesMemoIndex := PageOf page\<rparr>
                else c) in
      c1\<lparr>CachedCodePages := modify (PageOf page) (List.insert a) (CachedCodePages c1)\<rparr>)"

lemma note_page_offset [simp]: "AllocateOffset (note_page a page c) = AllocateOffset c"
  by (simp add: note_page_def Let_def)

lemma fold_note_page_offset [simp]: "AllocateOffset (fold (note_page a) pages c) = AllocateOffset c"
  by (induction pages arbitrary: c) simp_all

text \<open>
  The retry after \<open>ClearL2Cache\<close> terminates: the pool is then empty, so that it allocates.
\<close>

function (sequential) CacheBlockMapping :: "u64 \<Rightarrow> block_entry \<Rightarrow> bool \<Rightarrow> lookup_cache \<Rightarrow> lookup_cache" where
  "CacheBlockMapping full e L1Only c =
     (let c1 = PublishL1 (HostCode e) full (fold (note_page full) (EntryCodePages e) c) in
      if DisableL2Cache c1 \<or> L1Only then c1
      else
        let masked = full AND (VirtualMemSize - 1); offset = L2Offset masked; idx = drop_bit 12 masked in
        case PagePointers c1 idx of
          Some base \<Rightarrow> c1\<lparr>PageMemory := (PageMemory c1)(base := (PageMemory c1 base)(offset := (HostCode e, full)))\<rparr>
        | None \<Rightarrow>
            (case AllocateBackingForPage c1 of
               (None, c2) \<Rightarrow> CacheBlockMapping full e False (ClearL2Cache c2)
             | (Some base, c2) \<Rightarrow>
                 c2\<lparr>PagePointers := (PagePointers c2)(idx \<mapsto> base),
                    PageMemory := (PageMemory c2)(base := (PageMemory c2 base)(offset := (HostCode e, full)))\<rparr>))"
  by pat_completeness auto

termination
proof (relation "measure (\<lambda>(_, _, _, c). if AllocateOffset c = 0 then 0 else 1)", goal_cases)
  case 2
  then show ?case
    by (auto simp: AllocateBackingForPage_def PublishL1_def ClearL2Cache_def Let_def split: if_splits)
qed simp

declare CacheBlockMapping.simps [simp del]

section \<open>Lookup\<close>

definition FlushWholeL1 :: "lookup_cache \<Rightarrow> lookup_cache" where
  "FlushWholeL1 c = c\<lparr>L1Table := zero_table\<rparr>"

definition resize_L1 :: "u64 \<Rightarrow> lookup_cache \<Rightarrow> lookup_cache" where
  "resize_L1 n c =
     (let c1 = FlushWholeL1 (c\<lparr>CurrentL1Entries := n, L1PointerMask := n - 1\<rparr>) in
      c1\<lparr>ThreadL1Mask := GetScaledL1PointerMask c1\<rparr>)"

definition UpdateDynamicL1Stats ::
  "(u64 \<Rightarrow> int \<Rightarrow> bool) \<Rightarrow> (u64 \<Rightarrow> int \<Rightarrow> bool) \<Rightarrow> int \<Rightarrow> lookup_cache \<Rightarrow> lookup_cache" where
  "UpdateDynamicL1Stats hot cold now c =
     (let c1 = c\<lparr>L2L3CacheHits := L2L3CacheHits c + 1\<rparr>; period = now - LastPeriod c1 in
      if period \<ge> SamplePeriod
      then
        let c2 = (if hot (L2L3CacheHits c1) period
                  then (if CurrentL1Entries c1 < MAX_L1_ENTRIES then resize_L1 (push_bit 1 (CurrentL1Entries c1)) c1 else c1)
                  else if cold (L2L3CacheHits c1) period
                  then (if CurrentL1Entries c1 > MIN_L1_ENTRIES then resize_L1 (drop_bit 1 (CurrentL1Entries c1)) c1 else c1)
                  else c1) in
        c2\<lparr>LastPeriod := now, L2L3CacheHits := 0\<rparr>
      else c1)"

text \<open>The search of L2: the code found, published in L1 on a match of the key.\<close>

definition find_L2 :: "u64 \<Rightarrow> lookup_cache \<Rightarrow> u64 \<times> lookup_cache" where
  "find_L2 a c =
     (case PagePointers c (PageIndex a) of
        None \<Rightarrow> (0, c)
      | Some base \<Rightarrow>
          (case PageMemory c base (L2Offset a) of
             (host, guest) \<Rightarrow> if guest = a then (host, PublishL1 host a c) else (0, c)))"

definition FindBlock ::
  "(u64 \<Rightarrow> int \<Rightarrow> bool) \<Rightarrow> (u64 \<Rightarrow> int \<Rightarrow> bool) \<Rightarrow> int \<Rightarrow> u64 \<Rightarrow> guest_map \<Rightarrow> lookup_cache \<Rightarrow> u64 \<times> lookup_cache" where
  "FindBlock hot cold now a g c =
     (case L1Table c (L1Slot c a) of
        (host, guest) \<Rightarrow>
          if guest = a then (host, c)
          else
            let (h1, c1) = (if \<not> DisableL2Cache c then find_L2 a c else (0, c));
                (h2, c2) = (if h1 = 0
                            then (case MapFindBlock a g of
                                    None \<Rightarrow> (0, c1)
                                  | Some e \<Rightarrow> (HostCode e, CacheBlockMapping a e False c1))
                            else (h1, c1));
                c3 = (if h2 \<noteq> 0 \<and> DynamicL1Cache c2 then UpdateDynamicL1Stats hot cold now c2 else c2) in
            (h2, c3))"

section \<open>Registration and invalidation\<close>

definition CacheAddBlockMapping ::
  "u64 \<Rightarrow> block_entry \<Rightarrow> guest_map \<Rightarrow> lookup_cache \<Rightarrow> guest_map \<times> lookup_cache" where
  "CacheAddBlockMapping a e g c =
     (AddBlockMapping a (BlockBegin e) (EntryCodePages e) (HostCode e) (GuestRangeStart e) (GuestRangeLength e)
        (GuestHash e) (ExtentStart e) (ExtentLength e) g,
      CacheBlockMapping a e True c)"

definition InvalidateCache :: "u64 \<Rightarrow> lookup_cache \<Rightarrow> lookup_cache" where
  "InvalidateCache a c =
     (let c1 = (case L1Table c (L1Slot c a) of
                  (host, guest) \<Rightarrow> if guest = a then c\<lparr>L1Table := (L1Table c)(L1Slot c a := (host, 0))\<rparr> else c) in
      if DisableL2Cache c1 then c1
      else
        let masked = a AND (VirtualMemSize - 1); offset = L2Offset masked in
        case PagePointers c1 (drop_bit 12 masked) of
          None \<Rightarrow> c1
        | Some base \<Rightarrow> c1\<lparr>PageMemory := (PageMemory c1)(base := (PageMemory c1 base)(offset := (0, 0)))\<rparr>)"

definition InvalidateCacheRange :: "u64 \<Rightarrow> u64 \<Rightarrow> lookup_cache \<Rightarrow> bool \<times> lookup_cache" where
  "InvalidateCacheRange start len c =
     (let lo = PageOf start; hi = PageOf (start + len - 1);
          L = between lo hi (CachedCodePages c);
          c1 = fold (\<lambda>(page, entries) c. fold InvalidateCache entries c) L c in
      (L \<noteq> [], InvalidateCachedCodePagesMemo (c1\<lparr>CachedCodePages := erase_between lo hi (CachedCodePages c1)\<rparr>)))"

definition ChangeGuestToHostMapping :: "lookup_cache \<Rightarrow> lookup_cache" where
  "ChangeGuestToHostMapping c = ClearThreadLocalCaches c"

definition CacheRangeOverlapsCompiledCode :: "(u64 \<Rightarrow> u64 \<times> u64) \<Rightarrow> u64 \<Rightarrow> u64 \<Rightarrow> guest_map \<Rightarrow> bool" where
  "CacheRangeOverlapsCompiledCode tail start len g =
     (if ProvablyClear (CodeGranules g) start len then False else RangeOverlapsCompiledCode tail start len g)"

end
