(* ===== verification/LookupCacheSpec.thy ===== *)
theory LookupCacheSpec
  imports LookupCache
begin

text \<open>
  Coherence of the per-thread lookup cache. \<open>V\<close> is the set of valid translations: pairs of a
  guest address and the entry registered for it, none of whose code pages was invalidated
  since. Every key of the two tables must come from a valid translation that the thread has
  indexed under all code pages of the entry.
\<close>

section \<open>The invariant\<close>

definition backed :: "(u64 \<times> block_entry) set \<Rightarrow> lookup_cache \<Rightarrow> u64 \<Rightarrow> u64 \<Rightarrow> bool" where
  "backed V c a h \<longleftrightarrow> (\<exists>e. (a, e) \<in> V \<and> HostCode e = h \<and>
     (\<forall>p \<in> set (EntryCodePages e). a \<in> listed (CachedCodePages c) (PageOf p)))"

definition index_ok :: "lookup_cache \<Rightarrow> bool" where
  "index_ok c \<longleftrightarrow> keys_sorted (CachedCodePages c) \<and>
     (CachedCodePagesMemoIndex c = NOT 0 \<or> map_of (CachedCodePages c) (CachedCodePagesMemoIndex c) \<noteq> None)"

definition L1_ok :: "(u64 \<times> block_entry) set \<Rightarrow> lookup_cache \<Rightarrow> bool" where
  "L1_ok V c \<longleftrightarrow> (\<forall>i h a. L1Table c i = (h, a) \<longrightarrow> a \<noteq> 0 \<longrightarrow> i = L1Slot c a \<and> backed V c a h)"

definition L2_ok :: "(u64 \<times> block_entry) set \<Rightarrow> lookup_cache \<Rightarrow> bool" where
  "L2_ok V c \<longleftrightarrow> (\<forall>i base off h a. PagePointers c i = Some base \<longrightarrow> PageMemory c base off = (h, a) \<longrightarrow> a \<noteq> 0 \<longrightarrow>
     i = PageIndex a \<and> off = L2Offset a \<and> backed V c a h)"

definition pool_ok :: "lookup_cache \<Rightarrow> bool" where
  "pool_ok c \<longleftrightarrow> AllocateOffset c < CODE_SIZE \<and>
     (\<forall>i base. PagePointers c i = Some base \<longrightarrow> base < AllocateOffset c) \<and>
     (\<forall>i j base. PagePointers c i = Some base \<longrightarrow> PagePointers c j = Some base \<longrightarrow> i = j) \<and>
     (\<forall>base. AllocateOffset c \<le> base \<longrightarrow> PageMemory c base = zero_table) \<and>
     (DisableL2Cache c \<longrightarrow> PagePointers c = (\<lambda>_. None))"

definition cache_ok :: "(u64 \<times> block_entry) set \<Rightarrow> lookup_cache \<Rightarrow> bool" where
  "cache_ok V c \<longleftrightarrow> index_ok c \<and> L1_ok V c \<and> L2_ok V c \<and> pool_ok c"

lemma L1_okD: "\<lbrakk>L1_ok V c; L1Table c i = (h, a); a \<noteq> 0\<rbrakk> \<Longrightarrow> i = L1Slot c a \<and> backed V c a h"
  unfolding L1_ok_def by blast

lemma L2_okD: "\<lbrakk>L2_ok V c; PagePointers c i = Some base; PageMemory c base off = (h, a); a \<noteq> 0\<rbrakk> \<Longrightarrow>
    i = PageIndex a \<and> off = L2Offset a \<and> backed V c a h"
  unfolding L2_ok_def by blast

lemma backed_mono:
  assumes "backed V c a h" "\<And>p. listed (CachedCodePages c) p \<subseteq> listed (CachedCodePages c') p"
  shows "backed V c' a h"
  using assms unfolding backed_def by blast

lemma L1_ok_mono:
  assumes "L1_ok V c" "L1Table c' = L1Table c" "L1PointerMask c' = L1PointerMask c"
    "\<And>p. listed (CachedCodePages c) p \<subseteq> listed (CachedCodePages c') p"
  shows "L1_ok V c'"
  using L1_okD [OF assms(1)] backed_mono [OF _ assms(4)] unfolding L1_ok_def assms(2) L1Slot_def assms(3) by blast

lemma L2_ok_mono:
  assumes "L2_ok V c" "PagePointers c' = PagePointers c" "PageMemory c' = PageMemory c"
    "\<And>p. listed (CachedCodePages c) p \<subseteq> listed (CachedCodePages c') p"
  shows "L2_ok V c'"
  using L2_okD [OF assms(1)] backed_mono [OF _ assms(4)] unfolding L2_ok_def assms(2,3) by blast

lemma pool_ok_cong:
  "\<lbrakk>pool_ok c; PagePointers c' = PagePointers c; PageMemory c' = PageMemory c; AllocateOffset c' = AllocateOffset c;
    DisableL2Cache c' = DisableL2Cache c\<rbrakk> \<Longrightarrow> pool_ok c'"
  by (simp add: pool_ok_def)

lemma new_cache_ok: "cache_ok V (new_lookup_cache dyn noL2)"
  by (auto simp: cache_ok_def index_ok_def L1_ok_def L2_ok_def pool_ok_def new_lookup_cache_def zero_table_def keys_sorted_def)

section \<open>Masked addresses\<close>

lemma L2Offset_masked [simp]: "L2Offset (a AND (VirtualMemSize - 1)) = L2Offset a"
proof -
  have "VirtualMemSize - 1 = (mask 36 :: u64)" by (simp add: mask_eq_exp_minus_1)
  moreover have "(a AND mask 36) AND mask 12 = a AND mask 12" for a :: u64
    by (rule bit_word_eqI) (auto simp: bit_simps)
  moreover have "(4095 :: u64) = mask 12" by (simp add: mask_eq_exp_minus_1)
  ultimately show ?thesis by (simp only: L2Offset_def)
qed

section \<open>Noting pages\<close>

lemma listed_emplace: "listed (emplace p [] l) q = listed l q"
  by (auto simp: listed_def map_of_emplace)

lemma listed_modify: "listed (modify p (List.insert a) l) q =
    (if q = p \<and> map_of l p \<noteq> None then insert a (listed l q) else listed l q)"
  by (auto simp: listed_def split: option.split)

lemma note_page_frame [simp]:
  "L1Table (note_page a p c) = L1Table c" "L1PointerMask (note_page a p c) = L1PointerMask c"
  "PagePointers (note_page a p c) = PagePointers c" "PageMemory (note_page a p c) = PageMemory c"
  "DisableL2Cache (note_page a p c) = DisableL2Cache c" "DynamicL1Cache (note_page a p c) = DynamicL1Cache c"
  by (simp_all add: note_page_def Let_def)

lemma note_page_index:
  assumes "index_ok c"
  shows "index_ok (note_page a page c)"
    "listed (CachedCodePages (note_page a page c)) p =
       (if p = PageOf page then insert a (listed (CachedCodePages c) p) else listed (CachedCodePages c) p)"
proof -
  have "PageOf page \<noteq> NOT 0" by (rule not_a_page [OF PageOf_max])
  then show "index_ok (note_page a page c)"
    "listed (CachedCodePages (note_page a page c)) p =
       (if p = PageOf page then insert a (listed (CachedCodePages c) p) else listed (CachedCodePages c) p)"
    using assms by (auto simp: index_ok_def note_page_def Let_def listed_modify listed_emplace map_of_emplace)
qed

lemma fold_note_frame [simp]:
  "L1Table (fold (note_page a) ps c) = L1Table c" "L1PointerMask (fold (note_page a) ps c) = L1PointerMask c"
  "PagePointers (fold (note_page a) ps c) = PagePointers c" "PageMemory (fold (note_page a) ps c) = PageMemory c"
  "DisableL2Cache (fold (note_page a) ps c) = DisableL2Cache c" "DynamicL1Cache (fold (note_page a) ps c) = DynamicL1Cache c"
  by (induction ps arbitrary: c) simp_all

lemma fold_note_index:
  assumes "index_ok c"
  shows "index_ok (fold (note_page a) ps c)"
    "listed (CachedCodePages (fold (note_page a) ps c)) p =
       (if p \<in> PageOf ` set ps then insert a (listed (CachedCodePages c) p) else listed (CachedCodePages c) p)"
  using assms by (induction ps arbitrary: c) (auto simp: note_page_index)

lemma note_cache_ok:
  assumes "cache_ok V c"
  shows "cache_ok V (fold (note_page a) ps c)"
proof -
  have i: "index_ok c" "L1_ok V c" "L2_ok V c" "pool_ok c" using assms by (simp_all add: cache_ok_def)
  have m: "listed (CachedCodePages c) p \<subseteq> listed (CachedCodePages (fold (note_page a) ps c)) p" for p
    unfolding fold_note_index(2) [OF i(1)] by auto
  show ?thesis
    unfolding cache_ok_def
    using fold_note_index(1) [OF i(1)] L1_ok_mono [OF i(2) _ _ m] L2_ok_mono [OF i(3) _ _ m] pool_ok_cong [OF i(4)] by simp
qed

section \<open>Publishing\<close>

lemma publish_cache_ok:
  assumes "cache_ok V c" "a \<noteq> 0 \<Longrightarrow> backed V c a h"
  shows "cache_ok V (PublishL1 h a c)"
proof -
  have i: "index_ok c" "L1_ok V c" "L2_ok V c" "pool_ok c" using assms by (simp_all add: cache_ok_def)
  have b: "backed V (PublishL1 h a c) = backed V c" by (simp add: fun_eq_iff backed_def PublishL1_def)
  have s: "L1Slot (PublishL1 h a c) = L1Slot c" by (simp add: fun_eq_iff L1Slot_def PublishL1_def)
  have "L1_ok V (PublishL1 h a c)"
    unfolding L1_ok_def b s using L1_okD [OF i(2)] assms(2) by (auto simp: PublishL1_def)
  moreover have "index_ok (PublishL1 h a c)" using i(1) by (simp add: index_ok_def PublishL1_def)
  moreover have "L2_ok V (PublishL1 h a c)" by (rule L2_ok_mono [OF i(3)]) (simp_all add: PublishL1_def)
  moreover have "pool_ok (PublishL1 h a c)" by (rule pool_ok_cong [OF i(4)]) (simp_all add: PublishL1_def)
  ultimately show ?thesis by (simp add: cache_ok_def)
qed

text \<open>A store of a backed entry in the page of its address.\<close>

lemma L2_store_ok:
  assumes ok: "L2_ok V c" and pool: "pool_ok c" and ptr: "PagePointers c (PageIndex a) = Some base"
    and b: "backed V c a h"
    and c': "c' = c\<lparr>PageMemory := (PageMemory c)(base := (PageMemory c base)(L2Offset a := (h, a)))\<rparr>"
  shows "L2_ok V c'" "pool_ok c'"
proof -
  have bk: "backed V c' = backed V c" by (simp add: fun_eq_iff backed_def c')
  have inj: "i = PageIndex a" if "PagePointers c i = Some base" for i using that ptr pool unfolding pool_ok_def by blast
  show "L2_ok V c'" unfolding L2_ok_def bk
  proof (intro allI impI)
    fix i bs off h' a'
    assume *: "PagePointers c' i = Some bs" "PageMemory c' bs off = (h', a')" "a' \<noteq> 0"
    show "i = PageIndex a' \<and> off = L2Offset a' \<and> backed V c a' h'"
    proof (cases "bs = base \<and> off = L2Offset a")
      case True
      then have "h' = h" "a' = a" using *(2) by (simp_all add: c')
      then show ?thesis using True * inj b by (simp add: c')
    next
      case False
      then have "PageMemory c bs off = (h', a')" using *(2) by (auto simp: c' split: if_splits)
      then show ?thesis using L2_okD [OF ok] * by (simp add: c')
    qed
  qed
  have "base < AllocateOffset c" using pool ptr unfolding pool_ok_def by blast
  then show "pool_ok c'" using pool by (auto simp: pool_ok_def c')
qed

lemma offset_less: "x < CODE_SIZE \<Longrightarrow> x < x + SIZE_PER_PAGE"
  by (simp add: word_less_nat_alt unat_word_ariths)

text \<open>A fresh page of backing is empty.\<close>

lemma allocate_ok:
  assumes "cache_ok V c" "AllocateBackingForPage c = (Some base, c1)" "PagePointers c i = None" "\<not> DisableL2Cache c"
  shows "cache_ok V (c1\<lparr>PagePointers := (PagePointers c1)(i \<mapsto> base)\<rparr>)"
proof -
  have k: "index_ok c" "L1_ok V c" "L2_ok V c" "pool_ok c" using assms by (simp_all add: cache_ok_def)
  have c1: "c1 = c\<lparr>AllocateOffset := AllocateOffset c + SIZE_PER_PAGE\<rparr>" "base = AllocateOffset c"
    "AllocateOffset c + SIZE_PER_PAGE < CODE_SIZE"
    using assms(2) by (auto simp: AllocateBackingForPage_def Let_def split: if_splits)
  define c' where "c' = c1\<lparr>PagePointers := (PagePointers c1)(i \<mapsto> base)\<rparr>"
  have b: "backed V c' = backed V c" by (simp add: fun_eq_iff backed_def c'_def c1)
  have "AllocateOffset c < AllocateOffset c + SIZE_PER_PAGE"
    using k(4) offset_less unfolding pool_ok_def by blast
  then have less: "AllocateOffset c < AllocateOffset c'" by (simp add: c'_def c1)
  have z: "PageMemory c base = zero_table" using k(4) c1(2) unfolding pool_ok_def by blast
  have "L2_ok V c'" unfolding L2_ok_def b using L2_okD [OF k(3)] z by (auto simp: c'_def c1 zero_table_def split: if_splits)
  moreover have "pool_ok c'"
  proof -
    have "bs < AllocateOffset c'" if "PagePointers c j = Some bs" for j bs
      using that k(4) less unfolding pool_ok_def by (metis order.strict_trans)
    moreover have "AllocateOffset c \<le> bs" if "AllocateOffset c' \<le> bs" for bs using that less by simp
    ultimately show ?thesis using k(4) less c1(2,3) assms(4) unfolding pool_ok_def
      by (auto simp: c'_def c1(1) split: if_splits)
  qed
  moreover have "L1_ok V c'" by (rule L1_ok_mono [OF k(2)]) (simp_all add: c'_def c1)
  moreover have "index_ok c'" using k(1) by (simp add: index_ok_def c'_def c1)
  ultimately show ?thesis unfolding cache_ok_def c'_def by blast
qed

lemma clear_L2_ok: "cache_ok V c \<Longrightarrow> cache_ok V (ClearL2Cache c)"
  using L1_ok_mono [of V c "ClearL2Cache c"]
  by (auto simp: cache_ok_def ClearL2Cache_def index_ok_def L2_ok_def pool_ok_def)

lemma clear_all_ok: "cache_ok V c \<Longrightarrow> cache_ok V' (ClearThreadLocalCaches c)"
  by (auto simp: cache_ok_def ClearThreadLocalCaches_def InvalidateCachedCodePagesMemo_def index_ok_def L1_ok_def L2_ok_def
      pool_ok_def zero_table_def keys_sorted_def)

text \<open>\<open>CacheBlockMapping\<close> of a valid translation keeps the invariant and fills the L1 slot.\<close>

lemma cache_mapping_ok:
  assumes "cache_ok V c" "(a, e) \<in> V"
  shows "cache_ok V (CacheBlockMapping a e only c)"
  using assms
proof (induction a e only c rule: CacheBlockMapping.induct)
  case (1 a e only c)
  define c0 where "c0 = fold (note_page a) (EntryCodePages e) c"
  define c1 where "c1 = PublishL1 (HostCode e) a c0"
  have "index_ok c" using 1(2) by (simp add: cache_ok_def)
  then have b0: "backed V c0 a (HostCode e)" using 1(3) by (auto simp: backed_def c0_def fold_note_index)
  then have b: "backed V c1 a (HostCode e)" by (simp add: c1_def PublishL1_def backed_def)
  have ok: "cache_ok V c1" unfolding c1_def c0_def
    by (rule publish_cache_ok [OF note_cache_ok [OF 1(2)] b0 [unfolded c0_def]])
  note unfold = CacheBlockMapping.simps [of a e only c, folded c0_def, folded c1_def, unfolded Let_def L2Offset_masked, folded PageIndex_def]
  show ?case
  proof (cases "DisableL2Cache c1 \<or> only")
    case True
    then show ?thesis using ok by (subst unfold) simp
  next
    case False
    show ?thesis
    proof (cases "PagePointers c1 (PageIndex a)")
      case (Some base)
      define c2 where "c2 = c1\<lparr>PageMemory := (PageMemory c1)(base := (PageMemory c1 base)(L2Offset a := (HostCode e, a)))\<rparr>"
      have "L2_ok V c2" "pool_ok c2"
        using ok by (auto simp: cache_ok_def intro: L2_store_ok [OF _ _ Some b c2_def])
      moreover have "L1_ok V c2" using ok by - (rule L1_ok_mono [of V c1], simp_all add: cache_ok_def c2_def)
      moreover have "index_ok c2" using ok by (simp add: cache_ok_def index_ok_def c2_def)
      ultimately have "cache_ok V c2" by (simp add: cache_ok_def)
      then show ?thesis using False Some by (subst unfold) (simp add: c2_def)
    next
      case None
      obtain r c2 where al: "AllocateBackingForPage c1 = (r, c2)" by fastforce
      show ?thesis
      proof (cases r)
        case none: None
        have c2: "c2 = c1" using al none by (auto simp: AllocateBackingForPage_def Let_def split: if_splits)
        have "cache_ok V (CacheBlockMapping a e False (ClearL2Cache c2))"
          using 1(1) [OF c1_def [unfolded c0_def] False refl refl refl None [unfolded PageIndex_def]] al none clear_L2_ok [OF ok] 1(3) c2 by simp
        then show ?thesis using False None al none by (subst unfold) simp
      next
        case (Some base)
        define c3 where "c3 = c2\<lparr>PagePointers := (PagePointers c2)(PageIndex a \<mapsto> base)\<rparr>"
        define c4 where "c4 = c3\<lparr>PageMemory := (PageMemory c3)(base := (PageMemory c3 base)(L2Offset a := (HostCode e, a)))\<rparr>"
        have ok3: "cache_ok V c3" unfolding c3_def using False by (intro allocate_ok [OF ok al [unfolded Some] None]) simp
        have "CachedCodePages c3 = CachedCodePages c1"
          using al Some by (auto simp: c3_def AllocateBackingForPage_def Let_def split: if_splits)
        then have b3: "backed V c3 a (HostCode e)" using b by (simp add: backed_def)
        have ptr: "PagePointers c3 (PageIndex a) = Some base" by (simp add: c3_def)
        have "L2_ok V c4" "pool_ok c4"
          using ok3 by (auto simp: cache_ok_def intro: L2_store_ok [OF _ _ ptr b3 c4_def])
        moreover have "L1_ok V c4" using ok3 by - (rule L1_ok_mono [of V c3], simp_all add: cache_ok_def c4_def)
        moreover have "index_ok c4" using ok3 by (simp add: cache_ok_def index_ok_def c4_def)
        ultimately have "cache_ok V c4" by (simp add: cache_ok_def)
        then show ?thesis using False None al Some by (subst unfold) (simp add: c3_def c4_def)
      qed
    qed
  qed
qed

section \<open>Lookup\<close>

lemma cache_mapping_frame:
  "L1PointerMask (CacheBlockMapping a e only c) = L1PointerMask c \<and> DisableL2Cache (CacheBlockMapping a e only c) = DisableL2Cache c \<and>
   DynamicL1Cache (CacheBlockMapping a e only c) = DynamicL1Cache c \<and>
   L1Table (CacheBlockMapping a e only c) (L1Slot c a) = (HostCode e, a)"
proof (induction a e only c rule: CacheBlockMapping.induct)
  case (1 a e only c)
  then show ?case
    by (subst (1 2 3 4) CacheBlockMapping.simps)
      (auto simp: Let_def PublishL1_def AllocateBackingForPage_def ClearL2Cache_def L1Slot_def split: option.split)
qed

lemma update_stats_ok:
  assumes "cache_ok V c"
  shows "cache_ok V (UpdateDynamicL1Stats hot cold now c)"
proof -
  have k: "index_ok c" "L1_ok V c" "L2_ok V c" "pool_ok c" using assms by (simp_all add: cache_ok_def)
  define c' where "c' = UpdateDynamicL1Stats hot cold now c"
  have same: "PagePointers c' = PagePointers c" "PageMemory c' = PageMemory c" "AllocateOffset c' = AllocateOffset c"
    "CachedCodePages c' = CachedCodePages c" "CachedCodePagesMemoIndex c' = CachedCodePagesMemoIndex c"
    "DisableL2Cache c' = DisableL2Cache c"
    and l1: "L1Table c' = zero_table \<or> L1Table c' = L1Table c \<and> L1PointerMask c' = L1PointerMask c"
    by (auto simp: c'_def UpdateDynamicL1Stats_def Let_def resize_L1_def FlushWholeL1_def)
  have "L1_ok V c'"
    using l1
  proof
    assume "L1Table c' = zero_table"
    then show ?thesis by (simp add: L1_ok_def zero_table_def)
  next
    assume "L1Table c' = L1Table c \<and> L1PointerMask c' = L1PointerMask c"
    then show ?thesis using L1_ok_mono [OF k(2)] same(4) by simp
  qed
  then show ?thesis
    using k(1) L2_ok_mono [OF k(3)] pool_ok_cong [OF k(4)] same unfolding c'_def [symmetric]
    by (simp add: cache_ok_def index_ok_def)
qed

text \<open>The search of L2 answers from a backed entry.\<close>

lemma find_L2_ok:
  assumes "cache_ok V c" "find_L2 a c = (h, c')"
  shows "cache_ok V c'" "a \<noteq> 0 \<Longrightarrow> h \<noteq> 0 \<Longrightarrow> backed V c a h" "DisableL2Cache c' = DisableL2Cache c"
proof -
  have k: "L2_ok V c" using assms(1) by (simp add: cache_ok_def)
  have "(h = 0 \<and> c' = c) \<or> ((a \<noteq> 0 \<longrightarrow> backed V c a h) \<and> c' = PublishL1 h a c)"
    using assms(2) L2_okD [OF k] by (auto simp: find_L2_def split: option.splits prod.splits if_splits)
  then show "cache_ok V c'" "a \<noteq> 0 \<Longrightarrow> h \<noteq> 0 \<Longrightarrow> backed V c a h" "DisableL2Cache c' = DisableL2Cache c"
    using assms(1) publish_cache_ok by (auto simp: PublishL1_def)
qed

definition shared_ok :: "(u64 \<times> block_entry) set \<Rightarrow> guest_map \<Rightarrow> bool" where
  "shared_ok V g \<longleftrightarrow> (\<forall>a e. BlockList g a = Some e \<longrightarrow> (a, e) \<in> V)"

text \<open>A lookup keeps the caches sound. What it returns is backed, unless the address is 0, the mark of an empty entry.\<close>

lemma find_block_ok:
  assumes ok: "cache_ok V c" and sh: "shared_ok V g" and find: "FindBlock hot cold now a g c = (h, c')"
  shows "cache_ok V c'" "\<lbrakk>a \<noteq> 0; h \<noteq> 0\<rbrakk> \<Longrightarrow> \<exists>e. (a, e) \<in> V \<and> HostCode e = h"
    "\<lbrakk>a \<noteq> 0; \<forall>x e. (x, e) \<in> V \<longrightarrow> HostCode e \<noteq> 0; h = 0\<rbrakk> \<Longrightarrow> BlockList g a = None"
proof -
  obtain lh lg where l1: "L1Table c (L1Slot c a) = (lh, lg)" by fastforce
  have "cache_ok V c' \<and> (a \<noteq> 0 \<longrightarrow> (h \<noteq> 0 \<longrightarrow> (\<exists>e. (a, e) \<in> V \<and> HostCode e = h)) \<and>
    ((\<forall>x e. (x, e) \<in> V \<longrightarrow> HostCode e \<noteq> 0) \<longrightarrow> h = 0 \<longrightarrow> BlockList g a = None))"
  proof (cases "lg = a")
    case True
    then have "a \<noteq> 0 \<Longrightarrow> backed V c a lh" using L1_okD [of V c "L1Slot c a" lh a] ok l1 by (simp add: cache_ok_def)
    then show ?thesis using find ok True l1 by (auto simp: FindBlock_def backed_def)
  next
    case False
    obtain h1 c1 where f: "(if \<not> DisableL2Cache c then find_L2 a c else (0, c)) = (h1, c1)" by fastforce
    have 1: "cache_ok V c1" "a \<noteq> 0 \<Longrightarrow> h1 \<noteq> 0 \<Longrightarrow> backed V c a h1"
      using f find_L2_ok [OF ok, of a h1 c1] ok by (auto split: if_splits)
    obtain h2 c2 where g: "(if h1 = 0 then (case MapFindBlock a g of None \<Rightarrow> (0, c1)
        | Some e \<Rightarrow> (HostCode e, CacheBlockMapping a e False c1)) else (h1, c1)) = (h2, c2)" by fastforce
    have 2: "cache_ok V c2" "a \<noteq> 0 \<longrightarrow> h2 \<noteq> 0 \<longrightarrow> (\<exists>e. (a, e) \<in> V \<and> HostCode e = h2)"
      "(\<forall>x e. (x, e) \<in> V \<longrightarrow> HostCode e \<noteq> 0) \<longrightarrow> h2 = 0 \<longrightarrow> BlockList g a = None"
      using g 1 sh cache_mapping_ok [OF 1(1)]
      by (auto simp: MapFindBlock_def shared_ok_def backed_def split: if_splits option.splits) blast
    have "h = h2 \<and> c' = (if h2 \<noteq> 0 \<and> DynamicL1Cache c2 then UpdateDynamicL1Stats hot cold now c2 else c2)"
      using find False l1 f g by (auto simp: FindBlock_def)
    then show ?thesis using 2 update_stats_ok [OF 2(1)] by simp
  qed
  then show "cache_ok V c'" "\<lbrakk>a \<noteq> 0; h \<noteq> 0\<rbrakk> \<Longrightarrow> \<exists>e. (a, e) \<in> V \<and> HostCode e = h"
    "\<lbrakk>a \<noteq> 0; \<forall>x e. (x, e) \<in> V \<longrightarrow> HostCode e \<noteq> 0; h = 0\<rbrakk> \<Longrightarrow> BlockList g a = None" by blast+
qed

section \<open>Invalidation\<close>

text \<open>The keys of the two tables.\<close>

definition keys :: "lookup_cache \<Rightarrow> u64 set" where
  "keys c = {a. a \<noteq> 0 \<and> ((\<exists>i h. L1Table c i = (h, a)) \<or>
     (\<exists>i base off h. PagePointers c i = Some base \<and> PageMemory c base off = (h, a)))}"

text \<open>
  Address 0. \<open>InvalidateCache\<close> marks the L1 entry as empty by the guest address 0 and keeps its host code, so that
  a lookup of address 0 finds the host code of the block that was invalidated in its slot.
\<close>

lemma null_lookup_stale:
  assumes "L1Table c (L1Slot c a) = (h, a)" "L1Slot c a = L1Slot c 0"
  shows "fst (FindBlock hot cold now 0 g (InvalidateCache a c)) = h"
proof -
  have "L1Table (InvalidateCache a c) (L1Slot c 0) = (h, 0) \<and> L1PointerMask (InvalidateCache a c) = L1PointerMask c"
    using assms by (simp add: InvalidateCache_def Let_def split: option.split)
  then show ?thesis by (simp add: FindBlock_def L1Slot_def)
qed

lemma invalidate_cache_ok:
  fixes x :: u64
  assumes ok: "cache_ok V c"
  defines "c' \<equiv> InvalidateCache x c"
  shows "cache_ok V c'" "keys c' \<subseteq> keys c - {x}" "CachedCodePages c' = CachedCodePages c"
proof -
  have k: "index_ok c" "L1_ok V c" "L2_ok V c" "pool_ok c" using ok by (simp_all add: cache_ok_def)
  define T where "T = (if snd (L1Table c (L1Slot c x)) = x then (L1Table c)(L1Slot c x := (fst (L1Table c (L1Slot c x)), 0)) else L1Table c)"
  define M where "M = (case PagePointers c (PageIndex x) of None \<Rightarrow> PageMemory c
    | Some base \<Rightarrow> (PageMemory c)(base := (PageMemory c base)(L2Offset x := (0, 0))))"
  have "DisableL2Cache c \<Longrightarrow> PagePointers c (PageIndex x) = None" using k(4) by (simp add: pool_ok_def)
  then have c': "c' = c\<lparr>L1Table := T, PageMemory := M\<rparr>"
    unfolding c'_def InvalidateCache_def Let_def L2Offset_masked PageIndex_def [symmetric] T_def M_def
    by (auto simp: case_prod_beta split: option.split)
  show "CachedCodePages c' = CachedCodePages c" by (simp add: c')
  have bk: "backed V c' = backed V c" by (simp add: fun_eq_iff backed_def c')
  have sl: "L1Slot c' = L1Slot c" by (simp add: fun_eq_iff L1Slot_def c')
  have t: "L1Table c i = (h, a) \<and> a \<noteq> x" if "T i = (h, a)" "a \<noteq> 0" for i h a
    using that L1_okD [OF k(2)] by (auto simp: T_def split: if_splits)
  have m: "PageMemory c base off = (h, a) \<and> a \<noteq> x"
    if "M base off = (h, a)" "a \<noteq> 0" "PagePointers c i = Some base" for i base off h a
  proof -
    have old: "PageMemory c base off = (h, a)" using that by (auto simp: M_def split: option.splits if_splits)
    moreover have "a \<noteq> x"
    proof
      assume "a = x"
      then have "i = PageIndex x \<and> off = L2Offset x" using L2_okD [OF k(3) that(3) old that(2)] by simp
      then show False using that by (simp add: M_def)
    qed
    ultimately show ?thesis by blast
  qed
  have "L1_ok V c'" unfolding L1_ok_def bk sl using t L1_okD [OF k(2)] by (simp add: c') blast
  moreover have "L2_ok V c'" unfolding L2_ok_def bk using m L2_okD [OF k(3)] by (simp add: c') blast
  moreover have "M base = zero_table" if "AllocateOffset c \<le> base" for base
    using that k(4) by (auto simp: M_def pool_ok_def zero_table_def split: option.split)
  then have "pool_ok c'" using k(4) unfolding pool_ok_def by (simp add: c')
  moreover have "index_ok c'" using k(1) by (simp add: index_ok_def c')
  ultimately show "cache_ok V c'" by (simp add: cache_ok_def)
  show "keys c' \<subseteq> keys c - {x}"
  proof
    fix a assume "a \<in> keys c'"
    then have "a \<noteq> 0" "(\<exists>i h. T i = (h, a)) \<or> (\<exists>i base off h. PagePointers c i = Some base \<and> M base off = (h, a))"
      by (simp_all add: keys_def c')
    then have "a \<noteq> x \<and> ((\<exists>i h. L1Table c i = (h, a)) \<or> (\<exists>i base off h. PagePointers c i = Some base \<and> PageMemory c base off = (h, a)))"
      using t m by metis
    then show "a \<in> keys c - {x}" using \<open>a \<noteq> 0\<close> by (simp add: keys_def)
  qed
qed

lemma fold_invalidate_ok:
  assumes "cache_ok V c"
  shows "cache_ok V (fold InvalidateCache as c) \<and> keys (fold InvalidateCache as c) \<subseteq> keys c - set as \<and>
    CachedCodePages (fold InvalidateCache as c) = CachedCodePages c"
  using assms
proof (induction as arbitrary: c)
  case (Cons x as)
  note x = invalidate_cache_ok [OF Cons.prems, of x]
  show ?case using Cons.IH [OF x(1)] x(2,3) by auto
qed simp

lemma fold_invalidate_pages:
  assumes "cache_ok V c"
  defines "pass \<equiv> fold (\<lambda>(page, entries) c. fold InvalidateCache entries c)"
  shows "cache_ok V (pass L c) \<and> keys (pass L c) \<subseteq> keys c - \<Union>(set ` snd ` set L) \<and> CachedCodePages (pass L c) = CachedCodePages c"
  using assms(1) unfolding pass_def
proof (induction L arbitrary: c)
  case (Cons pe L)
  note x = fold_invalidate_ok [OF Cons.prems, of "snd pe"]
  have "cache_ok V (fold InvalidateCache (snd pe) c)" using x by blast
  then show ?case using Cons.IH [of "fold InvalidateCache (snd pe) c"] x by (auto simp: case_prod_beta)
qed simp

definition untouched :: "u64 set \<Rightarrow> (u64 \<times> block_entry) set \<Rightarrow> (u64 \<times> block_entry) set" where
  "untouched P V = {(a, e). (a, e) \<in> V \<and> PageOf ` set (EntryCodePages e) \<inter> P = {}}"

lemma invalidate_cache_range_ok:
  assumes ok: "cache_ok V c" and res: "InvalidateCacheRange start len c = (r, c')"
  shows "cache_ok (untouched (pages_of start len) V) c'"
proof -
  define P where "P = pages_of start len"
  have ix: "index_ok c" using ok by (simp add: cache_ok_def)
  define L where "L = between (PageOf start) (PageOf (start + len - 1)) (CachedCodePages c)"
  define c1 where "c1 = fold (\<lambda>(page, entries) c. fold InvalidateCache entries c) L c"
  have p: "cache_ok V c1" "keys c1 \<subseteq> keys c - \<Union>(set ` snd ` set L)" "CachedCodePages c1 = CachedCodePages c"
    using fold_invalidate_pages [OF ok, of L] by (simp_all add: c1_def)
  have k: "index_ok c1" "L1_ok V c1" "L2_ok V c1" "pool_ok c1" using p(1) by (simp_all add: cache_ok_def)
  have c': "c' = c1\<lparr>CachedCodePages := erase_between (PageOf start) (PageOf (start + len - 1)) (CachedCodePages c),
      CachedCodePagesMemoIndex := NOT 0\<rparr>"
    using res p(3) by (simp add: InvalidateCacheRange_def Let_def c1_def L_def InvalidateCachedCodePagesMemo_def)
  have D: "\<Union>(set ` snd ` set L) = entries_on (CachedCodePages c) P"
    using listed_between ix by (simp add: L_def index_ok_def entries_on_def pages_of_def P_def)
  have b: "backed (untouched P V) c' a h" if bk: "backed V c1 a h" and ky: "a \<in> keys c1" for a h
  proof -
    obtain e where e: "(a, e) \<in> V" "HostCode e = h" "\<forall>q \<in> set (EntryCodePages e). a \<in> listed (CachedCodePages c) (PageOf q)"
      using bk p(3) by (auto simp: backed_def)
    have "a \<notin> entries_on (CachedCodePages c) P" using subsetD [OF p(2) ky] unfolding D by blast
    then have off: "PageOf q \<notin> P" if "q \<in> set (EntryCodePages e)" for q using e(3) that by (auto simp: entries_on_def)
    then have "(a, e) \<in> untouched P V" using e(1) by (auto simp: untouched_def)
    moreover have "a \<in> listed (CachedCodePages c') (PageOf q)" if "q \<in> set (EntryCodePages e)" for q
      using e(3) off [OF that] that by (simp add: c' listed_erase_between P_def pages_of_def)
    ultimately show ?thesis using e(2) unfolding backed_def by blast
  qed
  have "L1_ok (untouched P V) c'" unfolding L1_ok_def
  proof (intro allI impI)
    fix i h a assume *: "L1Table c' i = (h, a)" "a \<noteq> 0"
    then have l: "L1Table c1 i = (h, a)" by (simp add: c')
    then have "a \<in> keys c1" using *(2) by (auto simp: keys_def)
    then show "i = L1Slot c' a \<and> backed (untouched P V) c' a h"
      using L1_okD [OF k(2) l *(2)] b by (simp add: c' L1Slot_def)
  qed
  moreover have "L2_ok (untouched P V) c'" unfolding L2_ok_def
  proof (intro allI impI)
    fix i base off h a assume *: "PagePointers c' i = Some base" "PageMemory c' base off = (h, a)" "a \<noteq> 0"
    then have l: "PagePointers c1 i = Some base" "PageMemory c1 base off = (h, a)" by (simp_all add: c')
    then have "a \<in> keys c1" using *(3) by (auto simp: keys_def)
    then show "i = PageIndex a \<and> off = L2Offset a \<and> backed (untouched P V) c' a h"
      using L2_okD [OF k(3) l *(3)] b by simp
  qed
  moreover have "index_ok c'" using ix by (simp add: index_ok_def c')
  moreover have "pool_ok c'" by (rule pool_ok_cong [OF k(4)]) (simp_all add: c')
  ultimately show ?thesis by (simp add: cache_ok_def P_def)
qed

end
