(* ===== verification/CodeManager.thy ===== *)
theory CodeManager
  imports GuestMapSpec LookupCacheSpec VMATracking
begin

text \<open>
  The code invalidation protocol across components: the code buffers of \<open>ContextImpl\<close>
  (\<open>FEXCore/Source/Interface/Core/Core.cpp\<close>), each with its block database, the threads of
  \<open>ThreadManager\<close> (\<open>LinuxSyscalls/ThreadManager.h\<close>), each with its lookup cache, the
  registration of compiled units, the revalidation of soft-invalidated blocks
  (\<open>SMCSoftInvalidate.h\<close>) and the instruction cache maintenance of \<open>SMCICache.h\<close> with its fan-out
  to the mirrors of a shared mapping (\<open>SyscallsSMCTracking.cpp\<close>).

  Compilation holds \<open>CodeInvalidationMutex\<close> shared and invalidation holds it exclusively, so
  that each operation is one step. A weak pointer of \<open>CodeBufferList\<close> is the number of its
  buffer, expired when \<open>Buffers\<close> has no value for it. Guest memory is a function from addresses
  to bytes; the page loop of \<open>RecordCodeRangeInvalidation\<close> never wraps, since its bound is aligned.
  A thread whose lookup cache was released is off the list of threads. \<open>xxh\<close> is \<open>XXH3_64bits_withSeed\<close>, and \<open>grant\<close> the answers of \<open>VirtualAlloc\<close>.
\<close>

section \<open>Content hashes\<close>

abbreviation kMaxHashableGuestSpan :: u64 where "kMaxHashableGuestSpan \<equiv> 0x10000"

definition IsHashableBlock :: "u64 \<Rightarrow> nat \<Rightarrow> bool" where
  "IsHashableBlock span pages \<longleftrightarrow> span \<noteq> 0 \<and> pages \<noteq> 0 \<and> span \<le> kMaxHashableGuestSpan"

definition read_bytes :: "(u64 \<Rightarrow> u8) \<Rightarrow> u64 \<Rightarrow> u64 \<Rightarrow> u8 list" where
  "read_bytes mem a n = map (\<lambda>i. mem (a + of_nat i)) [0..<unat n]"

definition hash_page :: "(u8 list \<Rightarrow> u64 \<Rightarrow> u64) \<Rightarrow> (u64 \<Rightarrow> u8) \<Rightarrow> u64 \<Rightarrow> u64 \<Rightarrow> u64 \<Rightarrow> u64 \<Rightarrow> u64" where
  "hash_page xxh mem start fin page hash =
     (let pend = page + 4096; cstart = max page start; cend = min pend fin in
      if cstart \<ge> cend then xxh (store_le 8 page) hash
      else xxh (read_bytes mem cstart (cend - cstart)) (xxh (store_le 8 cstart) hash))"

definition HashGuestBlock :: "(u8 list \<Rightarrow> u64 \<Rightarrow> u64) \<Rightarrow> (u64 \<Rightarrow> u8) \<Rightarrow> u64 list \<Rightarrow> u64 \<Rightarrow> u64 \<Rightarrow> u64" where
  "HashGuestBlock xxh mem pages start len = fold (hash_page xxh mem start (start + len)) pages len"

section \<open>Registration of compiled units\<close>

text \<open>
  The page loop shared by \<open>CompileBlock\<close> and \<open>TryRelinkSoftInvalidatedBlock\<close>, with the pages
  that are reported to \<open>MarkGuestExecutableRange\<close>.
\<close>

definition register_pages ::
  "(nat \<Rightarrow> bool) \<Rightarrow> u64 list \<Rightarrow> u64 \<Rightarrow> u64 \<Rightarrow> u64 list \<Rightarrow> guest_map \<Rightarrow> u64 list \<times> guest_map" where
  "register_pages grant entries rstart rlen pages g =
     fold (\<lambda>page (new, g). case AddBlockExecutableRange grant entries page 4096 rstart rlen g of
             (fresh, g') \<Rightarrow> (if fresh then new @ [page] else new, g')) pages ([], g)"

definition CompileBlock_register ::
  "bool \<Rightarrow> (u64 list \<Rightarrow> u64 \<Rightarrow> u64 \<Rightarrow> u64) \<Rightarrow> (nat \<Rightarrow> bool) \<Rightarrow> bool \<Rightarrow> u64 list \<Rightarrow> u64 list \<Rightarrow> u64 \<Rightarrow> u64 \<Rightarrow> u64 \<Rightarrow>
   (u64 \<times> u64) list \<Rightarrow> guest_map \<times> lookup_cache \<Rightarrow> u64 list \<times> guest_map \<times> lookup_cache" where
  "CompileBlock_register soft hash grant needs entries decoded start len bbegin hosts gc =
     (case gc of (g, c) \<Rightarrow>
        let pages = (if needs then decoded else []);
            (new, g1) = (if needs then register_pages grant entries start len pages g else ([], g));
            hashable = (soft \<and> IsHashableBlock len (length pages));
            hlen = (if hashable then len else 0);
            ghash = (if hashable then hash pages start len else 0);
            (g2, c2) = fold (\<lambda>(a, host) (g, c). CacheAddBlockMapping a
                \<lparr>HostCode = host, BlockBegin = bbegin, EntryCodePages = pages, GuestRangeStart = start,
                 GuestRangeLength = hlen, GuestHash = ghash, ExtentStart = start, ExtentLength = len\<rparr> g c) hosts (g1, c) in
        (new, g2, c2))"

text \<open>
  \<open>TryRelinkSoftInvalidatedBlock\<close>: guest memory is read before the pages are armed (\<open>mem0\<close>) and
  after (\<open>mem1\<close>). The result is the host code, zero for none, the pages reported to
  \<open>MarkGuestExecutableRange\<close>, the ranges reported to \<open>RecordCodeRangeInvalidation\<close>, and the new
  map and cache.
\<close>

definition TryRelinkSoftInvalidatedBlock ::
  "(u8 list \<Rightarrow> u64 \<Rightarrow> u64) \<Rightarrow> (u64 \<Rightarrow> bool) \<Rightarrow> (nat \<Rightarrow> bool) \<Rightarrow> (u64 \<Rightarrow> u8) \<Rightarrow> (u64 \<Rightarrow> u8) \<Rightarrow> u64 \<Rightarrow>
   guest_map \<times> lookup_cache \<Rightarrow> u64 \<times> u64 list \<times> (u64 \<times> u64) list \<times> guest_map \<times> lookup_cache" where
  "TryRelinkSoftInvalidatedBlock xxh validateOnly grant mem0 mem1 rip gc =
     (case gc of (g, c) \<Rightarrow>
        case TakeRetainedBlock rip g of
          (None, g1) \<Rightarrow> (0, [], [], g1, c)
        | (Some e, g1) \<Rightarrow>
            if HashGuestBlock xxh mem0 (EntryCodePages e) (GuestRangeStart e) (GuestRangeLength e) \<noteq> GuestHash e
            then (0, [], [(GuestRangeStart e, GuestRangeLength e)], g1, c)
            else if list_ex validateOnly (EntryCodePages e) then (0, [], [], g1, c)
            else
              let (new, g2) = register_pages grant [rip] (GuestRangeStart e) (GuestRangeLength e) (EntryCodePages e) g1 in
              if HashGuestBlock xxh mem1 (EntryCodePages e) (GuestRangeStart e) (GuestRangeLength e) \<noteq> GuestHash e
              then (0, new, [(GuestRangeStart e, GuestRangeLength e)], g2, c)
              else let (g3, c3) = CacheAddBlockMapping rip e g2 c in (HostCode e, new, [], g3, c3))"

section \<open>Buffers and threads\<close>

text \<open>
  What the code manager keeps of a thread: its buffer, its lookup cache, the executable range that
  its decoder remembers and the words of its call-return stack.
\<close>

record code_thread =
  BufferIndex :: nat
  Cache :: lookup_cache
  ExecutableRange :: "u64 \<times> u64"
  CallRetStack :: "u64 \<Rightarrow> u64"

record code_state =
  Buffers :: "nat \<rightharpoonup> guest_map"
  CodeBufferList :: "nat list"
  LiveCodeBufferCount :: nat
  Threads :: "code_thread list"
  SMCPageCounters :: "u64 \<Rightarrow> u64 \<times> u32"
  SMCCheapTier :: bool
  ShadowRetStack :: bool

definition OnCodeBufferAllocated :: "nat \<Rightarrow> code_state \<Rightarrow> code_state" where
  "OnCodeBufferAllocated i s =
     (let l = CodeBufferList s @ [i] in s\<lparr>CodeBufferList := l, LiveCodeBufferCount := length l\<rparr>)"

text \<open>The churn counters of the cheap compile tier.\<close>

abbreviation SMCPageCounterSlots :: u64 where "SMCPageCounterSlots \<equiv> 4096"
abbreviation SMCMaxCountedInvalidationSize :: u64 where "SMCMaxCountedInvalidationSize \<equiv> 0x100000"

definition counter_slot :: "u64 \<Rightarrow> u64" where
  "counter_slot page = drop_bit 12 page AND (SMCPageCounterSlots - 1)"

definition count_page :: "u64 \<Rightarrow> (u64 \<Rightarrow> u64 \<times> u32) \<Rightarrow> (u64 \<Rightarrow> u64 \<times> u32)" where
  "count_page page tab =
     (case tab (counter_slot page) of
        (p, n) \<Rightarrow>
          if p \<noteq> page then tab(counter_slot page := (page, 1))
          else if n \<noteq> NOT 0 then tab(counter_slot page := (page, n + 1))
          else tab)"

definition counted_pages :: "u64 \<Rightarrow> u64 \<Rightarrow> u64 list" where
  "counted_pages start len =
     (let base = start AND NOT 4095; fin = (start + max len 1 + 4095) AND NOT 4095 in
      if base < fin then map (\<lambda>i. base + 4096 * of_nat i) [0..<unat (fin - base) div 4096] else [])"

definition RecordCodeRangeInvalidation :: "u64 \<Rightarrow> u64 \<Rightarrow> code_state \<Rightarrow> code_state" where
  "RecordCodeRangeInvalidation start len s =
     (if \<not> SMCCheapTier s \<or> len > SMCMaxCountedInvalidationSize then s
      else s\<lparr>SMCPageCounters := fold count_page (counted_pages start len) (SMCPageCounters s)\<rparr>)"

definition ShouldUseCheapTier :: "u32 \<Rightarrow> u64 \<Rightarrow> code_state \<Rightarrow> bool" where
  "ShouldUseCheapTier threshold rip s =
     (if \<not> SMCCheapTier s then False
      else
        let page = rip AND NOT 4095 in
        case SMCPageCounters s (counter_slot page) of (p, n) \<Rightarrow> if p \<noteq> page then False else n \<ge> threshold)"

text \<open>The walk over \<open>CodeBufferList\<close>, which drops the expired pointers.\<close>

primrec walk_buffers :: "(guest_map \<Rightarrow> guest_map) \<Rightarrow> nat list \<Rightarrow> (nat \<rightharpoonup> guest_map) \<Rightarrow> nat list \<times> (nat \<rightharpoonup> guest_map)" where
  "walk_buffers f [] B = ([], B)"
| "walk_buffers f (i # is) B =
     (case B i of
        None \<Rightarrow> walk_buffers f is B
      | Some g \<Rightarrow> let (l, B') = walk_buffers f is (B(i \<mapsto> f g)) in (i # l, B'))"

definition on_buffers :: "(guest_map \<Rightarrow> guest_map) \<Rightarrow> code_state \<Rightarrow> code_state" where
  "on_buffers f s =
     (let (l, B) = walk_buffers f (CodeBufferList s) (Buffers s) in
      s\<lparr>Buffers := B, CodeBufferList := l, LiveCodeBufferCount := length l\<rparr>)"

definition InvalidateCodeBuffersCodeRange :: "u64 \<Rightarrow> u64 \<Rightarrow> code_state \<Rightarrow> code_state" where
  "InvalidateCodeBuffersCodeRange start len s =
     on_buffers (InvalidateRange start len) (RecordCodeRangeInvalidation start len s)"

definition InvalidateCodeBuffersCodeRangePrecise :: "u64 \<Rightarrow> u64 \<Rightarrow> code_state \<Rightarrow> code_state" where
  "InvalidateCodeBuffersCodeRangePrecise start len s =
     on_buffers (\<lambda>g. snd (InvalidateRangePrecise start len g)) (RecordCodeRangeInvalidation start len s)"

definition SoftInvalidateCodeBuffersCodeRange :: "u64 \<Rightarrow> u64 \<Rightarrow> code_state \<Rightarrow> code_state" where
  "SoftInvalidateCodeBuffersCodeRange start len s = on_buffers (SoftInvalidateRange start len) s"

definition ResetExecutableRangeCache :: "code_thread \<Rightarrow> code_thread" where
  "ResetExecutableRangeCache t = t\<lparr>ExecutableRange := (0, 0)\<rparr>"

definition InvalidateThreadCachedCodeRange :: "bool \<Rightarrow> u64 \<Rightarrow> u64 \<Rightarrow> code_thread \<Rightarrow> code_thread" where
  "InvalidateThreadCachedCodeRange shadow start len t =
     (let t1 = ResetExecutableRangeCache t; (hit, c) = InvalidateCacheRange start len (Cache t1); t2 = t1\<lparr>Cache := c\<rparr> in
      if hit then (if shadow then t2\<lparr>CallRetStack := (\<lambda>_. 0)\<rparr> else t2) else t2)"

definition on_threads :: "(code_thread \<Rightarrow> code_thread) \<Rightarrow> code_state \<Rightarrow> code_state" where
  "on_threads f s = s\<lparr>Threads := map f (Threads s)\<rparr>"

text \<open>
  The entry points of \<open>ThreadManager\<close>. The forms with an \<open>after_callback\<close> also return the ranges it
  is called with.
\<close>

definition InvalidateGuestCodeRange :: "u64 \<Rightarrow> u64 \<Rightarrow> code_state \<Rightarrow> code_state" where
  "InvalidateGuestCodeRange start len s =
     on_threads (InvalidateThreadCachedCodeRange (ShadowRetStack s) start len) (InvalidateCodeBuffersCodeRange start len s)"

definition InvalidateGuestCodeRangeAfter :: "u64 \<Rightarrow> u64 \<Rightarrow> code_state \<Rightarrow> (u64 \<times> u64) list \<times> code_state" where
  "InvalidateGuestCodeRangeAfter start len s =
     ([(start, len)],
      on_threads (InvalidateThreadCachedCodeRange (ShadowRetStack s) start len) (InvalidateCodeBuffersCodeRange start len s))"

definition InvalidateGuestCodeRanges :: "(u64 \<times> u64 \<times> bool) list \<Rightarrow> code_state \<Rightarrow> (u64 \<times> u64) list \<times> code_state" where
  "InvalidateGuestCodeRanges ranges s =
     (map (\<lambda>(start, len, unprotect). (start, len)) (filter (\<lambda>(start, len, unprotect). unprotect) ranges),
      on_threads (fold (\<lambda>(start, len, unprotect). InvalidateThreadCachedCodeRange (ShadowRetStack s) start len) ranges)
        (fold (\<lambda>(start, len, unprotect). InvalidateCodeBuffersCodeRange start len) ranges s))"

definition InvalidateGuestCodeRangePrecise :: "u64 \<Rightarrow> u64 \<Rightarrow> code_state \<Rightarrow> code_state" where
  "InvalidateGuestCodeRangePrecise start len s =
     on_threads (InvalidateThreadCachedCodeRange (ShadowRetStack s) start len) (InvalidateCodeBuffersCodeRangePrecise start len s)"

definition InvalidateGuestCodeRangesPrecise :: "u64 list \<Rightarrow> u64 \<Rightarrow> code_state \<Rightarrow> code_state" where
  "InvalidateGuestCodeRangesPrecise starts len s =
     on_threads (fold (\<lambda>start. InvalidateThreadCachedCodeRange (ShadowRetStack s) start len) starts)
       (fold (\<lambda>start. InvalidateCodeBuffersCodeRangePrecise start len) starts s)"

definition SoftInvalidateGuestCodeRange :: "u64 \<Rightarrow> u64 \<Rightarrow> code_state \<Rightarrow> (u64 \<times> u64) list \<times> code_state" where
  "SoftInvalidateGuestCodeRange start len s =
     ([(start, len)],
      on_threads (InvalidateThreadCachedCodeRange (ShadowRetStack s) start len) (SoftInvalidateCodeBuffersCodeRange start len s))"

text \<open>The rotation of a thread to another buffer: \<open>PPC64JITCore::ClearCache\<close>.\<close>

definition switch_buffer :: "nat \<Rightarrow> code_thread \<Rightarrow> code_thread" where
  "switch_buffer j t = t\<lparr>BufferIndex := j, Cache := ChangeGuestToHostMapping (Cache t), CallRetStack := (\<lambda>_. 0)\<rparr>"

section \<open>Instruction cache maintenance\<close>

abbreviation ICacheLineSize :: u64 where "ICacheLineSize \<equiv> 64"

definition ICacheLineBase :: "u64 \<Rightarrow> u64" where "ICacheLineBase a = a AND NOT (ICacheLineSize - 1)"

definition GuestRangeProvablyHasNoCode :: "nat \<Rightarrow> u64 \<Rightarrow> u64 \<Rightarrow> code_state \<Rightarrow> bool \<times> code_state" where
  "GuestRangeProvablyHasNoCode t start len s =
     (if t < length (Threads s) \<and> LiveCodeBufferCount s = 1
      then (case Buffers s (BufferIndex (Threads s ! t)) of
              None \<Rightarrow> (False, s) | Some g \<Rightarrow> (ProvablyClear (CodeGranules g) start len, s))
      else
        let clear = list_all (\<lambda>i. case Buffers s i of None \<Rightarrow> True | Some g \<Rightarrow> ProvablyClear (CodeGranules g) start len)
              (CodeBufferList s) in
        (clear, on_buffers id s))"

text \<open>The lines that \<open>InvalidateGuestICacheLine\<close> collects: at most 32, the named one first.\<close>

fun mirror_lines :: "u64 \<Rightarrow> u64 \<Rightarrow> vma_tracking \<Rightarrow> u64 list \<Rightarrow> u64 list \<Rightarrow> u64 list" where
  "mirror_lines line offset vt [] found = found"
| "mirror_lines line offset vt (k # ks) found =
     (if length found < 32
      then (case map_of (VMAs vt) k of
              None \<Rightarrow> mirror_lines line offset vt ks found
            | Some v \<Rightarrow>
                mirror_lines line offset vt ks
                  (if vm_Offset v \<le> offset \<and> vm_Offset v + vm_Length v > offset
                   then (let m = offset - vm_Offset v + vm_Base v in if m \<noteq> line then found @ [m] else found)
                   else found))
      else found)"

definition icache_lines :: "u64 \<Rightarrow> vma_tracking \<Rightarrow> u64 list" where
  "icache_lines line vt =
     (case FindVMAEntry line (VMAs vt) of
        None \<Rightarrow> [line]
      | Some e \<Rightarrow>
          (case (vm_Shared e, vm_Resource e) of
             (True, Some r) \<Rightarrow>
               mirror_lines line (line - vm_Base e + vm_Offset e) vt
                 (case MappedResources vt r of None \<Rightarrow> [] | Some m \<Rightarrow> mr_VMAs m) [line]
           | _ \<Rightarrow> [line]))"

definition InvalidateGuestICacheLine :: "u64 \<Rightarrow> vma_tracking \<Rightarrow> code_state \<Rightarrow> code_state" where
  "InvalidateGuestICacheLine line vt s =
     (let lines = icache_lines line vt in
      if length lines = 1 then InvalidateGuestCodeRangePrecise line 64 s
      else InvalidateGuestCodeRangesPrecise lines 64 s)"

definition ICacheInvalidateFromJit :: "nat \<Rightarrow> u64 \<Rightarrow> vma_tracking \<Rightarrow> code_state \<Rightarrow> code_state" where
  "ICacheInvalidateFromJit t a vt s =
     (let line = ICacheLineBase a in
      case GuestRangeProvablyHasNoCode t line ICacheLineSize s of
        (clear, s1) \<Rightarrow> if clear then s1 else InvalidateGuestICacheLine line vt s1)"

end
