(* ===== verification/CodeManagerSpec.thy ===== *)
theory CodeManagerSpec
  imports CodeManager
begin

text \<open>
  Safety of the code invalidation protocol. The reachable states of buffers and threads carry
  the set of valid translations as history; no lookup of any thread ever returns the code of a
  translation that was invalidated. The three forms of invalidation share one contract.
\<close>

section \<open>The invariant\<close>

text \<open>
  A sound entry has host code and aligned code pages, and the window of its content hash is the
  recorded extent, or there is no hash. Only entries with a hash are retained.
\<close>

definition entry_ok :: "block_entry \<Rightarrow> bool" where
  "entry_ok e \<longleftrightarrow> HostCode e \<noteq> 0 \<and> (\<forall>p \<in> set (EntryCodePages e). take_bit 12 p = 0) \<and>
     (GuestRangeLength e = 0 \<or> (GuestRangeStart e = ExtentStart e \<and> GuestRangeLength e = ExtentLength e))"

definition entries_ok :: "guest_map \<Rightarrow> bool" where
  "entries_ok g \<longleftrightarrow> (\<forall>a e. BlockList g a = Some e \<longrightarrow> entry_ok e) \<and>
     (\<forall>a e. RetainedBlocks g a = Some e \<longrightarrow> entry_ok e \<and> hashed e)"

definition buffer_ok :: "(u64 \<times> block_entry) set \<Rightarrow> guest_map \<Rightarrow> bool" where
  "buffer_ok V g \<longleftrightarrow> map_ok g \<and> shared_ok V g \<and> entries_ok g"

definition state_ok :: "(u64 \<times> block_entry) set \<Rightarrow> code_state \<Rightarrow> bool" where
  "state_ok V s \<longleftrightarrow> distinct (CodeBufferList s) \<and> dom (Buffers s) \<subseteq> set (CodeBufferList s) \<and>
     LiveCodeBufferCount s = length (CodeBufferList s) \<and>
     (\<forall>i g. Buffers s i = Some g \<longrightarrow> buffer_ok V g) \<and>
     (\<forall>t \<in> set (Threads s). BufferIndex t \<in> dom (Buffers s) \<and> cache_ok V (Cache t))"

lemma backed_valid_mono: "backed V c a h \<Longrightarrow> V \<subseteq> V' \<Longrightarrow> backed V' c a h"
  unfolding backed_def by blast

lemma cache_ok_valid_mono:
  assumes "cache_ok V c" "V \<subseteq> V'"
  shows "cache_ok V' c"
proof -
  have k: "L1_ok V c" "L2_ok V c" using assms(1) by (simp_all add: cache_ok_def)
  have "L1_ok V' c" unfolding L1_ok_def using L1_okD [OF k(1)] backed_valid_mono [OF _ assms(2)] by blast
  moreover have "L2_ok V' c" unfolding L2_ok_def using L2_okD [OF k(2)] backed_valid_mono [OF _ assms(2)] by blast
  ultimately show ?thesis using assms(1) by (simp add: cache_ok_def)
qed

lemma buffer_ok_valid_mono: "buffer_ok V g \<Longrightarrow> V \<subseteq> V' \<Longrightarrow> buffer_ok V' g"
  unfolding buffer_ok_def shared_ok_def by blast

section \<open>The walk over the buffers\<close>

lemma walk_buffers_spec:
  assumes "distinct l"
  shows "fst (walk_buffers f l B) = filter (\<lambda>i. B i \<noteq> None) l"
    "snd (walk_buffers f l B) i = (if i \<in> set l then map_option f (B i) else B i)"
  using assms
proof (induction l arbitrary: B)
  case (Cons j l)
  { case 1
    have "filter (\<lambda>i. (B(j \<mapsto> f g)) i \<noteq> None) l = filter (\<lambda>i. B i \<noteq> None) l" for g
      using 1 by (intro filter_cong) auto
    then show ?case using Cons.IH(1) 1 by (auto simp: case_prod_beta Let_def split: option.split) }
  { case 2
    then show ?case using Cons.IH(2) by (auto simp: case_prod_beta Let_def split: option.split) }
qed simp_all

lemma on_buffers_spec:
  assumes "distinct (CodeBufferList s)" "dom (Buffers s) \<subseteq> set (CodeBufferList s)"
  shows "Buffers (on_buffers f s) = (\<lambda>i. map_option f (Buffers s i))"
    "CodeBufferList (on_buffers f s) = filter (\<lambda>i. Buffers s i \<noteq> None) (CodeBufferList s)"
    "LiveCodeBufferCount (on_buffers f s) = length (CodeBufferList (on_buffers f s))"
    "Threads (on_buffers f s) = Threads s"
proof -
  have "Buffers s i = None" if "i \<notin> set (CodeBufferList s)" for i using assms(2) that by auto
  then have "snd (walk_buffers f (CodeBufferList s) (Buffers s)) = (\<lambda>i. map_option f (Buffers s i))"
    by (intro ext) (simp add: walk_buffers_spec(2) [OF assms(1)])
  then show "Buffers (on_buffers f s) = (\<lambda>i. map_option f (Buffers s i))"
    "CodeBufferList (on_buffers f s) = filter (\<lambda>i. Buffers s i \<noteq> None) (CodeBufferList s)"
    "LiveCodeBufferCount (on_buffers f s) = length (CodeBufferList (on_buffers f s))"
    "Threads (on_buffers f s) = Threads s"
    using walk_buffers_spec(1) [OF assms(1), of f "Buffers s"] by (simp_all add: on_buffers_def case_prod_beta Let_def)
qed

lemma thread_scrub:
  "BufferIndex (InvalidateThreadCachedCodeRange shadow start len t) = BufferIndex t"
  "Cache (InvalidateThreadCachedCodeRange shadow start len t) = snd (InvalidateCacheRange start len (Cache t))"
  by (simp_all add: InvalidateThreadCachedCodeRange_def ResetExecutableRangeCache_def Let_def case_prod_beta)

section \<open>The contract of an invalidation\<close>

text \<open>
  \<open>inval\<close> is the operation on a block database and \<open>keep\<close> the valid translations it leaves. The
  threads scrub whole pages, so that \<open>keep\<close> must not drop a translation off those pages.
\<close>

locale code_invalidation =
  fixes inval :: "u64 \<Rightarrow> u64 \<Rightarrow> guest_map \<Rightarrow> guest_map"
    and keep :: "u64 \<Rightarrow> u64 \<Rightarrow> (u64 \<times> block_entry) set \<Rightarrow> (u64 \<times> block_entry) set"
  assumes inval_map: "map_ok g \<Longrightarrow> map_ok (inval start len g)"
    and inval_shared: "\<lbrakk>map_ok g; shared_ok V g\<rbrakk> \<Longrightarrow> shared_ok (keep start len V) (inval start len g)"
    and inval_entries: "\<lbrakk>map_ok g; entries_ok g\<rbrakk> \<Longrightarrow> entries_ok (inval start len g)"
    and inval_retained: "\<lbrakk>map_ok g; RetainedBlocks (inval start len g) a = Some e\<rbrakk> \<Longrightarrow> RetainedBlocks g a = Some e \<or> BlockList g a = Some e"
    and keep_untouched: "untouched (pages_of start len) V \<subseteq> keep start len V"
begin

lemma buffer: "buffer_ok V g \<Longrightarrow> buffer_ok (keep start len V) (inval start len g)"
  by (simp add: buffer_ok_def inval_map inval_shared inval_entries)

lemma scrub_cache: "cache_ok V c \<Longrightarrow> cache_ok (keep start len V) (snd (InvalidateCacheRange start len c))"
  by (rule cache_ok_valid_mono [OF invalidate_cache_range_ok [OF _ prod.collapse [symmetric]] keep_untouched])

lemma scrub: "cache_ok V (Cache t) \<Longrightarrow> cache_ok (keep start len V) (Cache (InvalidateThreadCachedCodeRange shadow start len t))"
  using scrub_cache [of V "Cache t" start len] by (simp add: thread_scrub)

lemma buffers:
  assumes "state_ok V s"
  shows "distinct (CodeBufferList (on_buffers (inval start len) s)) \<and>
    dom (Buffers (on_buffers (inval start len) s)) = dom (Buffers s) \<and>
    dom (Buffers s) \<subseteq> set (CodeBufferList (on_buffers (inval start len) s)) \<and>
    (\<forall>i g. Buffers (on_buffers (inval start len) s) i = Some g \<longrightarrow> buffer_ok (keep start len V) g)"
proof -
  have d: "distinct (CodeBufferList s)" "dom (Buffers s) \<subseteq> set (CodeBufferList s)"
    and b: "\<And>i g. Buffers s i = Some g \<Longrightarrow> buffer_ok V g" using assms by (simp_all add: state_ok_def)
  note o = on_buffers_spec [OF d, of "inval start len"]
  have "\<forall>i g. Buffers (on_buffers (inval start len) s) i = Some g \<longrightarrow> buffer_ok (keep start len V) g"
    using b buffer by (auto simp: o(1))
  then show ?thesis using d by (auto simp: o domIff)
qed

text \<open>What a buffer retains after the walk it retained or had listed before.\<close>

lemma buffers_retained:
  assumes "state_ok V s" "Buffers (on_buffers (inval start len) s) i = Some g'" "RetainedBlocks g' a = Some e"
  shows "\<exists>g. Buffers s i = Some g \<and> (RetainedBlocks g a = Some e \<or> BlockList g a = Some e)"
proof -
  have d: "distinct (CodeBufferList s)" "dom (Buffers s) \<subseteq> set (CodeBufferList s)" using assms(1) by (simp_all add: state_ok_def)
  obtain g where g: "Buffers s i = Some g" "g' = inval start len g" using assms(2) by (auto simp: on_buffers_spec(1) [OF d])
  then have "map_ok g" using assms(1) by (simp add: state_ok_def buffer_ok_def)
  then show ?thesis using g assms(3) inval_retained by blast
qed

lemma protocol:
  assumes "state_ok V s"
  shows "state_ok (keep start len V) (on_threads (InvalidateThreadCachedCodeRange shadow start len) (on_buffers (inval start len) s))"
proof -
  have d: "distinct (CodeBufferList s)" "dom (Buffers s) \<subseteq> set (CodeBufferList s)" using assms by (simp_all add: state_ok_def)
  note o = on_buffers_spec [OF d, of "inval start len"]
  note b = buffers [OF assms, of start len]
  have "\<forall>t \<in> set (Threads s). BufferIndex t \<in> dom (Buffers s) \<and> cache_ok V (Cache t)" using assms by (simp add: state_ok_def)
  then show ?thesis
    using b scrub o(3) unfolding state_ok_def on_threads_def
    by (auto simp: o(4) thread_scrub(1))
qed

end

definition not_overlapping :: "u64 \<Rightarrow> u64 \<Rightarrow> (u64 \<times> block_entry) set \<Rightarrow> (u64 \<times> block_entry) set" where
  "not_overlapping start len V =
     {(a, e). (a, e) \<in> V \<and> (PageOf ` set (EntryCodePages e) \<inter> pages_of start len = {} \<or> \<not> EntryOverlaps e start (start + len))}"

interpretation hard: code_invalidation InvalidateRange "\<lambda>start len. untouched (pages_of start len)"
proof (unfold_locales, goal_cases)
  case (1 g start len)
  then show ?case by (rule invalidate_range_spec(1))
next
  case (2 g V start len)
  show ?case unfolding shared_ok_def untouched_def
    using 2 invalidate_range_spec(2) [OF 2(1), of start len] indexed_off [OF map_okD(2) [OF 2(1)]]
    by (auto simp: restrict_map_def shared_ok_def split: if_splits)
next
  case (3 g start len)
  show ?case using 3(2) invalidate_range_spec(2,3) [OF 3(1), of start len]
    by (auto simp: entries_ok_def restrict_map_def split: if_splits)
next
  case (4 g start len a e)
  then show ?case using invalidate_range_spec(3) [OF 4(1), of start len] by (auto simp: restrict_map_def split: if_splits)
qed simp

interpretation soft: code_invalidation SoftInvalidateRange "\<lambda>start len. untouched (pages_of start len)"
proof (unfold_locales, goal_cases)
  case (1 g start len)
  then show ?case by (rule soft_invalidate_spec(1))
next
  case (2 g V start len)
  show ?case unfolding shared_ok_def untouched_def
    using 2 soft_invalidate_spec(2) [OF 2(1), of start len] indexed_off [OF map_okD(2) [OF 2(1)]]
    by (auto simp: restrict_map_def shared_ok_def split: if_splits)
next
  case (3 g start len)
  show ?case using 3(2) soft_invalidate_spec(2,3) [OF 3(1), of start len]
    by (auto simp: entries_ok_def restrict_map_def retains_def hashed_def split: if_splits option.splits)
next
  case (4 g start len a e)
  then show ?case using soft_invalidate_spec(3) [OF 4(1), of start len]
    by (auto simp: restrict_map_def retains_def split: if_splits option.splits)
qed simp

interpretation precise: code_invalidation "\<lambda>start len g. snd (InvalidateRangePrecise start len g)" not_overlapping
proof (unfold_locales, goal_cases)
  case (1 g start len)
  then show ?case by (rule precise_spec(1) [OF _ prod.collapse [symmetric]])
next
  case (2 g V start len)
  show ?case unfolding shared_ok_def not_overlapping_def
    using 2(2) precise_spec(2) [OF 2(1) prod.collapse [symmetric], of start len]
      indexed_off [OF map_okD(2) [OF 2(1)], where P = "pages_of start len"]
    by (fastforce simp: restrict_map_def shared_ok_def victims_def split: if_splits)
next
  case (3 g start len)
  show ?case using 3(2) precise_spec(2,4) [OF 3(1) prod.collapse [symmetric], of start len]
    by (auto simp: entries_ok_def restrict_map_def split: if_splits)
next
  case (4 g start len a e)
  then show ?case using precise_spec(4) [OF 4(1) prod.collapse [symmetric], of start len] by (auto simp: restrict_map_def split: if_splits)
qed (auto simp: untouched_def not_overlapping_def)

end
