(* ===== verification/CodeReach.thy ===== *)
theory CodeReach
  imports CodeManagerSpec
begin

text \<open>
  Registration of compiled units and the reachable states of the code manager: buffers come and
  go, threads compile, look blocks up, relink and invalidate in any order. The history of a
  state lists the registrations and invalidations, newest first.
\<close>

section \<open>Registration of pages\<close>

lemma PageOf_last:
  assumes "take_bit 12 p = (0 :: u64)"
  shows "PageOf (p + 4096 - 1) = PageOf p"
proof -
  have "p AND 4095 = 0" using assms by (simp add: take_bit_eq_mask mask_eq_exp_minus_1)
  then have "p + 4096 - 1 = p OR 4095" using word_plus_and_or [of p 4095] by simp
  then show ?thesis by (simp add: PageOf_def drop_bit_or)
qed

lemma aligned_page_list: "take_bit 12 p = 0 \<Longrightarrow> page_list (PageOf p) (PageOf (p + 4096 - 1)) = [PageOf p]"
  unfolding PageOf_last by (simp add: page_list_def)

lemma register_pages_ok:
  assumes "map_ok g" "\<And>n. grant n" "\<forall>p \<in> set pages. take_bit 12 p = 0"
    and "register_pages grant entries rs rl pages g = (new, g')"
  shows "map_ok g'" "BlockList g' = BlockList g" "RetainedBlocks g' = RetainedBlocks g"
    "p \<in> set pages \<Longrightarrow> a \<in> set entries \<Longrightarrow> a \<in> listed (CodePages g') (PageOf p)"
    "\<lbrakk>Enabled (CodeGranules g'); p \<in> set pages; p < kMaxAddress; extent_byte p rs rl x\<rbrakk> \<Longrightarrow> marked (CodeGranules g') x"
proof -
  define step where "step = (\<lambda>page (new, g). case AddBlockExecutableRange grant entries page 4096 rs rl g of
             (fresh, g') \<Rightarrow> (if fresh then new @ [page] else (new :: u64 list), g'))"
  define grown where "grown = (\<lambda>(g :: guest_map) (g' :: guest_map). BlockList g' = BlockList g \<and> RetainedBlocks g' = RetainedBlocks g \<and>
     Enabled (CodeGranules g') = Enabled (CodeGranules g) \<and> (\<forall>x. marked (CodeGranules g) x \<longrightarrow> marked (CodeGranules g') x) \<and>
     (\<forall>q. listed (CodePages g) q \<subseteq> listed (CodePages g') q))"
  define has where "has = (\<lambda>(g :: guest_map) p. set entries \<subseteq> listed (CodePages g) (PageOf p) \<and>
     (\<forall>x. Enabled (CodeGranules g) \<longrightarrow> p < kMaxAddress \<longrightarrow> extent_byte p rs rl x \<longrightarrow> marked (CodeGranules g) x))"
  have trans: "grown g1 g3" if "grown g1 g2" "grown g2 g3" for g1 g2 g3
    using that unfolding grown_def by (simp add: subset_eq)
  have keep: "has g2 p" if "has g1 p" "grown g1 g2" for g1 g2 p
    using that unfolding has_def grown_def by (simp add: subset_eq)
  have run: "map_ok g' \<and> grown g g' \<and> (\<forall>p \<in> set pages. has g' p)"
    if "map_ok g" "\<forall>p \<in> set pages. take_bit 12 p = 0" "fold step pages (old, g) = (new, g')" for old pages g
    using that
  proof (induction pages arbitrary: old g)
    case (Cons page pages)
    obtain fresh g1 where r: "AddBlockExecutableRange grant entries page 4096 rs rl g = (fresh, g1)" by fastforce
    have al: "take_bit 12 page = 0" using Cons.prems(2) by simp
    note one = add_range_ok [OF Cons.prems(1), where grant = grant, OF assms(2) r [unfolded AddBlockExecutableRange_def],
        unfolded aligned_page_list [OF al]]
    have ok: "map_ok g1" using one by blast
    have g1: "grown g g1" unfolding grown_def using one by auto
    have h1: "has g1 page" unfolding has_def using one al by auto
    have "fold step pages (if fresh then old @ [page] else old, g1) = (new, g')"
      using Cons.prems(3) r by (simp add: step_def)
    then have "map_ok g' \<and> grown g1 g' \<and> (\<forall>p \<in> set pages. has g' p)" by (rule Cons.IH [OF ok, rotated]) (use Cons.prems(2) in simp)
    then show ?case using trans [OF g1] keep [OF h1] by simp
  qed (simp add: grown_def)
  have r: "map_ok g' \<and> grown g g' \<and> (\<forall>p \<in> set pages. has g' p)"
    by (rule run [OF assms(1,3), of "[]"]) (use assms(4) in \<open>simp add: register_pages_def step_def\<close>)
  show "map_ok g'" "BlockList g' = BlockList g" "RetainedBlocks g' = RetainedBlocks g"
    "p \<in> set pages \<Longrightarrow> a \<in> set entries \<Longrightarrow> a \<in> listed (CodePages g') (PageOf p)"
    "\<lbrakk>Enabled (CodeGranules g'); p \<in> set pages; p < kMaxAddress; extent_byte p rs rl x\<rbrakk> \<Longrightarrow> marked (CodeGranules g') x"
    using r unfolding grown_def has_def by blast+
qed

section \<open>Registration of blocks\<close>

lemma block_entry_eta:
  "\<lparr>HostCode = HostCode e, BlockBegin = BlockBegin e, EntryCodePages = EntryCodePages e, GuestRangeStart = GuestRangeStart e,
    GuestRangeLength = GuestRangeLength e, GuestHash = GuestHash e, ExtentStart = ExtentStart e, ExtentLength = ExtentLength e\<rparr> = e"
  by (cases e) simp

lemma cache_add_eq: "CacheAddBlockMapping a e g c = (g\<lparr>BlockList := (BlockList g)(a \<mapsto> e)\<rparr>, CacheBlockMapping a e True c)"
  by (simp add: CacheAddBlockMapping_def AddBlockMapping_def block_entry_eta)

text \<open>An entry may be registered for an address that its pages list and whose bytes are marked.\<close>

definition registrable :: "guest_map \<Rightarrow> u64 \<Rightarrow> block_entry \<Rightarrow> bool" where
  "registrable g a e \<longleftrightarrow> entry_ok e \<and> (\<forall>p \<in> set (EntryCodePages e). a \<in> listed (CodePages g) (PageOf p)) \<and>
     (\<forall>p \<in> set (EntryCodePages e). \<forall>x. Enabled (CodeGranules g) \<longrightarrow> p < kMaxAddress \<longrightarrow> take_bit 12 p = 0 \<longrightarrow>
        extent_byte p (ExtentStart e) (ExtentLength e) x \<longrightarrow> marked (CodeGranules g) x)"

lemma add_block_ok:
  assumes "buffer_ok V g" "cache_ok V c" "registrable g a e" "(a, e) \<in> V" "CacheAddBlockMapping a e g c = (g', c')"
  shows "buffer_ok V g'" "cache_ok V c'" "CodePages g' = CodePages g" "CodeGranules g' = CodeGranules g"
    "BlockList g' = (BlockList g)(a \<mapsto> e)"
proof -
  have g': "g' = g\<lparr>BlockList := (BlockList g)(a \<mapsto> e)\<rparr>" "c' = CacheBlockMapping a e True c"
    using assms(5) by (simp_all add: cache_add_eq)
  have "map_ok (AddBlockMapping a (BlockBegin e) (EntryCodePages e) (HostCode e) (GuestRangeStart e) (GuestRangeLength e)
        (GuestHash e) (ExtentStart e) (ExtentLength e) g)"
    by (rule add_mapping_ok) (use assms(1,3) in \<open>auto simp: buffer_ok_def registrable_def\<close>)
  then have "map_ok g'" by (simp add: AddBlockMapping_def g' block_entry_eta)
  then show "buffer_ok V g'"
    using assms(1,3,4) by (auto simp: buffer_ok_def shared_ok_def entries_ok_def registrable_def g')
  show "cache_ok V c'" using cache_mapping_ok [OF assms(2,4)] by (simp add: g')
qed (use assms(5) in \<open>auto simp: cache_add_eq\<close>)

lemma add_blocks_ok:
  assumes "buffer_ok V g" "cache_ok V c" "\<forall>x \<in> set l. registrable g (fst x) (E x) \<and> (fst x, E x) \<in> V"
    and "fold (\<lambda>x (g, c). CacheAddBlockMapping (fst x) (E x) g c) l (g, c) = (g', c')"
  shows "buffer_ok V g'" "cache_ok V c'"
    "BlockList g' a = (if a \<in> fst ` set l then Some (E (last (filter (\<lambda>x. fst x = a) l))) else BlockList g a)"
proof -
  have "buffer_ok V g' \<and> cache_ok V c' \<and>
    (\<forall>a. BlockList g' a = (if a \<in> fst ` set l then Some (E (last (filter (\<lambda>x. fst x = a) l))) else BlockList g a))"
    using assms
  proof (induction l arbitrary: g c)
    case (Cons x l)
    obtain g1 c1 where r: "CacheAddBlockMapping (fst x) (E x) g c = (g1, c1)" by fastforce
    note one = add_block_ok [OF Cons.prems(1,2) _ _ r]
    have x: "registrable g (fst x) (E x)" "(fst x, E x) \<in> V" using Cons.prems(3) by simp_all
    have l: "\<forall>x \<in> set l. registrable g1 (fst x) (E x) \<and> (fst x, E x) \<in> V"
      using Cons.prems(3) one(3,4) [OF x] by (simp add: registrable_def)
    have "fold (\<lambda>x (g, c). CacheAddBlockMapping (fst x) (E x) g c) l (g1, c1) = (g', c')" using Cons.prems(4) r by simp
    from Cons.IH [OF one(1,2) [OF x] l this] one(5) [OF x] show ?case
      by (auto simp: filter_empty_conv image_iff)
  qed simp
  then show "buffer_ok V g'" "cache_ok V c'"
    "BlockList g' a = (if a \<in> fst ` set l then Some (E (last (filter (\<lambda>x. fst x = a) l))) else BlockList g a)" by simp_all
qed

text \<open>The entry that \<open>CompileBlock\<close> registers for each entry point of a unit.\<close>

definition compiled_entry :: "bool \<Rightarrow> (u64 list \<Rightarrow> u64 \<Rightarrow> u64 \<Rightarrow> u64) \<Rightarrow> u64 list \<Rightarrow> u64 \<Rightarrow> u64 \<Rightarrow> u64 \<Rightarrow> u64 \<Rightarrow> block_entry" where
  "compiled_entry soft hash pages start len bbegin host =
     (let hashable = soft \<and> IsHashableBlock len (length pages) in
      \<lparr>HostCode = host, BlockBegin = bbegin, EntryCodePages = pages, GuestRangeStart = start,
       GuestRangeLength = if hashable then len else 0, GuestHash = if hashable then hash pages start len else 0,
       ExtentStart = start, ExtentLength = len\<rparr>)"

lemma compiled_entry_sel [simp]:
  "HostCode (compiled_entry soft hash pages start len bb host) = host"
  "EntryCodePages (compiled_entry soft hash pages start len bb host) = pages"
  "ExtentStart (compiled_entry soft hash pages start len bb host) = start"
  "ExtentLength (compiled_entry soft hash pages start len bb host) = len"
  by (simp_all add: compiled_entry_def Let_def)

lemma compile_ok:
  assumes ok: "buffer_ok V g" "cache_ok V c" and grant: "\<And>n. grant n"
    and pages: "\<forall>p \<in> set decoded. take_bit 12 p = 0" and hosts: "fst ` set hosts \<subseteq> set entries" "0 \<notin> snd ` set hosts"
    and run: "CompileBlock_register soft hash grant needs entries decoded start len bb hosts (g, c) = (new, g', c')"
    and V': "V' = V \<union> (\<lambda>(a, host). (a, compiled_entry soft hash (if needs then decoded else []) start len bb host)) ` set hosts"
  shows "buffer_ok V' g'" "cache_ok V' c'"
proof -
  define pp where "pp = (if needs then decoded else [])"
  define E where "E = (\<lambda>x :: u64 \<times> u64. compiled_entry soft hash pp start len bb (snd x))"
  define g1 where "g1 = (if needs then snd (register_pages grant entries start len pp g) else g)"
  have "V \<subseteq> V'" by (auto simp: V')
  note mono = buffer_ok_valid_mono [OF ok(1) this] cache_ok_valid_mono [OF ok(2) this]
  note reg = register_pages_ok [where grant = grant and g = g and pages = pp and entries = entries and rs = start and rl = len,
      OF _ grant _ prod.collapse [symmetric]]
  have g: "map_ok g" using ok(1) by (simp add: buffer_ok_def)
  have pp: "\<forall>p \<in> set pp. take_bit 12 p = 0" using pages by (simp add: pp_def)
  have g1: "buffer_ok V' g1" using mono(1) reg(1-3) [OF g pp]
    by (simp add: g1_def buffer_ok_def shared_ok_def entries_ok_def)
  have E: "entry_ok (E x)" if "x \<in> set hosts" for x
    using hosts(2) that pp by (auto simp: E_def entry_ok_def compiled_entry_def Let_def image_iff)
  have "registrable g1 (fst x) (E x) \<and> (fst x, E x) \<in> V'" if x: "x \<in> set hosts" for x
  proof
    show "(fst x, E x) \<in> V'" using x by (force simp: V' E_def pp_def)
    have "fst x \<in> set entries" using hosts(1) x by auto
    then show "registrable g1 (fst x) (E x)"
      using E [OF x] reg(4,5) [OF g pp] by (cases needs) (simp_all add: registrable_def E_def g1_def pp_def)
  qed
  moreover have "fold (\<lambda>x (g, c). CacheAddBlockMapping (fst x) (E x) g c) hosts (g1, c) = (g', c')"
    using run by (auto simp: CompileBlock_register_def E_def g1_def pp_def compiled_entry_def Let_def case_prod_unfold cong: if_cong)
  ultimately show "buffer_ok V' g'" "cache_ok V' c'" using add_blocks_ok(1,2) [OF g1 mono(2)] by blast+
qed

section \<open>Relinking\<close>

text \<open>Every branch of \<open>TryRelinkSoftInvalidatedBlock\<close>, by the retained entry and its two hashes.\<close>

lemma relink_cases:
  assumes "TryRelinkSoftInvalidatedBlock xxh vo grant mem0 mem1 rip (g, c) = (h, new, churn, g', c')"
  obtains (none) "RetainedBlocks g rip = None" "h = 0" "g' = g" "c' = c" "new = []" "churn = []"
  | (dropped) e where "RetainedBlocks g rip = Some e" "h = 0" "g' = snd (TakeRetainedBlock rip g)" "c' = c" "new = []"
      "HashGuestBlock xxh mem0 (EntryCodePages e) (GuestRangeStart e) (GuestRangeLength e) \<noteq> GuestHash e \<or>
       list_ex vo (EntryCodePages e)"
  | (lost) e where "RetainedBlocks g rip = Some e" "h = 0" "c' = c" "\<not> list_ex vo (EntryCodePages e)"
      "register_pages grant [rip] (GuestRangeStart e) (GuestRangeLength e) (EntryCodePages e) (snd (TakeRetainedBlock rip g)) = (new, g')"
      "HashGuestBlock xxh mem1 (EntryCodePages e) (GuestRangeStart e) (GuestRangeLength e) \<noteq> GuestHash e"
  | (relinked) e g2 where "RetainedBlocks g rip = Some e" "h = HostCode e" "\<not> list_ex vo (EntryCodePages e)"
      "register_pages grant [rip] (GuestRangeStart e) (GuestRangeLength e) (EntryCodePages e) (snd (TakeRetainedBlock rip g)) = (new, g2)"
      "HashGuestBlock xxh mem0 (EntryCodePages e) (GuestRangeStart e) (GuestRangeLength e) = GuestHash e"
      "HashGuestBlock xxh mem1 (EntryCodePages e) (GuestRangeStart e) (GuestRangeLength e) = GuestHash e"
      "CacheAddBlockMapping rip e g2 c = (g', c')"
proof (cases "RetainedBlocks g rip")
  case None
  then have t: "TakeRetainedBlock rip g = (None, g)" by (simp add: TakeRetainedBlock_def)
  have "(0, [], [], g, c) = (h, new, churn, g', c')"
    using assms unfolding TryRelinkSoftInvalidatedBlock_def prod.case t option.case .
  then show ?thesis by (intro none [OF None]) simp_all
next
  case (Some e)
  obtain g1 where t: "TakeRetainedBlock rip g = (Some e, g1)" using Some by (simp add: TakeRetainedBlock_def Let_def)
  obtain new' g2 where r: "register_pages grant [rip] (GuestRangeStart e) (GuestRangeLength e) (EntryCodePages e) g1 = (new', g2)"
    by fastforce
  define H0 where "H0 \<longleftrightarrow> HashGuestBlock xxh mem0 (EntryCodePages e) (GuestRangeStart e) (GuestRangeLength e) \<noteq> GuestHash e"
  define H1 where "H1 \<longleftrightarrow> HashGuestBlock xxh mem1 (EntryCodePages e) (GuestRangeStart e) (GuestRangeLength e) \<noteq> GuestHash e"
  define VO where "VO \<longleftrightarrow> list_ex vo (EntryCodePages e)"
  obtain g3 c3 where a: "CacheAddBlockMapping rip e g2 c = (g3, c3)" by fastforce
  define R where "R = [(GuestRangeStart e, GuestRangeLength e)]"
  have run: "(if H0 then (0, [], R, g1, c) else if VO then (0, [], [], g1, c)
      else if H1 then (0, new', R, g2, c) else (HostCode e, new', [], g3, c3)) = (h, new, churn, g', c')"
    using assms unfolding TryRelinkSoftInvalidatedBlock_def prod.case t option.case r Let_def a H0_def H1_def VO_def R_def .
  show ?thesis
  proof (cases "H0 \<or> VO")
    case True
    then have "h = 0" "new = []" "g' = g1" "c' = c" using run by (auto split: if_splits)
    then show ?thesis using dropped [OF Some] True by (simp add: t H0_def VO_def)
  next
    case no: False
    show ?thesis
    proof (cases H1)
      case True
      then have "h = 0" "new = new'" "g' = g2" "c' = c" using run no by simp_all
      then show ?thesis using lost [OF Some] True no r by (simp add: t H1_def VO_def)
    next
      case False
      then have "h = HostCode e" "new = new'" "g' = g3" "c' = c3" using run no by simp_all
      then show ?thesis using relinked [OF Some] False no r a by (simp add: t H0_def H1_def VO_def)
    qed
  qed
qed

lemma take_buffer_ok: "buffer_ok V g \<Longrightarrow> buffer_ok V (snd (TakeRetainedBlock a g))"
  using take_retained_ok [OF _ prod.collapse [symmetric], of g a]
  by (simp add: buffer_ok_def shared_ok_def entries_ok_def)

lemma register_buffer_ok:
  assumes "buffer_ok V g" "\<And>n. grant n" "\<forall>p \<in> set pages. take_bit 12 p = 0"
    "register_pages grant entries rs rl pages g = (new, g')"
  shows "buffer_ok V g'"
  using register_pages_ok(1-3) [OF _ assms(2-4)] assms(1) by (simp add: buffer_ok_def shared_ok_def entries_ok_def)

lemma relink_ok:
  assumes ok: "buffer_ok V g" "cache_ok V c" and grant: "\<And>n. grant n"
    and run: "TryRelinkSoftInvalidatedBlock xxh vo grant mem0 mem1 rip (g, c) = (h, new, churn, g', c')"
    and V': "V' = (if h = 0 then V else insert (rip, the (RetainedBlocks g rip)) V)"
  shows "buffer_ok V' g' \<and> cache_ok V' c'"
  using run
proof (cases rule: relink_cases)
  case none
  then show ?thesis using ok V' by simp
next
  case (dropped e)
  then show ?thesis using take_buffer_ok [OF ok(1)] ok(2) V' by simp
next
  case (lost e)
  have "entry_ok e" using ok(1) lost(1) by (simp add: buffer_ok_def entries_ok_def)
  then show ?thesis using register_buffer_ok [OF take_buffer_ok [OF ok(1)] grant _ lost(5)] ok(2) V' lost(2,3) by (simp add: entry_ok_def)
next
  case (relinked e g2)
  have e: "entry_ok e" "hashed e" using ok(1) relinked(1) by (simp_all add: buffer_ok_def entries_ok_def)
  then have al: "\<forall>p \<in> set (EntryCodePages e). take_bit 12 p = 0" by (simp add: entry_ok_def)
  have V: "V' = insert (rip, e) V" using V' relinked(1,2) e(1) by (simp add: entry_ok_def)
  then have sub: "V \<subseteq> V'" by auto
  have b1: "buffer_ok V (snd (TakeRetainedBlock rip g))" by (rule take_buffer_ok [OF ok(1)])
  then have "map_ok (snd (TakeRetainedBlock rip g))" by (simp add: buffer_ok_def)
  note reg = register_pages_ok(4,5) [OF this grant al relinked(4)]
  have "registrable g2 rip e"
    using reg e unfolding registrable_def by (auto simp: entry_ok_def hashed_def)
  then show ?thesis
    using add_block_ok(1,2) [OF buffer_ok_valid_mono [OF register_buffer_ok [OF b1 grant al relinked(4)] sub]
        cache_ok_valid_mono [OF ok(2) sub] _ _ relinked(7)] V by simp
qed

section \<open>Histories\<close>

text \<open>
  A relink is logged with the hash that its last check computed from guest memory. Compiled and relinked
  entries both count as registered.
\<close>

datatype code_event = Registered u64 block_entry | Relinked u64 block_entry u64 | Invalidated u64 u64 | InvalidatedPrecise u64 u64

fun registers :: "code_event \<Rightarrow> u64 \<Rightarrow> block_entry \<Rightarrow> bool" where
  "registers (Registered a e) b f \<longleftrightarrow> a = b \<and> e = f"
| "registers (Relinked a e digest) b f \<longleftrightarrow> a = b \<and> e = f"
| "registers (Invalidated start len) b f = False"
| "registers (InvalidatedPrecise start len) b f = False"

primrec valid :: "code_event list \<Rightarrow> (u64 \<times> block_entry) set" where
  "valid [] = {}"
| "valid (ev # log) =
     (case ev of
        Registered a e \<Rightarrow> insert (a, e) (valid log)
      | Relinked a e digest \<Rightarrow> insert (a, e) (valid log)
      | Invalidated start len \<Rightarrow> untouched (pages_of start len) (valid log)
      | InvalidatedPrecise start len \<Rightarrow> not_overlapping start len (valid log))"

text \<open>The invalidation of an entry: of one of its pages, and in the precise form of its extent.\<close>

fun kills :: "code_event \<Rightarrow> block_entry \<Rightarrow> bool" where
  "kills (Registered a e') e = False"
| "kills (Relinked a e' digest) e = False"
| "kills (Invalidated start len) e \<longleftrightarrow> (\<exists>p \<in> set (EntryCodePages e). PageOf p \<in> pages_of start len)"
| "kills (InvalidatedPrecise start len) e \<longleftrightarrow>
     (\<exists>p \<in> set (EntryCodePages e). PageOf p \<in> pages_of start len) \<and> EntryOverlaps e start (start + len)"

definition current :: "code_event list \<Rightarrow> u64 \<Rightarrow> block_entry \<Rightarrow> bool" where
  "current log a e \<longleftrightarrow> (\<exists>newer ev older. log = newer @ ev # older \<and> registers ev a e \<and> (\<forall>ev \<in> set newer. \<not> kills ev e))"

lemma current_Cons:
  "current (ev # log) a e \<longleftrightarrow> registers ev a e \<or> (current log a e \<and> \<not> kills ev e)"
proof
  show "current (ev # log) a e \<Longrightarrow> registers ev a e \<or> (current log a e \<and> \<not> kills ev e)"
    unfolding current_def by (fastforce simp: Cons_eq_append_conv)
  have "current (ev # log) a e" if "current log a e" "\<not> kills ev e"
    using that unfolding current_def by (metis append_Cons set_ConsD)
  moreover have "current (ev # log) a e" if "registers ev a e" using that unfolding current_def by (metis append_Nil emptyE empty_set)
  ultimately show "registers ev a e \<or> (current log a e \<and> \<not> kills ev e) \<Longrightarrow> current (ev # log) a e" by blast
qed

lemma valid_current: "(a, e) \<in> valid log \<longleftrightarrow> current log a e"
proof (induction log)
  case (Cons ev log)
  then show ?case by (cases ev) (auto simp: current_Cons untouched_def not_overlapping_def)
qed (simp add: current_def)

lemma valid_registered: "valid (rev (map (\<lambda>(a, e). Registered a e) l) @ log) = set l \<union> valid log"
  by (induction l arbitrary: log) auto

section \<open>Reachable states\<close>

definition relinked_event :: "(u8 list \<Rightarrow> u64 \<Rightarrow> u64) \<Rightarrow> (u64 \<Rightarrow> u8) \<Rightarrow> u64 \<Rightarrow> block_entry \<Rightarrow> code_event" where
  "relinked_event xxh mem a e = Relinked a e (HashGuestBlock xxh mem (EntryCodePages e) (GuestRangeStart e) (GuestRangeLength e))"

definition no_code :: "bool \<Rightarrow> bool \<Rightarrow> code_state" where
  "no_code cheap shadow =
     \<lparr>Buffers = (\<lambda>_. None), CodeBufferList = [], LiveCodeBufferCount = 0, Threads = [], SMCPageCounters = (\<lambda>_. (0, 0)),
      SMCCheapTier = cheap, ShadowRetStack = shadow\<rparr>"

text \<open>A step of thread \<open>t\<close> on its buffer \<open>i\<close>.\<close>

definition thread_step :: "nat \<Rightarrow> nat \<Rightarrow> guest_map \<Rightarrow> lookup_cache \<Rightarrow> code_state \<Rightarrow> code_state" where
  "thread_step t i g c s = s\<lparr>Buffers := (Buffers s)(i \<mapsto> g), Threads := (Threads s)[t := (Threads s ! t)\<lparr>Cache := c\<rparr>]\<rparr>"

definition runs :: "code_state \<Rightarrow> nat \<Rightarrow> nat \<Rightarrow> guest_map \<Rightarrow> lookup_cache \<Rightarrow> bool" where
  "runs s t i g c \<longleftrightarrow> t < length (Threads s) \<and> BufferIndex (Threads s ! t) = i \<and> Cache (Threads s ! t) = c \<and> Buffers s i = Some g"

definition new_thread :: "nat \<Rightarrow> bool \<Rightarrow> bool \<Rightarrow> code_thread" where
  "new_thread i dyn noL2 =
     \<lparr>BufferIndex = i, Cache = new_lookup_cache dyn noL2, ExecutableRange = (0, 0), CallRetStack = (\<lambda>_. 0)\<rparr>"

inductive reach :: "code_state \<Rightarrow> code_event list \<Rightarrow> bool" where
  init: "reach (no_code cheap shadow) []"
| allocate: "\<lbrakk>reach s log; Buffers s i = None; i \<notin> set (CodeBufferList s)\<rbrakk> \<Longrightarrow>
    reach (OnCodeBufferAllocated i (s\<lparr>Buffers := (Buffers s)(i \<mapsto> GuestToHostMap tracking grant)\<rparr>)) log"
| release: "\<lbrakk>reach s log; i \<notin> BufferIndex ` set (Threads s)\<rbrakk> \<Longrightarrow> reach (s\<lparr>Buffers := (Buffers s)(i := None)\<rparr>) log"
| spawn: "\<lbrakk>reach s log; Buffers s i \<noteq> None\<rbrakk> \<Longrightarrow>
    reach (s\<lparr>Threads := Threads s @ [new_thread i dyn noL2]\<rparr>) log"
| exit: "reach s log \<Longrightarrow> reach (s\<lparr>Threads := take t (Threads s) @ drop (Suc t) (Threads s)\<rparr>) log"
| switch: "\<lbrakk>reach s log; runs s t i g c; Buffers s j \<noteq> None\<rbrakk> \<Longrightarrow>
    reach (s\<lparr>Threads := (Threads s)[t := switch_buffer j (Threads s ! t)]\<rparr>) log"
| compile: "\<lbrakk>reach s log; runs s t i g c; \<forall>n. grant n; \<forall>p \<in> set decoded. take_bit 12 p = 0;
     fst ` set hosts \<subseteq> set entries; 0 \<notin> snd ` set hosts;
     CompileBlock_register soft hash grant needs entries decoded start len bb hosts (g, c) = (new, g', c')\<rbrakk> \<Longrightarrow>
    reach (thread_step t i g' c' s)
      (rev (map (\<lambda>(a, e). Registered a e)
         (map (\<lambda>(a, h). (a, compiled_entry soft hash (if needs then decoded else []) start len bb h)) hosts)) @ log)"
| relink: "\<lbrakk>reach s log; runs s t i g c; \<forall>n. grant n;
     TryRelinkSoftInvalidatedBlock xxh vo grant mem0 mem1 rip (g, c) = (h, new, churn, g', c')\<rbrakk> \<Longrightarrow>
    reach (fold (\<lambda>(start, len). RecordCodeRangeInvalidation start len) churn (thread_step t i g' c' s)) (if h = 0 then log else relinked_event xxh mem1 rip (the (RetainedBlocks g rip)) # log)"
| lookup: "\<lbrakk>reach s log; runs s t i g c; FindBlock hot cold now a g c = (h, c')\<rbrakk> \<Longrightarrow>
    reach (thread_step t i g c' s) log"
| invalidate: "reach s log \<Longrightarrow> reach (InvalidateGuestCodeRange start len s) (Invalidated start len # log)"
| soft_invalidate: "reach s log \<Longrightarrow> reach (snd (SoftInvalidateGuestCodeRange start len s)) (Invalidated start len # log)"
| precise: "reach s log \<Longrightarrow> reach (InvalidateGuestCodeRangePrecise start len s) (InvalidatedPrecise start len # log)"
| probe: "\<lbrakk>reach s log; GuestRangeProvablyHasNoCode t start len s = (clear, s')\<rbrakk> \<Longrightarrow> reach s' log"

lemma state_okD:
  assumes "state_ok V s"
  shows "distinct (CodeBufferList s)" "dom (Buffers s) \<subseteq> set (CodeBufferList s)" "LiveCodeBufferCount s = length (CodeBufferList s)"
    "Buffers s i = Some g \<Longrightarrow> buffer_ok V g" "t \<in> set (Threads s) \<Longrightarrow> BufferIndex t \<in> dom (Buffers s) \<and> cache_ok V (Cache t)"
  using assms by (simp_all add: state_ok_def)

lemma runs_ok: "\<lbrakk>state_ok V s; runs s t i g c\<rbrakk> \<Longrightarrow> buffer_ok V g \<and> cache_ok V c"
  using state_okD(4) [of V s i g] state_okD(5) [of V s "Threads s ! t"] by (auto simp: runs_def dest: nth_mem)

lemma thread_step_ok:
  assumes ok: "state_ok V s" and run: "runs s t i g c" and sub: "V \<subseteq> V'" and new: "buffer_ok V' g'" "cache_ok V' c'"
  shows "state_ok V' (thread_step t i g' c' s)"
proof -
  have i: "i \<in> dom (Buffers s)" using run by (auto simp: runs_def)
  have b: "buffer_ok V' x" if "((Buffers s)(i \<mapsto> g')) j = Some x" for j x
    using that new(1) buffer_ok_valid_mono [OF state_okD(4) [OF ok, of j x] sub] by (auto split: if_splits)
  have th: "BufferIndex x \<in> dom (Buffers s) \<and> cache_ok V' (Cache x)"
    if "x \<in> set ((Threads s)[t := (Threads s ! t)\<lparr>Cache := c'\<rparr>])" for x
    using set_update_subset_insert [of "Threads s" t "(Threads s ! t)\<lparr>Cache := c'\<rparr>"] that new(2) i run state_okD(5) [OF ok, of x]
      cache_ok_valid_mono [OF _ sub, of "Cache x"] by (auto simp: runs_def)
  have "dom ((Buffers s)(i \<mapsto> g')) = dom (Buffers s)" using i by auto
  then show ?thesis using state_okD(1-3) [OF ok] b th unfolding state_ok_def thread_step_def by simp
qed

lemma state_ok_record [simp]: "state_ok V (RecordCodeRangeInvalidation start len s) = state_ok V s"
  by (simp add: RecordCodeRangeInvalidation_def state_ok_def)

lemma state_ok_records [simp]: "state_ok V (fold (\<lambda>(start, len). RecordCodeRangeInvalidation start len) l s) = state_ok V s"
  by (induction l arbitrary: s) (simp_all add: case_prod_beta)

lemma probe_ok:
  assumes ok: "state_ok V s" and run: "GuestRangeProvablyHasNoCode t start len s = (clear, s')"
  shows "state_ok V s'" "Buffers s' = Buffers s" "Threads s' = Threads s"
proof -
  note o = on_buffers_spec [OF state_okD(1,2) [OF ok], of id]
  have same: "s' = s \<or> s' = on_buffers id s"
    using run by (auto simp: GuestRangeProvablyHasNoCode_def Let_def split: if_splits option.splits)
  have B: "Buffers (on_buffers id s) = Buffers s" by (simp add: o(1) option.map_id0)
  then show "Buffers s' = Buffers s" "Threads s' = Threads s" using same o(4) by auto
  have "state_ok V (on_buffers id s)"
    using ok state_okD(2) [OF ok] unfolding state_ok_def B o(3,4) by (auto simp: o(2))
  then show "state_ok V s'" using same ok by blast
qed

lemma take_drop_subset: "set (take t xs @ drop (Suc t) xs) \<subseteq> set xs"
  by (auto dest: in_set_takeD in_set_dropD)

lemma reach_ok:
  assumes "reach s log"
  shows "state_ok (valid log) s \<and> (\<forall>a e. (a, e) \<in> valid log \<longrightarrow> HostCode e \<noteq> 0)"
  using assms
proof (induction rule: reach.induct)
  case init
  then show ?case by (simp add: state_ok_def no_code_def)
next
  case (allocate s log i tracking grant)
  have "buffer_ok (valid log) (GuestToHostMap tracking grant)"
    unfolding buffer_ok_def by (simp add: new_map_ok) (simp add: shared_ok_def entries_ok_def GuestToHostMap_def)
  then show ?case using allocate by (auto simp: state_ok_def OnCodeBufferAllocated_def Let_def)
next
  case (release s log i)
  then show ?case by (auto simp: state_ok_def domIff image_iff)
next
  case (spawn s log i dyn noL2)
  then show ?case by (auto simp: state_ok_def new_cache_ok new_thread_def)
next
  case (exit s log t)
  then show ?case using take_drop_subset [of t "Threads s"] unfolding state_ok_def by auto
next
  case (switch s log t i g c j)
  have "cache_ok (valid log) c" using runs_ok [OF _ switch(2), of "valid log"] switch.IH by blast
  then have "cache_ok (valid log) (ChangeGuestToHostMapping c)"
    using clear_all_ok [of "valid log" c] by (simp add: ChangeGuestToHostMapping_def)
  then show ?case
    using switch.IH switch(2,3) set_update_subset_insert [of "Threads s" t "switch_buffer j (Threads s ! t)"]
    unfolding state_ok_def runs_def by (auto simp: switch_buffer_def)
next
  case (compile s log t i g c grant decoded hosts entries soft hash needs start len bb new g' c')
  define l where "l = map (\<lambda>(a, h). (a, compiled_entry soft hash (if needs then decoded else []) start len bb h)) hosts"
  have ok: "buffer_ok (valid log) g" "cache_ok (valid log) c" using runs_ok [OF _ compile(2), of "valid log"] compile.IH by simp_all
  have V: "set l \<union> valid log = valid log \<union>
    (\<lambda>(a, h). (a, compiled_entry soft hash (if needs then decoded else []) start len bb h)) ` set hosts"
    by (auto simp: l_def)
  note new = compile_ok [OF ok _ compile(4,5,6,7) V] 
  have "state_ok (set l \<union> valid log) (thread_step t i g' c' s)"
    using compile.IH compile(3) by (intro thread_step_ok [OF _ compile(2), of "valid log"] new) auto
  moreover have "\<forall>a e. (a, e) \<in> set l \<longrightarrow> HostCode e \<noteq> 0" using compile(6) by (auto simp: l_def image_iff)
  ultimately show ?case using compile.IH unfolding l_def [symmetric] valid_registered by blast
next
  case (relink s log t i g c grant xxh vo mem0 mem1 rip h new churn g' c')
  define V' where "V' = (if h = 0 then valid log else insert (rip, the (RetainedBlocks g rip)) (valid log))"
  have ok: "buffer_ok (valid log) g" "cache_ok (valid log) c" using runs_ok [OF _ relink(2), of "valid log"] relink.IH by simp_all
  have "buffer_ok V' g' \<and> cache_ok V' c'" using relink_ok [OF ok _ relink(4) V'_def] relink(3) by blast
  then have "state_ok V' (thread_step t i g' c' s)"
    using relink.IH by (intro thread_step_ok [OF _ relink(2), of "valid log"]) (auto simp: V'_def)
  moreover have "HostCode (the (RetainedBlocks g rip)) \<noteq> 0" if "h \<noteq> 0"
    using relink(4) by (rule relink_cases) (use that in auto)
  ultimately show ?case using relink.IH by (auto simp: V'_def relinked_event_def)
next
  case (lookup s log t i g c a hot cold now h c')
  have ok: "buffer_ok (valid log) g" "cache_ok (valid log) c" using runs_ok [OF _ lookup(2), of "valid log"] lookup.IH by simp_all
  have "cache_ok (valid log) c'" using find_block_ok(1) [OF ok(2) _ lookup(3)] ok(1) by (simp add: buffer_ok_def)
  then show ?case using lookup.IH thread_step_ok [OF _ lookup(2) order_refl ok(1)] by blast
next
  case (invalidate s log start len)
  then show ?case using hard.protocol [of "valid log" "RecordCodeRangeInvalidation start len s", where shadow = "ShadowRetStack s" and start = start and len = len]
    by (auto simp: InvalidateGuestCodeRange_def InvalidateCodeBuffersCodeRange_def untouched_def)
next
  case (soft_invalidate s log start len)
  then show ?case using soft.protocol [of "valid log" s, where shadow = "ShadowRetStack s" and start = start and len = len]
    by (auto simp: SoftInvalidateGuestCodeRange_def SoftInvalidateCodeBuffersCodeRange_def untouched_def)
next
  case (precise s log start len)
  then show ?case using precise.protocol [of "valid log" "RecordCodeRangeInvalidation start len s", where shadow = "ShadowRetStack s" and start = start and len = len]
    by (auto simp: InvalidateGuestCodeRangePrecise_def InvalidateCodeBuffersCodeRangePrecise_def not_overlapping_def)
next
  case (probe s log t start len clear s')
  then show ?case using probe_ok(1) by blast
qed

section \<open>Provenance\<close>

text \<open>
  Every relinked entry was compiled earlier for the same address, has a content hash, and the last hash of
  its relink equals the recorded one; and every retained entry was compiled for its address.
\<close>

primrec relinks_ok :: "code_event list \<Rightarrow> bool" where
  "relinks_ok [] = True"
| "relinks_ok (ev # log) \<longleftrightarrow>
     (case ev of Relinked a e digest \<Rightarrow> Registered a e \<in> set log \<and> hashed e \<and> digest = GuestHash e | _ \<Rightarrow> True) \<and> relinks_ok log"

definition retained_ok :: "code_event list \<Rightarrow> code_state \<Rightarrow> bool" where
  "retained_ok log s \<longleftrightarrow> (\<forall>i g a e. Buffers s i = Some g \<longrightarrow> RetainedBlocks g a = Some e \<longrightarrow> Registered a e \<in> set log)"

lemma relinks_ok_append: "relinks_ok (newer @ ev # older) \<Longrightarrow> relinks_ok (ev # older)"
  by (induction newer) auto

lemma relinks_ok_registered: "relinks_ok (rev (map (\<lambda>(a, e). Registered a e) l) @ log) = relinks_ok log"
  by (induction l arbitrary: log) (auto simp: case_prod_beta)

lemma valid_compiled: "relinks_ok log \<Longrightarrow> (a, e) \<in> valid log \<Longrightarrow> Registered a e \<in> set log"
proof (induction log)
  case (Cons ev log)
  then show ?case by (cases ev) (auto simp: untouched_def not_overlapping_def)
qed simp

lemma retained_okD: "\<lbrakk>retained_ok log s; Buffers s i = Some g; RetainedBlocks g a = Some e\<rbrakk> \<Longrightarrow> Registered a e \<in> set log"
  unfolding retained_ok_def by blast

text \<open>A step of one buffer that retains nothing new, in a history that only grows.\<close>

lemma retained_step:
  assumes "retained_ok log s" "runs s t i g c" "RetainedBlocks g' \<subseteq>\<^sub>m RetainedBlocks g" "set log \<subseteq> set log'"
  shows "retained_ok log' (thread_step t i g' c' s)"
proof -
  have "Registered a e \<in> set log'" if "((Buffers s)(i \<mapsto> g')) j = Some x" "RetainedBlocks x a = Some e" for j x a e
  proof (cases "j = i")
    case True
    then have "RetainedBlocks g a = Some e" using that assms(3) by (auto simp: map_le_def dom_def)
    then show ?thesis using retained_okD [OF assms(1)] assms(2,4) by (auto simp: runs_def)
  next
    case False
    then show ?thesis using that retained_okD [OF assms(1)] assms(4) by auto
  qed
  then show ?thesis unfolding retained_ok_def thread_step_def by simp
qed

lemma record_buffers [simp]: "Buffers (RecordCodeRangeInvalidation start len s) = Buffers s"
  by (simp add: RecordCodeRangeInvalidation_def)

lemma retained_records [simp]:
  "Buffers (fold (\<lambda>(start, len). RecordCodeRangeInvalidation start len) l s) = Buffers s"
  by (induction l arbitrary: s) (simp_all add: case_prod_beta)

lemma compile_retained:
  assumes "map_ok g" "\<forall>n. grant n" "\<forall>p \<in> set decoded. take_bit 12 p = 0"
    and "CompileBlock_register soft hash grant needs entries decoded start len bb hosts (g, c) = (new, g', c')"
  shows "RetainedBlocks g' = RetainedBlocks g"
proof -
  define pp where "pp = (if needs then decoded else [])"
  define E where "E = (\<lambda>x :: u64 \<times> u64. compiled_entry soft hash pp start len bb (snd x))"
  define g1 where "g1 = (if needs then snd (register_pages grant entries start len pp g) else g)"
  have add: "RetainedBlocks g' = RetainedBlocks g"
    if "fold (\<lambda>x (g, c). CacheAddBlockMapping (fst x) (E x) g c) l (g, c) = (g', c')" for l g c
    using that by (induction l arbitrary: g c) (auto simp: cache_add_eq)
  have "RetainedBlocks g1 = RetainedBlocks g"
    using register_pages_ok(3) [OF assms(1) _ assms(3) prod.collapse [symmetric]] assms(2) by (simp add: g1_def pp_def)
  moreover have "fold (\<lambda>x (g, c). CacheAddBlockMapping (fst x) (E x) g c) hosts (g1, c) = (g', c')"
    using assms(4) by (auto simp: CompileBlock_register_def E_def g1_def pp_def compiled_entry_def Let_def case_prod_unfold cong: if_cong)
  ultimately show ?thesis using add by simp
qed

lemma relink_retained:
  assumes "buffer_ok V g" "\<forall>n. grant n" "TryRelinkSoftInvalidatedBlock xxh vo grant mem0 mem1 rip (g, c) = (h, new, churn, g', c')"
  shows "RetainedBlocks g' \<subseteq>\<^sub>m RetainedBlocks g"
    "h \<noteq> 0 \<Longrightarrow> \<exists>e. RetainedBlocks g rip = Some e \<and> hashed e \<and> relinked_event xxh mem1 rip e = Relinked rip e (GuestHash e)"
proof -
  have ok: "map_ok g" "entries_ok g" using assms(1) by (simp_all add: buffer_ok_def)
  note t = take_retained_ok [OF ok(1) prod.collapse [symmetric], of rip]
  have sub: "RetainedBlocks (snd (TakeRetainedBlock rip g)) \<subseteq>\<^sub>m RetainedBlocks g" by (simp add: t(4) map_le_def)
  have al: "\<forall>p \<in> set (EntryCodePages e). take_bit 12 p = 0" "hashed e" if "RetainedBlocks g rip = Some e" for e
    using ok(2) that by (simp_all add: entries_ok_def entry_ok_def)
  note reg = register_pages_ok(3) [OF t(1), where grant = grant]
  have "RetainedBlocks g' \<subseteq>\<^sub>m RetainedBlocks g \<and>
    (h \<noteq> 0 \<longrightarrow> (\<exists>e. RetainedBlocks g rip = Some e \<and> hashed e \<and> relinked_event xxh mem1 rip e = Relinked rip e (GuestHash e)))"
    using assms(3)
  proof (cases rule: relink_cases)
    case (lost e)
    then show ?thesis using reg [OF _ al(1) lost(5)] sub assms(2) by simp
  next
    case (relinked e g2)
    then show ?thesis using reg [OF _ al(1) relinked(4)] al(2) sub assms(2) by (auto simp: cache_add_eq relinked_event_def)
  qed (use sub in auto)
  then show "RetainedBlocks g' \<subseteq>\<^sub>m RetainedBlocks g"
    "h \<noteq> 0 \<Longrightarrow> \<exists>e. RetainedBlocks g rip = Some e \<and> hashed e \<and> relinked_event xxh mem1 rip e = Relinked rip e (GuestHash e)" by blast+
qed

text \<open>A walk over the buffers after which each retains only what it retained or had listed.\<close>

lemma retained_walk:
  assumes "state_ok (valid log) s" "retained_ok log s" "relinks_ok log"
    and "\<And>i g' a e. \<lbrakk>Buffers s' i = Some g'; RetainedBlocks g' a = Some e\<rbrakk> \<Longrightarrow>
      \<exists>g. Buffers s i = Some g \<and> (RetainedBlocks g a = Some e \<or> BlockList g a = Some e)"
  shows "retained_ok (ev # log) s'"
proof -
  have "Registered a e \<in> set log" if hit: "Buffers s' i = Some g'" "RetainedBlocks g' a = Some e" for i g' a e
  proof -
    obtain g where g: "Buffers s i = Some g" "RetainedBlocks g a = Some e \<or> BlockList g a = Some e" using assms(4) [OF hit] by blast
    have "buffer_ok (valid log) g" by (rule state_okD(4) [OF assms(1) g(1)])
    then have "BlockList g a = Some e \<Longrightarrow> (a, e) \<in> valid log" by (simp add: buffer_ok_def shared_ok_def)
    then show ?thesis using g retained_okD [OF assms(2) g(1)] valid_compiled [OF assms(3)] by blast
  qed
  then show ?thesis unfolding retained_ok_def by auto
qed

lemma reach_provenance: "reach s log \<Longrightarrow> relinks_ok log \<and> retained_ok log s"
proof (induction rule: reach.induct)
  case init
  then show ?case by (simp add: retained_ok_def no_code_def)
next
  case (allocate s log i tracking grant)
  then show ?case by (auto simp: retained_ok_def OnCodeBufferAllocated_def Let_def GuestToHostMap_def)
next
  case (release s log i)
  then show ?case by (auto simp: retained_ok_def)
next
  case (compile s log t i g c grant decoded hosts entries soft hash needs start len bb new g' c')
  have "map_ok g" using runs_ok [OF _ compile(2)] reach_ok [OF compile(1)] by (auto simp: buffer_ok_def)
  note same = compile_retained [OF this compile(3,4,7)]
  show ?case unfolding relinks_ok_registered using retained_step [OF _ compile(2), of log g' _ c'] compile.IH by (simp add: same)
next
  case (relink s log t i g c grant xxh vo mem0 mem1 rip h new churn g' c')
  have "buffer_ok (valid log) g" using runs_ok [OF _ relink(2)] reach_ok [OF relink(1)] by blast
  note rel = relink_retained [OF this relink(3,4)]
  define log' where "log' = (if h = 0 then log else relinked_event xxh mem1 rip (the (RetainedBlocks g rip)) # log)"
  have "retained_ok log' (thread_step t i g' c' s)"
    by (rule retained_step [OF _ relink(2) rel(1)]) (use relink.IH in \<open>auto simp: log'_def\<close>)
  moreover have "Registered rip e \<in> set log" if "RetainedBlocks g rip = Some e" for e
    using retained_okD [of log s i g rip e] relink.IH relink(2) that by (auto simp: runs_def)
  then have "relinks_ok log'" using relink.IH rel(2) by (auto simp: log'_def)
  ultimately show ?case by (simp add: log'_def [symmetric] retained_ok_def)
next
  case (lookup s log t i g c a hot cold now h c')
  then show ?case using retained_step [OF _ lookup(2), of log g log c'] by simp
next
  case (invalidate s log start len)
  have "state_ok (valid log) (RecordCodeRangeInvalidation start len s)" using reach_ok [OF invalidate(1)] by simp
  note old = hard.buffers_retained [OF this, where start = start and len = len]
  show ?case
  proof (intro conjI retained_walk [of log s])
    fix i g' a e assume "Buffers (InvalidateGuestCodeRange start len s) i = Some g'" "RetainedBlocks g' a = Some e"
    then show "\<exists>g. Buffers s i = Some g \<and> (RetainedBlocks g a = Some e \<or> BlockList g a = Some e)"
      using old [of i g' a e] by (simp add: InvalidateGuestCodeRange_def InvalidateCodeBuffersCodeRange_def on_threads_def)
  qed (use invalidate.IH reach_ok [OF invalidate(1)] in auto)
next
  case (soft_invalidate s log start len)
  have "state_ok (valid log) s" using reach_ok [OF soft_invalidate(1)] by simp
  note old = soft.buffers_retained [OF this, where start = start and len = len]
  show ?case
  proof (intro conjI retained_walk [of log s])
    fix i g' a e assume "Buffers (snd (SoftInvalidateGuestCodeRange start len s)) i = Some g'" "RetainedBlocks g' a = Some e"
    then show "\<exists>g. Buffers s i = Some g \<and> (RetainedBlocks g a = Some e \<or> BlockList g a = Some e)"
      using old [of i g' a e] by (simp add: SoftInvalidateGuestCodeRange_def SoftInvalidateCodeBuffersCodeRange_def on_threads_def)
  qed (use soft_invalidate.IH reach_ok [OF soft_invalidate(1)] in auto)
next
  case (precise s log start len)
  have "state_ok (valid log) (RecordCodeRangeInvalidation start len s)" using reach_ok [OF precise(1)] by simp
  note old = precise.buffers_retained [OF this, where start = start and len = len]
  show ?case
  proof (intro conjI retained_walk [of log s])
    fix i g' a e assume "Buffers (InvalidateGuestCodeRangePrecise start len s) i = Some g'" "RetainedBlocks g' a = Some e"
    then show "\<exists>g. Buffers s i = Some g \<and> (RetainedBlocks g a = Some e \<or> BlockList g a = Some e)"
      using old [of i g' a e] by (simp add: InvalidateGuestCodeRangePrecise_def InvalidateCodeBuffersCodeRangePrecise_def on_threads_def)
  qed (use precise.IH reach_ok [OF precise(1)] in auto)
next
  case (probe s log t start len clear s')
  then show ?case using probe_ok(2) [OF _ probe(2)] reach_ok [OF probe(1)] by (auto simp: retained_ok_def)
qed (auto simp: retained_ok_def)

end
