(* ===== verification/CodeProtocol.thy ===== *)
theory CodeProtocol
  imports CodeReach
begin

text \<open>
  The contracts of the code manager over its reachable states: lookups, relinking of
  soft-invalidated blocks, and instruction cache maintenance.
\<close>

section \<open>Batches\<close>

lemma buffers_threads_commute:
  "on_threads f (InvalidateCodeBuffersCodeRange start len s) = InvalidateCodeBuffersCodeRange start len (on_threads f s)"
  "on_threads f (InvalidateCodeBuffersCodeRangePrecise start len s) = InvalidateCodeBuffersCodeRangePrecise start len (on_threads f s)"
  by (simp_all add: on_threads_def on_buffers_def case_prod_beta Let_def RecordCodeRangeInvalidation_def
      InvalidateCodeBuffersCodeRange_def InvalidateCodeBuffersCodeRangePrecise_def)

lemma shadow_frame:
  "ShadowRetStack (on_threads f s) = ShadowRetStack s"
  "ShadowRetStack (InvalidateCodeBuffersCodeRange start len s) = ShadowRetStack s"
  "ShadowRetStack (InvalidateCodeBuffersCodeRangePrecise start len s) = ShadowRetStack s"
  by (simp_all add: on_threads_def on_buffers_def case_prod_beta Let_def RecordCodeRangeInvalidation_def
      InvalidateCodeBuffersCodeRange_def InvalidateCodeBuffersCodeRangePrecise_def)

text \<open>Buffers first and threads last, or range by range: the two walks touch different parts.\<close>

lemma batch_fold:
  fixes T :: "bool \<Rightarrow> 'a \<Rightarrow> code_thread \<Rightarrow> code_thread" and B :: "'a \<Rightarrow> code_state \<Rightarrow> code_state"
  assumes comm: "\<And>f x s. on_threads f (B x s) = B x (on_threads f s)" and sh: "\<And>x s. ShadowRetStack (B x s) = ShadowRetStack s"
  shows "on_threads (fold (T (ShadowRetStack s)) xs) (fold B xs s) = fold (\<lambda>x s. on_threads (T (ShadowRetStack s) x) (B x s)) xs s"
proof (induction xs arbitrary: s)
  case Nil
  then show ?case by (simp add: on_threads_def)
next
  case (Cons x xs)
  have push: "on_threads f (fold B xs s) = fold B xs (on_threads f s)" for f s
    by (induction xs arbitrary: s) (simp_all add: comm)
  define s1 where "s1 = on_threads (T (ShadowRetStack s) x) (B x s)"
  have s1: "ShadowRetStack s1 = ShadowRetStack s" by (simp add: s1_def shadow_frame sh)
  have "on_threads (fold (T (ShadowRetStack s)) (x # xs)) (fold B (x # xs) s) =
    on_threads (fold (T (ShadowRetStack s)) xs) (on_threads (T (ShadowRetStack s) x) (fold B xs (B x s)))"
    by (simp add: on_threads_def)
  also have "\<dots> = on_threads (fold (T (ShadowRetStack s1)) xs) (fold B xs s1)" by (simp add: push s1) (simp add: s1_def)
  also have "\<dots> = fold (\<lambda>x s. on_threads (T (ShadowRetStack s) x) (B x s)) (x # xs) s" using Cons.IH [of s1] by (simp add: s1_def)
  finally show ?case .
qed

lemma batch_precise:
  "InvalidateGuestCodeRangesPrecise starts len s = fold (\<lambda>start. InvalidateGuestCodeRangePrecise start len) starts s"
  unfolding InvalidateGuestCodeRangesPrecise_def InvalidateGuestCodeRangePrecise_def
  by (rule batch_fold [where T = "\<lambda>shadow start. InvalidateThreadCachedCodeRange shadow start len"])
    (simp_all add: buffers_threads_commute shadow_frame)

lemma batch_hard:
  "snd (InvalidateGuestCodeRanges ranges s) = fold (\<lambda>(start, len, unprotect). InvalidateGuestCodeRange start len) ranges s"
  unfolding InvalidateGuestCodeRanges_def InvalidateGuestCodeRange_def case_prod_unfold snd_conv
  by (rule batch_fold [where T = "\<lambda>shadow r. InvalidateThreadCachedCodeRange shadow (fst r) (fst (snd r))"])
    (simp_all add: buffers_threads_commute shadow_frame)

lemma reach_batch: "reach s log \<Longrightarrow> \<exists>log'. reach (fold (\<lambda>start. InvalidateGuestCodeRangePrecise start len) starts s) log'"
proof (induction starts arbitrary: s log)
  case (Cons start starts)
  show ?case using Cons.IH [OF precise [OF Cons.prems]] by simp
qed auto

section \<open>Lines\<close>

lemma unat_line: "unat (ICacheLineBase a) = unat a div 64 * 64"
proof -
  have m: "(ICacheLineSize - 1 :: u64) = mask 6" by (simp add: mask_eq_exp_minus_1)
  have "ICacheLineBase a = push_bit 6 (drop_bit 6 a)"
    unfolding ICacheLineBase_def m by (rule bit_word_eqI) (auto simp: bit_simps not_less)
  moreover have "unat a div 64 * 64 < 2 ^ 64" using unsigned_less [of a, where 'a = nat] by simp
  ultimately show ?thesis
    by (simp only: unsigned_push_bit_eq unat_drop_bit_eq) (simp add: drop_bit_eq_div push_bit_eq_mult take_bit_nat_eq_self)
qed

lemma line_bounds:
  fixes x a :: u64
  assumes "ICacheLineBase x = ICacheLineBase a"
  defines "line \<equiv> ICacheLineBase a"
  shows "unat line \<le> unat x" "unat x < unat line + 64" "PageOf line = PageOf x"
    "x < kMaxAddress \<Longrightarrow> unat (line + 64) = unat line + 64"
proof -
  have l: "unat line = unat x div 64 * 64" using unat_line [of x] assms by simp
  then show b: "unat line \<le> unat x" "unat x < unat line + 64" by linarith+
  have "unat x div 64 * 64 div 4096 = unat x div 4096"
    using div_mult2_eq [of "unat x" 64 64] div_mult2_eq [of "unat x div 64 * 64" 64 64] by simp
  then show "PageOf line = PageOf x" unfolding PageOf_def word_unat_eq_iff page_index l .
  assume "x < kMaxAddress"
  then have "unat line + 64 < 2 ^ 64" using b(1) by (simp add: word_less_nat_alt)
  then show "unat (line + 64) = unat line + 64" by (simp add: unat_word_ariths)
qed

section \<open>Content hashes\<close>

text \<open>A byte of an aligned page.\<close>

lemma same_page:
  fixes page x :: u64
  assumes "take_bit 12 page = 0" "unat page \<le> unat x" "unat x < unat page + 4096"
  shows "PageOf x = PageOf page"
proof -
  have "unat page mod 4096 = 0" using arg_cong [OF assms(1), of unat] by (simp add: take_bit_eq_mod unat_mod_distrib)
  then have "unat x div 4096 = unat page div 4096" using assms(2,3) by (auto elim!: dvdE simp: mod_eq_0_iff_dvd)
  then show ?thesis unfolding PageOf_def word_unat_eq_iff page_index .
qed

text \<open>The hash of a block reads only bytes of its code pages.\<close>

lemma hash_page_cong:
  assumes "take_bit 12 page = 0" "\<And>x. PageOf x = PageOf page \<Longrightarrow> mem x = mem' x"
  shows "hash_page xxh mem start fin page h = hash_page xxh mem' start fin page h"
proof (cases "max page start < min (page + 4096) fin")
  case True
  define lo where "lo = max page start"
  define hi where "hi = min (page + 4096) fin"
  have b: "unat page \<le> unat lo" "unat lo < unat hi" "unat hi \<le> unat (page + 4096)"
    using True by (simp_all add: lo_def hi_def word_le_nat_alt [symmetric] word_less_nat_alt [symmetric])
  have "unat (page + 4096) \<le> unat page + 4096" by (simp add: unat_word_ariths)
  then have top: "unat hi \<le> unat page + 4096" using b(3) by linarith
  have "mem (lo + of_nat i) = mem' (lo + of_nat i)" if "i < unat (hi - lo)" for i
  proof (rule assms(2), rule same_page [OF assms(1)])
    have "unat (hi - lo) = unat hi - unat lo" using b(2) by (intro unat_sub) (simp add: word_le_nat_alt)
    then have i: "unat lo + i < unat hi" using that by linarith
    then have "unat (lo + of_nat i) = unat lo + i"
      using unsigned_less [of hi, where 'a = nat] by (simp add: unat_word_ariths unat_of_nat take_bit_nat_eq_self)
    then show "unat page \<le> unat (lo + of_nat i)" "unat (lo + of_nat i) < unat page + 4096" using b(1) i top by linarith+
  qed
  then have "read_bytes mem lo (hi - lo) = read_bytes mem' lo (hi - lo)" by (simp add: read_bytes_def)
  then show ?thesis by (simp add: hash_page_def Let_def lo_def hi_def)
next
  case False
  then have "min (page + 4096) fin \<le> max page start" by (simp only: not_less)
  then show ?thesis by (simp only: hash_page_def Let_def if_True)
qed

lemma hash_cong:
  assumes "\<forall>p \<in> set pages. take_bit 12 p = 0" "\<forall>p \<in> set pages. \<forall>x. PageOf x = PageOf p \<longrightarrow> mem x = mem' x"
  shows "HashGuestBlock xxh mem pages start len = HashGuestBlock xxh mem' pages start len"
  unfolding HashGuestBlock_def using assms by (intro fold_cong refl ext hash_page_cong) auto

section \<open>The reachable states of the instances\<close>

text \<open>One buffer, one thread, and a block of 16 bytes at \<open>0x1000\<close> with a content hash.\<close>

definition demo_hash :: "u8 list \<Rightarrow> u64 \<Rightarrow> u64" where
  "demo_hash bs seed = fold (\<lambda>b h. 31 * h + ucast b) bs seed"

definition demo_start :: code_state where
  "demo_start = (OnCodeBufferAllocated 0 ((no_code False False)\<lparr>Buffers := [0 \<mapsto> GuestToHostMap True (\<lambda>_. True)]\<rparr>))
     \<lparr>Threads := [new_thread 0 False False]\<rparr>"

definition demo_unit :: "u64 list \<times> guest_map \<times> lookup_cache" where
  "demo_unit = CompileBlock_register True (HashGuestBlock demo_hash (\<lambda>_. 5)) (\<lambda>_. True) True [0x1000] [0x1000] 0x1000 16 0x9000
     [(0x1000, 0x9010)] (GuestToHostMap True (\<lambda>_. True), new_lookup_cache False False)"

definition demo_map :: guest_map where "demo_map = fst (snd demo_unit)"

definition demo_cache :: lookup_cache where "demo_cache = snd (snd demo_unit)"

definition demo_entry :: block_entry where
  "demo_entry = compiled_entry True (HashGuestBlock demo_hash (\<lambda>_. 5)) [0x1000] 0x1000 16 0x9000 0x9010"

lemma demo_entry_sel:
  "HostCode demo_entry = 0x9010" "EntryCodePages demo_entry = [0x1000]" "GuestRangeStart demo_entry = 0x1000"
  "GuestRangeLength demo_entry = 16" "GuestHash demo_entry = HashGuestBlock demo_hash (\<lambda>_. 5) [0x1000] 0x1000 16"
  "ExtentStart demo_entry = 0x1000" "ExtentLength demo_entry = 16"
  by (simp_all add: demo_entry_def compiled_entry_def Let_def IsHashableBlock_def)

definition demo_state :: code_state where "demo_state = thread_step 0 0 demo_map demo_cache demo_start"

lemma start_reach: "reach demo_start []"
proof -
  define s0 where "s0 = OnCodeBufferAllocated 0 ((no_code False False)\<lparr>Buffers := (Buffers (no_code False False))(0 \<mapsto> GuestToHostMap True (\<lambda>_. True))\<rparr>)"
  have "reach s0 []" unfolding s0_def by (rule allocate [OF init]) (simp_all add: no_code_def)
  then have "reach (s0\<lparr>Threads := Threads s0 @ [new_thread 0 False False]\<rparr>) []"
    by (rule spawn) (simp add: s0_def OnCodeBufferAllocated_def Let_def)
  then show ?thesis by (simp add: s0_def demo_start_def OnCodeBufferAllocated_def Let_def no_code_def)
qed

lemma start_runs: "runs demo_start 0 0 (GuestToHostMap True (\<lambda>_. True)) (new_lookup_cache False False)"
  by (simp add: runs_def demo_start_def OnCodeBufferAllocated_def Let_def new_thread_def no_code_def)

text \<open>A unit with one entry point on one page, compiled in the first state.\<close>

lemma start_compile:
  assumes "take_bit 12 page = 0" "h \<noteq> 0"
    and "CompileBlock_register True hash (\<lambda>_. True) True [a] [page] start len bb [(a, h)] (GuestToHostMap True (\<lambda>_. True), new_lookup_cache False False) = (new, g', c')"
  shows "reach (thread_step 0 0 g' c' demo_start) [Registered a (compiled_entry True hash [page] start len bb h)]"
  using compile [OF start_reach start_runs _ _ _ _ assms(3)] assms(1,2) by simp

lemma demo_reach: "reach demo_state [Registered 0x1000 demo_entry]"
  unfolding demo_state_def demo_entry_def
  by (rule start_compile [where new = "fst demo_unit"]) (simp_all add: demo_unit_def demo_map_def demo_cache_def take_bit_eq_mod)

lemma demo_runs: "runs demo_state 0 0 demo_map demo_cache"
  by (simp add: runs_def demo_state_def thread_step_def demo_start_def new_thread_def)

lemma demo_found: "FindBlock hot cold now 0x1000 demo_map demo_cache = (0x9010, demo_cache)"
proof -
  define c where "c = new_lookup_cache False False"
  have c: "demo_cache = CacheBlockMapping 0x1000 demo_entry True c"
    by (simp add: demo_cache_def demo_unit_def CompileBlock_register_def Let_def case_prod_unfold cache_add_eq demo_entry_def
        compiled_entry_def c_def)
  have "L1Table demo_cache (L1Slot demo_cache 0x1000) = (HostCode demo_entry, 0x1000)"
    using cache_mapping_frame [of "0x1000" demo_entry True c] by (simp add: c L1Slot_def)
  then show ?thesis by (simp add: FindBlock_def demo_entry_def)
qed

text \<open>A soft invalidation and a relink that succeeds, as steps of a thread.\<close>

lemma soft_runs:
  assumes "reach s log" "runs s t i g c"
  shows "runs (snd (SoftInvalidateGuestCodeRange start len s)) t i (SoftInvalidateRange start len g) (snd (InvalidateCacheRange start len c))"
proof -
  have "state_ok (valid log) s" using reach_ok [OF assms(1)] by blast
  note o = on_buffers_spec [OF state_okD(1,2) [OF this], of "SoftInvalidateRange start len"]
  show ?thesis using assms(2) unfolding runs_def
    by (auto simp: SoftInvalidateGuestCodeRange_def SoftInvalidateCodeBuffersCodeRange_def on_threads_def o thread_scrub)
qed

lemma hard_runs:
  assumes "reach s log" "runs s t i g c"
  shows "runs (InvalidateGuestCodeRange start len s) t i (InvalidateRange start len g) (snd (InvalidateCacheRange start len c))"
proof -
  have "state_ok (valid log) (RecordCodeRangeInvalidation start len s)" using reach_ok [OF assms(1)] by simp
  note o = on_buffers_spec [OF state_okD(1,2) [OF this], of "InvalidateRange start len"]
  have "Threads (RecordCodeRangeInvalidation start len s) = Threads s" by (simp add: RecordCodeRangeInvalidation_def)
  then show ?thesis using assms(2) unfolding runs_def
    by (auto simp: InvalidateGuestCodeRange_def InvalidateCodeBuffersCodeRange_def on_threads_def o thread_scrub)
qed

lemma thread_step_runs: "runs s t i g c \<Longrightarrow> runs (thread_step t i g' c' s) t i g' c'"
  by (simp add: runs_def thread_step_def)

lemma soft_then_relink:
  assumes "reach s log" "runs s t i g c" "\<forall>n. grant n" "h \<noteq> 0" "RetainedBlocks (SoftInvalidateRange start len g) rip = Some e"
    and "TryRelinkSoftInvalidatedBlock xxh vo grant mem0 mem1 rip (SoftInvalidateRange start len g, snd (InvalidateCacheRange start len c)) = (h, new, [], g', c')"
  shows "\<exists>s'. reach s' (relinked_event xxh mem1 rip e # Invalidated start len # log) \<and> runs s' t i g' c'"
proof -
  note r = soft_runs [OF assms(1,2), of start len]
  show ?thesis using relink [OF soft_invalidate [OF assms(1)] r assms(3,6)] thread_step_runs [OF r] assms(4,5)
    by (intro exI [of _ "thread_step t i g' c' (snd (SoftInvalidateGuestCodeRange start len s))"]) simp
qed

section \<open>Precise invalidation of a line\<close>

definition extents_bounded :: "guest_map \<Rightarrow> bool" where
  "extents_bounded g \<longleftrightarrow> (\<forall>a e. BlockList g a = Some e \<longrightarrow> unat (ExtentStart e) + unat (ExtentLength e) < 2 ^ 64)"

definition line_free :: "u64 \<Rightarrow> guest_map \<Rightarrow> bool" where
  "line_free line g \<longleftrightarrow> (\<forall>x. live_byte g x \<longrightarrow> ICacheLineBase x \<noteq> line)"

lemma precise_shrinks:
  assumes "map_ok g"
  shows "BlockList (snd (InvalidateRangePrecise start len g)) \<subseteq>\<^sub>m BlockList g"
  using precise_spec(2) [OF assms prod.collapse [symmetric], of start len] by (auto simp: map_le_def restrict_map_def split: if_splits)

lemma line_free_mono: "line_free line g \<Longrightarrow> BlockList g' \<subseteq>\<^sub>m BlockList g \<Longrightarrow> line_free line g'"
  unfolding line_free_def live_byte_def map_le_def by (metis domI)

lemma precise_line_free:
  fixes a :: u64
  assumes ok: "map_ok g" "extents_bounded g"
  defines "line \<equiv> ICacheLineBase a"
  shows "line_free line (snd (InvalidateRangePrecise line 64 g))"
  unfolding line_free_def
proof (intro allI impI notI)
  fix x assume live: "live_byte (snd (InvalidateRangePrecise line 64 g)) x" and x: "ICacheLineBase x = line"
  note b = line_bounds [OF x [unfolded line_def], folded line_def]
  obtain y e p where y: "BlockList (snd (InvalidateRangePrecise line 64 g)) y = Some e" "p \<in> set (EntryCodePages e)" "p < kMaxAddress"
    "take_bit 12 p = 0" "extent_byte p (ExtentStart e) (ExtentLength e) x" using live unfolding live_byte_def by blast
  have "x < kMaxAddress" by (rule extent_byte_marked(1) [OF y(5,4,3)])
  note wrap = b(4) [OF this]
  have pg: "PageOf p = PageOf line" using y(5) b(3) by (simp add: extent_byte_def PageOf_def)
  have "PageOf line \<in> pages_of line 64"
  proof -
    have "unat (line + 64 - 1) = unat line + 63" using wrap by (subst unat_minus_one) (auto simp: word_unat_eq_iff)
    then have "unat (PageOf line) \<le> unat (PageOf (line + 64 - 1))" unfolding PageOf_def page_index by (simp add: div_le_mono)
    then show ?thesis by (simp add: pages_of_def word_le_nat_alt)
  qed
  then have "y \<in> entries_on (CodePages g) (pages_of line 64)" if "BlockList g y = Some e"
    using indexedD [OF map_okD(2) [OF ok(1)] that y(2)] pg by (auto simp: entries_on_def)
  moreover have "EntryOverlaps e line (line + 64)" if "BlockList g y = Some e"
  proof -
    have "unat (ExtentStart e + ExtentLength e) = unat (ExtentStart e) + unat (ExtentLength e)"
      using ok(2) that by (simp add: extents_bounded_def unat_word_ariths)
    then show ?thesis using y(5) b(1,2) wrap by (auto simp: EntryOverlaps_def extent_byte_def word_less_nat_alt)
  qed
  ultimately show False
    using y(1) precise_spec(2) [OF ok(1) prod.collapse [symmetric], of line 64]
    by (auto simp: restrict_map_def victims_def split: if_splits)
qed

lemma buffers_precise:
  assumes "state_ok V s"
  shows "Buffers (InvalidateGuestCodeRangePrecise start len s) i = map_option (\<lambda>g. snd (InvalidateRangePrecise start len g)) (Buffers s i)"
proof -
  have "state_ok V (RecordCodeRangeInvalidation start len s)" using assms by simp
  note o = on_buffers_spec(1) [OF state_okD(1,2) [OF this]]
  have "Buffers (RecordCodeRangeInvalidation start len s) = Buffers s" by (simp add: RecordCodeRangeInvalidation_def)
  then show ?thesis
    by (simp add: InvalidateGuestCodeRangePrecise_def InvalidateCodeBuffersCodeRangePrecise_def on_threads_def o)
qed

lemma batch_line_free:
  assumes "reach s log" "\<forall>i g. Buffers s i = Some g \<longrightarrow> line_free line g"
  shows "\<forall>i g. Buffers (fold (\<lambda>start. InvalidateGuestCodeRangePrecise start len) starts s) i = Some g \<longrightarrow> line_free line g"
  using assms
proof (induction starts arbitrary: s log)
  case (Cons start starts)
  have ok: "state_ok (valid log) s" using reach_ok [OF Cons.prems(1)] by blast
  have "line_free line g'" if hit: "Buffers (InvalidateGuestCodeRangePrecise start len s) i = Some g'" for i g'
  proof -
    obtain g where g: "Buffers s i = Some g" "g' = snd (InvalidateRangePrecise start len g)"
      using hit by (auto simp: buffers_precise [OF ok])
    then have "map_ok g" using state_okD(4) [OF ok] by (simp add: buffer_ok_def)
    then show ?thesis using line_free_mono precise_shrinks Cons.prems(2) g by blast
  qed
  then show ?case unfolding fold_simps by (intro Cons.IH [OF precise [OF Cons.prems(1)]]) blast
qed simp

lemma mirror_lines_prefix: "\<exists>more. mirror_lines line offset vt ks found = found @ more"
proof (induction line offset vt ks found rule: mirror_lines.induct)
  case (2 line offset vt k ks found)
  show ?case
  proof (cases "length found < 32")
    case True
    show ?thesis
    proof (cases "map_of (VMAs vt) k")
      case None
      then show ?thesis using 2(1) [OF True None] True by simp
    next
      case (Some v)
      show ?thesis using 2(2) [OF True Some] True Some by (auto simp: Let_def split: if_splits)
    qed
  qed simp
qed simp

lemma icache_lines_first: "\<exists>more. icache_lines line vt = line # more"
  using mirror_lines_prefix [of line _ vt _ "[line]"] by (auto simp: icache_lines_def split: option.split bool.split)

lemma icache_precise: "\<exists>more. InvalidateGuestICacheLine line vt s =
    fold (\<lambda>start. InvalidateGuestCodeRangePrecise start 64) (line # more) s"
proof -
  obtain more where "icache_lines line vt = line # more" using icache_lines_first by blast
  then show ?thesis by (intro exI [of _ more]) (auto simp: InvalidateGuestICacheLine_def batch_precise Let_def)
qed

lemma probe_clear:
  assumes ok: "state_ok V s" and run: "GuestRangeProvablyHasNoCode t start len s = (True, s')" and g: "Buffers s i = Some g"
  shows "ProvablyClear (CodeGranules g) start len"
proof -
  have i: "i \<in> set (CodeBufferList s)" using state_okD(2) [OF ok] g by auto
  show ?thesis
  proof (cases "t < length (Threads s) \<and> LiveCodeBufferCount s = 1")
    case True
    then obtain j where j: "CodeBufferList s = [j]" using state_okD(3) [OF ok] by (auto simp: length_Suc_conv)
    have "BufferIndex (Threads s ! t) \<in> dom (Buffers s)" using state_okD(5) [OF ok nth_mem] True by blast
    then have "BufferIndex (Threads s ! t) = i" using state_okD(2) [OF ok] i j by auto
    then show ?thesis using run True g by (simp add: GuestRangeProvablyHasNoCode_def)
  next
    case False
    then have "list_all (\<lambda>i. case Buffers s i of None \<Rightarrow> True | Some g \<Rightarrow> ProvablyClear (CodeGranules g) start len) (CodeBufferList s)"
      using run by (auto simp: GuestRangeProvablyHasNoCode_def Let_def split: if_splits)
    then show ?thesis using i g by (metis (no_types, lifting) list_all_iff option.simps(5))
  qed
qed

section \<open>Contracts\<close>

lemma lookup_current:
  assumes "reach s log" "runs s t i g c" "a \<noteq> 0" "FindBlock hot cold now a g c = (h, c')"
  shows "(h \<noteq> 0 \<longrightarrow> (\<exists>newer ev older e. log = newer @ ev # older \<and> registers ev a e \<and> HostCode e = h \<and>
       (\<forall>ev \<in> set newer. \<not> kills ev e) \<and> Registered a e \<in> set log)) \<and>
    (h = 0 \<longrightarrow> MapFindBlock a g = None)"
proof -
  note ok = reach_ok [OF assms(1)]
  have "buffer_ok (valid log) g" "cache_ok (valid log) c" using runs_ok [OF _ assms(2)] ok by blast+
  then have "shared_ok (valid log) g" by (simp add: buffer_ok_def)
  note find = find_block_ok(2,3) [OF \<open>cache_ok (valid log) c\<close> this assms(4) assms(3)]
  have "\<exists>newer ev older e. log = newer @ ev # older \<and> registers ev a e \<and> HostCode e = h \<and> (\<forall>ev \<in> set newer. \<not> kills ev e) \<and> Registered a e \<in> set log"
    if h: "h \<noteq> 0"
  proof -
    obtain e where e: "(a, e) \<in> valid log" "HostCode e = h" using find(1) [OF h] by blast
    moreover have "Registered a e \<in> set log" using valid_compiled e(1) reach_provenance [OF assms(1)] by blast
    ultimately show ?thesis unfolding valid_current current_def by blast
  qed
  then show ?thesis using find(2) ok by (simp add: MapFindBlock_def)
qed

text \<open>
  C2. No stale translation, and no lost one, except at address 0. In every state that buffers and threads can
  reach by allocating, releasing and switching buffers, compiling, relinking, looking up and
  invalidating in any order, a lookup by any thread of a non-zero address that returns host code returns the
  code of an entry that was compiled for that very address and that no invalidation has hit
  since it was compiled or relinked; and a lookup that returns none means that the thread's buffer
  has no block for the address. Address 0 is left out, since it marks an empty L1 entry: a lookup of it can return
  the code of an invalidated block, as \<open>null_lookup_reachable\<close> below shows.
\<close>

theorem no_stale_translation:
  assumes "reach s log" "runs s t i g c" "a \<noteq> 0" "FindBlock hot cold now a g c = (h, c')"
  shows "(h \<noteq> 0 \<longrightarrow> (\<exists>newer ev older e. log = newer @ ev # older \<and> registers ev a e \<and> HostCode e = h \<and>
       (\<forall>ev \<in> set newer. \<not> kills ev e) \<and> Registered a e \<in> set log)) \<and>
    (h = 0 \<longrightarrow> MapFindBlock a g = None)"
  by (rule lookup_current [OF assms])

text \<open>A write to the page of the block and a relink: the block is found again.\<close>

definition demo_relink :: "u64 \<times> u64 list \<times> (u64 \<times> u64) list \<times> guest_map \<times> lookup_cache" where
  "demo_relink = TryRelinkSoftInvalidatedBlock demo_hash (\<lambda>_. False) (\<lambda>_. True) (\<lambda>_. 5) (\<lambda>_. 5) 0x1000
     (SoftInvalidateRange 0x1800 8 demo_map, snd (InvalidateCacheRange 0x1800 8 demo_cache))"

lemma demo_relinked: "fst demo_relink = 0x9010 \<and> fst (snd (snd demo_relink)) = [] \<and>
    fst (FindBlock (\<lambda>_ _. False) (\<lambda>_ _. False) 0 0x1000 (fst (snd (snd (snd demo_relink)))) (snd (snd (snd (snd demo_relink))))) = 0x9010"
  by code_simp

lemma demo_retained: "RetainedBlocks (SoftInvalidateRange 0x1800 8 demo_map) 0x1000 = Some demo_entry"
  by code_simp

theorem no_stale_translation_witness:
  "\<exists>newer ev older e. [relinked_event demo_hash (\<lambda>_. 5) 0x1000 demo_entry, Invalidated 0x1800 8, Registered 0x1000 demo_entry] = newer @ ev # older \<and>
     registers ev 0x1000 e \<and> HostCode e = 0x9010 \<and> (\<forall>ev \<in> set newer. \<not> kills ev e)"
proof -
  obtain new g' c' where r: "demo_relink = (0x9010, new, [], g', c')" using demo_relinked by (metis prod.collapse)
  obtain s' where s': "reach s' [relinked_event demo_hash (\<lambda>_. 5) 0x1000 demo_entry, Invalidated 0x1800 8, Registered 0x1000 demo_entry]" "runs s' 0 0 g' c'"
    using soft_then_relink [OF demo_reach demo_runs _ _ demo_retained r [unfolded demo_relink_def]] by auto
  obtain c'' where f: "FindBlock (\<lambda>_ _. False) (\<lambda>_ _. False) 0 0x1000 g' c' = (0x9010, c'')" using demo_relinked r by (metis fst_conv prod.collapse snd_conv)
  from no_stale_translation [OF s' _ f] show ?thesis by auto
qed

text \<open>
  The exception is reachable: a block at \<open>0x80000\<close> is compiled and its range invalidated, and a lookup of
  address 0, for which nothing was ever compiled, returns its host code.
\<close>

definition null_unit :: "u64 list \<times> guest_map \<times> lookup_cache" where
  "null_unit = CompileBlock_register True (HashGuestBlock demo_hash (\<lambda>_. 5)) (\<lambda>_. True) True [0x80000] [0x80000] 0x80000 16 0x9000
     [(0x80000, 0x9010)] (GuestToHostMap True (\<lambda>_. True), new_lookup_cache False False)"

lemma null_lookup_found:
  "fst (FindBlock hot cold now 0 (InvalidateRange 0x80000 16 (fst (snd null_unit))) (snd (InvalidateCacheRange 0x80000 16 (snd (snd null_unit))))) = 0x9010"
  "MapFindBlock 0 (InvalidateRange 0x80000 16 (fst (snd null_unit))) = None"
  by code_simp+

lemma null_lookup_reachable:
  "\<exists>s log g c. reach s log \<and> runs s 0 0 g c \<and> (\<forall>e. Registered 0 e \<notin> set log) \<and> MapFindBlock 0 g = None \<and>
     fst (FindBlock hot cold now 0 g c) = 0x9010"
proof -
  obtain new g c where u: "null_unit = (new, g, c)" by (cases null_unit)
  define s where "s = thread_step 0 0 g c demo_start"
  define e where "e = compiled_entry True (HashGuestBlock demo_hash (\<lambda>_. 5)) [0x80000] 0x80000 16 0x9000 0x9010"
  have s: "reach s [Registered 0x80000 e]" unfolding s_def e_def
    by (rule start_compile [OF _ _ u [unfolded null_unit_def]]) (simp_all add: take_bit_eq_mod)
  have r: "runs s 0 0 g c" unfolding s_def by (rule thread_step_runs [OF start_runs])
  have "runs (InvalidateGuestCodeRange 0x80000 16 s) 0 0 (InvalidateRange 0x80000 16 g) (snd (InvalidateCacheRange 0x80000 16 c))"
    by (rule hard_runs [OF s r])
  then show ?thesis using invalidate [OF s, of "0x80000" 16] null_lookup_found [unfolded u fst_conv snd_conv]
    by (intro exI [of _ "InvalidateGuestCodeRange 0x80000 16 s"] exI [of _ "[Invalidated 0x80000 16, Registered 0x80000 e]"]
        exI [of _ "InvalidateRange 0x80000 16 g"] exI [of _ "snd (InvalidateCacheRange 0x80000 16 c)"]) simp
qed

text \<open>
  C4. Soft invalidation and relinking are a round trip. A block with a content hash that a soft
  invalidation takes off the map comes back with the same host code and the same entry when guest
  memory on its code pages has not changed and none of the pages is under validation; the pages
  list it again.
\<close>

theorem soft_relink_roundtrip:
  assumes ok: "buffer_ok V g" "cache_ok V c" and grant: "\<forall>n. grant n"
    and e: "BlockList g a = Some e" "hashed e" "GuestHash e = HashGuestBlock xxh mem (EntryCodePages e) (GuestRangeStart e) (GuestRangeLength e)"
    and hit: "\<exists>p \<in> set (EntryCodePages e). PageOf p \<in> pages_of start len"
    and same: "\<forall>p \<in> set (EntryCodePages e). \<forall>x. PageOf x = PageOf p \<longrightarrow> mem0 x = mem x \<and> mem1 x = mem x"
    and vo: "\<not> list_ex vo (EntryCodePages e)"
    and run: "TryRelinkSoftInvalidatedBlock xxh vo grant mem0 mem1 a (SoftInvalidateRange start len g, c) = (h, new, churn, g', c')"
  shows "BlockList (SoftInvalidateRange start len g) a = None \<and> h = HostCode e \<and> BlockList g' a = Some e \<and>
    (\<forall>p \<in> set (EntryCodePages e). a \<in> listed (CodePages g') (PageOf p)) \<and> map_ok g'"
proof -
  define g1 where "g1 = SoftInvalidateRange start len g"
  have m: "map_ok g" "entry_ok e" using ok(1) e(1) by (simp_all add: buffer_ok_def entries_ok_def)
  note sp = soft_invalidate_spec [OF m(1), where start = start and len = len, folded g1_def]
  have in_D: "a \<in> entries_on (CodePages g) (pages_of start len)"
    using hit indexedD [OF map_okD(2) [OF m(1)] e(1)] by (auto simp: entries_on_def)
  have gone: "BlockList g1 a = None" "RetainedBlocks g1 a = Some e"
    using in_D e(1,2) by (simp_all add: sp(2,3) retains_def)
  have al: "\<forall>p \<in> set (EntryCodePages e). take_bit 12 p = 0" using m(2) by (simp add: entry_ok_def)
  have h: "HashGuestBlock xxh m (EntryCodePages e) (GuestRangeStart e) (GuestRangeLength e) = GuestHash e"
    if "m = mem0 \<or> m = mem1" for m
    unfolding e(3) using same that by (intro hash_cong [OF al]) auto
  have "buffer_ok (untouched (pages_of start len) V) g1" unfolding g1_def by (rule soft.buffer [OF ok(1)])
  then have b1: "buffer_ok V g1" by (rule buffer_ok_valid_mono) (auto simp: untouched_def)
  have "h = HostCode e \<and> BlockList g' a = Some e"
    using run unfolding g1_def [symmetric]
    by (rule relink_cases) (use gone h [of mem0] h [of mem1] vo in \<open>auto simp: cache_add_eq\<close>)
  moreover have "map_ok g'"
    using relink_ok [OF b1 ok(2) _ run [folded g1_def] refl] grant by (simp add: buffer_ok_def)
  ultimately show ?thesis using gone(1) indexedD [OF map_okD(2)] unfolding g1_def by blast
qed

theorem soft_relink_roundtrip_witness:
  "\<exists>new churn g' c'. TryRelinkSoftInvalidatedBlock demo_hash (\<lambda>_. False) (\<lambda>_. True) (\<lambda>_. 5) (\<lambda>x. if x = 0x2000 then 6 else 5) 0x1000
      (SoftInvalidateRange 0x1800 8 demo_map, demo_cache) = (0x9010, new, churn, g', c') \<and> BlockList g' 0x1000 = Some demo_entry"
proof -
  obtain h new churn g' c' where run: "TryRelinkSoftInvalidatedBlock demo_hash (\<lambda>_. False) (\<lambda>_. True) (\<lambda>_. 5)
      (\<lambda>x. if x = 0x2000 then 6 else 5) 0x1000 (SoftInvalidateRange 0x1800 8 demo_map, demo_cache) = (h, new, churn, g', c')"
    by (metis prod_cases5)
  have ok: "buffer_ok (valid [Registered 0x1000 demo_entry]) demo_map" "cache_ok (valid [Registered 0x1000 demo_entry]) demo_cache"
    using runs_ok [OF _ demo_runs] reach_ok [OF demo_reach] by blast+
  have e: "BlockList demo_map 0x1000 = Some demo_entry"
    by (simp add: demo_map_def demo_unit_def CompileBlock_register_def Let_def case_prod_unfold cache_add_eq demo_entry_def compiled_entry_def)
  have pages: "PageOf 0x1000 \<in> pages_of 0x1800 8" "PageOf 0x2000 \<noteq> PageOf 0x1000" unfolding pages_of_def by code_simp+
  have "h = HostCode demo_entry \<and> BlockList g' 0x1000 = Some demo_entry"
    using soft_relink_roundtrip [OF ok _ e _ _ _ _ _ run, where mem = "\<lambda>_. 5"] pages
    by (auto simp: demo_entry_sel hashed_def)
  then show ?thesis using run by (auto simp: demo_entry_sel)
qed

text \<open>
  C30. Relinking is conservative. \<open>TryRelinkSoftInvalidatedBlock\<close> returns host code only for a
  retained entry whose recorded hash equals the hash of guest memory both before and after its
  pages are armed and none of whose pages is under validation, and then lists that entry; in
  every other case it leaves the live blocks as they were. Either way the retained entry is
  consumed.
\<close>

theorem relink_conservative:
  assumes "buffer_ok V g" "\<forall>n. grant n" "TryRelinkSoftInvalidatedBlock xxh vo grant mem0 mem1 rip (g, c) = (h, new, churn, g', c')"
  shows "RetainedBlocks g' = (RetainedBlocks g)(rip := None) \<and>
    (if h = 0 then BlockList g' = BlockList g \<and> c' = c
     else \<exists>e. RetainedBlocks g rip = Some e \<and> h = HostCode e \<and> BlockList g' = (BlockList g)(rip \<mapsto> e) \<and>
       \<not> list_ex vo (EntryCodePages e) \<and>
       HashGuestBlock xxh mem0 (EntryCodePages e) (GuestRangeStart e) (GuestRangeLength e) = GuestHash e \<and>
       HashGuestBlock xxh mem1 (EntryCodePages e) (GuestRangeStart e) (GuestRangeLength e) = GuestHash e)"
proof -
  have ok: "map_ok g" "entries_ok g" using assms(1) by (simp_all add: buffer_ok_def)
  note t = take_retained_ok [OF ok(1) prod.collapse [symmetric], of rip]
  have al: "\<forall>p \<in> set (EntryCodePages e). take_bit 12 p = 0" "HostCode e \<noteq> 0" if "RetainedBlocks g rip = Some e" for e
    using ok(2) that by (simp_all add: entries_ok_def entry_ok_def)
  have grant: "\<And>n. grant n" using assms(2) by blast
  show ?thesis using assms(3)
  proof (cases rule: relink_cases)
    case none
    then show ?thesis by auto
  next
    case (dropped e)
    then show ?thesis using t by simp
  next
    case (lost e)
    then show ?thesis using t register_pages_ok(2,3) [OF t(1) grant al(1) [OF lost(1)] lost(5)] by simp
  next
    case (relinked e g2)
    then show ?thesis
      using t register_pages_ok(2,3) [OF t(1) grant al(1) [OF relinked(1)] relinked(4)] al(2) [OF relinked(1)]
      by (auto simp: cache_add_eq)
  qed
qed

theorem relink_conservative_witness:
  "\<exists>new churn g' c'. TryRelinkSoftInvalidatedBlock demo_hash (\<lambda>_. False) (\<lambda>_. True) (\<lambda>_. 5) (\<lambda>_. 5) 0x2000 (demo_map, demo_cache) = (0, new, churn, g', c') \<and>
     BlockList g' = BlockList demo_map"
proof -
  obtain h new churn g' c' where run: "TryRelinkSoftInvalidatedBlock demo_hash (\<lambda>_. False) (\<lambda>_. True) (\<lambda>_. 5) (\<lambda>_. 5) 0x2000
      (demo_map, demo_cache) = (h, new, churn, g', c')" by (metis prod_cases5)
  have ok: "buffer_ok (valid [Registered 0x1000 demo_entry]) demo_map" using runs_ok [OF _ demo_runs] reach_ok [OF demo_reach] by blast
  have "RetainedBlocks demo_map 0x2000 = None"
    using register_pages_ok(3) [OF new_map_ok, where grant = "\<lambda>_. True", OF _ _ prod.collapse [symmetric]]
    by (simp add: demo_map_def demo_unit_def CompileBlock_register_def Let_def case_prod_unfold cache_add_eq take_bit_eq_mod) (simp add: GuestToHostMap_def)
  then show ?thesis using relink_conservative [OF ok _ run] run by (auto split: if_splits)
qed

text \<open>
  C3. Instruction cache maintenance is complete at the named address. After
  \<open>ICacheInvalidateFromJit\<close>, in any reachable state whose block extents do not wrap, no buffer has
  a live block with a byte in the 64-byte line of the address, whether the bitmap let the call
  return early or the line was invalidated; and the resulting state is again reachable, so that
  the guarantee on lookups extends to it.
\<close>

theorem icache_line_clear:
  assumes "reach s log" "\<forall>i g. Buffers s i = Some g \<longrightarrow> extents_bounded g"
  shows "(\<exists>log'. reach (ICacheInvalidateFromJit t a vt s) log') \<and>
    (\<forall>i g. Buffers (ICacheInvalidateFromJit t a vt s) i = Some g \<longrightarrow> line_free (ICacheLineBase a) g)"
proof -
  define line where "line = ICacheLineBase a"
  have ok: "state_ok (valid log) s" using reach_ok [OF assms(1)] by blast
  obtain clear s1 where p: "GuestRangeProvablyHasNoCode t line 64 s = (clear, s1)" by fastforce
  have r1: "reach s1 log" by (rule probe [OF assms(1) p])
  have ok1: "state_ok (valid log) s1" and B: "Buffers s1 = Buffers s" using probe_ok [OF ok p] by simp_all
  show ?thesis
  proof (cases clear)
    case True
    have "line_free line g" if "Buffers s i = Some g" for i g
    proof -
      have "covered g" using state_okD(4) [OF ok that] map_okD(8) by (simp add: buffer_ok_def)
      then show ?thesis using probe_clear [OF ok _ that, of t line 64 s1] p True line_bounds [of _ a, folded line_def]
        unfolding line_free_def covered_def provably_clear_set by fastforce
    qed
    then show ?thesis using r1 p True B by (auto simp: ICacheInvalidateFromJit_def line_def)
  next
    case False
    obtain more where m: "InvalidateGuestICacheLine line vt s1 = fold (\<lambda>start. InvalidateGuestCodeRangePrecise start 64) (line # more) s1"
      using icache_precise by blast
    have "line_free line g'" if "Buffers (InvalidateGuestCodeRangePrecise line 64 s1) i = Some g'" for i g'
      using that precise_line_free [of _ a, folded line_def] state_okD(4) [OF ok, of i] assms(2)
      by (auto simp: buffers_precise [OF ok1] B buffer_ok_def)
    then have "\<forall>i g. Buffers (InvalidateGuestICacheLine line vt s1) i = Some g \<longrightarrow> line_free line g"
      unfolding m fold_simps by (intro batch_line_free [OF precise [OF r1]]) blast
    then show ?thesis using reach_batch [OF r1, of 64 "line # more"] p False m by (simp add: ICacheInvalidateFromJit_def line_def)
  qed
qed

theorem icache_line_clear_witness:
  "BlockList demo_map 0x1000 \<noteq> None \<and>
   pred_option (line_free 0x1000)
     (Buffers (ICacheInvalidateFromJit 0 0x1008 \<lparr>VMAs = [], MappedResources = (\<lambda>_. None), Generation = 0, MarkNoOpCache = []\<rparr> demo_state) 0)"
proof -
  have e: "BlockList demo_map = [0x1000 \<mapsto> demo_entry]"
    using register_pages_ok(2) [OF new_map_ok, where grant = "\<lambda>_. True", OF _ _ prod.collapse [symmetric]]
    by (simp add: demo_map_def demo_unit_def CompileBlock_register_def Let_def case_prod_unfold cache_add_eq demo_entry_def
        compiled_entry_def take_bit_eq_mod) (simp add: GuestToHostMap_def)
  then have "extents_bounded demo_map" by (simp add: extents_bounded_def demo_entry_sel)
  then have "\<forall>i g. Buffers demo_state i = Some g \<longrightarrow> extents_bounded g"
    by (simp add: demo_state_def thread_step_def demo_start_def OnCodeBufferAllocated_def Let_def no_code_def)
  moreover have "ICacheLineBase 0x1008 = 0x1000" by code_simp
  ultimately show ?thesis using icache_line_clear [OF demo_reach, where a = "0x1008"] e by (simp add: pred_option_def elem_set)
qed

definition demo_alias :: "u64 \<Rightarrow> u32 \<Rightarrow> vma_entry" where
  "demo_alias base prot = \<lparr>vm_Resource = Some 0, vm_Base = base, vm_Offset = 0, vm_Length = 0x1000, vm_Shared = True, vm_Prot = fromProt prot\<rparr>"

definition demo_vmas :: vma_tracking where
  "demo_vmas = \<lparr>VMAs = [(0x1000, demo_alias 0x1000 5), (0x5000, demo_alias 0x5000 3)],
     MappedResources = [0 \<mapsto> \<lparr>mr_dev = 1, mr_VMAs = [0x5000, 0x1000], mr_Length = 0x1000\<rparr>], Generation = 0, MarkNoOpCache = []\<rparr>"

text \<open>
  Maintenance through an alias misses the mirrors. The fan-out of \<open>InvalidateGuestICacheLine\<close>
  reaches the executable alias of a shared mapping, but \<open>ICacheInvalidateFromJit\<close> returns before
  it when the bitmap has no code at the address that the guest names: here the page at
  \<open>0x5000\<close> is a writable alias of the page at \<open>0x1000\<close>, the line named is the one at \<open>0x5000\<close>, and
  the block translated from the same bytes at \<open>0x1000\<close> survives the call.
\<close>

theorem icache_alias_missed:
  "icache_lines (ICacheLineBase 0x5000) demo_vmas = [0x5000, 0x1000] \<and>
   map_option (\<lambda>g. BlockList g 0x1000) (Buffers (InvalidateGuestICacheLine (ICacheLineBase 0x5000) demo_vmas demo_state) 0) = Some None \<and>
   map_option (\<lambda>g. BlockList g 0x1000) (Buffers (ICacheInvalidateFromJit 0 0x5000 demo_vmas demo_state) 0) = Some (Some demo_entry)"
proof (intro conjI)
  show "icache_lines (ICacheLineBase 0x5000) demo_vmas = [0x5000, 0x1000]" by code_simp
  show "map_option (\<lambda>g. BlockList g 0x1000) (Buffers (InvalidateGuestICacheLine (ICacheLineBase 0x5000) demo_vmas demo_state) 0) = Some None"
    by code_simp
  show "map_option (\<lambda>g. BlockList g 0x1000) (Buffers (ICacheInvalidateFromJit 0 0x5000 demo_vmas demo_state) 0) = Some (Some demo_entry)"
    by code_simp
qed

end
