(* ===== verification/Decoder.thy ===== *)
theory Decoder
  imports DecodeTable "HOL-Library.Monad_Syntax"
begin

text \<open>
  The block decoder of the A64 front end, \<open>A64Frontend/Decoder.cpp\<close> and \<open>Decoder.h\<close>: the region of
  blocks that one compilation translates. Accesses to the vectors of the decoder are checked:
  \<open>None\<close> is an access out of bounds, or a query of executable ranges that never ends.
\<close>

section \<open>Environment\<close>

abbreviation INSTRUCTION_SIZE :: u64 where "INSTRUCTION_SIZE \<equiv> 4"
abbreviation DEFAULT_MAX_INSTRUCTIONS :: u64 where "DEFAULT_MAX_INSTRUCTIONS \<equiv> 1024"
abbreviation THUNK_HASH_SIZE :: u64 where "THUNK_HASH_SIZE \<equiv> 32"
abbreviation FEX_GUEST_PAGE_SIZE :: u64 where "FEX_GUEST_PAGE_SIZE \<equiv> 4096"

definition HLT_IMM16 :: "u32 \<Rightarrow> u32" where "HLT_IMM16 Imm = 0xD4400000 OR push_bit 5 Imm"

definition THUNK_MARKER_WORD :: u32 where "THUNK_MARKER_WORD = HLT_IMM16 0x0F3F"

definition page_of :: "u64 \<Rightarrow> u64" where "page_of a = a AND NOT (FEX_GUEST_PAGE_SIZE - 1)"

text \<open>
  What the decoder takes from outside: guest words, the decode table, the query for the executable
  range around an address (base and size; no handler means that everything is executable) and the
  configuration.
\<close>

record 'h decoder_env =
  GuestWord :: "u64 \<Rightarrow> u32"
  Decode :: "u32 \<Rightarrow> 'h inst_matcher option"
  QueryGuestExecutableRange :: "(u64 \<Rightarrow> u64 \<times> u64) option"
  MaxInstPerBlock :: u64
  Multiblock :: bool
  SMCICache :: bool
  RegionWindow :: u64
  MaxLeaders :: nat

section \<open>State\<close>

datatype DecodedBlockStatus = SUCCESS | NOEXEC_INST | UNALIGNED_PC

record 'h decoded_inst =
  InstPC :: u64
  InstWord :: u32
  InstMatcher :: "'h inst_matcher option"

record decoded_block =
  Entry :: u64
  BlockSize :: u64
  NumInstructions :: nat
  FirstInstruction :: nat
  BlockStatus :: DecodedBlockStatus
  IsEntryPoint :: bool
  PredCount :: nat
  SolePredEntry :: u64

record 'h decoder =
  RangeBase :: u64
  RangeEnd :: u64
  DecodedBuffer :: "'h decoded_inst list"
  SlotStamp :: "u32 list"
  SlotWord :: "u32 list"
  SlotMatcher :: "'h inst_matcher option list"
  Generation :: u32
  Leaders :: "u64 list"
  Worklist :: "u64 list"
  TotalInstructionCount :: nat
  Blocks :: "decoded_block list"
  EntryPoints :: "u64 list"
  CodePages :: "u64 list"
  DecodedMinAddress :: u64
  DecodedMaxAddress :: u64

definition new_decoder :: "'h decoder" where
  "new_decoder = \<lparr>RangeBase = 0, RangeEnd = 0, DecodedBuffer = [], SlotStamp = [], SlotWord = [], SlotMatcher = [], Generation = 0,
     Leaders = [], Worklist = [], TotalInstructionCount = 0, Blocks = [], EntryPoints = [], CodePages = [],
     DecodedMinAddress = 0, DecodedMaxAddress = - 1\<rparr>"

definition resize :: "nat \<Rightarrow> 'a \<Rightarrow> 'a list \<Rightarrow> 'a list" where
  "resize n x xs = take n xs @ replicate (n - length xs) x"

definition read_at :: "'a list \<Rightarrow> nat \<Rightarrow> 'a option" where
  "read_at xs i = (if i < length xs then Some (xs ! i) else None)"

definition write_at :: "'a list \<Rightarrow> nat \<Rightarrow> 'a \<Rightarrow> 'a list option" where
  "write_at xs i x = (if i < length xs then Some (xs[i := x]) else None)"

fun InsertSorted :: "u64 list \<Rightarrow> u64 \<Rightarrow> u64 list" where
  "InsertSorted [] v = [v]"
| "InsertSorted (x # xs) v = (if x < v then x # InsertSorted xs v else if x = v then x # xs else v # x # xs)"

section \<open>Executable ranges\<close>

partial_function (option) check_range :: "(u64 \<Rightarrow> u64 \<times> u64) \<Rightarrow> u64 \<Rightarrow> u64 \<Rightarrow> u64 \<Rightarrow> u64 \<Rightarrow> (bool \<times> u64 \<times> u64) option" where
  "check_range query base end Address Size =
     (if Address < base \<or> Address + Size > end
      then
        let (Base', Size') = query Address; end' = Base' + Size' in
        if Size' = 0 then Some (False, Base', end')
        else
          let remaining = end' - Address in
          if Size > remaining then check_range query Base' end' (Address + remaining) (Size - remaining)
          else check_range query Base' end' Address Size
      else Some (True, base, end))"

declare check_range.simps [code]

definition CheckRangeExecutable :: "'h decoder_env \<Rightarrow> u64 \<Rightarrow> u64 \<Rightarrow> 'h decoder \<Rightarrow> (bool \<times> 'h decoder) option" where
  "CheckRangeExecutable env Address Size d =
     (case QueryGuestExecutableRange env of
        None \<Rightarrow> Some (True, d)
      | Some query \<Rightarrow>
          map_option (\<lambda>(ok, base, end). (ok, d\<lparr>RangeBase := base, RangeEnd := end\<rparr>))
            (check_range query (RangeBase d) (RangeEnd d) Address Size))"

section \<open>Instruction words\<close>

definition IsISB :: "u32 \<Rightarrow> bool" where "IsISB Word \<longleftrightarrow> Word AND 0xFFFFF0FF = 0xD50330DF"

definition EndsBlock :: "u32 \<Rightarrow> bool \<Rightarrow> bool" where
  "EndsBlock Word ISBEndsBlock \<longleftrightarrow>
     ISBEndsBlock \<and> IsISB Word \<or> Word AND 0x7C000000 = 0x14000000 \<or> Word AND 0x7C000000 = 0x34000000 \<or>
     Word AND 0xFE000000 = 0x54000000 \<or> Word AND 0xFF000000 = 0xD4000000 \<or> Word AND 0xFE000000 = 0xD6000000"

definition SignExtendImm :: "u64 \<Rightarrow> nat \<Rightarrow> u64" where
  "SignExtendImm Value Width = signed_drop_bit (64 - Width) (push_bit (64 - Width) Value)"

definition GetDirectSuccessors :: "u32 \<Rightarrow> u64 \<Rightarrow> u64 list" where
  "GetDirectSuccessors Word PC =
     (if Word AND 0xFC000000 = 0x14000000
      then [PC + SignExtendImm (ucast (Word AND 0x03FFFFFF)) 26 * 4]
      else if Word AND 0x7E000000 = 0x34000000 \<or> Word AND 0x7E000000 = 0x36000000
      then
        let IsTest = Word AND 0x7E000000 = 0x36000000 in
        [PC + (if IsTest then SignExtendImm (ucast (drop_bit 5 Word AND 0x3FFF)) 14
               else SignExtendImm (ucast (drop_bit 5 Word AND 0x7FFFF)) 19) * 4, PC + INSTRUCTION_SIZE]
      else if Word AND 0xFE000000 = 0x54000000
      then (PC + SignExtendImm (ucast (drop_bit 5 Word AND 0x7FFFF)) 19 * 4) #
           (if Word AND 0xF < 0xE then [PC + INSTRUCTION_SIZE] else [])
      else [])"

section \<open>Slots\<close>

record window =
  WindowLow :: u64
  WindowHigh :: u64
  Gen :: u32

abbreviation DecodedBit :: u32 where "DecodedBit \<equiv> 0x80000000"
abbreviation LeaderBit :: u32 where "LeaderBit \<equiv> 0x40000000"
abbreviation StopBit :: u32 where "StopBit \<equiv> 0x20000000"
abbreviation GenMask :: u32 where "GenMask \<equiv> 0x1FFFFFFF"

definition SlotOf :: "window \<Rightarrow> u64 \<Rightarrow> nat" where
  "SlotOf win a = unat ((a - WindowLow win) div INSTRUCTION_SIZE)"

definition InWindow :: "window \<Rightarrow> u64 \<Rightarrow> bool" where
  "InWindow win a \<longleftrightarrow> WindowLow win \<le> a \<and> a \<le> WindowHigh win \<and> a AND (INSTRUCTION_SIZE - 1) = 0"

definition Flags :: "window \<Rightarrow> 'h decoder \<Rightarrow> u64 \<Rightarrow> u32 option" where
  "Flags win d a = map_option (\<lambda>S. if S AND GenMask = Gen win then S AND NOT GenMask else 0) (read_at (SlotStamp d) (SlotOf win a))"

definition SetFlag :: "window \<Rightarrow> u64 \<Rightarrow> u32 \<Rightarrow> 'h decoder \<Rightarrow> 'h decoder option" where
  "SetFlag win a Flag d = do {
     S \<leftarrow> read_at (SlotStamp d) (SlotOf win a);
     stamps \<leftarrow> write_at (SlotStamp d) (SlotOf win a) ((if S AND GenMask = Gen win then S else Gen win) OR Flag);
     Some (d\<lparr>SlotStamp := stamps\<rparr>)
   }"

section \<open>Region discovery\<close>

text \<open>Follow one target of a branch at \<open>pc\<close>.\<close>

definition follow_target :: "'h decoder_env \<Rightarrow> window \<Rightarrow> u64 \<Rightarrow> u64 \<Rightarrow> 'h decoder \<Rightarrow> 'h decoder option" where
  "follow_target env win pc T d =
     (let Distance = (if T > pc then T - pc else pc - T) in
      if Distance > RegionWindow env \<or> \<not> InWindow win T then Some d
      else do {
        F \<leftarrow> Flags win d T;
        if F AND LeaderBit \<noteq> 0 \<or> length (Leaders d) \<ge> MaxLeaders env then Some d
        else do {
          d \<leftarrow> SetFlag win T LeaderBit (d\<lparr>Leaders := Leaders d @ [T]\<rparr>);
          Some (d\<lparr>Worklist := Worklist d @ [T]\<rparr>)
        }
      })"

fun follow_targets :: "'h decoder_env \<Rightarrow> window \<Rightarrow> u64 \<Rightarrow> u64 list \<Rightarrow> 'h decoder \<Rightarrow> 'h decoder option" where
  "follow_targets env win pc [] d = Some d"
| "follow_targets env win pc (T # Ts) d = do { d \<leftarrow> follow_target env win pc T d; follow_targets env win pc Ts d }"

text \<open>The matcher of a decoded word: a thunk marker whose hash cannot be read is no thunk.\<close>

definition slot_matcher :: "'h decoder_env \<Rightarrow> u64 \<Rightarrow> u32 \<Rightarrow> 'h decoder \<Rightarrow> ('h inst_matcher option \<times> 'h decoder) option" where
  "slot_matcher env a Word d =
     (if Word = THUNK_MARKER_WORD
      then do {
        (ok, d) \<leftarrow> CheckRangeExecutable env (a + INSTRUCTION_SIZE) THUNK_HASH_SIZE d;
        Some (if ok then Decode env Word else None, d)
      }
      else Some (Decode env Word, d))"

definition has_handler :: "'h inst_matcher option \<Rightarrow> bool" where
  "has_handler M \<longleftrightarrow> (case M of None \<Rightarrow> False | Some m \<Rightarrow> Handler m \<noteq> None)"

text \<open>Fill the slot of the word at \<open>a\<close>.\<close>

definition decode_word :: "'h decoder_env \<Rightarrow> window \<Rightarrow> u64 \<Rightarrow> 'h decoder \<Rightarrow> ('h inst_matcher option \<times> 'h decoder) option" where
  "decode_word env win a d = do {
     let Word = GuestWord env a;
     words \<leftarrow> write_at (SlotWord d) (SlotOf win a) Word;
     d \<leftarrow> SetFlag win a DecodedBit (d\<lparr>SlotWord := words\<rparr>);
     (Matcher, d) \<leftarrow> slot_matcher env a Word d;
     matchers \<leftarrow> write_at (SlotMatcher d) (SlotOf win a) Matcher;
     Some (Matcher, d\<lparr>SlotMatcher := matchers\<rparr>)
   }"

text \<open>
  One round of the inner loop: leave the run before the word, end it after the word, or go on.
\<close>

datatype 'h decode_next = Leave "'h decoder" | Ended "'h decoder" | Next "'h decoder"

definition decode_one :: "'h decoder_env \<Rightarrow> window \<Rightarrow> bool \<Rightarrow> u64 \<Rightarrow> u64 \<Rightarrow> 'h decoder \<Rightarrow> 'h decode_next option" where
  "decode_one env win FollowBranches PC a d =
     (if \<not> InWindow win a then Some (Leave d)
      else do {
        F \<leftarrow> Flags win d a;
        if F AND DecodedBit \<noteq> 0 then Some (Leave d)
        else do {
          (ok, d) \<leftarrow> (if a \<noteq> PC then CheckRangeExecutable env a INSTRUCTION_SIZE d else Some (True, d));
          if \<not> ok then Some (Leave d)
          else do {
            (Matcher, d) \<leftarrow> decode_word env win a d;
            if \<not> has_handler Matcher then map_option Ended (SetFlag win a StopBit d)
            else if EndsBlock (GuestWord env a) (SMCICache env)
            then do {
              d \<leftarrow> SetFlag win a StopBit d;
              map_option Ended (if FollowBranches then follow_targets env win a (GetDirectSuccessors (GuestWord env a) a) d else Some d)
            }
            else Some (Next d)
          }
        }
      })"

text \<open>The words from \<open>a\<close> on, with a budget of instructions still to decode.\<close>

fun decode_run :: "'h decoder_env \<Rightarrow> window \<Rightarrow> bool \<Rightarrow> u64 \<Rightarrow> nat \<Rightarrow> u64 \<Rightarrow> 'h decoder \<Rightarrow> (nat \<times> 'h decoder) option" where
  "decode_run env win FollowBranches PC 0 a d = Some (0, d)"
| "decode_run env win FollowBranches PC (Suc n) a d =
     (case decode_one env win FollowBranches PC a d of
        None \<Rightarrow> None
      | Some (Leave d) \<Rightarrow> Some (Suc n, d)
      | Some (Ended d) \<Rightarrow> Some (n, d)
      | Some (Next d) \<Rightarrow> decode_run env win FollowBranches PC n (a + INSTRUCTION_SIZE) d)"

text \<open>Decoding puts at most two addresses on the worklist for every instruction.\<close>

lemma SetFlag_Worklist: "SetFlag win a F d = Some d' \<Longrightarrow> Worklist d' = Worklist d"
  by (auto simp: SetFlag_def bind_eq_Some_conv)

lemma CheckRangeExecutable_Worklist: "CheckRangeExecutable env a n d = Some (ok, d') \<Longrightarrow> Worklist d' = Worklist d"
  by (auto simp: CheckRangeExecutable_def split: option.splits)

lemma follow_target_Worklist: "follow_target env win pc T d = Some d' \<Longrightarrow> length (Worklist d') \<le> Suc (length (Worklist d))"
  by (auto simp: follow_target_def Let_def bind_eq_Some_conv split: if_splits dest: SetFlag_Worklist)

lemma follow_targets_Worklist: "follow_targets env win pc Ts d = Some d' \<Longrightarrow> length (Worklist d') \<le> length Ts + length (Worklist d)"
proof (induction Ts arbitrary: d)
  case (Cons T Ts)
  then obtain d1 where "follow_target env win pc T d = Some d1" "follow_targets env win pc Ts d1 = Some d'" by (auto simp: bind_eq_Some_conv)
  then show ?case using Cons.IH follow_target_Worklist by fastforce
qed simp

lemma GetDirectSuccessors_length: "length (GetDirectSuccessors Word PC) \<le> 2"
  by (simp add: GetDirectSuccessors_def Let_def)

lemma slot_matcher_Worklist: "slot_matcher env a Word d = Some (M, d') \<Longrightarrow> Worklist d' = Worklist d"
  by (auto simp: slot_matcher_def bind_eq_Some_conv split: if_splits dest: CheckRangeExecutable_Worklist)

lemma decode_word_Worklist: "decode_word env win a d = Some (M, d') \<Longrightarrow> Worklist d' = Worklist d"
  by (auto simp: decode_word_def Let_def bind_eq_Some_conv dest!: SetFlag_Worklist slot_matcher_Worklist)

lemma decode_one_Worklist:
  "decode_one env win f PC a d = Some (Leave d') \<Longrightarrow> Worklist d' = Worklist d"
  "decode_one env win f PC a d = Some (Next d') \<Longrightarrow> Worklist d' = Worklist d"
  "decode_one env win f PC a d = Some (Ended d') \<Longrightarrow> length (Worklist d') \<le> 2 + length (Worklist d)"
proof -
  note dests = SetFlag_Worklist decode_word_Worklist CheckRangeExecutable_Worklist
  show "decode_one env win f PC a d = Some (Leave d') \<Longrightarrow> Worklist d' = Worklist d"
    "decode_one env win f PC a d = Some (Next d') \<Longrightarrow> Worklist d' = Worklist d"
    by (auto simp: decode_one_def bind_eq_Some_conv split: if_splits dest!: dests)
  show "decode_one env win f PC a d = Some (Ended d') \<Longrightarrow> length (Worklist d') \<le> 2 + length (Worklist d)"
    using GetDirectSuccessors_length [of "GuestWord env a" a]
    by (auto simp: decode_one_def bind_eq_Some_conv split: if_splits dest!: dests follow_targets_Worklist)
qed

lemma decode_run_Worklist:
  "decode_run env win f PC n a d = Some (n', d') \<Longrightarrow> 2 * n' + length (Worklist d') \<le> 2 * n + length (Worklist d)"
  by (induction env win f PC n a d rule: decode_run.induct)
    (force split: option.splits decode_next.splits dest: decode_one_Worklist)+

function discover :: "'h decoder_env \<Rightarrow> window \<Rightarrow> bool \<Rightarrow> u64 \<Rightarrow> nat \<Rightarrow> 'h decoder \<Rightarrow> (nat \<times> 'h decoder) option" where
  "discover env win FollowBranches PC n d =
     (if Worklist d = [] \<or> n = 0 then Some (n, d)
      else
        case decode_run env win FollowBranches PC n (last (Worklist d)) (d\<lparr>Worklist := butlast (Worklist d)\<rparr>) of
          None \<Rightarrow> None
        | Some (n', d') \<Rightarrow> discover env win FollowBranches PC n' d')"
  by pat_completeness auto
termination
proof (relation "measure (\<lambda>(env, win, f, PC, n, d). 2 * n + length (Worklist d))")
  show "((env, win, f, PC, n', d'), env, win, f, PC, n, d) \<in> measure (\<lambda>(env, win, f, PC, n, d). 2 * n + length (Worklist d))"
    if "\<not> (Worklist d = [] \<or> n = 0)" "decode_run env win f PC n (last (Worklist d)) (d\<lparr>Worklist := butlast (Worklist d)\<rparr>) = Some x" "(n', d') = x"
    for env :: "'h decoder_env" and win f PC n d n' d' x
  proof -
    have "2 * n' + length (Worklist d') \<le> 2 * n + (length (Worklist d) - 1)" using decode_run_Worklist that(2,3) by fastforce
    then show ?thesis using that(1) by (cases "Worklist d") simp_all
  qed
qed simp

declare discover.simps [simp del]

section \<open>Layout\<close>

text \<open>
  The locals of the layout pass: the block under construction, the end of its decoded bytes, the
  number of instructions in the buffer and the page inserted last.
\<close>

record 'h layout =
  LBlock :: decoded_block
  LEnd :: u64
  Used :: nat
  LastPage :: u64
  LDecoder :: "'h decoder"

definition note_code_page :: "u64 \<Rightarrow> 'h layout \<Rightarrow> 'h layout" where
  "note_code_page Page s =
     (if Page \<noteq> LastPage s
      then s\<lparr>LastPage := Page, LDecoder := (LDecoder s)\<lparr>CodePages := InsertSorted (CodePages (LDecoder s)) Page\<rparr>\<rparr>
      else s)"

text \<open>Append the instruction at \<open>a\<close>; a thunk marker also covers the hash behind it.\<close>

definition layout_inst :: "u64 \<Rightarrow> u32 \<Rightarrow> 'h inst_matcher option \<Rightarrow> 'h layout \<Rightarrow> 'h layout option" where
  "layout_inst a Word Matcher s = do {
     buf \<leftarrow> write_at (DecodedBuffer (LDecoder s)) (Used s) \<lparr>InstPC = a, InstWord = Word, InstMatcher = Matcher\<rparr>;
     let s = s\<lparr>LDecoder := (LDecoder s)\<lparr>DecodedBuffer := buf\<rparr>, Used := Suc (Used s),
               LBlock := (LBlock s)\<lparr>NumInstructions := Suc (NumInstructions (LBlock s)), BlockSize := BlockSize (LBlock s) + INSTRUCTION_SIZE\<rparr>\<rparr>;
     let s = note_code_page (page_of a) s;
     let s = s\<lparr>LEnd := a + INSTRUCTION_SIZE\<rparr>;
     Some (if Word = THUNK_MARKER_WORD \<and> Matcher \<noteq> None
           then note_code_page (page_of (a + INSTRUCTION_SIZE + THUNK_HASH_SIZE - 1)) (s\<lparr>LEnd := a + INSTRUCTION_SIZE + THUNK_HASH_SIZE\<rparr>)
           else s)
   }"

fun layout_run :: "window \<Rightarrow> nat \<Rightarrow> u64 \<Rightarrow> u64 \<Rightarrow> 'h layout \<Rightarrow> 'h layout option" where
  "layout_run win 0 Leader a s = None"
| "layout_run win (Suc fuel) Leader a s =
     (if \<not> InWindow win a then Some s
      else do {
        F \<leftarrow> Flags win (LDecoder s) a;
        if F AND DecodedBit = 0 \<or> a \<noteq> Leader \<and> F AND LeaderBit \<noteq> 0 then Some s
        else do {
          Word \<leftarrow> read_at (SlotWord (LDecoder s)) (SlotOf win a);
          Matcher \<leftarrow> read_at (SlotMatcher (LDecoder s)) (SlotOf win a);
          s \<leftarrow> layout_inst a Word Matcher s;
          if F AND StopBit \<noteq> 0 then Some s else layout_run win fuel Leader (a + INSTRUCTION_SIZE) s
        }
      })"

definition new_block :: "u64 \<Rightarrow> nat \<Rightarrow> DecodedBlockStatus \<Rightarrow> bool \<Rightarrow> decoded_block" where
  "new_block Leader first status IsEntry =
     \<lparr>Entry = Leader, BlockSize = 0, NumInstructions = 0, FirstInstruction = first, BlockStatus = status, IsEntryPoint = IsEntry,
      PredCount = 0, SolePredEntry = 0\<rparr>"

definition layout_leader :: "window \<Rightarrow> nat \<Rightarrow> u64 \<Rightarrow> u64 \<Rightarrow> 'h layout \<Rightarrow> 'h layout option" where
  "layout_leader win fuel PC Leader s = do {
     F \<leftarrow> Flags win (LDecoder s) Leader;
     if F AND DecodedBit = 0 then Some s
     else do {
       s \<leftarrow> layout_run win fuel Leader Leader
              (s\<lparr>LBlock := new_block Leader (Used s) SUCCESS (Leader = PC), LEnd := Leader\<rparr>);
       let d = LDecoder s;
       Some (s\<lparr>LDecoder := d\<lparr>DecodedMinAddress := min (DecodedMinAddress d) Leader,
                              DecodedMaxAddress := max (DecodedMaxAddress d) (LEnd s),
                              TotalInstructionCount := TotalInstructionCount d + NumInstructions (LBlock s),
                              Blocks := Blocks d @ [LBlock s]\<rparr>\<rparr>)
     }
   }"

fun layout_leaders :: "window \<Rightarrow> nat \<Rightarrow> u64 \<Rightarrow> u64 list \<Rightarrow> 'h layout \<Rightarrow> 'h layout option" where
  "layout_leaders win fuel PC [] s = Some s"
| "layout_leaders win fuel PC (L # Ls) s = do { s \<leftarrow> layout_leader win fuel PC L s; layout_leaders win fuel PC Ls s }"

section \<open>Predecessors\<close>

text \<open>The edge from a block to a target: the first block that starts there.\<close>

fun count_edge :: "u64 \<Rightarrow> u64 \<Rightarrow> decoded_block list \<Rightarrow> decoded_block list" where
  "count_edge From Target [] = []"
| "count_edge From Target (To # bs) =
     (if Entry To \<noteq> Target then To # count_edge From Target bs
      else
        let n = (if PredCount To < 2 then Suc (PredCount To) else PredCount To) in
        To\<lparr>PredCount := n, SolePredEntry := (if n = 1 then From else 0)\<rparr> # bs)"

definition edge_targets :: "'h decoded_inst list \<Rightarrow> decoded_block \<Rightarrow> u64 list option" where
  "edge_targets buf From =
     (if NumInstructions From = 0 then Some []
      else do {
        Last \<leftarrow> read_at buf (FirstInstruction From + NumInstructions From - 1);
        let Succ = (if BlockStatus From = SUCCESS \<and> has_handler (InstMatcher Last) then GetDirectSuccessors (InstWord Last) (InstPC Last) else []);
        Some (if Succ \<noteq> [] then Succ else [Entry From + BlockSize From])
      })"

fun count_predecessors :: "'h decoded_inst list \<Rightarrow> decoded_block list \<Rightarrow> decoded_block list \<Rightarrow> decoded_block list option" where
  "count_predecessors buf [] bs = Some bs"
| "count_predecessors buf (From # Froms) bs = do {
     Ts \<leftarrow> edge_targets buf From;
     count_predecessors buf Froms (fold (count_edge (Entry From)) Ts bs)
   }"

section \<open>Decoding a unit\<close>

definition instruction_cap :: "'h decoder_env \<Rightarrow> u64 \<Rightarrow> u64" where
  "instruction_cap env MaxInst =
     (let Cap = (if MaxInst \<noteq> 0 then MaxInst else MaxInstPerBlock env) in
      if Cap = 0 \<or> Cap > DEFAULT_MAX_INSTRUCTIONS then DEFAULT_MAX_INSTRUCTIONS else Cap)"

definition no_inst :: "'h decoded_inst" where
  "no_inst = \<lparr>InstPC = 0, InstWord = 0, InstMatcher = None\<rparr>"

text \<open>A unit of one faulting instruction.\<close>

definition fault_unit :: "u64 \<Rightarrow> 'h inst_matcher option \<Rightarrow> DecodedBlockStatus \<Rightarrow> 'h decoder \<Rightarrow> 'h decoder option" where
  "fault_unit PC Matcher status d = do {
     buf \<leftarrow> write_at (DecodedBuffer d) 0 \<lparr>InstPC = PC, InstWord = 0, InstMatcher = Matcher\<rparr>;
     Some (d\<lparr>DecodedBuffer := buf, Blocks := Blocks d @ [(new_block PC 0 status True)\<lparr>NumInstructions := 1\<rparr>], TotalInstructionCount := 1\<rparr>)
   }"

definition reset_unit :: "u64 \<Rightarrow> u64 \<Rightarrow> 'h decoder \<Rightarrow> 'h decoder" where
  "reset_unit PC Cap d =
     d\<lparr>TotalInstructionCount := 0, Blocks := [], EntryPoints := [PC], CodePages := [page_of PC],
       DecodedMinAddress := PC, DecodedMaxAddress := PC,
       DecodedBuffer := (if length (DecodedBuffer d) < unat Cap then resize (unat Cap) no_inst (DecodedBuffer d) else DecodedBuffer d)\<rparr>"

text \<open>The slots are reused; a fresh generation makes all of them invalid.\<close>

definition next_generation :: "nat \<Rightarrow> 'h decoder \<Rightarrow> 'h decoder" where
  "next_generation NumSlots d =
     (let d = (if length (SlotStamp d) < NumSlots
               then d\<lparr>SlotStamp := replicate NumSlots 0, SlotWord := resize NumSlots 0 (SlotWord d),
                      SlotMatcher := resize NumSlots None (SlotMatcher d), Generation := 0\<rparr>
               else d);
          d = d\<lparr>Generation := Generation d + 1\<rparr>
      in if Generation d = 0 then d\<lparr>SlotStamp := replicate (length (SlotStamp d)) 0, Generation := 1\<rparr> else d)"

definition unit_window :: "'h decoder_env \<Rightarrow> u64 \<Rightarrow> u64 \<Rightarrow> u64 \<times> u64" where
  "unit_window env PC Cap =
     (if PC \<ge> RegionWindow env then PC - RegionWindow env else 0, PC + Cap * INSTRUCTION_SIZE + RegionWindow env)"

definition num_slots :: "u64 \<Rightarrow> u64 \<Rightarrow> nat" where
  "num_slots low high = unat ((high - low) div INSTRUCTION_SIZE + 1)"

definition decode_region :: "'h decoder_env \<Rightarrow> u64 \<Rightarrow> u64 \<Rightarrow> 'h decoder \<Rightarrow> 'h decoder option" where
  "decode_region env PC Cap d = do {
     let (low, high) = unit_window env PC Cap;
     let d = next_generation (num_slots low high) d;
     let win = \<lparr>WindowLow = low, WindowHigh = high, Gen = Generation d AND GenMask\<rparr>;
     let FollowBranches = (Multiblock env \<and> Cap > 1 \<and> MaxLeaders env > 1);
     d \<leftarrow> SetFlag win PC LeaderBit (d\<lparr>Leaders := [PC], Worklist := []\<rparr>);
     (n, d) \<leftarrow> discover env win FollowBranches PC (unat Cap) (d\<lparr>Worklist := [PC]\<rparr>);
     let Decoded = unat Cap - n;
     let d = (if length (DecodedBuffer d) < Decoded then d\<lparr>DecodedBuffer := resize Decoded no_inst (DecodedBuffer d)\<rparr> else d);
     let d = d\<lparr>Leaders := hd (Leaders d) # sort (tl (Leaders d))\<rparr>;
     s \<leftarrow> layout_leaders win (Suc (num_slots low high)) PC (Leaders d)
            \<lparr>LBlock = new_block PC 0 SUCCESS True, LEnd = PC, Used = 0, LastPage = page_of PC, LDecoder = d\<rparr>;
     let d = LDecoder s;
     bs \<leftarrow> count_predecessors (DecodedBuffer d) (Blocks d) (Blocks d);
     let d = d\<lparr>Blocks := bs\<rparr>;
     if bs = [] then fault_unit PC None NOEXEC_INST d else Some d
   }"

definition DecodeInstructionsAtEntry :: "'h decoder_env \<Rightarrow> u64 \<Rightarrow> u64 \<Rightarrow> 'h decoder \<Rightarrow> 'h decoder option" where
  "DecodeInstructionsAtEntry env PC MaxInst d = do {
     let Cap = instruction_cap env MaxInst;
     let d = reset_unit PC Cap d;
     if PC AND (INSTRUCTION_SIZE - 1) \<noteq> 0 then fault_unit PC None UNALIGNED_PC d
     else do {
       (ok, d) \<leftarrow> CheckRangeExecutable env PC INSTRUCTION_SIZE d;
       if \<not> ok then fault_unit PC (Decode env 0) NOEXEC_INST d
       else decode_region env PC Cap d
     }
   }"

section \<open>Witness ranges\<close>

text \<open>
  \<open>AddPeekWitnessRange\<close>. Its loop counts pages up to the end; it does not end when the page after
  the last one wraps, so the pages are counted with fuel.
\<close>

fun insert_pages :: "nat \<Rightarrow> u64 \<Rightarrow> u64 \<Rightarrow> u64 list \<Rightarrow> u64 list option" where
  "insert_pages 0 Page End pages = None"
| "insert_pages (Suc fuel) Page End pages =
     (if Page < End then insert_pages fuel (Page + FEX_GUEST_PAGE_SIZE) End (InsertSorted pages Page) else Some pages)"

definition AddPeekWitnessRange :: "nat \<Rightarrow> u64 \<Rightarrow> u64 \<Rightarrow> 'h decoder \<Rightarrow> 'h decoder option" where
  "AddPeekWitnessRange fuel Start End d =
     (if Start \<ge> End then Some d
      else map_option (\<lambda>pages. d\<lparr>DecodedMinAddress := min (DecodedMinAddress d) Start,
             DecodedMaxAddress := max (DecodedMaxAddress d) End, CodePages := pages\<rparr>)
           (insert_pages fuel (page_of Start) End (CodePages d)))"

end
