(* ===== verification/DecoderSpec.thy ===== *)
theory DecoderSpec
  imports Decoder
begin

text \<open>
  The decoder stays in bounds and ends, and the regions that it finds are what the rest of the
  system relies on: slots, executable ranges and the region discovery.
\<close>

section \<open>Addresses\<close>

lemma unat_add_no_wrap:
  fixes a n :: u64
  assumes "a \<le> a + n"
  shows "unat (a + n) = unat a + unat n"
proof -
  have "unat n < 2 ^ 64" using unsigned_less [of n] by simp
  then show ?thesis using assms by (simp add: word_le_nat_alt unat_plus_if' split: if_splits)
qed

lemma unat_add_small:
  fixes a n :: u64
  assumes "unat a + unat n < 2 ^ 64"
  shows "unat (a + n) = unat a + unat n"
  using assms by (simp add: unat_plus_if')

lemma disj_not: "x AND m = (0 :: u32) \<Longrightarrow> x AND NOT m = x"
proof -
  assume "x AND m = 0"
  then have "\<not> (bit x n \<and> bit m n)" for n using bit_and_iff [of x m n] by simp
  then show ?thesis by (auto simp: bit_eq_iff bit_simps)
qed

section \<open>Executable ranges\<close>

definition exec_byte :: "(u64 \<Rightarrow> u64 \<times> u64) \<Rightarrow> u64 \<Rightarrow> bool" where
  "exec_byte query a \<longleftrightarrow> snd (query a) \<noteq> 0"

text \<open>What the query promises: a range around the address in which every byte is executable.\<close>

definition query_ok :: "(u64 \<Rightarrow> u64 \<times> u64) \<Rightarrow> bool" where
  "query_ok query \<longleftrightarrow> (\<forall>a b n. query a = (b, n) \<longrightarrow> n \<noteq> 0 \<longrightarrow>
     b \<le> a \<and> a < b + n \<and> (\<forall>x. b \<le> x \<longrightarrow> x < b + n \<longrightarrow> exec_byte query x))"

definition range_ok :: "(u64 \<Rightarrow> u64 \<times> u64) \<Rightarrow> u64 \<Rightarrow> u64 \<Rightarrow> bool" where
  "range_ok query base end \<longleftrightarrow> (\<forall>x. base \<le> x \<longrightarrow> x < end \<longrightarrow> exec_byte query x)"

definition exec_range :: "(u64 \<Rightarrow> u64 \<times> u64) \<Rightarrow> u64 \<Rightarrow> u64 \<Rightarrow> bool" where
  "exec_range query a n \<longleftrightarrow> (\<forall>x. a \<le> x \<longrightarrow> x < a + n \<longrightarrow> exec_byte query x)"

lemma check_range_correct:
  assumes "query_ok query" "range_ok query base end" "0 < n" "a < a + n"
  shows "\<exists>ok base' end'. check_range query base end a n = Some (ok, base', end') \<and> range_ok query base' end' \<and> (ok \<longleftrightarrow> exec_range query a n)"
  using assms(2-)
proof (induction "unat n" arbitrary: a n base "end" rule: less_induct)
  case less
  show ?case
  proof (cases "a < base \<or> a + n > end")
    case False
    then have "exec_range query a n" using less.prems(1) unfolding range_ok_def exec_range_def by auto
    moreover have "check_range query base end a n = Some (True, base, end)" using False by (subst check_range.simps) simp
    ultimately show ?thesis using less.prems(1) by blast
  next
    case True
    obtain b m where q: "query a = (b, m)" by (cases "query a")
    show ?thesis
    proof (cases "m = 0")
      case True
      have "\<not> exec_byte query a" using q True by (simp add: exec_byte_def)
      moreover have "a < a + n" by (rule less.prems(3))
      ultimately have "\<not> exec_range query a n" unfolding exec_range_def by auto
      moreover have "check_range query base end a n = Some (False, b, b)"
        using q True \<open>a < base \<or> a + n > end\<close> by (subst check_range.simps) simp
      moreover have "range_ok query b b" by (auto simp: range_ok_def)
      ultimately show ?thesis by blast
    next
      case False
      then have b: "b \<le> a" "a < b + m" "range_ok query b (b + m)" using assms(1) q unfolding query_ok_def range_ok_def by blast+
      define rem where "rem = b + m - a"
      have rem: "a + rem = b + m" by (simp add: rem_def)
      have step: "check_range query base end a n =
          (if n > rem then check_range query b (b + m) (a + rem) (n - rem) else check_range query b (b + m) a n)"
        using q False \<open>a < base \<or> a + n > end\<close> by (subst check_range.simps) (simp add: rem_def Let_def)
      show ?thesis
      proof (cases "n > rem")
        case True
        have u: "unat (n - rem) = unat n - unat rem" using True by (intro unat_sub) simp
        have e: "a + rem + (n - rem) = a + n" by simp
        have "unat (a + rem) = unat a + unat rem" "unat (a + n) = unat a + unat n"
          using unat_add_no_wrap [of a rem] unat_add_no_wrap [of a n] b(2) rem less.prems(3) by simp_all
        then have "unat (n - rem) < unat n" "0 < n - rem" "a + rem < a + rem + (n - rem)"
          unfolding e using u True b(2) rem by (simp_all add: word_less_nat_alt)
        then obtain ok base' end' where r: "check_range query b (b + m) (a + rem) (n - rem) = Some (ok, base', end')" "range_ok query base' end'"
          "ok \<longleftrightarrow> exec_range query (a + rem) (n - rem)" using less.hyps b(3) by blast
        have "exec_range query a n \<longleftrightarrow> exec_range query (a + rem) (n - rem)"
        proof -
          have near: "exec_byte query x" if "a \<le> x" "x < a + rem" for x using that b(1,3) unfolding rem range_ok_def by auto
          have le: "a \<le> a + rem" using b(2) rem by simp
          show ?thesis unfolding exec_range_def e
          proof (intro iffI allI impI)
            show "exec_byte query x" if "\<forall>x \<ge> a. x < a + n \<longrightarrow> exec_byte query x" "a + rem \<le> x" "x < a + n" for x
              using that order_trans [OF le that(2)] by simp
            show "exec_byte query x" if "\<forall>x \<ge> a + rem. x < a + n \<longrightarrow> exec_byte query x" "a \<le> x" "x < a + n" for x
              using that near [of x] by (cases "x < a + rem") simp_all
          qed
        qed
        then show ?thesis using r step True by simp
      next
        case False
        have "unat (a + rem) = unat a + unat rem" "unat (a + n) = unat a + unat n"
          using unat_add_no_wrap [of a rem] unat_add_no_wrap [of a n] b(2) rem less.prems(3) by simp_all
        then have "a + n \<le> a + rem" using False by (simp add: word_le_nat_alt word_less_nat_alt)
        then have "\<not> (a < b \<or> a + n > b + m)" using b(1) rem by (simp add: linorder_not_less)
        then have "check_range query b (b + m) a n = Some (True, b, b + m)" by (subst check_range.simps) simp
        moreover have "exec_range query a n" using b(1,3) \<open>\<not> (a < b \<or> a + n > b + m)\<close> unfolding exec_range_def range_ok_def by auto
        ultimately show ?thesis using step False b(3) by auto
      qed
    qed
  qed
qed

definition env_exec :: "'h decoder_env \<Rightarrow> u64 \<Rightarrow> u64 \<Rightarrow> bool" where
  "env_exec env a n \<longleftrightarrow> (case QueryGuestExecutableRange env of None \<Rightarrow> True | Some query \<Rightarrow> exec_range query a n)"

definition env_ok :: "'h decoder_env \<Rightarrow> bool" where
  "env_ok env \<longleftrightarrow> (case QueryGuestExecutableRange env of None \<Rightarrow> True | Some query \<Rightarrow> query_ok query)"

definition cache_ok :: "'h decoder_env \<Rightarrow> 'h decoder \<Rightarrow> bool" where
  "cache_ok env d \<longleftrightarrow> (case QueryGuestExecutableRange env of None \<Rightarrow> True | Some query \<Rightarrow> range_ok query (RangeBase d) (RangeEnd d))"

lemma CheckRangeExecutable_correct:
  assumes "env_ok env" "cache_ok env d" "0 < n" "a < a + n"
  obtains b e where "CheckRangeExecutable env a n d = Some (env_exec env a n, d\<lparr>RangeBase := b, RangeEnd := e\<rparr>)"
    "cache_ok env (d\<lparr>RangeBase := b, RangeEnd := e\<rparr>)"
proof (cases "QueryGuestExecutableRange env")
  case None
  have "d\<lparr>RangeBase := RangeBase d, RangeEnd := RangeEnd d\<rparr> = d" by simp
  then show ?thesis using that [where b = "RangeBase d" and e = "RangeEnd d"] None by (simp add: CheckRangeExecutable_def env_exec_def cache_ok_def)
next
  case (Some query)
  then have "query_ok query" "range_ok query (RangeBase d) (RangeEnd d)" using assms(1,2) by (simp_all add: env_ok_def cache_ok_def)
  then obtain ok b e where "check_range query (RangeBase d) (RangeEnd d) a n = Some (ok, b, e)" "range_ok query b e" "ok \<longleftrightarrow> exec_range query a n"
    using check_range_correct [OF _ _ assms(3,4)] by blast
  then show ?thesis using that [where b = b and e = e] Some by (simp add: CheckRangeExecutable_def env_exec_def cache_ok_def)
qed

section \<open>Slots\<close>

text \<open>A window that lies below the top of memory, with a slot for each of its words.\<close>

definition win_ok :: "window \<Rightarrow> 'h decoder \<Rightarrow> bool" where
  "win_ok win d \<longleftrightarrow> WindowLow win \<le> WindowHigh win \<and> unat (WindowHigh win) + 64 < 2 ^ 64 \<and> Gen win AND GenMask = Gen win \<and>
     (unat (WindowHigh win) - unat (WindowLow win)) div 4 < length (SlotStamp d) \<and>
     length (SlotWord d) = length (SlotStamp d) \<and> length (SlotMatcher d) = length (SlotStamp d) \<and>
     (\<forall>S \<in> set (SlotStamp d). S AND GenMask \<le> Gen win)"

lemma aligned_iff: "(a :: u64) AND (INSTRUCTION_SIZE - 1) = 0 \<longleftrightarrow> unat a mod 4 = 0"
proof -
  have c: "INSTRUCTION_SIZE - 1 = 3" by simp
  have "unat (take_bit 2 a) = unat a mod 4" by (simp only: unsigned_take_bit_eq) (simp add: take_bit_eq_mod)
  then show ?thesis unfolding c and_low_mask by (metis unat_eq_zero)
qed

text \<open>Windows as ranges of natural numbers.\<close>

lemma InWindow_iff: "InWindow win a \<longleftrightarrow> unat (WindowLow win) \<le> unat a \<and> unat a \<le> unat (WindowHigh win) \<and> unat a mod 4 = 0"
  unfolding InWindow_def aligned_iff by (simp add: word_le_nat_alt)

lemma SlotOf_eq: "InWindow win a \<Longrightarrow> SlotOf win a = (unat a - unat (WindowLow win)) div 4"
  unfolding SlotOf_def InWindow_iff by (simp add: unat_div unat_sub word_le_nat_alt)

lemma SlotOf_bound: "InWindow win a \<Longrightarrow> win_ok win d \<Longrightarrow> SlotOf win a < length (SlotStamp d)"
proof -
  assume a: "InWindow win a" "win_ok win d"
  have "(unat a - unat (WindowLow win)) div 4 \<le> (unat (WindowHigh win) - unat (WindowLow win)) div 4"
    using a(1) by (intro div_le_mono diff_le_mono) (simp add: InWindow_iff)
  then show ?thesis using a by (simp add: SlotOf_eq win_ok_def)
qed

lemma slot_less:
  fixes x y l :: nat
  assumes "l \<le> x" "x < y" "x mod 4 = 0" "y mod 4 = 0"
  shows "(x - l) div 4 < (y - l) div 4"
proof -
  have "x + 4 \<le> y" using assms(2-4) by presburger
  then have "(x - l + 4) div 4 \<le> (y - l) div 4" using assms(1) by (intro div_le_mono) simp
  then show ?thesis by simp
qed

lemma SlotOf_inj:
  assumes "InWindow win a" "InWindow win b"
  shows "SlotOf win a = SlotOf win b \<longleftrightarrow> a = b"
proof -
  have "unat a = unat b" if "SlotOf win a = SlotOf win b"
    using slot_less [of "unat (WindowLow win)" "unat a" "unat b"] slot_less [of "unat (WindowLow win)" "unat b" "unat a"] assms that
    by (cases "unat a" "unat b" rule: linorder_cases) (simp_all add: SlotOf_eq InWindow_iff)
  then show ?thesis using word_unat_eq_iff [of a b] by auto
qed

text \<open>The addresses that carry a flag in the current generation.\<close>

definition stamp_flags :: "u32 \<Rightarrow> u32 \<Rightarrow> u32" where
  "stamp_flags g S = (if S AND GenMask = g then S AND NOT GenMask else 0)"

definition marked :: "window \<Rightarrow> u32 \<Rightarrow> 'h decoder \<Rightarrow> u64 set" where
  "marked win B d = {a. InWindow win a \<and> stamp_flags (Gen win) (SlotStamp d ! SlotOf win a) AND B \<noteq> 0}"

lemma Flags_in: "InWindow win a \<Longrightarrow> win_ok win d \<Longrightarrow> Flags win d a = Some (stamp_flags (Gen win) (SlotStamp d ! SlotOf win a))"
  by (simp add: Flags_def read_at_def SlotOf_bound stamp_flags_def)

lemma Flags_marked:
  assumes "InWindow win a" "win_ok win d"
  obtains F where "Flags win d a = Some F" "F AND DecodedBit \<noteq> 0 \<longleftrightarrow> a \<in> marked win DecodedBit d"
    "F AND LeaderBit \<noteq> 0 \<longleftrightarrow> a \<in> marked win LeaderBit d" "F AND StopBit \<noteq> 0 \<longleftrightarrow> a \<in> marked win StopBit d"
  using Flags_in [OF assms] assms(1) by (simp add: marked_def)

abbreviation flag_bit :: "u32 \<Rightarrow> bool" where "flag_bit B \<equiv> B = DecodedBit \<or> B = LeaderBit \<or> B = StopBit"

lemma flag_bit_mask: "flag_bit B \<Longrightarrow> B AND GenMask = 0" "flag_bit B \<Longrightarrow> flag_bit F \<Longrightarrow> F AND B \<noteq> 0 \<longleftrightarrow> F = B"
  by auto

lemma masked_or:
  fixes x y m :: u32
  shows "(x OR y) AND m = (x AND m) OR (y AND m)" "(x AND m) AND NOT m = 0"
  by (rule bit_word_eqI; auto simp: bit_simps)+

lemma stamp_gen:
  fixes g F S m :: u32
  assumes "g AND m = g" "F AND m = 0"
  shows "((if S AND m = g then S else g) OR F) AND m = g"
  using assms by (simp add: masked_or)

lemma stamp_flags_set:
  assumes "g AND GenMask = g" "F AND GenMask = 0"
  shows "stamp_flags g ((if S AND GenMask = g then S else g) OR F) = stamp_flags g S OR F"
proof -
  have *: "(S' OR F) AND m = g \<and> (S' OR F) AND NOT m = (S' AND NOT m) OR F" if "S' AND m = g" "F AND m = 0" for S' m
    using that disj_not [OF that(2)] unfolding masked_or by simp
  have "g AND NOT m = 0" if "g AND m = g" for m using masked_or(2) [of g m] that by simp
  note z = this [OF assms(1)]
  show ?thesis
  proof (cases "S AND GenMask = g")
    case True
    then show ?thesis using * [OF True assms(2)] by (simp only: stamp_flags_def if_True refl)
  next
    case False
    then show ?thesis using * [OF assms] z by (simp only: stamp_flags_def if_True if_False refl or.left_neutral)
  qed
qed

text \<open>Setting a flag at one address.\<close>

lemma SetFlag_correct:
  assumes "InWindow win a" "win_ok win d" "flag_bit F"
  obtains stamps where "SetFlag win a F d = Some (d\<lparr>SlotStamp := stamps\<rparr>)" "win_ok win (d\<lparr>SlotStamp := stamps\<rparr>)"
    "\<And>B. flag_bit B \<Longrightarrow> marked win B (d\<lparr>SlotStamp := stamps\<rparr>) = (if B = F then insert a (marked win B d) else marked win B d)"
proof -
  let ?i = "SlotOf win a"
  define x where "x = (if SlotStamp d ! ?i AND GenMask = Gen win then SlotStamp d ! ?i else Gen win) OR F"
  define stamps where "stamps = (SlotStamp d)[?i := x]"
  have i: "?i < length (SlotStamp d)" by (rule SlotOf_bound [OF assms(1,2)])
  then have 1: "SetFlag win a F d = Some (d\<lparr>SlotStamp := stamps\<rparr>)" by (simp add: SetFlag_def read_at_def write_at_def stamps_def x_def)
  have g: "Gen win AND GenMask = Gen win" using assms(2) by (simp only: win_ok_def)
  have "x AND GenMask = Gen win" unfolding x_def by (rule stamp_gen [OF g flag_bit_mask(1) [OF assms(3)]])
  then have "y AND GenMask \<le> Gen win" if "y \<in> set stamps" for y
    using that assms(2) set_update_subset_insert [of "SlotStamp d" ?i x] by (auto simp: win_ok_def stamps_def)
  then have 2: "win_ok win (d\<lparr>SlotStamp := stamps\<rparr>)" using assms(2) by (simp add: win_ok_def stamps_def)
  have x: "stamp_flags (Gen win) x = stamp_flags (Gen win) (SlotStamp d ! ?i) OR F"
    unfolding x_def by (rule stamp_flags_set [OF g flag_bit_mask(1) [OF assms(3)]])
  have 3: "marked win B (d\<lparr>SlotStamp := stamps\<rparr>) = (if B = F then insert a (marked win B d) else marked win B d)" if "flag_bit B" for B
  proof -
    have "stamp_flags (Gen win) (stamps ! SlotOf win b) AND B \<noteq> 0 \<longleftrightarrow>
        stamp_flags (Gen win) (SlotStamp d ! SlotOf win b) AND B \<noteq> 0 \<or> b = a \<and> B = F" if b: "InWindow win b" for b
    proof (cases "b = a")
      case True
      have "stamps ! SlotOf win b = x" using True i by (simp add: stamps_def)
      moreover have "(y OR F) AND B \<noteq> 0 \<longleftrightarrow> y AND B \<noteq> 0 \<or> F AND B \<noteq> 0" for y unfolding masked_or by (auto simp: or_eq_0_iff)
      ultimately show ?thesis using True x flag_bit_mask(2) [OF \<open>flag_bit B\<close> assms(3)] by (simp add: eq_commute [of B F])
    next
      case False
      then show ?thesis using SlotOf_inj [OF assms(1) b] by (auto simp: stamps_def)
    qed
    then show ?thesis using assms(1) by (auto simp: marked_def)
  qed
  show ?thesis by (rule that [OF 1 2 3])
qed

section \<open>Discovery\<close>

text \<open>What the slot of a decoded word holds, and which words end a run.\<close>

definition word_matcher :: "'h decoder_env \<Rightarrow> u64 \<Rightarrow> 'h inst_matcher option" where
  "word_matcher env a =
     (if GuestWord env a = THUNK_MARKER_WORD \<and> \<not> env_exec env (a + INSTRUCTION_SIZE) THUNK_HASH_SIZE then None
      else Decode env (GuestWord env a))"

definition stops :: "'h decoder_env \<Rightarrow> u64 \<Rightarrow> bool" where
  "stops env a \<longleftrightarrow> \<not> has_handler (word_matcher env a) \<or> EndsBlock (GuestWord env a) (SMCICache env)"

text \<open>The fields that the discovery does not touch.\<close>

definition unit_part :: "'h decoder \<Rightarrow> 'h decoded_inst list \<times> u32 \<times> nat \<times> decoded_block list \<times> u64 list \<times> u64 list \<times> u64 \<times> u64" where
  "unit_part d = (DecodedBuffer d, Generation d, TotalInstructionCount d, Blocks d, EntryPoints d, CodePages d, DecodedMinAddress d, DecodedMaxAddress d)"

definition slots_ok :: "'h decoder_env \<Rightarrow> window \<Rightarrow> 'h decoder \<Rightarrow> bool" where
  "slots_ok env win d \<longleftrightarrow> win_ok win d \<and> cache_ok env d \<and> marked win StopBit d \<subseteq> marked win DecodedBit d \<and>
     (\<forall>a \<in> marked win DecodedBit d. SlotWord d ! SlotOf win a = GuestWord env a \<and> SlotMatcher d ! SlotOf win a = word_matcher env a \<and>
        env_exec env a INSTRUCTION_SIZE)"

definition leaders_ok :: "window \<Rightarrow> u64 \<Rightarrow> 'h decoder \<Rightarrow> bool" where
  "leaders_ok win PC d \<longleftrightarrow> Leaders d \<noteq> [] \<and> hd (Leaders d) = PC \<and> distinct (Leaders d) \<and> set (Leaders d) = marked win LeaderBit d \<and>
     set (Worklist d) \<subseteq> set (Leaders d)"

text \<open>A word is decoded because it is a leader or follows a word that does not end its run.\<close>

definition rooted :: "'h decoder_env \<Rightarrow> window \<Rightarrow> 'h decoder \<Rightarrow> u64 \<Rightarrow> bool" where
  "rooted env win d a \<longleftrightarrow> a \<in> marked win LeaderBit d \<or> (\<exists>b \<in> marked win DecodedBit d. \<not> stops env b \<and> a = b + INSTRUCTION_SIZE)"

lemma rooted_mono: "rooted env win d a \<Longrightarrow> marked win LeaderBit d \<subseteq> marked win LeaderBit d' \<Longrightarrow> marked win DecodedBit d \<subseteq> marked win DecodedBit d' \<Longrightarrow>
    rooted env win d' a"
  unfolding rooted_def by blast

definition region_inv :: "'h decoder_env \<Rightarrow> window \<Rightarrow> u64 \<Rightarrow> nat \<Rightarrow> nat \<Rightarrow> 'h decoder \<Rightarrow> bool" where
  "region_inv env win PC cap n d \<longleftrightarrow> slots_ok env win d \<and> leaders_ok win PC d \<and> card (marked win DecodedBit d) + n = cap \<and>
     (\<forall>a \<in> marked win DecodedBit d. a \<in> marked win StopBit d \<longleftrightarrow> stops env a) \<and> (\<forall>a \<in> marked win DecodedBit d. rooted env win d a)"

lemma InWindow_step: "InWindow win a \<Longrightarrow> win_ok win d \<Longrightarrow> unat (a + INSTRUCTION_SIZE) = unat a + 4 \<and> a < a + INSTRUCTION_SIZE \<and>
    a + INSTRUCTION_SIZE < a + INSTRUCTION_SIZE + THUNK_HASH_SIZE \<and> unat (a + INSTRUCTION_SIZE + THUNK_HASH_SIZE) = unat a + 36"
proof -
  assume a: "InWindow win a" "win_ok win d"
  then have b: "unat a + 64 < 2 ^ 64" by (simp add: InWindow_iff win_ok_def)
  have 1: "unat (a + INSTRUCTION_SIZE) = unat a + 4" using b by (subst unat_add_small) simp_all
  moreover have "unat (a + INSTRUCTION_SIZE + THUNK_HASH_SIZE) = unat a + 36" using b by (subst unat_add_small) (simp_all only: 1, simp_all)
  ultimately show ?thesis by (simp add: word_less_nat_alt)
qed

lemma slot_matcher_correct:
  assumes "env_ok env" "cache_ok env d" "a + INSTRUCTION_SIZE < a + INSTRUCTION_SIZE + THUNK_HASH_SIZE"
  obtains b e where "slot_matcher env a (GuestWord env a) d = Some (word_matcher env a, d\<lparr>RangeBase := b, RangeEnd := e\<rparr>)"
    "cache_ok env (d\<lparr>RangeBase := b, RangeEnd := e\<rparr>)"
proof (cases "GuestWord env a = THUNK_MARKER_WORD")
  case True
  obtain b e where c: "CheckRangeExecutable env (a + INSTRUCTION_SIZE) THUNK_HASH_SIZE d =
      Some (env_exec env (a + INSTRUCTION_SIZE) THUNK_HASH_SIZE, d\<lparr>RangeBase := b, RangeEnd := e\<rparr>)"
    "cache_ok env (d\<lparr>RangeBase := b, RangeEnd := e\<rparr>)" by (rule CheckRangeExecutable_correct [OF assms(1,2) _ assms(3)]) simp
  then show ?thesis using that [where b = b and e = e] True by (simp add: slot_matcher_def word_matcher_def)
next
  case False
  have "d\<lparr>RangeBase := RangeBase d, RangeEnd := RangeEnd d\<rparr> = d" by simp
  then show ?thesis using that [where b = "RangeBase d" and e = "RangeEnd d"] False assms(2) by (simp add: slot_matcher_def word_matcher_def)
qed

lemma marked_cong: "SlotStamp d = SlotStamp d' \<Longrightarrow> marked win B d = marked win B d'"
  by (simp add: marked_def)

lemma cache_ok_cong: "RangeBase d = RangeBase d' \<Longrightarrow> RangeEnd d = RangeEnd d' \<Longrightarrow> cache_ok env d = cache_ok env d'"
  by (simp add: cache_ok_def split: option.split)

lemma slots_ok_cong:
  assumes "SlotStamp d = SlotStamp d'" "SlotWord d = SlotWord d'" "SlotMatcher d = SlotMatcher d'" "RangeBase d = RangeBase d'" "RangeEnd d = RangeEnd d'"
  shows "slots_ok env win d = slots_ok env win d'"
  using cache_ok_cong [OF assms(4,5)] marked_cong [OF assms(1)] assms(1-3) by (simp add: slots_ok_def win_ok_def)

lemma decode_word_correct:
  assumes "env_ok env" "slots_ok env win d" "InWindow win a" "env_exec env a INSTRUCTION_SIZE" "a \<notin> marked win DecodedBit d"
  obtains d' where "decode_word env win a d = Some (word_matcher env a, d')" "slots_ok env win d'"
    "marked win DecodedBit d' = insert a (marked win DecodedBit d)" "marked win LeaderBit d' = marked win LeaderBit d"
    "marked win StopBit d' = marked win StopBit d" "Leaders d' = Leaders d" "Worklist d' = Worklist d" "unit_part d' = unit_part d"
proof -
  let ?i = "SlotOf win a"
  have w: "win_ok win d" "cache_ok env d" using assms(2) by (simp_all add: slots_ok_def)
  have i: "?i < length (SlotWord d)" "?i < length (SlotMatcher d)" using SlotOf_bound [OF assms(3) w(1)] w(1) by (simp_all add: win_ok_def)
  define d1 where "d1 = d\<lparr>SlotWord := (SlotWord d)[?i := GuestWord env a]\<rparr>"
  have w1: "win_ok win d1" using w(1) by (simp add: win_ok_def d1_def)
  obtain st where s: "SetFlag win a DecodedBit d1 = Some (d1\<lparr>SlotStamp := st\<rparr>)" "win_ok win (d1\<lparr>SlotStamp := st\<rparr>)"
    "\<And>B. flag_bit B \<Longrightarrow> marked win B (d1\<lparr>SlotStamp := st\<rparr>) = (if B = DecodedBit then insert a (marked win B d1) else marked win B d1)"
    by (rule SetFlag_correct [OF assms(3) w1, where F = DecodedBit]) simp_all
  define d2 where "d2 = d1\<lparr>SlotStamp := st\<rparr>"
  have "cache_ok env d2" using w(2) cache_ok_cong [of d2 d] by (simp add: d1_def d2_def)
  then obtain b e where m: "slot_matcher env a (GuestWord env a) d2 = Some (word_matcher env a, d2\<lparr>RangeBase := b, RangeEnd := e\<rparr>)"
    "cache_ok env (d2\<lparr>RangeBase := b, RangeEnd := e\<rparr>)" using slot_matcher_correct [OF assms(1)] InWindow_step [OF assms(3) w(1)] by metis
  define d' where "d' = d2\<lparr>RangeBase := b, RangeEnd := e, SlotMatcher := (SlotMatcher d)[?i := word_matcher env a]\<rparr>"
  have mk: "marked win B d' = (if B = DecodedBit then insert a (marked win B d) else marked win B d)" if "flag_bit B" for B
    using s(3) [OF that] marked_cong [of d' "d1\<lparr>SlotStamp := st\<rparr>"] marked_cong [of d1 d] by (simp add: d'_def d2_def d1_def)
  have "decode_word env win a d = Some (word_matcher env a, d')"
    using i s(1) m(1) by (simp add: decode_word_def write_at_def d1_def [symmetric] d2_def [symmetric]) (simp add: d1_def d2_def d'_def)
  moreover have "slots_ok env win d'"
  proof -
    have "win_ok win d'" using s(2) by (simp add: win_ok_def d'_def d2_def d1_def)
    moreover have "cache_ok env d'" using m(2) cache_ok_cong [of d' "d2\<lparr>RangeBase := b, RangeEnd := e\<rparr>"] by (simp add: d'_def)
    moreover have "SlotWord d' ! SlotOf win x = GuestWord env x \<and> SlotMatcher d' ! SlotOf win x = word_matcher env x \<and> env_exec env x INSTRUCTION_SIZE"
      if "x \<in> insert a (marked win DecodedBit d)" for x
    proof (cases "x = a")
      case True
      then show ?thesis using i assms(4) by (simp add: d'_def d2_def d1_def)
    next
      case False
      then have "InWindow win x" using that by (simp add: marked_def)
      then have "SlotOf win a \<noteq> SlotOf win x" using SlotOf_inj [OF assms(3)] False by blast
      then show ?thesis using assms(2) False that by (simp add: slots_ok_def d'_def d2_def d1_def)
    qed
    moreover have "marked win StopBit d' \<subseteq> marked win DecodedBit d'" using mk assms(2) by (auto simp: slots_ok_def)
    ultimately show ?thesis using mk [of DecodedBit] by (simp add: slots_ok_def)
  qed
  ultimately show ?thesis using that [of d'] mk by (simp add: d'_def d2_def d1_def unit_part_def)
qed

text \<open>Setting one of the two other flags.\<close>

lemma SetFlag_slots:
  assumes "slots_ok env win d" "InWindow win a" "F = LeaderBit \<or> F = StopBit \<and> a \<in> marked win DecodedBit d"
  obtains d' where "SetFlag win a F d = Some d'" "slots_ok env win d'"
    "\<And>B. flag_bit B \<Longrightarrow> marked win B d' = (if B = F then insert a (marked win B d) else marked win B d)"
    "Leaders d' = Leaders d" "Worklist d' = Worklist d" "unit_part d' = unit_part d"
proof -
  have w: "win_ok win d" using assms(1) by (simp add: slots_ok_def)
  have F: "flag_bit F" using assms(3) by blast
  obtain st where s: "SetFlag win a F d = Some (d\<lparr>SlotStamp := st\<rparr>)" "win_ok win (d\<lparr>SlotStamp := st\<rparr>)"
    "\<And>B. flag_bit B \<Longrightarrow> marked win B (d\<lparr>SlotStamp := st\<rparr>) = (if B = F then insert a (marked win B d) else marked win B d)"
    by (rule SetFlag_correct [OF assms(2) w F]) blast
  have D: "marked win DecodedBit (d\<lparr>SlotStamp := st\<rparr>) = marked win DecodedBit d" using s(3) [of DecodedBit] assms(3) by auto
  have S: "marked win StopBit (d\<lparr>SlotStamp := st\<rparr>) \<subseteq> marked win DecodedBit d"
    using s(3) [of StopBit] assms(1,3) by (auto simp: slots_ok_def)
  have "cache_ok env (d\<lparr>SlotStamp := st\<rparr>)" using assms(1) cache_ok_cong [of "d\<lparr>SlotStamp := st\<rparr>" d] by (simp add: slots_ok_def)
  then have "slots_ok env win (d\<lparr>SlotStamp := st\<rparr>)" using s(2) D S assms(1) by (simp add: slots_ok_def)
  then show ?thesis using that [of "d\<lparr>SlotStamp := st\<rparr>"] s(1,3) by (simp add: unit_part_def)
qed

text \<open>A branch target becomes a leader and is put on the worklist, or nothing changes.\<close>

lemma region_inv_slots: "region_inv env win PC cap n d \<Longrightarrow> slots_ok env win d \<and> win_ok win d"
  by (simp add: region_inv_def slots_ok_def)

definition grows :: "window \<Rightarrow> 'h decoder \<Rightarrow> 'h decoder \<Rightarrow> bool" where
  "grows win d d' \<longleftrightarrow> unit_part d' = unit_part d \<and> set (Leaders d') - set (Leaders d) = set (Worklist d') - set (Worklist d) \<and>
     set (Worklist d) \<subseteq> set (Worklist d') \<and> set (Leaders d) \<subseteq> set (Leaders d') \<and> marked win DecodedBit d' = marked win DecodedBit d"

lemma follow_target_correct:
  assumes "region_inv env win PC cap n d"
  obtains d' where "follow_target env win pc T d = Some d'" "region_inv env win PC cap n d'" "grows win d d'"
proof (cases "InWindow win T \<and> T \<notin> marked win LeaderBit d \<and> length (Leaders d) < MaxLeaders env \<and> (if T > pc then T - pc else pc - T) \<le> RegionWindow env")
  case False
  have w: "win_ok win d" using region_inv_slots [OF assms] by simp
  have "follow_target env win pc T d = Some d"
  proof (cases "InWindow win T")
    case True
    obtain Fl where "Flags win d T = Some Fl" "Fl AND LeaderBit \<noteq> 0 \<longleftrightarrow> T \<in> marked win LeaderBit d" by (rule Flags_marked [OF True w])
    then show ?thesis using False True unfolding follow_target_def Let_def by auto
  qed (simp add: follow_target_def)
  then show ?thesis using that assms by (simp add: grows_def)
next
  case True
  have i: "slots_ok env win d" "win_ok win d" "leaders_ok win PC d" using region_inv_slots [OF assms] assms by (simp_all add: region_inv_def)
  obtain Fl where Fl: "Flags win d T = Some Fl" "Fl AND LeaderBit \<noteq> 0 \<longleftrightarrow> T \<in> marked win LeaderBit d" by (rule Flags_marked) (use True i in blast)+
  define d1 where "d1 = d\<lparr>Leaders := Leaders d @ [T]\<rparr>"
  have m1: "marked win B d1 = marked win B d" for B by (rule marked_cong) (simp add: d1_def)
  have "slots_ok env win d1" using i(1) slots_ok_cong [of d1 d] by (simp add: d1_def)
  then obtain d2 where d2: "SetFlag win T LeaderBit d1 = Some d2" "slots_ok env win d2"
    "\<And>B. flag_bit B \<Longrightarrow> marked win B d2 = (if B = LeaderBit then insert T (marked win B d1) else marked win B d1)"
    "Leaders d2 = Leaders d1" "Worklist d2 = Worklist d1" "unit_part d2 = unit_part d1"
    by (rule SetFlag_slots [where F = LeaderBit and a = T]) (use True in simp_all)
  define d' where "d' = d2\<lparr>Worklist := Worklist d2 @ [T]\<rparr>"
  have m': "marked win B d' = (if B = LeaderBit then insert T (marked win B d) else marked win B d)" if "flag_bit B" for B
    using d2(3) [OF that] m1 marked_cong [of d' d2] by (simp add: d'_def)
  have f: "Leaders d' = Leaders d @ [T]" "Worklist d' = Worklist d @ [T]" "unit_part d' = unit_part d"
    using d2(4-6) by (simp_all add: d'_def d1_def unit_part_def)
  have "follow_target env win pc T d = Some d'"
    using True Fl d2(1) by (auto simp: follow_target_def Let_def d1_def [symmetric] d'_def)
  moreover have "leaders_ok win PC d'" using i(3) m' [of LeaderBit] f True by (auto simp: leaders_ok_def)
  moreover have "slots_ok env win d'" using d2(2) slots_ok_cong [of d' d2] by (simp add: d'_def)
  moreover have "grows win d d'" using f m' [of DecodedBit] i(3) True unfolding grows_def leaders_ok_def by auto
  moreover have "rooted env win d' a" if "rooted env win d a" for a by (rule rooted_mono [OF that]) (auto simp: m')
  ultimately show ?thesis using that [of d'] assms m' by (simp add: region_inv_def)
qed

lemma grows_trans: "grows win d d1 \<Longrightarrow> grows win d1 d2 \<Longrightarrow> grows win d d2"
  unfolding grows_def by auto

lemma follow_targets_correct:
  assumes "region_inv env win PC cap n d"
  shows "\<exists>d'. follow_targets env win pc Ts d = Some d' \<and> region_inv env win PC cap n d' \<and> grows win d d'"
  using assms
proof (induction Ts arbitrary: d)
  case Nil
  then show ?case by (simp add: grows_def)
next
  case (Cons T Ts)
  obtain d1 where 1: "follow_target env win pc T d = Some d1" "region_inv env win PC cap n d1" "grows win d d1"
    by (rule follow_target_correct [OF Cons.prems])
  then show ?case using Cons.IH [OF 1(2)] grows_trans [OF 1(3)] by auto
qed

text \<open>
  Which targets are followed: those near the branch and in the window, while there is room for
  leaders.
\<close>

definition near :: "'h decoder_env \<Rightarrow> window \<Rightarrow> u64 \<Rightarrow> u64 \<Rightarrow> bool" where
  "near env win pc T \<longleftrightarrow> (if T > pc then T - pc else pc - T) \<le> RegionWindow env \<and> InWindow win T"

lemma SetFlag_Leaders: "SetFlag win a F d = Some d' \<Longrightarrow> Leaders d' = Leaders d"
  by (auto simp: SetFlag_def bind_eq_Some_conv)

lemma follow_target_leaders:
  assumes "region_inv env win PC cap n d" "follow_target env win pc T d = Some d'"
  shows "Leaders d' = Leaders d \<or> Leaders d' = Leaders d @ [T] \<and> near env win pc T"
    "near env win pc T \<Longrightarrow> T \<in> set (Leaders d') \<or> MaxLeaders env \<le> length (Leaders d')"
proof -
  have i: "win_ok win d" "set (Leaders d) = marked win LeaderBit d" using region_inv_slots [OF assms(1)] assms(1) by (simp_all add: region_inv_def leaders_ok_def)
  have "(Leaders d' = Leaders d \<or> Leaders d' = Leaders d @ [T] \<and> near env win pc T) \<and>
    (near env win pc T \<longrightarrow> T \<in> set (Leaders d') \<or> MaxLeaders env \<le> length (Leaders d'))"
  proof (cases "near env win pc T")
    case False
    then have "d' = d" using assms(2) by (auto simp: follow_target_def near_def Let_def split: if_splits)
    then show ?thesis using False by simp
  next
    case True
    then have "InWindow win T" by (simp add: near_def)
    then obtain F where F: "Flags win d T = Some F" "F AND LeaderBit \<noteq> 0 \<longleftrightarrow> T \<in> marked win LeaderBit d" by (rule Flags_marked [OF _ i(1)])
    then show ?thesis using assms(2) True i(2)
      by (auto simp: follow_target_def near_def Let_def bind_eq_Some_conv split: if_splits dest!: SetFlag_Leaders)
  qed
  then show "Leaders d' = Leaders d \<or> Leaders d' = Leaders d @ [T] \<and> near env win pc T"
    "near env win pc T \<Longrightarrow> T \<in> set (Leaders d') \<or> MaxLeaders env \<le> length (Leaders d')" by blast+
qed

lemma follow_targets_leaders:
  assumes "region_inv env win PC cap n d" "follow_targets env win pc Ts d = Some d'"
  shows "(\<exists>new. Leaders d' = Leaders d @ new \<and> (\<forall>T \<in> set new. T \<in> set Ts \<and> near env win pc T)) \<and>
    (\<forall>T \<in> set Ts. near env win pc T \<longrightarrow> T \<in> set (Leaders d') \<or> MaxLeaders env \<le> length (Leaders d'))"
  using assms
proof (induction Ts arbitrary: d)
  case (Cons T Ts)
  obtain d1 where 1: "follow_target env win pc T d = Some d1" "region_inv env win PC cap n d1" by (rule follow_target_correct [OF Cons.prems(1)])
  have "follow_targets env win pc Ts d1 = Some d'" using Cons.prems(2) 1(1) by simp
  from Cons.IH [OF 1(2) this] obtain new where new: "Leaders d' = Leaders d1 @ new" "\<forall>T \<in> set new. T \<in> set Ts \<and> near env win pc T"
    "\<forall>T \<in> set Ts. near env win pc T \<longrightarrow> T \<in> set (Leaders d') \<or> MaxLeaders env \<le> length (Leaders d')" by blast
  note f = follow_target_leaders [OF Cons.prems(1) 1(1)]
  have "near env win pc T \<longrightarrow> T \<in> set (Leaders d') \<or> MaxLeaders env \<le> length (Leaders d')" using f(2) new(1) by auto
  moreover have "\<exists>new. Leaders d' = Leaders d @ new \<and> (\<forall>S \<in> set new. S \<in> set (T # Ts) \<and> near env win pc S)"
    using f(1) new(1,2) by (metis append.assoc append_Cons append_Nil list.set_intros set_ConsD)
  ultimately show ?case using new(3) by simp
qed simp

text \<open>
  The leaders: each but the entry is a target of a decoded branch, and each target of a decoded
  branch that may be followed is a leader, unless there are too many.
\<close>

definition branches :: "'h decoder_env \<Rightarrow> bool \<Rightarrow> u64 \<Rightarrow> bool" where
  "branches env f a \<longleftrightarrow> f \<and> has_handler (word_matcher env a) \<and> stops env a"

definition followed :: "'h decoder_env \<Rightarrow> window \<Rightarrow> bool \<Rightarrow> u64 \<Rightarrow> 'h decoder \<Rightarrow> 'h decoder \<Rightarrow> bool" where
  "followed env win f a d d' \<longleftrightarrow>
     (\<exists>new. Leaders d' = Leaders d @ new \<and> (\<forall>T \<in> set new. branches env f a \<and> T \<in> set (GetDirectSuccessors (GuestWord env a) a) \<and> near env win a T)) \<and>
     (branches env f a \<longrightarrow> (\<forall>T \<in> set (GetDirectSuccessors (GuestWord env a) a). near env win a T \<longrightarrow> T \<in> set (Leaders d') \<or> MaxLeaders env \<le> length (Leaders d')))"

definition led :: "'h decoder_env \<Rightarrow> window \<Rightarrow> bool \<Rightarrow> u64 \<Rightarrow> 'h decoder \<Rightarrow> bool" where
  "led env win f PC d \<longleftrightarrow>
     (\<forall>L \<in> set (Leaders d). L = PC \<or>
        (\<exists>a \<in> marked win DecodedBit d. branches env f a \<and> L \<in> set (GetDirectSuccessors (GuestWord env a) a) \<and> near env win a L)) \<and>
     (\<forall>a \<in> marked win DecodedBit d. branches env f a \<longrightarrow> (\<forall>T \<in> set (GetDirectSuccessors (GuestWord env a) a). near env win a T \<longrightarrow>
        T \<in> set (Leaders d) \<or> MaxLeaders env \<le> length (Leaders d)))"

lemma led_cong: "Leaders d' = Leaders d \<Longrightarrow> marked win DecodedBit d' = marked win DecodedBit d \<Longrightarrow> led env win f PC d' = led env win f PC d"
  by (simp add: led_def)

lemma led_next:
  assumes "led env win f PC d" "\<not> stops env a" "marked win DecodedBit d' = insert a (marked win DecodedBit d)" "Leaders d' = Leaders d"
  shows "led env win f PC d'"
  using assms unfolding led_def branches_def by auto

lemma led_ended:
  assumes "led env win f PC d" "marked win DecodedBit d' = insert a (marked win DecodedBit d)" "followed env win f a d d'"
  shows "led env win f PC d'"
proof -
  obtain new where new: "Leaders d' = Leaders d @ new"
    "\<forall>T \<in> set new. branches env f a \<and> T \<in> set (GetDirectSuccessors (GuestWord env a) a) \<and> near env win a T"
    "branches env f a \<longrightarrow> (\<forall>T \<in> set (GetDirectSuccessors (GuestWord env a) a). near env win a T \<longrightarrow> T \<in> set (Leaders d') \<or> MaxLeaders env \<le> length (Leaders d'))"
    using assms(3) unfolding followed_def by blast
  have "T \<in> set (Leaders d') \<or> MaxLeaders env \<le> length (Leaders d')" if "T \<in> set (Leaders d) \<or> MaxLeaders env \<le> length (Leaders d)" for T
    using that new(1) by auto
  then show ?thesis using assms(1,2) new unfolding led_def by auto
qed

text \<open>
  Where the discovery has been: a word is reached when it is decoded, when it is waiting, or when it
  cannot be decoded; every leader is reached, and so is the word after a decoded one that does not
  end its run.
\<close>

definition reached :: "'h decoder_env \<Rightarrow> window \<Rightarrow> u64 set \<Rightarrow> 'h decoder \<Rightarrow> u64 \<Rightarrow> bool" where
  "reached env win X d a \<longleftrightarrow> a \<in> marked win DecodedBit d \<union> X \<or> \<not> InWindow win a \<or> \<not> env_exec env a INSTRUCTION_SIZE"

definition settled :: "'h decoder_env \<Rightarrow> window \<Rightarrow> u64 set \<Rightarrow> 'h decoder \<Rightarrow> bool" where
  "settled env win X d \<longleftrightarrow> (\<forall>L \<in> set (Leaders d). reached env win X d L) \<and>
     (\<forall>a \<in> marked win DecodedBit d. \<not> stops env a \<longrightarrow> reached env win X d (a + INSTRUCTION_SIZE))"

lemma finite_marked: "finite (marked win B d)"
  by simp

text \<open>The three outcomes of a round.\<close>

definition one_ok :: "'h decoder_env \<Rightarrow> window \<Rightarrow> bool \<Rightarrow> u64 \<Rightarrow> nat \<Rightarrow> nat \<Rightarrow> u64 \<Rightarrow> 'h decoder \<Rightarrow> 'h decode_next \<Rightarrow> bool" where
  "one_ok env win f PC cap n a d r \<longleftrightarrow>
     (case r of
        Leave d' \<Rightarrow> region_inv env win PC cap (Suc n) d' \<and> grows win d d' \<and> Leaders d' = Leaders d \<and> reached env win {} d a
      | Ended d' \<Rightarrow> region_inv env win PC cap n d' \<and> stops env a \<and> (\<exists>d1. marked win DecodedBit d1 = insert a (marked win DecodedBit d) \<and>
          Leaders d1 = Leaders d \<and> Worklist d1 = Worklist d \<and> unit_part d1 = unit_part d \<and> grows win d1 d') \<and> followed env win f a d d'
      | Next d' \<Rightarrow> region_inv env win PC cap n d' \<and> \<not> stops env a \<and> marked win DecodedBit d' = insert a (marked win DecodedBit d) \<and>
          Leaders d' = Leaders d \<and> Worklist d' = Worklist d \<and> unit_part d' = unit_part d)"

lemma decode_one_leave:
  assumes "region_inv env win PC cap (Suc n) d" "env_ok env" "env_exec env PC INSTRUCTION_SIZE" "reached env win {} d a"
  shows "\<exists>d'. decode_one env win f PC a d = Some (Leave d') \<and> one_ok env win f PC cap n a d (Leave d')"
proof -
  have w: "win_ok win d" "cache_ok env d" using region_inv_slots [OF assms(1)] by (simp_all add: slots_ok_def)
  have g: "grows win d d" by (simp add: grows_def)
  show ?thesis
  proof (cases "InWindow win a \<and> a \<notin> marked win DecodedBit d")
    case False
    have "decode_one env win f PC a d = Some (Leave d)"
    proof (cases "InWindow win a")
      case True
      obtain F where "Flags win d a = Some F" "F AND DecodedBit \<noteq> 0 \<longleftrightarrow> a \<in> marked win DecodedBit d" by (rule Flags_marked [OF True w(1)])
      then show ?thesis using False True by (simp add: decode_one_def)
    qed (simp add: decode_one_def)
    then show ?thesis using assms(1,4) g by (simp add: one_ok_def)
  next
    case True
    then have ne: "\<not> env_exec env a INSTRUCTION_SIZE" using assms(4) by (auto simp: reached_def)
    obtain F where F: "Flags win d a = Some F" "F AND DecodedBit \<noteq> 0 \<longleftrightarrow> a \<in> marked win DecodedBit d" by (rule Flags_marked [OF _ w(1)]) (use True in blast)
    have "a < a + INSTRUCTION_SIZE" using InWindow_step [OF _ w(1)] True by blast
    then obtain b e where c: "CheckRangeExecutable env a INSTRUCTION_SIZE d = Some (env_exec env a INSTRUCTION_SIZE, d\<lparr>RangeBase := b, RangeEnd := e\<rparr>)"
      "cache_ok env (d\<lparr>RangeBase := b, RangeEnd := e\<rparr>)" by (rule CheckRangeExecutable_correct [OF assms(2) w(2), rotated]) simp_all
    let ?d = "d\<lparr>RangeBase := b, RangeEnd := e\<rparr>"
    have m: "marked win B ?d = marked win B d" for B by (rule marked_cong) simp
    have "a \<noteq> PC" using ne assms(3) by blast
    then have "decode_one env win f PC a d = Some (Leave ?d)" using True F c(1) ne by (simp add: decode_one_def)
    moreover have "region_inv env win PC cap (Suc n) ?d" using assms(1) c(2) m by (auto simp: region_inv_def slots_ok_def win_ok_def leaders_ok_def rooted_def)
    moreover have "grows win d ?d" using m by (simp add: grows_def unit_part_def)
    ultimately show ?thesis using assms(4) by (simp add: one_ok_def)
  qed
qed

lemma decode_one_decodes:
  assumes "region_inv env win PC cap (Suc n) d" "env_ok env" "env_exec env PC INSTRUCTION_SIZE" "\<not> reached env win {} d a"
    "rooted env win d a"
  shows "\<exists>r. decode_one env win f PC a d = Some r \<and> one_ok env win f PC cap n a d r \<and> (\<forall>d'. r \<noteq> Leave d')"
proof -
  have a: "InWindow win a" "a \<notin> marked win DecodedBit d" "env_exec env a INSTRUCTION_SIZE" using assms(4) by (auto simp: reached_def)
  have w: "win_ok win d" "cache_ok env d" using region_inv_slots [OF assms(1)] by (simp_all add: slots_ok_def)
  obtain F where F: "Flags win d a = Some F" "F AND DecodedBit \<noteq> 0 \<longleftrightarrow> a \<in> marked win DecodedBit d" by (rule Flags_marked [OF a(1) w(1)])
  have "a < a + INSTRUCTION_SIZE" using InWindow_step [OF a(1) w(1)] by blast
  then obtain b e where c: "CheckRangeExecutable env a INSTRUCTION_SIZE d = Some (env_exec env a INSTRUCTION_SIZE, d\<lparr>RangeBase := b, RangeEnd := e\<rparr>)"
    "cache_ok env (d\<lparr>RangeBase := b, RangeEnd := e\<rparr>)" by (rule CheckRangeExecutable_correct [OF assms(2) w(2), rotated]) simp_all
  define d0 where "d0 = (if a \<noteq> PC then d\<lparr>RangeBase := b, RangeEnd := e\<rparr> else d)"
  have c0: "(if a \<noteq> PC then CheckRangeExecutable env a INSTRUCTION_SIZE d else Some (True, d)) = Some (True, d0)"
    using c(1) a(3) by (simp add: d0_def)
  have m0: "marked win B d0 = marked win B d" for B by (rule marked_cong) (simp add: d0_def)
  have "slots_ok env win d0" using assms(1) c(2) m0 w(2) by (simp add: region_inv_def slots_ok_def win_ok_def) (simp add: d0_def)
  moreover have "a \<notin> marked win DecodedBit d0" using a(2) m0 by simp
  ultimately obtain d1 where d1: "decode_word env win a d0 = Some (word_matcher env a, d1)" "slots_ok env win d1"
    "marked win DecodedBit d1 = insert a (marked win DecodedBit d0)" "marked win LeaderBit d1 = marked win LeaderBit d0"
    "marked win StopBit d1 = marked win StopBit d0" "Leaders d1 = Leaders d0" "Worklist d1 = Worklist d0" "unit_part d1 = unit_part d0"
    by (rule decode_word_correct [OF assms(2) _ a(1,3)])
  have f: "Leaders d0 = Leaders d" "Worklist d0 = Worklist d" "unit_part d0 = unit_part d" by (simp_all add: d0_def unit_part_def)
  have card: "card (insert a (marked win DecodedBit d)) + n = cap" using assms(1) a(2) by (simp add: region_inv_def)
  have inv: "leaders_ok win PC d" "marked win StopBit d \<subseteq> marked win DecodedBit d"
    "\<forall>x \<in> marked win DecodedBit d. x \<in> marked win StopBit d \<longleftrightarrow> stops env x"
    using assms(1) by (simp_all add: region_inv_def slots_ok_def)
  obtain d2 where d2: "SetFlag win a StopBit d1 = Some d2" "slots_ok env win d2"
    "\<And>B. flag_bit B \<Longrightarrow> marked win B d2 = (if B = StopBit then insert a (marked win B d1) else marked win B d1)"
    "Leaders d2 = Leaders d1" "Worklist d2 = Worklist d1" "unit_part d2 = unit_part d1"
    by (rule SetFlag_slots [OF d1(2) a(1), where F = StopBit]) (use d1(3) in simp_all)
  have root: "rooted env win d' x" if "x \<in> insert a (marked win DecodedBit d)" "marked win LeaderBit d' = marked win LeaderBit d"
      "marked win DecodedBit d' = insert a (marked win DecodedBit d)" for d' x
    using that assms(1,5) rooted_mono [of env win d x d'] by (auto simp: region_inv_def)
  show ?thesis
  proof (cases "stops env a")
    case False
    then have "decode_one env win f PC a d = Some (Next d1)"
      using a(1,2) F c0 d1(1) by (simp add: decode_one_def stops_def)
    moreover have "region_inv env win PC cap n d1"
      using d1 m0 f inv card False a(2) root [of _ d1] by (auto simp: region_inv_def leaders_ok_def)
    ultimately show ?thesis using d1 f m0 False by (simp add: one_ok_def)
  next
    case True
    have inv2: "region_inv env win PC cap n d2" using d2(2-) d1(3-) m0 f inv card True root [of _ d2] by (auto simp: region_inv_def leaders_ok_def)
    have D2: "marked win DecodedBit d2 = insert a (marked win DecodedBit d)" "Leaders d2 = Leaders d" "Worklist d2 = Worklist d" "unit_part d2 = unit_part d"
      using d2(3-) d1(3-) m0 f by simp_all
    obtain d3 where d3: "follow_targets env win a (GetDirectSuccessors (GuestWord env a) a) d2 = Some d3" "region_inv env win PC cap n d3" "grows win d2 d3"
      using follow_targets_correct [OF inv2] by blast
    have "decode_one env win f PC a d = Some (Ended (if has_handler (word_matcher env a) \<and> f then d3 else d2))"
      using True a(1,2) F c0 d1(1) d2(1) d3(1) by (auto simp: decode_one_def stops_def)
    moreover have "one_ok env win f PC cap n a d (Ended (if has_handler (word_matcher env a) \<and> f then d3 else d2))"
    proof (cases "has_handler (word_matcher env a) \<and> f")
      case yes: True
      then have "followed env win f a d d3" using follow_targets_leaders [OF inv2 d3(1)] True D2(2) by (simp add: followed_def branches_def)
      then show ?thesis using yes inv2 d3(2,3) True D2 by (auto simp: one_ok_def)
    next
      case no: False
      then have "followed env win f a d d2" using D2(2) by (auto simp: followed_def branches_def)
      then show ?thesis using no inv2 True D2 by (auto simp: one_ok_def grows_def [of win d2 d2])
    qed
    ultimately show ?thesis by auto
  qed
qed

lemma decode_one_correct:
  assumes "region_inv env win PC cap (Suc n) d" "env_ok env" "env_exec env PC INSTRUCTION_SIZE" "rooted env win d a"
  shows "\<exists>r. decode_one env win f PC a d = Some r \<and> one_ok env win f PC cap n a d r"
  using decode_one_leave [OF assms(1-3)] decode_one_decodes [OF assms(1-3) _ assms(4)] by blast

lemma reached_mono: "reached env win X d a \<Longrightarrow> marked win DecodedBit d \<union> X \<subseteq> marked win DecodedBit d' \<union> Y \<Longrightarrow> reached env win Y d' a"
  by (auto simp: reached_def)

text \<open>A run and the whole discovery.\<close>

definition run_ok :: "'h decoder_env \<Rightarrow> window \<Rightarrow> bool \<Rightarrow> u64 \<Rightarrow> nat \<Rightarrow> u64 set \<Rightarrow> 'h decoder \<Rightarrow> nat \<times> 'h decoder \<Rightarrow> bool" where
  "run_ok env win f PC cap X d r \<longleftrightarrow> (case r of (n', d') \<Rightarrow> region_inv env win PC cap n' d' \<and> unit_part d' = unit_part d \<and>
     marked win DecodedBit d \<subseteq> marked win DecodedBit d' \<and> (0 < n' \<longrightarrow> settled env win (X \<union> set (Worklist d')) d') \<and>
     (led env win f PC d \<longrightarrow> led env win f PC d'))"

lemma settled_leave:
  assumes "settled env win (insert a (X \<union> set (Worklist d))) d" "grows win d d'" "reached env win {} d a"
  shows "settled env win (X \<union> set (Worklist d')) d'"
proof -
  have D: "marked win DecodedBit d' = marked win DecodedBit d" "set (Worklist d) \<subseteq> set (Worklist d')"
    "set (Leaders d') \<subseteq> set (Leaders d) \<union> set (Worklist d')" using assms(2) unfolding grows_def by blast+
  have *: "reached env win (X \<union> set (Worklist d')) d' x" if "reached env win (insert a (X \<union> set (Worklist d))) d x" for x
    using that assms(3) D(1,2) unfolding reached_def by auto
  have "reached env win (X \<union> set (Worklist d')) d' L" if "L \<in> set (Leaders d')" for L
    using that D(3) * assms(1) unfolding settled_def by (auto simp: reached_def)
  then show ?thesis using assms(1) * D(1) unfolding settled_def by simp
qed

lemma settled_decoded:
  assumes "settled env win (insert a Y) d" "marked win DecodedBit d1 = insert a (marked win DecodedBit d)" "Leaders d1 = Leaders d"
  shows "settled env win (insert (a + INSTRUCTION_SIZE) Y) d1" "stops env a \<Longrightarrow> settled env win Y d1"
proof -
  have *: "reached env win Z d1 x" if "reached env win (insert a Y) d x" "Y \<subseteq> Z" for x Z using that assms(2) by (auto simp: reached_def)
  show "settled env win (insert (a + INSTRUCTION_SIZE) Y) d1"
    using assms * unfolding settled_def by (auto simp: reached_def)
  show "settled env win Y d1" if "stops env a" using assms * that unfolding settled_def by auto
qed

lemma decode_run_correct:
  assumes "env_ok env" "env_exec env PC INSTRUCTION_SIZE" "region_inv env win PC cap n d"
    "settled env win (insert a (X \<union> set (Worklist d))) d" "rooted env win d a"
  shows "\<exists>r. decode_run env win f PC n a d = Some r \<and> run_ok env win f PC cap X d r \<and>
    (n \<noteq> 0 \<longrightarrow> \<not> reached env win {} d a \<longrightarrow> a \<in> marked win DecodedBit (snd r))"
  using assms(3-5)
proof (induction n arbitrary: a d)
  case 0
  then show ?case by (simp add: run_ok_def)
next
  case (Suc n)
  obtain r where r: "decode_one env win f PC a d = Some r" "one_ok env win f PC cap n a d r"
    using decode_one_correct [OF Suc.prems(1) assms(1,2) Suc.prems(3)] by blast
  show ?case
  proof (cases r)
    case (Leave d')
    then have d': "region_inv env win PC cap (Suc n) d'" "grows win d d'" "reached env win {} d a" "Leaders d' = Leaders d" using r(2) by (simp_all add: one_ok_def)
    then have "led env win f PC d' = led env win f PC d" by (intro led_cong) (simp_all add: grows_def)
    then have "run_ok env win f PC cap X d (Suc n, d')" using d' settled_leave [OF Suc.prems(2)] by (simp add: run_ok_def grows_def)
    then show ?thesis using r Leave by (simp add: one_ok_def)
  next
    case (Ended d')
    then obtain d1 where d1: "region_inv env win PC cap n d'" "stops env a" "marked win DecodedBit d1 = insert a (marked win DecodedBit d)"
      "Leaders d1 = Leaders d" "Worklist d1 = Worklist d" "unit_part d1 = unit_part d" "grows win d1 d'" "followed env win f a d d'" using r(2) by (auto simp: one_ok_def)
    have "marked win DecodedBit d' = insert a (marked win DecodedBit d)" using d1(3,7) by (simp add: grows_def)
    note led = led_ended [OF _ this d1(8)]
    have s: "settled env win (X \<union> set (Worklist d1)) d1" using settled_decoded(2) [OF Suc.prems(2) d1(3,4,2)] d1(5) by simp
    have "settled env win (insert a (X \<union> set (Worklist d1))) d1" using s unfolding settled_def by (auto simp: reached_def)
    then have "settled env win (X \<union> set (Worklist d')) d'" using settled_leave [OF _ d1(7)] d1(3) by (simp add: reached_def)
    then have "run_ok env win f PC cap X d (n, d')" using d1 led by (auto simp: run_ok_def grows_def)
    then show ?thesis using r(1) Ended d1(3,7) by (simp add: grows_def)
  next
    case (Next d')
    then have d': "\<not> stops env a" "region_inv env win PC cap n d'" "marked win DecodedBit d' = insert a (marked win DecodedBit d)"
      "Leaders d' = Leaders d" "Worklist d' = Worklist d" "unit_part d' = unit_part d" using r(2) by (simp_all add: one_ok_def)
    have "settled env win (insert (a + INSTRUCTION_SIZE) (X \<union> set (Worklist d'))) d'" using settled_decoded(1) [OF Suc.prems(2) d'(3,4)] d'(5) by simp
    moreover have "rooted env win d' (a + INSTRUCTION_SIZE)" using d'(1,3) by (auto simp: rooted_def)
    ultimately obtain r' where "decode_run env win f PC n (a + INSTRUCTION_SIZE) d' = Some r'" "run_ok env win f PC cap X d' r'" using Suc.IH [OF d'(2)] by blast
    moreover have "led env win f PC d \<longrightarrow> led env win f PC d'" using led_next [OF _ d'(1,3,4)] by blast
    ultimately show ?thesis using r(1) Next d' by (auto simp: run_ok_def)
  qed
qed

lemma discover_correct:
  assumes "env_ok env" "env_exec env PC INSTRUCTION_SIZE" "region_inv env win PC cap n d" "settled env win (set (Worklist d)) d"
  shows "\<exists>n' d'. discover env win f PC n d = Some (n', d') \<and> region_inv env win PC cap n' d' \<and> unit_part d' = unit_part d \<and>
     marked win DecodedBit d \<subseteq> marked win DecodedBit d' \<and> (0 < n' \<longrightarrow> settled env win {} d') \<and> (led env win f PC d \<longrightarrow> led env win f PC d')"
  using assms
proof (induction env win f PC n d rule: discover.induct)
  case (1 env win f PC n d)
  show ?case
  proof (cases "Worklist d = [] \<or> n = 0")
    case True
    then show ?thesis using 1(4,5) by (subst discover.simps) auto
  next
    case False
    let ?d = "d\<lparr>Worklist := butlast (Worklist d)\<rparr>"
    have ws: "set (Worklist d) = insert (last (Worklist d)) (set (butlast (Worklist d)))"
      using False by (metis Un_insert_right append_butlast_last_id empty_set list.simps(15) set_append sup_bot_right)
    have m: "marked win B ?d = marked win B d" for B by (rule marked_cong) simp
    have i: "region_inv env win PC cap n ?d"
      using 1(4) m ws slots_ok_cong [of ?d d] by (auto simp: region_inv_def leaders_ok_def rooted_def)
    have root: "rooted env win ?d (last (Worklist d))" using 1(4) m ws by (auto simp: region_inv_def leaders_ok_def rooted_def)
    have "settled env win (insert (last (Worklist d)) ({} \<union> set (Worklist ?d))) ?d" using 1(5) ws m by (simp add: settled_def reached_def)
    from decode_run_correct [OF 1(2,3) i this root] obtain n1 d1 where r: "decode_run env win f PC n (last (Worklist d)) ?d = Some (n1, d1)"
      "run_ok env win f PC cap {} ?d (n1, d1)" by (metis surj_pair)
    have r1: "region_inv env win PC cap n1 d1" "unit_part d1 = unit_part d" "marked win DecodedBit d \<subseteq> marked win DecodedBit d1"
      "0 < n1 \<longrightarrow> settled env win (set (Worklist d1)) d1" "led env win f PC d \<longrightarrow> led env win f PC d1"
      using r(2) m led_cong [of ?d d win env f PC] by (simp_all add: run_ok_def unit_part_def)
    have step: "discover env win f PC n d = discover env win f PC n1 d1" using False r(1) by (subst discover.simps) simp
    show ?thesis
    proof (cases "n1 = 0")
      case True
      then show ?thesis using step r1 by (subst (asm) (2) discover.simps) auto
    next
      case False
      then have "settled env win (set (Worklist d1)) d1" using r1(4) by simp
      from "1.IH" [OF \<open>\<not> (Worklist d = [] \<or> n = 0)\<close> r(1) refl 1(2,3) r1(1) this] show ?thesis using step r1(2,3,5) by auto
    qed
  qed
qed

text \<open>The entry is decoded first.\<close>

lemma discover_entry:
  assumes "env_ok env" "env_exec env PC INSTRUCTION_SIZE" "region_inv env win PC cap n d" "0 < n" "Worklist d = [PC]" "Leaders d = [PC]"
    "marked win DecodedBit d = {}" "InWindow win PC"
  shows "\<exists>n' d'. discover env win f PC n d = Some (n', d') \<and> region_inv env win PC cap n' d' \<and> unit_part d' = unit_part d \<and>
     PC \<in> marked win DecodedBit d' \<and> (0 < n' \<longrightarrow> settled env win {} d') \<and> led env win f PC d'"
proof -
  let ?d = "d\<lparr>Worklist := []\<rparr>"
  have m: "marked win B ?d = marked win B d" for B by (rule marked_cong) simp
  have i: "region_inv env win PC cap n ?d"
    using assms(3) m slots_ok_cong [of ?d d] by (auto simp: region_inv_def leaders_ok_def rooted_def)
  have root: "rooted env win ?d PC" using assms(3,6) m by (auto simp: region_inv_def leaders_ok_def rooted_def)
  have "settled env win (insert PC ({} \<union> set (Worklist ?d))) ?d" using assms(6,7) m by (simp add: settled_def reached_def)
  from decode_run_correct [OF assms(1,2) i this root] obtain n1 d1 where r: "decode_run env win f PC n PC ?d = Some (n1, d1)"
    "run_ok env win f PC cap {} ?d (n1, d1)" "n \<noteq> 0 \<longrightarrow> \<not> reached env win {} ?d PC \<longrightarrow> PC \<in> marked win DecodedBit d1" by (metis snd_conv surj_pair)
  have r1: "region_inv env win PC cap n1 d1" "unit_part d1 = unit_part d" "0 < n1 \<longrightarrow> settled env win (set (Worklist d1)) d1" "led env win f PC d1"
    using r(2) m assms(6,7) by (simp_all add: run_ok_def unit_part_def led_def [of env win f PC ?d])
  have PC: "PC \<in> marked win DecodedBit d1" using r(3) assms(2,4,7,8) m by (simp add: reached_def)
  have step: "discover env win f PC n d = discover env win f PC n1 d1" using assms(4,5) r(1) by (subst discover.simps) simp
  show ?thesis
  proof (cases "n1 = 0")
    case True
    have "discover env win f PC n1 d1 = Some (0, d1)" using True by (subst discover.simps) simp
    then show ?thesis using step r1(1,2,4) PC True by simp
  next
    case False
    then show ?thesis using discover_correct [OF assms(1,2) r1(1)] r1(2-4) step PC by fastforce
  qed
qed

section \<open>The start of a unit\<close>

text \<open>What holds of the decoder between two units.\<close>

definition decoder_ok :: "'h decoder_env \<Rightarrow> 'h decoder \<Rightarrow> bool" where
  "decoder_ok env d \<longleftrightarrow> cache_ok env d \<and> length (SlotWord d) = length (SlotStamp d) \<and> length (SlotMatcher d) = length (SlotStamp d) \<and>
     (\<forall>S \<in> set (SlotStamp d). S AND GenMask \<le> Generation d)"

lemma length_resize [simp]: "length (resize n x xs) = n"
  by (simp add: resize_def)

lemma next_generation_correct:
  assumes "decoder_ok env d" "Generation d < GenMask"
  shows "decoder_ok env (next_generation k d)" "k \<le> length (SlotStamp (next_generation k d))"
    "\<forall>S \<in> set (SlotStamp (next_generation k d)). S AND GenMask < Generation (next_generation k d)"
    "Generation (next_generation k d) \<le> GenMask"
proof -
  define d1 where "d1 = (if length (SlotStamp d) < k then d\<lparr>SlotStamp := replicate k 0, SlotWord := resize k 0 (SlotWord d),
                      SlotMatcher := resize k None (SlotMatcher d), Generation := 0\<rparr> else d)"
  have ok: "decoder_ok env d1" "k \<le> length (SlotStamp d1)" "Generation d1 < GenMask"
    using assms cache_ok_cong [of d1 d] by (auto simp: decoder_ok_def d1_def)
  have "Generation d1 < Generation d1 + 1" "Generation d1 + 1 \<le> GenMask"
    using ok(3) by (simp_all add: word_less_nat_alt word_le_nat_alt unat_word_ariths)
  then have g: "Generation d1 < Generation d1 + 1" "Generation d1 + 1 \<le> GenMask" "Generation d1 + 1 \<noteq> 0" by auto
  have e: "next_generation k d = d1\<lparr>Generation := Generation d1 + 1\<rparr>"
    using g(3) by (simp add: next_generation_def d1_def [symmetric] Let_def)
  show "decoder_ok env (next_generation k d)" "k \<le> length (SlotStamp (next_generation k d))"
    "\<forall>S \<in> set (SlotStamp (next_generation k d)). S AND GenMask < Generation (next_generation k d)"
    "Generation (next_generation k d) \<le> GenMask"
    using ok g e cache_ok_cong [of "next_generation k d" d1] by (auto simp: decoder_ok_def)
qed

lemma gen_and_mask: "g \<le> GenMask \<Longrightarrow> g AND GenMask = g"
proof -
  assume "g \<le> GenMask"
  then have "unat g < 2 ^ 29" by (simp add: word_le_nat_alt)
  then have "unat (take_bit 29 g) = unat g" by (simp only: unsigned_take_bit_eq) (simp add: take_bit_eq_mod)
  then have "take_bit 29 g = g" by (simp only: word_unat_eq_iff)
  moreover have "GenMask = mask 29" by (simp add: mask_eq_exp_minus_1)
  ultimately show ?thesis by (simp only: take_bit_eq_mask)
qed

text \<open>Units below the top of memory: neither the window nor a hash behind its last word wraps.\<close>

definition unit_fits :: "'h decoder_env \<Rightarrow> u64 \<Rightarrow> bool" where
  "unit_fits env PC \<longleftrightarrow> unat PC + unat (RegionWindow env) + 4160 < 2 ^ 64"

definition region_window :: "'h decoder_env \<Rightarrow> u64 \<Rightarrow> u64 \<Rightarrow> 'h decoder \<Rightarrow> window" where
  "region_window env PC Cap d = (case unit_window env PC Cap of (low, high) \<Rightarrow> \<lparr>WindowLow = low, WindowHigh = high, Gen = Generation d AND GenMask\<rparr>)"

lemma instruction_cap_bounds: "0 < unat (instruction_cap env MaxInst)" "unat (instruction_cap env MaxInst) \<le> 1024"
  by (auto simp: instruction_cap_def Let_def word_le_nat_alt word_less_nat_alt unat_gt_0)

lemma unit_window_bounds:
  assumes "unit_fits env PC" "unat Cap \<le> 1024" "unit_window env PC Cap = (low, high)"
  shows "unat low = unat PC - unat (RegionWindow env)" "unat high = unat PC + 4 * unat Cap + unat (RegionWindow env)"
proof -
  show "unat low = unat PC - unat (RegionWindow env)"
    using assms(3) by (auto simp: unit_window_def unat_sub word_le_nat_alt)
  have "unat (Cap * INSTRUCTION_SIZE) = unat Cap * 4" using assms(2) by (subst unat_mult_lem [THEN iffD1]) simp_all
  moreover from this have "unat (PC + Cap * INSTRUCTION_SIZE) = unat PC + unat Cap * 4" using assms(1,2) by (subst unat_add_small) (simp_all add: unit_fits_def)
  ultimately have "unat (PC + Cap * INSTRUCTION_SIZE + RegionWindow env) = unat PC + unat Cap * 4 + unat (RegionWindow env)"
    using assms(1,2) by (subst unat_add_small) (simp_all add: unit_fits_def)
  then show "unat high = unat PC + 4 * unat Cap + unat (RegionWindow env)" using assms(3) by (auto simp: unit_window_def)
qed

lemma num_slots_eq:
  assumes "low \<le> high"
  shows "num_slots low high = (unat high - unat low) div 4 + 1"
proof -
  have "unat ((high - low) div INSTRUCTION_SIZE) = (unat high - unat low) div 4" using assms by (simp add: unat_div unat_sub)
  moreover have "unat high < 2 ^ 64" using unsigned_less [of high] by simp
  ultimately show ?thesis unfolding num_slots_def by (subst unat_add_small) simp_all
qed

text \<open>The state in which the discovery starts.\<close>

lemma region_start:
  assumes "decoder_ok env d" "Generation d < GenMask" "unit_fits env PC" "unat Cap \<le> 1024" "unat PC mod 4 = 0"
    "unit_window env PC Cap = (low, high)" "d1 = next_generation (num_slots low high) d" "win = region_window env PC Cap d1"
  obtains d2 where "SetFlag win PC LeaderBit (d1\<lparr>Leaders := [PC], Worklist := []\<rparr>) = Some d2" "InWindow win PC"
    "region_inv env win PC (unat Cap) (unat Cap) (d2\<lparr>Worklist := [PC]\<rparr>)" "Leaders d2 = [PC]" "marked win DecodedBit d2 = {}"
    "unit_part d2 = unit_part d1" "Gen win = Generation d1" "num_slots low high = (unat high - unat low) div 4 + 1"
proof -
  note b = unit_window_bounds [OF assms(3,4,6)]
  have lh: "low \<le> high" using b by (simp add: word_le_nat_alt)
  note n = num_slots_eq [OF lh]
  note g = next_generation_correct [OF assms(1,2), of "num_slots low high", folded assms(7)]
  have G: "Gen win = Generation d1" and wl: "WindowLow win = low" "WindowHigh win = high"
    using assms(6,8) gen_and_mask [OF g(4)] by (simp_all add: region_window_def)
  have PC: "InWindow win PC" using b assms(5) by (simp add: InWindow_iff wl)
  let ?d = "d1\<lparr>Leaders := [PC], Worklist := []\<rparr>"
  have w: "win_ok win ?d"
    using g n b lh gen_and_mask [OF g(4)] assms(3,4) by (auto simp: win_ok_def wl G decoder_ok_def unit_fits_def)
  have none: "marked win B ?d = {}" if "flag_bit B" for B
  proof -
    have "stamp_flags (Gen win) (SlotStamp ?d ! SlotOf win a) = 0" if "InWindow win a" for a
    proof -
      have "SlotStamp ?d ! SlotOf win a \<in> set (SlotStamp d1)" using SlotOf_bound [OF that w] by simp
      then have "SlotStamp ?d ! SlotOf win a AND GenMask \<noteq> Generation d1" using bspec [OF g(3)] by (metis order_less_irrefl)
      then show ?thesis by (simp only: stamp_flags_def G if_False)
    qed
    then show ?thesis by (simp add: marked_def)
  qed
  have "slots_ok env win ?d" using w none g(1) cache_ok_cong [of ?d d1] by (simp add: slots_ok_def decoder_ok_def)
  then obtain d2 where d2: "SetFlag win PC LeaderBit ?d = Some d2" "slots_ok env win d2"
    "\<And>B. flag_bit B \<Longrightarrow> marked win B d2 = (if B = LeaderBit then insert PC (marked win B ?d) else marked win B ?d)"
    "Leaders d2 = Leaders ?d" "Worklist d2 = Worklist ?d" "unit_part d2 = unit_part ?d"
    by (rule SetFlag_slots [where F = LeaderBit and a = PC]) (use PC in simp_all)
  have m: "marked win B (d2\<lparr>Worklist := [PC]\<rparr>) = marked win B d2" for B by (rule marked_cong) simp
  have "region_inv env win PC (unat Cap) (unat Cap) (d2\<lparr>Worklist := [PC]\<rparr>)"
    using d2(2-4) none m slots_ok_cong [of "d2\<lparr>Worklist := [PC]\<rparr>" d2] by (simp add: region_inv_def leaders_ok_def)
  then show ?thesis using that [of d2] d2 PC none G n by (simp add: unit_part_def)
qed

end
