(* ===== verification/DecoderLayout.thy ===== *)
theory DecoderLayout
  imports DecoderSpec
begin

text \<open>
  The layout of a decoded region: the runs of instructions from the leaders, the blocks and the
  buffer that the decoder makes of them, and the pages and the extent that it reports for them.
\<close>

section \<open>Sorted pages\<close>

lemma InsertSorted_correct:
  assumes "sorted_wrt (<) xs"
  shows "set (InsertSorted xs v) = insert v (set xs)" "sorted_wrt (<) (InsertSorted xs v)"
proof -
  show s: "set (InsertSorted xs v) = insert v (set xs)" for xs by (induction xs) auto
  show "sorted_wrt (<) (InsertSorted xs v)" using assms by (induction xs) (auto simp: s)
qed

section \<open>Runs\<close>

text \<open>An instruction of the unit, the bytes it stands for and their pages.\<close>

definition inst_at :: "'h decoder_env \<Rightarrow> u64 \<Rightarrow> 'h decoded_inst" where
  "inst_at env a = \<lparr>InstPC = a, InstWord = GuestWord env a, InstMatcher = word_matcher env a\<rparr>"

definition is_thunk :: "'h decoder_env \<Rightarrow> u64 \<Rightarrow> bool" where
  "is_thunk env a \<longleftrightarrow> GuestWord env a = THUNK_MARKER_WORD \<and> word_matcher env a \<noteq> None"

definition inst_end :: "'h decoder_env \<Rightarrow> u64 \<Rightarrow> u64" where
  "inst_end env a = (if is_thunk env a then a + INSTRUCTION_SIZE + THUNK_HASH_SIZE else a + INSTRUCTION_SIZE)"

definition inst_pages :: "'h decoder_env \<Rightarrow> u64 \<Rightarrow> u64 set" where
  "inst_pages env a = insert (page_of a) (if is_thunk env a then {page_of (a + INSTRUCTION_SIZE + THUNK_HASH_SIZE - 1)} else {})"

text \<open>The run of the leader \<open>L\<close> from \<open>a\<close> on.\<close>

fun run_from :: "'h decoder_env \<Rightarrow> window \<Rightarrow> 'h decoder \<Rightarrow> u64 \<Rightarrow> nat \<Rightarrow> u64 \<Rightarrow> u64 list" where
  "run_from env win d L 0 a = []"
| "run_from env win d L (Suc fuel) a =
     (if a \<notin> marked win DecodedBit d \<or> a \<noteq> L \<and> a \<in> marked win LeaderBit d then []
      else if stops env a then [a] else a # run_from env win d L fuel (a + INSTRUCTION_SIZE))"

fun layout_insts :: "'h decoder_env \<Rightarrow> u64 list \<Rightarrow> 'h layout \<Rightarrow> 'h layout option" where
  "layout_insts env [] s = Some s"
| "layout_insts env (a # as) s = do { s \<leftarrow> layout_inst a (GuestWord env a) (word_matcher env a) s; layout_insts env as s }"

definition same_slots :: "'h decoder \<Rightarrow> 'h decoder \<Rightarrow> bool" where
  "same_slots d d' \<longleftrightarrow> SlotStamp d' = SlotStamp d \<and> SlotWord d' = SlotWord d \<and> SlotMatcher d' = SlotMatcher d"

lemma note_code_page_slots: "same_slots d (LDecoder (note_code_page p s)) = same_slots d (LDecoder s)"
  by (simp add: note_code_page_def same_slots_def)

lemma layout_inst_slots: "layout_inst a w m s = Some s' \<Longrightarrow> same_slots d (LDecoder s') = same_slots d (LDecoder s)"
  by (auto simp: layout_inst_def Let_def bind_eq_Some_conv note_code_page_slots split: if_splits) (simp_all add: same_slots_def note_code_page_def)

text \<open>The layout loop appends the instructions of a run; the fuel of the model is enough.\<close>

lemma layout_run_insts:
  assumes "region_inv env win PC cap n d" "same_slots d (LDecoder s)" "unat (WindowHigh win) < unat a + 4 * fuel"
  shows "layout_run win (Suc fuel) L a s = layout_insts env (run_from env win d L (Suc fuel) a) s"
  using assms(2,3)
proof (induction fuel arbitrary: a s)
  case 0
  then have "\<not> InWindow win a" by (simp add: InWindow_iff)
  then show ?case by (simp add: marked_def)
next
  case (Suc fuel)
  have i: "slots_ok env win d" "win_ok win d" using region_inv_slots [OF assms(1)] by simp_all
  show ?case
  proof (cases "InWindow win a")
    case False
    then show ?thesis by (simp add: marked_def)
  next
    case True
    have F: "Flags win (LDecoder s) a = Flags win d a" using Suc.prems(1) by (simp add: Flags_def same_slots_def)
    obtain Fl where Fl: "Flags win d a = Some Fl" "Fl AND DecodedBit \<noteq> 0 \<longleftrightarrow> a \<in> marked win DecodedBit d"
      "Fl AND LeaderBit \<noteq> 0 \<longleftrightarrow> a \<in> marked win LeaderBit d" "Fl AND StopBit \<noteq> 0 \<longleftrightarrow> a \<in> marked win StopBit d" by (rule Flags_marked [OF True i(2)])
    show ?thesis
    proof (cases "a \<notin> marked win DecodedBit d \<or> a \<noteq> L \<and> a \<in> marked win LeaderBit d")
      case True
      then show ?thesis using F Fl \<open>InWindow win a\<close> by auto
    next
      case False
      have st: "a \<in> marked win StopBit d \<longleftrightarrow> stops env a" using assms(1) False by (simp add: region_inv_def)
      have "SlotOf win a < length (SlotStamp d)" by (rule SlotOf_bound [OF True i(2)])
      then have r: "read_at (SlotWord (LDecoder s)) (SlotOf win a) = Some (GuestWord env a)"
        "read_at (SlotMatcher (LDecoder s)) (SlotOf win a) = Some (word_matcher env a)"
        using Suc.prems(1) i False by (simp_all add: read_at_def same_slots_def slots_ok_def win_ok_def)
      have step: "unat (a + INSTRUCTION_SIZE) = unat a + 4" using InWindow_step [OF True i(2)] by blast
      have IH: "layout_run win (Suc fuel) L (a + INSTRUCTION_SIZE) s' = layout_insts env (run_from env win d L (Suc fuel) (a + INSTRUCTION_SIZE)) s'"
        if "layout_inst a (GuestWord env a) (word_matcher env a) s = Some s'" for s'
        using Suc.IH [of s' "a + INSTRUCTION_SIZE"] layout_inst_slots [OF that] Suc.prems step by simp
      show ?thesis
      proof (cases "layout_inst a (GuestWord env a) (word_matcher env a) s")
        case None
        then show ?thesis using F Fl False True r by auto
      next
        case (Some s')
        then show ?thesis using F Fl False True r st IH [OF Some] by (auto simp del: run_from.simps(2) simp: run_from.simps(2) [of env win d L "Suc fuel" a])
      qed
    qed
  qed
qed

text \<open>The shape of a run.\<close>

lemma run_from_nth:
  assumes "region_inv env win PC cap n d" "as = run_from env win d L fuel a" "i < length as"
  shows "as ! i = a + of_nat (4 * i) \<and> unat (as ! i) = unat a + 4 * i \<and> as ! i \<in> marked win DecodedBit d \<and>
    (as ! i = L \<or> as ! i \<notin> marked win LeaderBit d) \<and> (Suc i < length as \<longrightarrow> \<not> stops env (as ! i))"
  using assms(2,3)
proof (induction fuel arbitrary: a as i)
  case (Suc fuel)
  have a: "a \<in> marked win DecodedBit d" "a = L \<or> a \<notin> marked win LeaderBit d" using Suc.prems by (auto split: if_splits)
  show ?case
  proof (cases i)
    case 0
    then show ?thesis using Suc.prems a by (auto split: if_splits)
  next
    case (Suc j)
    then have ns: "\<not> stops env a" and as: "as = a # run_from env win d L fuel (a + INSTRUCTION_SIZE)"
      using Suc.prems a by (auto split: if_splits)
    have "InWindow win a" using a by (simp add: marked_def)
    then have step: "unat (a + INSTRUCTION_SIZE) = unat a + 4" using InWindow_step region_inv_slots [OF assms(1)] by blast
    let ?R = "run_from env win d L fuel (a + INSTRUCTION_SIZE)"
    have e: "a + INSTRUCTION_SIZE + of_nat (4 * j) = a + of_nat (4 * i)" "unat (a + INSTRUCTION_SIZE) + 4 * j = unat a + 4 * i" "Suc j = i"
      using Suc step by (simp_all add: algebra_simps)
    have R: "as ! i = ?R ! j" "length as = Suc (length ?R)" using as Suc by simp_all
    have "j < length ?R" using R(2) Suc Suc.prems(2) by simp
    from Suc.IH [OF refl this, unfolded e] show ?thesis unfolding R Suc_less_eq .
  qed
qed simp

lemma run_from_unat: "region_inv env win PC cap n d \<Longrightarrow> i < length (run_from env win d L fuel a) \<Longrightarrow> unat (run_from env win d L fuel a ! i) = unat a + 4 * i"
  by (drule run_from_nth [OF _ refl]) blast+

lemma run_from_leader: "region_inv env win PC cap n d \<Longrightarrow> i < length (run_from env win d L fuel a) \<Longrightarrow>
    run_from env win d L fuel a ! i = L \<or> run_from env win d L fuel a ! i \<notin> marked win LeaderBit d"
  by (drule run_from_nth [OF _ refl]) blast+

lemma run_from_disjoint:
  assumes "region_inv env win PC cap n d" "L \<in> marked win LeaderBit d" "M \<in> marked win LeaderBit d" "L \<noteq> M"
  shows "set (run_from env win d L f L) \<inter> set (run_from env win d M g M) = {}"
proof -
  have *: False if ne: "set (run_from env win d A f A) \<inter> set (run_from env win d B g B) \<noteq> {}" and lt: "unat A < unat B" and B: "B \<in> marked win LeaderBit d" for A B f g
  proof -
    let ?a = "run_from env win d A f A" and ?b = "run_from env win d B g B"
    obtain x where "x \<in> set ?a" "x \<in> set ?b" using ne by blast
    then obtain i j where ij: "i < length ?a" "j < length ?b" "?a ! i = ?b ! j" unfolding in_set_conv_nth by auto
    have u: "unat (?a ! i) = unat A + 4 * i" "unat (?b ! j) = unat B + 4 * j"
      by (rule run_from_unat [OF assms(1) ij(1)], rule run_from_unat [OF assms(1) ij(2)])
    then have "unat A + 4 * i = unat B + 4 * j" using ij(3) by (simp only:)
    then have k: "i - j < length ?a" "unat B = unat A + 4 * (i - j)" using ij(1) lt by arith+
    have "unat (?a ! (i - j)) = unat A + 4 * (i - j)" "?a ! (i - j) = A \<or> ?a ! (i - j) \<notin> marked win LeaderBit d"
      by (rule run_from_unat [OF assms(1) k(1)], rule run_from_leader [OF assms(1) k(1)])
    moreover have "?a ! (i - j) = B" using calculation(1) k(2) by (simp only: word_unat_eq_iff)
    ultimately show False using lt B by (metis order_less_irrefl)
  qed
  show ?thesis
  proof (cases "unat L" "unat M" rule: linorder_cases)
    case less
    then show ?thesis using * [of L f M g] assms(3) by blast
  next
    case equal
    then show ?thesis using assms(4) word_unat_eq_iff [of L M] by simp
  next
    case greater
    then show ?thesis using * [of M g L f] assms(2) by blast
  qed
qed

lemma run_from_distinct: "region_inv env win PC cap n d \<Longrightarrow> distinct (run_from env win d L fuel a)"
  unfolding distinct_conv_nth
proof (intro allI impI notI)
  fix i j
  assume r: "region_inv env win PC cap n d" and ij: "i < length (run_from env win d L fuel a)" "j < length (run_from env win d L fuel a)" "i \<noteq> j"
    "run_from env win d L fuel a ! i = run_from env win d L fuel a ! j"
  show False using run_from_unat [OF r ij(1)] run_from_unat [OF r ij(2)] ij(3,4) by (simp only: ij(4))
qed

lemma run_from_start: "L \<in> marked win DecodedBit d \<Longrightarrow> 0 < fuel \<Longrightarrow> run_from env win d L fuel L \<noteq> [] \<and> hd (run_from env win d L fuel L) = L"
  by (cases fuel) auto

section \<open>The buffer\<close>

lemma note_code_page_correct:
  assumes "sorted_wrt (<) (CodePages (LDecoder s))" "LastPage s \<in> set (CodePages (LDecoder s))"
  shows "\<exists>l p. note_code_page Page s = s\<lparr>LastPage := l, LDecoder := (LDecoder s)\<lparr>CodePages := p\<rparr>\<rparr> \<and>
    set p = insert Page (set (CodePages (LDecoder s))) \<and> sorted_wrt (<) p \<and> l \<in> set p"
proof (cases "Page = LastPage s")
  case True
  then have "note_code_page Page s = s\<lparr>LastPage := LastPage s, LDecoder := (LDecoder s)\<lparr>CodePages := CodePages (LDecoder s)\<rparr>\<rparr>"
    by (simp add: note_code_page_def)
  moreover have "set (CodePages (LDecoder s)) = insert Page (set (CodePages (LDecoder s)))" using True assms(2) by auto
  ultimately show ?thesis using assms by blast
next
  case False
  then have "note_code_page Page s = s\<lparr>LastPage := Page, LDecoder := (LDecoder s)\<lparr>CodePages := InsertSorted (CodePages (LDecoder s)) Page\<rparr>\<rparr>"
    by (simp add: note_code_page_def)
  then show ?thesis using InsertSorted_correct [OF assms(1)] by blast
qed

lemma layout_inst_correct:
  assumes "Used s < length (DecodedBuffer (LDecoder s))" "sorted_wrt (<) (CodePages (LDecoder s))" "LastPage s \<in> set (CodePages (LDecoder s))"
  obtains s' l p where "layout_inst a (GuestWord env a) (word_matcher env a) s = Some s'"
    "s' = s\<lparr>LBlock := (LBlock s)\<lparr>NumInstructions := Suc (NumInstructions (LBlock s)), BlockSize := BlockSize (LBlock s) + INSTRUCTION_SIZE\<rparr>,
       LEnd := inst_end env a, Used := Suc (Used s), LastPage := l,
       LDecoder := (LDecoder s)\<lparr>DecodedBuffer := (DecodedBuffer (LDecoder s))[Used s := inst_at env a], CodePages := p\<rparr>\<rparr>"
    "set p = set (CodePages (LDecoder s)) \<union> inst_pages env a" "sorted_wrt (<) p" "l \<in> set p"
proof -
  define s1 where "s1 = s\<lparr>LDecoder := (LDecoder s)\<lparr>DecodedBuffer := (DecodedBuffer (LDecoder s))[Used s := inst_at env a]\<rparr>, Used := Suc (Used s),
               LBlock := (LBlock s)\<lparr>NumInstructions := Suc (NumInstructions (LBlock s)), BlockSize := BlockSize (LBlock s) + INSTRUCTION_SIZE\<rparr>\<rparr>"
  obtain l p where 1: "note_code_page (page_of a) s1 = s1\<lparr>LastPage := l, LDecoder := (LDecoder s1)\<lparr>CodePages := p\<rparr>\<rparr>"
    "set p = insert (page_of a) (set (CodePages (LDecoder s)))" "sorted_wrt (<) p" "l \<in> set p"
    using note_code_page_correct [of s1 "page_of a"] assms(2,3) by (auto simp: s1_def)
  define s2 where "s2 = s1\<lparr>LastPage := l, LDecoder := (LDecoder s1)\<lparr>CodePages := p\<rparr>, LEnd := a + INSTRUCTION_SIZE\<rparr>"
  have run: "layout_inst a (GuestWord env a) (word_matcher env a) s = Some (if is_thunk env a
      then note_code_page (page_of (a + INSTRUCTION_SIZE + THUNK_HASH_SIZE - 1)) (s2\<lparr>LEnd := a + INSTRUCTION_SIZE + THUNK_HASH_SIZE\<rparr>) else s2)"
    using assms(1) 1(1) by (auto simp: layout_inst_def write_at_def inst_at_def [symmetric] s1_def [symmetric] s2_def is_thunk_def Let_def)
  show ?thesis
  proof (cases "is_thunk env a")
    case False
    then show ?thesis using run 1(2-) by (intro that [where l = l and p = p]) (simp_all add: s2_def s1_def inst_end_def inst_pages_def)
  next
    case True
    let ?s = "s2\<lparr>LEnd := a + INSTRUCTION_SIZE + THUNK_HASH_SIZE\<rparr>"
    obtain l' p' where 2: "note_code_page (page_of (a + INSTRUCTION_SIZE + THUNK_HASH_SIZE - 1)) ?s = ?s\<lparr>LastPage := l', LDecoder := (LDecoder ?s)\<lparr>CodePages := p'\<rparr>\<rparr>"
      "set p' = insert (page_of (a + INSTRUCTION_SIZE + THUNK_HASH_SIZE - 1)) (set p)" "sorted_wrt (<) p'" "l' \<in> set p'"
      using note_code_page_correct [of ?s "page_of (a + INSTRUCTION_SIZE + THUNK_HASH_SIZE - 1)"] 1(2-) by (auto simp: s2_def)
    show ?thesis using True run 2 1(2) by (intro that [where l = l' and p = p']) (auto simp: s2_def s1_def inst_end_def inst_pages_def)
  qed
qed

text \<open>The state of the layout after the instructions at \<open>as\<close>.\<close>

definition lay_ok :: "'h decoder_env \<Rightarrow> 'h layout \<Rightarrow> u64 list \<Rightarrow> bool" where
  "lay_ok env s as \<longleftrightarrow> Used s = length as \<and> length as \<le> length (DecodedBuffer (LDecoder s)) \<and>
     take (length as) (DecodedBuffer (LDecoder s)) = map (inst_at env) as \<and> sorted_wrt (<) (CodePages (LDecoder s)) \<and>
     LastPage s \<in> set (CodePages (LDecoder s)) \<and> (\<forall>a \<in> set as. inst_pages env a \<subseteq> set (CodePages (LDecoder s)))"

lemma layout_insts_correct:
  assumes "lay_ok env s as" "length as + length bs \<le> length (DecodedBuffer (LDecoder s))"
  shows "\<exists>s' b p. layout_insts env bs s = Some s' \<and> lay_ok env s' (as @ bs) \<and>
    LDecoder s' = (LDecoder s)\<lparr>DecodedBuffer := b, CodePages := p\<rparr> \<and> length b = length (DecodedBuffer (LDecoder s)) \<and> set (CodePages (LDecoder s)) \<subseteq> set p \<and>
    LBlock s' = (LBlock s)\<lparr>NumInstructions := NumInstructions (LBlock s) + length bs, BlockSize := BlockSize (LBlock s) + of_nat (4 * length bs)\<rparr> \<and>
    LEnd s' = (if bs = [] then LEnd s else inst_end env (last bs))"
  using assms
proof (induction bs arbitrary: s as)
  case Nil
  have "LDecoder s = (LDecoder s)\<lparr>DecodedBuffer := DecodedBuffer (LDecoder s), CodePages := CodePages (LDecoder s)\<rparr>" by simp
  then show ?case using Nil.prems(1) by (intro exI [of _ s] exI [of _ "DecodedBuffer (LDecoder s)"] exI [of _ "CodePages (LDecoder s)"]) simp
next
  case (Cons x bs)
  have u: "Used s < length (DecodedBuffer (LDecoder s))" "sorted_wrt (<) (CodePages (LDecoder s))" "LastPage s \<in> set (CodePages (LDecoder s))" "Used s = length as"
    using Cons.prems by (simp_all add: lay_ok_def)
  obtain s1 l p where 1: "layout_inst x (GuestWord env x) (word_matcher env x) s = Some s1"
    "s1 = s\<lparr>LBlock := (LBlock s)\<lparr>NumInstructions := Suc (NumInstructions (LBlock s)), BlockSize := BlockSize (LBlock s) + INSTRUCTION_SIZE\<rparr>,
       LEnd := inst_end env x, Used := Suc (Used s), LastPage := l,
       LDecoder := (LDecoder s)\<lparr>DecodedBuffer := (DecodedBuffer (LDecoder s))[Used s := inst_at env x], CodePages := p\<rparr>\<rparr>"
    "set p = set (CodePages (LDecoder s)) \<union> inst_pages env x" "sorted_wrt (<) p" "l \<in> set p"
    by (rule layout_inst_correct [OF u(1-3)])
  have "lay_ok env s1 (as @ [x])" using Cons.prems(1) 1(2-) u by (auto simp: lay_ok_def take_Suc_conv_app_nth)
  moreover have "length (as @ [x]) + length bs \<le> length (DecodedBuffer (LDecoder s1))" using Cons.prems(2) 1(2) by simp
  ultimately obtain s' b p' where 2: "layout_insts env bs s1 = Some s'" "lay_ok env s' ((as @ [x]) @ bs)"
    "LDecoder s' = (LDecoder s1)\<lparr>DecodedBuffer := b, CodePages := p'\<rparr>" "length b = length (DecodedBuffer (LDecoder s1))" "set (CodePages (LDecoder s1)) \<subseteq> set p'"
    "LBlock s' = (LBlock s1)\<lparr>NumInstructions := NumInstructions (LBlock s1) + length bs, BlockSize := BlockSize (LBlock s1) + of_nat (4 * length bs)\<rparr>"
    "LEnd s' = (if bs = [] then LEnd s1 else inst_end env (last bs))" using Cons.IH by blast
  have "LDecoder s' = (LDecoder s)\<lparr>DecodedBuffer := b, CodePages := p'\<rparr>" "length b = length (DecodedBuffer (LDecoder s))" "set (CodePages (LDecoder s)) \<subseteq> set p'"
    "LBlock s' = (LBlock s)\<lparr>NumInstructions := NumInstructions (LBlock s) + length (x # bs), BlockSize := BlockSize (LBlock s) + of_nat (4 * length (x # bs))\<rparr>"
    "LEnd s' = (if x # bs = [] then LEnd s else inst_end env (last (x # bs)))"
    using 2(3-) 1(2,3) by (simp_all add: algebra_simps)
  then show ?case using 1(1) 2(1,2) by (intro exI [of _ s'] exI [of _ b] exI [of _ p']) simp
qed

section \<open>Blocks\<close>

definition block_of :: "u64 \<Rightarrow> nat \<Rightarrow> u64 list \<Rightarrow> decoded_block" where
  "block_of PC off r = (new_block (hd r) off SUCCESS (hd r = PC))\<lparr>NumInstructions := length r, BlockSize := of_nat (4 * length r)\<rparr>"

fun blocks_of :: "u64 \<Rightarrow> nat \<Rightarrow> u64 list list \<Rightarrow> decoded_block list" where
  "blocks_of PC off [] = []"
| "blocks_of PC off (r # rs) = block_of PC off r # blocks_of PC (off + length r) rs"

lemma blocks_of_append: "blocks_of PC off (rs @ [r]) = blocks_of PC off rs @ [block_of PC (off + length (concat rs)) r]"
  by (induction rs arbitrary: off) (simp_all add: add.assoc)

text \<open>After the runs \<open>rs\<close>: their blocks, their number of instructions and their extent.\<close>

definition unit_ok :: "'h decoder_env \<Rightarrow> u64 \<Rightarrow> 'h decoder \<Rightarrow> 'h layout \<Rightarrow> u64 list list \<Rightarrow> bool" where
  "unit_ok env PC d s rs \<longleftrightarrow> lay_ok env s (concat rs) \<and> same_slots d (LDecoder s) \<and> length (DecodedBuffer (LDecoder s)) = length (DecodedBuffer d) \<and>
     Blocks (LDecoder s) = blocks_of PC 0 rs \<and> TotalInstructionCount (LDecoder s) = length (concat rs) \<and>
     page_of PC \<in> set (CodePages (LDecoder s)) \<and>
     (\<forall>r \<in> set rs. DecodedMinAddress (LDecoder s) \<le> hd r \<and> inst_end env (last r) \<le> DecodedMaxAddress (LDecoder s)) \<and>
     (RangeBase (LDecoder s), RangeEnd (LDecoder s), Generation (LDecoder s), EntryPoints (LDecoder s)) = (RangeBase d, RangeEnd d, Generation d, EntryPoints d)"

lemma layout_leader_correct:
  assumes "region_inv env win PC cap n d" "unit_ok env PC d s rs" "L \<in> marked win LeaderBit d" "fuel = Suc f"
    "unat (WindowHigh win) < unat (WindowLow win) + 4 * f" "length (concat rs) + length (run_from env win d L fuel L) \<le> length (DecodedBuffer d)"
  shows "\<exists>s'. layout_leader win fuel PC L s = Some s' \<and>
    unit_ok env PC d s' (if L \<in> marked win DecodedBit d then rs @ [run_from env win d L fuel L] else rs)"
proof -
  have w: "win_ok win d" using region_inv_slots [OF assms(1)] by simp
  have L: "InWindow win L" using assms(3) by (simp add: marked_def)
  have ss: "same_slots d (LDecoder s)" using assms(2) by (simp add: unit_ok_def)
  have F: "Flags win (LDecoder s) L = Flags win d L" using ss by (simp add: Flags_def same_slots_def)
  obtain Fl where Fl: "Flags win d L = Some Fl" "Fl AND DecodedBit \<noteq> 0 \<longleftrightarrow> L \<in> marked win DecodedBit d" by (rule Flags_marked [OF L w])
  show ?thesis
  proof (cases "L \<in> marked win DecodedBit d")
    case False
    then show ?thesis using F Fl assms(2) by (simp add: layout_leader_def)
  next
    case True
    let ?r = "run_from env win d L fuel L"
    let ?s = "s\<lparr>LBlock := new_block L (Used s) SUCCESS (L = PC), LEnd := L\<rparr>"
    have r: "?r \<noteq> []" "hd ?r = L" using run_from_start [OF True, of fuel env] assms(4) by (simp_all del: run_from.simps)
    have "unat (WindowHigh win) < unat L + 4 * f" using assms(5) L by (simp add: InWindow_iff)
    then have run: "layout_run win fuel L L ?s = layout_insts env ?r ?s" unfolding assms(4) using layout_run_insts [OF assms(1), of ?s] ss by simp
    have "lay_ok env ?s (concat rs)" using assms(2) by (simp add: unit_ok_def lay_ok_def)
    moreover have "length (concat rs) + length ?r \<le> length (DecodedBuffer (LDecoder ?s))" using assms(2,6) by (simp add: unit_ok_def)
    ultimately obtain s1 b p where 1: "layout_insts env ?r ?s = Some s1" "lay_ok env s1 (concat rs @ ?r)" "LDecoder s1 = (LDecoder ?s)\<lparr>DecodedBuffer := b, CodePages := p\<rparr>"
      "length b = length (DecodedBuffer (LDecoder ?s))" "set (CodePages (LDecoder ?s)) \<subseteq> set p"
      "LBlock s1 = (LBlock ?s)\<lparr>NumInstructions := NumInstructions (LBlock ?s) + length ?r, BlockSize := BlockSize (LBlock ?s) + of_nat (4 * length ?r)\<rparr>"
      "LEnd s1 = (if ?r = [] then LEnd ?s else inst_end env (last ?r))" using layout_insts_correct by blast
    have blk: "LBlock s1 = block_of PC (length (concat rs)) ?r"
      using 1(6) r(2) assms(2) by (simp add: block_of_def new_block_def unit_ok_def lay_ok_def)
    define s' where "s' = s1\<lparr>LDecoder := (LDecoder s1)\<lparr>DecodedMinAddress := min (DecodedMinAddress (LDecoder s1)) L,
                              DecodedMaxAddress := max (DecodedMaxAddress (LDecoder s1)) (LEnd s1),
                              TotalInstructionCount := TotalInstructionCount (LDecoder s1) + NumInstructions (LBlock s1),
                              Blocks := Blocks (LDecoder s1) @ [LBlock s1]\<rparr>\<rparr>"
    have "layout_leader win fuel PC L s = Some s'" using F Fl True run 1(1) by (simp add: layout_leader_def s'_def Let_def)
    moreover have "unit_ok env PC d s' (rs @ [?r])"
    proof -
      have "lay_ok env s' (concat rs @ ?r)" using 1(2) by (simp add: lay_ok_def s'_def)
      moreover have "same_slots d (LDecoder s')" using ss 1(3) by (simp add: same_slots_def s'_def)
      moreover have "Blocks (LDecoder s') = blocks_of PC 0 (rs @ [?r])" using assms(2) 1(3) blk by (simp add: unit_ok_def s'_def blocks_of_append)
      moreover have "NumInstructions (LBlock s1) = length ?r" using blk by (simp add: block_of_def)
      ultimately show ?thesis using assms(2) 1(3-5,7) r by (auto simp: unit_ok_def s'_def min.coboundedI1 max.coboundedI1)
    qed
    ultimately show ?thesis using True by simp
  qed
qed

definition runs_of :: "'h decoder_env \<Rightarrow> window \<Rightarrow> 'h decoder \<Rightarrow> nat \<Rightarrow> u64 list \<Rightarrow> u64 list list" where
  "runs_of env win d fuel Ls = map (\<lambda>L. run_from env win d L fuel L) (filter (\<lambda>L. L \<in> marked win DecodedBit d) Ls)"

lemma layout_leaders_correct:
  assumes "region_inv env win PC cap n d" "unit_ok env PC d s rs" "set Ls \<subseteq> marked win LeaderBit d" "fuel = Suc f"
    "unat (WindowHigh win) < unat (WindowLow win) + 4 * f"
    "length (concat rs) + length (concat (runs_of env win d fuel Ls)) \<le> length (DecodedBuffer d)"
  shows "\<exists>s'. layout_leaders win fuel PC Ls s = Some s' \<and> unit_ok env PC d s' (rs @ runs_of env win d fuel Ls)"
  using assms(2,3,6)
proof (induction Ls arbitrary: s rs)
  case Nil
  then show ?case by (simp add: runs_of_def)
next
  case (Cons L Ls)
  let ?rs = "if L \<in> marked win DecodedBit d then rs @ [run_from env win d L fuel L] else rs"
  have L: "L \<in> marked win LeaderBit d" using Cons.prems(2) by simp
  have len: "length (concat ?rs) + length (concat (runs_of env win d fuel Ls)) \<le> length (DecodedBuffer d)"
    using Cons.prems(3) by (simp add: runs_of_def split: if_splits)
  have "length (concat rs) + length (run_from env win d L fuel L) \<le> length (DecodedBuffer d)"
  proof (cases "L \<in> marked win DecodedBit d")
    case True
    then show ?thesis using len by simp
  next
    case False
    then have "run_from env win d L fuel L = []" using assms(4) by simp
    then show ?thesis using len False by simp
  qed
  then obtain s1 where s1: "layout_leader win fuel PC L s = Some s1" "unit_ok env PC d s1 ?rs"
    using layout_leader_correct [OF assms(1) Cons.prems(1) L assms(4,5)] by blast
  obtain s' where s': "layout_leaders win fuel PC Ls s1 = Some s'" "unit_ok env PC d s' (?rs @ runs_of env win d fuel Ls)"
    using Cons.IH [OF s1(2) _ len] Cons.prems(2) by auto
  have "?rs @ runs_of env win d fuel Ls = rs @ runs_of env win d fuel (L # Ls)" by (simp add: runs_of_def)
  then have "unit_ok env PC d s' (rs @ runs_of env win d fuel (L # Ls))" using s'(2) by (simp only:)
  then show ?case using s1(1) s'(1) by simp
qed

lemma run_from_subset: "set (run_from env win d L fuel a) \<subseteq> marked win DecodedBit d"
  by (induction fuel arbitrary: a) auto

lemma runs_distinct:
  assumes "region_inv env win PC cap n d" "distinct Ls" "set Ls \<subseteq> marked win LeaderBit d"
  shows "distinct (concat (runs_of env win d fuel Ls))" "set (concat (runs_of env win d fuel Ls)) \<subseteq> marked win DecodedBit d"
proof -
  show "set (concat (runs_of env win d fuel Ls)) \<subseteq> marked win DecodedBit d" using run_from_subset by (fastforce simp: runs_of_def)
  show "distinct (concat (runs_of env win d fuel Ls))" using assms(2,3)
  proof (induction Ls)
    case (Cons L Ls)
    have "set (run_from env win d L fuel L) \<inter> set (concat (runs_of env win d fuel Ls)) = {}"
      using run_from_disjoint [OF assms(1)] Cons.prems by (fastforce simp: runs_of_def)
    then show ?case using Cons run_from_distinct [OF assms(1)] by (simp add: runs_of_def)
  qed (simp add: runs_of_def)
qed

text \<open>A run goes on while it can, so that the runs of the leaders hold every decoded word.\<close>

lemma run_from_goes_on:
  assumes "region_inv env win PC cap n d" "x \<in> set (run_from env win d L (Suc fuel) a)" "\<not> stops env x"
    "x + INSTRUCTION_SIZE \<in> marked win DecodedBit d" "x + INSTRUCTION_SIZE \<notin> marked win LeaderBit d" "unat (WindowHigh win) < unat a + 4 * fuel"
  shows "x + INSTRUCTION_SIZE \<in> set (run_from env win d L (Suc fuel) a)"
  using assms(2,6)
proof (induction fuel arbitrary: a)
  case 0
  then have "a \<in> marked win DecodedBit d" by (auto split: if_splits)
  then show ?case using 0 by (simp add: marked_def InWindow_iff)
next
  case (Suc fuel)
  have a: "a \<in> marked win DecodedBit d" using Suc.prems(1) by (auto split: if_splits)
  then have "InWindow win a" by (simp add: marked_def)
  then have step: "unat (a + INSTRUCTION_SIZE) = unat a + 4" using InWindow_step region_inv_slots [OF assms(1)] by blast
  show ?case
  proof (cases "x = a")
    case True
    then show ?thesis using Suc.prems(1) a assms(3-5) by (auto split: if_splits)
  next
    case False
    then have "x \<in> set (run_from env win d L (Suc fuel) (a + INSTRUCTION_SIZE))" "\<not> stops env a" "\<not> (a \<noteq> L \<and> a \<in> marked win LeaderBit d)"
      using Suc.prems(1) run_from.simps(2) [of env win d L "Suc fuel" a] by (auto simp del: run_from.simps split: if_splits)
    then show ?thesis using Suc.IH [of "a + INSTRUCTION_SIZE"] Suc.prems(2) step a run_from.simps(2) [of env win d L "Suc fuel" a]
      by (simp del: run_from.simps)
  qed
qed

lemma runs_cover:
  assumes "region_inv env win PC cap n d" "set Ls = marked win LeaderBit d" "unat (WindowHigh win) < unat (WindowLow win) + 4 * f" "a \<in> marked win DecodedBit d"
  shows "a \<in> set (concat (runs_of env win d (Suc f) Ls))"
  using assms(4)
proof (induction "unat a" arbitrary: a rule: less_induct)
  case less
  show ?case
  proof (cases "a \<in> marked win LeaderBit d")
    case True
    then have "a \<in> set (run_from env win d a (Suc f) a)" using less.prems by simp
    then show ?thesis using True less.prems assms(2) by (auto simp: runs_of_def simp del: run_from.simps)
  next
    case False
    then obtain b where b: "b \<in> marked win DecodedBit d" "\<not> stops env b" "a = b + INSTRUCTION_SIZE"
      using assms(1) less.prems by (auto simp: region_inv_def rooted_def)
    have "unat a = unat b + 4" using b InWindow_step [of win b d] region_inv_slots [OF assms(1)] by (simp add: marked_def)
    then have "b \<in> set (concat (runs_of env win d (Suc f) Ls))" using less.hyps [of b] b(1) by simp
    then obtain L where L: "L \<in> set Ls" "L \<in> marked win DecodedBit d" "b \<in> set (run_from env win d L (Suc f) L)"
      by (auto simp: runs_of_def simp del: run_from.simps)
    have "unat (WindowHigh win) < unat L + 4 * f" using L(2) assms(3) by (simp add: marked_def InWindow_iff)
    from run_from_goes_on [OF assms(1) L(3) b(2) _ _ this] have "a \<in> set (run_from env win d L (Suc f) L)" using b(3) less.prems False by simp
    then show ?thesis using L(1,2) by (auto simp: runs_of_def simp del: run_from.simps)
  qed
qed

lemma runs_length:
  assumes "region_inv env win PC cap n d" "distinct Ls" "set Ls = marked win LeaderBit d" "unat (WindowHigh win) < unat (WindowLow win) + 4 * f"
  shows "length (concat (runs_of env win d (Suc f) Ls)) + n = cap"
proof -
  have s: "set Ls \<subseteq> marked win LeaderBit d" using assms(3) by simp
  note D = runs_distinct [OF assms(1,2) s, of "Suc f"]
  have "set (concat (runs_of env win d (Suc f) Ls)) = marked win DecodedBit d" using D(2) runs_cover [OF assms(1,3,4)] by blast
  then have "length (concat (runs_of env win d (Suc f) Ls)) = card (marked win DecodedBit d)" using distinct_card [OF D(1)] by (simp only:)
  then show ?thesis using assms(1) by (simp add: region_inv_def)
qed

section \<open>Predecessors\<close>

text \<open>The edges that the census counts, in its order.\<close>

definition edges_of :: "'h decoder_env \<Rightarrow> u64 list \<Rightarrow> (u64 \<times> u64) list" where
  "edges_of env r =
     (let Succ = (if has_handler (word_matcher env (last r)) then GetDirectSuccessors (GuestWord env (last r)) (last r) else []) in
      map (Pair (hd r)) (if Succ \<noteq> [] then Succ else [hd r + of_nat (4 * length r)]))"

definition preds :: "(u64 \<times> u64) list \<Rightarrow> u64 \<Rightarrow> u64 list" where
  "preds es t = map fst (filter (\<lambda>e. snd e = t) es)"

definition with_preds :: "(u64 \<times> u64) list \<Rightarrow> decoded_block \<Rightarrow> decoded_block" where
  "with_preds es b = b\<lparr>PredCount := min 2 (length (preds es (Entry b))), SolePredEntry := (if length (preds es (Entry b)) = 1 then hd (preds es (Entry b)) else 0)\<rparr>"

lemma count_edge_correct:
  assumes "distinct (map Entry bs)" "\<forall>b \<in> set bs. PredCount b = 0 \<and> SolePredEntry b = 0"
  shows "count_edge f t (map (with_preds es) bs) = map (with_preds (es @ [(f, t)])) bs"
  using assms
proof (induction bs)
  case (Cons b bs)
  show ?case
  proof (cases "Entry b = t")
    case False
    then show ?thesis using Cons by (simp add: with_preds_def preds_def)
  next
    case True
    have "with_preds (es @ [(f, t)]) c = with_preds es c" if "c \<in> set bs" for c
      using True Cons.prems(1) that by (force simp: with_preds_def preds_def)
    then have "map (with_preds (es @ [(f, t)])) bs = map (with_preds es) bs" by simp
    then show ?thesis using True by (cases "preds es t") (auto simp: with_preds_def preds_def Let_def)
  qed
qed simp

lemma count_edges_correct:
  assumes "distinct (map Entry bs)" "\<forall>b \<in> set bs. PredCount b = 0 \<and> SolePredEntry b = 0"
  shows "fold (count_edge f) ts (map (with_preds es) bs) = map (with_preds (es @ map (Pair f) ts)) bs"
proof (induction ts arbitrary: es)
  case (Cons t ts)
  then show ?case using count_edge_correct [OF assms] by simp
qed simp

lemma edge_targets_block:
  assumes "take (off + length r) buf = map (inst_at env) (as @ r)" "off = length as" "r \<noteq> []"
  shows "\<exists>ts. edge_targets buf (block_of PC off r) = Some ts \<and> edges_of env r = map (Pair (Entry (block_of PC off r))) ts"
proof -
  have l: "off + length r \<le> length buf" using arg_cong [OF assms(1), of length] assms(2) by simp
  have "buf ! (off + length r - 1) = take (off + length r) buf ! (off + length r - 1)" using assms(3) by (cases r) simp_all
  also have "\<dots> = inst_at env (last r)" unfolding assms(1) using assms(2,3) by (cases r rule: rev_cases) (simp_all add: nth_append)
  finally have "read_at buf (off + length r - 1) = Some (inst_at env (last r))" using l assms(3) by (cases r) (simp_all add: read_at_def)
  then show ?thesis using assms(3) by (simp add: edge_targets_def block_of_def new_block_def edges_of_def inst_at_def Let_def)
qed

lemma count_predecessors_correct:
  assumes "distinct (map Entry bs)" "\<forall>b \<in> set bs. PredCount b = 0 \<and> SolePredEntry b = 0"
    "take (length (concat (pre @ rs))) buf = map (inst_at env) (concat (pre @ rs))" "[] \<notin> set rs"
  shows "count_predecessors buf (blocks_of PC (length (concat pre)) rs) (map (with_preds es) bs) = Some (map (with_preds (es @ concat (map (edges_of env) rs))) bs)"
  using assms(3,4)
proof (induction rs arbitrary: pre es)
  case (Cons r rs)
  let ?off = "length (concat pre)"
  have "take (?off + length r) buf = take (?off + length r) (take (length (concat (pre @ r # rs))) buf)" by simp
  also have "\<dots> = map (inst_at env) (concat pre @ r)" unfolding Cons.prems(1) by (simp add: take_map)
  finally obtain ts where ts: "edge_targets buf (block_of PC ?off r) = Some ts" "edges_of env r = map (Pair (Entry (block_of PC ?off r))) ts"
    using edge_targets_block Cons.prems(2) by (metis list.set_intros(1))
  have "count_predecessors buf (blocks_of PC (length (concat (pre @ [r]))) rs) (map (with_preds (es @ edges_of env r)) bs) =
      Some (map (with_preds ((es @ edges_of env r) @ concat (map (edges_of env) rs))) bs)"
    using Cons.IH [of "pre @ [r]"] Cons.prems by simp
  then show ?case using ts count_edges_correct [OF assms(1,2)] by simp
qed simp

lemma with_preds_Nil: "PredCount b = 0 \<Longrightarrow> SolePredEntry b = 0 \<Longrightarrow> with_preds [] b = b"
  by (simp add: with_preds_def preds_def)

lemma blocks_of_fields:
  assumes "[] \<notin> set rs"
  shows "map Entry (blocks_of PC off rs) = map hd rs" "\<forall>b \<in> set (blocks_of PC off rs). PredCount b = 0 \<and> SolePredEntry b = 0"
  by (induction rs arbitrary: off) (auto simp: block_of_def new_block_def)

lemma hd_runs_distinct: "distinct (concat rs) \<Longrightarrow> [] \<notin> set rs \<Longrightarrow> distinct (map hd rs)"
proof (induction rs)
  case (Cons r rs)
  have "hd r \<noteq> hd q" if "q \<in> set rs" for q
  proof -
    have "hd r \<in> set r" "hd q \<in> set (concat rs)" using Cons.prems(2) that by (metis hd_in_set list.set_intros(1), metis concat.simps hd_in_set in_set_conv_decomp list.set_intros(2) Un_iff set_append concat_append)
    then show ?thesis using Cons.prems(1) by auto
  qed
  then show ?case using Cons by auto
qed simp

lemma census_correct:
  assumes "take (length (concat rs)) buf = map (inst_at env) (concat rs)" "[] \<notin> set rs" "distinct (concat rs)"
  shows "count_predecessors buf (blocks_of PC 0 rs) (blocks_of PC 0 rs) = Some (map (with_preds (concat (map (edges_of env) rs))) (blocks_of PC 0 rs))"
proof -
  have d: "distinct (map Entry (blocks_of PC 0 rs))" using hd_runs_distinct [OF assms(3,2)] by (simp add: blocks_of_fields [OF assms(2)])
  have z: "map (with_preds []) (blocks_of PC 0 rs) = blocks_of PC 0 rs" using blocks_of_fields(2) [OF assms(2)] with_preds_Nil by (simp add: map_idI)
  show ?thesis using count_predecessors_correct [OF d blocks_of_fields(2) [OF assms(2)], of "[]" rs buf env PC "[]"] assms z by simp
qed

end
