(* ===== verification/DecoderUnit.thy ===== *)
theory DecoderUnit
  imports DecoderLayout
begin

text \<open>
  What one call of the block decoder returns: the theorems on \<open>DecodeInstructionsAtEntry\<close> and on the
  ranges that the flag analysis adds to a unit.
\<close>

section \<open>Units\<close>

definition is_run :: "'h decoder_env \<Rightarrow> u64 list \<Rightarrow> bool" where
  "is_run env r \<longleftrightarrow> r \<noteq> [] \<and> (\<forall>i < length r. r ! i = hd r + of_nat (4 * i) \<and> unat (r ! i) = unat (hd r) + 4 * i \<and> unat (r ! i) + 64 < 2 ^ 64 \<and>
     unat (r ! i) mod 4 = 0 \<and> env_exec env (r ! i) INSTRUCTION_SIZE \<and> (Suc i < length r \<longrightarrow> \<not> stops env (r ! i)))"

definition all_edges :: "'h decoder_env \<Rightarrow> u64 list list \<Rightarrow> (u64 \<times> u64) list" where
  "all_edges env rs = concat (map (edges_of env) rs)"

text \<open>A run that does not end by itself goes on in another block, unless the unit is full.\<close>

definition unit_closed :: "'h decoder_env \<Rightarrow> u64 \<Rightarrow> u64 \<Rightarrow> u64 list list \<Rightarrow> bool" where
  "unit_closed env PC Cap rs \<longleftrightarrow> length (concat rs) = unat Cap \<or>
     (\<forall>r \<in> set rs. \<not> stops env (last r) \<longrightarrow> last r + INSTRUCTION_SIZE \<in> hd ` set rs \<or>
        unat PC + 4 * unat Cap + unat (RegionWindow env) < unat (last r) + 4 \<or> \<not> env_exec env (last r + INSTRUCTION_SIZE) INSTRUCTION_SIZE)"

text \<open>
  The targets of the branch at \<open>a\<close> that the decoder follows: blocks are joined at all, the branch is
  understood, and the target is within the reach of a region and in the window of the unit. Every block but the
  first starts at such a target, and every such target that is executable starts a block, unless the unit is
  full or has too many leaders.
\<close>

definition followed_targets :: "'h decoder_env \<Rightarrow> u64 \<Rightarrow> u64 \<Rightarrow> u64 \<Rightarrow> u64 list" where
  "followed_targets env PC Cap a =
     (if branches env (Multiblock env \<and> Cap > 1 \<and> MaxLeaders env > 1) a
      then filter (\<lambda>T. (if T > a then T - a else a - T) \<le> RegionWindow env \<and> fst (unit_window env PC Cap) \<le> T \<and> T \<le> snd (unit_window env PC Cap) \<and>
             T AND (INSTRUCTION_SIZE - 1) = 0) (GetDirectSuccessors (GuestWord env a) a)
      else [])"

definition unit_started :: "'h decoder_env \<Rightarrow> u64 \<Rightarrow> u64 \<Rightarrow> u64 list list \<Rightarrow> nat \<Rightarrow> bool" where
  "unit_started env PC Cap rs leaders \<longleftrightarrow>
     (\<forall>r \<in> set rs. hd r = PC \<or> (\<exists>q \<in> set rs. hd r \<in> set (followed_targets env PC Cap (last q)))) \<and>
     (length (concat rs) = unat Cap \<or> MaxLeaders env \<le> leaders \<or>
      (\<forall>r \<in> set rs. \<forall>T \<in> set (followed_targets env PC Cap (last r)). T \<in> hd ` set rs \<or> \<not> env_exec env T INSTRUCTION_SIZE))"

definition decoded_unit :: "'h decoder_env \<Rightarrow> u64 \<Rightarrow> u64 \<Rightarrow> u64 list list \<Rightarrow> 'h decoder \<Rightarrow> bool" where
  "decoded_unit env PC Cap rs d \<longleftrightarrow> rs \<noteq> [] \<and> hd (hd rs) = PC \<and> (\<forall>r \<in> set rs. is_run env r) \<and> distinct (concat rs) \<and>
     length (concat rs) \<le> unat Cap \<and> unit_closed env PC Cap rs \<and> unit_started env PC Cap rs (length (Leaders d)) \<and>
     take (length (concat rs)) (DecodedBuffer d) = map (inst_at env) (concat rs) \<and> TotalInstructionCount d = length (concat rs) \<and>
     Blocks d = map (with_preds (all_edges env rs)) (blocks_of PC 0 rs) \<and> EntryPoints d = [PC] \<and> sorted_wrt (<) (CodePages d) \<and>
     (\<forall>a \<in> set (concat rs). inst_pages env a \<subseteq> set (CodePages d)) \<and> page_of PC \<in> set (CodePages d) \<and>
     (\<forall>r \<in> set rs. DecodedMinAddress d \<le> hd r \<and> inst_end env (last r) \<le> DecodedMaxAddress d)"

lemma run_from_is_run:
  assumes "region_inv env win PC cap n d" "L \<in> marked win DecodedBit d"
  shows "is_run env (run_from env win d L (Suc f) L)"
proof -
  let ?r = "run_from env win d L (Suc f) L"
  have h: "?r \<noteq> []" "hd ?r = L" using run_from_start [OF assms(2), of "Suc f" env] by (simp_all del: run_from.simps)
  have "?r ! i = hd ?r + of_nat (4 * i) \<and> unat (?r ! i) = unat (hd ?r) + 4 * i \<and> unat (?r ! i) + 64 < 2 ^ 64 \<and> unat (?r ! i) mod 4 = 0 \<and>
      env_exec env (?r ! i) INSTRUCTION_SIZE \<and> (Suc i < length ?r \<longrightarrow> \<not> stops env (?r ! i))" if i: "i < length ?r" for i
  proof -
    have D: "?r ! i \<in> marked win DecodedBit d" using run_from_subset nth_mem [OF i] by blast
    then have "InWindow win (?r ! i)" by (simp add: marked_def)
    then have "unat (?r ! i) + 64 < 2 ^ 64 \<and> unat (?r ! i) mod 4 = 0" using region_inv_slots [OF assms(1)] by (simp add: win_ok_def InWindow_iff)
    moreover have "env_exec env (?r ! i) INSTRUCTION_SIZE" using D assms(1) by (simp only: region_inv_def slots_ok_def)
    ultimately show ?thesis using run_from_nth [OF assms(1) refl i] unfolding h(2) by blast
  qed
  then show ?thesis using h(1) unfolding is_run_def by blast
qed

lemma is_run_unat: "is_run env r \<Longrightarrow> i < length r \<Longrightarrow> unat (r ! i) = unat (hd r) + 4 * i"
  unfolding is_run_def by blast

lemma is_run_last: "is_run env r \<Longrightarrow> unat (last r) = unat (hd r) + 4 * (length r - 1)"
proof -
  assume r: "is_run env r"
  then have ne: "r \<noteq> []" by (simp add: is_run_def)
  then have "length r - 1 < length r" by simp
  from is_run_unat [OF r this] show ?thesis by (simp only: last_conv_nth [OF ne])
qed

lemma runs_closed:
  assumes "region_inv env win PC cap n d" "settled env win {} d" "set Ls = marked win LeaderBit d" "unat (WindowHigh win) < unat (WindowLow win) + 4 * f"
    "r \<in> set (runs_of env win d (Suc f) Ls)" "\<not> stops env (last r)"
  shows "last r + INSTRUCTION_SIZE \<in> hd ` set (runs_of env win d (Suc f) Ls) \<or> unat (WindowHigh win) < unat (last r) + 4 \<or>
    \<not> env_exec env (last r + INSTRUCTION_SIZE) INSTRUCTION_SIZE"
proof -
  obtain L where L: "L \<in> set Ls" "L \<in> marked win DecodedBit d" "r = run_from env win d L (Suc f) L" using assms(5) by (auto simp: runs_of_def simp del: run_from.simps)
  have r: "is_run env r" using run_from_is_run [OF assms(1) L(2)] L(3) by (simp only:)
  then have ne: "r \<noteq> []" by (simp add: is_run_def)
  let ?x = "last r"
  have x: "?x \<in> marked win DecodedBit d" using run_from_subset last_in_set [OF ne] L(3) by blast
  then have "InWindow win ?x" by (simp add: marked_def)
  then have step: "unat (?x + INSTRUCTION_SIZE) = unat ?x + 4" using InWindow_step region_inv_slots [OF assms(1)] by blast
  have "reached env win {} d (?x + INSTRUCTION_SIZE)" using assms(2,6) x by (simp add: settled_def)
  moreover have "InWindow win (?x + INSTRUCTION_SIZE) \<longleftrightarrow> unat ?x + 4 \<le> unat (WindowHigh win)"
    using \<open>InWindow win ?x\<close> unfolding InWindow_iff step by auto
  moreover have "?x + INSTRUCTION_SIZE \<in> hd ` set (runs_of env win d (Suc f) Ls)" if y: "?x + INSTRUCTION_SIZE \<in> marked win DecodedBit d"
  proof (cases "?x + INSTRUCTION_SIZE \<in> marked win LeaderBit d")
    case True
    let ?R = "run_from env win d (?x + INSTRUCTION_SIZE) (Suc f) (?x + INSTRUCTION_SIZE)"
    have "hd ?R = ?x + INSTRUCTION_SIZE" using run_from_start [OF y, of "Suc f" env] by (simp del: run_from.simps)
    moreover have "?R \<in> set (runs_of env win d (Suc f) Ls)" using True y assms(3) by (auto simp: runs_of_def simp del: run_from.simps)
    ultimately show ?thesis by (metis imageI)
  next
    case False
    have "unat (WindowHigh win) < unat L + 4 * f" using L(2) assms(4) by (simp add: marked_def InWindow_iff)
    moreover have "?x \<in> set (run_from env win d L (Suc f) L)" using last_in_set [OF ne] L(3) by (simp only:)
    ultimately have "?x + INSTRUCTION_SIZE \<in> set r" using run_from_goes_on [OF assms(1) _ assms(6) y False] L(3) by (simp only:)
    then obtain i where i: "i < length r" "r ! i = ?x + INSTRUCTION_SIZE" by (metis in_set_conv_nth)
    have "unat (r ! i) = unat (hd r) + 4 * i" "unat ?x = unat (hd r) + 4 * (length r - 1)" using is_run_unat [OF r i(1)] is_run_last [OF r] by simp_all
    then have "unat (hd r) + 4 * i = unat (hd r) + 4 * (length r - 1) + 4" using step unfolding i(2) by simp
    then show ?thesis using i(1) by linarith
  qed
  ultimately show ?thesis unfolding reached_def by fastforce
qed

lemma followed_targets_near:
  assumes "unit_window env PC Cap = (WindowLow win, WindowHigh win)"
  shows "T \<in> set (followed_targets env PC Cap a) \<longleftrightarrow> branches env (Multiblock env \<and> Cap > 1 \<and> MaxLeaders env > 1) a \<and>
    T \<in> set (GetDirectSuccessors (GuestWord env a) a) \<and> near env win a T"
  using assms by (auto simp: followed_targets_def near_def InWindow_def)

lemma runs_started:
  assumes "region_inv env win PC cap n d" "led env win (Multiblock env \<and> Cap > 1 \<and> MaxLeaders env > 1) PC d" "0 < n \<longrightarrow> settled env win {} d"
    "unat (WindowHigh win) < unat (WindowLow win) + 4 * f" "unit_window env PC Cap = (WindowLow win, WindowHigh win)" "cap = unat Cap"
    "length (concat (runs_of env win d (Suc f) (Leaders d))) + n = cap"
  shows "unit_started env PC Cap (runs_of env win d (Suc f) (Leaders d)) (length (Leaders d))"
proof -
  let ?rs = "runs_of env win d (Suc f) (Leaders d)"
  let ?f = "Multiblock env \<and> Cap > 1 \<and> MaxLeaders env > 1"
  have ls: "set (Leaders d) = marked win LeaderBit d" using assms(1) by (simp add: region_inv_def leaders_ok_def)
  have run: "\<exists>L \<in> set (Leaders d). L \<in> marked win DecodedBit d \<and> q = run_from env win d L (Suc f) L \<and> hd q = L" if "q \<in> set ?rs" for q
    using that run_from_start [of _ win d "Suc f" env] by (auto simp: runs_of_def simp del: run_from.simps)
  have start: "L \<in> hd ` set ?rs" if "L \<in> set (Leaders d)" "L \<in> marked win DecodedBit d" for L
  proof -
    have "run_from env win d L (Suc f) L \<in> set ?rs" using that by (auto simp: runs_of_def simp del: run_from.simps)
    moreover have "hd (run_from env win d L (Suc f) L) = L" using run_from_start [OF that(2), of "Suc f" env] by (simp del: run_from.simps)
    ultimately show ?thesis by (metis imageI)
  qed
  have "hd r = PC \<or> (\<exists>q \<in> set ?rs. hd r \<in> set (followed_targets env PC Cap (last q)))" if r: "r \<in> set ?rs" for r
  proof (cases "hd r = PC")
    case False
    obtain L0 where "L0 \<in> set (Leaders d)" "hd r = L0" using run [OF r] by blast
    then have "hd r \<in> set (Leaders d)" by simp
    then obtain a where a: "a \<in> marked win DecodedBit d" "branches env ?f a" "hd r \<in> set (GetDirectSuccessors (GuestWord env a) a)" "near env win a (hd r)"
      using assms(2) False unfolding led_def by blast
    obtain q where q: "q \<in> set ?rs" "a \<in> set q" using runs_cover [OF assms(1) ls assms(4) a(1)] by auto
    obtain L where "L \<in> marked win DecodedBit d" "q = run_from env win d L (Suc f) L" using run [OF q(1)] by blast
    then have "is_run env q" using run_from_is_run [OF assms(1)] by blast
    moreover obtain i where i: "i < length q" "q ! i = a" using q(2) by (metis in_set_conv_nth)
    ultimately have "\<not> Suc i < length q" using a(2) unfolding is_run_def branches_def by blast
    then have "i = length q - 1" using i(1) by linarith
    then have "last q = a" using i last_conv_nth [of q] by (cases q) auto
    then show ?thesis using q(1) a(2-4) followed_targets_near [OF assms(5)] by blast
  qed simp
  moreover have "T \<in> hd ` set ?rs \<or> \<not> env_exec env T INSTRUCTION_SIZE"
    if n: "0 < n" "length (Leaders d) < MaxLeaders env" and r: "r \<in> set ?rs" and T: "T \<in> set (followed_targets env PC Cap (last r))" for r T
  proof -
    obtain L where L: "L \<in> marked win DecodedBit d" "r = run_from env win d L (Suc f) L" using run [OF r] by blast
    have "r \<noteq> []" using run_from_start [OF L(1), of "Suc f" env] unfolding L(2) by blast
    then have "last r \<in> marked win DecodedBit d" using run_from_subset last_in_set L(2) by blast
    moreover note T [unfolded followed_targets_near [OF assms(5)]]
    ultimately have "T \<in> set (Leaders d) \<or> MaxLeaders env \<le> length (Leaders d)" "near env win (last r) T" using assms(2) unfolding led_def by blast+
    then have T': "T \<in> set (Leaders d)" "InWindow win T" using n(2) by (simp_all add: near_def)
    have "reached env win {} d T" using assms(3) n(1) T'(1) by (simp add: settled_def)
    then show ?thesis using start [OF T'(1)] T'(2) by (auto simp: reached_def)
  qed
  ultimately show ?thesis using assms(6,7) unfolding unit_started_def by (metis add.right_neutral not_le not_gr_zero)
qed

text \<open>The layout does not touch the leaders.\<close>

lemma layout_inst_Leaders: "layout_inst a w m s = Some s' \<Longrightarrow> Leaders (LDecoder s') = Leaders (LDecoder s)"
  by (auto simp: layout_inst_def note_code_page_def Let_def bind_eq_Some_conv split: if_splits)

lemma layout_run_Leaders: "layout_run win fuel L a s = Some s' \<Longrightarrow> Leaders (LDecoder s') = Leaders (LDecoder s)"
proof (induction fuel arbitrary: a s)
  case (Suc fuel)
  show ?case
  proof (cases "s' = s")
    case False
    obtain w m s1 where s1: "layout_inst a w m s = Some s1" "s' = s1 \<or> layout_run win fuel L (a + INSTRUCTION_SIZE) s1 = Some s'"
      using Suc.prems False by (auto simp: bind_eq_Some_conv split: if_splits)
    then show ?thesis using Suc.IH layout_inst_Leaders by metis
  qed simp
qed simp

lemma layout_leader_Leaders: "layout_leader win fuel PC L s = Some s' \<Longrightarrow> Leaders (LDecoder s') = Leaders (LDecoder s)"
  by (auto simp: layout_leader_def Let_def bind_eq_Some_conv simp del: layout_run.simps split: if_splits dest!: layout_run_Leaders)

lemma layout_leaders_Leaders: "layout_leaders win fuel PC Ls s = Some s' \<Longrightarrow> Leaders (LDecoder s') = Leaders (LDecoder s)"
proof (induction Ls arbitrary: s)
  case (Cons L Ls)
  then obtain s1 where "layout_leader win fuel PC L s = Some s1" "layout_leaders win fuel PC Ls s1 = Some s'" by (auto simp: bind_eq_Some_conv)
  then show ?case using Cons.IH layout_leader_Leaders by metis
qed simp

text \<open>The leaders in the order of the layout.\<close>

definition layout_order :: "u64 list \<Rightarrow> u64 list" where "layout_order Ls = hd Ls # sort (tl Ls)"

lemma layout_order_props: "Ls \<noteq> [] \<Longrightarrow> distinct Ls \<Longrightarrow> distinct (layout_order Ls) \<and> set (layout_order Ls) = set Ls \<and> hd (layout_order Ls) = hd Ls"
  by (cases Ls) (simp_all add: layout_order_def)

lemma laid_out:
  assumes "region_inv env win PC (unat Cap) n d" "PC \<in> marked win DecodedBit d" "0 < n \<longrightarrow> settled env win {} d"
    "fuel = Suc f" "unat (WindowHigh win) < unat (WindowLow win) + 4 * f" "WindowHigh win = high" "unat high = unat PC + 4 * unat Cap + unat (RegionWindow env)"
    "layout_order (Leaders d) = Leaders d" "unat Cap \<le> length (DecodedBuffer d)" "Blocks d = []" "TotalInstructionCount d = 0"
    "CodePages d = [page_of PC]" "EntryPoints d = [PC]" "Gen win = Generation d"
    "led env win (Multiblock env \<and> Cap > 1 \<and> MaxLeaders env > 1) PC d" "unit_window env PC Cap = (WindowLow win, WindowHigh win)"
  obtains s bs rs where "layout_leaders win fuel PC (Leaders d) \<lparr>LBlock = new_block PC 0 SUCCESS True, LEnd = PC, Used = 0, LastPage = page_of PC, LDecoder = d\<rparr> = Some s"
    "count_predecessors (DecodedBuffer (LDecoder s)) (Blocks (LDecoder s)) (Blocks (LDecoder s)) = Some bs"
    "decoded_unit env PC Cap rs ((LDecoder s)\<lparr>Blocks := bs\<rparr>)" "decoder_ok env ((LDecoder s)\<lparr>Blocks := bs\<rparr>)" "bs \<noteq> []"
    "Generation (LDecoder s) = Generation d"
proof -
  let ?s = "\<lparr>LBlock = new_block PC 0 SUCCESS True, LEnd = PC, Used = 0, LastPage = page_of PC, LDecoder = d\<rparr>"
  let ?rs = "runs_of env win d fuel (Leaders d)"
  have lead: "Leaders d \<noteq> []" "hd (Leaders d) = PC" "distinct (Leaders d)" "set (Leaders d) = marked win LeaderBit d"
    using assms(1) by (simp_all add: region_inv_def leaders_ok_def)
  then have sub: "set (Leaders d) \<subseteq> marked win LeaderBit d" by simp
  have len: "length (concat ?rs) + n = unat Cap" using runs_length [OF assms(1) lead(3,4) assms(5)] assms(4) by simp
  have "unit_ok env PC d ?s []" using assms(10-13) by (simp add: unit_ok_def lay_ok_def same_slots_def)
  moreover have "length (concat []) + length (concat ?rs) \<le> length (DecodedBuffer d)" using len assms(9) by simp
  ultimately obtain s where s: "layout_leaders win fuel PC (Leaders d) ?s = Some s" "unit_ok env PC d s ([] @ ?rs)"
    using layout_leaders_correct [OF assms(1) _ sub assms(4,5)] by blast
  have lay: "lay_ok env s (concat ?rs)" "Blocks (LDecoder s) = blocks_of PC 0 ?rs" "same_slots d (LDecoder s)" using s(2) by (simp_all add: unit_ok_def)
  have runs: "is_run env r" if "r \<in> set ?rs" for r using that run_from_is_run [OF assms(1)] unfolding assms(4) runs_of_def by (auto simp del: run_from.simps)
  then have ne: "[] \<notin> set ?rs" by (auto simp: is_run_def)
  note dist = runs_distinct(1) [OF assms(1) lead(3) sub, of fuel]
  have buf: "take (length (concat ?rs)) (DecodedBuffer (LDecoder s)) = map (inst_at env) (concat ?rs)" using lay(1) by (simp add: lay_ok_def)
  define bs where "bs = map (with_preds (all_edges env ?rs)) (blocks_of PC 0 ?rs)"
  have census: "count_predecessors (DecodedBuffer (LDecoder s)) (Blocks (LDecoder s)) (Blocks (LDecoder s)) = Some bs"
    unfolding lay(2) bs_def all_edges_def by (rule census_correct [OF buf ne dist])
  obtain Ls where Ls: "Leaders d = PC # Ls" using lead(1,2) by (cases "Leaders d") auto
  have rs: "?rs = run_from env win d PC fuel PC # runs_of env win d fuel Ls" using assms(2) by (simp add: runs_of_def Ls)
  have first: "?rs \<noteq> []" "hd (hd ?rs) = PC" unfolding rs using run_from_start [OF assms(2), of fuel env] assms(4) by (simp_all del: run_from.simps)
  have "unit_closed env PC Cap ?rs"
  proof (cases "n = 0")
    case True
    then show ?thesis using len by (simp add: unit_closed_def)
  next
    case False
    then have "settled env win {} d" using assms(3) by simp
    from runs_closed [OF assms(1) this lead(4) assms(5)] show ?thesis unfolding unit_closed_def assms(4) assms(6,7) by blast
  qed
  moreover have "unit_started env PC Cap ?rs (length (Leaders (LDecoder s)))"
    using runs_started [OF assms(1,15,3,5,16) refl] len layout_leaders_Leaders [OF s(1)] unfolding assms(4) by simp
  ultimately have "decoded_unit env PC Cap ?rs ((LDecoder s)\<lparr>Blocks := bs\<rparr>)"
    using first runs dist len buf bs_def s(2) assms(13) lay(1) unfolding decoded_unit_def unit_ok_def lay_ok_def by simp
  moreover have "decoder_ok env ((LDecoder s)\<lparr>Blocks := bs\<rparr>)"
  proof -
    have w: "win_ok win d" "cache_ok env d" using region_inv_slots [OF assms(1)] by (simp_all add: slots_ok_def)
    have "cache_ok env ((LDecoder s)\<lparr>Blocks := bs\<rparr>)" using w(2) cache_ok_cong [of "(LDecoder s)\<lparr>Blocks := bs\<rparr>" d] s(2) by (simp add: unit_ok_def)
    then show ?thesis using w(1) lay(3) s(2) assms(14) by (simp add: decoder_ok_def same_slots_def win_ok_def unit_ok_def)
  qed
  moreover have "bs \<noteq> []" using first(1) by (cases ?rs) (simp_all add: bs_def)
  ultimately show ?thesis using that [OF s(1) census] s(2) by (simp add: unit_ok_def)
qed

lemma next_generation_count: "unat (Generation (next_generation k d)) \<le> Suc (unat (Generation d))"
  by (simp add: next_generation_def Let_def unat_word_ariths)

lemma decode_region_correct:
  assumes "env_ok env" "decoder_ok env d" "Generation d < GenMask" "unit_fits env PC" "0 < unat Cap" "unat Cap \<le> 1024" "unat PC mod 4 = 0"
    "env_exec env PC INSTRUCTION_SIZE" "unat Cap \<le> length (DecodedBuffer d)" "Blocks d = []" "TotalInstructionCount d = 0"
    "CodePages d = [page_of PC]" "EntryPoints d = [PC]"
  shows "\<exists>d' rs. decode_region env PC Cap d = Some d' \<and> decoded_unit env PC Cap rs d' \<and> decoder_ok env d' \<and> unat (Generation d') \<le> Suc (unat (Generation d))"
proof -
  obtain low high where lh: "unit_window env PC Cap = (low, high)" by (cases "unit_window env PC Cap")
  define d1 where "d1 = next_generation (num_slots low high) d"
  define win where "win = region_window env PC Cap d1"
  have up1: "unit_part d1 = (DecodedBuffer d, Generation d1, TotalInstructionCount d, Blocks d, EntryPoints d, CodePages d, DecodedMinAddress d, DecodedMaxAddress d)"
    by (simp add: d1_def next_generation_def Let_def unit_part_def)
  have G1: "unat (Generation d1) \<le> Suc (unat (Generation d))" unfolding d1_def by (rule next_generation_count)
  obtain d2 where d2: "SetFlag win PC LeaderBit (d1\<lparr>Leaders := [PC], Worklist := []\<rparr>) = Some d2" "InWindow win PC"
    "region_inv env win PC (unat Cap) (unat Cap) (d2\<lparr>Worklist := [PC]\<rparr>)" "Leaders d2 = [PC]" "marked win DecodedBit d2 = {}"
    "unit_part d2 = unit_part d1" "Gen win = Generation d1" "num_slots low high = (unat high - unat low) div 4 + 1"
    by (rule region_start [OF assms(2-4,6,7) lh d1_def win_def])
  have "marked win DecodedBit (d2\<lparr>Worklist := [PC]\<rparr>) = {}" using d2(5) marked_cong [of "d2\<lparr>Worklist := [PC]\<rparr>" d2] by simp
  then obtain n d3 where d3: "discover env win (Multiblock env \<and> Cap > 1 \<and> MaxLeaders env > 1) PC (unat Cap) (d2\<lparr>Worklist := [PC]\<rparr>) = Some (n, d3)"
    "region_inv env win PC (unat Cap) n d3" "unit_part d3 = unit_part (d2\<lparr>Worklist := [PC]\<rparr>)" "PC \<in> marked win DecodedBit d3" "0 < n \<longrightarrow> settled env win {} d3"
    "led env win (Multiblock env \<and> Cap > 1 \<and> MaxLeaders env > 1) PC d3"
    using discover_entry [OF assms(1,8) d2(3) assms(5)] d2(2,4) by fastforce
  have up3: "unit_part d3 = unit_part d1" using d3(3) d2(6) by (simp add: unit_part_def)
  define d4 where "d4 = d3\<lparr>Leaders := layout_order (Leaders d3)\<rparr>"
  have m4: "marked win B d4 = marked win B d3" for B by (rule marked_cong) (simp add: d4_def)
  have lo: "distinct (layout_order (Leaders d3))" "set (layout_order (Leaders d3)) = set (Leaders d3)" "hd (layout_order (Leaders d3)) = hd (Leaders d3)"
    using layout_order_props [of "Leaders d3"] d3(2) by (simp_all add: region_inv_def leaders_ok_def)
  have r4: "region_inv env win PC (unat Cap) n d4"
    using d3(2) m4 lo slots_ok_cong [of d4 d3] by (simp add: region_inv_def leaders_ok_def rooted_def) (auto simp: d4_def layout_order_def)
  have s4: "0 < n \<longrightarrow> settled env win {} d4" using d3(5) m4 lo by (simp add: settled_def reached_def) (simp add: d4_def)
  have "length (Leaders d4) = length (Leaders d3)" using d3(2) by (cases "Leaders d3") (simp_all add: d4_def layout_order_def region_inv_def leaders_ok_def)
  then have l4: "led env win (Multiblock env \<and> Cap > 1 \<and> MaxLeaders env > 1) PC d4" using d3(6) m4 lo(2) by (simp add: led_def) (simp add: d4_def)
  have up4: "unit_part d4 = unit_part d1" using up3 by (simp add: d4_def unit_part_def)
  have idem: "layout_order (Leaders d4) = Leaders d4" by (simp add: d4_def layout_order_def sorted_sort_id)
  note b = unit_window_bounds [OF assms(4,6) lh]
  have w: "WindowHigh win = high" "WindowLow win = low" using lh by (simp_all add: win_def region_window_def)
  have fuel: "unat (WindowHigh win) < unat (WindowLow win) + 4 * num_slots low high" unfolding w d2(8) by presburger
  obtain s bs rs where s: "layout_leaders win (Suc (num_slots low high)) PC (Leaders d4)
      \<lparr>LBlock = new_block PC 0 SUCCESS True, LEnd = PC, Used = 0, LastPage = page_of PC, LDecoder = d4\<rparr> = Some s"
    "count_predecessors (DecodedBuffer (LDecoder s)) (Blocks (LDecoder s)) (Blocks (LDecoder s)) = Some bs"
    "decoded_unit env PC Cap rs ((LDecoder s)\<lparr>Blocks := bs\<rparr>)" "decoder_ok env ((LDecoder s)\<lparr>Blocks := bs\<rparr>)" "bs \<noteq> []"
    "Generation (LDecoder s) = Generation d4"
    by (rule laid_out [OF r4 _ s4 refl fuel w(1) b(2) idem]) (use d3(4) m4 up4 up1 assms(9-13) d2(7) l4 lh w in \<open>simp_all add: unit_part_def\<close>)
  have buf: "\<not> length (DecodedBuffer d3) < unat Cap - n" using up3 up1 assms(9) by (simp add: unit_part_def)
  have "decode_region env PC Cap d = Some ((LDecoder s)\<lparr>Blocks := bs\<rparr>)"
    using lh d2(1) d3(1) s(1,2,5) buf
    by (simp add: decode_region_def d1_def [symmetric] win_def region_window_def Let_def d4_def layout_order_def del: layout_leaders.simps)
  then show ?thesis using s(3,4,6) G1 up4 by (auto simp: unit_part_def)
qed

section \<open>The entry point\<close>

lemma reset_unit_fields:
  "Blocks (reset_unit PC Cap d) = []" "TotalInstructionCount (reset_unit PC Cap d) = 0" "CodePages (reset_unit PC Cap d) = [page_of PC]"
  "EntryPoints (reset_unit PC Cap d) = [PC]" "Generation (reset_unit PC Cap d) = Generation d" "unat Cap \<le> length (DecodedBuffer (reset_unit PC Cap d))"
  "DecodedMinAddress (reset_unit PC Cap d) = PC" "DecodedMaxAddress (reset_unit PC Cap d) = PC"
  by (simp_all add: reset_unit_def)

lemma decoder_ok_cong:
  assumes "RangeBase d = RangeBase d'" "RangeEnd d = RangeEnd d'" "SlotStamp d = SlotStamp d'" "SlotWord d = SlotWord d'" "SlotMatcher d = SlotMatcher d'"
    "Generation d = Generation d'"
  shows "decoder_ok env d = decoder_ok env d'"
  using assms(3-6) cache_ok_cong [OF assms(1,2)] by (simp add: decoder_ok_def)

lemma reset_unit_ok: "decoder_ok env (reset_unit PC Cap d) = decoder_ok env d"
  by (rule decoder_ok_cong) (simp_all add: reset_unit_def)

lemma decode_entry_checks:
  assumes "env_ok env" "decoder_ok env d" "unit_fits env PC"
  obtains b e where "CheckRangeExecutable env PC INSTRUCTION_SIZE (reset_unit PC Cap d) =
      Some (env_exec env PC INSTRUCTION_SIZE, (reset_unit PC Cap d)\<lparr>RangeBase := b, RangeEnd := e\<rparr>)"
    "decoder_ok env ((reset_unit PC Cap d)\<lparr>RangeBase := b, RangeEnd := e\<rparr>)"
proof -
  have c0: "cache_ok env (reset_unit PC Cap d)" using assms(2) reset_unit_ok [of env PC Cap d] by (simp add: decoder_ok_def)
  have lt: "PC < PC + INSTRUCTION_SIZE" using assms(3) unat_add_small [of PC INSTRUCTION_SIZE] by (simp add: unit_fits_def word_less_nat_alt)
  obtain b e where c: "CheckRangeExecutable env PC INSTRUCTION_SIZE (reset_unit PC Cap d) =
      Some (env_exec env PC INSTRUCTION_SIZE, (reset_unit PC Cap d)\<lparr>RangeBase := b, RangeEnd := e\<rparr>)"
    "cache_ok env ((reset_unit PC Cap d)\<lparr>RangeBase := b, RangeEnd := e\<rparr>)"
    by (rule CheckRangeExecutable_correct [OF assms(1) c0 _ lt]) simp_all
  moreover have "decoder_ok env ((reset_unit PC Cap d)\<lparr>RangeBase := b, RangeEnd := e\<rparr>)"
    using c(2) assms(2) reset_unit_ok [of env PC Cap d] by (simp add: decoder_ok_def)
  ultimately show ?thesis using that by blast
qed

lemma decode_entry_correct:
  assumes "env_ok env" "decoder_ok env d" "Generation d < GenMask" "unit_fits env PC" "PC AND (INSTRUCTION_SIZE - 1) = 0" "env_exec env PC INSTRUCTION_SIZE"
  shows "\<exists>d' rs. DecodeInstructionsAtEntry env PC MaxInst d = Some d' \<and> decoded_unit env PC (instruction_cap env MaxInst) rs d' \<and> decoder_ok env d' \<and>
    unat (Generation d') \<le> Suc (unat (Generation d))"
proof -
  let ?Cap = "instruction_cap env MaxInst"
  obtain b e where c: "CheckRangeExecutable env PC INSTRUCTION_SIZE (reset_unit PC ?Cap d) =
      Some (env_exec env PC INSTRUCTION_SIZE, (reset_unit PC ?Cap d)\<lparr>RangeBase := b, RangeEnd := e\<rparr>)"
    "decoder_ok env ((reset_unit PC ?Cap d)\<lparr>RangeBase := b, RangeEnd := e\<rparr>)" by (rule decode_entry_checks [OF assms(1,2,4)])
  let ?d = "(reset_unit PC ?Cap d)\<lparr>RangeBase := b, RangeEnd := e\<rparr>"
  have "DecodeInstructionsAtEntry env PC MaxInst d = decode_region env PC ?Cap ?d"
    using c(1) assms(5,6) by (simp add: DecodeInstructionsAtEntry_def Let_def)
  moreover have "\<exists>d' rs. decode_region env PC ?Cap ?d = Some d' \<and> decoded_unit env PC ?Cap rs d' \<and> decoder_ok env d' \<and> unat (Generation d') \<le> Suc (unat (Generation ?d))"
    by (rule decode_region_correct [OF assms(1) c(2) _ assms(4) instruction_cap_bounds _ assms(6)])
      (use assms(3,5) aligned_iff in \<open>simp_all add: reset_unit_fields\<close>)
  ultimately show ?thesis by (simp add: reset_unit_fields)
qed

text \<open>Runs and the fields of blocks.\<close>

definition block_pcs :: "decoded_block \<Rightarrow> u64 list" where
  "block_pcs b = map (\<lambda>i. Entry b + of_nat (4 * i)) [0..<NumInstructions b]"

definition block_insts :: "'h decoder \<Rightarrow> decoded_block \<Rightarrow> 'h decoded_inst list" where
  "block_insts d b = take (NumInstructions b) (drop (FirstInstruction b) (DecodedBuffer d))"

lemma is_run_pcs: "is_run env r \<Longrightarrow> block_pcs (block_of PC off r) = r"
proof (rule nth_equalityI)
  show "length (block_pcs (block_of PC off r)) = length r" by (simp add: block_pcs_def block_of_def)
  show "block_pcs (block_of PC off r) ! i = r ! i" if "is_run env r" "i < length (block_pcs (block_of PC off r))" for i
    using that unfolding is_run_def by (simp add: block_pcs_def block_of_def new_block_def)
qed

lemma with_preds_fields [simp]:
  "Entry (with_preds es b) = Entry b" "NumInstructions (with_preds es b) = NumInstructions b" "FirstInstruction (with_preds es b) = FirstInstruction b"
  "BlockStatus (with_preds es b) = BlockStatus b" "BlockSize (with_preds es b) = BlockSize b" "IsEntryPoint (with_preds es b) = IsEntryPoint b"
  "block_pcs (with_preds es b) = block_pcs b" "block_insts d (with_preds es b) = block_insts d b"
  by (simp_all add: with_preds_def block_pcs_def block_insts_def)

lemma blocks_of_in:
  assumes "b \<in> set (blocks_of PC off rs)"
  shows "\<exists>pre r suf. rs = pre @ r # suf \<and> b = block_of PC (off + length (concat pre)) r"
  using assms
proof (induction rs arbitrary: off)
  case (Cons r rs)
  show ?case
  proof (cases "b = block_of PC off r")
    case True
    then show ?thesis by (metis add.right_neutral append_Nil concat.simps(1) list.size(3))
  next
    case False
    then have "b \<in> set (blocks_of PC (off + length r) rs)" using Cons.prems by simp
    from Cons.IH [OF this] obtain pre q suf where "rs = pre @ q # suf" "b = block_of PC (off + length r + length (concat pre)) q" by blast
    then show ?thesis by (intro exI [of _ "r # pre"]) (auto simp: add.assoc)
  qed
qed simp

lemma blocks_pcs: "\<forall>r \<in> set rs. is_run env r \<Longrightarrow> map block_pcs (blocks_of PC off rs) = rs"
  by (induction rs arbitrary: off) (auto simp: is_run_pcs)

lemma blocks_sum: "sum_list (map NumInstructions (blocks_of PC off rs)) = length (concat rs)"
  by (induction rs arbitrary: off) (simp_all add: block_of_def)

lemma decoded_unit_block:
  assumes "decoded_unit env PC Cap rs d" "b \<in> set (Blocks d)"
  obtains r where "r \<in> set rs" "is_run env r" "block_pcs b = r" "block_insts d b = map (inst_at env) r" "Entry b = hd r" "NumInstructions b = length r"
    "BlockStatus b = SUCCESS" "BlockSize b = of_nat (4 * length r)" "IsEntryPoint b \<longleftrightarrow> hd r = PC"
proof -
  obtain b0 where b0: "b0 \<in> set (blocks_of PC 0 rs)" "b = with_preds (all_edges env rs) b0" using assms by (auto simp: decoded_unit_def)
  obtain pre r suf where r: "rs = pre @ r # suf" "b0 = block_of PC (0 + length (concat pre)) r" using blocks_of_in [OF b0(1)] by blast
  have run: "is_run env r" using assms(1) r(1) by (simp add: decoded_unit_def)
  have "block_insts d b0 = take (length r) (drop (length (concat pre)) (DecodedBuffer d))" by (simp add: block_insts_def r(2) block_of_def new_block_def)
  also have "\<dots> = take (length r) (drop (length (concat pre)) (take (length (concat rs)) (DecodedBuffer d)))" by (simp add: r(1) drop_take)
  also have "\<dots> = map (inst_at env) r" using assms(1) unfolding decoded_unit_def by (simp add: r(1))
  finally show ?thesis using that [of r] b0(2) r run is_run_pcs [OF run] by (simp add: block_of_def new_block_def)
qed

lemma butlast_stops: "is_run env r \<Longrightarrow> a \<in> set (butlast r) \<Longrightarrow> \<not> stops env a"
proof -
  assume r: "is_run env r" "a \<in> set (butlast r)"
  then obtain i where i: "i < length r - 1" "r ! i = a" by (auto simp: in_set_conv_nth nth_butlast)
  then show ?thesis using r(1) unfolding is_run_def by (metis Suc_lessD less_diff_conv Suc_eq_plus1)
qed

section \<open>Pages\<close>

lemma and_not_mask: "a AND NOT (mask k) = push_bit k (drop_bit k (a :: u64))"
  by (rule bit_word_eqI) (auto simp: bit_simps)

lemma page_of_shift: "page_of a = push_bit 12 (drop_bit 12 a)"
proof -
  have "FEX_GUEST_PAGE_SIZE - 1 = mask 12" by (simp add: mask_eq_exp_minus_1)
  then show ?thesis by (simp only: page_of_def and_not_mask)
qed

lemma unat_page_index: "unat (drop_bit 12 (a :: u64)) = unat a div 4096"
  by (simp add: drop_bit_eq_div unat_div)

lemma page_of_eq: "unat a div 4096 = unat b div 4096 \<Longrightarrow> page_of a = page_of b"
  by (simp only: page_of_shift unat_page_index [symmetric] word_unat_eq_iff [symmetric])

lemma div_spread:
  fixes a x :: nat
  assumes "a \<le> x" "x \<le> a + 35"
  shows "x div 4096 = a div 4096 \<or> x div 4096 = (a + 35) div 4096"
proof -
  have "a div 4096 \<le> x div 4096" "x div 4096 \<le> (a + 35) div 4096" "(a + 35) div 4096 \<le> (a + 4096) div 4096" using assms by (intro div_le_mono; simp)+
  moreover have "(a + 4096) div 4096 = a div 4096 + 1" by simp
  ultimately show ?thesis by linarith
qed

lemma div_aligned:
  fixes a x :: nat
  assumes "a \<le> x" "x \<le> a + 3" "a mod 4 = 0"
  shows "x div 4096 = a div 4096"
proof -
  have "a div 4 \<le> x div 4" "x div 4 \<le> (a + 3) div 4" using assms(1,2) by (intro div_le_mono; simp)+
  moreover have "(a + 3) div 4 = a div 4" using assms(3) by (simp add: div_add1_eq)
  ultimately have "x div 4 = a div 4" by simp
  then have "x div (4 * 1024) = a div (4 * 1024)" by (simp only: div_mult2_eq)
  then show ?thesis by simp
qed

lemma inst_end_unat:
  assumes "unat a + 64 < 2 ^ 64"
  shows "unat (inst_end env a) = unat a + (if is_thunk env a then 36 else 4)" "unat (a + INSTRUCTION_SIZE + THUNK_HASH_SIZE - 1) = unat a + 35"
proof -
  have e1: "unat (a + INSTRUCTION_SIZE) = unat a + 4" using assms(1) by (subst unat_add_small) simp_all
  have e2: "unat (a + INSTRUCTION_SIZE + THUNK_HASH_SIZE) = unat a + 36" using assms(1) by (subst unat_add_small) (simp_all only: e1, simp_all)
  show "unat (inst_end env a) = unat a + (if is_thunk env a then 36 else 4)" using e1 e2 by (simp only: inst_end_def split: if_split) simp
  have "unat (a + INSTRUCTION_SIZE + THUNK_HASH_SIZE - 1) = unat (a + INSTRUCTION_SIZE + THUNK_HASH_SIZE) - unat (1 :: u64)"
    using e2 by (intro unat_sub) (simp only: word_le_nat_alt, simp)
  then show "unat (a + INSTRUCTION_SIZE + THUNK_HASH_SIZE - 1) = unat a + 35" by (simp only: e2) simp
qed

text \<open>The pages of an instruction hold all of its bytes.\<close>

lemma inst_bytes:
  assumes "unat a + 64 < 2 ^ 64" "unat a mod 4 = 0" "a \<le> x" "x < inst_end env a"
  shows "page_of x \<in> inst_pages env a"
proof -
  note e = inst_end_unat(1) [OF assms(1), of env] inst_end_unat(2) [OF assms(1)]
  have x: "unat a \<le> unat x" "unat x < unat a + (if is_thunk env a then 36 else 4)" using assms(3,4) by (simp_all only: word_le_nat_alt word_less_nat_alt e(1))
  show ?thesis
  proof (cases "is_thunk env a")
    case True
    then have "unat x \<le> unat a + 35" using x(2) by simp
    from div_spread [OF x(1) this] have "page_of x = page_of a \<or> page_of x = page_of (a + INSTRUCTION_SIZE + THUNK_HASH_SIZE - 1)"
      unfolding e(2) [symmetric] using page_of_eq by blast
    then show ?thesis using True by (simp only: inst_pages_def if_True insert_iff empty_iff simp_thms)
  next
    case False
    then have "unat x \<le> unat a + 3" using x(2) by simp
    then show ?thesis using page_of_eq [OF div_aligned [OF x(1) _ assms(2)]] by (simp add: inst_pages_def)
  qed
qed

text \<open>A marker ends its run, so that the end of the last instruction bounds the whole run.\<close>

lemma thunk_stops: "is_thunk env a \<Longrightarrow> stops env a"
  by (simp add: is_thunk_def stops_def EndsBlock_def THUNK_MARKER_WORD_def HLT_IMM16_def)

lemma run_bounds:
  assumes "is_run env r" "a \<in> set r"
  shows "unat (hd r) \<le> unat a" "unat (inst_end env a) \<le> unat (inst_end env (last r))"
proof -
  obtain i where i: "i < length r" "a = r ! i" using assms(2) by (metis in_set_conv_nth)
  have u: "unat a = unat (hd r) + 4 * i" using is_run_unat [OF assms(1) i(1)] i(2) by simp
  then show "unat (hd r) \<le> unat a" by simp
  have all: "unat x + 64 < 2 ^ 64 \<and> unat x mod 4 = 0" if "x \<in> set r" for x using assms(1) that unfolding is_run_def by (metis in_set_conv_nth)
  have ne: "r \<noteq> []" using assms(1) by (simp add: is_run_def)
  have fin: "unat (inst_end env x) = unat x + (if is_thunk env x then 36 else 4)" if "x \<in> set r" for x
    using inst_end_unat(1) all [OF that] by blast
  show "unat (inst_end env a) \<le> unat (inst_end env (last r))"
  proof (cases "Suc i < length r")
    case True
    have "\<not> stops env a" using assms(1) i True unfolding is_run_def by blast
    then have "\<not> is_thunk env a" using thunk_stops by blast
    then show ?thesis using fin [OF assms(2)] fin [OF last_in_set [OF ne]] u is_run_last [OF assms(1)] i(1) by (simp split: if_split) arith
  next
    case False
    then have "a = last r" using i ne by (metis Suc_lessI last_conv_nth diff_Suc_1)
    then show ?thesis by simp
  qed
qed

section \<open>Theorems\<close>

text \<open>
  C21. The block decoder returns, for every entry that is aligned and executable, a unit of blocks that
  starts with the entry. Each block is a run of successive words: its instructions in the buffer are
  the words of guest memory with their table entries, all of them are executable, and only the last
  may end a block. No word is in two blocks, and the unit is within the instruction cap. Blocks start and end where
  the rules say: every block but the entry starts at a followed target of the last word of a block; and
  unless the unit has reached the cap, a block whose last word does not end it is continued by another
  block, or the next word is beyond the window or not executable, and every followed target of a last word starts a block, or is not
  executable, or the unit has the maximal number of leaders. No access of
  the decoder is out of bounds, and its invariant holds again.
\<close>

theorem decoder_unit:
  assumes "env_ok env" "decoder_ok env d" "Generation d < GenMask" "unit_fits env PC" "PC AND (INSTRUCTION_SIZE - 1) = 0" "env_exec env PC INSTRUCTION_SIZE"
  shows "\<exists>d'. DecodeInstructionsAtEntry env PC MaxInst d = Some d' \<and> decoder_ok env d' \<and> Blocks d' \<noteq> [] \<and> Entry (hd (Blocks d')) = PC \<and>
    (\<forall>b \<in> set (Blocks d'). BlockStatus b = SUCCESS \<and> 0 < NumInstructions b \<and> BlockSize b = of_nat (4 * NumInstructions b) \<and>
       (IsEntryPoint b \<longleftrightarrow> Entry b = PC) \<and> block_insts d' b = map (inst_at env) (block_pcs b) \<and>
       (\<forall>a \<in> set (block_pcs b). env_exec env a INSTRUCTION_SIZE) \<and> (\<forall>a \<in> set (butlast (block_pcs b)). \<not> stops env a)) \<and>
    distinct (concat (map block_pcs (Blocks d'))) \<and> TotalInstructionCount d' = sum_list (map NumInstructions (Blocks d')) \<and>
    TotalInstructionCount d' \<le> unat (instruction_cap env MaxInst) \<and>
    (\<forall>b \<in> set (Blocks d'). Entry b = PC \<or> (\<exists>b' \<in> set (Blocks d'). Entry b \<in> set (followed_targets env PC (instruction_cap env MaxInst) (last (block_pcs b'))))) \<and>
    (TotalInstructionCount d' = unat (instruction_cap env MaxInst) \<or>
     (\<forall>b \<in> set (Blocks d'). \<not> stops env (last (block_pcs b)) \<longrightarrow> last (block_pcs b) + INSTRUCTION_SIZE \<in> Entry ` set (Blocks d') \<or>
        unat PC + 4 * unat (instruction_cap env MaxInst) + unat (RegionWindow env) < unat (last (block_pcs b)) + 4 \<or>
        \<not> env_exec env (last (block_pcs b) + INSTRUCTION_SIZE) INSTRUCTION_SIZE)) \<and>
    (TotalInstructionCount d' = unat (instruction_cap env MaxInst) \<or> MaxLeaders env \<le> length (Leaders d') \<or>
     (\<forall>b \<in> set (Blocks d'). \<forall>T \<in> set (followed_targets env PC (instruction_cap env MaxInst) (last (block_pcs b))).
        T \<in> Entry ` set (Blocks d') \<or> \<not> env_exec env T INSTRUCTION_SIZE))"
proof -
  let ?Cap = "instruction_cap env MaxInst"
  obtain d' rs where d': "DecodeInstructionsAtEntry env PC MaxInst d = Some d'" "decoded_unit env PC ?Cap rs d'" "decoder_ok env d'"
    using decode_entry_correct [OF assms] by blast
  have rs: "rs \<noteq> []" "hd (hd rs) = PC" "\<forall>r \<in> set rs. is_run env r" "distinct (concat rs)" "length (concat rs) \<le> unat ?Cap"
    "TotalInstructionCount d' = length (concat rs)" "Blocks d' = map (with_preds (all_edges env rs)) (blocks_of PC 0 rs)"
    using d'(2) by (simp_all add: decoded_unit_def)
  have hd: "Blocks d' \<noteq> []" "Entry (hd (Blocks d')) = PC" using rs(1,2,7) by (cases rs; simp add: block_of_def new_block_def)+
  have pcs: "map block_pcs (Blocks d') = rs" using blocks_pcs [OF rs(3), of PC 0] rs(7) by (simp add: comp_def)
  have sum: "sum_list (map NumInstructions (Blocks d')) = length (concat rs)" using rs(7) blocks_sum [of PC 0 rs] by (simp add: comp_def)
  have "BlockStatus b = SUCCESS \<and> 0 < NumInstructions b \<and> BlockSize b = of_nat (4 * NumInstructions b) \<and>
       (IsEntryPoint b \<longleftrightarrow> Entry b = PC) \<and> block_insts d' b = map (inst_at env) (block_pcs b) \<and>
       (\<forall>a \<in> set (block_pcs b). env_exec env a INSTRUCTION_SIZE) \<and> (\<forall>a \<in> set (butlast (block_pcs b)). \<not> stops env a)" if b: "b \<in> set (Blocks d')" for b
  proof -
    obtain r where r: "r \<in> set rs" "is_run env r" "block_pcs b = r" "block_insts d' b = map (inst_at env) r" "Entry b = hd r" "NumInstructions b = length r"
      "BlockStatus b = SUCCESS" "BlockSize b = of_nat (4 * length r)" "IsEntryPoint b \<longleftrightarrow> hd r = PC" by (rule decoded_unit_block [OF d'(2) b])
    have "env_exec env a INSTRUCTION_SIZE" if "a \<in> set r" for a using r(2) that unfolding is_run_def by (metis in_set_conv_nth)
    moreover have "r \<noteq> []" using r(2) by (simp add: is_run_def)
    ultimately show ?thesis using r butlast_stops [OF r(2)] by simp
  qed
  moreover have "block_pcs ` set (Blocks d') = set rs" using arg_cong [OF pcs, of set] by simp
  moreover have "Entry b = hd (block_pcs b)" if "b \<in> set (Blocks d')" for b by (rule decoded_unit_block [OF d'(2) that]) simp
  then have "Entry ` set (Blocks d') = hd ` block_pcs ` set (Blocks d')" "\<forall>b \<in> set (Blocks d'). Entry b = hd (block_pcs b)" unfolding image_image by simp_all
  moreover have "unit_closed env PC ?Cap rs" "unit_started env PC ?Cap rs (length (Leaders d'))" using d'(2) by (simp_all add: decoded_unit_def)
  ultimately show ?thesis using d'(1,3) hd pcs sum rs(4-6)
    by (intro exI [of _ d'] conjI)
      (simp_all add: unit_closed_def unit_started_def flip: \<open>block_pcs ` set (Blocks d') = set rs\<close>)
qed

lemma unit_extent:
  assumes "env_ok env" "decoder_ok env d" "Generation d < GenMask" "unit_fits env PC" "PC AND (INSTRUCTION_SIZE - 1) = 0" "env_exec env PC INSTRUCTION_SIZE"
  shows "\<exists>d'. DecodeInstructionsAtEntry env PC MaxInst d = Some d' \<and> sorted_wrt (<) (CodePages d') \<and> page_of PC \<in> set (CodePages d') \<and>
    (\<forall>b \<in> set (Blocks d'). \<forall>a \<in> set (block_pcs b). unat a + 64 < 2 ^ 64 \<and> (\<forall>x. a \<le> x \<longrightarrow> x < inst_end env a \<longrightarrow>
       page_of x \<in> set (CodePages d') \<and> DecodedMinAddress d' \<le> x \<and> x < DecodedMaxAddress d'))"
proof -
  let ?Cap = "instruction_cap env MaxInst"
  obtain d' rs where d': "DecodeInstructionsAtEntry env PC MaxInst d = Some d'" "decoded_unit env PC ?Cap rs d'"
    using decode_entry_correct [OF assms] by blast
  have u: "sorted_wrt (<) (CodePages d')" "page_of PC \<in> set (CodePages d')" "\<forall>a \<in> set (concat rs). inst_pages env a \<subseteq> set (CodePages d')"
    "\<forall>r \<in> set rs. DecodedMinAddress d' \<le> hd r \<and> inst_end env (last r) \<le> DecodedMaxAddress d'" using d'(2) by (simp_all add: decoded_unit_def)
  have "page_of x \<in> set (CodePages d') \<and> DecodedMinAddress d' \<le> x \<and> x < DecodedMaxAddress d'"
    if b: "b \<in> set (Blocks d')" and a: "a \<in> set (block_pcs b)" and x: "a \<le> x" "x < inst_end env a" for a b x
  proof -
    obtain r where r: "r \<in> set rs" "is_run env r" "block_pcs b = r" by (rule decoded_unit_block [OF d'(2) b])
    then have ar: "a \<in> set r" using a by simp
    have al: "unat a + 64 < 2 ^ 64" "unat a mod 4 = 0" using r(2) ar unfolding is_run_def by (metis in_set_conv_nth)+
    have "page_of x \<in> set (CodePages d')" using inst_bytes [OF al x] u(3) ar r(1) by auto
    moreover have "hd r \<le> a" "inst_end env a \<le> inst_end env (last r)" using run_bounds [OF r(2) ar] by (simp_all add: word_le_nat_alt)
    ultimately show ?thesis using u(4) r(1) x by (meson order_less_le_trans order_trans)
  qed
  moreover have "unat a + 64 < 2 ^ 64" if b: "b \<in> set (Blocks d')" and a: "a \<in> set (block_pcs b)" for a b
  proof -
    obtain r where "is_run env r" "block_pcs b = r" by (rule decoded_unit_block [OF d'(2) b])
    then show ?thesis using a unfolding is_run_def by (metis in_set_conv_nth)
  qed
  ultimately show ?thesis using d'(1) u(1,2) by blast
qed

text \<open>
  C25. Every byte of guest memory that the unit depends on, the hash behind a thunk marker included, lies
  on one of the code pages that the decoder reports and between the addresses that it reports; the
  code pages are in order and without repetition. Writes to any of these bytes are therefore seen by
  whoever watches the reported pages or the reported extent.
\<close>

theorem decoder_extent:
  assumes "env_ok env" "decoder_ok env d" "Generation d < GenMask" "unit_fits env PC" "PC AND (INSTRUCTION_SIZE - 1) = 0" "env_exec env PC INSTRUCTION_SIZE"
  shows "\<exists>d'. DecodeInstructionsAtEntry env PC MaxInst d = Some d' \<and> sorted_wrt (<) (CodePages d') \<and> page_of PC \<in> set (CodePages d') \<and>
    (\<forall>b \<in> set (Blocks d'). \<forall>a \<in> set (block_pcs b). \<forall>x. a \<le> x \<longrightarrow> x < inst_end env a \<longrightarrow>
       page_of x \<in> set (CodePages d') \<and> DecodedMinAddress d' \<le> x \<and> x < DecodedMaxAddress d')"
  using unit_extent [OF assms, of MaxInst] by blast

end
