(* ===== verification/DecoderTheorems.thy ===== *)
theory DecoderTheorems
  imports DecoderUnit
begin

text \<open>
  The predecessor census, faults, sequences of units and witness ranges of the block decoder, and the
  concrete programs on which its theorems are applied.
\<close>

section \<open>Census\<close>







section \<open>Faults\<close>

lemma decode_fault:
  assumes "env_ok env" "decoder_ok env d" "unit_fits env PC" "PC AND (INSTRUCTION_SIZE - 1) \<noteq> 0 \<or> \<not> env_exec env PC INSTRUCTION_SIZE"
  shows "\<exists>d'. DecodeInstructionsAtEntry env PC MaxInst d = Some d' \<and> decoder_ok env d' \<and> Generation d' = Generation d \<and> SlotStamp d' = SlotStamp d \<and>
    Blocks d' = [(new_block PC 0 (if PC AND (INSTRUCTION_SIZE - 1) \<noteq> 0 then UNALIGNED_PC else NOEXEC_INST) True)\<lparr>NumInstructions := 1\<rparr>] \<and>
    map InstPC (block_insts d' (hd (Blocks d'))) = [PC] \<and> TotalInstructionCount d' = 1 \<and> CodePages d' = [page_of PC] \<and>
    DecodedMinAddress d' = PC \<and> DecodedMaxAddress d' = PC"
proof -
  let ?Cap = "instruction_cap env MaxInst"
  obtain b e where c: "CheckRangeExecutable env PC INSTRUCTION_SIZE (reset_unit PC ?Cap d) =
      Some (env_exec env PC INSTRUCTION_SIZE, (reset_unit PC ?Cap d)\<lparr>RangeBase := b, RangeEnd := e\<rparr>)"
    "decoder_ok env ((reset_unit PC ?Cap d)\<lparr>RangeBase := b, RangeEnd := e\<rparr>)" by (rule decode_entry_checks [OF assms(1-3)])
  have len: "0 < length (DecodedBuffer (reset_unit PC ?Cap d))" using reset_unit_fields(6) [of ?Cap PC d] instruction_cap_bounds(1) [of env MaxInst] by linarith
  define d0 where "d0 = (if PC AND (INSTRUCTION_SIZE - 1) \<noteq> 0 then reset_unit PC ?Cap d else (reset_unit PC ?Cap d)\<lparr>RangeBase := b, RangeEnd := e\<rparr>)"
  define M where "M = (if PC AND (INSTRUCTION_SIZE - 1) \<noteq> 0 then None else Decode env 0)"
  define st where "st = (if PC AND (INSTRUCTION_SIZE - 1) \<noteq> 0 then UNALIGNED_PC else NOEXEC_INST)"
  have run: "DecodeInstructionsAtEntry env PC MaxInst d = fault_unit PC M st d0"
    using c(1) assms(4) by (simp add: DecodeInstructionsAtEntry_def Let_def d0_def M_def st_def)
  have ok: "decoder_ok env d0" "0 < length (DecodedBuffer d0)" "Blocks d0 = []" "Generation d0 = Generation d" "SlotStamp d0 = SlotStamp d"
    "CodePages d0 = [page_of PC]" "DecodedMinAddress d0 = PC" "DecodedMaxAddress d0 = PC"
    using c(2) assms(2) len by (simp_all add: d0_def reset_unit_ok reset_unit_fields) (simp add: reset_unit_def)
  define d' where "d' = d0\<lparr>DecodedBuffer := (DecodedBuffer d0)[0 := \<lparr>InstPC = PC, InstWord = 0, InstMatcher = M\<rparr>],
    Blocks := [(new_block PC 0 st True)\<lparr>NumInstructions := 1\<rparr>], TotalInstructionCount := 1\<rparr>"
  have "fault_unit PC M st d0 = Some d'" using ok(2,3) by (simp add: fault_unit_def write_at_def d'_def)
  moreover have "decoder_ok env d'" using ok(1) decoder_ok_cong [of d' d0] by (simp add: d'_def)
  moreover have "map InstPC (block_insts d' (hd (Blocks d'))) = [PC]" using ok(2) by (cases "DecodedBuffer d0") (simp_all add: d'_def block_insts_def new_block_def)
  ultimately show ?thesis using run ok(4-8) unfolding st_def [symmetric] by (simp add: d'_def)
qed

text \<open>
  An entry that is not aligned or not executable gives a unit of one block with one faulting
  instruction at the entry, marked with the reason, and reports the page of the entry and an empty
  extent; guest memory is not read, and the slots and the generation stay as they are.
\<close>

theorem decoder_faults:
  assumes "env_ok env" "decoder_ok env d" "unit_fits env PC" "PC AND (INSTRUCTION_SIZE - 1) \<noteq> 0 \<or> \<not> env_exec env PC INSTRUCTION_SIZE"
  shows "\<exists>d'. DecodeInstructionsAtEntry env PC MaxInst d = Some d' \<and> decoder_ok env d' \<and> Generation d' = Generation d \<and> SlotStamp d' = SlotStamp d \<and>
    Blocks d' = [(new_block PC 0 (if PC AND (INSTRUCTION_SIZE - 1) \<noteq> 0 then UNALIGNED_PC else NOEXEC_INST) True)\<lparr>NumInstructions := 1\<rparr>] \<and>
    map InstPC (block_insts d' (hd (Blocks d'))) = [PC] \<and> TotalInstructionCount d' = 1 \<and> CodePages d' = [page_of PC] \<and>
    DecodedMinAddress d' = PC \<and> DecodedMaxAddress d' = PC"
  by (rule decode_fault [OF assms])

section \<open>Sequences of units\<close>

text \<open>
  Calls of a decoder from its construction on. Guest memory and the configuration may change between
  the calls; the map of executable ranges stays, since its changes reset the cached range.
\<close>

fun decode_calls :: "('h decoder_env \<times> u64 \<times> u64) list \<Rightarrow> 'h decoder \<Rightarrow> 'h decoder option" where
  "decode_calls [] d = Some d"
| "decode_calls ((env, PC, MaxInst) # cs) d = do { d \<leftarrow> DecodeInstructionsAtEntry env PC MaxInst d; decode_calls cs d }"

definition call_ok :: "(u64 \<Rightarrow> u64 \<times> u64) option \<Rightarrow> 'h decoder_env \<times> u64 \<times> u64 \<Rightarrow> bool" where
  "call_ok q c \<longleftrightarrow> (case c of (env, PC, MaxInst) \<Rightarrow> QueryGuestExecutableRange env = q \<and> env_ok env \<and> unit_fits env PC)"

lemma decode_call_total:
  assumes "env_ok env" "decoder_ok env d" "Generation d < GenMask" "unit_fits env PC"
  shows "\<exists>d'. DecodeInstructionsAtEntry env PC MaxInst d = Some d' \<and> decoder_ok env d' \<and> unat (Generation d') \<le> Suc (unat (Generation d)) \<and> Blocks d' \<noteq> []"
proof (cases "PC AND (INSTRUCTION_SIZE - 1) = 0 \<and> env_exec env PC INSTRUCTION_SIZE")
  case True
  then obtain d' rs where d': "DecodeInstructionsAtEntry env PC MaxInst d = Some d'" "decoded_unit env PC (instruction_cap env MaxInst) rs d'" "decoder_ok env d'"
    "unat (Generation d') \<le> Suc (unat (Generation d))" using decode_entry_correct [OF assms] by blast
  moreover have "Blocks d' \<noteq> []" using d'(2) by (cases rs) (simp_all add: decoded_unit_def)
  ultimately show ?thesis by blast
next
  case False
  obtain d' st where d': "DecodeInstructionsAtEntry env PC MaxInst d = Some d'" "decoder_ok env d'" "Generation d' = Generation d"
    "Blocks d' = [st]" using decode_fault [OF assms(1,2,4)] False by blast
  then show ?thesis by (intro exI [of _ d']) simp
qed

lemma decoder_ok_env: "QueryGuestExecutableRange env = QueryGuestExecutableRange env' \<Longrightarrow> decoder_ok env d = decoder_ok env' d"
  by (simp add: decoder_ok_def cache_ok_def)

lemma decode_calls_run:
  assumes "list_all (call_ok q) cs" "QueryGuestExecutableRange env0 = q" "decoder_ok env0 d" "unat (Generation d) + length cs < 2 ^ 29"
  shows "\<exists>d'. decode_calls cs d = Some d' \<and> decoder_ok env0 d' \<and> unat (Generation d') \<le> unat (Generation d) + length cs \<and> (cs \<noteq> [] \<longrightarrow> Blocks d' \<noteq> [])"
  using assms
proof (induction cs arbitrary: d)
  case (Cons c cs)
  obtain env PC MaxInst where c: "c = (env, PC, MaxInst)" by (cases c)
  have env: "QueryGuestExecutableRange env = q" "env_ok env" "unit_fits env PC" using Cons.prems(1) c by (simp_all add: call_ok_def)
  have ok: "decoder_ok env d" using Cons.prems(2,3) env(1) decoder_ok_env [of env env0] by simp
  have g: "Generation d < GenMask" using Cons.prems(4) by (simp add: word_less_nat_alt)
  obtain d1 where d1: "DecodeInstructionsAtEntry env PC MaxInst d = Some d1" "decoder_ok env d1" "unat (Generation d1) \<le> Suc (unat (Generation d))" "Blocks d1 \<noteq> []"
    using decode_call_total [OF env(2) ok g env(3)] by blast
  have "decoder_ok env0 d1" using d1(2) Cons.prems(2) env(1) decoder_ok_env [of env env0] by simp
  moreover have "unat (Generation d1) + length cs < 2 ^ 29" using d1(3) Cons.prems(4) by simp
  ultimately obtain d' where "decode_calls cs d1 = Some d'" "decoder_ok env0 d'" "unat (Generation d') \<le> unat (Generation d1) + length cs" "cs \<noteq> [] \<longrightarrow> Blocks d' \<noteq> []"
    using Cons.IH [of d1] Cons.prems(1,2) by auto
  then show ?case using c d1 by (cases cs) auto
qed simp

text \<open>
  C26. A decoder that decodes any sequence of fewer than \<open>2\<^sup>2\<^sup>9\<close> units, at any entries below the top of
  memory, never accesses a vector out of bounds and never loops, leaves at least one block after each
  unit, and keeps its slot vectors of one length with no stamp of a later generation.
\<close>

theorem decoder_calls_total:
  assumes "list_all (call_ok q) cs" "length cs < 2 ^ 29"
  shows "\<exists>d'. decode_calls cs new_decoder = Some d' \<and> (cs \<noteq> [] \<longrightarrow> Blocks d' \<noteq> []) \<and> length (SlotWord d') = length (SlotStamp d') \<and>
    length (SlotMatcher d') = length (SlotStamp d') \<and> (\<forall>S \<in> set (SlotStamp d'). S AND GenMask \<le> Generation d') \<and> unat (Generation d') \<le> length cs"
proof (cases cs)
  case Nil
  then show ?thesis by (simp add: new_decoder_def)
next
  case (Cons c cs')
  obtain env PC MaxInst where c: "c = (env, PC, MaxInst)" by (cases c)
  then have q: "QueryGuestExecutableRange env = q" using assms(1) Cons by (simp add: call_ok_def)
  have ok: "decoder_ok env new_decoder" by (auto simp: decoder_ok_def new_decoder_def cache_ok_def range_ok_def split: option.split)
  have "unat (Generation new_decoder) + length cs < 2 ^ 29" using assms(2) by (simp add: new_decoder_def)
  from decode_calls_run [OF assms(1) q ok this] show ?thesis by (auto simp: decoder_ok_def new_decoder_def)
qed

section \<open>Witness ranges\<close>

lemma mod_step:
  fixes x y n :: nat
  assumes "x mod n = 0" "y mod n = 0" "x < y"
  shows "x + n \<le> y"
proof -
  have "n dvd y - x" using assms(1,2) by (intro dvd_diff_nat) (simp_all add: mod_0_imp_dvd)
  then have "n \<le> y - x" using assms(3) by (intro dvd_imp_le) simp_all
  then show ?thesis using assms(3) by simp
qed

lemma insert_pages_correct:
  assumes "sorted_wrt (<) pages" "unat Page mod 4096 = 0" "unat End + 4096 \<le> 2 ^ 64" "unat End < unat Page + 4096 * fuel"
  shows "\<exists>pages'. insert_pages (Suc fuel) Page End pages = Some pages' \<and> sorted_wrt (<) pages' \<and>
    set pages' = set pages \<union> {p. unat p mod 4096 = 0 \<and> Page \<le> p \<and> p < End}"
  using assms(1,2,4)
proof (induction fuel arbitrary: Page pages)
  case 0
  then have "\<not> Page < End" by (simp add: word_less_nat_alt)
  then show ?case using 0(1) by (auto simp: order_less_le_trans)
next
  case (Suc fuel)
  show ?case
  proof (cases "Page < End")
    case False
    then show ?thesis using Suc.prems(1) by auto
  next
    case True
    have u: "unat (Page + FEX_GUEST_PAGE_SIZE) = unat Page + 4096"
      using True assms(3) by (subst unat_add_small) (simp_all add: word_less_nat_alt)
    note ins = InsertSorted_correct [OF Suc.prems(1), of Page]
    obtain pages' where p: "insert_pages (Suc fuel) (Page + FEX_GUEST_PAGE_SIZE) End (InsertSorted pages Page) = Some pages'" "sorted_wrt (<) pages'"
      "set pages' = set (InsertSorted pages Page) \<union> {p. unat p mod 4096 = 0 \<and> Page + FEX_GUEST_PAGE_SIZE \<le> p \<and> p < End}"
      using Suc.IH [OF ins(2), of "Page + FEX_GUEST_PAGE_SIZE"] Suc.prems(2,3) u by auto
    have "Page \<le> p \<longleftrightarrow> p = Page \<or> Page + FEX_GUEST_PAGE_SIZE \<le> p" if "unat p mod 4096 = 0" for p
    proof -
      have "unat Page \<le> unat p \<longleftrightarrow> unat p = unat Page \<or> unat Page + 4096 \<le> unat p" using mod_step [OF Suc.prems(2) that] by linarith
      then show ?thesis unfolding word_le_nat_alt u word_unat_eq_iff [symmetric] .
    qed
    then have "{p. unat p mod 4096 = 0 \<and> Page \<le> p \<and> p < End} = insert Page {p. unat p mod 4096 = 0 \<and> Page + FEX_GUEST_PAGE_SIZE \<le> p \<and> p < End}"
      using True Suc.prems(2) by auto
    then show ?thesis using p True ins(1) by auto
  qed
qed

lemma unat_page_of: "unat (page_of a) = unat a div 4096 * 4096"
proof -
  have "unat a div 4096 * 4096 \<le> unat a" by simp
  moreover have "unat a < 2 ^ 64" using unsigned_less [of a] by simp
  ultimately have "unat a div 4096 * 4096 < 2 ^ 64" by (rule le_less_trans)
  then show ?thesis unfolding page_of_shift push_bit_eq_mult using unat_page_index [of a] by (subst unat_mult_lem [THEN iffD1]) simp_all
qed

text \<open>
  A range added by the flag analysis is covered: its pages are in the list of code pages, which stays
  in order and loses nothing, and the extent of the unit includes it. The loop ends for every range
  whose end is at least one page below the top of memory.
\<close>

theorem peek_witness_tracked:
  assumes "sorted_wrt (<) (CodePages d)" "unat End + 4096 \<le> 2 ^ 64" "unat End div 4096 + 2 \<le> fuel"
  shows "\<exists>d'. AddPeekWitnessRange fuel Start End d = Some d' \<and> sorted_wrt (<) (CodePages d') \<and> set (CodePages d) \<subseteq> set (CodePages d') \<and>
    DecodedMinAddress d' \<le> DecodedMinAddress d \<and> DecodedMaxAddress d \<le> DecodedMaxAddress d' \<and> Blocks d' = Blocks d \<and>
    (\<forall>x. Start \<le> x \<longrightarrow> x < End \<longrightarrow> page_of x \<in> set (CodePages d') \<and> DecodedMinAddress d' \<le> x \<and> x < DecodedMaxAddress d')"
proof (cases "Start < End")
  case False
  then have "\<not> (Start \<le> x \<and> x < End)" for x by auto
  moreover have "AddPeekWitnessRange fuel Start End d = Some d" using False by (simp add: AddPeekWitnessRange_def linorder_not_less)
  ultimately show ?thesis using assms(1) by blast
next
  case True
  obtain f where f: "fuel = Suc f" "unat End div 4096 + 1 \<le> f" using assms(3) by (cases fuel) auto
  have "unat End < 4096 * f" using f(2) div_mult_mod_eq [of "unat End" 4096] mod_less_divisor [of 4096 "unat End"] by linarith
  then have lt: "unat End < unat (page_of Start) + 4096 * f" by simp
  have al: "unat (page_of Start) mod 4096 = 0" by (simp add: unat_page_of)
  obtain pages' where p: "insert_pages fuel (page_of Start) End (CodePages d) = Some pages'" "sorted_wrt (<) pages'"
    "set pages' = set (CodePages d) \<union> {p. unat p mod 4096 = 0 \<and> page_of Start \<le> p \<and> p < End}"
    using insert_pages_correct [OF assms(1) al assms(2) lt] unfolding f(1) by blast
  have "page_of x \<in> set pages'" if "Start \<le> x" "x < End" for x
  proof -
    have "unat Start div 4096 \<le> unat x div 4096" using that(1) by (intro div_le_mono) (simp add: word_le_nat_alt)
    then have "page_of Start \<le> page_of x" by (simp add: word_le_nat_alt unat_page_of)
    moreover have "unat (page_of x) \<le> unat x" by (simp add: unat_page_of)
    then have "page_of x < End" using that(2) by (simp add: word_less_nat_alt)
    ultimately show ?thesis using p(3) by (simp add: unat_page_of)
  qed
  then show ?thesis using True p by (auto simp: AddPeekWitnessRange_def min.coboundedI2 less_max_iff_disj)
qed

section \<open>Programs\<close>

text \<open>
  A program at \<open>0x1000\<close>: \<open>cbz x0, .+12\<close>, \<open>bl .+8\<close>, \<open>ret\<close>, \<open>ret\<close>, and zeros behind it. Its page is executable
  and nothing else is; every word has a handler.
\<close>

definition demo_word :: "u64 \<Rightarrow> u32" where
  "demo_word a = (if a = 0x1000 then 0xB4000060 else if a = 0x1004 then 0x94000002 else if a = 0x1008 \<or> a = 0x100C then 0xD65F03C0 else 0)"

definition demo_query :: "u64 \<Rightarrow> u64 \<times> u64" where
  "demo_query a = (if 0x1000 \<le> a \<and> a < 0x2000 then (0x1000, 0x1000) else (0, 0))"

definition demo_env :: "unit decoder_env" where
  "demo_env = \<lparr>GuestWord = demo_word, Decode = (\<lambda>w. Some \<lparr>Name = ''any'', Mask = 0, Expect = 0, Handler = Some (), RawIndex = 0\<rparr>),
     QueryGuestExecutableRange = Some demo_query, MaxInstPerBlock = 4, Multiblock = True, SMCICache = False, RegionWindow = 16, MaxLeaders = 4\<rparr>"

lemma demo_env_ok: "env_ok demo_env"
proof -
  have "demo_query a = (b, n) \<Longrightarrow> n \<noteq> 0 \<Longrightarrow> b = 0x1000 \<and> n = 0x1000 \<and> 0x1000 \<le> a \<and> a < 0x2000" for a b n
    by (auto simp: demo_query_def split: if_splits)
  moreover have "exec_byte demo_query x" if "0x1000 \<le> x" "x < 0x2000" for x using that by (simp add: exec_byte_def demo_query_def)
  ultimately have "query_ok demo_query" unfolding query_ok_def by fastforce
  then show ?thesis by (simp add: env_ok_def demo_env_def)
qed

lemma demo_env_exec: "env_exec demo_env 0x1000 INSTRUCTION_SIZE"
proof -
  have "exec_byte demo_query x" if "0x1000 \<le> x" "x < 0x1004" for x
  proof -
    have "x < 0x2000" using that(2) by (rule order_less_trans) simp
    then show ?thesis using that(1) by (simp add: exec_byte_def demo_query_def)
  qed
  then show ?thesis by (simp add: env_exec_def demo_env_def exec_range_def)
qed

lemma demo_ok: "decoder_ok demo_env new_decoder" "Generation new_decoder < GenMask" "unit_fits demo_env 0x1000" "unit_fits demo_env 0x1002"
  by (auto simp: decoder_ok_def cache_ok_def range_ok_def new_decoder_def demo_env_def unit_fits_def)

lemmas demo_hyps = demo_env_ok demo_ok(1-3)

theorem decoder_unit_witness:
  "\<exists>d'. DecodeInstructionsAtEntry demo_env 0x1000 0 new_decoder = Some d' \<and> Blocks d' \<noteq> [] \<and> Entry (hd (Blocks d')) = 0x1000 \<and>
    distinct (concat (map block_pcs (Blocks d'))) \<and> TotalInstructionCount d' \<le> 4 \<and>
    (\<forall>b \<in> set (Blocks d'). Entry b = 0x1000 \<or> (\<exists>b' \<in> set (Blocks d'). Entry b \<in> set (followed_targets demo_env 0x1000 4 (last (block_pcs b')))))"
proof -
  have "instruction_cap demo_env 0 = 4" by (simp add: instruction_cap_def demo_env_def)
  then show ?thesis using decoder_unit [OF demo_hyps _ demo_env_exec, of 0] by (auto simp del: One_nat_def)
qed

theorem decoder_extent_witness:
  "\<exists>d'. DecodeInstructionsAtEntry demo_env 0x1000 0 new_decoder = Some d' \<and> sorted_wrt (<) (CodePages d') \<and> page_of 0x1000 \<in> set (CodePages d')"
  using decoder_extent [OF demo_hyps _ demo_env_exec, of 0] by auto


theorem decoder_faults_witness:
  "\<exists>d'. DecodeInstructionsAtEntry demo_env 0x1002 0 new_decoder = Some d' \<and> Blocks d' = [(new_block 0x1002 0 UNALIGNED_PC True)\<lparr>NumInstructions := 1\<rparr>]"
  using decoder_faults [OF demo_env_ok demo_ok(1,4), of 0] by auto

theorem decoder_calls_total_witness:
  "\<exists>d'. decode_calls [(demo_env, 0x1000, 0), (demo_env, 0x1002, 0)] new_decoder = Some d' \<and> Blocks d' \<noteq> [] \<and> unat (Generation d') \<le> 2"
proof -
  have "list_all (call_ok (Some demo_query)) [(demo_env, 0x1000, 0), (demo_env, 0x1002, 0)]" using demo_env_ok demo_ok(3,4) by (simp add: call_ok_def) (simp add: demo_env_def)
  from decoder_calls_total [OF this] show ?thesis by auto
qed

theorem peek_witness_tracked_witness:
  "\<exists>d'. AddPeekWitnessRange 5 0x1000 0x3000 (new_decoder :: unit decoder) = Some d' \<and> page_of 0x2FFC \<in> set (CodePages d')"
proof -
  have "sorted_wrt (<) (CodePages (new_decoder :: unit decoder))" by (simp add: new_decoder_def)
  from peek_witness_tracked [OF this, of "0x3000" 5 "0x1000"] obtain d' where
    "AddPeekWitnessRange 5 0x1000 0x3000 (new_decoder :: unit decoder) = Some d'" "\<forall>x. 0x1000 \<le> x \<longrightarrow> x < 0x3000 \<longrightarrow> page_of x \<in> set (CodePages d')" by auto
  then show ?thesis by simp
qed

section \<open>Two defects\<close>

text \<open>
  \<open>IRBuilder::BL\<close> jumps inside the unit when its target is the entry of any block of the unit. Its word
  and address give the target as for an unconditional branch.
\<close>

definition BL_target :: "u32 \<Rightarrow> u64 \<Rightarrow> u64" where
  "BL_target Word PC = PC + SignExtendImm (ucast (Word AND 0x03FFFFFF)) 26 * 4"

definition BL_in_unit :: "u32 \<Rightarrow> u64 \<Rightarrow> decoded_block list \<Rightarrow> bool" where
  "BL_in_unit Word PC bs \<longleftrightarrow> BL_target Word PC \<in> set (map Entry bs)"

definition demo_view :: "'h decoder option \<Rightarrow> ((u64 \<times> u64 list \<times> nat \<times> u64) list \<times> bool) option" where
  "demo_view = map_option (\<lambda>d. (map (\<lambda>b. (Entry b, block_pcs b, PredCount b, SolePredEntry b)) (Blocks d), BL_in_unit (demo_word 0x1004) 0x1004 (Blocks d)))"

text \<open>
  The census misses the calls: in the program above the block at \<open>0x100C\<close> is reached from the branch at
  \<open>0x1000\<close> and from the call at \<open>0x1004\<close>, which the translation turns into a jump inside the unit. The
  census counts one predecessor and names the branch as the sole one.
\<close>

theorem census_misses_call:
  "demo_view (DecodeInstructionsAtEntry demo_env 0x1000 0 new_decoder) =
     Some ([(0x1000, [0x1000], 0, 0), (0x1004, [0x1004], 1, 0x1000), (0x100C, [0x100C], 1, 0x1000)], True) \<and> BL_target (demo_word 0x1004) 0x1004 = 0x100C"
  by code_simp

text \<open>
  The words of a second program at \<open>0x1000\<close>, \<open>nop\<close> and \<open>svc 0\<close>, and of a third one at the same place,
  \<open>nop\<close> and \<open>ret\<close>.
\<close>

definition old_word :: "u64 \<Rightarrow> u32" where
  "old_word a = (if a = 0x1000 then 0xD503201F else 0xD4000001)"

definition new_word :: "u64 \<Rightarrow> u32" where
  "new_word a = (if a = 0x1000 then 0xD503201F else 0xD65F03C0)"

text \<open>
  The slots of a unit are told from older ones by the low 29 bits of a 32-bit counter, which clears
  the stamps only when all 32 bits wrap. A decoder that decoded the old program in its first unit,
  and whose counter has since reached \<open>2\<^sup>2\<^sup>9\<close> without touching the slot of the second word, takes the
  slot for one of its own: the unit it returns for the new program contains the old word.
\<close>

theorem generation_aliases:
  "do { d \<leftarrow> DecodeInstructionsAtEntry (demo_env\<lparr>GuestWord := old_word\<rparr>) 0x1000 0 new_decoder;
        d \<leftarrow> DecodeInstructionsAtEntry (demo_env\<lparr>GuestWord := new_word\<rparr>) 0x1000 0 (d\<lparr>Generation := 0x20000000\<rparr>);
        Some (map (\<lambda>b. map (\<lambda>i. (InstPC i, InstWord i)) (block_insts d b)) (Blocks d)) } =
     Some [[(0x1000, 0xD503201F), (0x1004, 0xD4000001)]] \<and> new_word 0x1004 = 0xD65F03C0"
  by code_simp

end
