(* ===== verification/NZCVPeek.thy ===== *)
theory NZCVPeek
  imports NZCVSound DecoderTheorems
begin

text \<open>
  The policy around the flag scan, \<open>A64Frontend/NZCVPeek.cpp\<close>: which exits of a freshly translated unit
  may drop the flags, and what the unit then has to track. The unit is given by the last operation
  of each of its blocks, which the frontend has emitted; \<open>None\<close> stands for a block that does not end
  in \<open>ExitFunction\<close>. The reads of the scan go through the range cache of the decoder; they do not
  depend on its contents (\<open>ReadWord_correct\<close>), so that each of them is made on the decoder as the
  translation left it.
\<close>

section \<open>Reads\<close>

definition ReadWord :: "'h decoder_env \<Rightarrow> u64 \<Rightarrow> 'h decoder \<Rightarrow> (u32 option \<times> 'h decoder) option" where
  "ReadWord env Address d =
     (if Address AND 3 \<noteq> 0 then Some (None, d)
      else do {
        (ok, d) \<leftarrow> CheckRangeExecutable env Address INSTRUCTION_SIZE d;
        Some (if ok then Some (GuestWord env Address) else None, d)
      })"

definition peek_words :: "'h decoder_env \<Rightarrow> 'h decoder \<Rightarrow> guest_words" where
  "peek_words env d a = (case ReadWord env a d of None \<Rightarrow> None | Some (w, _) \<Rightarrow> w)"

section \<open>Exits\<close>

datatype peek_mode = ModeOff | ModeOn | ModeCanary | ModeStrict

abbreviation kHullBound :: u64 where "kHullBound \<equiv> 0x1000"

text \<open>The source of the new program counter of an exit: the operations that Apply tells apart.\<close>

datatype new_rip = IsImmediate | InlineEntrypointOffset bool u64 | InlineConstant u64 | OtherOp

record exit_function =
  HintReturn :: bool
  NewRIP :: new_rip

definition exit_target :: "u64 \<Rightarrow> exit_function \<Rightarrow> u64 option" where
  "exit_target EntryPC Op =
     (if HintReturn Op then None
      else case NewRIP Op of
        IsImmediate \<Rightarrow> None
      | InlineEntrypointOffset Is32 Offset \<Rightarrow> Some ((EntryPC + Offset) AND (if Is32 then 0xFFFFFFFF else - 1))
      | InlineConstant C \<Rightarrow> Some C
      | OtherOp \<Rightarrow> None)"

record peek_state =
  Hull :: witness_extent
  DeadMarks :: "bool list"
  ExitsSeen :: nat
  Dead :: nat
  RefusedScan :: nat
  RefusedHull :: nat
  RefusedBelowEntry :: nat

definition hull_start :: "'h decoder \<Rightarrow> witness_extent" where
  "hull_start d =
     (if DecodedMinAddress d < DecodedMaxAddress d then \<lparr>Low = DecodedMinAddress d, High = DecodedMaxAddress d\<rparr> else Witness)"

text \<open>The verdict on a target, and the new hull when the target is taken as dead.\<close>

definition peek_target :: "bool \<Rightarrow> u64 \<Rightarrow> guest_words \<Rightarrow> u64 \<Rightarrow> peek_state \<Rightarrow> bool \<times> peek_state" where
  "peek_target NoWindowCheck EntryPC rd Target s =
     (let s = s\<lparr>ExitsSeen := Suc (ExitsSeen s)\<rparr>; (V, W) = ScanWitnessed Target False rd Witness in
      if V \<noteq> SCAN_DEAD \<or> witness_Empty W then (False, s\<lparr>RefusedScan := Suc (RefusedScan s)\<rparr>)
      else if Low W < EntryPC \<and> \<not> NoWindowCheck then (False, s\<lparr>RefusedBelowEntry := Suc (RefusedBelowEntry s)\<rparr>)
      else
        let Candidate = witness_Merge (Hull s) W in
        if witness_Empty Candidate \<or> High Candidate - Low Candidate > kHullBound then (False, s\<lparr>RefusedHull := Suc (RefusedHull s)\<rparr>)
        else (True, s\<lparr>Hull := Candidate, Dead := Suc (Dead s)\<rparr>))"

definition peek_exit :: "bool \<Rightarrow> u64 list \<Rightarrow> u64 \<Rightarrow> guest_words \<Rightarrow> exit_function option \<Rightarrow> peek_state \<Rightarrow> peek_state" where
  "peek_exit NoWindowCheck ISBTargets EntryPC rd x s =
     (case Option.bind x (exit_target EntryPC) of
        None \<Rightarrow> s\<lparr>DeadMarks := DeadMarks s @ [False]\<rparr>
      | Some Target \<Rightarrow>
          if Target AND 3 \<noteq> 0 \<or> Target \<in> set ISBTargets then s\<lparr>DeadMarks := DeadMarks s @ [False]\<rparr>
          else (case peek_target NoWindowCheck EntryPC rd Target s of (dead, s) \<Rightarrow> s\<lparr>DeadMarks := DeadMarks s @ [dead]\<rparr>))"

definition peek_start :: "'h decoder \<Rightarrow> peek_state" where
  "peek_start d = \<lparr>Hull = hull_start d, DeadMarks = [], ExitsSeen = 0, Dead = 0, RefusedScan = 0, RefusedHull = 0, RefusedBelowEntry = 0\<rparr>"

text \<open>\<open>Apply\<close> with the marks of the exits; \<open>None\<close> when the page loop of the decoder does not end.\<close>

definition Apply ::
  "nat \<Rightarrow> 'h decoder_env \<Rightarrow> peek_mode \<Rightarrow> bool \<Rightarrow> u64 list \<Rightarrow> u64 \<Rightarrow> exit_function option list \<Rightarrow> 'h decoder \<Rightarrow> (bool list \<times> 'h decoder) option" where
  "Apply fuel env M NoWindowCheck ISBTargets EntryPC exits d =
     (if M = ModeOff \<or> exits = [] then Some (map (\<lambda>_. False) exits, d)
      else
        let s = fold (peek_exit NoWindowCheck ISBTargets EntryPC (peek_words env d)) exits (peek_start d) in
        if \<not> list_ex id (DeadMarks s) then Some (DeadMarks s, d)
        else map_option (Pair (DeadMarks s)) (AddPeekWitnessRange fuel (Low (Hull s)) (High (Hull s)) d))"

section \<open>Reads are those of the decoder\<close>

lemma and_3: "(a :: u64) AND 3 = a AND (INSTRUCTION_SIZE - 1)"
  by simp

lemma ReadWord_correct:
  assumes "env_ok env" "DecoderSpec.cache_ok env d" "a < a + INSTRUCTION_SIZE"
  obtains b e where "ReadWord env a d = Some (if a AND 3 = 0 \<and> env_exec env a INSTRUCTION_SIZE then Some (GuestWord env a) else None, d\<lparr>RangeBase := b, RangeEnd := e\<rparr>)"
    "DecoderSpec.cache_ok env (d\<lparr>RangeBase := b, RangeEnd := e\<rparr>)"
proof (cases "a AND 3 = 0")
  case True
  obtain b e where "CheckRangeExecutable env a INSTRUCTION_SIZE d = Some (env_exec env a INSTRUCTION_SIZE, d\<lparr>RangeBase := b, RangeEnd := e\<rparr>)"
    "DecoderSpec.cache_ok env (d\<lparr>RangeBase := b, RangeEnd := e\<rparr>)" by (rule CheckRangeExecutable_correct [OF assms(1,2) _ assms(3)]) simp_all
  then show ?thesis using that [where b = b and e = e] True by (simp add: ReadWord_def)
next
  case False
  have "d\<lparr>RangeBase := RangeBase d, RangeEnd := RangeEnd d\<rparr> = d" by simp
  then show ?thesis using that [where b = "RangeBase d" and e = "RangeEnd d"] False assms(2) by (simp add: ReadWord_def)
qed

lemma peek_words_eq:
  assumes "env_ok env" "DecoderSpec.cache_ok env d" "a < a + INSTRUCTION_SIZE"
  shows "peek_words env d a = (if a AND 3 = 0 \<and> env_exec env a INSTRUCTION_SIZE then Some (GuestWord env a) else None)"
proof -
  obtain b e where "ReadWord env a d = Some (if a AND 3 = 0 \<and> env_exec env a INSTRUCTION_SIZE then Some (GuestWord env a) else None, d\<lparr>RangeBase := b, RangeEnd := e\<rparr>)"
    by (rule ReadWord_correct [OF assms])
  then show ?thesis by (simp add: peek_words_def)
qed

section \<open>The hull\<close>

lemma Merge_widens: "widens W (witness_Merge W V)" "\<not> witness_Empty V \<Longrightarrow> widens V (witness_Merge W V)"
  by (auto simp: widens_def witness_Merge_def)

text \<open>What a mark means.\<close>

definition dead_exit :: "bool \<Rightarrow> u64 list \<Rightarrow> u64 \<Rightarrow> guest_words \<Rightarrow> exit_function option \<Rightarrow> witness_extent \<Rightarrow> bool" where
  "dead_exit NoWindowCheck ISBTargets EntryPC rd x H \<longleftrightarrow> (\<exists>Op T W. x = Some Op \<and> exit_target EntryPC Op = Some T \<and> T AND 3 = 0 \<and> T \<notin> set ISBTargets \<and>
     ScanWitnessed T False rd Witness = (SCAN_DEAD, W) \<and> \<not> witness_Empty W \<and> (NoWindowCheck \<or> EntryPC \<le> Low W) \<and> widens W H)"

lemma dead_exit_widens: "dead_exit nw isb EntryPC rd x H \<Longrightarrow> widens H H' \<Longrightarrow> dead_exit nw isb EntryPC rd x H'"
  unfolding dead_exit_def using widens_trans by blast

definition hull_ok :: "witness_extent \<Rightarrow> bool" where
  "hull_ok H \<longleftrightarrow> \<not> witness_Empty H \<and> High H - Low H \<le> kHullBound"

lemma peek_target_cases:
  assumes "peek_target nw EntryPC rd T s = (dead, s')"
  shows "widens (Hull s) (Hull s') \<and> DeadMarks s' = DeadMarks s \<and>
    (if dead then hull_ok (Hull s') \<and> (\<exists>W. ScanWitnessed T False rd Witness = (SCAN_DEAD, W) \<and> \<not> witness_Empty W \<and> (nw \<or> EntryPC \<le> Low W) \<and> widens W (Hull s'))
     else Hull s' = Hull s)"
  using assms Merge_widens
  by (cases "ScanWitnessed T False rd Witness") (auto simp: peek_target_def Let_def hull_ok_def split: if_splits)

text \<open>The marks of the exits visited so far.\<close>

definition marks_ok :: "bool \<Rightarrow> u64 list \<Rightarrow> u64 \<Rightarrow> guest_words \<Rightarrow> witness_extent \<Rightarrow> exit_function option list \<Rightarrow> peek_state \<Rightarrow> bool" where
  "marks_ok nw isb EntryPC rd H0 xs s \<longleftrightarrow> list_all2 (\<lambda>x dead. dead \<longrightarrow> dead_exit nw isb EntryPC rd x (Hull s)) xs (DeadMarks s) \<and>
     widens H0 (Hull s) \<and> (list_ex id (DeadMarks s) \<longrightarrow> hull_ok (Hull s))"

lemma peek_exit_ok:
  assumes "marks_ok nw isb EntryPC rd H0 xs s"
  shows "marks_ok nw isb EntryPC rd H0 (xs @ [x]) (peek_exit nw isb EntryPC rd x s)"
proof -
  have all: "list_all2 (\<lambda>x dead. dead \<longrightarrow> dead_exit nw isb EntryPC rd x (Hull s)) xs (DeadMarks s)" "widens H0 (Hull s)" "list_ex id (DeadMarks s) \<longrightarrow> hull_ok (Hull s)"
    using assms by (simp_all add: marks_ok_def)
  have skip: "marks_ok nw isb EntryPC rd H0 (xs @ [x]) (s\<lparr>DeadMarks := DeadMarks s @ [False]\<rparr>)" using all by (simp add: marks_ok_def list_all2_appendI)
  show ?thesis
  proof (cases "Option.bind x (exit_target EntryPC)")
    case None
    then show ?thesis using skip by (simp add: peek_exit_def)
  next
    case (Some T)
    then obtain Op where x: "x = Some Op" "exit_target EntryPC Op = Some T" by (auto simp: bind_eq_Some_conv)
    show ?thesis
    proof (cases "T AND 3 \<noteq> 0 \<or> T \<in> set isb")
      case True
      then show ?thesis using skip Some by (simp add: peek_exit_def)
    next
      case False
      obtain dead s' where t: "peek_target nw EntryPC rd T s = (dead, s')" by fastforce
      note c = peek_target_cases [OF t]
      have e: "peek_exit nw isb EntryPC rd x s = s'\<lparr>DeadMarks := DeadMarks s @ [dead]\<rparr>" using Some False t c by (simp add: peek_exit_def)
      have "list_all2 (\<lambda>x dead. dead \<longrightarrow> dead_exit nw isb EntryPC rd x (Hull s')) xs (DeadMarks s)"
        using all(1) by (rule list_all2_mono) (use c dead_exit_widens in blast)
      moreover have "dead \<longrightarrow> dead_exit nw isb EntryPC rd x (Hull s')" using c x False unfolding dead_exit_def by auto
      moreover have "widens H0 (Hull s')" using widens_trans [OF all(2)] c by blast
      ultimately show ?thesis unfolding e marks_ok_def using c all(3) by (cases dead) (simp_all add: list_all2_appendI)
    qed
  qed
qed

lemma peek_fold_ok:
  "marks_ok nw isb EntryPC rd H0 xs s \<Longrightarrow> marks_ok nw isb EntryPC rd H0 (xs @ ys) (fold (peek_exit nw isb EntryPC rd) ys s)"
proof (induction ys arbitrary: xs s)
  case (Cons y ys)
  then show ?case using peek_exit_ok [OF Cons.prems, of y] by fastforce
qed simp

lemma AddPeekWitnessRange_extent:
  assumes "AddPeekWitnessRange fuel Start End d = Some d'" "Start < End"
  shows "DecodedMinAddress d' = min (DecodedMinAddress d) Start" "DecodedMaxAddress d' = max (DecodedMaxAddress d) End" "Leaders d' = Leaders d"
    "DecodedBuffer d' = DecodedBuffer d" "EntryPoints d' = EntryPoints d" "TotalInstructionCount d' = TotalInstructionCount d"
  using assms by (auto simp: AddPeekWitnessRange_def split: if_splits)

lemma hull_bounds:
  assumes "hull_ok H" "widens H0 H" "Low H0 < High H0" "unat (Low H0) + 8192 \<le> 2 ^ 64"
  shows "Low H < High H" "unat (High H) \<le> unat (Low H0) + 4096"
proof -
  have w: "Low H \<le> Low H0" "High H0 \<le> High H" using assms(2) by (simp_all add: widens_def)
  then show "Low H < High H" using assms(3) by simp
  then have "unat (High H - Low H) = unat (High H) - unat (Low H)" by (intro unat_sub) simp
  moreover have "unat (High H - Low H) \<le> 4096" using assms(1) by (simp add: hull_ok_def word_le_nat_alt)
  ultimately show "unat (High H) \<le> unat (Low H0) + 4096" using w(1) by (simp add: word_le_nat_alt)
qed

lemma peek_apply:
  assumes "sorted_wrt (<) (CodePages d)" "DecodedMinAddress d < DecodedMaxAddress d" "unat (DecodedMinAddress d) + 8192 \<le> 2 ^ 64"
    "unat (DecodedMinAddress d) div 4096 + 3 \<le> fuel"
  shows "\<exists>marks d'. Apply fuel env M False isb EntryPC exits d = Some (marks, d') \<and> length marks = length exits \<and> Blocks d' = Blocks d \<and>
    sorted_wrt (<) (CodePages d') \<and> set (CodePages d) \<subseteq> set (CodePages d') \<and> DecodedMinAddress d' \<le> DecodedMinAddress d \<and> DecodedMaxAddress d \<le> DecodedMaxAddress d' \<and>
    (M = ModeOff \<longrightarrow> d' = d \<and> True \<notin> set marks) \<and> (True \<in> set marks \<longrightarrow> DecodedMaxAddress d' - DecodedMinAddress d' \<le> kHullBound) \<and>
    (\<forall>k < length exits. marks ! k \<longrightarrow> (\<exists>Op T W. exits ! k = Some Op \<and> \<not> HintReturn Op \<and> exit_target EntryPC Op = Some T \<and>
       ScanWitnessed T False (peek_words env d) Witness = (SCAN_DEAD, W) \<and> EntryPC \<le> Low W \<and>
       (\<forall>x. Low W \<le> x \<longrightarrow> x < High W \<longrightarrow> page_of x \<in> set (CodePages d') \<and> DecodedMinAddress d' \<le> x \<and> x < DecodedMaxAddress d')))"
proof (cases "M = ModeOff \<or> exits = []")
  case True
  then have "Apply fuel env M False isb EntryPC exits d = Some (map (\<lambda>_. False) exits, d)" by (simp add: Apply_def)
  then show ?thesis using assms(1) by auto
next
  case False
  let ?rd = "peek_words env d"
  define s where "s = fold (peek_exit False isb EntryPC ?rd) exits (peek_start d)"
  let ?H = "Hull s"
  have start: "hull_start d = \<lparr>Low = DecodedMinAddress d, High = DecodedMaxAddress d\<rparr>" using assms(2) by (simp add: hull_start_def)
  have "marks_ok False isb EntryPC ?rd (hull_start d) [] (peek_start d)" by (simp add: marks_ok_def peek_start_def)
  from peek_fold_ok [OF this, of exits] have m: "list_all2 (\<lambda>x dead. dead \<longrightarrow> dead_exit False isb EntryPC ?rd x ?H) exits (DeadMarks s)"
    "widens (hull_start d) ?H" "list_ex id (DeadMarks s) \<longrightarrow> hull_ok ?H" by (simp_all add: s_def marks_ok_def)
  have len: "length (DeadMarks s) = length exits" using list_all2_lengthD [OF m(1)] by simp
  have ex: "list_ex id (DeadMarks s) \<longleftrightarrow> True \<in> set (DeadMarks s)" by (auto simp: list_ex_iff)
  have run: "Apply fuel env M False isb EntryPC exits d = (if True \<notin> set (DeadMarks s) then Some (DeadMarks s, d)
      else map_option (Pair (DeadMarks s)) (AddPeekWitnessRange fuel (Low ?H) (High ?H) d))"
    using False ex by (simp add: Apply_def s_def Let_def)
  show ?thesis
  proof (cases "True \<in> set (DeadMarks s)")
    case none: False
    have "\<not> DeadMarks s ! k" if "k < length exits" for k using none nth_mem [of k "DeadMarks s"] that len by (metis (full_types))
    then show ?thesis using run none len False assms(1) by auto
  next
    case some: True
    have H: "hull_ok ?H" using m(3) some ex by simp
    have "Low (hull_start d) < High (hull_start d)" "unat (Low (hull_start d)) + 8192 \<le> 2 ^ 64" using start assms(2,3) by simp_all
    note b = hull_bounds [OF H m(2) this, unfolded start witness_extent.select_convs]
    have top: "unat (High ?H) + 4096 \<le> 2 ^ 64" using b(2) assms(3) by simp
    have "unat (High ?H) div 4096 \<le> (unat (DecodedMinAddress d) + 4096) div 4096" using b(2) by (rule div_le_mono)
    then have fuel: "unat (High ?H) div 4096 + 2 \<le> fuel" using assms(4) by simp
    from peek_witness_tracked [OF assms(1) top fuel, of "Low ?H"] obtain d' where d': "AddPeekWitnessRange fuel (Low ?H) (High ?H) d = Some d'"
      "sorted_wrt (<) (CodePages d')" "set (CodePages d) \<subseteq> set (CodePages d')" "DecodedMinAddress d' \<le> DecodedMinAddress d" "DecodedMaxAddress d \<le> DecodedMaxAddress d'"
      "Blocks d' = Blocks d" "\<forall>x. Low ?H \<le> x \<longrightarrow> x < High ?H \<longrightarrow> page_of x \<in> set (CodePages d') \<and> DecodedMinAddress d' \<le> x \<and> x < DecodedMaxAddress d'" by blast
    have w: "Low ?H \<le> DecodedMinAddress d" "DecodedMaxAddress d \<le> High ?H" using m(2) by (simp_all add: widens_def start)
    have "DecodedMinAddress d' = Low ?H" "DecodedMaxAddress d' = High ?H" using AddPeekWitnessRange_extent [OF d'(1) b(1)] w by (simp_all add: min_absorb2 max_absorb2)
    then have size: "DecodedMaxAddress d' - DecodedMinAddress d' \<le> kHullBound" using H by (simp add: hull_ok_def)
    have "\<exists>Op T W. exits ! k = Some Op \<and> \<not> HintReturn Op \<and> exit_target EntryPC Op = Some T \<and>
       ScanWitnessed T False ?rd Witness = (SCAN_DEAD, W) \<and> EntryPC \<le> Low W \<and>
       (\<forall>x. Low W \<le> x \<longrightarrow> x < High W \<longrightarrow> page_of x \<in> set (CodePages d') \<and> DecodedMinAddress d' \<le> x \<and> x < DecodedMaxAddress d')"
      if k: "k < length exits" and dead: "DeadMarks s ! k" for k
    proof -
      have "dead_exit False isb EntryPC ?rd (exits ! k) ?H" using list_all2_nthD [OF m(1) k] dead by blast
      then obtain Op T W where o: "exits ! k = Some Op" "exit_target EntryPC Op = Some T" "ScanWitnessed T False ?rd Witness = (SCAN_DEAD, W)" "EntryPC \<le> Low W" "widens W ?H"
        unfolding dead_exit_def by blast
      have "\<not> HintReturn Op" using o(2) by (auto simp: exit_target_def)
      moreover have "Low ?H \<le> x \<and> x < High ?H" if "Low W \<le> x" "x < High W" for x using that o(5) unfolding widens_def by auto
      ultimately show ?thesis using o(1-4) d'(7) by blast
    qed
    then show ?thesis using run some d' size len False by auto
  qed
qed

section \<open>Theorems\<close>

text \<open>
  C20. The peek marks an exit only if its target is constant, the exit is no return, and the scan found
  the flags dead there, all words that the scan read lying at or above the entry of the unit; the
  unit then tracks every byte of them: they are on its code pages and inside its extent, whose length
  is within the bound of the code cache. Nothing that the unit tracked before is lost, and its
  blocks stay as they are.
\<close>

theorem peek_dead_exits:
  assumes "sorted_wrt (<) (CodePages d)" "DecodedMinAddress d < DecodedMaxAddress d" "unat (DecodedMinAddress d) + 8192 \<le> 2 ^ 64"
    "unat (DecodedMinAddress d) div 4096 + 3 \<le> fuel"
  shows "\<exists>marks d'. Apply fuel env M False isb EntryPC exits d = Some (marks, d') \<and> length marks = length exits \<and> Blocks d' = Blocks d \<and>
    sorted_wrt (<) (CodePages d') \<and> set (CodePages d) \<subseteq> set (CodePages d') \<and> DecodedMinAddress d' \<le> DecodedMinAddress d \<and> DecodedMaxAddress d \<le> DecodedMaxAddress d' \<and>
    (M = ModeOff \<longrightarrow> d' = d \<and> True \<notin> set marks) \<and> (True \<in> set marks \<longrightarrow> DecodedMaxAddress d' - DecodedMinAddress d' \<le> kHullBound) \<and>
    (\<forall>k < length exits. marks ! k \<longrightarrow> (\<exists>Op T W. exits ! k = Some Op \<and> \<not> HintReturn Op \<and> exit_target EntryPC Op = Some T \<and>
       ScanWitnessed T False (peek_words env d) Witness = (SCAN_DEAD, W) \<and> EntryPC \<le> Low W \<and>
       (\<forall>x. Low W \<le> x \<longrightarrow> x < High W \<longrightarrow> page_of x \<in> set (CodePages d') \<and> DecodedMinAddress d' \<le> x \<and> x < DecodedMaxAddress d')))"
  by (rule peek_apply [OF assms])

text \<open>A unit whose exit leads to \<open>add x0, x0, 1\<close> and \<open>cmp x0, x1\<close>.\<close>

definition flag_word :: "u64 \<Rightarrow> u32" where
  "flag_word a = (if a = 0x1000 then 0x14000004 else if a = 0x1010 then 0x91000400 else if a = 0x1014 then 0xEB01001F else 0)"

definition flag_unit :: "unit decoder" where
  "flag_unit = new_decoder\<lparr>DecodedMinAddress := 0x1000, DecodedMaxAddress := 0x1004, CodePages := [0x1000]\<rparr>"

definition flag_exits :: "exit_function option list" where
  "flag_exits = [Some \<lparr>HintReturn = False, NewRIP = InlineEntrypointOffset False 0x10\<rparr>, None, Some \<lparr>HintReturn = True, NewRIP = OtherOp\<rparr>]"

lemma flag_marks: "map_option (\<lambda>(marks, d). (marks, CodePages d, DecodedMinAddress d, DecodedMaxAddress d))
    (Apply 4 (demo_env\<lparr>GuestWord := flag_word\<rparr>) ModeOn False [] 0x1000 flag_exits flag_unit) = Some ([True, False, False], [0x1000], 0x1000, 0x1018)"
  by code_simp

theorem peek_dead_exits_witness:
  "\<exists>W. ScanWitnessed 0x1010 False (peek_words (demo_env\<lparr>GuestWord := flag_word\<rparr>) flag_unit) Witness = (SCAN_DEAD, W) \<and> 0x1000 \<le> Low W"
proof -
  have h: "sorted_wrt (<) (CodePages flag_unit)" "DecodedMinAddress flag_unit < DecodedMaxAddress flag_unit" "unat (DecodedMinAddress flag_unit) + 8192 \<le> 2 ^ 64"
    "unat (DecodedMinAddress flag_unit) div 4096 + 3 \<le> 4" by (simp_all add: flag_unit_def)
  from peek_dead_exits [OF h, of "demo_env\<lparr>GuestWord := flag_word\<rparr>" ModeOn "[]" "0x1000" flag_exits] flag_marks show ?thesis
    by (auto simp: flag_exits_def exit_target_def dest!: spec [of _ 0])
qed

text \<open>
  The check of the executable range computes the end of the word modulo \<open>2\<^sup>6\<^sup>4\<close>, so that the last word
  of memory passes whatever the map of executable ranges says, as soon as the cached range starts
  below it.
\<close>

lemma top_word_unchecked:
  assumes "QueryGuestExecutableRange env = Some query"
  shows "CheckRangeExecutable env (- 4) INSTRUCTION_SIZE (new_decoder :: 'h decoder) = Some (True, new_decoder)"
proof -
  have "check_range query 0 0 (- 4) INSTRUCTION_SIZE = Some (True, 0, 0)" by (subst check_range.simps) simp
  then show ?thesis using assms by (simp add: CheckRangeExecutable_def new_decoder_def)
qed

end
