(* ===== verification/UnitCoherence.thy ===== *)
theory UnitCoherence
  imports CodeProtocol NZCVPeek
begin

text \<open>
  From the decoder to the lookup: a unit that was decoded, peeked at its exits and registered with the
  code pages and the extent that the decoder then reports (\<open>GenerateIR\<close> and \<open>CompileBlock\<close> in
  \<open>Core.cpp\<close>) runs only while the guest memory that it was made from is unchanged, if changes of guest
  memory are reported.
\<close>

section \<open>Units as entries\<close>

definition unit_entry :: "bool \<Rightarrow> (u64 list \<Rightarrow> u64 \<Rightarrow> u64 \<Rightarrow> u64) \<Rightarrow> 'h decoder \<Rightarrow> u64 \<Rightarrow> u64 \<Rightarrow> block_entry" where
  "unit_entry soft hash d bb host =
     compiled_entry soft hash (Decoder.CodePages d) (DecodedMinAddress d) (DecodedMaxAddress d - DecodedMinAddress d) bb host"

fun covers :: "code_event \<Rightarrow> u64 \<Rightarrow> bool" where
  "covers (Registered a e) x = False"
| "covers (Relinked a e digest) x = False"
| "covers (Invalidated start len) x \<longleftrightarrow> start \<le> x \<and> x < start + len"
| "covers (InvalidatedPrecise start len) x \<longleftrightarrow> start \<le> x \<and> x < start + len"

lemma unat_PageOf: "unat (PageOf a) = unat a div 4096"
  by (simp add: PageOf_def unat_page_index)

lemma PageOf_page_of: "PageOf (page_of a) = PageOf a"
  by (simp add: word_unat_eq_iff unat_PageOf unat_page_of)

lemma PageOf_range:
  assumes "start \<le> x" "x < start + len"
  shows "PageOf x \<in> pages_of start len"
proof -
  have "start + len \<noteq> 0" using assms(2) by auto
  then have "unat (start + len - 1) = unat (start + len) - 1" by (rule unat_minus_one)
  then have "x \<le> start + len - 1" using assms(2) by (simp add: word_le_nat_alt word_less_nat_alt)
  then show ?thesis using assms(1) by (simp add: pages_of_def word_le_nat_alt unat_PageOf div_le_mono)
qed

text \<open>An invalidation of any byte that the unit depends on kills its entry.\<close>

lemma covers_kills:
  assumes "page_of x \<in> set (Decoder.CodePages d)" "DecodedMinAddress d \<le> x" "x < DecodedMaxAddress d" "covers ev x"
  shows "kills ev (unit_entry soft hash d bb host)"
proof -
  have "PageOf (page_of x) \<in> pages_of start len" if "start \<le> x" "x < start + len" for start len
    using PageOf_range [OF that] by (simp only: PageOf_page_of)
  moreover have "EntryOverlaps (unit_entry soft hash d bb host) start (start + len)" if "start \<le> x" "x < start + len" for start len
    using assms(2,3) that by (auto simp: EntryOverlaps_def unit_entry_def)
  ultimately show ?thesis using assms(1,4) by (cases ev) (auto simp: unit_entry_def)
qed

section \<open>Histories with memory\<close>

text \<open>Each event with the guest memory after it, the newest first. Every change of memory is reported.\<close>

type_synonym mem = "u64 \<Rightarrow> u8"

fun reported :: "(code_event \<times> mem) list \<Rightarrow> bool" where
  "reported ((ev, m) # (ev', m') # hist) \<longleftrightarrow> (\<forall>x. m x \<noteq> m' x \<longrightarrow> covers ev x) \<and> reported ((ev', m') # hist)"
| "reported hist = True"

lemma reported_unchanged:
  assumes "reported hist" "hist = newer @ (ev, m) # older" "\<forall>e \<in> set newer. \<not> covers (fst e) x"
  shows "snd (hd hist) x = m x"
  using assms
proof (induction newer arbitrary: hist)
  case (Cons n newer)
  obtain ev1 m1 where n: "n = (ev1, m1)" by (cases n)
  have IH: "reported (newer @ (ev, m) # older) \<Longrightarrow> snd (hd (newer @ (ev, m) # older)) x = m x" using Cons.IH Cons.prems(3) by simp
  obtain ev2 m2 rest where r: "newer @ (ev, m) # older = (ev2, m2) # rest" by (cases newer) auto
  have "m1 x = m2 x" "reported ((ev2, m2) # rest)" using Cons.prems n r by auto
  then show ?case using IH n r Cons.prems(2) by simp
qed simp

definition mem_word :: "mem \<Rightarrow> u64 \<Rightarrow> u32" where
  "mem_word m p = load_le (map (\<lambda>i. m (p + of_nat i)) [0..<4])"

text \<open>
  A compiled entry comes from a unit: the decoder ran at its address on a sound state and on the
  words of memory, the flag policy visited the exits without reading the last word of memory, and the
  result, which ends below the last two pages of memory, was registered with its content hash.
\<close>

definition low_words :: "guest_words \<Rightarrow> guest_words" where
  "low_words rd a = (if a < a + 4 then rd a else None)"

definition scans_low :: "u64 \<Rightarrow> guest_words \<Rightarrow> exit_function option list \<Rightarrow> bool" where
  "scans_low a rd exits \<longleftrightarrow> (\<forall>Op T W. Some Op \<in> set exits \<longrightarrow> exit_target a Op = Some T \<longrightarrow> ScanWitnessed T False rd Witness = (SCAN_DEAD, W) \<longrightarrow>
     ScanWitnessed T False (low_words rd) Witness = (SCAN_DEAD, W))"

definition unit_decoded :: "u64 \<Rightarrow> 'h decoder_env \<Rightarrow> 'h decoder \<Rightarrow> bool" where
  "unit_decoded a env d1 \<longleftrightarrow> (\<exists>d MaxInst. env_ok env \<and> decoder_ok env d \<and> Generation d < GenMask \<and> unit_fits env a \<and>
     a AND (INSTRUCTION_SIZE - 1) = 0 \<and> env_exec env a INSTRUCTION_SIZE \<and> DecodeInstructionsAtEntry env a MaxInst d = Some d1)"

definition from_unit :: "(u8 list \<Rightarrow> u64 \<Rightarrow> u64) \<Rightarrow> mem \<Rightarrow> u64 \<Rightarrow> block_entry \<Rightarrow> 'h decoder_env \<Rightarrow> 'h decoder \<Rightarrow> exit_function option list \<Rightarrow> bool list \<Rightarrow> bool" where
  "from_unit xxh m a e env d1 exits marks \<longleftrightarrow> unit_decoded a env d1 \<and> unat (DecodedMinAddress d1) + 8192 \<le> 2 ^ 64 \<and> scans_low a (peek_words env d1) exits \<and>
     (\<exists>fuel M isb d2 soft bb host. unat (DecodedMinAddress d1) div 4096 + 3 \<le> fuel \<and> Apply fuel env M False isb a exits d1 = Some (marks, d2) \<and>
        unat (DecodedMaxAddress d2) + 8192 \<le> 2 ^ 64 \<and> e = unit_entry soft (HashGuestBlock xxh m) d2 bb host) \<and>
     (\<forall>p. p AND 3 = 0 \<longrightarrow> p < p + 4 \<longrightarrow> env_exec env p INSTRUCTION_SIZE \<longrightarrow> GuestWord env p = mem_word m p)"

lemma is_run_mem: "is_run env r \<Longrightarrow> p \<in> set r \<Longrightarrow> unat p + 64 < 2 ^ 64 \<and> unat p mod 4 = 0 \<and> env_exec env p INSTRUCTION_SIZE"
proof -
  assume r: "is_run env r" "p \<in> set r"
  then obtain i where i: "i < length r" "r ! i = p" by (metis in_set_conv_nth)
  from r(1) have "unat (r ! i) + 64 < 2 ^ 64 \<and> unat (r ! i) mod 4 = 0 \<and> env_exec env (r ! i) INSTRUCTION_SIZE"
    unfolding is_run_def using i(1) by blast
  then show ?thesis unfolding i(2) .
qed

lemma is_run_extent: "is_run env r \<Longrightarrow> hd r < inst_end env (last r)"
proof -
  assume r: "is_run env r"
  then have "r \<noteq> []" unfolding is_run_def by (rule conjunct1)
  then have l: "unat (last r) + 64 < 2 ^ 64" using is_run_mem [OF r last_in_set] by blast
  have "unat (hd r) < unat (inst_end env (last r))" unfolding inst_end_unat(1) [OF l] is_run_last [OF r] by simp
  then show ?thesis by (simp only: word_less_nat_alt)
qed

lemma decoded_facts:
  assumes "unit_decoded a env d1"
  shows "env_ok env" "decoder_ok env d1" "sorted_wrt (<) (Decoder.CodePages d1)" "DecodedMinAddress d1 < DecodedMaxAddress d1"
    "\<forall>b \<in> set (Blocks d1). \<forall>p \<in> set (block_pcs b). unat p + 64 < 2 ^ 64 \<and> p AND 3 = 0 \<and> env_exec env p INSTRUCTION_SIZE \<and>
       (\<forall>x. p \<le> x \<longrightarrow> x < inst_end env p \<longrightarrow> page_of x \<in> set (Decoder.CodePages d1) \<and> DecodedMinAddress d1 \<le> x \<and> x < DecodedMaxAddress d1)"
proof -
  obtain d MaxInst where u: "env_ok env" "decoder_ok env d" "Generation d < GenMask" "unit_fits env a" "a AND (INSTRUCTION_SIZE - 1) = 0"
    "env_exec env a INSTRUCTION_SIZE" and run: "DecodeInstructionsAtEntry env a MaxInst d = Some d1" using assms unfolding unit_decoded_def by blast
  show "env_ok env" by (rule u(1))
  obtain rs where ok: "decoder_ok env d1" "decoded_unit env a (instruction_cap env MaxInst) rs d1" using decode_entry_correct [OF u, of MaxInst] run by auto
  show "decoder_ok env d1" by (rule ok(1))
  have ext: "sorted_wrt (<) (Decoder.CodePages d1)" "\<forall>b \<in> set (Blocks d1). \<forall>p \<in> set (block_pcs b). unat p + 64 < 2 ^ 64 \<and>
       (\<forall>x. p \<le> x \<longrightarrow> x < inst_end env p \<longrightarrow> page_of x \<in> set (Decoder.CodePages d1) \<and> DecodedMinAddress d1 \<le> x \<and> x < DecodedMaxAddress d1)"
    using unit_extent [OF u, of MaxInst] run by auto
  show "sorted_wrt (<) (Decoder.CodePages d1)" by (rule ext(1))
  have al: "p AND 3 = 0 \<and> env_exec env p INSTRUCTION_SIZE" if b: "b \<in> set (Blocks d1)" and p: "p \<in> set (block_pcs b)" for b p
  proof -
    obtain r where "is_run env r" "block_pcs b = r" by (rule decoded_unit_block [OF ok(2) b])
    then have "unat p mod 4 = 0 \<and> env_exec env p INSTRUCTION_SIZE" using p is_run_mem by blast
    then show ?thesis by (simp only: and_3 aligned_iff)
  qed
  then show "\<forall>b \<in> set (Blocks d1). \<forall>p \<in> set (block_pcs b). unat p + 64 < 2 ^ 64 \<and> p AND 3 = 0 \<and> env_exec env p INSTRUCTION_SIZE \<and>
       (\<forall>x. p \<le> x \<longrightarrow> x < inst_end env p \<longrightarrow> page_of x \<in> set (Decoder.CodePages d1) \<and> DecodedMinAddress d1 \<le> x \<and> x < DecodedMaxAddress d1)"
    using ext(2) by blast
  obtain r where r: "r \<in> set rs" "hd r = a" using ok(2) by (cases rs) (auto simp: decoded_unit_def)
  have run: "is_run env r" using ok(2) r(1) by (simp add: decoded_unit_def)
  then have "hd r < inst_end env (last r)" by (rule is_run_extent)
  moreover have "DecodedMinAddress d1 \<le> hd r" "inst_end env (last r) \<le> DecodedMaxAddress d1" using ok(2) r(1) by (simp_all add: decoded_unit_def)
  ultimately show "DecodedMinAddress d1 < DecodedMaxAddress d1" by simp
qed

lemma word_bytes:
  fixes p :: u64
  assumes "p < p + 4" "i < 4"
  shows "p \<le> p + of_nat i" "p + of_nat i < p + 4"
proof -
  have e: "unat (p + 4) = unat p + 4" using unat_add_no_wrap [of p 4] assms(1) by simp
  have b: "unat (p + 4) < 2 ^ 64" using unsigned_less [of "p + 4"] by simp
  have "unat (of_nat i :: u64) = i" using assms(2) by (simp add: unsigned_of_nat take_bit_nat_eq_self)
  then have "unat (p + of_nat i) = unat p + i" using assms(2) e b by (subst unat_add_small) simp_all
  then show "p \<le> p + of_nat i" "p + of_nat i < p + 4" using assms(2) e by (simp_all add: word_le_nat_alt word_less_nat_alt)
qed

lemma mem_word_cong: "p < p + 4 \<Longrightarrow> (\<And>x. p \<le> x \<Longrightarrow> x < p + 4 \<Longrightarrow> m x = m' x) \<Longrightarrow> mem_word m p = mem_word m' p"
  unfolding mem_word_def using word_bytes by (intro arg_cong [where f = load_le] map_cong) simp_all

text \<open>What a unit depends on: its words and hashes, and the words that the scans of its dead exits read.\<close>

definition depends :: "'h decoder_env \<Rightarrow> 'h decoder \<Rightarrow> u64 \<Rightarrow> exit_function option list \<Rightarrow> bool list \<Rightarrow> u64 \<Rightarrow> bool" where
  "depends env d1 a exits marks x \<longleftrightarrow> (\<exists>b \<in> set (Blocks d1). \<exists>p \<in> set (block_pcs b). p \<le> x \<and> x < inst_end env p) \<or>
     (\<exists>k Op T W. k < length exits \<and> marks ! k \<and> exits ! k = Some Op \<and> exit_target a Op = Some T \<and>
        ScanWitnessed T False (peek_words env d1) Witness = (SCAN_DEAD, W) \<and> Low W \<le> x \<and> x < High W)"

text \<open>The bytes that a content hash reads, and that its window holds.\<close>

definition entry_digest :: "(u8 list \<Rightarrow> u64 \<Rightarrow> u64) \<Rightarrow> mem \<Rightarrow> block_entry \<Rightarrow> u64" where
  "entry_digest xxh m e = HashGuestBlock xxh m (EntryCodePages e) (GuestRangeStart e) (GuestRangeLength e)"

definition in_window :: "block_entry \<Rightarrow> u64 \<Rightarrow> bool" where
  "in_window e x \<longleftrightarrow> (\<exists>p \<in> set (EntryCodePages e). p \<le> x \<and> x < p + 4096 \<and> GuestRangeStart e \<le> x \<and> x < GuestRangeStart e + GuestRangeLength e)"

lemma depends_tracked:
  assumes "from_unit xxh m a e env (d1 :: 'h decoder) exits marks" "depends env d1 a exits marks x"
  obtains soft and d2 :: "'h decoder" and bb host where "e = unit_entry soft (HashGuestBlock xxh m) d2 bb host" "unat (DecodedMaxAddress d2) + 8192 \<le> 2 ^ 64"
    "page_of x \<in> set (Decoder.CodePages d2)" "DecodedMinAddress d2 \<le> x" "x < DecodedMaxAddress d2"
proof -
  obtain fuel M isb d2 soft bb host where u: "unit_decoded a env d1" "unat (DecodedMinAddress d1) + 8192 \<le> 2 ^ 64"
    "unat (DecodedMinAddress d1) div 4096 + 3 \<le> fuel" "Apply fuel env M False isb a exits d1 = Some (marks, d2)" "e = unit_entry soft (HashGuestBlock xxh m) d2 bb host"
    "unat (DecodedMaxAddress d2) + 8192 \<le> 2 ^ 64"
    using assms(1) unfolding from_unit_def by blast
  note f = decoded_facts [OF u(1)]
  note ap = peek_apply [OF f(3,4) u(2,3), of env M isb a exits, unfolded u(4)]
  have sub: "set (Decoder.CodePages d1) \<subseteq> set (Decoder.CodePages d2)" "DecodedMinAddress d2 \<le> DecodedMinAddress d1" "DecodedMaxAddress d1 \<le> DecodedMaxAddress d2"
    using ap by auto
  have dead: "page_of x \<in> set (Decoder.CodePages d2) \<and> DecodedMinAddress d2 \<le> x \<and> x < DecodedMaxAddress d2"
    if "k < length exits" "marks ! k" "exits ! k = Some Op" "exit_target a Op = Some T" "ScanWitnessed T False (peek_words env d1) Witness = (SCAN_DEAD, W)" "Low W \<le> x" "x < High W" for k Op T W
    using ap that by fastforce
  from assms(2) have "page_of x \<in> set (Decoder.CodePages d2) \<and> DecodedMinAddress d2 \<le> x \<and> x < DecodedMaxAddress d2"
    unfolding depends_def
  proof
    assume "\<exists>b \<in> set (Blocks d1). \<exists>p \<in> set (block_pcs b). p \<le> x \<and> x < inst_end env p"
    then have "page_of x \<in> set (Decoder.CodePages d1) \<and> DecodedMinAddress d1 \<le> x \<and> x < DecodedMaxAddress d1" using f(5) by blast
    then show ?thesis using sub by auto
  qed (use dead in blast)
  then show ?thesis using that u(5,6) by blast
qed

lemma depends_kills:
  assumes "from_unit xxh m a e env d1 exits marks" "depends env d1 a exits marks x" "covers ev x"
  shows "kills ev e"
  by (rule depends_tracked [OF assms(1,2)]) (use covers_kills assms(3) in blast)

text \<open>A content hash covers all that its unit depends on, and is the hash of the memory it was compiled from.\<close>

lemma depends_hashed:
  assumes "from_unit xxh m a e env (d1 :: 'h decoder) exits marks" "depends env d1 a exits marks x" "hashed e"
  shows "in_window e x" "GuestHash e = entry_digest xxh m e"
proof -
  obtain soft and d2 :: "'h decoder" and bb host where d2: "e = unit_entry soft (HashGuestBlock xxh m) d2 bb host" "unat (DecodedMaxAddress d2) + 8192 \<le> 2 ^ 64"
    "page_of x \<in> set (Decoder.CodePages d2)" "DecodedMinAddress d2 \<le> x" "x < DecodedMaxAddress d2"
    by (rule depends_tracked [OF assms(1,2)])
  have e: "EntryCodePages e = Decoder.CodePages d2" "GuestRangeStart e = DecodedMinAddress d2" "GuestRangeLength e = DecodedMaxAddress d2 - DecodedMinAddress d2"
    "GuestHash e = HashGuestBlock xxh m (Decoder.CodePages d2) (DecodedMinAddress d2) (DecodedMaxAddress d2 - DecodedMinAddress d2)"
    using assms(3) by (auto simp: d2(1) unit_entry_def compiled_entry_def hashed_def Let_def split: if_splits)
  then show "GuestHash e = entry_digest xxh m e" by (simp add: entry_digest_def)
  have p: "unat (page_of x) = unat x div 4096 * 4096" by (rule unat_page_of)
  have x: "unat x < unat (DecodedMaxAddress d2)" using d2(5) by (simp add: word_less_nat_alt)
  have "unat (page_of x + 4096) = unat x div 4096 * 4096 + 4096" using p x d2(2) unat_add_small [of "page_of x" 4096] by simp
  then have "page_of x \<le> x" "x < page_of x + 4096" using p by (simp_all add: word_le_nat_alt word_less_nat_alt)
  then show "in_window e x" unfolding in_window_def e using d2(3-5) by auto
qed

text \<open>The scan of a dead exit gives the same verdict on memory that is unchanged where it read.\<close>

lemma dead_exit_now:
  assumes "from_unit xxh m a e env d1 exits marks" "\<forall>x. depends env d1 a exits marks x \<longrightarrow> now x = m x"
    "k < length exits" "marks ! k" "exits ! k = Some Op" "exit_target a Op = Some T" "ScanWitnessed T False (peek_words env d1) Witness = (SCAN_DEAD, W)"
  shows "ScanWitnessed T False (peek_words (env\<lparr>GuestWord := mem_word now\<rparr>) d1) Witness = (SCAN_DEAD, W)"
proof (rule ScanWitnessed_frame)
  have u: "unit_decoded a env d1" "scans_low a (peek_words env d1) exits" "\<forall>p. p AND 3 = 0 \<longrightarrow> p < p + 4 \<longrightarrow> env_exec env p INSTRUCTION_SIZE \<longrightarrow> GuestWord env p = mem_word m p"
    using assms(1) unfolding from_unit_def by blast+
  have "Some Op \<in> set exits" using assms(3,5) nth_mem by metis
  then show "ScanWitnessed T False (low_words (peek_words env d1)) Witness = (SCAN_DEAD, W)" using u(2) assms(6,7) unfolding scans_low_def by blast
  show "below_top (low_words (peek_words env d1))" by (simp add: below_top_def low_words_def)
  let ?now = "env\<lparr>GuestWord := mem_word now\<rparr>"
  have ok: "env_ok env" "DecoderSpec.cache_ok env d1" using decoded_facts(1,2) [OF u(1)] by (simp_all add: decoder_ok_def)
  then have ok': "env_ok ?now" "DecoderSpec.cache_ok ?now d1" by (simp_all add: env_ok_def DecoderSpec.cache_ok_def)
  have ex: "env_exec ?now p n = env_exec env p n" for p n by (simp add: env_exec_def)
  show "agrees W (low_words (peek_words env d1)) (peek_words ?now d1)"
    unfolding agrees_def
  proof (intro allI impI)
    fix p assume p: "in_extent W p"
    then have np: "p < p + 4" "Low W \<le> p" "p + 4 \<le> High W" by (simp_all add: in_extent_def)
    have "depends env d1 a exits marks x" if x: "p \<le> x" "x < p + 4" for x
    proof -
      have "Low W \<le> x" "x < High W" using x np by (meson order_trans, meson order_less_le_trans)
      then show ?thesis unfolding depends_def using assms(3-7) by blast
    qed
    then have "mem_word now p = mem_word m p" using assms(2) by (intro mem_word_cong [OF np(1)]) blast
    then show "peek_words ?now d1 p = low_words (peek_words env d1) p"
      unfolding low_words_def using peek_words_eq [OF ok np(1)] peek_words_eq [OF ok' np(1)] ex u(3) np(1) by simp
  qed
qed

text \<open>
  The last registration of an entry and the memory of the moment: what a unit depends on was at the
  registration what it had been when the unit was compiled. For a relink this is what its hash check
  gives, when no two memories of the history collide on the window of the entry.
\<close>

definition no_collision :: "(u8 list \<Rightarrow> u64 \<Rightarrow> u64) \<Rightarrow> mem set \<Rightarrow> block_entry \<Rightarrow> bool" where
  "no_collision xxh ms e \<longleftrightarrow> (\<forall>m \<in> ms. \<forall>m' \<in> ms. entry_digest xxh m e = entry_digest xxh m' e \<longrightarrow> (\<forall>x. in_window e x \<longrightarrow> m x = m' x))"

lemma registration_memory:
  assumes "relinks_ok (map fst hist)" "hist = hn @ (ev, mr) # ho" "registers ev a e"
    and "\<forall>b f digest. ev = Relinked b f digest \<longrightarrow> digest = entry_digest xxh mr f"
    and "no_collision xxh (snd ` set hist) e"
  shows "\<exists>m. (Registered a e, m) \<in> set hist \<and>
    (\<forall>env (d1 :: 'h decoder) exits marks x. from_unit xxh m a e env d1 exits marks \<longrightarrow> depends env d1 a exits marks x \<longrightarrow> mr x = m x)"
proof (cases ev)
  case (Registered b f)
  then have "(Registered a e, mr) \<in> set hist" using assms(2,3) by simp
  then show ?thesis by blast
next
  case (Relinked b f digest)
  then have ev: "ev = Relinked a e digest" using assms(3) by simp
  have "relinks_ok (ev # map fst ho)" using assms(1) relinks_ok_append [of "map fst hn"] unfolding assms(2) by simp
  then have rel: "Registered a e \<in> fst ` set ho" "hashed e" "digest = GuestHash e" using ev by simp_all
  then obtain m where m: "(Registered a e, m) \<in> set ho" by fastforce
  have "mr x = m x" if u: "from_unit xxh m a e env d1 exits marks" "depends env d1 a exits marks x" for env and d1 :: "'h decoder" and exits marks x
  proof -
    note h = depends_hashed [OF u rel(2)]
    have "entry_digest xxh mr e = entry_digest xxh m e" using assms(4) ev rel(3) h(2) by simp
    moreover have "mr \<in> snd ` set hist" "m \<in> snd ` set hist" using m assms(2) by force+
    ultimately show ?thesis using assms(5) h(1) unfolding no_collision_def by blast
  qed
  moreover have "(Registered a e, m) \<in> set hist" using m assms(2) by simp
  ultimately show ?thesis by blast
qed (use assms(3) in simp_all)

text \<open>
  C1. The code that runs is a translation of the guest memory of the moment. Take any reachable state of
  buffers and threads and a history of events with the guest memory after each, such that each change of guest memory
  is reported by an invalidation of the changed bytes, every compiled entry comes from a unit decoded from
  the memory of its moment and peeked at its exits, and the last hash of every relink was taken of the memory of
  its moment, where no two memories of the history have the same content hash for an entry and differ in
  its hashed bytes. Then host code that a lookup of a non-zero address returns belongs to a unit decoded at that
  very address, at that compilation or, for a relinked entry, at an earlier one; every word
  of the unit, and every hash behind a thunk marker, is still what guest memory holds; and at every
  exit that drops the flags a scan of guest memory as it is now still finds them dead. Address 0 is left out
  as in \<open>CodeProtocol\<close>; units end below the last two pages of memory.
\<close>

theorem running_code_matches_memory:
  assumes "reach s (map fst hist)" "reported hist"
    "\<forall>(ev, m) \<in> set hist. \<forall>a e. ev = Registered a e \<longrightarrow>
       (\<exists>env (d1 :: 'h decoder) exits marks. from_unit xxh m a e env d1 exits marks) \<and> no_collision xxh (snd ` set hist) e"
    "\<forall>(ev, m) \<in> set hist. \<forall>a e digest. ev = Relinked a e digest \<longrightarrow> digest = entry_digest xxh m e"
    and "runs s t i g c" "a \<noteq> 0" "FindBlock hot cold now a g c = (h, c')" "h \<noteq> 0"
  shows "\<exists>e m env (d1 :: 'h decoder) exits marks. HostCode e = h \<and> (Registered a e, m) \<in> set hist \<and> from_unit xxh m a e env d1 exits marks \<and>
    (\<forall>b \<in> set (Blocks d1). \<forall>p \<in> set (block_pcs b). GuestWord env p = mem_word (snd (hd hist)) p \<and>
       (\<forall>x. p \<le> x \<longrightarrow> x < inst_end env p \<longrightarrow> m x = snd (hd hist) x)) \<and>
    (\<forall>k Op T W. k < length exits \<longrightarrow> marks ! k \<longrightarrow> exits ! k = Some Op \<longrightarrow> exit_target a Op = Some T \<longrightarrow>
       ScanWitnessed T False (peek_words env d1) Witness = (SCAN_DEAD, W) \<longrightarrow>
       ScanWitnessed T False (peek_words (env\<lparr>GuestWord := mem_word (snd (hd hist))\<rparr>) d1) Witness = (SCAN_DEAD, W))"
proof -
  let ?now = "snd (hd hist)"
  obtain newer ev older e where log: "map fst hist = newer @ ev # older" "registers ev a e" "HostCode e = h" "\<forall>ev \<in> set newer. \<not> kills ev e"
    "Registered a e \<in> set (map fst hist)"
    using lookup_current [OF assms(1,5-7)] assms(8) by blast
  obtain hn ho mr where hist: "hist = hn @ (ev, mr) # ho" "map fst hn = newer"
    using log(1) by (auto simp: map_eq_append_conv map_eq_Cons_conv)
  have coll: "no_collision xxh (snd ` set hist) e" using log(5) assms(3) by fastforce
  have digest: "\<forall>b f digest. ev = Relinked b f digest \<longrightarrow> digest = entry_digest xxh mr f"
    using assms(4) hist(1) by auto
  obtain m where m: "(Registered a e, m) \<in> set hist"
    "\<forall>env (d1 :: 'h decoder) exits marks x. from_unit xxh m a e env d1 exits marks \<longrightarrow> depends env d1 a exits marks x \<longrightarrow> mr x = m x"
    using registration_memory [OF conjunct1 [OF reach_provenance [OF assms(1)]] hist(1) log(2) digest coll] by blast
  then obtain env and d1 :: "'h decoder" and exits marks where u: "from_unit xxh m a e env d1 exits marks" using assms(3) by fastforce
  have same: "?now x = m x" if x: "depends env d1 a exits marks x" for x
  proof -
    have "\<forall>ev \<in> set hn. \<not> covers (fst ev) x" using depends_kills [OF u x] log(4) hist(2) by fastforce
    then show ?thesis using reported_unchanged [OF assms(2) hist(1)] m(2) u x by simp
  qed
  have dep: "depends env d1 a exits marks x" if "b \<in> set (Blocks d1)" "p \<in> set (block_pcs b)" "p \<le> x" "x < inst_end env p" for b p x
    using that unfolding depends_def by blast
  have "GuestWord env p = mem_word ?now p" if b: "b \<in> set (Blocks d1)" "p \<in> set (block_pcs b)" for b p
  proof -
    have "unit_decoded a env d1" using u unfolding from_unit_def by blast
    then have p: "unat p + 64 < 2 ^ 64" "p AND 3 = 0" "env_exec env p INSTRUCTION_SIZE" using decoded_facts(5) b by blast+
    have p4: "p < p + 4" using unat_add_small [of p 4] p(1) by (simp add: word_less_nat_alt)
    have "x < inst_end env p" if "x < p + 4" for x
    proof -
      have "p + 4 \<le> inst_end env p" using inst_end_unat(1) [OF p(1), of env] unat_add_small [of p 4] p(1) by (simp add: word_le_nat_alt)
      then show ?thesis using that by simp
    qed
    then have "mem_word ?now p = mem_word m p" using same dep b by (intro mem_word_cong [OF p4]) blast
    moreover have "GuestWord env p = mem_word m p" using u p(2,3) p4 unfolding from_unit_def by blast
    ultimately show ?thesis by simp
  qed
  moreover have "m x = ?now x" if "b \<in> set (Blocks d1)" "p \<in> set (block_pcs b)" "p \<le> x" "x < inst_end env p" for b p x using same [OF dep [OF that]] by simp
  moreover have "\<forall>x. depends env d1 a exits marks x \<longrightarrow> ?now x = m x" using same by blast
  note dead = dead_exit_now [OF u this]
  ultimately show ?thesis using log(3) u m(1) by (intro exI [of _ e] exI [of _ m] exI [of _ env] exI [of _ d1] exI [of _ exits] exI [of _ marks]) (use dead in blast)
qed

text \<open>
  A unit of one branch whose exit drops the flags, its relink after a write to its page, and a lookup. The
  branch at \<open>0x1000\<close> leads to \<open>add x0, x0, 1\<close> and \<open>cmp x0, x1\<close> at \<open>0x1010\<close>.
\<close>

definition flag_bytes :: "u8 list" where
  "flag_bytes = [0x04, 0, 0, 0x14, 0, 0, 0, 0, 0, 0, 0, 0, 0, 0, 0, 0, 0, 0x04, 0, 0x91, 0x1F, 0, 0x01, 0xEB]"

definition flag_mem :: mem where
  "flag_mem x = (if 0x1000 \<le> x \<and> x < 0x1018 then flag_bytes ! unat (x - 0x1000) else 0)"

definition written_mem :: mem where "written_mem = flag_mem(0x1800 := 1)"

definition flag_env :: "unit decoder_env" where "flag_env = demo_env\<lparr>GuestWord := mem_word flag_mem\<rparr>"

definition flag_decoded :: "unit decoder" where "flag_decoded = the (DecodeInstructionsAtEntry flag_env 0x1000 1 new_decoder)"

definition flag_entry :: block_entry where
  "flag_entry = compiled_entry True (HashGuestBlock demo_hash flag_mem) [0x1000] 0x1000 0x18 0x9000 0x9010"

definition flag_registered :: "u64 list \<times> guest_map \<times> lookup_cache" where
  "flag_registered = CompileBlock_register True (HashGuestBlock demo_hash flag_mem) (\<lambda>_. True) True [0x1000] [0x1000] 0x1000 0x18 0x9000
     [(0x1000, 0x9010)] (GuestToHostMap True (\<lambda>_. True), new_lookup_cache False False)"

definition flag_soft :: guest_map where "flag_soft = SoftInvalidateRange 0x1800 8 (fst (snd flag_registered))"

definition flag_relink :: "u64 \<times> u64 list \<times> (u64 \<times> u64) list \<times> guest_map \<times> lookup_cache" where
  "flag_relink = TryRelinkSoftInvalidatedBlock demo_hash (\<lambda>_. False) (\<lambda>_. True) written_mem written_mem 0x1000
     (flag_soft, snd (InvalidateCacheRange 0x1800 8 (snd (snd flag_registered))))"

lemma flag_decodes:
  "map_option (\<lambda>d. (DecodedMinAddress d, map block_pcs (Blocks d))) (DecodeInstructionsAtEntry flag_env 0x1000 1 new_decoder) = Some (0x1000, [[0x1000]])"
  by code_simp

lemma flag_applied:
  "map_option (\<lambda>(marks, d). (marks, Decoder.CodePages d, DecodedMinAddress d, DecodedMaxAddress d)) (Apply 5 flag_env ModeOn False [] 0x1000 flag_exits flag_decoded) =
     Some ([True, False, False], [0x1000], 0x1000, 0x1018)"
  by code_simp

lemma flag_scanned:
  "ScanWitnessed 0x1010 False (low_words (peek_words flag_env flag_decoded)) Witness = ScanWitnessed 0x1010 False (peek_words flag_env flag_decoded) Witness"
  by code_simp

lemma flag_relinked: "fst flag_relink = 0x9010 \<and> fst (snd (snd flag_relink)) = [] \<and> RetainedBlocks flag_soft 0x1000 = Some flag_entry \<and>
    fst (FindBlock (\<lambda>_ _. False) (\<lambda>_ _. False) 0 0x1000 (fst (snd (snd (snd flag_relink)))) (snd (snd (snd (snd flag_relink))))) = 0x9010"
  by code_simp

lemma flag_env_hyps: "env_ok flag_env" "decoder_ok flag_env new_decoder" "unit_fits flag_env 0x1000" "env_exec flag_env 0x1000 INSTRUCTION_SIZE"
  using demo_hyps demo_env_exec by (simp_all add: flag_env_def env_ok_def decoder_ok_def DecoderSpec.cache_ok_def unit_fits_def env_exec_def)

lemma flag_from_unit: "from_unit demo_hash flag_mem 0x1000 flag_entry flag_env flag_decoded flag_exits [True, False, False]"
proof -
  have d: "DecodeInstructionsAtEntry flag_env 0x1000 1 new_decoder = Some flag_decoded" "DecodedMinAddress flag_decoded = 0x1000"
    using flag_decodes by (auto simp: flag_decoded_def)
  obtain d2 where d2: "Apply 5 flag_env ModeOn False [] 0x1000 flag_exits flag_decoded = Some ([True, False, False], d2)"
    "Decoder.CodePages d2 = [0x1000]" "DecodedMinAddress d2 = 0x1000" "DecodedMaxAddress d2 = 0x1018" using flag_applied by auto
  have e: "flag_entry = unit_entry True (HashGuestBlock demo_hash flag_mem) d2 0x9000 0x9010" using d2(2-4) by (simp add: unit_entry_def flag_entry_def)
  have "unit_decoded 0x1000 flag_env flag_decoded" unfolding unit_decoded_def using flag_env_hyps demo_ok(2) d(1)
    by (intro exI [of _ new_decoder] exI [of _ 1]) simp
  moreover have "scans_low 0x1000 (peek_words flag_env flag_decoded) flag_exits"
    unfolding scans_low_def using flag_scanned by (auto simp: flag_exits_def exit_target_def)
  moreover have "GuestWord flag_env p = mem_word flag_mem p" for p by (simp add: flag_env_def)
  ultimately show ?thesis unfolding from_unit_def using d(2) d2(1,4) e
    by (intro conjI exI [of _ 5] exI [of _ ModeOn] exI [of _ "[]"] exI [of _ d2] exI [of _ True] exI [of _ "0x9000"] exI [of _ "0x9010"]) simp_all
qed

abbreviation flag_hist :: "(code_event \<times> mem) list" where
  "flag_hist \<equiv> [(relinked_event demo_hash written_mem 0x1000 flag_entry, written_mem), (Invalidated 0x1800 8, written_mem), (Registered 0x1000 flag_entry, flag_mem)]"

lemma flag_reach: "\<exists>s g c c'. reach s (map fst flag_hist) \<and> runs s 0 0 g c \<and> FindBlock (\<lambda>_ _. False) (\<lambda>_ _. False) 0 0x1000 g c = (0x9010, c')"
proof -
  obtain new g c where u: "flag_registered = (new, g, c)" by (cases flag_registered)
  have s: "reach (thread_step 0 0 g c demo_start) [Registered 0x1000 flag_entry]" unfolding flag_entry_def
    by (rule start_compile [OF _ _ u [unfolded flag_registered_def]]) (simp_all add: take_bit_eq_mod)
  obtain new' g' c' where r: "flag_relink = (0x9010, new', [], g', c')" using flag_relinked by (metis prod.collapse)
  have "RetainedBlocks (SoftInvalidateRange 0x1800 8 g) 0x1000 = Some flag_entry"
    using flag_relinked unfolding flag_soft_def u fst_conv snd_conv by blast
  from soft_then_relink [OF s thread_step_runs [OF start_runs] _ _ this, of "\<lambda>_. True" "0x9010" demo_hash "\<lambda>_. False" written_mem written_mem new' g' c']
  have "\<exists>s'. reach s' (map fst flag_hist) \<and> runs s' 0 0 g' c'" using r [unfolded flag_relink_def flag_soft_def u fst_conv snd_conv] by simp
  moreover have "fst (FindBlock (\<lambda>_ _. False) (\<lambda>_ _. False) 0 0x1000 g' c') = 0x9010" using flag_relinked unfolding r fst_conv snd_conv by blast
  ultimately show ?thesis by (metis prod.collapse)
qed

lemma flag_no_collision: "no_collision demo_hash {flag_mem, written_mem} flag_entry"
proof -
  have "flag_mem x = written_mem x" if "in_window flag_entry x" for x
    using that by (auto simp: in_window_def flag_entry_def compiled_entry_def IsHashableBlock_def written_mem_def)
  then show ?thesis unfolding no_collision_def by auto
qed

theorem running_code_matches_memory_witness:
  "\<exists>e env (d1 :: unit decoder) exits marks. HostCode e = 0x9010 \<and> ExtentLength e = 0x18 \<and> from_unit demo_hash flag_mem 0x1000 e env d1 exits marks \<and>
    (\<forall>b \<in> set (Blocks d1). \<forall>p \<in> set (block_pcs b). GuestWord env p = mem_word written_mem p)"
proof -
  obtain s g c c' where s: "reach s (map fst flag_hist)" "runs s 0 0 g c" "FindBlock (\<lambda>_ _. False) (\<lambda>_ _. False) 0 0x1000 g c = (0x9010, c')"
    using flag_reach by blast
  have rep: "reported flag_hist" by (auto simp: relinked_event_def written_mem_def)
  have comp: "\<forall>(ev, m) \<in> set flag_hist. \<forall>a e. ev = Registered a e \<longrightarrow>
       (\<exists>env (d1 :: unit decoder) exits marks. from_unit demo_hash m a e env d1 exits marks) \<and> no_collision demo_hash (snd ` set flag_hist) e"
    using flag_from_unit flag_no_collision by (auto simp: relinked_event_def insert_commute)
  have rel: "\<forall>(ev, m) \<in> set flag_hist. \<forall>a e digest. ev = Relinked a e digest \<longrightarrow> digest = entry_digest demo_hash m e"
    by (auto simp: relinked_event_def entry_digest_def)
  obtain e m env and d1 :: "unit decoder" and exits marks where e: "HostCode e = 0x9010" "(Registered 0x1000 e, m) \<in> set flag_hist"
    "from_unit demo_hash m 0x1000 e env d1 exits marks" "\<forall>b \<in> set (Blocks d1). \<forall>p \<in> set (block_pcs b). GuestWord env p = mem_word (snd (hd flag_hist)) p"
    using running_code_matches_memory [OF s(1) rep comp rel s(2) _ s(3)] by fastforce
  have m: "m = flag_mem" "e = flag_entry" using e(2) by (auto simp: relinked_event_def)
  then have "ExtentLength e = 0x18" by (simp add: flag_entry_def)
  then show ?thesis using e(1,3,4) unfolding m(1) by (intro exI [of _ e] exI [of _ env] exI [of _ d1] exI [of _ exits] exI [of _ marks]) simp
qed

end
