(* ===== verification/FlagOps.thy ===== *)
theory FlagOps
  imports Prelude
begin

text \<open>
  Which flags an IR operation reads and writes:
  \<open>IR/Passes/RedundantFlagCalculationElimination.cpp\<close>, the part above the pass. The opcodes are those
  the flag passes tell apart; \<open>OP_OTHER\<close> stands for the rest of \<open>IR.json\<close>. An operation is the record of
  the fields that the passes read; a field that an opcode does not have is ignored. Node 0 is the
  invalid node.

  All flag masks fit into eight bits: the constants use four, \<open>RmifNZCV\<close> has an eight-bit mask, and
  the packed form keeps eight.
\<close>

section \<open>Operations\<close>

datatype irops =
    OP_DUMMY
  | OP_ANDWITHFLAGS | OP_ADDWITHFLAGS | OP_SUBWITHFLAGS | OP_ADCWITHFLAGS | OP_ADCZEROWITHFLAGS | OP_SBBWITHFLAGS
  | OP_SHIFTFLAGS | OP_ROTATEFLAGS | OP_RDRAND
  | OP_ADDNZCV | OP_SUBNZCV | OP_TESTNZ | OP_TESTZ | OP_FCMP | OP_STORENZCV
  | OP_AXFLAG | OP_FCMPX86 | OP_CMPPAIRZ | OP_CARRYINVERT | OP_SETSMALLNZV | OP_LOADNZCV
  | OP_ADC | OP_ADCZERO | OP_SBB | OP_ADCNZCV | OP_SBBNZCV
  | OP_NZCVSELECT | OP_NZCVSELECTV | OP_NZCVSELECTINCREMENT | OP_NEG | OP_CONDJUMP
  | OP_CONDSUBNZCV | OP_CONDADDNZCV | OP_RMIFNZCV | OP_INVALIDATEFLAGS
  | OP_AND | OP_ADD | OP_SUB | OP_ASHR | OP_SBFE
  | OP_JUMP | OP_EXITFUNCTION | OP_BREAK
  | OP_CONSTANT | OP_INLINECONSTANT | OP_INLINEENTRYPOINTOFFSET | OP_STOREREGISTER | OP_STORECONTEXT | OP_GUESTOPCODE
  | OP_LOADMEM | OP_LOADMEMTSO | OP_LOADMEMREV | OP_VLOADVECTORMASKED | OP_VLOADVECTORGATHERMASKED | OP_VLOADVECTORGATHERMASKEDQPS
  | OP_VLOADVECTORELEMENT | OP_VBROADCASTFROMMEM | OP_VLOADTWOGPRS
  | OP_SELECT | OP_CHAINCOMPARE
  | OP_OTHER nat

datatype CondClass =
    Cond_EQ | Cond_NEQ | Cond_UGE | Cond_ULT | Cond_MI | Cond_PL | Cond_VS | Cond_VC | Cond_UGT | Cond_ULE
  | Cond_SGE | Cond_SLT | Cond_SGT | Cond_SLE | Cond_TSTZ | Cond_TSTNZ
  | Cond_FLU | Cond_FGE | Cond_FLEU | Cond_FGT | Cond_FU | Cond_FNU | Cond_AL

record ir_op =
  NodeID :: nat
  Op :: irops
  OpSize :: nat
  Args :: "nat list"
  Cond :: CondClass
  FromNZCV :: bool
  FromChainCR :: bool
  CompareSize :: nat
  VCmpElementSize :: nat
  TrueBlock :: nat
  FalseBlock :: nat
  TargetBlock :: nat
  NZCVDeadAtTarget :: bool
  RmifMask :: u8
  FalseNZCV :: u8
  InvFlags :: u64
  Constant :: u64
  CarryDead :: bool
  NZCVDead :: bool

section \<open>Flag sets\<close>

abbreviation FLAG_V :: u8 where "FLAG_V \<equiv> 1"
abbreviation FLAG_C :: u8 where "FLAG_C \<equiv> 2"
abbreviation FLAG_Z :: u8 where "FLAG_Z \<equiv> 4"
abbreviation FLAG_N :: u8 where "FLAG_N \<equiv> 8"
abbreviation FLAG_ZCV :: u8 where "FLAG_ZCV \<equiv> 7"
abbreviation FLAG_NZCV :: u8 where "FLAG_NZCV \<equiv> 15"
abbreviation FLAG_ALL :: u8 where "FLAG_ALL \<equiv> 15"

fun FlagsForCondClassType :: "CondClass \<Rightarrow> u8" where
  "FlagsForCondClassType Cond_AL = 0"
| "FlagsForCondClassType Cond_MI = FLAG_N"
| "FlagsForCondClassType Cond_PL = FLAG_N"
| "FlagsForCondClassType Cond_EQ = FLAG_Z"
| "FlagsForCondClassType Cond_NEQ = FLAG_Z"
| "FlagsForCondClassType Cond_UGE = FLAG_C"
| "FlagsForCondClassType Cond_ULT = FLAG_C"
| "FlagsForCondClassType Cond_VS = FLAG_V"
| "FlagsForCondClassType Cond_VC = FLAG_V"
| "FlagsForCondClassType Cond_FU = FLAG_V"
| "FlagsForCondClassType Cond_FNU = FLAG_V"
| "FlagsForCondClassType Cond_UGT = FLAG_Z OR FLAG_C"
| "FlagsForCondClassType Cond_ULE = FLAG_Z OR FLAG_C"
| "FlagsForCondClassType Cond_SGE = FLAG_N OR FLAG_V"
| "FlagsForCondClassType Cond_SLT = FLAG_N OR FLAG_V"
| "FlagsForCondClassType Cond_FLU = FLAG_N OR FLAG_V"
| "FlagsForCondClassType Cond_FGE = FLAG_N OR FLAG_V"
| "FlagsForCondClassType Cond_SGT = FLAG_N OR FLAG_Z OR FLAG_V"
| "FlagsForCondClassType Cond_SLE = FLAG_N OR FLAG_Z OR FLAG_V"
| "FlagsForCondClassType Cond_FLEU = FLAG_N OR FLAG_Z OR FLAG_V"
| "FlagsForCondClassType Cond_FGT = FLAG_N OR FLAG_Z OR FLAG_V"
| "FlagsForCondClassType _ = FLAG_NZCV"

section \<open>Classification\<close>

record FlagInfoUnpacked =
  Read :: u8
  Write :: u8
  CanEliminate :: bool
  Replacement :: irops
  ReplacementNoWrite :: irops
  Special :: bool

abbreviation no_info :: FlagInfoUnpacked where
  "no_info \<equiv> \<lparr>Read = 0, Write = 0, CanEliminate = False, Replacement = OP_DUMMY, ReplacementNoWrite = OP_DUMMY, Special = False\<rparr>"

text \<open>\<open>Trivial()\<close>: nothing is packed.\<close>

definition Trivial :: "FlagInfoUnpacked \<Rightarrow> bool" where
  "Trivial i \<longleftrightarrow> Read i = 0 \<and> Write i = 0 \<and> \<not> CanEliminate i \<and> Replacement i = OP_DUMMY \<and> ReplacementNoWrite i = OP_DUMMY \<and> \<not> Special i"

fun ClassifyConst :: "irops \<Rightarrow> FlagInfoUnpacked" where
  "ClassifyConst OP_ANDWITHFLAGS = no_info\<lparr>Write := FLAG_NZCV, Replacement := OP_AND, ReplacementNoWrite := OP_TESTNZ\<rparr>"
| "ClassifyConst OP_ADDWITHFLAGS = no_info\<lparr>Write := FLAG_NZCV, Replacement := OP_ADD, ReplacementNoWrite := OP_ADDNZCV\<rparr>"
| "ClassifyConst OP_SUBWITHFLAGS = no_info\<lparr>Write := FLAG_NZCV, Replacement := OP_SUB, ReplacementNoWrite := OP_SUBNZCV\<rparr>"
| "ClassifyConst OP_ADCWITHFLAGS = no_info\<lparr>Read := FLAG_C, Write := FLAG_NZCV, Replacement := OP_ADC, ReplacementNoWrite := OP_ADCNZCV\<rparr>"
| "ClassifyConst OP_ADCZEROWITHFLAGS = no_info\<lparr>Read := FLAG_C, Write := FLAG_NZCV, Replacement := OP_ADCZERO\<rparr>"
| "ClassifyConst OP_SBBWITHFLAGS = no_info\<lparr>Read := FLAG_C, Write := FLAG_NZCV, Replacement := OP_SBB, ReplacementNoWrite := OP_SBBNZCV\<rparr>"
| "ClassifyConst OP_SHIFTFLAGS = no_info\<lparr>Read := FLAG_NZCV, Write := FLAG_NZCV, CanEliminate := True\<rparr>"
| "ClassifyConst OP_ROTATEFLAGS = no_info\<lparr>Read := FLAG_C OR FLAG_V, Write := FLAG_C OR FLAG_V, CanEliminate := True\<rparr>"
| "ClassifyConst OP_RDRAND = no_info\<lparr>Write := FLAG_NZCV\<rparr>"
| "ClassifyConst OP_ADDNZCV = no_info\<lparr>Write := FLAG_NZCV, CanEliminate := True\<rparr>"
| "ClassifyConst OP_SUBNZCV = no_info\<lparr>Write := FLAG_NZCV, CanEliminate := True\<rparr>"
| "ClassifyConst OP_TESTNZ = no_info\<lparr>Write := FLAG_NZCV, CanEliminate := True\<rparr>"
| "ClassifyConst OP_FCMP = no_info\<lparr>Write := FLAG_NZCV, CanEliminate := True\<rparr>"
| "ClassifyConst OP_STORENZCV = no_info\<lparr>Write := FLAG_NZCV, CanEliminate := True\<rparr>"
| "ClassifyConst OP_AXFLAG = no_info\<lparr>Read := FLAG_ZCV, Write := FLAG_NZCV, CanEliminate := True\<rparr>"
| "ClassifyConst OP_FCMPX86 = no_info\<lparr>Write := FLAG_NZCV, CanEliminate := False\<rparr>"
| "ClassifyConst OP_CMPPAIRZ = no_info\<lparr>Write := FLAG_Z, CanEliminate := True\<rparr>"
| "ClassifyConst OP_CARRYINVERT = no_info\<lparr>Read := FLAG_C, Write := FLAG_C, CanEliminate := True\<rparr>"
| "ClassifyConst OP_SETSMALLNZV = no_info\<lparr>Write := FLAG_N OR FLAG_Z OR FLAG_V, CanEliminate := True\<rparr>"
| "ClassifyConst OP_LOADNZCV = no_info\<lparr>Read := FLAG_NZCV\<rparr>"
| "ClassifyConst OP_ADC = no_info\<lparr>Read := FLAG_C\<rparr>"
| "ClassifyConst OP_ADCZERO = no_info\<lparr>Read := FLAG_C\<rparr>"
| "ClassifyConst OP_SBB = no_info\<lparr>Read := FLAG_C\<rparr>"
| "ClassifyConst OP_ADCNZCV = no_info\<lparr>Read := FLAG_C, Write := FLAG_NZCV, CanEliminate := True\<rparr>"
| "ClassifyConst OP_SBBNZCV = no_info\<lparr>Read := FLAG_C, Write := FLAG_NZCV, CanEliminate := True\<rparr>"
| "ClassifyConst OP_NZCVSELECT = no_info\<lparr>Special := True\<rparr>"
| "ClassifyConst OP_NZCVSELECTV = no_info\<lparr>Special := True\<rparr>"
| "ClassifyConst OP_NZCVSELECTINCREMENT = no_info\<lparr>Special := True\<rparr>"
| "ClassifyConst OP_NEG = no_info\<lparr>Special := True\<rparr>"
| "ClassifyConst OP_CONDJUMP = no_info\<lparr>Special := True\<rparr>"
| "ClassifyConst OP_CONDSUBNZCV = no_info\<lparr>Special := True\<rparr>"
| "ClassifyConst OP_CONDADDNZCV = no_info\<lparr>Special := True\<rparr>"
| "ClassifyConst OP_RMIFNZCV = no_info\<lparr>Special := True\<rparr>"
| "ClassifyConst OP_INVALIDATEFLAGS = no_info\<lparr>Special := True\<rparr>"
| "ClassifyConst _ = no_info"

text \<open>The flags named by the PSTATE positions 31 to 28 of \<open>InvalidateFlags\<close>.\<close>

definition invalidated :: "u64 \<Rightarrow> u8" where
  "invalidated F =
     (if F AND 0x80000000 \<noteq> 0 then FLAG_N else 0) OR (if F AND 0x40000000 \<noteq> 0 then FLAG_Z else 0)
     OR (if F AND 0x20000000 \<noteq> 0 then FLAG_C else 0) OR (if F AND 0x10000000 \<noteq> 0 then FLAG_V else 0)"

definition Classify :: "ir_op \<Rightarrow> FlagInfoUnpacked" where
  "Classify n =
     (if \<not> Special (ClassifyConst (Op n)) then ClassifyConst (Op n)
      else if Op n = OP_CONDJUMP then
        if FromNZCV n then no_info\<lparr>Read := FlagsForCondClassType (Cond n)\<rparr> else no_info
      else if Op n = OP_CONDSUBNZCV \<or> Op n = OP_CONDADDNZCV then
        no_info\<lparr>Read := FlagsForCondClassType (Cond n), Write := FLAG_NZCV, CanEliminate := True\<rparr>
      else if Op n = OP_RMIFNZCV then no_info\<lparr>Write := RmifMask n, CanEliminate := True\<rparr>
      else if Op n = OP_INVALIDATEFLAGS then no_info\<lparr>Write := invalidated (InvFlags n), CanEliminate := True\<rparr>
      else no_info\<lparr>Read := FlagsForCondClassType (Cond n)\<rparr>)"

definition IROpWritesNZCV :: "ir_op \<Rightarrow> bool" where
  "IROpWritesNZCV n \<longleftrightarrow> Write (Classify n) AND FLAG_NZCV \<noteq> 0"

definition IROpWritesAllNZCV :: "ir_op \<Rightarrow> bool" where
  "IROpWritesAllNZCV n \<longleftrightarrow> Write (Classify n) AND FLAG_NZCV = FLAG_NZCV"

definition IROpReadsNZCV :: "ir_op \<Rightarrow> bool" where
  "IROpReadsNZCV n \<longleftrightarrow> Read (Classify n) AND FLAG_NZCV \<noteq> 0"

text \<open>The opcodes that make the emitter mark their block, \<open>IREmitter::IsFlagOp\<close>.\<close>

definition IsFlagOp :: "irops \<Rightarrow> bool" where
  "IsFlagOp op \<longleftrightarrow> op \<in> {OP_ANDWITHFLAGS, OP_ADDWITHFLAGS, OP_SUBWITHFLAGS, OP_ADCWITHFLAGS, OP_ADCZEROWITHFLAGS, OP_SBBWITHFLAGS,
     OP_SHIFTFLAGS, OP_ROTATEFLAGS, OP_RDRAND, OP_ADDNZCV, OP_SUBNZCV, OP_TESTNZ, OP_FCMP, OP_STORENZCV, OP_AXFLAG, OP_FCMPX86,
     OP_CMPPAIRZ, OP_CARRYINVERT, OP_SETSMALLNZV, OP_LOADNZCV, OP_ADC, OP_ADCZERO, OP_SBB, OP_ADCNZCV, OP_SBBNZCV,
     OP_NZCVSELECT, OP_NZCVSELECTV, OP_NZCVSELECTINCREMENT, OP_NEG, OP_CONDJUMP, OP_CONDSUBNZCV, OP_CONDADDNZCV, OP_RMIFNZCV,
     OP_INVALIDATEFLAGS}"

section \<open>The packed form\<close>

text \<open>
  The numbers of the opcodes come from the generated enumeration and are the parameter \<open>num\<close>.
\<close>

definition FlagInfo_Pack :: "(irops \<Rightarrow> u64) \<Rightarrow> FlagInfoUnpacked \<Rightarrow> u64" where
  "FlagInfo_Pack num F =
     ucast (Read F) OR push_bit 8 (ucast (Write F)) OR push_bit 16 (if CanEliminate F then 1 else 0)
     OR push_bit 32 (num (Replacement F)) OR push_bit 48 (num (ReplacementNoWrite F)) OR (if Special F then push_bit 63 1 else 0)"

definition FlagInfo_Bits :: "u64 \<Rightarrow> nat \<Rightarrow> nat \<Rightarrow> u32" where
  "FlagInfo_Bits Raw Start Count = ucast (drop_bit Start Raw AND ucast (push_bit Count (1 :: u32) - 1))"

definition packed_Trivial :: "u64 \<Rightarrow> bool" where "packed_Trivial Raw \<longleftrightarrow> Raw = 0"
definition packed_Read :: "u64 \<Rightarrow> u32" where "packed_Read Raw = FlagInfo_Bits Raw 0 8"
definition packed_Write :: "u64 \<Rightarrow> u32" where "packed_Write Raw = FlagInfo_Bits Raw 8 8"
definition packed_CanEliminate :: "u64 \<Rightarrow> bool" where "packed_CanEliminate Raw \<longleftrightarrow> FlagInfo_Bits Raw 16 1 \<noteq> 0"
definition packed_Special :: "u64 \<Rightarrow> bool" where "packed_Special Raw \<longleftrightarrow> FlagInfo_Bits Raw 63 1 \<noteq> 0"
definition packed_Replacement :: "u64 \<Rightarrow> u32" where "packed_Replacement Raw = FlagInfo_Bits Raw 32 16"
definition packed_ReplacementNoWrite :: "u64 \<Rightarrow> u32" where "packed_ReplacementNoWrite Raw = FlagInfo_Bits Raw 48 16"


section \<open>The table\<close>

lemma cond_flags_low: "FlagsForCondClassType c AND FLAG_ALL = FlagsForCondClassType c"
  by (cases c) simp_all

lemma classify_read_low: "Read (Classify n) AND FLAG_ALL = Read (Classify n)"
  by (cases "Op n") (simp_all add: Classify_def cond_flags_low)

lemma classify_special [simp]: "\<not> Special (Classify n)"
  by (simp add: Classify_def)

text \<open>A block without the mark of the emitter holds no operation that matters.\<close>

lemma classify_unmarked: "\<not> IsFlagOp (Op n) \<Longrightarrow> Classify n = no_info"
  by (cases "Op n") (simp_all add: Classify_def IsFlagOp_def)

text \<open>The form without flags keeps the reads and drops the writes; the form without a value keeps both.\<close>

lemma classify_replacement:
  "Replacement (Classify n) \<noteq> OP_DUMMY \<Longrightarrow>
     Read (Classify (n\<lparr>Op := Replacement (Classify n)\<rparr>)) = Read (Classify n) \<and> Write (Classify (n\<lparr>Op := Replacement (Classify n)\<rparr>)) = 0
     \<and> Replacement (Classify n) \<noteq> OP_TESTZ \<and> Op n \<noteq> OP_TESTZ"
  by (cases "Op n") (simp_all add: Classify_def split: if_splits)

lemma classify_nowrite:
  "ReplacementNoWrite (Classify n) \<noteq> OP_DUMMY \<Longrightarrow>
     Read (Classify (n\<lparr>Op := ReplacementNoWrite (Classify n)\<rparr>)) = Read (Classify n)
     \<and> Write (Classify (n\<lparr>Op := ReplacementNoWrite (Classify n)\<rparr>)) = Write (Classify n)
     \<and> ReplacementNoWrite (Classify n) \<noteq> OP_TESTZ \<and> Op n \<noteq> OP_TESTZ"
  by (cases "Op n") (simp_all add: Classify_def split: if_splits)

lemma classify_testz: "Op n = OP_TESTZ \<Longrightarrow> Classify n = no_info"
  by (simp add: Classify_def)


section \<open>The packed form is exact\<close>

lemma bit_of_small:
  fixes w :: u64
  assumes "w < 2 ^ 15" and "bit w i"
  shows "i < 15"
proof (rule ccontr)
  assume k: "\<not> i < 15"
  have "unat w < 2 ^ 15" using assms(1) by (simp add: word_less_nat_alt)
  then have "take_bit 15 (unat w) = unat w" by (rule take_bit_nat_eq_self)
  then have "\<not> bit (unat w) i" using k by (metis bit_take_bit_iff)
  with assms(2) show False by (auto simp: bit_unsigned_iff dest: bit_imp_le_length)
qed

lemma FlagInfo_Bits_mask:
  assumes "Count < 32"
  shows "bit (FlagInfo_Bits Raw Start Count) i \<longleftrightarrow> i < Count \<and> bit Raw (Start + i)"
proof -
  have m: "(push_bit Count (1 :: u32) - 1) = mask Count" by (simp add: mask_eq_exp_minus_1 push_bit_eq_mult)
  show ?thesis using assms unfolding FlagInfo_Bits_def m
    by (auto simp: bit_simps dest: bit_imp_le_length)
qed

definition numbering :: "(irops \<Rightarrow> u64) \<Rightarrow> bool" where
  "numbering num \<longleftrightarrow> num OP_DUMMY = 0 \<and> (\<forall>op. op \<noteq> OP_DUMMY \<longrightarrow> num op \<noteq> 0) \<and> (\<forall>op. num op < 2 ^ 15)"

lemma bit_pack:
  assumes "numbering num"
  shows "bit (FlagInfo_Pack num F) i \<longleftrightarrow>
    (i < 8 \<and> bit (Read F) i) \<or> (8 \<le> i \<and> i < 16 \<and> bit (Write F) (i - 8)) \<or> (i = 16 \<and> CanEliminate F)
    \<or> (32 \<le> i \<and> i < 47 \<and> bit (num (Replacement F)) (i - 32)) \<or> (48 \<le> i \<and> i < 63 \<and> bit (num (ReplacementNoWrite F)) (i - 48))
    \<or> (i = 63 \<and> Special F)"
proof -
  have n: "j < 15" if "bit (num op) j" for op j
    using assms that by (auto simp: numbering_def intro: bit_of_small [of "num op"])
  have c: "bit (ucast w :: u64) j \<longleftrightarrow> j < 8 \<and> bit w j" for w :: u8 and j
    by (auto simp: bit_simps dest: bit_imp_le_length)
  have w: "bit (push_bit 8 (ucast (Write F)) :: u64) i \<longleftrightarrow> 8 \<le> i \<and> i < 16 \<and> bit (Write F) (i - 8)"
    by (auto simp: bit_push_bit_iff c)
  have e: "bit (push_bit 16 (if CanEliminate F then 1 else 0) :: u64) i \<longleftrightarrow> i = 16 \<and> CanEliminate F"
    by (auto simp: bit_push_bit_iff bit_1_iff)
  have p: "bit (push_bit k (num op)) i \<longleftrightarrow> k \<le> i \<and> i < k + 15 \<and> bit (num op) (i - k)" if "k + 15 \<le> 64" for k op
    using n [of op "i - k"] that by (auto simp: bit_push_bit_iff)
  have s: "bit (if Special F then push_bit 63 1 else 0 :: u64) i \<longleftrightarrow> i = 63 \<and> Special F"
    using bit_push_bit_iff [of 63 "1 :: u64" i] by (auto simp: bit_1_iff)
  show ?thesis unfolding FlagInfo_Pack_def bit_or_iff c w e s using p [of 32] p [of 48] by simp
qed

lemma packed_accessors:
  assumes "numbering num"
  shows "packed_Read (FlagInfo_Pack num F) = ucast (Read F)" "packed_Write (FlagInfo_Pack num F) = ucast (Write F)"
    "packed_CanEliminate (FlagInfo_Pack num F) = CanEliminate F" "packed_Special (FlagInfo_Pack num F) = Special F"
    "packed_Replacement (FlagInfo_Pack num F) = ucast (num (Replacement F))"
proof -
  note b = bit_pack [OF assms] FlagInfo_Bits_mask
  have n: "j < 15" if "bit (num op) j" for op j
    using assms that by (auto simp: numbering_def intro: bit_of_small [of "num op"])
  show "packed_Read (FlagInfo_Pack num F) = ucast (Read F)" unfolding packed_Read_def
    by (rule bit_word_eqI) (auto simp: b bit_simps dest: bit_imp_le_length)
  show "packed_Write (FlagInfo_Pack num F) = ucast (Write F)" unfolding packed_Write_def
    by (rule bit_word_eqI) (auto simp: b bit_simps dest: bit_imp_le_length)
  have z: "FlagInfo_Bits R k 1 \<noteq> 0 \<longleftrightarrow> bit R k" for R k
  proof
    assume "FlagInfo_Bits R k 1 \<noteq> 0"
    then obtain i where "bit (FlagInfo_Bits R k 1) i" using bit_eqI [of "FlagInfo_Bits R k 1" 0] by auto
    then show "bit R k" by (auto simp: FlagInfo_Bits_mask)
  next
    assume "bit R k"
    then have "bit (FlagInfo_Bits R k 1) 0" by (simp add: FlagInfo_Bits_mask)
    then show "FlagInfo_Bits R k 1 \<noteq> 0" by auto
  qed
  show "packed_CanEliminate (FlagInfo_Pack num F) = CanEliminate F" "packed_Special (FlagInfo_Pack num F) = Special F"
    unfolding packed_CanEliminate_def packed_Special_def z by (simp_all add: b)
  show "packed_Replacement (FlagInfo_Pack num F) = ucast (num (Replacement F))" unfolding packed_Replacement_def
    by (rule bit_word_eqI) (auto simp: b bit_simps dest: n)
qed

lemma packed_nowrite:
  assumes "numbering num" and "\<not> Special F"
  shows "packed_ReplacementNoWrite (FlagInfo_Pack num F) = ucast (num (ReplacementNoWrite F))"
proof -
  have n: "j < 15" if "bit (num op) j" for op j
    using assms that by (auto simp: numbering_def intro: bit_of_small [of "num op"])
  show ?thesis unfolding packed_ReplacementNoWrite_def
    by (rule bit_word_eqI) (auto simp: bit_pack [OF assms(1)] FlagInfo_Bits_mask assms(2) bit_simps dest: n)
qed

lemma packed_trivial:
  assumes "numbering num"
  shows "packed_Trivial (FlagInfo_Pack num F) \<longleftrightarrow> Trivial F"
proof
  assume "Trivial F"
  then show "packed_Trivial (FlagInfo_Pack num F)" using assms
    by (simp add: Trivial_def packed_Trivial_def FlagInfo_Pack_def numbering_def)
next
  assume "packed_Trivial (FlagInfo_Pack num F)"
  then have z: "FlagInfo_Pack num F = 0" by (simp add: packed_Trivial_def)
  have b0: "FlagInfo_Bits 0 k c = 0" for k c by (simp add: FlagInfo_Bits_def)
  note a = packed_accessors [OF assms, of F, unfolded z packed_Read_def packed_Write_def packed_CanEliminate_def packed_Special_def packed_Replacement_def b0]
  have u: "num op = 0 \<longleftrightarrow> op = OP_DUMMY" for op using assms by (auto simp: numbering_def)
  have k: "num op = 0" if "ucast (num op) = (0 :: u32)" for op
  proof (rule bit_word_eqI)
    fix i assume "i < LENGTH(64)"
    have j: "i < 15" if "bit (num op) i"
      using assms that by (auto simp: numbering_def intro: bit_of_small [of "num op"])
    show "bit (num op) i = bit 0 i" using arg_cong [OF that, of "\<lambda>w. bit w i"] by (auto simp: bit_simps dest: j)
  qed
  have s: "\<not> Special F" using a(4) by simp
  have "ucast (num (ReplacementNoWrite F)) = (0 :: u32)"
    using packed_nowrite [OF assms s] by (simp add: z packed_ReplacementNoWrite_def b0)
  moreover have "Read F = 0" "Write F = 0" using a(1,2) by (auto simp: bit_eq_iff bit_simps dest: bit_imp_le_length)
  ultimately show "Trivial F" using a s k u by (simp add: Trivial_def)
qed

text \<open>
  C34. Every classification survives its packed form: the accessors of the 64-bit word return the sets,
  the marks and the opcodes that were packed, and a word is trivial exactly when the classification is.
\<close>

theorem classification_packed:
  assumes "numbering num"
  shows "packed_Read (FlagInfo_Pack num (Classify n)) = ucast (Read (Classify n))
    \<and> packed_Write (FlagInfo_Pack num (Classify n)) = ucast (Write (Classify n))
    \<and> packed_CanEliminate (FlagInfo_Pack num (Classify n)) = CanEliminate (Classify n)
    \<and> packed_Replacement (FlagInfo_Pack num (Classify n)) = ucast (num (Replacement (Classify n)))
    \<and> packed_ReplacementNoWrite (FlagInfo_Pack num (Classify n)) = ucast (num (ReplacementNoWrite (Classify n)))
    \<and> packed_Special (FlagInfo_Pack num (ClassifyConst (Op n))) = Special (ClassifyConst (Op n))
    \<and> (packed_Trivial (FlagInfo_Pack num (Classify n)) \<longleftrightarrow> Trivial (Classify n))"
  using packed_accessors [OF assms] packed_nowrite [OF assms classify_special] packed_trivial [OF assms] by simp

theorem classification_packed_witness:
  "packed_Write (FlagInfo_Pack (\<lambda>op. if op = OP_DUMMY then 0 else 9) (ClassifyConst OP_ADCWITHFLAGS)) = 15
   \<and> packed_Replacement (FlagInfo_Pack (\<lambda>op. if op = OP_DUMMY then 0 else 9) (ClassifyConst OP_ADCWITHFLAGS)) = 9"
proof -
  let ?n = "\<lparr>NodeID = 1, Op = OP_ADCWITHFLAGS, OpSize = 8, Args = [2, 3], Cond = Cond_AL, FromNZCV = False, FromChainCR = False, CompareSize = 255,
    VCmpElementSize = 255, TrueBlock = 0, FalseBlock = 0, TargetBlock = 0, NZCVDeadAtTarget = False, RmifMask = 0, FalseNZCV = 0, InvFlags = 0,
    Constant = 0, CarryDead = False, NZCVDead = False\<rparr>"
  have "numbering (\<lambda>op. if op = OP_DUMMY then 0 else 9)" by (simp add: numbering_def)
  from classification_packed [OF this, of ?n] show ?thesis by (simp add: Classify_def)
qed

end
