(* ===== verification/FlagElim.thy ===== *)
theory FlagElim
  imports FlagOps
begin

text \<open>
  The dead flag calculation elimination, \<open>IR/Passes/RedundantFlagCalculationElimination.cpp\<close>, as it runs with
  compare fusion switched off. The unit under compilation is the list of its block numbers in the
  order of the IR, the operations of each block between its first and last marker, the last of
  them the exit, and the use counts of the nodes; the table of the blocks and the worklist are those
  of \<open>ControlFlowGraph\<close>. The back of the worklist is the end of the list. \<open>HasSideEffects\<close> is the generated
  property table of the opcodes.
\<close>

record dfce_config =
  HasSideEffects :: "irops \<Rightarrow> bool"
  DisableDFCEStoreElim :: bool
  NoWriteArmDisabled :: bool
  FlagLivePermissionsDisabled :: bool

record dfce =
  Order :: "nat list"
  Code :: "nat \<Rightarrow> ir_op list"
  HasFlags :: "nat \<Rightarrow> bool"
  NumUses :: "nat \<Rightarrow> nat"
  ExitsAssumeNZCVDead :: bool
  EntryNZCVLiveIn :: bool
  Predecessors :: "nat \<Rightarrow> nat list"
  BlockFlags :: "nat \<Rightarrow> u8"
  EntryUndefined :: "nat \<Rightarrow> u8"
  InWorklist :: "nat \<Rightarrow> bool"
  Worklist :: "nat list"

abbreviation exit_op :: "ir_op list \<Rightarrow> ir_op" where "exit_op ns \<equiv> last ns"

section \<open>The control flow graph\<close>

definition CFG_Init :: "dfce \<Rightarrow> dfce" where
  "CFG_Init s =
     (let n = length (Order s) in
      s\<lparr>Predecessors := \<lambda>b. if b < n then [] else Predecessors s b, BlockFlags := \<lambda>b. if b < n then FLAG_ALL else BlockFlags s b,
        EntryUndefined := \<lambda>b. if b < n then 0 else EntryUndefined s b, InWorklist := \<lambda>b. if b < n then True else InWorklist s b,
        Worklist := Worklist s @ [0..<n]\<rparr>)"

definition RecordEdge :: "nat \<Rightarrow> nat \<Rightarrow> dfce \<Rightarrow> dfce" where
  "RecordEdge From To s = s\<lparr>Predecessors := (Predecessors s)(To := Predecessors s To @ [From])\<rparr>"

definition successors :: "ir_op \<Rightarrow> nat list" where
  "successors x = (if Op x = OP_CONDJUMP then [TrueBlock x, FalseBlock x] else if Op x = OP_JUMP then [TargetBlock x] else [])"

definition gather_block :: "nat \<Rightarrow> dfce \<Rightarrow> dfce" where
  "gather_block b s = fold (RecordEdge b) (successors (exit_op (Code s b))) s"

definition AddWorklist :: "nat \<Rightarrow> dfce \<Rightarrow> dfce" where
  "AddWorklist b s = (if InWorklist s b then s else s\<lparr>InWorklist := (InWorklist s)(b := True), Worklist := b # Worklist s\<rparr>)"

section \<open>One block, backwards\<close>

definition drop_uses :: "ir_op \<Rightarrow> (nat \<Rightarrow> nat) \<Rightarrow> nat \<Rightarrow> nat" where
  "drop_uses n U = fold (\<lambda>a U. U(a := U a - 1)) (Args n) U"

definition EliminateDeadCode :: "dfce_config \<Rightarrow> ir_op \<Rightarrow> (nat \<Rightarrow> nat) \<Rightarrow> bool" where
  "EliminateDeadCode cfg n U \<longleftrightarrow> \<not> (U (NodeID n) > 0 \<or> HasSideEffects cfg (Op n))"

text \<open>The opcode an operation has afterwards; \<open>None\<close> when it is removed.\<close>

definition rewrite_op :: "dfce_config \<Rightarrow> ir_op \<Rightarrow> u8 \<Rightarrow> (nat \<Rightarrow> nat) \<Rightarrow> irops option" where
  "rewrite_op cfg n FlagsRead U =
     (let Info = Classify n in
      if FlagsRead AND Write Info = 0 then
        if (CanEliminate Info \<or> Replacement Info \<noteq> OP_DUMMY) \<and> U (NodeID n) = 0 \<and> \<not> DisableDFCEStoreElim cfg then None
        else if Replacement Info \<noteq> OP_DUMMY then Some (Replacement Info)
        else Some (Op n)
      else if ReplacementNoWrite Info \<noteq> OP_DUMMY \<and> U (NodeID n) = 0 \<and> \<not> NoWriteArmDisabled cfg then Some (ReplacementNoWrite Info)
      else Some (Op n))"

definition narrow_test :: "ir_op \<Rightarrow> u8 \<Rightarrow> irops \<Rightarrow> irops" where
  "narrow_test n FlagsRead op =
     (if op = OP_TESTNZ \<and> OpSize n < 4 \<and> FlagsRead AND (FLAG_N OR FLAG_C) = 0 then OP_TESTZ else op)"

definition process_op :: "dfce_config \<Rightarrow> ir_op \<Rightarrow> u8 \<Rightarrow> (nat \<Rightarrow> nat) \<Rightarrow> ir_op list \<times> u8 \<times> (nat \<Rightarrow> nat)" where
  "process_op cfg n FlagsRead U =
     (if EliminateDeadCode cfg n U then ([], FlagsRead, drop_uses n U)
      else
        let Info = Classify n in
        if Trivial Info then ([n], FlagsRead, U)
        else case rewrite_op cfg n FlagsRead U of
            None \<Rightarrow> ([], FlagsRead AND NOT (Write Info), drop_uses n U)
          | Some op \<Rightarrow> ([n\<lparr>Op := narrow_test n FlagsRead op\<rparr>], FlagsRead AND NOT (Write Info) OR Read Info, U))"

fun process_code :: "dfce_config \<Rightarrow> ir_op list \<Rightarrow> u8 \<Rightarrow> (nat \<Rightarrow> nat) \<Rightarrow> ir_op list \<times> u8 \<times> (nat \<Rightarrow> nat)" where
  "process_code cfg [] FlagsRead U = ([], FlagsRead, U)"
| "process_code cfg (n # ns) FlagsRead U =
     (case process_code cfg ns FlagsRead U of (ns', X, U') \<Rightarrow>
      case process_op cfg n X U' of (r, X', U'') \<Rightarrow> (r @ ns', X', U''))"

text \<open>The flags that are read after the exit.\<close>

definition exit_flags :: "(nat \<Rightarrow> u8) \<Rightarrow> ir_op \<Rightarrow> u8" where
  "exit_flags F x =
     (if Op x = OP_CONDJUMP then F (TrueBlock x) OR F (FalseBlock x)
      else if Op x = OP_JUMP then F (TargetBlock x)
      else if Op x = OP_EXITFUNCTION \<and> NZCVDeadAtTarget x then 0
      else FLAG_ALL)"

definition ProcessBlock :: "dfce_config \<Rightarrow> nat \<Rightarrow> dfce \<Rightarrow> bool \<times> dfce" where
  "ProcessBlock cfg b s =
     (let ns = Code s b; x = exit_op ns; FlagsRead = exit_flags (BlockFlags s) x;
          s = s\<lparr>ExitsAssumeNZCVDead := ExitsAssumeNZCVDead s \<or> Op x = OP_EXITFUNCTION \<and> NZCVDeadAtTarget x\<rparr> in
      if \<not> HasFlags s b then (BlockFlags s b \<noteq> FlagsRead, s\<lparr>BlockFlags := (BlockFlags s)(b := FlagsRead)\<rparr>)
      else case process_code cfg ns FlagsRead (NumUses s) of (ns', X, U) \<Rightarrow>
        (BlockFlags s b \<noteq> X,
         s\<lparr>Code := (Code s)(b := ns'), NumUses := U, BlockFlags := (BlockFlags s)(b := X)\<rparr>))"

section \<open>The worklist\<close>

definition dfce_step :: "dfce_config \<Rightarrow> dfce \<Rightarrow> dfce" where
  "dfce_step cfg s =
     (let b = last (Worklist s);
          (Changed, s) = ProcessBlock cfg b (s\<lparr>InWorklist := (InWorklist s)(b := False)\<rparr>);
          s = (if Changed then fold AddWorklist (Predecessors s b) s else s) in
      s\<lparr>Worklist := butlast (Worklist s)\<rparr>)"

fun dfce_loop :: "nat \<Rightarrow> dfce_config \<Rightarrow> dfce \<Rightarrow> dfce option" where
  "dfce_loop fuel cfg s =
     (if Worklist s = [] then Some s
      else case fuel of 0 \<Rightarrow> None | Suc k \<Rightarrow> dfce_loop k cfg (dfce_step cfg s))"

declare dfce_loop.simps [simp del]

definition dfce_start :: "dfce \<Rightarrow> dfce" where
  "dfce_start s = (let s = CFG_Init (s\<lparr>Worklist := []\<rparr>) in fold gather_block (Order s) s)"

definition dfce_eliminate :: "nat \<Rightarrow> dfce_config \<Rightarrow> dfce \<Rightarrow> dfce option" where
  "dfce_eliminate fuel cfg s = dfce_loop fuel cfg (dfce_start s)"

section \<open>Flags live at the entry\<close>

definition unit_code :: "dfce \<Rightarrow> ir_op list" where
  "unit_code s = concat (map (Code s) (Order s))"

definition mark_bracket :: "dfce \<Rightarrow> ir_op \<Rightarrow> (nat \<Rightarrow> nat) \<Rightarrow> nat \<Rightarrow> nat" where
  "mark_bracket s n Out =
     (if Op n \<noteq> OP_STORENZCV \<or> Args n = [] \<or> hd (Args n) = 0 then Out
      else case find (\<lambda>p. NodeID p = hd (Args n)) (unit_code s) of
          None \<Rightarrow> Out
        | Some p \<Rightarrow> if Op p \<noteq> OP_LOADNZCV \<or> NumUses s (NodeID p) \<noteq> 1 then Out else Out(NodeID p := 1, NodeID n := 2))"

definition MarkNZCVPreserveBrackets :: "dfce \<Rightarrow> nat \<Rightarrow> nat" where
  "MarkNZCVPreserveBrackets s = fold (mark_bracket s) (unit_code s) (\<lambda>_. 0)"

definition reach_op :: "(nat \<Rightarrow> nat) \<Rightarrow> ir_op \<Rightarrow> u8 \<times> u8 \<Rightarrow> u8 \<times> u8" where
  "reach_op NZCVBracket n LU =
     (case LU of (EntryLiveIn, Undefined) \<Rightarrow>
      if NZCVBracket (NodeID n) \<noteq> 0 then LU
      else
        let OpInfo = Classify n in
        if Trivial OpInfo then LU
        else (EntryLiveIn OR (Read OpInfo AND Undefined), Undefined AND NOT (Write OpInfo)))"

definition Propagate :: "u8 \<Rightarrow> nat \<Rightarrow> dfce \<Rightarrow> dfce" where
  "Propagate Undefined b s =
     (let Merged = EntryUndefined s b OR Undefined in
      if Merged \<noteq> EntryUndefined s b then AddWorklist b (s\<lparr>EntryUndefined := (EntryUndefined s)(b := Merged)\<rparr>) else s)"

definition reach_step :: "(nat \<Rightarrow> nat) \<Rightarrow> u8 \<times> dfce \<Rightarrow> u8 \<times> dfce" where
  "reach_step NZCVBracket Ls =
     (case Ls of (EntryLiveIn, s) \<Rightarrow>
      let b = last (Worklist s);
          s = s\<lparr>Worklist := butlast (Worklist s), InWorklist := (InWorklist s)(b := False)\<rparr>;
          (EntryLiveIn, Undefined) =
            (if HasFlags s b then fold (reach_op NZCVBracket) (Code s b) (EntryLiveIn, EntryUndefined s b)
             else (EntryLiveIn, EntryUndefined s b)) in
      (EntryLiveIn, if Undefined = 0 then s else fold (Propagate Undefined) (successors (exit_op (Code s b))) s))"

fun reach_loop :: "nat \<Rightarrow> (nat \<Rightarrow> nat) \<Rightarrow> u8 \<times> dfce \<Rightarrow> (u8 \<times> dfce) option" where
  "reach_loop fuel NZCVBracket (EntryLiveIn, s) =
     (if Worklist s = [] \<or> EntryLiveIn AND FLAG_NZCV \<noteq> 0 then Some (EntryLiveIn, s)
      else case fuel of 0 \<Rightarrow> None | Suc k \<Rightarrow> reach_loop k NZCVBracket (reach_step NZCVBracket (EntryLiveIn, s)))"

declare reach_loop.simps [simp del]

definition entry_live_in :: "nat \<Rightarrow> dfce \<Rightarrow> dfce option" where
  "entry_live_in fuel s =
     (if Order s = [] then Some s
      else
        let Bracket = MarkNZCVPreserveBrackets s; b = hd (Order s);
            s = AddWorklist b (s\<lparr>EntryUndefined := (EntryUndefined s)(b := FLAG_NZCV)\<rparr>) in
        map_option (\<lambda>(EntryLiveIn, s). if EntryLiveIn AND FLAG_NZCV \<noteq> 0 then s\<lparr>EntryNZCVLiveIn := True\<rparr> else s)
          (reach_loop fuel Bracket (0, s)))"

section \<open>Permissions\<close>

definition annotate_op :: "u8 \<Rightarrow> ir_op \<Rightarrow> ir_op" where
  "annotate_op FlagsRead n =
     (if Op n = OP_ASHR \<or> Op n = OP_SBFE then n\<lparr>CarryDead := (FlagsRead AND FLAG_C = 0)\<rparr>
      else if Op n = OP_CONDJUMP then n\<lparr>NZCVDead := (FlagsRead AND FLAG_NZCV = 0)\<rparr>
      else n)"

fun annotate_code :: "ir_op list \<Rightarrow> u8 \<Rightarrow> ir_op list \<times> u8" where
  "annotate_code [] FlagsRead = ([], FlagsRead)"
| "annotate_code (n # ns) FlagsRead =
     (case annotate_code ns FlagsRead of (ns', X) \<Rightarrow>
      (annotate_op X n # ns', if Trivial (Classify n) then X else X AND NOT (Write (Classify n)) OR Read (Classify n)))"

definition annotate_block :: "nat \<Rightarrow> dfce \<Rightarrow> dfce" where
  "annotate_block b s =
     s\<lparr>Code := (Code s)(b := fst (annotate_code (Code s b) (exit_flags (BlockFlags s) (exit_op (Code s b)))))\<rparr>"

definition AnnotateFlagLiveness :: "dfce_config \<Rightarrow> dfce \<Rightarrow> dfce" where
  "AnnotateFlagLiveness cfg s = (if FlagLivePermissionsDisabled cfg then s else fold annotate_block (Order s) s)"


section \<open>Folding a compare into its branch\<close>

text \<open>\<open>ReplaceNodeArgument\<close> moves one use from the old to the new argument.\<close>

definition move_use :: "nat \<Rightarrow> nat \<Rightarrow> (nat \<Rightarrow> nat) \<Rightarrow> nat \<Rightarrow> nat" where
  "move_use old new U = (let U = U(old := U old - 1) in U(new := Suc (U new)))"

definition FoldBranch :: "nat \<Rightarrow> dfce \<Rightarrow> dfce" where
  "FoldBranch b s =
     (let x = exit_op (Code s b); before = rev (butlast (Code s b)); stores = takeWhile (\<lambda>n. Op n = OP_STOREREGISTER) before in
      case dropWhile (\<lambda>n. Op n = OP_STOREREGISTER) before of
        [] \<Rightarrow> s
      | p # rest \<Rightarrow>
          if Op p = OP_AXFLAG then s
          else if Op p = OP_SUBNZCV then
            if \<not> (Cond x = Cond_NEQ \<or> Cond x = Cond_EQ) then s
            else case find (\<lambda>c. NodeID c = Args p ! 1) (unit_code s) of
                None \<Rightarrow> s
              | Some c \<Rightarrow>
                  if Op c \<noteq> OP_INLINECONSTANT \<or> Constant c \<noteq> 0 then s
                  else
                    let U = move_use (Args x ! 0) (Args p ! 0) (NumUses s); U = move_use (Args x ! 1) (Args p ! 1) U;
                        x' = x\<lparr>Args := (Args x)[0 := Args p ! 0, 1 := Args p ! 1], FromNZCV := False, CompareSize := OpSize p\<rparr> in
                    s\<lparr>Code := (Code s)(b := rev rest @ rev stores @ [x']), NumUses := drop_uses p U\<rparr>
          else s)"

definition fold_block :: "nat \<Rightarrow> dfce \<Rightarrow> dfce" where
  "fold_block b s =
     (let x = exit_op (Code s b) in
      if \<not> HasFlags s b \<or> Op x \<noteq> OP_CONDJUMP then s
      else if (BlockFlags s (TrueBlock x) OR BlockFlags s (FalseBlock x)) AND FLAG_NZCV = 0 \<and> FromNZCV x then FoldBranch b s
      else s)"

section \<open>The pass\<close>

text \<open>
  \<open>Run\<close> with the switch \<open>DISABLECMPBRANCHFUSION\<close> set. The two loops get the same bound on their steps.
\<close>

definition dfce_Run :: "nat \<Rightarrow> dfce_config \<Rightarrow> dfce \<Rightarrow> dfce option" where
  "dfce_Run fuel cfg s =
     (case dfce_eliminate fuel cfg s of
        None \<Rightarrow> None
      | Some s \<Rightarrow>
          case entry_live_in fuel s of
            None \<Rightarrow> None
          | Some s \<Rightarrow> Some (AnnotateFlagLiveness cfg (fold fold_block (Order s) s)))"

end
