(* ===== verification/FlagSem.thy ===== *)
theory FlagSem
  imports FlagElim
begin

text \<open>
  What the flag passes have to keep. A unit is run block by block on a state of node values, the four
  flags and the rest of the machine; what an operation computes is a parameter, given the values
  of its arguments, and the locale \<open>ir_semantics\<close> says what the classification of the operations promises
  about it. A unit is observed at its exit: the exit, the values of its arguments, the flags unless
  they are dead at the target, and the machine. Faults inside a unit are not modelled; the passes
  leave dead flags imprecise there.
\<close>

section \<open>Flag sets\<close>

definition flags_le :: "u8 \<Rightarrow> u8 \<Rightarrow> bool" where
  "flags_le X Y \<longleftrightarrow> (\<forall>i. bit X i \<longrightarrow> bit Y i)"

type_synonym flagstate = "nat \<Rightarrow> bool"

definition agree :: "u8 \<Rightarrow> flagstate \<Rightarrow> flagstate \<Rightarrow> bool" where
  "agree X f g \<longleftrightarrow> (\<forall>i. bit X i \<longrightarrow> f i = g i)"

lemma flags_le_refl [simp]: "flags_le X X" by (simp add: flags_le_def)
lemma flags_le_trans: "flags_le X Y \<Longrightarrow> flags_le Y Z \<Longrightarrow> flags_le X Z" by (simp add: flags_le_def)
lemma flags_le_zero [simp]: "flags_le 0 X" by (simp add: flags_le_def)
lemma flags_le_or: "flags_le (X OR Y) Z \<longleftrightarrow> flags_le X Z \<and> flags_le Y Z" by (auto simp: flags_le_def bit_or_iff)
lemma flags_le_or1: "flags_le X Y \<Longrightarrow> flags_le X (Y OR Z)" by (simp add: flags_le_def bit_or_iff)
lemma flags_le_or2: "flags_le X Z \<Longrightarrow> flags_le X (Y OR Z)" by (simp add: flags_le_def bit_or_iff)
lemma flags_le_antisym: "flags_le X Y \<Longrightarrow> flags_le Y X \<Longrightarrow> X = Y" by (auto simp: flags_le_def intro: bit_eqI)

lemma agree_refl [simp]: "agree X f f" by (simp add: agree_def)
lemma agree_trans: "agree X f g \<Longrightarrow> agree X g h \<Longrightarrow> agree X f h" by (simp add: agree_def)
lemma agree_sub: "agree Y f g \<Longrightarrow> flags_le X Y \<Longrightarrow> agree X f g" by (simp add: agree_def flags_le_def)
lemma agree_or: "agree (X OR Y) f g \<longleftrightarrow> agree X f g \<and> agree Y f g" by (auto simp: agree_def bit_or_iff)

lemma and_zero_bit: "X AND Y = 0 \<Longrightarrow> bit X i \<Longrightarrow> \<not> bit (Y :: u8) i"
  by (metis bit_0_eq bit_and_iff bot_apply bot_bool_def)

lemma and_zero_le: "Y AND W = 0 \<Longrightarrow> flags_le X Y \<Longrightarrow> X AND W = (0 :: u8)"
  by (rule bit_word_eqI) (metis and_zero_bit bit_and_iff flags_le_def)

section \<open>Liveness\<close>

text \<open>
  \<open>TestZ\<close> writes all flags and is missing from the table; it is the only place where the sets below
  differ from the classification.
\<close>

definition writes :: "ir_op \<Rightarrow> u8" where
  "writes n = (if Op n = OP_TESTZ then FLAG_NZCV else Write (Classify n))"

definition reads :: "ir_op \<Rightarrow> u8" where "reads n = Read (Classify n)"

definition live_op :: "ir_op \<Rightarrow> u8 \<Rightarrow> u8" where
  "live_op n X = X AND NOT (writes n) OR reads n"

fun live_code :: "ir_op list \<Rightarrow> u8 \<Rightarrow> u8" where
  "live_code [] X = X"
| "live_code (n # ns) X = live_op n (live_code ns X)"

lemma bit_live_op: "bit (live_op n X) i \<longleftrightarrow> (bit X i \<and> \<not> bit (writes n) i) \<or> bit (reads n) i"
  by (auto simp: live_op_def bit_or_iff bit_and_iff bit_not_iff dest: bit_imp_le_length)

lemma live_op_mono: "flags_le X Y \<Longrightarrow> flags_le (live_op n X) (live_op n Y)"
  by (simp add: flags_le_def bit_live_op)

lemma live_code_mono: "flags_le X Y \<Longrightarrow> flags_le (live_code ns X) (live_code ns Y)"
  by (induction ns) (simp_all add: live_op_mono)

lemma live_code_append [simp]: "live_code (xs @ ys) X = live_code xs (live_code ys X)"
  by (induction xs) simp_all

section \<open>Running a unit\<close>

type_synonym ('v, 'm) ir_state = "(nat \<Rightarrow> 'v) \<times> flagstate \<times> 'm"
type_synonym ('v, 'm) ir_exec = "ir_op \<Rightarrow> 'v list \<Rightarrow> flagstate \<Rightarrow> 'm \<Rightarrow> 'v \<times> flagstate \<times> 'm"
type_synonym ('v, 'm) ir_branch = "ir_op \<Rightarrow> 'v list \<Rightarrow> flagstate \<Rightarrow> 'm \<Rightarrow> bool"

datatype ('v, 'm) outcome = Left_unit ir_op "'v list" flagstate 'm

definition run_op :: "('v, 'm) ir_exec \<Rightarrow> ir_op \<Rightarrow> ('v, 'm) ir_state \<Rightarrow> ('v, 'm) ir_state" where
  "run_op exec n s = (case s of (env, f, m) \<Rightarrow> case exec n (map env (Args n)) f m of (v, f', m') \<Rightarrow> (env(NodeID n := v), f', m'))"

definition run_code :: "('v, 'm) ir_exec \<Rightarrow> ir_op list \<Rightarrow> ('v, 'm) ir_state \<Rightarrow> ('v, 'm) ir_state" where
  "run_code exec ns = fold (run_op exec) ns"

definition visible :: "ir_op \<Rightarrow> flagstate \<Rightarrow> flagstate" where
  "visible x f = (\<lambda>i. i < 4 \<and> \<not> (Op x = OP_EXITFUNCTION \<and> NZCVDeadAtTarget x) \<and> f i)"

definition take_exit :: "('v, 'm) ir_exec \<Rightarrow> ('v, 'm) ir_branch \<Rightarrow> ir_op \<Rightarrow> ('v, 'm) ir_state \<Rightarrow> ('v, 'm) outcome + nat \<times> ('v, 'm) ir_state" where
  "take_exit exec branch x s =
     (case s of (env, f, m) \<Rightarrow>
      if Op x = OP_CONDJUMP then
        Inr (if branch x (map env (Args x)) f m then TrueBlock x else FalseBlock x, run_op exec x s)
      else if Op x = OP_JUMP then Inr (TargetBlock x, run_op exec x s)
      else Inl (Left_unit x (map env (Args x)) (visible x f) m))"

definition run_block where
  "run_block exec branch ns s = take_exit exec branch (last ns) (run_code exec (butlast ns) s)"

fun run_unit :: "nat \<Rightarrow> ('v, 'm) ir_exec \<Rightarrow> ('v, 'm) ir_branch \<Rightarrow> (nat \<Rightarrow> ir_op list) \<Rightarrow> nat \<Rightarrow> ('v, 'm) ir_state \<Rightarrow> ('v, 'm) outcome option" where
  "run_unit 0 exec branch code b s = None"
| "run_unit (Suc k) exec branch code b s =
     (case run_block exec branch (code b) s of Inl y \<Rightarrow> Some y | Inr (b', s') \<Rightarrow> run_unit k exec branch code b' s')"

lemma run_code_simps [simp]:
  "run_code exec [] s = s" "run_code exec (n # ns) s = run_code exec ns (run_op exec n s)"
  "run_code exec (xs @ ys) s = run_code exec ys (run_code exec xs s)"
  by (simp_all add: run_code_def)

section \<open>States that differ in dead places\<close>

definition st_eq :: "nat set \<Rightarrow> u8 \<Rightarrow> ('v, 'm) ir_state \<Rightarrow> ('v, 'm) ir_state \<Rightarrow> bool" where
  "st_eq K X s t \<longleftrightarrow> (\<forall>k. k \<notin> K \<longrightarrow> fst s k = fst t k) \<and> agree X (fst (snd s)) (fst (snd t)) \<and> snd (snd s) = snd (snd t)"

lemma st_eq_refl [simp]: "st_eq K X s s" by (simp add: st_eq_def)
lemma st_eq_trans: "st_eq K X s t \<Longrightarrow> st_eq K X t u \<Longrightarrow> st_eq K X s u"
  by (simp add: st_eq_def) (blast intro: agree_trans)
lemma st_eq_sub: "st_eq K Y s t \<Longrightarrow> flags_le X Y \<Longrightarrow> st_eq K X s t"
  by (auto simp: st_eq_def intro: agree_sub)

fun next_eq :: "nat set \<Rightarrow> (nat \<Rightarrow> u8) \<Rightarrow> ('v, 'm) outcome + nat \<times> ('v, 'm) ir_state \<Rightarrow> ('v, 'm) outcome + nat \<times> ('v, 'm) ir_state \<Rightarrow> bool" where
  "next_eq K L (Inl x) (Inl y) \<longleftrightarrow> x = y"
| "next_eq K L (Inr (b, s)) (Inr (c, t)) \<longleftrightarrow> b = c \<and> st_eq K (L b) s t"
| "next_eq K L _ _ \<longleftrightarrow> False"

lemma next_eq_trans: "next_eq K L x y \<Longrightarrow> next_eq K L y z \<Longrightarrow> next_eq K L x z"
  by (cases x; cases y; cases z) (auto intro: st_eq_trans)

section \<open>Well-formed units\<close>

definition is_exit :: "irops \<Rightarrow> bool" where
  "is_exit op \<longleftrightarrow> op \<in> {OP_JUMP, OP_CONDJUMP, OP_EXITFUNCTION, OP_BREAK}"

definition closed_unit :: "nat set \<Rightarrow> (nat \<Rightarrow> ir_op list) \<Rightarrow> bool" where
  "closed_unit B c \<longleftrightarrow> (\<forall>b\<in>B. c b \<noteq> [] \<and> is_exit (Op (last (c b))) \<and> set (successors (last (c b))) \<subseteq> B)"

definition arg_count :: "nat \<Rightarrow> ir_op list \<Rightarrow> nat" where
  "arg_count k ns = count_list (concat (map Args ns)) k"

definition uses_ok :: "nat set \<Rightarrow> (nat \<Rightarrow> ir_op list) \<Rightarrow> (nat \<Rightarrow> nat) \<Rightarrow> bool" where
  "uses_ok B c U \<longleftrightarrow> (\<forall>k. U k = (\<Sum>b\<in>B. arg_count k (c b)))"

definition live_bound :: "nat set \<Rightarrow> (nat \<Rightarrow> ir_op list) \<Rightarrow> (nat \<Rightarrow> u8) \<Rightarrow> bool" where
  "live_bound B c L \<longleftrightarrow> (\<forall>b\<in>B. flags_le (live_code (c b) (exit_flags L (last (c b)))) (L b))"

end
