(* ===== verification/FlagElimSound.thy ===== *)
theory FlagElimSound
  imports FlagSem
begin

text \<open>
  The elimination keeps what a unit computes. One rewrite of one operation is compared with the
  original under the flags that are live after it; the rewrites of a block, and of all the blocks
  that the worklist visits, follow by composition.
\<close>

section \<open>One operation\<close>

lemma bit_of_small_flags: "bit FLAG_NZCV i \<Longrightarrow> i < 4"
  using bit_mask_iff [of 4 i, where 'a = u8] by (simp add: mask_eq_exp_minus_1)

lemma all_flags_bit: "i < 4 \<Longrightarrow> bit FLAG_ALL i"
  using bit_mask_iff [of 4 i, where 'a = u8] by (simp add: mask_eq_exp_minus_1)

lemma sign_carry_dead: "X AND (FLAG_N OR FLAG_C) = 0 \<Longrightarrow> \<not> bit X 1 \<and> \<not> bit X 3"
  using and_zero_bit [of X "FLAG_N OR FLAG_C" 1] and_zero_bit [of X "FLAG_N OR FLAG_C" 3] by auto

lemma writes_classify: "Op n \<noteq> OP_TESTZ \<Longrightarrow> writes n = Write (Classify n)"
  by (simp add: writes_def)

lemma writes_and_read_unmarked: "\<not> IsFlagOp (Op n) \<Longrightarrow> reads n = 0 \<and> Write (Classify n) = 0"
  by (simp add: reads_def classify_unmarked)

lemma Trivial_info: "Trivial (Classify n) \<Longrightarrow> Read (Classify n) = 0 \<and> Write (Classify n) = 0"
  by (simp add: Trivial_def)

lemma nontrivial_not_testz: "\<not> Trivial (Classify n) \<Longrightarrow> Op n \<noteq> OP_TESTZ"
  by (auto simp: Trivial_def classify_testz)

text \<open>The ways an operation may be kept.\<close>

definition kept :: "ir_op \<Rightarrow> u8 \<Rightarrow> bool \<Rightarrow> irops \<Rightarrow> bool" where
  "kept n X unused op \<longleftrightarrow>
     op = Op n
     \<or> (X AND Write (Classify n) = 0 \<and> Replacement (Classify n) \<noteq> OP_DUMMY \<and> op = Replacement (Classify n))
     \<or> (unused \<and> ReplacementNoWrite (Classify n) \<noteq> OP_DUMMY \<and> op = ReplacementNoWrite (Classify n))"

lemma rewrite_op_cases:
  assumes "rewrite_op cfg n X U = r"
  shows "case r of
      None \<Rightarrow> X AND Write (Classify n) = 0 \<and> (CanEliminate (Classify n) \<or> Replacement (Classify n) \<noteq> OP_DUMMY) \<and> U (NodeID n) = 0
    | Some op \<Rightarrow> kept n X (U (NodeID n) = 0) op"
  using assms by (auto simp: rewrite_op_def kept_def Let_def split: if_splits)

lemma kept_sets:
  assumes "kept n X u op" and "Op n \<noteq> OP_TESTZ"
  shows "reads (n\<lparr>Op := op\<rparr>) = reads n"
    and "writes (n\<lparr>Op := op\<rparr>) = writes n \<or> (writes (n\<lparr>Op := op\<rparr>) = 0 \<and> X AND writes n = 0)"
    and "op \<noteq> OP_TESTZ"
  using assms classify_replacement [of n] classify_nowrite [of n]
  by (auto simp: kept_def reads_def writes_def)

lemma narrow_sets:
  "reads (n\<lparr>Op := narrow_test n X op\<rparr>) = reads (n\<lparr>Op := op\<rparr>)" "writes (n\<lparr>Op := narrow_test n X op\<rparr>) = writes (n\<lparr>Op := op\<rparr>)"
  by (auto simp: narrow_test_def reads_def writes_def Classify_def)

text \<open>The outcome of one step of the walk, without its use counts.\<close>

lemma process_op_cases:
  assumes "process_op cfg n X U = (r, X', U')"
  obtains (dead) "U (NodeID n) = 0" "\<not> HasSideEffects cfg (Op n)" "r = []" "X' = X" "U' = drop_uses n U"
  | (plain) "Trivial (Classify n)" "r = [n]" "X' = X" "U' = U"
  | (removed) "X AND Write (Classify n) = 0" "CanEliminate (Classify n) \<or> Replacement (Classify n) \<noteq> OP_DUMMY" "U (NodeID n) = 0"
      "\<not> Trivial (Classify n)" "r = []" "X' = X AND NOT (Write (Classify n))" "U' = drop_uses n U"
  | (rewritten) op where "kept n X (U (NodeID n) = 0) op" "\<not> Trivial (Classify n)" "r = [n\<lparr>Op := narrow_test n X op\<rparr>]"
      "X' = X AND NOT (Write (Classify n)) OR Read (Classify n)" "U' = U"
proof (cases "EliminateDeadCode cfg n U")
  case True
  then show ?thesis using assms by (intro dead) (simp_all add: process_op_def EliminateDeadCode_def)
next
  case nd: False
  show ?thesis
  proof (cases "Trivial (Classify n)")
    case True
    then show ?thesis using assms nd by (intro plain) (simp_all add: process_op_def)
  next
    case nt: False
    show ?thesis
    proof (cases "rewrite_op cfg n X U")
      case None
      then show ?thesis using assms nd nt rewrite_op_cases [OF None] by (intro removed) (simp_all add: process_op_def Let_def)
    next
      case (Some op)
      show ?thesis
        by (rule rewritten [of op]) (use assms nd nt Some rewrite_op_cases [OF Some] in \<open>simp_all add: process_op_def Let_def\<close>)
    qed
  qed
qed

text \<open>A step never makes more flags live, and its result bounds what is live before the operation.\<close>

lemma process_op_live:
  assumes p: "process_op cfg n X U = (r, X', U')" and le: "flags_le Y X"
    and se: "writes n \<noteq> 0 \<longrightarrow> HasSideEffects cfg (Op n)"
  shows "flags_le (live_code r Y) (live_op n Y) \<and> flags_le (live_code r Y) X'"
  using p
proof (cases rule: process_op_cases)
  case dead
  then have "writes n = 0" using se by auto
  then show ?thesis
    using dead le by (simp_all add: flags_le_def bit_live_op)
next
  case plain
  then have "reads n = 0" by (simp add: reads_def Trivial_def)
  then show ?thesis
    using plain le by (simp_all add: flags_le_def bit_live_op)
next
  case removed
  have w: "writes n = Write (Classify n)" using removed by (simp add: nontrivial_not_testz writes_classify)
  have "\<not> bit (writes n) i" if "bit Y i" for i
    using that le removed(1) and_zero_bit by (fastforce simp: flags_le_def w)
  then show ?thesis
    using removed le by (auto simp: flags_le_def bit_live_op bit_and_iff bit_not_iff w dest: bit_imp_le_length)
next
  case (rewritten op)
  let ?n = "n\<lparr>Op := narrow_test n X op\<rparr>"
  have nz: "Op n \<noteq> OP_TESTZ" using rewritten by (simp add: nontrivial_not_testz)
  have rd: "reads ?n = reads n" using kept_sets(1) [OF rewritten(1) nz] narrow_sets by simp
  have wr: "writes ?n = writes n \<or> (writes ?n = 0 \<and> X AND writes n = 0)"
    using kept_sets(2) [OF rewritten(1) nz] narrow_sets by simp
  have z: "\<not> bit (writes n) i" if "X AND writes n = 0" "bit Y i" for i
    using that le and_zero_bit by (fastforce simp: flags_le_def)
  have "bit (live_op ?n Y) i = bit (live_op n Y) i" for i
    using wr by (auto simp: bit_live_op rd dest: z)
  then have l: "flags_le (live_code r Y) (live_op n Y)" using rewritten by (simp add: flags_le_def)
  have "bit (live_op n Y) i \<longrightarrow> bit X' i" for i
    using le rewritten(4) by (auto simp: bit_live_op writes_classify [OF nz] reads_def flags_le_def bit_or_iff bit_and_iff bit_not_iff dest: bit_imp_le_length)
  then show ?thesis using rewritten l by (auto simp: flags_le_def)
qed


section \<open>The walk over a block\<close>

lemma drop_uses_eq: "drop_uses n U k = U k - count_list (Args n) k"
proof -
  have "fold (\<lambda>a U. U(a := U a - 1)) as U k = U k - count_list as k" for as and U :: "nat \<Rightarrow> nat"
    by (induction as arbitrary: U) simp_all
  then show ?thesis by (simp add: drop_uses_def)
qed

lemma arg_count_simps [simp]:
  "arg_count k [] = 0" "arg_count k (n # ns) = count_list (Args n) k + arg_count k ns" "arg_count k (xs @ ys) = arg_count k xs + arg_count k ys"
  by (simp_all add: arg_count_def)

lemma arg_count_zero: "arg_count k ns = 0 \<Longrightarrow> n \<in> set ns \<Longrightarrow> k \<notin> set (Args n)"
  by (induction ns) (auto simp: count_list_0_iff)

lemma process_op_uses:
  assumes "process_op cfg n X U = (r, X', U')" and "count_list (Args n) k \<le> U k"
  shows "U' k + count_list (Args n) k = U k + arg_count k r"
  using assms(1) by (cases rule: process_op_cases) (use assms(2) in \<open>auto simp: drop_uses_eq\<close>)

lemma process_code_uses:
  assumes "process_code cfg ns X U = (ns', X', U')" and "\<And>k. arg_count k ns \<le> U k"
  shows "U' k + arg_count k ns = U k + arg_count k ns'"
  using assms
proof (induction ns arbitrary: ns' X' U' k)
  case (Cons n ns)
  obtain t X1 U1 where t: "process_code cfg ns X U = (t, X1, U1)" by (cases "process_code cfg ns X U")
  obtain r where r: "process_op cfg n X1 U1 = (r, X', U')" "ns' = r @ t"
    using Cons.prems(1) t by (auto split: prod.splits)
  have le: "count_list (Args n) k + arg_count k ns \<le> U k" using Cons.prems(2) [of k] by simp
  have u1: "U1 k + arg_count k ns = U k + arg_count k t"
    by (rule Cons.IH [OF t]) (metis Cons.prems(2) arg_count_simps(2) add_leD2)
  show ?case using process_op_uses [OF r(1), of k] u1 le r(2) by simp
qed simp

definition writers_are_marked :: "dfce_config \<Rightarrow> bool" where
  "writers_are_marked cfg \<longleftrightarrow> (\<forall>n. writes n \<noteq> 0 \<longrightarrow> HasSideEffects cfg (Op n)) \<and> (\<forall>op. is_exit op \<longrightarrow> HasSideEffects cfg op)"

lemma exit_info:
  assumes "is_exit (Op x)"
  shows "Write (Classify x) = 0" "Replacement (Classify x) = OP_DUMMY" "ReplacementNoWrite (Classify x) = OP_DUMMY"
    "\<not> CanEliminate (Classify x)" "Op x \<noteq> OP_TESTNZ" "Op x \<noteq> OP_TESTZ"
  using assms by (cases "Op x"; simp add: is_exit_def Classify_def)+

lemma process_exit:
  assumes "is_exit (Op x)" and "writers_are_marked cfg"
  shows "\<exists>X'. process_op cfg x X U = ([x], X', U)"
proof -
  have "\<not> EliminateDeadCode cfg x U" using assms by (simp add: EliminateDeadCode_def writers_are_marked_def)
  moreover have "rewrite_op cfg x X U = Some (Op x)" "narrow_test x X (Op x) = Op x" if "\<not> Trivial (Classify x)"
    using exit_info [OF assms(1)] by (simp_all add: rewrite_op_def narrow_test_def)
  ultimately show ?thesis by (simp add: process_op_def Let_def)
qed

lemma process_code_exit:
  assumes "process_code cfg ns X U = (ns', X', U')" and "ns \<noteq> []" and "is_exit (Op (last ns))" and "writers_are_marked cfg"
  shows "ns' \<noteq> [] \<and> last ns' = last ns"
  using assms(1-3)
proof (induction ns arbitrary: ns' X' U')
  case (Cons n ns)
  obtain t X1 U1 where t: "process_code cfg ns X U = (t, X1, U1)" by (cases "process_code cfg ns X U")
  obtain r where r: "process_op cfg n X1 U1 = (r, X', U')" "ns' = r @ t"
    using Cons.prems(1) t by (auto split: prod.splits)
  show ?case
  proof (cases "ns = []")
    case True
    then show ?thesis using process_exit [of n cfg X1 U1] Cons.prems(3) assms(4) r t by auto
  next
    case False
    then show ?thesis using Cons.IH [OF t] Cons.prems(3) r(2) by simp
  qed
qed simp

lemma process_code_live:
  assumes "process_code cfg ns X U = (ns', X', U')" and "flags_le Y X" and "writers_are_marked cfg"
  shows "flags_le (live_code ns' Y) (live_code ns Y) \<and> flags_le (live_code ns' Y) X'"
  using assms(1)
proof (induction ns arbitrary: ns' X' U')
  case Nil
  then show ?case using assms(2) by simp
next
  case (Cons n ns)
  obtain t X1 U1 where t: "process_code cfg ns X U = (t, X1, U1)" by (cases "process_code cfg ns X U")
  obtain r where r: "process_op cfg n X1 U1 = (r, X', U')" "ns' = r @ t"
    using Cons.prems(1) t by (auto split: prod.splits)
  have i: "flags_le (live_code t Y) (live_code ns Y)" "flags_le (live_code t Y) X1" using Cons.IH [OF t] by auto
  have "writes n \<noteq> 0 \<longrightarrow> HasSideEffects cfg (Op n)" using assms(3) by (auto simp: writers_are_marked_def)
  from process_op_live [OF r(1) i(2) this] show ?case
    using live_op_mono [OF i(1), of n] r(2) by (auto intro: flags_le_trans)
qed

lemma uses_le: "uses_ok B c U \<Longrightarrow> finite B \<Longrightarrow> b \<in> B \<Longrightarrow> arg_count k (c b) \<le> U k"
  using member_le_sum [of b B "\<lambda>b. arg_count k (c b)"] by (simp add: uses_ok_def)

lemma uses_ok_upd:
  assumes "uses_ok B c U" and "finite B" and "b \<in> B" and "\<And>k. U' k + arg_count k (c b) = U k + arg_count k ns"
  shows "uses_ok B (c(b := ns)) U'"
  unfolding uses_ok_def
proof
  fix k
  have "(\<Sum>a\<in>B. arg_count k (c a)) = arg_count k (c b) + (\<Sum>a\<in>B - {b}. arg_count k (c a))" using assms(2,3) by (rule sum.remove)
  moreover have "(\<Sum>a\<in>B. arg_count k ((c(b := ns)) a)) = arg_count k ns + (\<Sum>a\<in>B - {b}. arg_count k (c a))"
    using sum.remove [OF assms(2,3), of "\<lambda>a. arg_count k ((c(b := ns)) a)"] by simp
  ultimately show "U' k = (\<Sum>a\<in>B. arg_count k ((c(b := ns)) a))" using assms(1) assms(4) [of k] by (simp add: uses_ok_def)
qed

lemma closed_upd:
  assumes "closed_unit B c" and "b \<in> B" and "ns \<noteq> []" and "last ns = last (c b)"
  shows "closed_unit B (c(b := ns))"
  using assms by (auto simp: closed_unit_def)

lemma live_bound_upd:
  assumes "live_bound B c L" and "b \<in> B" and "last ns = last (c b)"
    and "flags_le (live_code ns (exit_flags L (last ns))) (live_code (c b) (exit_flags L (last ns)))"
  shows "live_bound B (c(b := ns)) L"
  using assms by (auto simp: live_bound_def intro: flags_le_trans)

section \<open>What the classification promises\<close>

lemma run_block_next:
  assumes "closed_unit B c" and "b \<in> B" and "run_block exec branch (c b) s = Inr (b', s')"
  shows "b' \<in> B"
proof -
  have "set (successors (last (c b))) \<subseteq> B" using assms by (simp add: closed_unit_def)
  then show ?thesis using assms(3)
    by (auto simp: run_block_def take_exit_def successors_def split: prod.splits if_splits)
qed

locale ir_semantics =
  fixes cfg :: dfce_config and exec :: "('v, 'm) ir_exec" and branch :: "('v, 'm) ir_branch"
  assumes exec_reads: "\<And>n vs f g m v f' m' w g' m''. agree (reads n) f g \<Longrightarrow> exec n vs f m = (v, f', m') \<Longrightarrow> exec n vs g m = (w, g', m'')
      \<Longrightarrow> v = w \<and> m' = m'' \<and> agree (writes n) f' g'"
    and exec_keeps: "\<And>n vs f m v f' m' i. exec n vs f m = (v, f', m') \<Longrightarrow> \<not> bit (writes n) i \<Longrightarrow> f' i = f i"
    and exec_pure: "\<And>n vs f m v f' m'. exec n vs f m = (v, f', m')
      \<Longrightarrow> \<not> HasSideEffects cfg (Op n) \<or> CanEliminate (Classify n) \<or> Replacement (Classify n) \<noteq> OP_DUMMY \<Longrightarrow> m' = m"
    and exec_replacement: "\<And>n vs f m v f' m'. Replacement (Classify n) \<noteq> OP_DUMMY \<Longrightarrow> exec n vs f m = (v, f', m')
      \<Longrightarrow> \<exists>g. exec (n\<lparr>Op := Replacement (Classify n)\<rparr>) vs f m = (v, g, m')"
    and exec_nowrite: "\<And>n vs f m v f' m'. ReplacementNoWrite (Classify n) \<noteq> OP_DUMMY \<Longrightarrow> exec n vs f m = (v, f', m')
      \<Longrightarrow> \<exists>w. exec (n\<lparr>Op := ReplacementNoWrite (Classify n)\<rparr>) vs f m = (w, f', m')"
    and exec_testz: "\<And>n vs f m v f' m'. Op n = OP_TESTNZ \<Longrightarrow> OpSize n < 4 \<Longrightarrow> exec n vs f m = (v, f', m')
      \<Longrightarrow> \<exists>g. exec (n\<lparr>Op := OP_TESTZ\<rparr>) vs f m = (v, g, m') \<and> g 0 = f' 0 \<and> g 2 = f' 2"
    and branch_reads: "\<And>n vs f g m. agree (reads n) f g \<Longrightarrow> branch n vs f m = branch n vs g m"
    and marked_cfg: "writers_are_marked cfg"
begin

lemma run_op_sim:
  assumes "st_eq K (live_op n X) s t" and "set (Args n) \<inter> K = {}"
  shows "st_eq K X (run_op exec n s) (run_op exec n t)"
proof -
  obtain env f m where s: "s = (env, f, m)" by (cases s)
  obtain env' g m' where t: "t = (env', g, m')" by (cases t)
  from assms(1) have e: "\<And>k. k \<notin> K \<Longrightarrow> env k = env' k" and a: "agree (live_op n X) f g" and m: "m' = m" by (auto simp: st_eq_def s t)
  have vs: "map env (Args n) = map env' (Args n)" using assms(2) e by auto
  obtain v f1 m1 where x: "exec n (map env' (Args n)) f m = (v, f1, m1)" by (cases "exec n (map env' (Args n)) f m")
  obtain w g1 m2 where y: "exec n (map env' (Args n)) g m = (w, g1, m2)" by (cases "exec n (map env' (Args n)) g m")
  have "agree (reads n) f g" using a by (simp add: agree_def bit_live_op)
  from exec_reads [OF this x y] have r: "w = v" "m2 = m1" "agree (writes n) f1 g1" by auto
  have "agree X f1 g1" unfolding agree_def
  proof (intro allI impI)
    fix i assume "bit X i"
    then show "f1 i = g1 i" using r(3) a exec_keeps [OF x, of i] exec_keeps [OF y, of i]
      by (cases "bit (writes n) i") (auto simp: agree_def bit_live_op)
  qed
  then show ?thesis using e by (simp add: run_op_def s t m vs x y r st_eq_def)
qed

lemma run_code_sim:
  assumes "st_eq K (live_code ns X) s t" and "\<forall>n\<in>set ns. set (Args n) \<inter> K = {}"
  shows "st_eq K X (run_code exec ns s) (run_code exec ns t)"
  using assms
proof (induction ns arbitrary: s t)
  case (Cons n ns)
  have "st_eq K (live_code ns X) (run_op exec n s) (run_op exec n t)"
    using run_op_sim [of K n "live_code ns X" s t] Cons.prems by simp
  then show ?case using Cons.IH Cons.prems(2) by simp
qed simp

lemma rewrite_kept:
  assumes "kept n X u op" and "Op n \<noteq> OP_TESTZ" and "exec n vs f m = (v, f', m')"
  obtains w g where "exec (n\<lparr>Op := narrow_test n X op\<rparr>) vs f m = (w, g, m')" and "agree X f' g" and "u \<or> w = v"
proof -
  have "\<exists>w g. exec (n\<lparr>Op := op\<rparr>) vs f m = (w, g, m') \<and> agree X f' g \<and> (u \<or> w = v)"
  proof (cases "op = Op n")
    case True
    then show ?thesis using assms(3) by (auto intro!: exI [of _ v] exI [of _ f'])
  next
    case False
    show ?thesis
    proof (cases "Replacement (Classify n) \<noteq> OP_DUMMY \<and> op = Replacement (Classify n) \<and> X AND Write (Classify n) = 0")
      case True
      with exec_replacement [OF _ assms(3)] obtain g where g: "exec (n\<lparr>Op := op\<rparr>) vs f m = (v, g, m')" by auto
      have w0: "writes (n\<lparr>Op := op\<rparr>) = 0" using classify_replacement [of n] True by (simp add: writes_def)
      have "agree X f' g" unfolding agree_def
      proof (intro allI impI)
        fix i assume "bit X i"
        then have "\<not> bit (writes n) i" using True and_zero_bit by (fastforce simp: writes_classify [OF assms(2)])
        then show "f' i = g i" using exec_keeps [OF assms(3)] exec_keeps [OF g] by (simp add: w0)
      qed
      then show ?thesis using g by blast
    next
      case nr: False
      then have nw: "u" "ReplacementNoWrite (Classify n) \<noteq> OP_DUMMY" "op = ReplacementNoWrite (Classify n)"
        using assms(1) False by (auto simp: kept_def)
      with exec_nowrite [OF nw(2) assms(3)] obtain w where "exec (n\<lparr>Op := op\<rparr>) vs f m = (w, f', m')" by auto
      then show ?thesis using nw by auto
    qed
  qed
  then obtain w g where wg: "exec (n\<lparr>Op := op\<rparr>) vs f m = (w, g, m')" "agree X f' g" "u \<or> w = v" by blast
  show thesis
  proof (cases "op = OP_TESTNZ \<and> OpSize n < 4 \<and> X AND (FLAG_N OR FLAG_C) = 0")
    case False
    then have "narrow_test n X op = op" by (simp add: narrow_test_def)
    then show thesis using that wg by simp
  next
    case True
    have nt: "narrow_test n X op = OP_TESTZ" unfolding narrow_test_def using True by (rule if_P)
    obtain h where h: "exec (n\<lparr>Op := OP_TESTZ\<rparr>) vs f m = (w, h, m')" "h 0 = g 0" "h 2 = g 2"
      using exec_testz [OF _ _ wg(1)] True by auto
    have b: "\<not> bit X 1" "\<not> bit X 3" using sign_carry_dead True by blast+
    have "agree X g h" unfolding agree_def
    proof (intro allI impI)
      fix i assume i: "bit X i"
      have "i \<noteq> 1" "i \<noteq> 3" using i b by metis+
      then consider "i = 0" | "i = 2" | "4 \<le> i" by linarith
      then show "g i = h i"
      proof cases
        case 3
        have k: "\<not> bit (FLAG_NZCV) i" using 3 bit_of_small_flags [of i] by linarith
        have "writes (n\<lparr>Op := OP_TESTZ\<rparr>) = FLAG_NZCV" "writes (n\<lparr>Op := op\<rparr>) = FLAG_NZCV"
          using True by (simp_all add: writes_def Classify_def)
        then show ?thesis using exec_keeps [OF h(1), of i] exec_keeps [OF wg(1), of i] k by simp
      qed (use h in auto)
    qed
    then show thesis using that [of w h] h(1) wg nt by (auto intro: agree_trans)
  qed
qed

lemma op_rewrites:
  assumes "process_op cfg n X U = (r, X', U')"
  shows "st_eq (if U (NodeID n) = 0 then {NodeID n} else {}) X (run_op exec n s) (run_code exec r s)"
proof -
  obtain env f m where s: "s = (env, f, m)" by (cases s)
  obtain v f' m' where x: "exec n (map env (Args n)) f m = (v, f', m')" by (cases "exec n (map env (Args n)) f m")
  from assms show ?thesis
  proof (cases rule: process_op_cases)
    case dead
    then have "writes n = 0" using marked_cfg by (auto simp: writers_are_marked_def)
    then have "f' = f" using exec_keeps [OF x] by auto
    moreover have "m' = m" using exec_pure [OF x] dead by simp
    ultimately show ?thesis using dead x by (simp add: s run_op_def st_eq_def)
  next
    case removed
    have "agree X f' f" unfolding agree_def
      using exec_keeps [OF x] and_zero_bit [OF removed(1)] nontrivial_not_testz [OF removed(4)] by (auto simp: writes_classify)
    moreover have "m' = m" using exec_pure [OF x] removed by simp
    ultimately show ?thesis using removed x by (simp add: s run_op_def st_eq_def)
  next
    case (rewritten op)
    from rewrite_kept [OF rewritten(1) nontrivial_not_testz [OF rewritten(2)] x] obtain w g where
      "exec (n\<lparr>Op := narrow_test n X op\<rparr>) (map env (Args n)) f m = (w, g, m')" "agree X f' g" "U (NodeID n) = 0 \<or> w = v" .
    then show ?thesis using rewritten x by (auto simp: s run_op_def st_eq_def)
  qed simp
qed

lemma take_exit_sim:
  assumes "st_eq K (live_op x (exit_flags L x)) s t" and "set (Args x) \<inter> K = {}" and "is_exit (Op x)"
  shows "next_eq K L (take_exit exec branch x s) (take_exit exec branch x t)"
proof -
  obtain env f m where s: "s = (env, f, m)" by (cases s)
  obtain env' g m' where t: "t = (env', g, m')" by (cases t)
  from assms(1) have e: "\<And>k. k \<notin> K \<Longrightarrow> env k = env' k" and a: "agree (live_op x (exit_flags L x)) f g" and m: "m' = m"
    by (auto simp: st_eq_def s t)
  have vs: "map env (Args x) = map env' (Args x)" using assms(2) e by auto
  have r: "agree (reads x) f g" using a by (simp add: agree_def bit_live_op)
  have sim: "st_eq K (exit_flags L x) (run_op exec x s) (run_op exec x t)" by (rule run_op_sim [OF assms(1,2)])
  have w: "writes x = 0" using exit_info [OF assms(3)] by (simp add: writes_def)
  consider "Op x = OP_CONDJUMP" | "Op x = OP_JUMP" | "Op x \<noteq> OP_CONDJUMP" "Op x \<noteq> OP_JUMP" by blast
  then show ?thesis
  proof cases
    case 1
    have le: "flags_le (L (if c then TrueBlock x else FalseBlock x)) (exit_flags L x)" for c
      using 1 by (simp add: exit_flags_def flags_le_or1 flags_le_or2)
    have b: "branch x (map env' (Args x)) f m = branch x (map env' (Args x)) g m" by (rule branch_reads [OF r])
    show ?thesis using 1 st_eq_sub [OF sim le] b by (simp add: take_exit_def s t vs m)
  next
    case 2
    then show ?thesis using sim by (simp add: take_exit_def s t exit_flags_def)
  next
    case 3
    have "visible x f = visible x g"
    proof
      fix i show "visible x f i = visible x g i"
      proof (cases "i < 4 \<and> \<not> (Op x = OP_EXITFUNCTION \<and> NZCVDeadAtTarget x)")
        case True
        then have "bit (exit_flags L x) i" using 3 all_flags_bit [of i] by (simp add: exit_flags_def)
        then show ?thesis using a w by (simp add: visible_def agree_def bit_live_op)
      qed (auto simp: visible_def)
    qed
    then show ?thesis using 3 by (simp add: take_exit_def s t vs m)
  qed
qed

lemma run_block_sim:
  assumes "st_eq K X s t" and "flags_le (live_code ns (exit_flags L (last ns))) X"
    and "\<forall>n\<in>set ns. set (Args n) \<inter> K = {}" and "ns \<noteq> []" and "is_exit (Op (last ns))"
  shows "next_eq K L (run_block exec branch ns s) (run_block exec branch ns t)"
proof -
  have ns: "ns = butlast ns @ [last ns]" using assms(4) by simp
  have l: "live_code ns Y = live_code (butlast ns) (live_op (last ns) Y)" for Y
    by (subst ns) simp
  have "st_eq K (live_code (butlast ns) (live_op (last ns) (exit_flags L (last ns)))) s t"
    using st_eq_sub [OF assms(1,2)] by (simp add: l)
  moreover have "\<forall>n\<in>set (butlast ns). set (Args n) \<inter> K = {}" using assms(3) by (auto dest: in_set_butlastD)
  ultimately have "st_eq K (live_op (last ns) (exit_flags L (last ns))) (run_code exec (butlast ns) s) (run_code exec (butlast ns) t)"
    by (rule run_code_sim)
  then show ?thesis unfolding run_block_def by (rule take_exit_sim) (use assms in auto)
qed

lemma run_unit_sim:
  assumes "closed_unit B c"
    and sim: "\<And>b s t. b \<in> B \<Longrightarrow> st_eq K (L b) s t \<Longrightarrow> next_eq K L (run_block exec branch (c b) s) (run_block exec' branch (d b) t)"
    and "b \<in> B" and "st_eq K (L b) s t"
  shows "run_unit k exec branch c b s = run_unit k exec' branch d b t"
  using assms(3,4)
proof (induction k arbitrary: b s t)
  case (Suc k)
  note r = sim [OF Suc.prems]
  show ?case
  proof (cases "run_block exec branch (c b) s")
    case (Inl x)
    then obtain y where "run_block exec' branch (d b) t = Inl y" "x = y"
      using r by (cases "run_block exec' branch (d b) t") auto
    then show ?thesis using Inl by simp
  next
    case (Inr p)
    obtain b' s' where p: "p = (b', s')" by (cases p)
    from r Inr p obtain t' where t': "run_block exec' branch (d b) t = Inr (b', t')" "st_eq K (L b') s' t'"
      by (cases "run_block exec' branch (d b) t") auto
    have "b' \<in> B" using run_block_next [OF assms(1) Suc.prems(1)] Inr p by blast
    from Suc.IH [OF this t'(2)] show ?thesis using Inr p t'(1) by simp
  qed
qed simp

lemma rewritten_block_sim:
  assumes st: "st_eq K X0 s t" and le: "flags_le (live_code (pre @ n # suf) (exit_flags L (last suf))) X0"
    and args: "\<forall>m\<in>set (pre @ n # suf). set (Args m) \<inter> K = {}" and ex: "suf \<noteq> []" "is_exit (Op (last suf))"
    and r: "\<And>s. st_eq K X (run_op exec n s) (run_code exec r s)"
    and X: "flags_le (live_code suf (exit_flags L (last suf))) X"
  shows "next_eq K L (run_block exec branch (pre @ n # suf) s) (run_block exec branch (pre @ r @ suf) t)"
proof -
  let ?S = "live_code suf (exit_flags L (last suf))"
  have app: "run_block exec branch (xs @ suf) u = run_block exec branch suf (run_code exec xs u)" for xs u
    using ex by (simp add: run_block_def butlast_append)
  have "st_eq K (live_code (pre @ [n]) ?S) s t" using st_eq_sub [OF st le] by simp
  from run_code_sim [OF this] args have "st_eq K ?S (run_code exec (pre @ [n]) s) (run_code exec (pre @ [n]) t)" by simp
  moreover have "st_eq K ?S (run_code exec (pre @ [n]) t) (run_code exec (pre @ r) t)"
    using st_eq_sub [OF r X] by simp
  ultimately have "st_eq K ?S (run_code exec (pre @ [n]) s) (run_code exec (pre @ r) t)" by (rule st_eq_trans)
  from run_block_sim [OF this, of suf L] args ex show ?thesis using app [of "pre @ [n]"] app [of "pre @ r"] by simp
qed

lemma rewrite_unit:
  assumes c: "closed_unit B c" "live_bound B c L" "uses_ok B c U" "finite B" and b: "b \<in> B" "c b = pre @ n # suf" "suf \<noteq> []"
    and p: "process_op cfg n X U = (r, X', U')" and X: "flags_le (live_code suf (exit_flags L (last suf))) X" and b0: "b0 \<in> B"
  shows "run_unit k exec branch c b0 s = run_unit k exec branch (c(b := pre @ r @ suf)) b0 s"
proof -
  let ?K = "if U (NodeID n) = 0 then {NodeID n} else {}"
  have args: "\<forall>m\<in>set (c a). set (Args m) \<inter> ?K = {}" if "a \<in> B" for a
  proof (cases "U (NodeID n) = 0")
    case True
    then have "(\<Sum>b\<in>B. arg_count (NodeID n) (c b)) = 0" using c(3) by (simp add: uses_ok_def)
    then have "arg_count (NodeID n) (c a) = 0" using c(4) that by simp
    then show ?thesis using arg_count_zero by auto
  qed simp
  have cb: "c a \<noteq> []" "is_exit (Op (last (c a)))" "flags_le (live_code (c a) (exit_flags L (last (c a)))) (L a)" if "a \<in> B" for a
    using c(1,2) that by (auto simp: closed_unit_def live_bound_def)
  show ?thesis
  proof (rule run_unit_sim [OF c(1), where K = ?K and L = L])
    fix a and s t :: "('v, 'm) ir_state" assume a: "a \<in> B" and st: "st_eq ?K (L a) s t"
    show "next_eq ?K L (run_block exec branch (c a) s) (run_block exec branch ((c(b := pre @ r @ suf)) a) t)"
    proof (cases "a = b")
      case False
      then show ?thesis using run_block_sim [OF st cb(3) [OF a] args [OF a] cb(1,2) [OF a]] by simp
    next
      case True
      have l: "last (pre @ n # suf) = last suf" using b(3) by simp
      show ?thesis using True rewritten_block_sim [OF st, of pre n suf L X r] cb [OF b(1)] args [OF b(1)] b(2,3) op_rewrites [OF p] X
        by (simp add: l)
    qed
  qed (use b0 in simp_all)
qed

lemma process_code_run:
  assumes "closed_unit B c" "live_bound B c L" "uses_ok B c U" "finite B" "b \<in> B" "b0 \<in> B"
    and "c b = pre @ ns" "ns \<noteq> []" "process_code cfg ns X U = (ns', X', U')" "flags_le (exit_flags L (last ns)) X"
  shows "run_unit k exec branch c b0 s = run_unit k exec branch (c(b := pre @ ns')) b0 s \<and> uses_ok B (c(b := pre @ ns')) U'"
  using assms(7-)
proof (induction ns arbitrary: pre ns' X' U')
  case (Cons n ns)
  obtain t X1 U1 where t: "process_code cfg ns X U = (t, X1, U1)" by (cases "process_code cfg ns X U")
  obtain r where r: "process_op cfg n X1 U1 = (r, X', U')" "ns' = r @ t"
    using Cons.prems(3) t by (auto split: prod.splits)
  have ex: "is_exit (Op (last (n # ns)))" using assms(1,5) Cons.prems(1,2) by (auto simp: closed_unit_def)
  show ?case
  proof (cases "ns = []")
    case True
    then have "ns' = [n]" "U' = U" using process_exit [of n cfg X1 U1] ex marked_cfg r t by auto
    moreover have "c(b := pre @ [n]) = c" using Cons.prems(1) True by (simp add: fun_upd_idem)
    ultimately show ?thesis using assms(3) by simp
  next
    case ne: False
    let ?d = "c(b := pre @ n # t)"
    have le: "flags_le (exit_flags L (last ns)) X" using Cons.prems(4) ne by simp
    have "c b = (pre @ [n]) @ ns" using Cons.prems(1) by simp
    from Cons.IH [OF this ne t le] have IH: "run_unit k exec branch c b0 s = run_unit k exec branch ?d b0 s" "uses_ok B ?d U1"
      unfolding append_assoc append.simps by blast+
    have tn: "t \<noteq> []" "last t = last ns" using process_code_exit [OF t ne] ex ne marked_cfg by auto
    have cl: "closed_unit B ?d" by (rule closed_upd) (use assms(1,2,5) Cons.prems(1) ne tn in auto)
    have lt: "flags_le (live_code t (exit_flags L (last ns))) (live_code ns (exit_flags L (last ns)))"
      "flags_le (live_code t (exit_flags L (last ns))) X1"
      using process_code_live [OF t le marked_cfg] by auto
    have lb: "live_bound B ?d L"
      by (rule live_bound_upd) (use assms(1,2,5) Cons.prems(1) ne tn in \<open>auto intro!: live_code_mono live_op_mono lt\<close>)
    have "run_unit k exec branch ?d b0 s = run_unit k exec branch (?d(b := pre @ r @ t)) b0 s"
      by (rule rewrite_unit [OF cl lb IH(2) assms(4,5) _ tn(1) r(1) _ assms(6)]) (use lt tn in auto)
    moreover have "uses_ok B (?d(b := pre @ r @ t)) U'"
    proof (rule uses_ok_upd [OF IH(2) assms(4,5)])
      fix k
      have "count_list (Args n) k \<le> U1 k" using uses_le [OF IH(2) assms(4,5), of k] by simp
      from process_op_uses [OF r(1) this] show "U' k + arg_count k (?d b) = U1 k + arg_count k (pre @ r @ t)" by simp
    qed
    ultimately show ?thesis unfolding r(2) fun_upd_upd IH(1) by blast
  qed
qed simp

end

section \<open>The unit\<close>

text \<open>
  The invariant of the pass: use counts are exact, blocks without the mark hold no flag operation, the
  worklist and the edges stay inside the unit, and the flags kept for the blocks bound some
  solution of the liveness equations of the unit as it is now.
\<close>

definition dfce_ok :: "nat set \<Rightarrow> dfce \<Rightarrow> bool" where
  "dfce_ok B s \<longleftrightarrow>
     set (Order s) = B \<and> closed_unit B (Code s) \<and> uses_ok B (Code s) (NumUses s)
     \<and> (\<forall>b\<in>B. \<not> HasFlags s b \<longrightarrow> (\<forall>n\<in>set (Code s b). \<not> IsFlagOp (Op n)))
     \<and> set (Worklist s) \<subseteq> B \<and> (\<forall>b\<in>B. set (Predecessors s b) \<subseteq> B)
     \<and> (\<exists>L. live_bound B (Code s) L \<and> (\<forall>b\<in>B. flags_le (L b) (BlockFlags s b)))"

lemma exit_flags_mono:
  assumes "\<And>b. b \<in> set (successors x) \<Longrightarrow> flags_le (F b) (G b)"
  shows "flags_le (exit_flags F x) (exit_flags G x)"
  using assms by (auto simp: exit_flags_def successors_def flags_le_or intro: flags_le_or1 flags_le_or2)

lemma bound_step:
  assumes lb: "live_bound B c L" and cl: "closed_unit B c" and b: "b \<in> B" and x: "last ns = last (c b)"
    and le: "\<And>Y. flags_le Y (exit_flags F (last ns)) \<Longrightarrow> flags_le (live_code ns Y) (live_code (c b) Y) \<and> flags_le (live_code ns Y) X"
    and F: "\<forall>a\<in>B. flags_le (L a) (F a)"
  shows "\<exists>M. live_bound B (c(b := ns)) M \<and> (\<forall>a\<in>B. flags_le (M a) ((F(b := X)) a))"
proof -
  let ?Y = "exit_flags L (last ns)" and ?M = "L(b := live_code ns (exit_flags L (last ns)))"
  have su: "set (successors (last (c a))) \<subseteq> B" if "a \<in> B" for a using cl that by (simp add: closed_unit_def)
  have Y: "flags_le ?Y (exit_flags F (last ns))" by (rule exit_flags_mono) (use su [OF b] F x in auto)
  have MleL: "flags_le (?M a) (L a)" if "a \<in> B" for a
    using le [OF Y] lb that x by (auto simp: live_bound_def intro: flags_le_trans)
  have e: "flags_le (exit_flags ?M (last (c a))) (exit_flags L (last (c a)))" if "a \<in> B" for a
    by (rule exit_flags_mono) (use su [OF that] MleL in blast)
  have "live_bound B (c(b := ns)) ?M" unfolding live_bound_def
  proof
    fix a assume a: "a \<in> B"
    show "flags_le (live_code ((c(b := ns)) a) (exit_flags ?M (last ((c(b := ns)) a)))) (?M a)"
    proof (cases "a = b")
      case True
      then show ?thesis using live_code_mono [OF e [OF b], of ns] x by simp
    next
      case False
      then show ?thesis using live_code_mono [OF e [OF a], of "c a"] lb a by (auto simp: live_bound_def intro: flags_le_trans)
    qed
  qed
  then show ?thesis using le [OF Y] F by (intro exI [of _ ?M]) auto
qed

lemma live_unmarked: "\<forall>n\<in>set ns. \<not> IsFlagOp (Op n) \<Longrightarrow> flags_le (live_code ns Y) Y"
proof (induction ns)
  case (Cons n ns)
  then have "reads n = 0" by (simp add: writes_and_read_unmarked)
  then show ?case using Cons by (auto simp: flags_le_def bit_live_op)
qed simp

lemma ProcessBlock_unmarked:
  assumes "\<not> HasFlags s b" and "ProcessBlock cfg b s = (ch, s')"
  shows "Code s' = Code s" "BlockFlags s' = (BlockFlags s)(b := exit_flags (BlockFlags s) (last (Code s b)))" "Order s' = Order s"
    "NumUses s' = NumUses s" "HasFlags s' = HasFlags s" "Worklist s' = Worklist s" "Predecessors s' = Predecessors s"
  using assms by (auto simp: ProcessBlock_def Let_def)

lemma ProcessBlock_marked:
  assumes "HasFlags s b" and "ProcessBlock cfg b s = (ch, s')"
    and "process_code cfg (Code s b) (exit_flags (BlockFlags s) (last (Code s b))) (NumUses s) = (ns, X, U)"
  shows "Code s' = (Code s)(b := ns)" "BlockFlags s' = (BlockFlags s)(b := X)" "Order s' = Order s" "NumUses s' = U"
    "HasFlags s' = HasFlags s" "Worklist s' = Worklist s" "Predecessors s' = Predecessors s"
  using assms by (auto simp: ProcessBlock_def Let_def)

lemma ProcessBlock_ok:
  assumes ok: "dfce_ok B s" and m: "writers_are_marked cfg" and b: "b \<in> B" and p: "ProcessBlock cfg b s = (ch, s')"
  shows "dfce_ok B s'"
proof -
  let ?x = "last (Code s b)" and ?F = "BlockFlags s"
  have o: "set (Order s) = B" "closed_unit B (Code s)" "uses_ok B (Code s) (NumUses s)" using ok by (auto simp: dfce_ok_def)
  have fin: "finite B" using o(1) by auto
  obtain L where L: "live_bound B (Code s) L" "\<forall>a\<in>B. flags_le (L a) (?F a)" using ok by (auto simp: dfce_ok_def)
  show ?thesis
  proof (cases "HasFlags s b")
    case False
    have u: "\<forall>n\<in>set (Code s b). \<not> IsFlagOp (Op n)" using ok b False by (simp add: dfce_ok_def)
    have "\<exists>M. live_bound B ((Code s)(b := Code s b)) M \<and> (\<forall>a\<in>B. flags_le (M a) ((?F(b := exit_flags ?F ?x)) a))"
      by (rule bound_step [OF L(1) o(2) b _ _ L(2)]) (auto intro: flags_le_trans [OF live_unmarked [OF u]])
    then show ?thesis using ok by (simp add: dfce_ok_def ProcessBlock_unmarked [OF False p])
  next
    case True
    obtain ns' X U where pc: "process_code cfg (Code s b) (exit_flags ?F ?x) (NumUses s) = (ns', X, U)"
      by (cases "process_code cfg (Code s b) (exit_flags ?F ?x) (NumUses s)")
    note s' = ProcessBlock_marked [OF True p pc]
    have cb: "Code s b \<noteq> []" "is_exit (Op ?x)" "set (successors ?x) \<subseteq> B" using o(2) b by (auto simp: closed_unit_def)
    have ns': "ns' \<noteq> []" "last ns' = ?x" using process_code_exit [OF pc cb(1,2) m] by auto
    have "\<exists>M. live_bound B ((Code s)(b := ns')) M \<and> (\<forall>a\<in>B. flags_le (M a) ((?F(b := X)) a))"
      by (rule bound_step [OF L(1) o(2) b ns'(2) _ L(2)]) (use process_code_live [OF pc _ m] ns'(2) in auto)
    moreover have "uses_ok B ((Code s)(b := ns')) U"
      by (rule uses_ok_upd [OF o(3) fin b process_code_uses [OF pc uses_le [OF o(3) fin b]]])
    moreover have "closed_unit B ((Code s)(b := ns'))" by (rule closed_upd [OF o(2) b ns'])
    ultimately show ?thesis using ok s' True by (auto simp: dfce_ok_def)
  qed
qed

context ir_semantics
begin

lemma ProcessBlock_sound:
  assumes ok: "dfce_ok B s" and b: "b \<in> B" and p: "ProcessBlock cfg b s = (ch, s')" and b0: "b0 \<in> B"
  shows "run_unit k exec branch (Code s') b0 st = run_unit k exec branch (Code s) b0 st"
proof -
  let ?x = "last (Code s b)" and ?F = "BlockFlags s"
  have o: "set (Order s) = B" "closed_unit B (Code s)" "uses_ok B (Code s) (NumUses s)" using ok by (auto simp: dfce_ok_def)
  have fin: "finite B" using o(1) by auto
  obtain L where L: "live_bound B (Code s) L" "\<forall>a\<in>B. flags_le (L a) (?F a)" using ok by (auto simp: dfce_ok_def)
  show ?thesis
  proof (cases "HasFlags s b")
    case False
    then show ?thesis by (simp add: ProcessBlock_unmarked [OF False p])
  next
    case True
    obtain ns' X U where pc: "process_code cfg (Code s b) (exit_flags ?F ?x) (NumUses s) = (ns', X, U)"
      by (cases "process_code cfg (Code s b) (exit_flags ?F ?x) (NumUses s)")
    have cb: "Code s b \<noteq> []" "set (successors ?x) \<subseteq> B" using o(2) b by (auto simp: closed_unit_def)
    have le: "flags_le (exit_flags L ?x) (exit_flags ?F ?x)" by (rule exit_flags_mono) (use cb(2) L(2) in blast)
    show ?thesis unfolding ProcessBlock_marked(1) [OF True p pc]
      using process_code_run [OF o(2) L(1) o(3) fin b b0 _ cb(1) pc le, of "[]"] by simp
  qed
qed

end

end
