(* ===== verification/FlagElimRun.thy ===== *)
theory FlagElimRun
  imports FlagElimSound
begin

text \<open>
  The worklist of the flag elimination: the loop keeps what the unit computes, it ends, and it ends
  in a solution of the liveness equations.
\<close>

section \<open>The start\<close>

definition ir_unit_ok :: "dfce \<Rightarrow> bool" where
  "ir_unit_ok s \<longleftrightarrow>
     set (Order s) = {..<length (Order s)} \<and> closed_unit (set (Order s)) (Code s) \<and> uses_ok (set (Order s)) (Code s) (NumUses s)
     \<and> (\<forall>b\<in>set (Order s). \<not> HasFlags s b \<longrightarrow> (\<forall>n\<in>set (Code s b). \<not> IsFlagOp (Op n)))"

lemma RecordEdge_sel [simp]:
  "Order (RecordEdge a b s) = Order s" "Code (RecordEdge a b s) = Code s" "HasFlags (RecordEdge a b s) = HasFlags s"
  "NumUses (RecordEdge a b s) = NumUses s" "BlockFlags (RecordEdge a b s) = BlockFlags s" "EntryUndefined (RecordEdge a b s) = EntryUndefined s"
  "InWorklist (RecordEdge a b s) = InWorklist s" "Worklist (RecordEdge a b s) = Worklist s"
  "set (Predecessors (RecordEdge a b s) c) = (if c = b then insert a (set (Predecessors s c)) else set (Predecessors s c))"
  by (simp_all add: RecordEdge_def)

lemma record_edges_sel [simp]:
  "Order (fold (RecordEdge a) bs s) = Order s" "Code (fold (RecordEdge a) bs s) = Code s" "HasFlags (fold (RecordEdge a) bs s) = HasFlags s"
  "NumUses (fold (RecordEdge a) bs s) = NumUses s" "BlockFlags (fold (RecordEdge a) bs s) = BlockFlags s" "EntryUndefined (fold (RecordEdge a) bs s) = EntryUndefined s"
  "InWorklist (fold (RecordEdge a) bs s) = InWorklist s" "Worklist (fold (RecordEdge a) bs s) = Worklist s"
  "set (Predecessors (fold (RecordEdge a) bs s) c) = (if c \<in> set bs then insert a (set (Predecessors s c)) else set (Predecessors s c))"
  by (induction bs arbitrary: s) auto

lemma gather_sel [simp]:
  "Order (fold gather_block bs s) = Order s" "Code (fold gather_block bs s) = Code s" "HasFlags (fold gather_block bs s) = HasFlags s"
  "NumUses (fold gather_block bs s) = NumUses s" "BlockFlags (fold gather_block bs s) = BlockFlags s" "EntryUndefined (fold gather_block bs s) = EntryUndefined s"
  "InWorklist (fold gather_block bs s) = InWorklist s" "Worklist (fold gather_block bs s) = Worklist s"
  "set (Predecessors (fold gather_block bs s) c) = set (Predecessors s c) \<union> {a \<in> set bs. c \<in> set (successors (exit_op (Code s a)))}"
  by (induction bs arbitrary: s) (auto simp: gather_block_def)

lemma dfce_start_sel:
  assumes "ir_unit_ok s"
  shows "Order (dfce_start s) = Order s" "Code (dfce_start s) = Code s" "HasFlags (dfce_start s) = HasFlags s" "NumUses (dfce_start s) = NumUses s"
    "Worklist (dfce_start s) = [0..<length (Order s)]"
    "\<And>b. b \<in> set (Order s) \<Longrightarrow> BlockFlags (dfce_start s) b = FLAG_ALL \<and> InWorklist (dfce_start s) b \<and> EntryUndefined (dfce_start s) b = 0
      \<and> set (Predecessors (dfce_start s) b) = {a \<in> set (Order s). b \<in> set (successors (exit_op (Code s a)))}"
  using assms by (simp_all add: dfce_start_def CFG_Init_def Let_def ir_unit_ok_def)

lemma reads_low: "flags_le (reads n) FLAG_ALL"
  unfolding flags_le_def
proof (intro allI impI)
  fix i assume "bit (reads n) i"
  then have "bit (Read (Classify n) AND FLAG_ALL) i" by (simp only: classify_read_low reads_def)
  then show "bit FLAG_ALL i" by (simp only: bit_and_iff)
qed

lemma live_op_le: "flags_le X Z \<Longrightarrow> flags_le (reads n) Z \<Longrightarrow> flags_le (live_op n X) Z"
  by (auto simp: flags_le_def bit_live_op)

lemma live_low: "flags_le X FLAG_ALL \<Longrightarrow> flags_le (live_code ns X) FLAG_ALL"
  by (induction ns) (simp_all add: live_op_le reads_low)

lemma exit_flags_low:
  assumes "\<And>b. b \<in> set (successors x) \<Longrightarrow> flags_le (F b) FLAG_ALL"
  shows "flags_le (exit_flags F x) FLAG_ALL"
  using assms by (auto simp: exit_flags_def successors_def flags_le_or)

lemma all_live_bound: "live_bound B c (\<lambda>_. FLAG_ALL)"
  unfolding live_bound_def by (intro ballI live_low exit_flags_low flags_le_refl)

lemma dfce_start_ok:
  assumes "ir_unit_ok s"
  shows "dfce_ok (set (Order s)) (dfce_start s)"
proof -
  note d = dfce_start_sel [OF assms]
  have "\<exists>L. live_bound (set (Order s)) (Code s) L \<and> (\<forall>b\<in>set (Order s). flags_le (L b) (BlockFlags (dfce_start s) b))"
    by (rule exI [of _ "\<lambda>_. FLAG_ALL"]) (simp add: all_live_bound d(6))
  then show ?thesis using assms d(6) by (auto simp: dfce_ok_def d(1-5) ir_unit_ok_def)
qed

section \<open>The loop keeps the unit\<close>

lemma AddWorklist_sel [simp]:
  "Order (AddWorklist b s) = Order s" "Code (AddWorklist b s) = Code s" "HasFlags (AddWorklist b s) = HasFlags s"
  "NumUses (AddWorklist b s) = NumUses s" "BlockFlags (AddWorklist b s) = BlockFlags s" "EntryUndefined (AddWorklist b s) = EntryUndefined s"
  "Predecessors (AddWorklist b s) = Predecessors s" "InWorklist (AddWorklist b s) a \<longleftrightarrow> InWorklist s a \<or> a = b"
  by (auto simp: AddWorklist_def)

lemma add_all_sel [simp]:
  "Order (fold AddWorklist bs s) = Order s" "Code (fold AddWorklist bs s) = Code s" "HasFlags (fold AddWorklist bs s) = HasFlags s"
  "NumUses (fold AddWorklist bs s) = NumUses s" "BlockFlags (fold AddWorklist bs s) = BlockFlags s" "EntryUndefined (fold AddWorklist bs s) = EntryUndefined s"
  "Predecessors (fold AddWorklist bs s) = Predecessors s"
  by (induction bs arbitrary: s) simp_all

text \<open>New entries are put in front of the old ones: those not yet marked, each once.\<close>

lemma add_all_worklist:
  obtains new where "Worklist (fold AddWorklist bs s) = new @ Worklist s" and "distinct new"
    and "set new = {b \<in> set bs. \<not> InWorklist s b}" and "\<And>b. InWorklist (fold AddWorklist bs s) b \<longleftrightarrow> InWorklist s b \<or> b \<in> set bs"
proof -
  have "\<exists>new. Worklist (fold AddWorklist bs s) = new @ Worklist s \<and> distinct new \<and> set new = {b \<in> set bs. \<not> InWorklist s b}
    \<and> (\<forall>b. InWorklist (fold AddWorklist bs s) b \<longleftrightarrow> InWorklist s b \<or> b \<in> set bs)"
  proof (induction bs arbitrary: s)
    case (Cons b bs)
    from Cons [of "AddWorklist b s"] obtain new where n:
      "Worklist (fold AddWorklist bs (AddWorklist b s)) = new @ Worklist (AddWorklist b s)" "distinct new"
      "set new = {a \<in> set bs. \<not> (InWorklist s a \<or> a = b)}"
      "\<forall>a. InWorklist (fold AddWorklist bs (AddWorklist b s)) a \<longleftrightarrow> (InWorklist s a \<or> a = b) \<or> a \<in> set bs" by auto
    show ?case
    proof (cases "InWorklist s b")
      case True
      then have "AddWorklist b s = s" by (simp add: AddWorklist_def)
      then show ?thesis using n True by (intro exI [of _ new]) auto
    next
      case False
      then have "Worklist (AddWorklist b s) = b # Worklist s" by (simp add: AddWorklist_def)
      then show ?thesis using n False by (intro exI [of _ "new @ [b]"]) auto
    qed
  qed simp
  then show thesis using that by blast
qed

lemma dfce_step_ok:
  assumes ok: "dfce_ok B s" and m: "writers_are_marked cfg" and ne: "Worklist s \<noteq> []"
  shows "dfce_ok B (dfce_step cfg s)"
proof -
  let ?b = "last (Worklist s)" and ?s = "s\<lparr>InWorklist := (InWorklist s)(last (Worklist s) := False)\<rparr>"
  obtain ch s1 where p: "ProcessBlock cfg ?b ?s = (ch, s1)" by (cases "ProcessBlock cfg ?b ?s")
  have b: "?b \<in> B" using ok ne by (auto simp: dfce_ok_def)
  have "dfce_ok B ?s" using ok by (simp add: dfce_ok_def)
  note P = ProcessBlock_ok [OF this m b p]
  define s2 where "s2 = (if ch then fold AddWorklist (Predecessors s1 ?b) s1 else s1)"
  have st: "dfce_step cfg s = s2\<lparr>Worklist := butlast (Worklist s2)\<rparr>" by (simp add: dfce_step_def Let_def p s2_def)
  have s2: "Order s2 = Order s1" "Code s2 = Code s1" "HasFlags s2 = HasFlags s1" "NumUses s2 = NumUses s1" "BlockFlags s2 = BlockFlags s1"
    "Predecessors s2 = Predecessors s1" by (simp_all add: s2_def)
  have "set (Worklist s2) \<subseteq> B"
  proof (rule add_all_worklist [of "Predecessors s1 ?b" s1])
    fix new assume "Worklist (fold AddWorklist (Predecessors s1 ?b) s1) = new @ Worklist s1" "set new = {b \<in> set (Predecessors s1 ?b). \<not> InWorklist s1 b}"
    then show ?thesis using P b by (auto simp: s2_def dfce_ok_def)
  qed
  then have "set (butlast (Worklist s2)) \<subseteq> B" by (auto dest: in_set_butlastD)
  then show ?thesis using P by (simp add: st dfce_ok_def s2)
qed

context ir_semantics
begin

lemma dfce_step_sound:
  assumes ok: "dfce_ok B s" and ne: "Worklist s \<noteq> []" and b0: "b0 \<in> B"
  shows "run_unit k exec branch (Code (dfce_step cfg s)) b0 st = run_unit k exec branch (Code s) b0 st"
proof -
  let ?b = "last (Worklist s)" and ?s = "s\<lparr>InWorklist := (InWorklist s)(last (Worklist s) := False)\<rparr>"
  obtain ch s1 where p: "ProcessBlock cfg ?b ?s = (ch, s1)" by (cases "ProcessBlock cfg ?b ?s")
  have b: "?b \<in> B" and ok': "dfce_ok B ?s" using ok ne by (auto simp: dfce_ok_def)
  have "Code (dfce_step cfg s) = Code s1" by (simp add: dfce_step_def Let_def p)
  then show ?thesis using ProcessBlock_sound [OF ok' b p b0] by simp
qed

lemma dfce_loop_sound:
  assumes "dfce_ok B s" and "dfce_loop fuel cfg s = Some s'"
  shows "dfce_ok B s' \<and> (b0 \<in> B \<longrightarrow> run_unit k exec branch (Code s') b0 st = run_unit k exec branch (Code s) b0 st)"
  using assms
proof (induction fuel arbitrary: s)
  case 0
  then show ?case by (subst (asm) dfce_loop.simps) (auto split: if_splits)
next
  case (Suc fuel)
  show ?case
  proof (cases "Worklist s = []")
    case True
    then have "s' = s" using Suc.prems(2) by (subst (asm) dfce_loop.simps) simp
    then show ?thesis using Suc.prems(1) by simp
  next
    case False
    then have "dfce_loop fuel cfg (dfce_step cfg s) = Some s'" using Suc.prems(2) by (subst (asm) dfce_loop.simps) simp
    from Suc.IH [OF dfce_step_ok [OF Suc.prems(1) marked_cfg False] this] show ?thesis
      using dfce_step_sound [OF Suc.prems(1) False] by simp
  qed
qed

end

section \<open>The loop ends in a solution\<close>

text \<open>
  \<open>TestZ\<close> only comes from a test of fewer than 32 bits. Without such tests the classification is exact, and
  the flags of a block never grow.
\<close>

definition wide_op :: "ir_op \<Rightarrow> bool" where
  "wide_op n \<longleftrightarrow> Op n \<noteq> OP_TESTZ \<and> (Op n = OP_TESTNZ \<or> Op n = OP_ANDWITHFLAGS \<longrightarrow> 4 \<le> OpSize n)"

lemma replacement_not_test: "Replacement (Classify n) \<noteq> OP_TESTNZ \<and> Replacement (Classify n) \<noteq> OP_ANDWITHFLAGS"
  by (cases "Op n") (simp_all add: Classify_def)

lemma nowrite_test:
  "ReplacementNoWrite (Classify n) \<noteq> OP_ANDWITHFLAGS \<and> (ReplacementNoWrite (Classify n) = OP_TESTNZ \<longrightarrow> Op n = OP_ANDWITHFLAGS)"
  by (cases "Op n") (simp_all add: Classify_def)

lemma kept_wide:
  assumes "kept n X u op" and "wide_op n"
  shows "narrow_test n X op = op" and "wide_op (n\<lparr>Op := op\<rparr>)"
proof -
  have nz: "Op n \<noteq> OP_TESTZ" using assms(2) by (simp add: wide_op_def)
  have t: "op = OP_TESTNZ \<or> op = OP_ANDWITHFLAGS \<Longrightarrow> 4 \<le> OpSize n"
    using assms replacement_not_test [of n] nowrite_test [of n] by (auto simp: kept_def wide_op_def)
  then show "narrow_test n X op = op" by (auto simp: narrow_test_def)
  show "wide_op (n\<lparr>Op := op\<rparr>)" using t kept_sets(3) [OF assms(1) nz] by (simp add: wide_op_def)
qed

lemma live_dead_write: "X AND writes n = 0 \<Longrightarrow> reads n = 0 \<Longrightarrow> live_op n X = X"
  by (rule bit_eqI) (auto simp: bit_live_op dest: and_zero_bit)

lemma process_op_exact:
  assumes p: "process_op cfg n X U = (r, X', U')" and w: "wide_op n"
  shows "X' = live_code r X \<and> (\<forall>m\<in>set r. wide_op m)"
  using p
proof (cases rule: process_op_cases)
  case plain
  then have "writes n = 0" "reads n = 0" using w by (simp_all add: reads_def writes_def Trivial_def wide_op_def)
  then show ?thesis using plain w by (simp add: live_dead_write)
next
  case removed
  have "X AND NOT (Write (Classify n)) = X"
    by (rule bit_eqI) (use and_zero_bit [OF removed(1)] in \<open>auto simp: bit_and_iff bit_not_iff dest: bit_imp_le_length\<close>)
  then show ?thesis using removed by simp
next
  case (rewritten op)
  have nz: "Op n \<noteq> OP_TESTZ" using w by (simp add: wide_op_def)
  note k = kept_wide [OF rewritten(1) w]
  have rd: "reads (n\<lparr>Op := op\<rparr>) = reads n" by (rule kept_sets(1) [OF rewritten(1) nz])
  have "live_op (n\<lparr>Op := op\<rparr>) X = live_op n X"
    by (rule bit_eqI) (use kept_sets(2) [OF rewritten(1) nz] and_zero_bit in \<open>auto simp: bit_live_op rd\<close>)
  moreover have "X' = live_op n X" using rewritten(4) by (simp add: live_op_def writes_classify [OF nz] reads_def)
  ultimately show ?thesis using rewritten k by simp
qed simp

lemma process_code_exact:
  assumes "process_code cfg ns X U = (ns', X', U')" and "\<forall>n\<in>set ns. wide_op n"
  shows "X' = live_code ns' X \<and> (\<forall>n\<in>set ns'. wide_op n)"
  using assms
proof (induction ns arbitrary: ns' X' U')
  case (Cons n ns)
  obtain t X1 U1 where t: "process_code cfg ns X U = (t, X1, U1)" by (cases "process_code cfg ns X U")
  obtain r where r: "process_op cfg n X1 U1 = (r, X', U')" "ns' = r @ t"
    using Cons.prems(1) t by (auto split: prod.splits)
  show ?case using process_op_exact [OF r(1)] Cons.IH [OF t] Cons.prems(2) r(2) by auto
qed simp

lemma live_unmarked_wide: "\<forall>n\<in>set ns. \<not> IsFlagOp (Op n) \<and> wide_op n \<Longrightarrow> live_code ns Y = Y"
  by (induction ns) (simp_all add: live_dead_write writes_and_read_unmarked writes_classify wide_op_def)

definition dfce_exact :: "nat set \<Rightarrow> dfce \<Rightarrow> bool" where
  "dfce_exact B s \<longleftrightarrow>
     (\<forall>b\<in>B. \<forall>n\<in>set (Code s b). wide_op n) \<and> (\<forall>b\<in>B. flags_le (BlockFlags s b) FLAG_ALL) \<and> live_bound B (Code s) (BlockFlags s)
     \<and> distinct (Worklist s) \<and> (\<forall>b\<in>B. InWorklist s b \<longleftrightarrow> b \<in> set (Worklist s))
     \<and> (\<forall>a\<in>B. \<forall>b\<in>B. b \<in> set (successors (exit_op (Code s a))) \<longrightarrow> a \<in> set (Predecessors s b))
     \<and> (\<forall>b\<in>B. b \<notin> set (Worklist s) \<longrightarrow> BlockFlags s b = live_code (Code s b) (exit_flags (BlockFlags s) (exit_op (Code s b))))"

lemma ProcessBlock_exact:
  assumes ok: "dfce_ok B s" and w: "\<forall>n\<in>set (Code s b). wide_op n" and lb: "live_bound B (Code s) (BlockFlags s)" and b: "b \<in> B"
    and m: "writers_are_marked cfg" and p: "ProcessBlock cfg b s = (ch, s')"
  obtains ns where "Code s' = (Code s)(b := ns)" "ns \<noteq> []" "last ns = exit_op (Code s b)" "\<forall>n\<in>set ns. wide_op n"
    "BlockFlags s' = (BlockFlags s)(b := live_code ns (exit_flags (BlockFlags s) (last ns)))"
    "flags_le (BlockFlags s' b) (BlockFlags s b)" "ch \<longleftrightarrow> BlockFlags s' b \<noteq> BlockFlags s b"
    "InWorklist s' = InWorklist s" "Worklist s' = Worklist s" "Predecessors s' = Predecessors s" "Order s' = Order s"
    "\<And>Y. flags_le Y (exit_flags (BlockFlags s) (last ns)) \<Longrightarrow> flags_le (live_code ns Y) (live_code (Code s b) Y)"
proof (cases "HasFlags s b")
  case False
  let ?F = "exit_flags (BlockFlags s) (exit_op (Code s b))"
  have u: "\<forall>n\<in>set (Code s b). \<not> IsFlagOp (Op n)" using ok b False by (simp add: dfce_ok_def)
  have l: "live_code (Code s b) ?F = ?F" by (rule live_unmarked_wide) (use u w in auto)
  have le: "flags_le ?F (BlockFlags s b)" using lb b l by (auto simp: live_bound_def)
  have ne: "Code s b \<noteq> []" using ok b by (auto simp: dfce_ok_def closed_unit_def)
  show thesis by (rule that [of "Code s b"]) (use p False l le w ne in \<open>auto simp: ProcessBlock_def Let_def\<close>)
next
  case True
  let ?F = "exit_flags (BlockFlags s) (exit_op (Code s b))"
  obtain ns X U where pc: "process_code cfg (Code s b) ?F (NumUses s) = (ns, X, U)" by (cases "process_code cfg (Code s b) ?F (NumUses s)")
  have cb: "Code s b \<noteq> []" "is_exit (Op (exit_op (Code s b)))" using ok b by (auto simp: dfce_ok_def closed_unit_def)
  have ns: "ns \<noteq> []" "last ns = exit_op (Code s b)" using process_code_exit [OF pc cb m] by auto
  have X: "X = live_code ns ?F" "\<forall>n\<in>set ns. wide_op n" using process_code_exact [OF pc w] by auto
  have lv: "flags_le Y ?F \<Longrightarrow> flags_le (live_code ns Y) (live_code (Code s b) Y)" for Y using process_code_live [OF pc _ m] by blast
  have le: "flags_le X (BlockFlags s b)" using lv [of ?F] lb b X(1) by (auto simp: live_bound_def intro: flags_le_trans)
  show thesis by (rule that [of ns]) (use p True pc ns X le lv in \<open>auto simp: ProcessBlock_def Let_def\<close>)
qed

definition flag_count :: "u8 \<Rightarrow> nat" where "flag_count X = card {i. bit X i}"

definition potential :: "nat set \<Rightarrow> (nat \<Rightarrow> u8) \<Rightarrow> nat" where "potential B F = (\<Sum>b\<in>B. flag_count (F b))"

lemma finite_bits [simp]: "finite {i. bit (X :: u8) i}"
  by (rule finite_subset [of _ "{..<8}"]) (auto dest: bit_imp_le_length)

lemma flag_count_low: "flags_le X FLAG_ALL \<Longrightarrow> flag_count X \<le> 4"
proof -
  assume "flags_le X FLAG_ALL"
  then have "{i. bit X i} \<subseteq> {..<4}" by (auto simp only: flags_le_def mem_Collect_eq lessThan_iff dest: bit_of_small_flags)
  from card_mono [OF _ this] show ?thesis by (simp add: flag_count_def)
qed

lemma flag_count_less: "flags_le X Y \<Longrightarrow> X \<noteq> Y \<Longrightarrow> flag_count X < flag_count Y"
  unfolding flag_count_def by (rule psubset_card_mono) (auto simp: flags_le_def intro: bit_eqI)

lemma potential_upd:
  assumes "finite B" and "b \<in> B" and "flags_le X (F b)" and "X \<noteq> F b"
  shows "potential B (F(b := X)) < potential B F"
proof -
  have "potential B F = flag_count (F b) + (\<Sum>a\<in>B - {b}. flag_count (F a))" unfolding potential_def using assms(1,2) by (rule sum.remove)
  moreover have "potential B (F(b := X)) = flag_count X + (\<Sum>a\<in>B - {b}. flag_count (F a))"
    unfolding potential_def using sum.remove [OF assms(1,2), of "\<lambda>a. flag_count ((F(b := X)) a)"] by simp
  ultimately show ?thesis using flag_count_less [OF assms(3,4)] by simp
qed

text \<open>A block that was processed holds its own equation, and a change reaches every block whose equation it changes.\<close>

lemma exit_flags_upd: "b \<notin> set (successors x) \<Longrightarrow> exit_flags (F(b := X)) x = exit_flags F x"
  by (auto simp: exit_flags_def successors_def split: if_splits)

lemma live_bound_shrink:
  assumes "live_bound B c F" and "closed_unit B c" and "b \<in> B" and "last ns = exit_op (c b)" and "flags_le X (F b)"
    and "X = live_code ns (exit_flags F (last ns))"
  shows "live_bound B (c(b := ns)) (F(b := X))"
  unfolding live_bound_def
proof
  fix a assume a: "a \<in> B"
  have e: "flags_le (exit_flags (F(b := X)) x) (exit_flags F x)" for x
    by (rule exit_flags_mono) (use assms(5) in auto)
  show "flags_le (live_code ((c(b := ns)) a) (exit_flags (F(b := X)) (last ((c(b := ns)) a)))) ((F(b := X)) a)"
  proof (cases "a = b")
    case True
    then show ?thesis using live_code_mono [OF e, of ns "last ns"] assms(6) by simp
  next
    case False
    then show ?thesis using live_code_mono [OF e, of "c a" "last (c a)"] assms(1) a by (auto simp: live_bound_def intro: flags_le_trans)
  qed
qed

lemma dfce_step_exact:
  assumes ok: "dfce_ok B s" and ex: "dfce_exact B s" and m: "writers_are_marked cfg" and ne: "Worklist s \<noteq> []"
  shows "dfce_exact B (dfce_step cfg s)"
    and "potential B (BlockFlags (dfce_step cfg s)) < potential B (BlockFlags s)
      \<or> (potential B (BlockFlags (dfce_step cfg s)) = potential B (BlockFlags s) \<and> length (Worklist (dfce_step cfg s)) < length (Worklist s))"
proof -
  let ?b = "last (Worklist s)"
  let ?s = "s\<lparr>InWorklist := (InWorklist s)(?b := False)\<rparr>"
  let ?F = "BlockFlags s"
  have fin: "finite B" using ok by (auto simp: dfce_ok_def)
  have b: "?b \<in> B" using ok ne by (auto simp: dfce_ok_def)
  have E: "\<forall>b\<in>B. \<forall>n\<in>set (Code s b). wide_op n" "\<forall>b\<in>B. flags_le (?F b) FLAG_ALL" "live_bound B (Code s) ?F" "distinct (Worklist s)"
    "\<forall>b\<in>B. InWorklist s b \<longleftrightarrow> b \<in> set (Worklist s)" "\<forall>a\<in>B. \<forall>b\<in>B. b \<in> set (successors (exit_op (Code s a))) \<longrightarrow> a \<in> set (Predecessors s b)"
    "\<forall>b\<in>B. b \<notin> set (Worklist s) \<longrightarrow> ?F b = live_code (Code s b) (exit_flags ?F (exit_op (Code s b)))"
    using ex by (simp_all add: dfce_exact_def)
  have cl: "closed_unit B (Code s)" using ok by (simp add: dfce_ok_def)
  obtain ch s1 where p: "ProcessBlock cfg ?b ?s = (ch, s1)" by (cases "ProcessBlock cfg ?b ?s")
  have "dfce_ok B ?s" "live_bound B (Code ?s) (BlockFlags ?s)" "\<forall>n\<in>set (Code ?s ?b). wide_op n" using ok E b by (simp_all add: dfce_ok_def)
  from ProcessBlock_exact [OF this(1,3,2) b m p] obtain ns where ns:
    "Code s1 = (Code s)(?b := ns)" "ns \<noteq> []" "last ns = exit_op (Code s ?b)" "\<forall>n\<in>set ns. wide_op n"
    "BlockFlags s1 = ?F(?b := live_code ns (exit_flags ?F (last ns)))" "flags_le (BlockFlags s1 ?b) (?F ?b)" "ch \<longleftrightarrow> BlockFlags s1 ?b \<noteq> ?F ?b"
    "InWorklist s1 = (InWorklist s)(?b := False)" "Worklist s1 = Worklist s" "Predecessors s1 = Predecessors s" by auto
  define X where "X = live_code ns (exit_flags ?F (last ns))"
  have F1: "BlockFlags s1 = ?F(?b := X)" and Xle: "flags_le X (?F ?b)" and chX: "ch \<longleftrightarrow> X \<noteq> ?F ?b" using ns(5-7) by (simp_all add: X_def)
  define bs where "bs = (if ch then Predecessors s ?b else [])"
  define s2 where "s2 = fold AddWorklist bs s1"
  have st: "dfce_step cfg s = s2\<lparr>Worklist := butlast (Worklist s2)\<rparr>" by (simp add: dfce_step_def Let_def p s2_def bs_def ns(10))
  have s2: "Code s2 = (Code s)(?b := ns)" "BlockFlags s2 = ?F(?b := X)" "Predecessors s2 = Predecessors s" by (simp_all add: s2_def ns(1,10) F1)
  obtain new where new: "Worklist s2 = new @ Worklist s" "distinct new" "set new = {a \<in> set bs. \<not> InWorklist s1 a}"
    "\<And>a. InWorklist s2 a \<longleftrightarrow> InWorklist s1 a \<or> a \<in> set bs"
    using add_all_worklist [of bs s1] unfolding s2_def ns(9) by metis
  let ?w = "butlast (Worklist s)"
  have w: "butlast (Worklist s2) = new @ ?w" using ne by (simp add: new(1) butlast_append)
  have sw: "set (Worklist s) = insert ?b (set ?w)" "?b \<notin> set ?w"
    using ne E(4) append_butlast_last_id [OF ne] by (metis list.set(1,2) set_append Un_insert_right sup_bot_right, metis distinct_append distinct.simps(2) disjoint_insert(1) list.set(2) not_distinct_conv_prefix)
  have bsB: "set bs \<subseteq> B" using ok b by (auto simp: bs_def dfce_ok_def)
  have in1: "InWorklist s1 a \<longleftrightarrow> a \<in> set ?w" if "a \<in> B" for a using E(5) that sw by (auto simp: ns(8))
  have dw: "distinct (new @ ?w)" using new(2,3) bsB in1 E(4) by (auto simp: distinct_butlast)
  have inw: "InWorklist s2 a \<longleftrightarrow> a \<in> set (new @ ?w)" if "a \<in> B" for a using new(3,4) in1 [OF that] by auto
  have ls: "last (((Code s)(?b := ns)) a) = exit_op (Code s a)" for a using ns(3) by simp
  have stab: "(?F(?b := X)) a = live_code (((Code s)(?b := ns)) a) (exit_flags (?F(?b := X)) (exit_op (Code s a)))"
    if "a \<in> B" "a \<notin> set (new @ ?w)" for a
  proof (cases "ch \<and> ?b \<in> set (successors (exit_op (Code s a)))")
    case True
    then have "a \<in> set bs" using E(6) b that(1) by (auto simp: bs_def)
    then show ?thesis using new(3) in1 that by auto
  next
    case False
    then have e: "exit_flags (?F(?b := X)) (exit_op (Code s a)) = exit_flags ?F (exit_op (Code s a))"
      using chX exit_flags_upd by (metis fun_upd_triv)
    show ?thesis
    proof (cases "a = ?b")
      case True
      then show ?thesis using e ns(3) by (simp add: X_def)
    next
      case ab: False
      then show ?thesis using e E(7) that sw by auto
    qed
  qed
  have "live_bound B ((Code s)(?b := ns)) (?F(?b := X))" by (rule live_bound_shrink [OF E(3) cl b ns(3) Xle X_def])
  moreover have "\<forall>a\<in>B. flags_le ((?F(?b := X)) a) FLAG_ALL" using E(2) Xle b by (auto intro: flags_le_trans)
  ultimately show "dfce_exact B (dfce_step cfg s)"
    using E(1,6) ns(4) dw inw stab by (simp add: dfce_exact_def st s2 w ls ns(3))
  show "potential B (BlockFlags (dfce_step cfg s)) < potential B ?F
      \<or> (potential B (BlockFlags (dfce_step cfg s)) = potential B ?F \<and> length (Worklist (dfce_step cfg s)) < length (Worklist s))"
  proof (cases ch)
    case True
    then show ?thesis using potential_upd [of B ?b X ?F, OF fin b Xle] chX by (simp add: st s2)
  next
    case False
    then have "new = []" using new(3) by (simp add: bs_def)
    then show ?thesis using False chX ne by (simp add: st s2 w)
  qed
qed

lemma dfce_start_exact:
  assumes "ir_unit_ok s" and "\<forall>b\<in>set (Order s). \<forall>n\<in>set (Code s b). wide_op n"
  shows "dfce_exact (set (Order s)) (dfce_start s)"
proof -
  note d = dfce_start_sel [OF assms(1)]
  let ?B = "set (Order s)"
  have F: "BlockFlags (dfce_start s) b = FLAG_ALL" if "b \<in> ?B" for b using d(6) [OF that] by simp
  have cl: "closed_unit ?B (Code s)" and B: "?B = {..<length (Order s)}" using assms(1) unfolding ir_unit_ok_def by blast+
  have "flags_le (live_code (Code s b) (exit_flags (BlockFlags (dfce_start s)) (last (Code s b)))) FLAG_ALL" if "b \<in> ?B" for b
  proof (intro live_low exit_flags_low)
    fix a assume "a \<in> set (successors (last (Code s b)))"
    then have "a \<in> ?B" using cl that by (auto simp: closed_unit_def)
    then show "flags_le (BlockFlags (dfce_start s) a) FLAG_ALL" by (simp add: F)
  qed
  then have "live_bound ?B (Code s) (BlockFlags (dfce_start s))" by (simp add: live_bound_def F)
  then show ?thesis using assms(2) d(6) F B by (simp add: dfce_exact_def d(1-5))
qed

lemma dfce_loop_ends:
  assumes "dfce_exact B s" and "dfce_ok B s" and m: "writers_are_marked cfg"
    and "potential B (BlockFlags s) * Suc (card B) + length (Worklist s) \<le> fuel"
  shows "\<exists>s'. dfce_loop fuel cfg s = Some s' \<and> dfce_exact B s' \<and> Worklist s' = []"
  using assms(1,2,4)
proof (induction fuel arbitrary: s)
  case 0
  then show ?case by (subst dfce_loop.simps) simp
next
  case (Suc fuel)
  show ?case
  proof (cases "Worklist s = []")
    case True
    then show ?thesis using Suc.prems(1) by (subst dfce_loop.simps) simp
  next
    case False
    let ?t = "dfce_step cfg s"
    note E = dfce_step_exact [OF Suc.prems(2,1) m False]
    have ok: "dfce_ok B ?t" by (rule dfce_step_ok [OF Suc.prems(2) m False])
    have w: "finite B" "set (Worklist ?t) \<subseteq> B" "distinct (Worklist ?t)" using ok E(1) by (auto simp: dfce_ok_def dfce_exact_def)
    have le: "length (Worklist ?t) \<le> card B" using card_mono [OF w(1,2)] distinct_card [OF w(3)] by simp
    have "potential B (BlockFlags ?t) * Suc (card B) + length (Worklist ?t) < potential B (BlockFlags s) * Suc (card B) + length (Worklist s)"
      using E(2)
    proof
      assume "potential B (BlockFlags ?t) < potential B (BlockFlags s)"
      then have "Suc (potential B (BlockFlags ?t)) * Suc (card B) \<le> potential B (BlockFlags s) * Suc (card B)" by (intro mult_le_mono1) simp
      then show ?thesis using le by simp
    qed simp
    then have "potential B (BlockFlags ?t) * Suc (card B) + length (Worklist ?t) \<le> fuel" using Suc.prems(3) by linarith
    from Suc.IH [OF E(1) ok this] show ?thesis using False by (subst dfce_loop.simps) simp
  qed
qed

end
