(* ===== verification/FlagReach.thy ===== *)
theory FlagReach
  imports FlagElimRun
begin

text \<open>
  The forward walk that decides whether a unit reads a flag of its caller. The reference is a path:
  some path from the entry reaches an operation that reads the flag, and no operation before it on
  that path writes it, where the two halves of a preserve bracket count neither as read nor as write.
\<close>

section \<open>The reference\<close>

fun reads_first :: "(nat \<Rightarrow> nat) \<Rightarrow> ir_op list \<Rightarrow> nat \<Rightarrow> bool" where
  "reads_first br [] i \<longleftrightarrow> False"
| "reads_first br (n # ns) i \<longleftrightarrow>
     (if br (NodeID n) \<noteq> 0 then reads_first br ns i
      else bit (Read (Classify n)) i \<or> (\<not> bit (Write (Classify n)) i \<and> reads_first br ns i))"

definition passes :: "(nat \<Rightarrow> nat) \<Rightarrow> ir_op list \<Rightarrow> nat \<Rightarrow> bool" where
  "passes br ns i \<longleftrightarrow> (\<forall>n\<in>set ns. br (NodeID n) = 0 \<longrightarrow> \<not> bit (Write (Classify n)) i)"

inductive entry_read :: "(nat \<Rightarrow> nat) \<Rightarrow> (nat \<Rightarrow> ir_op list) \<Rightarrow> nat \<Rightarrow> nat \<Rightarrow> bool" for br code i where
  here: "reads_first br (code b) i \<Longrightarrow> entry_read br code i b"
| later: "passes br (code b) i \<Longrightarrow> c \<in> set (successors (exit_op (code b))) \<Longrightarrow> entry_read br code i c \<Longrightarrow> entry_read br code i b"

inductive unwritten :: "(nat \<Rightarrow> nat) \<Rightarrow> (nat \<Rightarrow> ir_op list) \<Rightarrow> nat \<Rightarrow> nat \<Rightarrow> nat \<Rightarrow> bool" for br code e i where
  start: "unwritten br code e i e"
| step: "unwritten br code e i b \<Longrightarrow> passes br (code b) i \<Longrightarrow> c \<in> set (successors (exit_op (code b))) \<Longrightarrow> unwritten br code e i c"

lemma unwritten_cons:
  assumes "unwritten br code c i a" and "passes br (code b) i" and "c \<in> set (successors (exit_op (code b)))"
  shows "unwritten br code b i a"
  using assms
proof (induction rule: unwritten.induct)
  case start
  then show ?case using unwritten.step [OF unwritten.start] by blast
next
  case (step a d)
  then show ?case by (blast intro: unwritten.step)
qed

lemma entry_read_iff: "entry_read br code i e \<longleftrightarrow> (\<exists>b. unwritten br code e i b \<and> reads_first br (code b) i)"
proof
  assume "entry_read br code i e"
  then show "\<exists>b. unwritten br code e i b \<and> reads_first br (code b) i"
  proof (induction rule: entry_read.induct)
    case (here b)
    then show ?case using unwritten.start by blast
  next
    case (later b c)
    then show ?case using unwritten_cons by blast
  qed
next
  assume "\<exists>b. unwritten br code e i b \<and> reads_first br (code b) i"
  then obtain b where b: "unwritten br code e i b" "reads_first br (code b) i" by blast
  from b(1) have "entry_read br code i b \<longrightarrow> entry_read br code i e"
    by (induction rule: unwritten.induct) (auto intro: entry_read.later)
  then show "entry_read br code i e" using b(2) entry_read.here by blast
qed

section \<open>One block\<close>

lemma reach_fold:
  "fold (reach_op br) ns (L, U) = (L', U') \<Longrightarrow>
     (bit L' i \<longleftrightarrow> bit L i \<or> (bit U i \<and> reads_first br ns i)) \<and> (bit U' i \<longleftrightarrow> bit U i \<and> passes br ns i)"
proof (induction ns arbitrary: L U)
  case (Cons n ns)
  show ?case
  proof (cases "br (NodeID n) \<noteq> 0")
    case True
    then have "reach_op br n (L, U) = (L, U)" by (simp add: reach_op_def)
    then have "fold (reach_op br) ns (L, U) = (L', U')" using Cons.prems by simp
    from Cons.IH [OF this] show ?thesis using True by (simp add: passes_def)
  next
    case False
    let ?I = "Classify n"
    have r: "reach_op br n (L, U) = (L OR (Read ?I AND U), U AND NOT (Write ?I))"
      using False by (auto simp: reach_op_def Let_def dest: Trivial_info)
    have "fold (reach_op br) ns (L OR (Read ?I AND U), U AND NOT (Write ?I)) = (L', U')" using Cons.prems r by simp
    from Cons.IH [OF this] show ?thesis using False
      by (auto simp: passes_def bit_or_iff bit_and_iff bit_not_iff dest: bit_imp_le_length)
  qed
qed (simp add: passes_def)

lemma unmarked_block:
  assumes "\<forall>n\<in>set ns. \<not> IsFlagOp (Op n)"
  shows "\<not> reads_first br ns i" and "passes br ns i"
proof -
  have z: "Read (Classify n) = 0 \<and> Write (Classify n) = 0" if "n \<in> set ns" for n using assms that by (simp add: classify_unmarked)
  show "passes br ns i" using z by (simp add: passes_def)
  show "\<not> reads_first br ns i" using z by (induction ns) simp_all
qed

lemma Propagate_sel [simp]:
  "Order (Propagate U b s) = Order s" "Code (Propagate U b s) = Code s" "HasFlags (Propagate U b s) = HasFlags s"
  "BlockFlags (Propagate U b s) = BlockFlags s" "NumUses (Propagate U b s) = NumUses s" "Predecessors (Propagate U b s) = Predecessors s"
  "EntryNZCVLiveIn (Propagate U b s) = EntryNZCVLiveIn s"
  "EntryUndefined (Propagate U b s) c = (if c = b then EntryUndefined s c OR U else EntryUndefined s c)"
  "InWorklist (Propagate U b s) c \<longleftrightarrow> InWorklist s c \<or> (c = b \<and> EntryUndefined s c OR U \<noteq> EntryUndefined s c)"
  "Worklist (Propagate U b s) = (if EntryUndefined s b OR U \<noteq> EntryUndefined s b \<and> \<not> InWorklist s b then [b] else []) @ Worklist s"
  by (auto simp: Propagate_def Let_def AddWorklist_def)

lemma propagate_all_sel [simp]:
  "Order (fold (Propagate U) bs s) = Order s" "Code (fold (Propagate U) bs s) = Code s" "HasFlags (fold (Propagate U) bs s) = HasFlags s"
  "BlockFlags (fold (Propagate U) bs s) = BlockFlags s" "NumUses (fold (Propagate U) bs s) = NumUses s"
  "Predecessors (fold (Propagate U) bs s) = Predecessors s" "EntryNZCVLiveIn (fold (Propagate U) bs s) = EntryNZCVLiveIn s"
  by (induction bs arbitrary: s) simp_all

lemma propagate_all_undefined:
  "EntryUndefined (fold (Propagate U) bs s) c = (if c \<in> set bs then EntryUndefined s c OR U else EntryUndefined s c)"
  by (induction bs arbitrary: s) (auto simp: or.assoc)

lemma propagate_all_worklist:
  obtains new where "Worklist (fold (Propagate U) bs s) = new @ Worklist s" and "distinct new"
    and "set new = {b \<in> set bs. EntryUndefined s b OR U \<noteq> EntryUndefined s b \<and> \<not> InWorklist s b}"
    and "\<And>b. InWorklist (fold (Propagate U) bs s) b \<longleftrightarrow> InWorklist s b \<or> (b \<in> set bs \<and> EntryUndefined s b OR U \<noteq> EntryUndefined s b)"
proof -
  have "\<exists>new. Worklist (fold (Propagate U) bs s) = new @ Worklist s \<and> distinct new
    \<and> set new = {b \<in> set bs. EntryUndefined s b OR U \<noteq> EntryUndefined s b \<and> \<not> InWorklist s b}
    \<and> (\<forall>b. InWorklist (fold (Propagate U) bs s) b \<longleftrightarrow> InWorklist s b \<or> (b \<in> set bs \<and> EntryUndefined s b OR U \<noteq> EntryUndefined s b))"
  proof (induction bs arbitrary: s)
    case (Cons b bs)
    let ?s = "Propagate U b s"
    from Cons [of ?s] obtain new where n: "Worklist (fold (Propagate U) bs ?s) = new @ Worklist ?s" "distinct new"
      "set new = {a \<in> set bs. EntryUndefined ?s a OR U \<noteq> EntryUndefined ?s a \<and> \<not> InWorklist ?s a}"
      "\<forall>a. InWorklist (fold (Propagate U) bs ?s) a \<longleftrightarrow> InWorklist ?s a \<or> (a \<in> set bs \<and> EntryUndefined ?s a OR U \<noteq> EntryUndefined ?s a)" by blast
    let ?f = "if EntryUndefined s b OR U \<noteq> EntryUndefined s b \<and> \<not> InWorklist s b then [b] else []"
    have n3: "set new = {a \<in> set bs. a \<noteq> b \<and> EntryUndefined s a OR U \<noteq> EntryUndefined s a \<and> \<not> InWorklist s a}"
      unfolding n(3) by (auto simp: or.assoc split: if_splits)
    show ?case
    proof (intro exI [of _ "new @ ?f"] conjI)
      show "Worklist (fold (Propagate U) (b # bs) s) = (new @ ?f) @ Worklist s" using n(1) by simp
      show "distinct (new @ ?f)" using n(2) n3 by auto
      show "set (new @ ?f) = {a \<in> set (b # bs). EntryUndefined s a OR U \<noteq> EntryUndefined s a \<and> \<not> InWorklist s a}" using n3 by auto
      show "\<forall>a. InWorklist (fold (Propagate U) (b # bs) s) a \<longleftrightarrow> InWorklist s a \<or> (a \<in> set (b # bs) \<and> EntryUndefined s a OR U \<noteq> EntryUndefined s a)"
        using n(4) by (auto simp: or.assoc split: if_splits)
    qed
  qed simp
  then show thesis using that by blast
qed

section \<open>The walk\<close>

definition reach_inv :: "nat set \<Rightarrow> (nat \<Rightarrow> nat) \<Rightarrow> nat \<Rightarrow> u8 \<times> dfce \<Rightarrow> bool" where
  "reach_inv B br e Ls \<longleftrightarrow>
     (case Ls of (L, s) \<Rightarrow>
      set (Worklist s) \<subseteq> B \<and> distinct (Worklist s) \<and> (\<forall>b\<in>B. InWorklist s b \<longleftrightarrow> b \<in> set (Worklist s))
      \<and> (\<forall>b\<in>B. flags_le (EntryUndefined s b) FLAG_NZCV) \<and> EntryUndefined s e = FLAG_NZCV
      \<and> (\<forall>b\<in>B. \<forall>i. bit (EntryUndefined s b) i \<longrightarrow> unwritten br (Code s) e i b)
      \<and> (\<forall>i. bit L i \<longrightarrow> i < 4 \<and> entry_read br (Code s) i e)
      \<and> (\<forall>b\<in>B. b \<notin> set (Worklist s) \<longrightarrow> (\<forall>i. bit (EntryUndefined s b) i \<longrightarrow>
           (reads_first br (Code s b) i \<longrightarrow> bit L i)
           \<and> (passes br (Code s b) i \<longrightarrow> (\<forall>c\<in>set (successors (exit_op (Code s b))). bit (EntryUndefined s c) i)))))"

definition unit_marked :: "nat set \<Rightarrow> dfce \<Rightarrow> bool" where
  "unit_marked B s \<longleftrightarrow> closed_unit B (Code s) \<and> (\<forall>b\<in>B. \<not> HasFlags s b \<longrightarrow> (\<forall>n\<in>set (Code s b). \<not> IsFlagOp (Op n)))"

lemma reach_inv_done:
  assumes inv: "reach_inv B br e (L, s)" and um: "unit_marked B s" and e: "e \<in> B"
    and stop: "Worklist s = [] \<or> L AND FLAG_NZCV \<noteq> 0"
  shows "L AND FLAG_NZCV \<noteq> 0 \<longleftrightarrow> (\<exists>i<4. entry_read br (Code s) i e)"
proof
  assume "L AND FLAG_NZCV \<noteq> 0"
  then obtain i where "bit (L AND FLAG_NZCV) i" using bit_eqI [of "L AND FLAG_NZCV" 0] by auto
  then have "bit L i" by (simp only: bit_and_iff)
  then show "\<exists>i<4. entry_read br (Code s) i e" using inv by (auto simp: reach_inv_def)
next
  assume "\<exists>i<4. entry_read br (Code s) i e"
  then obtain i b where i: "i < 4" and u: "unwritten br (Code s) e i b" and r: "reads_first br (Code s b) i" by (auto simp: entry_read_iff)
  show "L AND FLAG_NZCV \<noteq> 0"
  proof
    assume z: "L AND FLAG_NZCV = 0"
    then have w: "Worklist s = []" using stop by simp
    have cl: "\<And>b. b \<in> B \<Longrightarrow> set (successors (exit_op (Code s b))) \<subseteq> B" using um by (simp add: unit_marked_def closed_unit_def)
    have c: "\<forall>b\<in>B. bit (EntryUndefined s b) i \<longrightarrow> (reads_first br (Code s b) i \<longrightarrow> bit L i)
           \<and> (passes br (Code s b) i \<longrightarrow> (\<forall>c\<in>set (successors (exit_op (Code s b))). bit (EntryUndefined s c) i))"
      using inv w by (simp add: reach_inv_def)
    have "b \<in> B \<and> bit (EntryUndefined s b) i" using u
    proof (induction rule: unwritten.induct)
      case start
      then show ?case using e inv all_flags_bit [OF i] by (simp add: reach_inv_def)
    next
      case (step b c)
      then show ?case using c cl by blast
    qed
    then have "bit L i" using c r by blast
    then show False using and_zero_bit [OF z] all_flags_bit [OF i] by blast
  qed
qed

lemma potential_grow:
  assumes "finite B" and "\<And>b. b \<in> B \<Longrightarrow> flags_le (F b) (G b)" and "c \<in> B" and "G c \<noteq> F c"
  shows "potential B F < potential B G"
  unfolding potential_def
proof (rule sum_strict_mono_ex1 [OF assms(1)])
  show "\<forall>b\<in>B. flag_count (F b) \<le> flag_count (G b)"
    using assms(2) flag_count_less by (metis less_or_eq_imp_le)
  show "\<exists>b\<in>B. flag_count (F b) < flag_count (G b)" using flag_count_less [OF assms(2)] assms(3,4) by metis
qed

lemma split_last:
  assumes "distinct w" and "w \<noteq> []"
  shows "set w = insert (last w) (set (butlast w)) \<and> last w \<notin> set (butlast w) \<and> distinct (butlast w)"
proof -
  obtain v b where "w = v @ [b]" using assms(2) by (cases w rule: rev_cases) auto
  then show ?thesis using assms(1) by auto
qed

text \<open>The state after a step, in terms of bits.\<close>

lemma reach_step_view:
  assumes um: "unit_marked B s" and b: "b = last (Worklist s)" "b \<in> B" and st: "reach_step br (L, s) = (L', s')"
  obtains U bs where "\<And>i. bit L' i \<longleftrightarrow> bit L i \<or> (bit (EntryUndefined s b) i \<and> reads_first br (Code s b) i)"
    "\<And>i. bit U i \<longleftrightarrow> bit (EntryUndefined s b) i \<and> passes br (Code s b) i"
    "bs = successors (exit_op (Code s b)) \<or> U = 0 \<and> bs = []"
    "s' = fold (Propagate U) bs (s\<lparr>Worklist := butlast (Worklist s), InWorklist := (InWorklist s)(b := False)\<rparr>)"
proof -
  let ?s = "s\<lparr>Worklist := butlast (Worklist s), InWorklist := (InWorklist s)(b := False)\<rparr>"
  define p where "p = (if HasFlags s b then fold (reach_op br) (Code s b) (L, EntryUndefined s b) else (L, EntryUndefined s b))"
  obtain L1 U where p: "p = (L1, U)" by (cases p)
  have "reach_step br (L, s) = (L1, if U = 0 then ?s else fold (Propagate U) (successors (exit_op (Code s b))) ?s)"
    using p unfolding p_def b(1) by (cases "HasFlags s (last (Worklist s))") (simp_all add: reach_step_def Let_def)
  then have L1: "L1 = L'" and s': "s' = (if U = 0 then ?s else fold (Propagate U) (successors (exit_op (Code s b))) ?s)"
    using st by auto
  have bits: "(bit L' i \<longleftrightarrow> bit L i \<or> (bit (EntryUndefined s b) i \<and> reads_first br (Code s b) i))
    \<and> (bit U i \<longleftrightarrow> bit (EntryUndefined s b) i \<and> passes br (Code s b) i)" for i
  proof (cases "HasFlags s b")
    case True
    then show ?thesis using reach_fold [of br "Code s b" L "EntryUndefined s b" L' U i] p L1 by (simp add: p_def)
  next
    case False
    then have u: "\<forall>n\<in>set (Code s b). \<not> IsFlagOp (Op n)" using um b(2) by (simp add: unit_marked_def)
    have "L' = L" "U = EntryUndefined s b" using p L1 False by (simp_all add: p_def)
    then show ?thesis using unmarked_block [OF u] by simp
  qed
  show thesis
    by (rule that [of U "if U = 0 then [] else successors (exit_op (Code s b))"]) (use bits s' in simp_all)
qed

lemma reach_step_inv:
  assumes inv: "reach_inv B br e (L, s)" and um: "unit_marked B s" and ne: "Worklist s \<noteq> []" and st: "reach_step br (L, s) = (L', s')"
    and fin: "finite B" and e: "e \<in> B"
  shows "reach_inv B br e (L', s')" (is ?inv) and "Code s' = Code s \<and> HasFlags s' = HasFlags s \<and> Order s' = Order s \<and> BlockFlags s' = BlockFlags s \<and> NumUses s' = NumUses s
      \<and> Predecessors s' = Predecessors s \<and> EntryNZCVLiveIn s' = EntryNZCVLiveIn s" (is ?sel)
    and "potential B (EntryUndefined s) < potential B (EntryUndefined s')
      \<or> (potential B (EntryUndefined s') = potential B (EntryUndefined s) \<and> length (Worklist s') < length (Worklist s))" (is ?pot)
proof -
  define b where "b = last (Worklist s)"
  let ?E = "EntryUndefined s" and ?E' = "EntryUndefined s'" and ?w = "butlast (Worklist s)"
  have I: "set (Worklist s) \<subseteq> B" "distinct (Worklist s)" "\<forall>b\<in>B. InWorklist s b \<longleftrightarrow> b \<in> set (Worklist s)"
    "\<forall>b\<in>B. flags_le (?E b) FLAG_NZCV" "?E e = FLAG_NZCV" "\<forall>b\<in>B. \<forall>i. bit (?E b) i \<longrightarrow> unwritten br (Code s) e i b"
    "\<forall>i. bit L i \<longrightarrow> i < 4 \<and> entry_read br (Code s) i e"
    "\<forall>b\<in>B. b \<notin> set (Worklist s) \<longrightarrow> (\<forall>i. bit (?E b) i \<longrightarrow> (reads_first br (Code s b) i \<longrightarrow> bit L i)
           \<and> (passes br (Code s b) i \<longrightarrow> (\<forall>c\<in>set (successors (exit_op (Code s b))). bit (?E c) i)))"
    using inv by (simp_all add: reach_inv_def)
  have sw: "set (Worklist s) = insert b (set ?w)" "b \<notin> set ?w" "distinct ?w" using split_last [OF I(2) ne] by (simp_all add: b_def)
  have b: "b \<in> B" using I(1) sw(1) by auto
  obtain U bs where L': "\<And>i. bit L' i \<longleftrightarrow> bit L i \<or> (bit (?E b) i \<and> reads_first br (Code s b) i)"
    and U: "\<And>i. bit U i \<longleftrightarrow> bit (?E b) i \<and> passes br (Code s b) i"
    and bs: "bs = successors (exit_op (Code s b)) \<or> U = 0 \<and> bs = []"
    and s': "s' = fold (Propagate U) bs (s\<lparr>Worklist := ?w, InWorklist := (InWorklist s)(b := False)\<rparr>)"
    by (rule reach_step_view [OF um b_def b st]) (rule that)
  have E': "?E' c = (if c \<in> set bs then ?E c OR U else ?E c)" for c by (simp add: s' propagate_all_undefined)
  define s1 where "s1 = s\<lparr>Worklist := ?w, InWorklist := (InWorklist s)(b := False)\<rparr>"
  obtain new where nw: "Worklist (fold (Propagate U) bs s1) = new @ Worklist s1" "distinct new"
    "set new = {c \<in> set bs. EntryUndefined s1 c OR U \<noteq> EntryUndefined s1 c \<and> \<not> InWorklist s1 c}"
    "\<And>c. InWorklist (fold (Propagate U) bs s1) c \<longleftrightarrow> InWorklist s1 c \<or> (c \<in> set bs \<and> EntryUndefined s1 c OR U \<noteq> EntryUndefined s1 c)"
    by (rule propagate_all_worklist [of U bs s1]) (rule that)
  have f: "fold (Propagate U) bs s1 = s'" "Worklist s1 = ?w" "EntryUndefined s1 = ?E" "\<And>c. InWorklist s1 c \<longleftrightarrow> c \<noteq> b \<and> InWorklist s c"
    by (simp_all add: s' s1_def)
  note new = nw [unfolded f]
  have succ: "set (successors (exit_op (Code s b))) \<subseteq> B" using um b by (simp add: unit_marked_def closed_unit_def)
  then have bsB: "set bs \<subseteq> B" using bs by auto
  have in1: "c \<noteq> b \<and> InWorklist s c \<longleftrightarrow> c \<in> set ?w" if "c \<in> B" for c using I(3) that sw(1,2) by auto
  have n: "set new = {c \<in> set bs. ?E c OR U \<noteq> ?E c \<and> c \<notin> set ?w}" using new(3) in1 bsB by auto
  have sel: ?sel by (simp add: s')
  then show ?sel .
  have E'bit: "bit (?E' c) i \<longleftrightarrow> bit (?E c) i \<or> (c \<in> set (successors (exit_op (Code s b))) \<and> bit U i)" for c i
    using bs by (auto simp: E' bit_or_iff)
  have Ule: "flags_le U FLAG_NZCV" using I(4) b U by (simp add: flags_le_def)
  have low: "flags_le (?E' c) FLAG_NZCV" if "c \<in> B" for c using I(4) that Ule by (auto simp: E' flags_le_or)
  have E'e: "?E' e = FLAG_NZCV" by (rule flags_le_antisym [OF low [OF e]]) (simp add: flags_le_def E'bit I(5))
  have inw: "InWorklist s' c \<longleftrightarrow> c \<in> set (Worklist s')" if "c \<in> B" for c using new(1,4) n in1 [OF that] that by auto
  have unw: "unwritten br (Code s) e i c" if "c \<in> B" "bit (?E' c) i" for c i
  proof (cases "bit (?E c) i")
    case False
    then have "c \<in> set (successors (exit_op (Code s b)))" "bit (?E b) i" "passes br (Code s b) i" using that(2) E'bit U by auto
    then show ?thesis using I(6) b unwritten.step by blast
  qed (use I(6) that(1) in blast)
  have live: "i < 4 \<and> entry_read br (Code s) i e" if "bit L' i" for i
  proof (cases "bit L i")
    case False
    then have "bit (?E b) i" "reads_first br (Code s b) i" using that L' by auto
    moreover have "i < 4" using \<open>bit (?E b) i\<close> I(4) b bit_of_small_flags unfolding flags_le_def by blast
    ultimately show ?thesis using I(6) b by (auto simp: entry_read_iff)
  qed (use I(7) in blast)
  have comp: "(reads_first br (Code s c) i \<longrightarrow> bit L' i) \<and> (passes br (Code s c) i \<longrightarrow> (\<forall>d\<in>set (successors (exit_op (Code s c))). bit (?E' d) i))"
    if c: "c \<in> B" "c \<notin> set (Worklist s')" "bit (?E' c) i" for c i
  proof -
    have "?E' c = ?E c" using c(2) n new(1) by (auto simp: E')
    then have ci: "bit (?E c) i" using c(3) by simp
    show ?thesis
    proof (cases "c = b")
      case True
      then show ?thesis using ci L' U E'bit by simp
    next
      case False
      then have "c \<notin> set (Worklist s)" using c(2) sw(1) new(1) by simp
      then show ?thesis using I(8) c(1) ci L' E'bit by blast
    qed
  qed
  have "set (Worklist s') \<subseteq> B" "distinct (Worklist s')" using new(1,2) n bsB sw I(1) by auto
  then show ?inv unfolding reach_inv_def using sel low E'e inw unw live comp by simp
  show ?pot
  proof (cases "\<exists>c\<in>B. ?E' c \<noteq> ?E c")
    case True
    then obtain c where "c \<in> B" "?E' c \<noteq> ?E c" by blast
    then have "potential B ?E < potential B ?E'" by (intro potential_grow [OF fin, of ?E ?E' c]) (simp_all add: E' flags_le_or1)
    then show ?thesis by simp
  next
    case False
    have "c \<notin> set new" for c
    proof
      assume c: "c \<in> set new"
      then have "c \<in> set bs" "?E c OR U \<noteq> ?E c" using n by auto
      moreover from this have "?E' c = ?E c" using False bsB by blast
      ultimately show False using E' [of c] by simp
    qed
    then have "new = []" by (metis last_in_set)
    moreover have "potential B ?E' = potential B ?E" unfolding potential_def by (rule sum.cong) (use False in auto)
    ultimately show ?thesis using ne new(1) by simp
  qed
qed

lemma potential_low: "\<forall>b\<in>B. flags_le (F b) FLAG_NZCV \<Longrightarrow> potential B F \<le> 4 * card B"
  unfolding potential_def using sum_bounded_above [of B "\<lambda>b. flag_count (F b)" 4] flag_count_low by (simp add: mult.commute)

lemma reach_loop_ends:
  assumes "reach_inv B br e (L, s)" and "unit_marked B s" and fin: "finite B" and e: "e \<in> B"
    and "(4 * card B - potential B (EntryUndefined s)) * Suc (card B) + length (Worklist s) \<le> fuel"
  shows "\<exists>L' s'. reach_loop fuel br (L, s) = Some (L', s') \<and> (L' AND FLAG_NZCV \<noteq> 0 \<longleftrightarrow> (\<exists>i<4. entry_read br (Code s) i e))
    \<and> Code s' = Code s \<and> HasFlags s' = HasFlags s \<and> Order s' = Order s \<and> BlockFlags s' = BlockFlags s \<and> NumUses s' = NumUses s
    \<and> Predecessors s' = Predecessors s \<and> EntryNZCVLiveIn s' = EntryNZCVLiveIn s"
  using assms(1,2,5)
proof (induction fuel arbitrary: L s)
  case 0
  then have "Worklist s = []" by simp
  then show ?case using reach_inv_done [OF 0(1,2) e] by (subst reach_loop.simps) simp
next
  case (Suc fuel)
  show ?case
  proof (cases "Worklist s = [] \<or> L AND FLAG_NZCV \<noteq> 0")
    case True
    then have "reach_loop (Suc fuel) br (L, s) = Some (L, s)" by (subst reach_loop.simps) auto
    then show ?thesis using reach_inv_done [OF Suc.prems(1,2) e True] by blast
  next
    case False
    obtain L1 s1 where st: "reach_step br (L, s) = (L1, s1)" by (cases "reach_step br (L, s)")
    have ne: "Worklist s \<noteq> []" using False by simp
    note R = reach_step_inv [OF Suc.prems(1,2) ne st fin e]
    have um: "unit_marked B s1" using Suc.prems(2) R(2) by (simp add: unit_marked_def)
    let ?P = "potential B (EntryUndefined s)" and ?Q = "potential B (EntryUndefined s1)"
    have w: "set (Worklist s1) \<subseteq> B" "distinct (Worklist s1)" "?Q \<le> 4 * card B" using R(1) potential_low by (auto simp: reach_inv_def)
    have le: "length (Worklist s1) \<le> card B" using card_mono [OF fin w(1)] distinct_card [OF w(2)] by simp
    have "(4 * card B - ?Q) * Suc (card B) + length (Worklist s1) < (4 * card B - ?P) * Suc (card B) + length (Worklist s)"
      using R(3)
    proof
      assume "?P < ?Q"
      then have "Suc (4 * card B - ?Q) * Suc (card B) \<le> (4 * card B - ?P) * Suc (card B)" using w(3) by (intro mult_le_mono1) linarith
      then show ?thesis using le by simp
    qed simp
    then have "(4 * card B - ?Q) * Suc (card B) + length (Worklist s1) \<le> fuel" using Suc.prems(3) by linarith
    from Suc.IH [OF R(1) um this] show ?thesis using R(2) False st by (subst reach_loop.simps) simp
  qed
qed

lemma entry_live_in_exact:
  assumes um: "unit_marked (set (Order s)) s" and ne: "Order s \<noteq> []" and w: "Worklist s = []"
    and z: "\<forall>b\<in>set (Order s). \<not> InWorklist s b \<and> EntryUndefined s b = 0"
    and fuel: "4 * card (set (Order s)) * Suc (card (set (Order s))) + 1 \<le> fuel"
  shows "\<exists>s'. entry_live_in fuel s = Some s'
    \<and> (EntryNZCVLiveIn s' \<longleftrightarrow> EntryNZCVLiveIn s \<or> (\<exists>i<4. entry_read (MarkNZCVPreserveBrackets s) (Code s) i (hd (Order s))))
    \<and> Code s' = Code s \<and> HasFlags s' = HasFlags s \<and> Order s' = Order s \<and> BlockFlags s' = BlockFlags s \<and> NumUses s' = NumUses s
    \<and> Predecessors s' = Predecessors s"
proof -
  let ?B = "set (Order s)" and ?e = "hd (Order s)" and ?br = "MarkNZCVPreserveBrackets s"
  define t where "t = AddWorklist ?e (s\<lparr>EntryUndefined := (EntryUndefined s)(?e := FLAG_NZCV)\<rparr>)"
  have e: "?e \<in> ?B" using ne by simp
  have t: "Code t = Code s" "HasFlags t = HasFlags s" "Order t = Order s" "BlockFlags t = BlockFlags s" "NumUses t = NumUses s" "Predecessors t = Predecessors s"
    "EntryNZCVLiveIn t = EntryNZCVLiveIn s" "EntryUndefined t = (EntryUndefined s)(?e := FLAG_NZCV)" "Worklist t = [?e]"
    "\<And>b. InWorklist t b \<longleftrightarrow> InWorklist s b \<or> b = ?e"
    using w z e by (simp_all add: t_def AddWorklist_def)
  have "reach_inv ?B ?br ?e (0, t)" using z e by (auto simp: reach_inv_def t intro: unwritten.start)
  moreover have "unit_marked ?B t" using um by (simp add: unit_marked_def t)
  moreover have "(4 * card ?B - potential ?B (EntryUndefined t)) * Suc (card ?B) + length (Worklist t) \<le> fuel"
  proof -
    have "(4 * card ?B - potential ?B (EntryUndefined t)) * Suc (card ?B) \<le> 4 * card ?B * Suc (card ?B)" by (intro mult_le_mono1) simp
    then show ?thesis using fuel by (simp add: t)
  qed
  ultimately obtain L s1 where r: "reach_loop fuel ?br (0, t) = Some (L, s1)" "L AND FLAG_NZCV \<noteq> 0 \<longleftrightarrow> (\<exists>i<4. entry_read ?br (Code t) i ?e)"
    "Code s1 = Code t" "HasFlags s1 = HasFlags t" "Order s1 = Order t" "BlockFlags s1 = BlockFlags t" "NumUses s1 = NumUses t"
    "Predecessors s1 = Predecessors t" "EntryNZCVLiveIn s1 = EntryNZCVLiveIn t"
    using reach_loop_ends [of ?B ?br ?e 0 t fuel] e by auto
  have el: "entry_live_in fuel s = Some (if L AND FLAG_NZCV \<noteq> 0 then s1\<lparr>EntryNZCVLiveIn := True\<rparr> else s1)"
    unfolding entry_live_in_def Let_def t_def [symmetric] r(1) using ne by simp
  show ?thesis unfolding el using r(2-) t by (auto split: if_splits)
qed

end
