(* ===== verification/FlagPermit.thy ===== *)
theory FlagPermit
  imports FlagElimRun
begin

text \<open>
  The permissions that the last walk of the pass hands to the back end: an operation that carries one
  may destroy the flags it names, and nothing observes it.
\<close>

definition permits :: "ir_op \<Rightarrow> nat \<Rightarrow> bool" where
  "permits n i \<longleftrightarrow> ((Op n = OP_ASHR \<or> Op n = OP_SBFE) \<and> CarryDead n \<and> i = 1) \<or> (Op n = OP_CONDJUMP \<and> NZCVDead n \<and> i < 4)"

text \<open>\<open>exec'\<close> does what \<open>exec\<close> does, but may leave anything in the flags it was permitted to destroy.\<close>

definition clobbers_permitted :: "('v, 'm) ir_exec \<Rightarrow> ('v, 'm) ir_exec \<Rightarrow> bool" where
  "clobbers_permitted exec exec' \<longleftrightarrow>
     (\<forall>n vs f m v f' m'. exec n vs f m = (v, f', m') \<longrightarrow> (\<exists>g. exec' n vs f m = (v, g, m') \<and> (\<forall>i. \<not> permits n i \<longrightarrow> g i = f' i)))"

definition ignores_permissions :: "('v, 'm) ir_exec \<Rightarrow> ('v, 'm) ir_branch \<Rightarrow> bool" where
  "ignores_permissions exec branch \<longleftrightarrow>
     (\<forall>n p. exec (n\<lparr>CarryDead := p\<rparr>) = exec n \<and> exec (n\<lparr>NZCVDead := p\<rparr>) = exec n \<and> branch (n\<lparr>NZCVDead := p\<rparr>) = branch n)"

lemma annotate_op_sel [simp]:
  "Args (annotate_op X n) = Args n" "NodeID (annotate_op X n) = NodeID n" "Op (annotate_op X n) = Op n" "successors (annotate_op X n) = successors n"
  "TrueBlock (annotate_op X n) = TrueBlock n" "FalseBlock (annotate_op X n) = FalseBlock n" "TargetBlock (annotate_op X n) = TargetBlock n"
  "FromNZCV (annotate_op X n) = FromNZCV n"
  by (simp_all add: annotate_op_def successors_def)

lemma annotate_ignored:
  assumes "ignores_permissions exec branch"
  shows "exec (annotate_op X n) = exec n" "branch (annotate_op X n) = branch n \<or> Op n \<noteq> OP_CONDJUMP"
  using assms by (auto simp: annotate_op_def ignores_permissions_def)

lemma no_flag_left: "X AND FLAG_ALL = 0 \<Longrightarrow> i < 4 \<Longrightarrow> \<not> bit X i"
  using all_flags_bit [of i] and_zero_bit [of X FLAG_ALL i] by blast

lemma annotate_permits: "permits (annotate_op X n) i \<Longrightarrow> \<not> bit X i"
  by (auto simp: permits_def annotate_op_def and_single_bit split: if_splits dest: no_flag_left)

lemma annotate_code_live:
  assumes "flags_le Y X"
  shows "flags_le (live_code ns Y) (snd (annotate_code ns X))"
proof (induction ns)
  case Nil
  then show ?case using assms by simp
next
  case (Cons n ns)
  obtain t Z where t: "annotate_code ns X = (t, Z)" by (cases "annotate_code ns X")
  have le: "flags_le (live_code ns Y) Z" using Cons t by simp
  show ?case
  proof (cases "Trivial (Classify n)")
    case True
    then have "reads n = 0" by (simp add: reads_def Trivial_def)
    then show ?thesis using le True t by (auto simp: flags_le_def bit_live_op)
  next
    case False
    then have "writes n = Write (Classify n)" by (simp add: nontrivial_not_testz writes_classify)
    then show ?thesis using False t live_op_mono [OF le, of n] by (simp add: live_op_def reads_def)
  qed
qed

lemma annotate_code_append:
  "fst (annotate_code (xs @ ys) X) = fst (annotate_code xs (snd (annotate_code ys X))) @ fst (annotate_code ys X)"
  "snd (annotate_code (xs @ ys) X) = snd (annotate_code xs (snd (annotate_code ys X)))"
  by (induction xs) (simp_all add: case_prod_beta)

lemma annotate_code_block:
  assumes "ns \<noteq> []"
  shows "butlast (fst (annotate_code ns X)) = fst (annotate_code (butlast ns) (snd (annotate_code [last ns] X)))"
    and "last (fst (annotate_code ns X)) = annotate_op X (last ns)" and "fst (annotate_code ns X) \<noteq> []"
proof -
  have ns: "ns = butlast ns @ [last ns]" using assms by simp
  have "fst (annotate_code ns X) = fst (annotate_code (butlast ns) (snd (annotate_code [last ns] X))) @ [annotate_op X (last ns)]"
    by (subst ns, subst annotate_code_append) simp
  then show "butlast (fst (annotate_code ns X)) = fst (annotate_code (butlast ns) (snd (annotate_code [last ns] X)))"
    "last (fst (annotate_code ns X)) = annotate_op X (last ns)" "fst (annotate_code ns X) \<noteq> []" by simp_all
qed

context ir_semantics
begin

lemma permitted_op_sim:
  assumes ig: "ignores_permissions exec branch" and cb: "clobbers_permitted exec exec'"
    and st: "st_eq {} (live_op n Y) s t" and le: "flags_le Y X"
  shows "st_eq {} Y (run_op exec n s) (run_op exec' (annotate_op X n) t)"
proof (rule st_eq_trans [OF run_op_sim [OF st]])
  obtain env f m where t: "t = (env, f, m)" by (cases t)
  obtain v f' m' where x: "exec n (map env (Args n)) f m = (v, f', m')" by (cases "exec n (map env (Args n)) f m")
  then have "exec (annotate_op X n) (map env (Args n)) f m = (v, f', m')" by (simp add: annotate_ignored [OF ig])
  then obtain g where g: "exec' (annotate_op X n) (map env (Args n)) f m = (v, g, m')" "\<forall>i. \<not> permits (annotate_op X n) i \<longrightarrow> g i = f' i"
    using cb unfolding clobbers_permitted_def by blast
  have "\<not> permits (annotate_op X n) i" if "bit Y i" for i
    using annotate_permits [of X n i] le that by (auto simp: flags_le_def)
  then have "agree Y f' g" using g(2) by (simp add: agree_def)
  then show "st_eq {} Y (run_op exec n t) (run_op exec' (annotate_op X n) t)" by (simp add: t run_op_def x g(1) st_eq_def)
qed simp

lemma permitted_code_sim:
  assumes ig: "ignores_permissions exec branch" and cb: "clobbers_permitted exec exec'"
    and "st_eq {} (live_code ns Y) s t" and "flags_le Y X"
  shows "st_eq {} Y (run_code exec ns s) (run_code exec' (fst (annotate_code ns X)) t)"
  using assms(3)
proof (induction ns arbitrary: s t)
  case (Cons n ns)
  have "flags_le (live_code ns Y) (snd (annotate_code ns X))" by (rule annotate_code_live [OF assms(4)])
  from permitted_op_sim [OF ig cb _ this] Cons.prems
  have "st_eq {} (live_code ns Y) (run_op exec n s) (run_op exec' (annotate_op (snd (annotate_code ns X)) n) t)" by simp
  from Cons.IH [OF this] show ?case by (simp add: case_prod_beta)
qed simp

lemma permitted_exit_sim:
  assumes ig: "ignores_permissions exec branch" and cb: "clobbers_permitted exec exec'"
    and x: "is_exit (Op x)" and le: "flags_le (exit_flags L x) Z"
  shows "next_eq {} L (take_exit exec branch x t) (take_exit exec' branch (annotate_op Z x) t)"
proof -
  obtain env f m where t: "t = (env, f, m)" by (cases t)
  have op: "st_eq {} (exit_flags L x) (run_op exec x t) (run_op exec' (annotate_op Z x) t)"
    by (rule permitted_op_sim [OF ig cb _ le]) simp
  show ?thesis
  proof (cases "Op x = OP_CONDJUMP")
    case True
    have br: "branch (annotate_op Z x) = branch x" using annotate_ignored(2) [OF ig] True by blast
    have "flags_le (L (if c then TrueBlock x else FalseBlock x)) (exit_flags L x)" for c
      using True by (simp add: exit_flags_def flags_le_or1 flags_le_or2)
    from st_eq_sub [OF op this, of "branch x (map env (Args x)) f m"] show ?thesis
      unfolding take_exit_def t by (simp add: True br)
  next
    case False
    have "Op x \<noteq> OP_ASHR \<and> Op x \<noteq> OP_SBFE" using x by (cases "Op x") (simp_all add: is_exit_def)
    then have a: "annotate_op Z x = x" using False by (simp add: annotate_op_def)
    have "st_eq {} (L (TargetBlock x)) (run_op exec x t) (run_op exec' x t)" if "Op x = OP_JUMP"
      using op a that by (simp add: exit_flags_def)
    then show ?thesis unfolding a take_exit_def t using False by simp
  qed
qed

lemma permitted_block_sim:
  assumes ig: "ignores_permissions exec branch" and cb: "clobbers_permitted exec exec'"
    and st: "st_eq {} X s t" and lb: "flags_le (live_code ns (exit_flags L (last ns))) X" and ns: "ns \<noteq> []" "is_exit (Op (last ns))"
    and le: "flags_le (exit_flags L (last ns)) Z"
  shows "next_eq {} L (run_block exec branch ns s) (run_block exec' branch (fst (annotate_code ns Z)) t)"
proof -
  define x where "x = last ns"
  define W where "W = snd (annotate_code [x] Z)"
  define Y where "Y = live_op x (exit_flags L x)"
  have "live_code (butlast ns @ [x]) (exit_flags L x) = live_code (butlast ns) Y" by (simp add: Y_def)
  then have l: "live_code ns (exit_flags L x) = live_code (butlast ns) Y" unfolding x_def append_butlast_last_id [OF ns(1)] .
  have "flags_le Y W" using annotate_code_live [of "exit_flags L x" Z "[x]"] le by (simp add: x_def Y_def W_def)
  moreover have "st_eq {} (live_code (butlast ns) Y) s t" using st_eq_sub [OF st lb] unfolding x_def [symmetric] l .
  ultimately have sim: "st_eq {} Y (run_code exec (butlast ns) s) (run_code exec' (fst (annotate_code (butlast ns) W)) t)"
    using permitted_code_sim [OF ig cb] by blast
  have "next_eq {} L (take_exit exec branch x (run_code exec (butlast ns) s)) (take_exit exec branch x (run_code exec' (fst (annotate_code (butlast ns) W)) t))"
    by (rule take_exit_sim) (use sim ns in \<open>simp_all add: x_def Y_def\<close>)
  from next_eq_trans [OF this permitted_exit_sim [OF ig cb]] ns(2) le
  have "next_eq {} L (take_exit exec branch x (run_code exec (butlast ns) s))
    (take_exit exec' branch (annotate_op Z x) (run_code exec' (fst (annotate_code (butlast ns) W)) t))" by (simp add: x_def)
  then show ?thesis unfolding run_block_def annotate_code_block(1,2) [OF ns(1)] x_def W_def .
qed

lemma annotated_run:
  assumes ig: "ignores_permissions exec branch" and cb: "clobbers_permitted exec exec'" and ok: "dfce_ok B s" and b: "b \<in> B"
    and d: "\<And>a. a \<in> B \<Longrightarrow> d a = fst (annotate_code (Code s a) (exit_flags (BlockFlags s) (last (Code s a))))"
  shows "run_unit k exec' branch d b st = run_unit k exec branch (Code s) b st"
proof -
  have cl: "closed_unit B (Code s)" using ok by (simp add: dfce_ok_def)
  obtain L where L: "live_bound B (Code s) L" "\<forall>a\<in>B. flags_le (L a) (BlockFlags s a)" using ok by (auto simp: dfce_ok_def)
  have "run_unit k exec branch (Code s) b st = run_unit k exec' branch d b st"
  proof (rule run_unit_sim [OF cl, where K = "{}" and L = L])
    fix a and s1 t1 :: "('v, 'm) ir_state" assume a: "a \<in> B" and st: "st_eq {} (L a) s1 t1"
    have "flags_le (live_code (Code s a) (exit_flags L (last (Code s a)))) (L a)" using L(1) a by (simp add: live_bound_def)
    moreover have "Code s a \<noteq> []" "is_exit (Op (last (Code s a)))" "set (successors (last (Code s a))) \<subseteq> B" using cl a by (auto simp: closed_unit_def)
    moreover have "flags_le (exit_flags L (last (Code s a))) (exit_flags (BlockFlags s) (last (Code s a)))"
      by (rule exit_flags_mono) (use calculation(4) L(2) in blast)
    ultimately show "next_eq {} L (run_block exec branch (Code s a) s1) (run_block exec' branch (d a) t1)"
      using permitted_block_sim [OF ig cb st] d [OF a] by simp
  qed (use b in simp_all)
  then show ?thesis by simp
qed

end

end
