(* ===== verification/FlagArith.thy ===== *)
theory FlagArith
  imports FlagPermit
begin

text \<open>
  A reference meaning of the integer operations, after their descriptions in \<open>IR.json\<close> and the
  \<open>AddWithCarry\<close> of the A64 manual, whose flag sense the IR uses. The other operations are a parameter,
  confined to the flags the table gives them. It satisfies the laws of \<open>ir_semantics\<close>.
\<close>

definition signed_at :: "nat \<Rightarrow> int \<Rightarrow> int" where
  "signed_at w x = (if bit x (w - 1) then x - 2 ^ w else x)"

definition nzcv :: "bool \<Rightarrow> bool \<Rightarrow> bool \<Rightarrow> bool \<Rightarrow> flagstate" where
  "nzcv N Z C V = (\<lambda>i. (i = 3 \<and> N) \<or> (i = 2 \<and> Z) \<or> (i = 1 \<and> C) \<or> (i = 0 \<and> V))"

definition AddWithCarry :: "nat \<Rightarrow> int \<Rightarrow> int \<Rightarrow> bool \<Rightarrow> int \<times> flagstate" where
  "AddWithCarry w x y c =
     (let unsigned_sum = x + y + of_bool c; signed_sum = signed_at w x + signed_at w y + of_bool c; result = take_bit w unsigned_sum in
      (result, nzcv (bit result (w - 1)) (result = 0) (result \<noteq> unsigned_sum) (signed_at w result \<noteq> signed_sum)))"

definition and_flags :: "nat \<Rightarrow> int \<Rightarrow> int \<times> flagstate" where
  "and_flags w r = (r, nzcv (bit r (w - 1)) (r = 0) False False)"

text \<open>The conditions on packed flags.\<close>

fun cond_holds :: "CondClass \<Rightarrow> flagstate \<Rightarrow> bool" where
  "cond_holds Cond_EQ f \<longleftrightarrow> f 2"
| "cond_holds Cond_NEQ f \<longleftrightarrow> \<not> f 2"
| "cond_holds Cond_UGE f \<longleftrightarrow> f 1"
| "cond_holds Cond_ULT f \<longleftrightarrow> \<not> f 1"
| "cond_holds Cond_MI f \<longleftrightarrow> f 3"
| "cond_holds Cond_PL f \<longleftrightarrow> \<not> f 3"
| "cond_holds Cond_VS f \<longleftrightarrow> f 0"
| "cond_holds Cond_VC f \<longleftrightarrow> \<not> f 0"
| "cond_holds Cond_UGT f \<longleftrightarrow> f 1 \<and> \<not> f 2"
| "cond_holds Cond_ULE f \<longleftrightarrow> \<not> (f 1 \<and> \<not> f 2)"
| "cond_holds Cond_SGE f \<longleftrightarrow> f 3 = f 0"
| "cond_holds Cond_SLT f \<longleftrightarrow> f 3 \<noteq> f 0"
| "cond_holds Cond_SGT f \<longleftrightarrow> f 3 = f 0 \<and> \<not> f 2"
| "cond_holds Cond_SLE f \<longleftrightarrow> \<not> (f 3 = f 0 \<and> \<not> f 2)"
| "cond_holds Cond_FLU f \<longleftrightarrow> f 3 \<noteq> f 0"
| "cond_holds Cond_FGE f \<longleftrightarrow> f 3 = f 0"
| "cond_holds Cond_FLEU f \<longleftrightarrow> \<not> (f 3 = f 0 \<and> \<not> f 2)"
| "cond_holds Cond_FGT f \<longleftrightarrow> f 3 = f 0 \<and> \<not> f 2"
| "cond_holds Cond_FU f \<longleftrightarrow> f 0"
| "cond_holds Cond_FNU f \<longleftrightarrow> \<not> f 0"
| "cond_holds Cond_AL f \<longleftrightarrow> True"
| "cond_holds Cond_TSTZ f \<longleftrightarrow> False"
| "cond_holds Cond_TSTNZ f \<longleftrightarrow> False"

text \<open>The table of the flags a condition reads names all of them.\<close>

lemma cond_flags_suffice: "agree (FlagsForCondClassType c) f g \<Longrightarrow> cond_holds c f = cond_holds c g"
  by (cases c) (auto simp: agree_def)

text \<open>The operation that an opcode with flags, or without a value, computes.\<close>

fun base_op :: "irops \<Rightarrow> irops" where
  "base_op OP_ANDWITHFLAGS = OP_AND"
| "base_op OP_TESTNZ = OP_AND"
| "base_op OP_TESTZ = OP_AND"
| "base_op OP_ADDWITHFLAGS = OP_ADD"
| "base_op OP_ADDNZCV = OP_ADD"
| "base_op OP_SUBWITHFLAGS = OP_SUB"
| "base_op OP_SUBNZCV = OP_SUB"
| "base_op OP_ADCWITHFLAGS = OP_ADC"
| "base_op OP_ADCNZCV = OP_ADC"
| "base_op OP_ADCZEROWITHFLAGS = OP_ADCZERO"
| "base_op OP_SBBWITHFLAGS = OP_SBB"
| "base_op OP_SBBNZCV = OP_SBB"
| "base_op op = op"

definition compute :: "irops \<Rightarrow> nat \<Rightarrow> int \<Rightarrow> int \<Rightarrow> bool \<Rightarrow> int \<times> flagstate" where
  "compute op w x y c =
     (if op = OP_AND then and_flags w (x AND y)
      else if op = OP_ADD then AddWithCarry w x y False
      else if op = OP_SUB then AddWithCarry w x (take_bit w (NOT y)) True
      else if op = OP_ADC then AddWithCarry w x y c
      else if op = OP_ADCZERO then AddWithCarry w x 0 (\<not> c)
      else AddWithCarry w x (take_bit w (NOT y)) c)"

definition operand :: "nat \<Rightarrow> u64 list \<Rightarrow> nat \<Rightarrow> int" where
  "operand w vs i = (if i < length vs then take_bit w (uint (vs ! i)) else 0)"

definition integer_op :: "irops \<Rightarrow> bool" where
  "integer_op op \<longleftrightarrow> base_op op \<in> {OP_AND, OP_ADD, OP_SUB, OP_ADC, OP_ADCZERO, OP_SBB}"

definition arith :: "ir_op \<Rightarrow> u64 list \<Rightarrow> flagstate \<Rightarrow> (int \<times> flagstate) option" where
  "arith n vs f =
     (if integer_op (Op n)
      then Some (compute (base_op (Op n)) (8 * OpSize n) (operand (8 * OpSize n) vs 0) (operand (8 * OpSize n) vs 1) (f 1))
      else None)"

definition flag_only :: "dfce_config \<Rightarrow> ir_op \<Rightarrow> bool" where
  "flag_only cfg n \<longleftrightarrow> \<not> HasSideEffects cfg (Op n) \<or> CanEliminate (Classify n) \<or> Replacement (Classify n) \<noteq> OP_DUMMY"

definition ref_exec :: "dfce_config \<Rightarrow> (u64, 'm) ir_exec \<Rightarrow> (u64, 'm) ir_exec" where
  "ref_exec cfg other n vs f m =
     (let seen = (\<lambda>i. bit (reads n) i \<and> f i);
          (v, g, m') = (case arith n vs seen of Some (r, h) \<Rightarrow> (word_of_int r, h, m) | None \<Rightarrow> other n vs seen m) in
      (v, \<lambda>i. if bit (writes n) i then g i else f i, if flag_only cfg n then m else m'))"

definition ref_branch :: "(ir_op \<Rightarrow> u64 list \<Rightarrow> 'm \<Rightarrow> bool) \<Rightarrow> (u64, 'm) ir_branch" where
  "ref_branch compare n vs f m = (if Op n = OP_CONDJUMP \<and> FromNZCV n then cond_holds (Cond n) f else compare n vs m)"

text \<open>The side effects that \<open>IR.json\<close> gives the opcodes named here; \<open>other\<close> answers for the rest.\<close>

definition ir_side_effects :: "(nat \<Rightarrow> bool) \<Rightarrow> irops \<Rightarrow> bool" where
  "ir_side_effects other op =
     (case op of OP_OTHER k \<Rightarrow> other k
      | _ \<Rightarrow> op \<notin> {OP_AND, OP_ADD, OP_SUB, OP_ADC, OP_ADCZERO, OP_SBB, OP_LOADNZCV, OP_NZCVSELECT, OP_NZCVSELECTV, OP_NZCVSELECTINCREMENT,
                  OP_NEG, OP_ASHR, OP_SBFE, OP_CONSTANT, OP_SELECT, OP_LOADMEM, OP_LOADMEMTSO, OP_LOADMEMREV, OP_VLOADVECTORMASKED,
                  OP_VLOADVECTORGATHERMASKED, OP_VLOADVECTORGATHERMASKEDQPS, OP_VLOADVECTORELEMENT, OP_VBROADCASTFROMMEM, OP_VLOADTWOGPRS})"

lemma writers_marked:
  assumes "HasSideEffects cfg = ir_side_effects other"
  shows "writers_are_marked cfg"
proof -
  have "HasSideEffects cfg (Op n)" if "writes n \<noteq> 0" for n
    using that by (cases "Op n") (simp_all add: assms ir_side_effects_def writes_def Classify_def)
  moreover have "HasSideEffects cfg op" if "is_exit op" for op
    using that by (cases op) (simp_all add: assms ir_side_effects_def is_exit_def)
  ultimately show ?thesis by (simp add: writers_are_marked_def)
qed

lemma base_replacement:
  "Replacement (Classify n) \<noteq> OP_DUMMY \<Longrightarrow> base_op (Replacement (Classify n)) = base_op (Op n) \<and> integer_op (Op n)"
  by (cases "Op n") (simp_all add: Classify_def integer_op_def split: if_splits)

lemma base_nowrite:
  "ReplacementNoWrite (Classify n) \<noteq> OP_DUMMY \<Longrightarrow> base_op (ReplacementNoWrite (Classify n)) = base_op (Op n) \<and> integer_op (Op n)"
  by (cases "Op n") (simp_all add: Classify_def integer_op_def split: if_splits)

lemma arith_base: "base_op op = base_op (Op n) \<Longrightarrow> arith (n\<lparr>Op := op\<rparr>) vs f = arith n vs f"
  by (simp add: arith_def integer_op_def)

lemma arith_integer: "integer_op (Op n) \<Longrightarrow> \<exists>q h. arith n vs f = Some (q, h)"
  by (simp add: arith_def)

lemma ref_exec_arith:
  assumes "arith n vs (\<lambda>i. bit (reads n) i \<and> f i) = Some (r, h)"
  shows "ref_exec cfg other n vs f m = (word_of_int r, \<lambda>i. if bit (writes n) i then h i else f i, m)"
  using assms by (simp add: ref_exec_def)

lemma ref_semantics:
  assumes "HasSideEffects cfg = ir_side_effects se"
  shows "ir_semantics cfg (ref_exec cfg other) (ref_branch compare)"
proof
  show "writers_are_marked cfg" by (rule writers_marked [OF assms])
next
  fix n vs f g m v f' m' w g' m''
  assume a: "agree (reads n) f g" and x: "ref_exec cfg other n vs f m = (v, f', m')" and y: "ref_exec cfg other n vs g m = (w, g', m'')"
  have "(\<lambda>i. bit (reads n) i \<and> f i) = (\<lambda>i. bit (reads n) i \<and> g i)" using a by (auto simp: agree_def)
  then show "v = w \<and> m' = m'' \<and> agree (writes n) f' g'" using x y
    by (auto simp: ref_exec_def Let_def agree_def split: prod.splits option.splits)
next
  fix n vs f m v f' m' i
  assume "ref_exec cfg other n vs f m = (v, f', m')" and "\<not> bit (writes n) i"
  then show "f' i = f i" by (auto simp: ref_exec_def Let_def split: prod.splits)
next
  fix n vs f m v f' m'
  assume x: "ref_exec cfg other n vs f m = (v, f', m')"
    and "\<not> HasSideEffects cfg (Op n) \<or> CanEliminate (Classify n) \<or> Replacement (Classify n) \<noteq> OP_DUMMY"
  then have "flag_only cfg n" by (simp add: flag_only_def)
  then show "m' = m" using x by (auto simp: ref_exec_def Let_def split: prod.splits)
next
  fix n vs f m v f' m'
  let ?n = "n\<lparr>Op := Replacement (Classify n)\<rparr>" and ?f = "\<lambda>i. bit (reads n) i \<and> f i"
  assume r: "Replacement (Classify n) \<noteq> OP_DUMMY" and x: "ref_exec cfg other n vs f m = (v, f', m')"
  have rd: "reads ?n = reads n" using classify_replacement [OF r] by (simp add: reads_def)
  obtain q h where a: "arith n vs ?f = Some (q, h)" using arith_integer base_replacement [OF r] by blast
  have "arith ?n vs (\<lambda>i. bit (reads ?n) i \<and> f i) = Some (q, h)" using arith_base base_replacement [OF r] a by (simp add: rd)
  from ref_exec_arith [OF this, of cfg other m] ref_exec_arith [OF a, of cfg other m] x
  show "\<exists>g. ref_exec cfg other ?n vs f m = (v, g, m')" by auto
next
  fix n vs f m v f' m'
  let ?n = "n\<lparr>Op := ReplacementNoWrite (Classify n)\<rparr>" and ?f = "\<lambda>i. bit (reads n) i \<and> f i"
  assume r: "ReplacementNoWrite (Classify n) \<noteq> OP_DUMMY" and x: "ref_exec cfg other n vs f m = (v, f', m')"
  have rd: "reads ?n = reads n" "writes ?n = writes n" using classify_nowrite [OF r] by (simp_all add: reads_def writes_def)
  obtain q h where a: "arith n vs ?f = Some (q, h)" using arith_integer base_nowrite [OF r] by blast
  have "arith ?n vs (\<lambda>i. bit (reads ?n) i \<and> f i) = Some (q, h)" using arith_base base_nowrite [OF r] a by (simp add: rd)
  from ref_exec_arith [OF this, of cfg other m] ref_exec_arith [OF a, of cfg other m] x
  show "\<exists>w. ref_exec cfg other ?n vs f m = (w, f', m')" by (auto simp: rd)
next
  fix n :: ir_op and vs f m v f' m'
  let ?n = "n\<lparr>Op := OP_TESTZ\<rparr>"
  assume t: "Op n = OP_TESTNZ" and x: "ref_exec cfg other n vs f m = (v, f', m')"
  have rd: "reads ?n = reads n" "writes ?n = writes n" using t by (simp_all add: reads_def writes_def Classify_def)
  have e: "arith ?n vs g = arith n vs g" for g using t by (intro arith_base) simp
  obtain q h where a: "arith n vs (\<lambda>i. bit (reads n) i \<and> f i) = Some (q, h)" using arith_integer [of n vs "\<lambda>i. bit (reads n) i \<and> f i"] t by (auto simp: integer_op_def)
  then have "arith ?n vs (\<lambda>i. bit (reads ?n) i \<and> f i) = Some (q, h)" by (simp add: rd e)
  from ref_exec_arith [OF this, of cfg other m] ref_exec_arith [OF a, of cfg other m] x
  show "\<exists>g. ref_exec cfg other ?n vs f m = (v, g, m') \<and> g 0 = f' 0 \<and> g 2 = f' 2" by (auto simp: rd)
next
  fix n vs f g m
  assume a: "agree (reads n) f g"
  show "ref_branch compare n vs f m = ref_branch compare n vs g m"
  proof (cases "Op n = OP_CONDJUMP \<and> FromNZCV n")
    case True
    then have "reads n = FlagsForCondClassType (Cond n)" by (simp add: reads_def Classify_def)
    then show ?thesis using cond_flags_suffice [of "Cond n" f g] a by (simp add: ref_branch_def)
  qed (auto simp: ref_branch_def)
qed


definition ref_config :: "(nat \<Rightarrow> bool) \<Rightarrow> bool \<Rightarrow> bool \<Rightarrow> bool \<Rightarrow> dfce_config" where
  "ref_config se noelim nowrite noperm =
     \<lparr>HasSideEffects = ir_side_effects se, DisableDFCEStoreElim = noelim, NoWriteArmDisabled = nowrite, FlagLivePermissionsDisabled = noperm\<rparr>"

interpretation ref: ir_semantics "ref_config se ne nw np" "ref_exec (ref_config se ne nw np) other" "ref_branch compare"
  for se ne nw np and other :: "(u64, 'm) ir_exec" and compare
  by (rule ref_semantics) (simp add: ref_config_def)

end
