(* ===== verification/FlagElimTheorems.thy ===== *)
theory FlagElimTheorems
  imports FlagReach FlagArith
begin

text \<open>
  The flag elimination as a whole: it ends, it keeps what the unit computes even when the back end uses
  every permission it was given, and its verdict on the flags of the caller is exact.
\<close>

section \<open>Folding is blocked by the guest markers\<close>

definition marker_before :: "ir_op list \<Rightarrow> bool" where
  "marker_before ns \<longleftrightarrow> (\<exists>pre g st x. ns = pre @ g # st @ [x] \<and> Op g = OP_GUESTOPCODE \<and> (\<forall>n\<in>set st. Op n = OP_STOREREGISTER))"

definition markers :: "nat set \<Rightarrow> (nat \<Rightarrow> ir_op list) \<Rightarrow> bool" where
  "markers B c \<longleftrightarrow> (\<forall>b\<in>B. Op (exit_op (c b)) = OP_CONDJUMP \<and> FromNZCV (exit_op (c b)) \<longrightarrow> marker_before (c b))"

lemma FoldBranch_blocked:
  assumes "marker_before (Code s b)"
  shows "FoldBranch b s = s"
proof -
  from assms obtain pre g st x where c: "Code s b = pre @ g # st @ [x]" "Op g = OP_GUESTOPCODE" "\<forall>n\<in>set st. Op n = OP_STOREREGISTER"
    unfolding marker_before_def by blast
  have "rev (butlast (Code s b)) = rev st @ g # rev pre" by (simp add: c(1) butlast_append)
  moreover have "dropWhile (\<lambda>n. Op n = OP_STOREREGISTER) (rev st @ g # rev pre) = g # rev pre"
    using c(2,3) by (subst dropWhile_append2) auto
  ultimately show ?thesis using c(2) by (simp add: FoldBranch_def Let_def)
qed

lemma fold_blocked:
  assumes "markers (set bs) (Code s)"
  shows "fold fold_block bs s = s"
proof -
  have "fold_block b s = s" if "b \<in> set bs" for b
    using assms that FoldBranch_blocked by (auto simp: fold_block_def markers_def Let_def)
  then show ?thesis by (induction bs) simp_all
qed

lemma process_code_append:
  "process_code cfg (xs @ ys) X U =
     (case process_code cfg ys X U of (ys', X1, U1) \<Rightarrow> case process_code cfg xs X1 U1 of (xs', X2, U2) \<Rightarrow> (xs' @ ys', X2, U2))"
  by (induction xs) (simp_all split: prod.splits)

lemma process_stores:
  assumes "\<forall>n\<in>set st. Op n = OP_STOREREGISTER" and "process_code cfg st X U = (st', X', U')"
  shows "\<forall>n\<in>set st'. Op n = OP_STOREREGISTER"
  using assms
proof (induction st arbitrary: st' X' U')
  case (Cons n st)
  obtain t X1 U1 where t: "process_code cfg st X U = (t, X1, U1)" by (cases "process_code cfg st X U")
  have "Trivial (Classify n)" using Cons.prems(1) by (simp add: Classify_def Trivial_def)
  then show ?case using Cons.IH [OF _ t] Cons.prems t by (auto simp: process_op_def Let_def split: if_splits)
qed simp

lemma process_marker:
  assumes "marker_before ns" and "process_code cfg ns X U = (ns', X', U')" and "is_exit (Op (last ns))" and "writers_are_marked cfg"
    and "HasSideEffects cfg OP_GUESTOPCODE"
  shows "marker_before ns'"
proof -
  from assms(1) obtain pre g st x where c: "ns = pre @ g # st @ [x]" "Op g = OP_GUESTOPCODE" "\<forall>n\<in>set st. Op n = OP_STOREREGISTER"
    unfolding marker_before_def by blast
  obtain X1 where x: "process_op cfg x X U = ([x], X1, U)" using process_exit assms(3,4) c(1) by fastforce
  obtain st' X2 U2 where st: "process_code cfg st X1 U = (st', X2, U2)" by (cases "process_code cfg st X1 U")
  have "process_op cfg g X2 U2 = ([g], X2, U2)" using c(2) assms(5) by (simp add: process_op_def EliminateDeadCode_def Classify_def Trivial_def Let_def)
  moreover obtain pre' X3 U3 where pr: "process_code cfg pre X2 U2 = (pre', X3, U3)" by (cases "process_code cfg pre X2 U2")
  ultimately have "ns' = pre' @ g # st' @ [x]" using assms(2) x st by (simp add: c(1) process_code_append)
  then show ?thesis unfolding marker_before_def using c(2) process_stores [OF c(3) st] by blast
qed

section \<open>What the worklist leaves alone\<close>

lemma ProcessBlock_entry [simp]:
  "EntryUndefined (snd (ProcessBlock cfg b s)) = EntryUndefined s" "EntryNZCVLiveIn (snd (ProcessBlock cfg b s)) = EntryNZCVLiveIn s"
  "Order (snd (ProcessBlock cfg b s)) = Order s"
  by (simp_all add: ProcessBlock_def Let_def case_prod_beta)

lemma add_all_entry [simp]: "EntryNZCVLiveIn (fold AddWorklist bs s) = EntryNZCVLiveIn s"
  by (induction bs arbitrary: s) (simp_all add: AddWorklist_def)

lemma dfce_step_view:
  assumes "dfce_ok B s" and "Worklist s \<noteq> []" and m: "writers_are_marked cfg" and g: "HasSideEffects cfg OP_GUESTOPCODE" and mk: "markers B (Code s)"
  shows "markers B (Code (dfce_step cfg s)) \<and> EntryUndefined (dfce_step cfg s) = EntryUndefined s
    \<and> EntryNZCVLiveIn (dfce_step cfg s) = EntryNZCVLiveIn s \<and> Order (dfce_step cfg s) = Order s"
proof -
  let ?b = "last (Worklist s)" and ?s = "s\<lparr>InWorklist := (InWorklist s)(last (Worklist s) := False)\<rparr>"
  obtain ch s1 where p: "ProcessBlock cfg ?b ?s = (ch, s1)" by (cases "ProcessBlock cfg ?b ?s")
  have b: "?b \<in> B" and cl: "closed_unit B (Code s)" using assms(1,2) by (auto simp: dfce_ok_def)
  have e: "EntryUndefined s1 = EntryUndefined s" "EntryNZCVLiveIn s1 = EntryNZCVLiveIn s" "Order s1 = Order s"
    using ProcessBlock_entry [of cfg ?b ?s] p by simp_all
  have st: "Code (dfce_step cfg s) = Code s1" "EntryUndefined (dfce_step cfg s) = EntryUndefined s1" "EntryNZCVLiveIn (dfce_step cfg s) = EntryNZCVLiveIn s1"
    "Order (dfce_step cfg s) = Order s1"
    by (simp_all add: dfce_step_def Let_def p)
  have "markers B (Code s1)"
  proof (cases "HasFlags ?s ?b")
    case False
    then show ?thesis using ProcessBlock_unmarked(1) [OF False p] mk by simp
  next
    case True
    obtain ns X U where pc: "process_code cfg (Code ?s ?b) (exit_flags (BlockFlags ?s) (last (Code ?s ?b))) (NumUses ?s) = (ns, X, U)"
      by (cases "process_code cfg (Code ?s ?b) (exit_flags (BlockFlags ?s) (last (Code ?s ?b))) (NumUses ?s)")
    have cb: "Code ?s ?b \<noteq> []" "is_exit (Op (last (Code ?s ?b)))" using cl b by (auto simp: closed_unit_def)
    have l: "last ns = last (Code s ?b)" using process_code_exit [OF pc cb m] by simp
    have c1: "Code s1 = (Code s)(?b := ns)" using ProcessBlock_marked(1) [OF True p pc] by simp
    have "marker_before ns" if "Op (last ns) = OP_CONDJUMP" "FromNZCV (last ns)"
      using process_marker [OF _ pc cb(2) m g] mk b that l by (simp add: markers_def)
    then show ?thesis using mk by (simp add: markers_def c1)
  qed
  then show ?thesis using st e by simp
qed

lemma dfce_loop_view:
  assumes "dfce_loop fuel cfg s = Some s'" and "dfce_ok B s" and m: "writers_are_marked cfg" and g: "HasSideEffects cfg OP_GUESTOPCODE" and "markers B (Code s)"
  shows "dfce_ok B s' \<and> markers B (Code s') \<and> EntryUndefined s' = EntryUndefined s \<and> EntryNZCVLiveIn s' = EntryNZCVLiveIn s \<and> Order s' = Order s"
  using assms(1,2,5)
proof (induction fuel arbitrary: s)
  case 0
  then show ?case by (subst (asm) dfce_loop.simps) (auto split: if_splits)
next
  case (Suc fuel)
  show ?case
  proof (cases "Worklist s = []")
    case True
    then have "s' = s" using Suc.prems(1) by (subst (asm) dfce_loop.simps) simp
    then show ?thesis using Suc.prems(2,3) by simp
  next
    case False
    then have l: "dfce_loop fuel cfg (dfce_step cfg s) = Some s'" using Suc.prems(1) by (subst (asm) dfce_loop.simps) simp
    note v = dfce_step_view [OF Suc.prems(2) False m g Suc.prems(3)]
    from Suc.IH [OF l dfce_step_ok [OF Suc.prems(2) m False]] show ?thesis using v by simp
  qed
qed

lemma annotate_all:
  assumes "distinct bs"
  shows "Code (fold annotate_block bs s) a =
      (if a \<in> set bs then fst (annotate_code (Code s a) (exit_flags (BlockFlags s) (exit_op (Code s a)))) else Code s a)
    \<and> EntryNZCVLiveIn (fold annotate_block bs s) = EntryNZCVLiveIn s"
  using assms by (induction bs arbitrary: s) (auto simp: annotate_block_def)

section \<open>Correctness\<close>

text \<open>The bound on the steps of either loop: each block can lose, or gain, four flags.\<close>

definition dfce_fuel :: "nat \<Rightarrow> nat" where "dfce_fuel n = 4 * n * Suc n + n"

definition wide_unit :: "dfce \<Rightarrow> bool" where
  "wide_unit s \<longleftrightarrow> (\<forall>b\<in>set (Order s). \<forall>n\<in>set (Code s b). wide_op n)"

lemma unit_blocks:
  assumes "ir_unit_ok s"
  shows "card (set (Order s)) = length (Order s)" and "distinct (Order s)"
proof -
  have "set (Order s) = {..<length (Order s)}" using assms by (simp add: ir_unit_ok_def)
  then show c: "card (set (Order s)) = length (Order s)" by simp
  show "distinct (Order s)" using c by (rule card_distinct)
qed

lemma eliminate_ends:
  assumes u: "ir_unit_ok s" and w: "wide_unit s" and m: "writers_are_marked cfg" and f: "dfce_fuel (length (Order s)) \<le> fuel"
  obtains s' where "dfce_eliminate fuel cfg s = Some s'" "dfce_exact (set (Order s)) s'" "Worklist s' = []"
proof -
  let ?B = "set (Order s)"
  note d = dfce_start_sel [OF u]
  have "potential ?B (BlockFlags (dfce_start s)) \<le> 4 * card ?B" by (rule potential_low) (simp add: d(6))
  then have "potential ?B (BlockFlags (dfce_start s)) * Suc (card ?B) + length (Worklist (dfce_start s)) \<le> fuel"
    using f mult_le_mono1 [of "potential ?B (BlockFlags (dfce_start s))" "4 * card ?B" "Suc (card ?B)"]
    by (simp add: dfce_fuel_def unit_blocks [OF u] d(5))
  from dfce_loop_ends [OF dfce_start_exact [OF u] dfce_start_ok [OF u] m this] w that show thesis
    by (auto simp: dfce_eliminate_def wide_unit_def)
qed

lemma dfce_start_entry: "EntryNZCVLiveIn (dfce_start s) = EntryNZCVLiveIn s"
proof -
  have "EntryNZCVLiveIn (fold (RecordEdge a) cs t) = EntryNZCVLiveIn t" for a cs t
    by (induction cs arbitrary: t) (simp_all add: RecordEdge_def)
  then have "EntryNZCVLiveIn (fold gather_block bs t) = EntryNZCVLiveIn t" for bs t
    by (induction bs arbitrary: t) (simp_all add: gather_block_def)
  then show ?thesis by (simp add: dfce_start_def CFG_Init_def Let_def)
qed

lemma eliminate_view:
  assumes u: "ir_unit_ok s" and e: "dfce_eliminate fuel cfg s = Some t" and m: "writers_are_marked cfg" and g: "HasSideEffects cfg OP_GUESTOPCODE" and mk: "markers (set (Order s)) (Code s)"
  shows "dfce_ok (set (Order s)) t \<and> markers (set (Order s)) (Code t) \<and> (\<forall>b\<in>set (Order s). EntryUndefined t b = 0)
    \<and> EntryNZCVLiveIn t = EntryNZCVLiveIn s \<and> Order t = Order s"
  using dfce_loop_view [OF e [unfolded dfce_eliminate_def] dfce_start_ok [OF u] m g] mk dfce_start_sel [OF u] dfce_start_entry by simp

text \<open>The unit after the pass, as the parts of the pass leave it.\<close>

lemma dfce_Run_view:
  assumes u: "ir_unit_ok s" and w: "wide_unit s" and m: "writers_are_marked cfg" and g: "HasSideEffects cfg OP_GUESTOPCODE" and mk: "markers (set (Order s)) (Code s)"
    and ne: "Order s \<noteq> []" and p: "\<not> FlagLivePermissionsDisabled cfg" and f: "dfce_fuel (length (Order s)) \<le> fuel"
  obtains t s' where "dfce_eliminate fuel cfg s = Some t" "dfce_ok (set (Order s)) t" "dfce_exact (set (Order s)) t" "Worklist t = []" "dfce_Run fuel cfg s = Some s'"
    "\<And>b. b \<in> set (Order s) \<Longrightarrow> Code s' b = fst (annotate_code (Code t b) (exit_flags (BlockFlags t) (exit_op (Code t b))))"
    "EntryNZCVLiveIn s' \<longleftrightarrow> EntryNZCVLiveIn s \<or> (\<exists>i<4. entry_read (MarkNZCVPreserveBrackets t) (Code t) i (hd (Order s)))"
proof -
  let ?B = "set (Order s)"
  obtain t where t: "dfce_eliminate fuel cfg s = Some t" "dfce_exact ?B t" "Worklist t = []" by (rule eliminate_ends [OF u w m f])
  have v: "dfce_ok ?B t" "markers ?B (Code t)" "\<forall>b\<in>?B. EntryUndefined t b = 0" "EntryNZCVLiveIn t = EntryNZCVLiveIn s" "Order t = Order s"
    using eliminate_view [OF u t(1) m g mk] by auto
  have um: "unit_marked (set (Order t)) t" using v(1,5) by (simp add: unit_marked_def dfce_ok_def)
  have z: "\<forall>b\<in>set (Order t). \<not> InWorklist t b \<and> EntryUndefined t b = 0" using t(2,3) v(3,5) by (simp add: dfce_exact_def)
  have len: "0 < length (Order s)" using ne by simp
  have fu: "4 * card (set (Order t)) * Suc (card (set (Order t))) + 1 \<le> fuel"
    using f len unfolding dfce_fuel_def v(5) unit_blocks(1) [OF u] by linarith
  from entry_live_in_exact [OF um _ t(3) z fu] ne v(5) obtain r where r: "entry_live_in fuel t = Some r"
    "EntryNZCVLiveIn r \<longleftrightarrow> EntryNZCVLiveIn t \<or> (\<exists>i<4. entry_read (MarkNZCVPreserveBrackets t) (Code t) i (hd (Order t)))"
    "Code r = Code t" "Order r = Order t" "BlockFlags r = BlockFlags t" by auto
  have fb: "fold fold_block (Order r) r = r" by (rule fold_blocked) (use v(2,5) r(3,4) in simp)
  have "dfce_Run fuel cfg s = Some (fold annotate_block (Order r) r)" by (simp add: dfce_Run_def t(1) r(1) fb AnnotateFlagLiveness_def p)
  moreover have "distinct (Order r)" using unit_blocks(2) [OF u] r(4) v(5) by simp
  ultimately show thesis using that [OF t(1) v(1) t(2,3)] annotate_all [of "Order r" r] r v(4,5) by simp
qed

text \<open>
  C17. Dead flag elimination ends and keeps what the unit computes. For every unit whose use counts and
  block marks are right, with no test of fewer than 32 bits and with the guest marker in front of
  each branch on flags, the pass ends within its bound, and the code it leaves, run by a back
  end that destroys any flag it was permitted to destroy, does what the code it was given does:
  from any block and any state it takes the same exit with the same values, the same machine and
  the same flags, except for the flags at an exit that was marked dead.
\<close>

theorem flag_elimination_correct:
  assumes "ir_semantics cfg exec branch" and "ignores_permissions exec branch" and "clobbers_permitted exec exec'"
    and "ir_unit_ok s" and "wide_unit s" and "markers (set (Order s)) (Code s)" and "HasSideEffects cfg OP_GUESTOPCODE"
    and "Order s \<noteq> []" and "\<not> FlagLivePermissionsDisabled cfg" and "dfce_fuel (length (Order s)) \<le> fuel"
  shows "\<exists>s'. dfce_Run fuel cfg s = Some s' \<and>
    (\<forall>b\<in>set (Order s). \<forall>k st. run_unit k exec' branch (Code s') b st = run_unit k exec branch (Code s) b st)"
proof -
  have m: "writers_are_marked cfg" by (rule ir_semantics.marked_cfg [OF assms(1)])
  obtain t s' where t: "dfce_eliminate fuel cfg s = Some t" "dfce_ok (set (Order s)) t" "dfce_Run fuel cfg s = Some s'"
    "\<And>b. b \<in> set (Order s) \<Longrightarrow> Code s' b = fst (annotate_code (Code t b) (exit_flags (BlockFlags t) (exit_op (Code t b))))"
    by (rule dfce_Run_view [OF assms(4,5) m assms(7,6,8,9,10)]) (rule that)
  have "run_unit k exec' branch (Code s') b st = run_unit k exec branch (Code s) b st" if b: "b \<in> set (Order s)" for b k st
  proof -
    have "run_unit k exec' branch (Code s') b st = run_unit k exec branch (Code t) b st"
      by (rule ir_semantics.annotated_run [OF assms(1-3) t(2) b t(4)])
    also have "\<dots> = run_unit k exec branch (Code s) b st"
      using ir_semantics.dfce_loop_sound [OF assms(1) dfce_start_ok [OF assms(4)] t(1) [unfolded dfce_eliminate_def]] b
      by (simp add: dfce_start_sel [OF assms(4)])
    finally show ?thesis .
  qed
  then show ?thesis using t(3) by blast
qed

text \<open>
  C23. The worklist of the flag elimination ends within its bound, and the flags it keeps for each block
  are exactly those its final code reads before it writes them, given those of its successors.
\<close>

theorem flag_liveness_solution:
  assumes "ir_unit_ok s" and "wide_unit s" and "writers_are_marked cfg" and "dfce_fuel (length (Order s)) \<le> fuel"
  shows "\<exists>t. dfce_eliminate fuel cfg s = Some t \<and> Worklist t = [] \<and>
    (\<forall>b\<in>set (Order s). BlockFlags t b = live_code (Code t b) (exit_flags (BlockFlags t) (exit_op (Code t b))))"
proof -
  obtain t where "dfce_eliminate fuel cfg s = Some t" "dfce_exact (set (Order s)) t" "Worklist t = []" by (rule eliminate_ends [OF assms])
  then show ?thesis by (auto simp: dfce_exact_def)
qed

text \<open>
  C33. The mark on the flags of the caller is exact. After the pass a unit is marked as reading them if and
  only if some path from its entry reaches a read of a flag that nothing on the path has
  written, where the loads and stores that only preserve the flags count as neither.
\<close>

theorem entry_flags_exact:
  assumes "ir_unit_ok s" and "wide_unit s" and "writers_are_marked cfg" and "HasSideEffects cfg OP_GUESTOPCODE" and "markers (set (Order s)) (Code s)"
    and "Order s \<noteq> []" and "\<not> FlagLivePermissionsDisabled cfg" and "dfce_fuel (length (Order s)) \<le> fuel" and "\<not> EntryNZCVLiveIn s"
  shows "\<exists>t s'. dfce_eliminate fuel cfg s = Some t \<and> dfce_Run fuel cfg s = Some s'
    \<and> (EntryNZCVLiveIn s' \<longleftrightarrow> (\<exists>i<4. entry_read (MarkNZCVPreserveBrackets t) (Code t) i (hd (Order s))))"
proof -
  obtain t s' where "dfce_eliminate fuel cfg s = Some t" "dfce_Run fuel cfg s = Some s'"
    "EntryNZCVLiveIn s' \<longleftrightarrow> EntryNZCVLiveIn s \<or> (\<exists>i<4. entry_read (MarkNZCVPreserveBrackets t) (Code t) i (hd (Order s)))"
    by (rule dfce_Run_view [OF assms(1-8)]) (rule that)
  then show ?thesis using assms(9) by blast
qed

section \<open>An example\<close>

text \<open>
  A loop of two blocks. The entry compares twice and branches on the second compare, so that the first
  is dead, and shifts before; the second block jumps back or leaves the unit.
\<close>

abbreviation blank_op :: ir_op where
  "blank_op \<equiv> \<lparr>NodeID = 0, Op = OP_DUMMY, OpSize = 8, Args = [], Cond = Cond_AL, FromNZCV = False, FromChainCR = False, CompareSize = 255, VCmpElementSize = 255, TrueBlock = 0, FalseBlock = 0,
     TargetBlock = 0, NZCVDeadAtTarget = False, RmifMask = 0, FalseNZCV = 0, InvFlags = 0, Constant = 0, CarryDead = False, NZCVDead = False\<rparr>"

definition demo_code :: "nat \<Rightarrow> ir_op list" where
  "demo_code b =
     (if b = 0 then
        [blank_op\<lparr>NodeID := 1, Op := OP_OTHER 0\<rparr>, blank_op\<lparr>NodeID := 2, Op := OP_OTHER 1\<rparr>,
         blank_op\<lparr>NodeID := 3, Op := OP_SUBNZCV, Args := [1, 2]\<rparr>,
         blank_op\<lparr>NodeID := 4, Op := OP_ASHR, Args := [1, 2]\<rparr>,
         blank_op\<lparr>NodeID := 5, Op := OP_ADDWITHFLAGS, Args := [4, 2]\<rparr>,
         blank_op\<lparr>NodeID := 6, Op := OP_GUESTOPCODE\<rparr>,
         blank_op\<lparr>NodeID := 7, Op := OP_CONDJUMP, Cond := Cond_EQ, FromNZCV := True, TrueBlock := 1, FalseBlock := 0\<rparr>]
      else [blank_op\<lparr>NodeID := 8, Op := OP_EXITFUNCTION, Args := [1], NZCVDeadAtTarget := True\<rparr>])"

definition demo_loop :: dfce where
  "demo_loop =
     \<lparr>Order = [0, 1], Code = demo_code, HasFlags = (\<lambda>b. b = 0), NumUses = (\<lambda>k. if k = 1 then 3 else if k = 2 then 3 else if k = 4 then 1 else 0),
      ExitsAssumeNZCVDead = False, EntryNZCVLiveIn = False, Predecessors = (\<lambda>_. []), BlockFlags = (\<lambda>_. 0), EntryUndefined = (\<lambda>_. 0),
      InWorklist = (\<lambda>_. False), Worklist = []\<rparr>"

abbreviation demo_cfg :: dfce_config where "demo_cfg \<equiv> ref_config (\<lambda>_. False) False False False"

text \<open>The dead compare goes, the add keeps only its flags, and the shift may use the carry.\<close>

lemma demo_result:
  "map_option (\<lambda>s. (map (\<lambda>n. (NodeID n, Op n, CarryDead n)) (Code s 0), EntryNZCVLiveIn s, ExitsAssumeNZCVDead s)) (dfce_Run 26 demo_cfg demo_loop) =
   Some ([(1, OP_OTHER 0, False), (2, OP_OTHER 1, False), (4, OP_ASHR, True), (5, OP_ADDNZCV, False), (6, OP_GUESTOPCODE, False), (7, OP_CONDJUMP, False)], False, True)"
  by code_simp

lemma demo_loop_ok: "ir_unit_ok demo_loop" "wide_unit demo_loop" "markers (set (Order demo_loop)) (Code demo_loop)"
proof -
  have "uses_ok {0, 1} demo_code (NumUses demo_loop)"
    by (auto simp: uses_ok_def demo_loop_def demo_code_def)
  moreover have "closed_unit {0, 1} demo_code" by (simp add: closed_unit_def demo_code_def is_exit_def successors_def)
  ultimately show "ir_unit_ok demo_loop"
    by (auto simp: ir_unit_ok_def demo_loop_def demo_code_def IsFlagOp_def)
  show "wide_unit demo_loop" by (simp add: wide_unit_def demo_loop_def demo_code_def wide_op_def)
  have "marker_before (demo_code 0)" unfolding marker_before_def demo_code_def
    by (intro exI [of _ "butlast (butlast (demo_code 0))"] exI [of _ "last (butlast (demo_code 0))"] exI [of _ "[]"] exI [of _ "last (demo_code 0)"])
      (simp add: demo_code_def)
  then show "markers (set (Order demo_loop)) (Code demo_loop)" by (simp add: markers_def demo_loop_def demo_code_def)
qed

lemma demo_guest: "HasSideEffects demo_cfg OP_GUESTOPCODE" "\<not> FlagLivePermissionsDisabled demo_cfg"
  by (simp_all add: ref_config_def ir_side_effects_def)

text \<open>Operations that are no integer operations do nothing here but destroy the carry where that was permitted.\<close>

definition demo_exec :: "(u64, unit) ir_exec" where
  "demo_exec = ref_exec demo_cfg (\<lambda>n vs f m. (7, f, m))"

definition demo_clobber :: "(u64, unit) ir_exec" where
  "demo_clobber n vs f m = (case demo_exec n vs f m of (v, g, m') \<Rightarrow> (v, \<lambda>i. if permits n i then \<not> g i else g i, m'))"

lemma demo_ignores: "ignores_permissions demo_exec (ref_branch (\<lambda>_ _ _. False))"
  by (simp add: ignores_permissions_def demo_exec_def ref_exec_def ref_branch_def fun_eq_iff arith_def reads_def writes_def Classify_def flag_only_def)

lemma demo_clobbers: "clobbers_permitted demo_exec demo_clobber"
  by (simp add: clobbers_permitted_def demo_clobber_def)

theorem flag_elimination_correct_witness:
  "\<exists>s'. dfce_Run 26 demo_cfg demo_loop = Some s' \<and>
    (\<forall>b\<in>set (Order demo_loop). \<forall>k st. run_unit k demo_clobber (ref_branch (\<lambda>_ _ _. False)) (Code s') b st
      = run_unit k demo_exec (ref_branch (\<lambda>_ _ _. False)) (Code demo_loop) b st)"
  by (rule flag_elimination_correct [OF _ demo_ignores demo_clobbers demo_loop_ok demo_guest(1) _ demo_guest(2)])
    (simp_all add: demo_exec_def ref_semantics ref_config_def demo_loop_def dfce_fuel_def)

theorem flag_liveness_solution_witness:
  "\<exists>t. dfce_eliminate 26 demo_cfg demo_loop = Some t \<and> Worklist t = [] \<and>
    (\<forall>b\<in>set (Order demo_loop). BlockFlags t b = live_code (Code t b) (exit_flags (BlockFlags t) (exit_op (Code t b))))"
  by (rule flag_liveness_solution [OF demo_loop_ok(1,2) writers_marked]) (simp_all add: ref_config_def demo_loop_def dfce_fuel_def)

theorem entry_flags_exact_witness:
  "\<exists>t s'. dfce_eliminate 26 demo_cfg demo_loop = Some t \<and> dfce_Run 26 demo_cfg demo_loop = Some s'
    \<and> (EntryNZCVLiveIn s' \<longleftrightarrow> (\<exists>i<4. entry_read (MarkNZCVPreserveBrackets t) (Code t) i (hd (Order demo_loop))))"
  by (rule entry_flags_exact [OF demo_loop_ok(1,2) writers_marked demo_guest(1) demo_loop_ok(3) _ demo_guest(2)])
    (simp_all add: ref_config_def demo_loop_def dfce_fuel_def)

text \<open>\<open>TestZ\<close>, which the pass itself creates, counts as an operation that leaves the flags alone.\<close>

lemma testz_unclassified: "Op n = OP_TESTZ \<Longrightarrow> \<not> IROpWritesNZCV n \<and> writes n = FLAG_NZCV"
  by (simp add: IROpWritesNZCV_def classify_testz writes_def)

end
