(* ===== verification/CompareFuse.thy ===== *)
theory CompareFuse
  imports FlagArith
begin

text \<open>
  Compare fusion, \<open>IR/Passes/CompareBranchFusion.cpp\<close>: a branch or a select on the flags of a compare
  becomes a compare of the operands. This theory holds the conditions: which pairs of a compare
  and a condition the pass accepts, and that the two forms agree on them.
\<close>

section \<open>Conditions\<close>

definition IsFusableCond :: "CondClass \<Rightarrow> bool" where
  "IsFusableCond c \<longleftrightarrow> c \<in> {Cond_EQ, Cond_NEQ, Cond_UGE, Cond_ULT, Cond_UGT, Cond_ULE, Cond_SGE, Cond_SLT, Cond_SGT, Cond_SLE}"

definition IsUnsignedCond :: "CondClass \<Rightarrow> bool" where
  "IsUnsignedCond c \<longleftrightarrow> c = Cond_UGE \<or> c = Cond_ULT \<or> c = Cond_UGT \<or> c = Cond_ULE"

definition IsSignedCond :: "CondClass \<Rightarrow> bool" where
  "IsSignedCond c \<longleftrightarrow> c = Cond_SGE \<or> c = Cond_SLT \<or> c = Cond_SGT \<or> c = Cond_SLE"

definition NZCVFormReadsXER :: "CondClass \<Rightarrow> bool" where
  "NZCVFormReadsXER c \<longleftrightarrow> IsUnsignedCond c \<or> IsSignedCond c"

section \<open>Producers\<close>

text \<open>The operations of a block by node; an argument that is the invalid node has none.\<close>

type_synonym ir_lookup = "nat \<Rightarrow> ir_op option"

definition IsRegisterOperand :: "ir_lookup \<Rightarrow> nat \<Rightarrow> bool" where
  "IsRegisterOperand IR Arg =
     (case IR Arg of None \<Rightarrow> False | Some n \<Rightarrow> Op n \<noteq> OP_INLINECONSTANT \<and> Op n \<noteq> OP_INLINEENTRYPOINTOFFSET)"

definition IsUsableOperand :: "ir_lookup \<Rightarrow> nat \<Rightarrow> bool" where
  "IsUsableOperand IR Arg = (case IR Arg of None \<Rightarrow> False | Some n \<Rightarrow> Op n \<noteq> OP_INLINEENTRYPOINTOFFSET)"

definition GetConstant :: "ir_lookup \<Rightarrow> nat \<Rightarrow> u64 option" where
  "GetConstant IR Arg =
     (case IR Arg of None \<Rightarrow> None | Some n \<Rightarrow> if Op n = OP_INLINECONSTANT \<or> Op n = OP_CONSTANT then Some (Constant n) else None)"

record Producer =
  ProdOp :: "ir_op option"
  Fusable :: bool
  IsAdd :: bool
  AgainstZero :: bool
  AddConst :: u64
  NegatedConst :: u64
  SignBit :: u64

abbreviation no_producer :: Producer where
  "no_producer \<equiv> \<lparr>ProdOp = None, Fusable = False, IsAdd = False, AgainstZero = False, AddConst = 0, NegatedConst = 0, SignBit = 0\<rparr>"

definition AnalyzeOperands :: "ir_lookup \<Rightarrow> ir_op \<Rightarrow> bool \<Rightarrow> Producer" where
  "AnalyzeOperands IR n Add =
     (let P = no_producer\<lparr>ProdOp := Some n, IsAdd := Add\<rparr> in
      if OpSize n \<noteq> 4 \<and> OpSize n \<noteq> 8 then P
      else if \<not> IsRegisterOperand IR (Args n ! 0) \<or> \<not> IsUsableOperand IR (Args n ! 1) then P
      else
        let Is64 = (OpSize n = 8); Mask = (if Is64 then NOT 0 else 0xFFFFFFFF :: u64);
            P = P\<lparr>SignBit := (if Is64 then push_bit 63 1 else push_bit 31 1)\<rparr> in
        case GetConstant IR (Args n ! 1) of
          None \<Rightarrow> if Add then P else P\<lparr>AgainstZero := False, Fusable := True\<rparr>
        | Some C \<Rightarrow>
            let P = (if Add then
                       let c = C AND Mask; Neg = (0 - c) AND Mask in
                       P\<lparr>AddConst := c, NegatedConst := (if Is64 then Neg else signed_take_bit 31 Neg)\<rparr>
                     else P) in
            P\<lparr>AgainstZero := (C AND Mask = 0), Fusable := True\<rparr>)"

definition AnalyzeProducer :: "ir_lookup \<Rightarrow> ir_op \<Rightarrow> Producer" where
  "AnalyzeProducer IR n =
     (if Op n = OP_SUBWITHFLAGS \<or> Op n = OP_SUBNZCV then AnalyzeOperands IR n False
      else if Op n = OP_ADDWITHFLAGS \<or> Op n = OP_ADDNZCV then AnalyzeOperands IR n True
      else no_producer\<lparr>ProdOp := Some n\<rparr>)"

definition ResolveFusedCond :: "Producer \<Rightarrow> CondClass \<Rightarrow> CondClass option" where
  "ResolveFusedCond P c =
     (if c = Cond_MI \<or> c = Cond_PL then
        if AgainstZero P then Some (if c = Cond_MI then Cond_SLT else Cond_SGE) else None
      else if \<not> IsFusableCond c then None
      else if IsAdd P \<and> (IsUnsignedCond c \<and> AddConst P = 0 \<or> IsSignedCond c \<and> AddConst P = SignBit P) then None
      else Some c)"

definition EvalCondAgainstNZCV :: "CondClass \<Rightarrow> u8 \<Rightarrow> bool" where
  "EvalCondAgainstNZCV c NZCV =
     (let N = (NZCV AND 8 \<noteq> 0); Z = (NZCV AND 4 \<noteq> 0); C = (NZCV AND 2 \<noteq> 0); V = (NZCV AND 1 \<noteq> 0) in
      case c of
        Cond_EQ \<Rightarrow> Z | Cond_NEQ \<Rightarrow> \<not> Z | Cond_UGE \<Rightarrow> C | Cond_ULT \<Rightarrow> \<not> C | Cond_UGT \<Rightarrow> C \<and> \<not> Z | Cond_ULE \<Rightarrow> \<not> (C \<and> \<not> Z)
      | Cond_MI \<Rightarrow> N | Cond_PL \<Rightarrow> \<not> N | Cond_VS \<Rightarrow> V | Cond_VC \<Rightarrow> \<not> V | Cond_SGE \<Rightarrow> N = V | Cond_SLT \<Rightarrow> N \<noteq> V
      | Cond_SGT \<Rightarrow> N = V \<and> \<not> Z | Cond_SLE \<Rightarrow> \<not> (N = V \<and> \<not> Z) | _ \<Rightarrow> False)"

section \<open>The direct compare\<close>

fun compare_at :: "nat \<Rightarrow> CondClass \<Rightarrow> int \<Rightarrow> int \<Rightarrow> bool" where
  "compare_at w Cond_EQ x y \<longleftrightarrow> x = y"
| "compare_at w Cond_NEQ x y \<longleftrightarrow> x \<noteq> y"
| "compare_at w Cond_UGE x y \<longleftrightarrow> x \<ge> y"
| "compare_at w Cond_ULT x y \<longleftrightarrow> x < y"
| "compare_at w Cond_UGT x y \<longleftrightarrow> x > y"
| "compare_at w Cond_ULE x y \<longleftrightarrow> x \<le> y"
| "compare_at w Cond_SGE x y \<longleftrightarrow> signed_at w x \<ge> signed_at w y"
| "compare_at w Cond_SLT x y \<longleftrightarrow> signed_at w x < signed_at w y"
| "compare_at w Cond_SGT x y \<longleftrightarrow> signed_at w x > signed_at w y"
| "compare_at w Cond_SLE x y \<longleftrightarrow> signed_at w x \<le> signed_at w y"
| "compare_at w _ x y \<longleftrightarrow> False"

section \<open>Flags of sums and differences\<close>

abbreviation half :: "nat \<Rightarrow> int" where "half w \<equiv> 2 ^ (w - 1)"

lemma two_halves: "0 < w \<Longrightarrow> (2 :: int) ^ w = 2 * half w"
  by (cases w) simp_all

lemma top_bit:
  assumes "0 < w" and "0 \<le> x" and "x < 2 ^ w"
  shows "bit x (w - 1) \<longleftrightarrow> half w \<le> x"
proof -
  have p: "(0 :: int) < half w" by simp
  have "x div half w = (if half w \<le> x then 1 else 0)"
  proof (cases "half w \<le> x")
    case True
    have "x < 2 * half w" using assms two_halves by simp
    then have "x div half w = 1" using True p div_pos_geq [of "half w" x] by (simp add: div_pos_pos_trivial)
    then show ?thesis using True by simp
  next
    case False
    then show ?thesis using assms(2) by (simp add: div_pos_pos_trivial)
  qed
  then show ?thesis by (simp add: bit_iff_odd)
qed

lemma signed_at_half: "0 < w \<Longrightarrow> 0 \<le> x \<Longrightarrow> x < 2 ^ w \<Longrightarrow> signed_at w x = (if half w \<le> x then x - 2 * half w else x)"
  using top_bit [of w x] two_halves [of w] by (simp add: signed_at_def)

lemma take_bit_once:
  assumes "0 \<le> (s :: int)" and "s < 2 * 2 ^ w"
  shows "take_bit w s = (if s < 2 ^ w then s else s - 2 ^ w)"
proof (cases "s < 2 ^ w")
  case True
  then show ?thesis using assms(1) by (simp add: take_bit_int_eq_self)
next
  case False
  have "s mod 2 ^ w = (s - 2 ^ w) mod 2 ^ w" by simp
  also have "\<dots> = s - 2 ^ w" using False assms(2) by (intro mod_pos_pos_trivial) auto
  finally show ?thesis using False by (simp add: take_bit_eq_mod)
qed

lemma inv_bits: "0 \<le> y \<Longrightarrow> y < 2 ^ w \<Longrightarrow> take_bit w (NOT y) = 2 ^ w - 1 - (y :: int)"
proof -
  assume y: "0 \<le> y" "y < 2 ^ w"
  have "take_bit w (NOT y) = (2 ^ w + (- y - 1)) mod 2 ^ w" by (simp add: take_bit_eq_mod not_int_def)
  also have "\<dots> = 2 ^ w + (- y - 1)" using y by (intro mod_pos_pos_trivial) simp_all
  finally show ?thesis by simp
qed

text \<open>
  All flags of a difference and of a sum in terms of the operands: zero, carry, sign against the
  overflow, and the sign alone when the second operand is zero.
\<close>

lemma sub_flags:
  assumes w: "0 < w" and x: "0 \<le> x" "x < 2 ^ w" and y: "0 \<le> y" "y < 2 ^ w" and h: "h = snd (AddWithCarry w x (take_bit w (NOT y)) True)"
  shows "h 2 \<longleftrightarrow> x = y" "h 1 \<longleftrightarrow> y \<le> x" "h 3 = h 0 \<longleftrightarrow> signed_at w y \<le> signed_at w x" "y = 0 \<Longrightarrow> h 3 \<longleftrightarrow> signed_at w x < 0"
proof -
  define H where "H = half w"
  have H: "0 < H" "(2 :: int) ^ w = 2 * H" using two_halves [OF w] by (simp_all add: H_def)
  define r where "r = (if y \<le> x then x - y else x - y + 2 * H)"
  have r: "0 \<le> r" "r < 2 * H" using x y H by (auto simp: r_def)
  have s: "x + take_bit w (NOT y) + 1 = x - y + 2 * H" using inv_bits [OF y] H by simp
  have t: "take_bit w (x - y + 2 * H) = r" using take_bit_once [of "x - y + 2 * H" w] x y H by (auto simp: r_def)
  have so: "signed_at w z = (if H \<le> z then z - 2 * H else z)" if "0 \<le> z" "z < 2 * H" for z
    using signed_at_half [OF w, of z] that H by (simp add: H_def)
  have iv: "signed_at w (take_bit w (NOT y)) = - 1 - signed_at w y"
    using so [of "2 * H - 1 - y"] so [of y] inv_bits [OF y] y H by simp
  have tb: "bit r (w - 1) \<longleftrightarrow> H \<le> r" using top_bit [OF w r(1)] r(2) H(2) by (simp add: H_def)
  have hd: "h = nzcv (H \<le> r) (r = 0) (r \<noteq> x - y + 2 * H) (signed_at w r \<noteq> signed_at w x - signed_at w y)"
    by (simp add: h AddWithCarry_def Let_def s t iv tb del: One_nat_def)
  have sx: "signed_at w x = (if H \<le> x then x - 2 * H else x)" and sy: "signed_at w y = (if H \<le> y then y - 2 * H else y)"
    and sr: "signed_at w r = (if H \<le> r then r - 2 * H else r)"
    using so [of x] so [of y] so [of r] x y r H by simp_all
  show "h 2 \<longleftrightarrow> x = y" "h 1 \<longleftrightarrow> y \<le> x" using x y H by (auto simp: hd nzcv_def r_def)
  show "h 3 = h 0 \<longleftrightarrow> signed_at w y \<le> signed_at w x"
    unfolding hd nzcv_def sx sy sr using x y H by (simp add: r_def)
  show "y = 0 \<Longrightarrow> h 3 \<longleftrightarrow> signed_at w x < 0" using x y H by (auto simp: hd nzcv_def sx r_def)
qed

lemma add_flags:
  assumes w: "0 < w" and x: "0 \<le> x" "x < 2 ^ w" and y: "0 \<le> y" "y < 2 ^ w" and h: "h = snd (AddWithCarry w x y False)"
    and k: "k = take_bit w (- y)"
  shows "h 2 \<longleftrightarrow> x = k" "y \<noteq> 0 \<Longrightarrow> h 1 \<longleftrightarrow> k \<le> x" "y \<noteq> half w \<Longrightarrow> h 3 = h 0 \<longleftrightarrow> signed_at w k \<le> signed_at w x" "y = 0 \<Longrightarrow> h 3 \<longleftrightarrow> signed_at w x < 0"
proof -
  define H where "H = half w"
  have H: "0 < H" "(2 :: int) ^ w = 2 * H" using two_halves [OF w] by (simp_all add: H_def)
  have kd: "k = (if y = 0 then 0 else 2 * H - y)"
  proof (cases "y = 0")
    case False
    have "take_bit w (- y) = (2 ^ w + - y) mod 2 ^ w" by (simp add: take_bit_eq_mod)
    also have "\<dots> = 2 ^ w + - y" using y False by (intro mod_pos_pos_trivial) simp_all
    finally show ?thesis using False H by (simp add: k)
  qed (simp add: k)
  define r where "r = (if x + y < 2 * H then x + y else x + y - 2 * H)"
  have r: "0 \<le> r" "r < 2 * H" using x y H by (auto simp: r_def)
  have t: "take_bit w (x + y) = r" using take_bit_once [of "x + y" w] x y H by (auto simp: r_def)
  have so: "signed_at w z = (if H \<le> z then z - 2 * H else z)" if "0 \<le> z" "z < 2 * H" for z
    using signed_at_half [OF w, of z] that H by (simp add: H_def)
  have tb: "bit r (w - 1) \<longleftrightarrow> H \<le> r" using top_bit [OF w r(1)] r(2) H(2) by (simp add: H_def)
  have hd: "h = nzcv (H \<le> r) (r = 0) (r \<noteq> x + y) (signed_at w r \<noteq> signed_at w x + signed_at w y)"
    by (simp add: h AddWithCarry_def Let_def t tb del: One_nat_def)
  have sx: "signed_at w x = (if H \<le> x then x - 2 * H else x)" and sy: "signed_at w y = (if H \<le> y then y - 2 * H else y)"
    and sr: "signed_at w r = (if H \<le> r then r - 2 * H else r)" and sk: "signed_at w k = (if H \<le> k then k - 2 * H else k)"
    using so [of x] so [of y] so [of r] so [of k] x y r H by (simp_all add: kd)
  show "h 2 \<longleftrightarrow> x = k" "y \<noteq> 0 \<Longrightarrow> h 1 \<longleftrightarrow> k \<le> x" using x y H by (auto simp: hd nzcv_def r_def kd)
  show "h 3 = h 0 \<longleftrightarrow> signed_at w k \<le> signed_at w x" if "y \<noteq> half w"
    unfolding hd nzcv_def sx sy sr sk using x y H that [folded H_def] by (simp add: r_def kd)
  show "y = 0 \<Longrightarrow> h 3 \<longleftrightarrow> signed_at w x < 0" using x y H by (auto simp: hd nzcv_def sx r_def)
qed

lemma cond_of_flags:
  assumes "h 2 \<longleftrightarrow> x = k" and "IsUnsignedCond c \<Longrightarrow> h 1 \<longleftrightarrow> k \<le> x" and "IsSignedCond c \<Longrightarrow> h 3 = h 0 \<longleftrightarrow> signed_at w k \<le> signed_at w x"
    and "IsFusableCond c" and inj: "IsSignedCond c \<Longrightarrow> signed_at w k = signed_at w x \<longleftrightarrow> x = k"
  shows "cond_holds c h \<longleftrightarrow> compare_at w c x k"
  using assms by (cases c) (auto simp: IsUnsignedCond_def IsSignedCond_def IsFusableCond_def order.order_iff_strict)

lemma signed_at_inj:
  assumes "0 < w" "0 \<le> x" "x < 2 ^ w" "0 \<le> y" "y < 2 ^ w" "signed_at w x = signed_at w y"
  shows "x = y"
  using assms two_halves [OF assms(1)] by (simp add: signed_at_half split: if_splits)

section \<open>Fused conditions\<close>

lemma uint_mask: "uint (C AND (if Is64 then NOT 0 else 0xFFFFFFFF :: u64)) = take_bit (if Is64 then 64 else 32) (uint C)"
proof (cases Is64)
  case False
  have "C AND 0xFFFFFFFF = take_bit 32 C" by (rule and_low_mask)
  moreover have "uint (take_bit 32 C) = take_bit 32 (uint C)" by (rule bit_eqI) (auto simp: bit_simps)
  ultimately show ?thesis using False by simp
next
  case True
  have "take_bit 64 (uint C) = uint C" by (rule bit_eqI) (auto simp: bit_simps dest: bit_imp_le_length)
  then show ?thesis using True by simp
qed

lemma uint_neg: "w \<le> 64 \<Longrightarrow> take_bit w (uint (0 - c :: u64)) = take_bit w (- uint c)"
  using uint_word_arith_bintrs(4) [of c] by (simp add: take_bit_take_bit min_def)

lemma uint_sext: "take_bit 32 (uint (signed_take_bit 31 (x :: u64))) = take_bit 32 (uint x)"
proof (rule bit_eqI)
  fix i :: nat
  have "min i 31 = i" if "i < 32" using that by simp
  then show "bit (take_bit 32 (uint (signed_take_bit 31 x))) i = bit (take_bit 32 (uint x)) i"
    by (auto simp: bit_take_bit_iff bit_uint_iff bit_signed_take_bit_iff min.commute)
qed

text \<open>What a usable producer knows of its constant.\<close>

lemma AnalyzeOperands_fusable:
  assumes "P = AnalyzeOperands IR n Add" and "Fusable P"
  shows "OpSize n = 4 \<or> OpSize n = 8" "IsAdd P = Add"
    "AgainstZero P \<Longrightarrow> \<exists>C. GetConstant IR (Args n ! 1) = Some C \<and> take_bit (8 * OpSize n) (uint C) = 0"
    "Add \<Longrightarrow> \<exists>C. GetConstant IR (Args n ! 1) = Some C \<and> uint (AddConst P) = take_bit (8 * OpSize n) (uint C)
      \<and> take_bit (8 * OpSize n) (uint (NegatedConst P)) = take_bit (8 * OpSize n) (- take_bit (8 * OpSize n) (uint C))
      \<and> uint (SignBit P) = half (8 * OpSize n)"
proof -
  let ?w = "8 * OpSize n"
  have sz: "OpSize n = 4 \<or> OpSize n = 8" and reg: "IsRegisterOperand IR (Args n ! 0)" "IsUsableOperand IR (Args n ! 1)"
    using assms by (auto simp: AnalyzeOperands_def Let_def split: if_splits)
  then show "OpSize n = 4 \<or> OpSize n = 8" by blast
  have w: "?w = (if OpSize n = 8 then 64 else 32)" using sz by auto
  show "IsAdd P = Add" using assms(1) by (auto simp: AnalyzeOperands_def Let_def split: option.splits)
  have z: "take_bit ?w (uint C) = 0" if "C AND (if OpSize n = 8 then NOT 0 else 0xFFFFFFFF) = 0" for C :: u64
    using uint_mask [of C "OpSize n = 8"] that by (simp add: w)
  show "\<exists>C. GetConstant IR (Args n ! 1) = Some C \<and> take_bit ?w (uint C) = 0" if "AgainstZero P"
  proof (cases "GetConstant IR (Args n ! 1)")
    case None
    then show ?thesis using assms that sz reg by (auto simp: AnalyzeOperands_def Let_def split: if_splits)
  next
    case (Some C)
    then have "C AND (if OpSize n = 8 then NOT 0 else 0xFFFFFFFF) = 0"
      using assms(1) that sz reg by (auto simp: AnalyzeOperands_def Let_def split: if_splits)
    then show ?thesis using Some z by blast
  qed
  show "\<exists>C. GetConstant IR (Args n ! 1) = Some C \<and> uint (AddConst P) = take_bit ?w (uint C)
      \<and> take_bit ?w (uint (NegatedConst P)) = take_bit ?w (- take_bit ?w (uint C)) \<and> uint (SignBit P) = half ?w" if Add
  proof (cases "GetConstant IR (Args n ! 1)")
    case None
    then show ?thesis using assms that sz reg by (auto simp: AnalyzeOperands_def Let_def)
  next
    case (Some C)
    let ?M = "if OpSize n = 8 then NOT 0 else 0xFFFFFFFF :: u64"
    define c where "c = C AND ?M"
    have uc: "uint c = take_bit ?w (uint C)" using uint_mask [of C "OpSize n = 8"] by (simp add: c_def w)
    have P: "AddConst P = c" "NegatedConst P = (if OpSize n = 8 then (0 - c) AND ?M else signed_take_bit 31 ((0 - c) AND ?M))"
      "SignBit P = (if OpSize n = 8 then push_bit 63 1 else push_bit 31 1)"
      using assms(1) that sz reg Some by (auto simp: AnalyzeOperands_def Let_def c_def)
    have m: "take_bit ?w (uint ((0 - c) AND ?M)) = take_bit ?w (- uint c)"
      using uint_mask [of "0 - c" "OpSize n = 8"] uint_neg [of ?w c] sz by (auto simp: w)
    have "take_bit ?w (uint (NegatedConst P)) = take_bit ?w (- uint c)"
      using m sz uint_sext [of "(0 - c) AND 0xFFFFFFFF"] by (auto simp: P(2))
    moreover have "uint (SignBit P) = half ?w" using sz by (auto simp: P(3))
    ultimately show ?thesis using Some P(1) uc by simp
  qed
qed


lemma zero_sign: "signed_at w 0 = 0"
  by (simp add: signed_at_def)

lemma resolved_condition:
  assumes P: "P = AnalyzeOperands IR n Add" "Fusable P" and r: "ResolveFusedCond P c = Some c'" and w: "w = 8 * OpSize n"
    and x: "0 \<le> x" "x < 2 ^ w" and y: "0 \<le> y" "y < 2 ^ w" and const: "\<And>C. GetConstant IR (Args n ! 1) = Some C \<Longrightarrow> y = take_bit w (uint C)"
  shows "cond_holds c (snd (compute (if Add then OP_ADD else OP_SUB) w x y b)) \<longleftrightarrow> compare_at w c' x (if Add then take_bit w (uint (NegatedConst P)) else y)"
proof -
  note A = AnalyzeOperands_fusable [OF P, folded w]
  have w0: "0 < w" using A(1) w by auto
  define h where "h = snd (compute (if Add then OP_ADD else OP_SUB) w x y b)"
  define k where "k = (if Add then take_bit w (uint (NegatedConst P)) else y)"
  have k: "0 \<le> k" "k < 2 ^ w" using y by (auto simp: k_def)
  have inj: "signed_at w k = signed_at w x \<longleftrightarrow> x = k" using signed_at_inj [OF w0 k x] by auto
  have az: "y = 0" if "AgainstZero P" using A(3) [OF that] const by auto
  have F: "h 2 \<longleftrightarrow> x = k" "\<not> (Add \<and> AddConst P = 0) \<Longrightarrow> h 1 \<longleftrightarrow> k \<le> x"
    "\<not> (Add \<and> AddConst P = SignBit P) \<Longrightarrow> h 3 = h 0 \<longleftrightarrow> signed_at w k \<le> signed_at w x" "AgainstZero P \<Longrightarrow> h 3 \<longleftrightarrow> signed_at w x < 0"
  proof -
    have "(h 2 \<longleftrightarrow> x = k) \<and> (\<not> (Add \<and> AddConst P = 0) \<longrightarrow> (h 1 \<longleftrightarrow> k \<le> x))
      \<and> (\<not> (Add \<and> AddConst P = SignBit P) \<longrightarrow> (h 3 = h 0 \<longleftrightarrow> signed_at w k \<le> signed_at w x)) \<and> (AgainstZero P \<longrightarrow> (h 3 \<longleftrightarrow> signed_at w x < 0))"
    proof (cases Add)
      case False
      have "h = snd (AddWithCarry w x (take_bit w (NOT y)) True)" using False by (simp add: h_def compute_def)
      from sub_flags [OF w0 x y this] show ?thesis using False az by (simp add: k_def)
    next
      case True
      from A(4) [OF True] obtain C where C: "GetConstant IR (Args n ! 1) = Some C" "uint (AddConst P) = take_bit w (uint C)"
        "take_bit w (uint (NegatedConst P)) = take_bit w (- take_bit w (uint C))" "uint (SignBit P) = half w" by blast
      have yc: "uint (AddConst P) = y" "k = take_bit w (- y)" using const [OF C(1)] C True by (simp_all add: k_def)
      have "h = snd (AddWithCarry w x y False)" using True by (simp add: h_def compute_def)
      note f = add_flags [OF w0 x y this yc(2)]
      have "y \<noteq> 0" if "AddConst P \<noteq> 0" using that yc(1) by (metis uint_0_iff)
      moreover have "y \<noteq> half w" if "AddConst P \<noteq> SignBit P" using that yc(1) C(4) by (metis word_eq_iff_unsigned)
      ultimately show ?thesis using f True az by blast
    qed
    then show "h 2 \<longleftrightarrow> x = k" "\<not> (Add \<and> AddConst P = 0) \<Longrightarrow> h 1 \<longleftrightarrow> k \<le> x"
      "\<not> (Add \<and> AddConst P = SignBit P) \<Longrightarrow> h 3 = h 0 \<longleftrightarrow> signed_at w k \<le> signed_at w x" "AgainstZero P \<Longrightarrow> h 3 \<longleftrightarrow> signed_at w x < 0" by blast+
  qed
  have "cond_holds c h \<longleftrightarrow> compare_at w c' x k"
  proof (cases "c = Cond_MI \<or> c = Cond_PL")
    case True
    then have z: "AgainstZero P" and c': "c' = (if c = Cond_MI then Cond_SLT else Cond_SGE)" using r by (auto simp: ResolveFusedCond_def split: if_splits)
    have "k = 0"
    proof (cases Add)
      case True
      then show ?thesis using A(4) const az [OF z] by (auto simp: k_def)
    qed (use az [OF z] in \<open>simp add: k_def\<close>)
    then show ?thesis using True c' F(4) [OF z] by (auto simp: zero_sign)
  next
    case False
    then have f: "IsFusableCond c" "c' = c" "IsUnsignedCond c \<Longrightarrow> \<not> (Add \<and> AddConst P = 0)" "IsSignedCond c \<Longrightarrow> \<not> (Add \<and> AddConst P = SignBit P)"
      using r A(2) by (auto simp: ResolveFusedCond_def split: if_splits)
    show ?thesis unfolding f(2) by (rule cond_of_flags [of h x k c w]) (use F(1-3) f(1,3,4) inj in blast)+
  qed
  then show ?thesis by (simp add: h_def k_def)
qed

text \<open>The literal of a conditional compare.\<close>

definition nibble :: "u8 \<Rightarrow> flagstate" where "nibble K = bit K"

lemma EvalCond_nibble:
  "IsFusableCond c \<or> c = Cond_MI \<or> c = Cond_PL \<Longrightarrow> EvalCondAgainstNZCV c K = cond_holds c (nibble K)"
  by (cases c) (simp_all add: EvalCondAgainstNZCV_def IsFusableCond_def nibble_def and_single_bit Let_def)

text \<open>
  A fused condition means the same on the operands as on the flags. Let the pass accept a compare
  and a condition, and let \<open>h\<close> be the flags the compare leaves. The condition holds of \<open>h\<close> if and only
  if the condition the pass resolved it to holds of the operands at the size of the compare,
  where the second operand of a sum is the negated constant that the pass computed.
\<close>

theorem fused_condition:
  assumes "P = AnalyzeProducer IR n" and "Fusable P" and "ResolveFusedCond P c = Some c'" and "arith n [x, y] f = Some (r, h)"
    and "\<And>C. GetConstant IR (Args n ! 1) = Some C \<Longrightarrow> y = C"
  shows "cond_holds c h \<longleftrightarrow>
    compare_at (8 * OpSize n) c' (take_bit (8 * OpSize n) (uint x)) (take_bit (8 * OpSize n) (uint (if IsAdd P then NegatedConst P else y)))"
proof -
  define Add where "Add \<longleftrightarrow> Op n = OP_ADDWITHFLAGS \<or> Op n = OP_ADDNZCV"
  have P: "P = AnalyzeOperands IR n Add" and b: "base_op (Op n) = (if Add then OP_ADD else OP_SUB)"
    using assms(1,2) by (auto simp: AnalyzeProducer_def Add_def split: if_splits)
  let ?w = "8 * OpSize n"
  have h: "h = snd (compute (if Add then OP_ADD else OP_SUB) ?w (take_bit ?w (uint x)) (take_bit ?w (uint y)) (f 1))"
    using assms(4) by (auto simp: arith_def operand_def b split: if_splits)
  have "cond_holds c h \<longleftrightarrow> compare_at ?w c' (take_bit ?w (uint x)) (if Add then take_bit ?w (uint (NegatedConst P)) else take_bit ?w (uint y))"
    unfolding h by (rule resolved_condition [OF P assms(2,3) refl]) (use assms(5) in auto)
  then show ?thesis using AnalyzeOperands_fusable(2) [OF P assms(2)] by auto
qed

text \<open>A sum with the constant 5 at 32 bits, read by an unsigned condition: the compare is with its negation.\<close>

abbreviation cmn_op :: ir_op where
  "cmn_op \<equiv> \<lparr>NodeID = 3, Op = OP_ADDNZCV, OpSize = 4, Args = [7, 2], Cond = Cond_AL, FromNZCV = False, FromChainCR = False, CompareSize = 255, VCmpElementSize = 255, TrueBlock = 0, FalseBlock = 0,
     TargetBlock = 0, NZCVDeadAtTarget = False, RmifMask = 0, FalseNZCV = 0, InvFlags = 0, Constant = 0, CarryDead = False, NZCVDead = False\<rparr>"

definition cmn_lookup :: ir_lookup where
  "cmn_lookup = [7 \<mapsto> cmn_op\<lparr>NodeID := 7, Op := OP_OTHER 0\<rparr>, 2 \<mapsto> cmn_op\<lparr>NodeID := 2, Op := OP_INLINECONSTANT, Constant := 5\<rparr>, 3 \<mapsto> cmn_op]"

lemma cmn_producer:
  "AnalyzeProducer cmn_lookup cmn_op = no_producer\<lparr>ProdOp := Some cmn_op, Fusable := True, IsAdd := True, AddConst := 5, NegatedConst := 0xFFFFFFFFFFFFFFFB, SignBit := 0x80000000\<rparr>"
  by (simp add: AnalyzeProducer_def AnalyzeOperands_def IsRegisterOperand_def IsUsableOperand_def GetConstant_def cmn_lookup_def Let_def push_bit_eq_mult)

theorem fused_condition_witness:
  "cond_holds Cond_UGE (snd (the (arith cmn_op [0xFFFFFFFD, 5] (\<lambda>_. False)))) \<longleftrightarrow>
    compare_at 32 Cond_UGE (take_bit 32 (uint (0xFFFFFFFD :: u64))) (take_bit 32 (uint (0xFFFFFFFFFFFFFFFB :: u64)))"
proof -
  have h: "arith cmn_op [0xFFFFFFFD, 5] (\<lambda>_. False) = Some (fst (the (arith cmn_op [0xFFFFFFFD, 5] (\<lambda>_. False))), snd (the (arith cmn_op [0xFFFFFFFD, 5] (\<lambda>_. False))))"
    by (simp add: arith_def integer_op_def del: uint_word_ariths)
  have w: "8 * OpSize cmn_op = 32" by simp
  have c: "ResolveFusedCond (AnalyzeProducer cmn_lookup cmn_op) Cond_UGE = Some Cond_UGE"
    by (simp add: cmn_producer ResolveFusedCond_def IsFusableCond_def IsUnsignedCond_def IsSignedCond_def)
  have k: "(if IsAdd (AnalyzeProducer cmn_lookup cmn_op) then NegatedConst (AnalyzeProducer cmn_lookup cmn_op) else 5) = 0xFFFFFFFFFFFFFFFB"
    by (simp add: cmn_producer)
  have f: "Fusable (AnalyzeProducer cmn_lookup cmn_op)" by (simp add: cmn_producer)
  have y: "\<And>C. GetConstant cmn_lookup (Args cmn_op ! 1) = Some C \<Longrightarrow> 5 = C" by (simp add: GetConstant_def cmn_lookup_def)
  show ?thesis by (rule fused_condition [OF refl f c h y, unfolded w k])
qed

end
