(* ===== verification/FusionScan.thy ===== *)
theory FusionScan
  imports CompareFuse
begin

text \<open>
  The scan of a block that decides which consumers of flags are fused and which compares go,
  \<open>CompareFusion::Run\<close>, and the match of a chain of two compares, \<open>CompareFusion::RunChain\<close>, up to the point
  where they rewrite the block.
\<close>

section \<open>Run\<close>

definition MayRaiseSignal :: "dfce_config \<Rightarrow> irops \<Rightarrow> bool" where
  "MayRaiseSignal cfg op =
     (if op \<in> {OP_GUESTOPCODE, OP_INLINECONSTANT, OP_INLINEENTRYPOINTOFFSET, OP_STOREREGISTER, OP_STORECONTEXT} then False
      else if op \<in> {OP_LOADMEM, OP_LOADMEMTSO, OP_LOADMEMREV, OP_VLOADVECTORMASKED, OP_VLOADVECTORGATHERMASKED, OP_VLOADVECTORGATHERMASKEDQPS,
                    OP_VLOADVECTORELEMENT, OP_VBROADCASTFROMMEM, OP_VLOADTWOGPRS} then True
      else HasSideEffects cfg op)"

definition FitsSelectLi :: "ir_lookup \<Rightarrow> nat \<Rightarrow> bool" where
  "FitsSelectLi IR Arg =
     (case IR Arg of
        None \<Rightarrow> False
      | Some n \<Rightarrow>
          if Op n = OP_INLINEENTRYPOINTOFFSET then False
          else if Op n = OP_INLINECONSTANT then sint (Constant n) \<ge> - 32768 \<and> sint (Constant n) \<le> 32767
          else True)"

record Consumer =
  ConsNode :: nat
  ConsProducer :: nat
  AgainstNegatedConst :: bool
  ConsConst :: u64
  ConsSize :: nat
  ConsCond :: CondClass
  ConsXER :: bool
  ConsApply :: bool

record fusion =
  Consumers :: "Consumer list"
  DeadProducers :: "nat list"
  Cur :: Producer
  CurKept :: bool
  SignalSinceCur :: bool
  CurFirst :: nat

abbreviation cur_op :: "fusion \<Rightarrow> ir_op" where "cur_op st \<equiv> the (ProdOp (Cur st))"

definition fusion_Close :: "bool \<Rightarrow> bool \<Rightarrow> fusion \<Rightarrow> fusion" where
  "fusion_Close RemoveDeadProducers FlagsNeededLater st =
     (if \<not> Fusable (Cur st) then st
      else
        let Dead = (\<not> CurKept st \<and> \<not> FlagsNeededLater); old = take (CurFirst st) (Consumers st); new = drop (CurFirst st) (Consumers st) in
        st\<lparr>Consumers := old @ map (\<lambda>c. c\<lparr>ConsApply := Dead \<or> ConsXER c\<rparr>) new,
          DeadProducers := (if Dead \<and> RemoveDeadProducers \<and> length (Consumers st) > CurFirst st then DeadProducers st @ [NodeID (cur_op st)]
                            else DeadProducers st)\<rparr>)"

definition fused_cond :: "ir_lookup \<Rightarrow> Producer \<Rightarrow> ir_op \<Rightarrow> CondClass option" where
  "fused_cond IR P n =
     (if \<not> Fusable P then None
      else if Op n = OP_CONDJUMP then if FromNZCV n \<and> VCmpElementSize n = 255 then ResolveFusedCond P (Cond n) else None
      else if Op n = OP_NZCVSELECT then
        if FitsSelectLi IR (Args n ! 0) \<and> FitsSelectLi IR (Args n ! 1) then ResolveFusedCond P (Cond n) else None
      else None)"

definition fusion_read :: "ir_lookup \<Rightarrow> ir_op \<Rightarrow> fusion \<Rightarrow> fusion" where
  "fusion_read IR n st =
     (case fused_cond IR (Cur st) n of
        None \<Rightarrow> st\<lparr>CurKept := True\<rparr>
      | Some c \<Rightarrow>
          st\<lparr>Consumers := Consumers st @ [\<lparr>ConsNode = NodeID n, ConsProducer = NodeID (cur_op st), AgainstNegatedConst = IsAdd (Cur st),
               ConsConst = NegatedConst (Cur st), ConsSize = OpSize (cur_op st), ConsCond = c, ConsXER = NZCVFormReadsXER (Cond n), ConsApply = False\<rparr>],
             CurKept := CurKept st \<or> SignalSinceCur st\<rparr>)"

definition fusion_op :: "dfce_config \<Rightarrow> ir_lookup \<Rightarrow> bool \<Rightarrow> ir_op \<Rightarrow> fusion \<Rightarrow> fusion" where
  "fusion_op cfg IR RemoveDeadProducers n st =
     (let Reads = IROpReadsNZCV n; Writes = IROpWritesNZCV n;
          st = (if \<not> Reads \<and> \<not> Writes \<and> MayRaiseSignal cfg (Op n) then st\<lparr>SignalSinceCur := True\<rparr> else st);
          st = (if Reads then fusion_read IR n st else st) in
      if Writes then
        let st = fusion_Close RemoveDeadProducers (\<not> IROpWritesAllNZCV n) st in
        st\<lparr>Cur := AnalyzeProducer IR n, CurKept := False, SignalSinceCur := False, CurFirst := length (Consumers st)\<rparr>
      else st)"

definition fusion_scan :: "dfce_config \<Rightarrow> ir_lookup \<Rightarrow> bool \<Rightarrow> bool \<Rightarrow> ir_op list \<Rightarrow> fusion" where
  "fusion_scan cfg IR NZCVLiveOut RemoveDeadProducers ns =
     fusion_Close RemoveDeadProducers NZCVLiveOut
       (fold (fusion_op cfg IR RemoveDeadProducers) ns
          \<lparr>Consumers = [], DeadProducers = [], Cur = no_producer, CurKept = False, SignalSinceCur = False, CurFirst = 0\<rparr>)"

section \<open>What the scan decides\<close>

text \<open>A consumer reads the flags of its producer: nothing between the two writes a flag.\<close>

definition consumer_of :: "ir_lookup \<Rightarrow> ir_op \<Rightarrow> ir_op list \<Rightarrow> Consumer \<Rightarrow> bool" where
  "consumer_of IR p seg c \<longleftrightarrow>
     (\<exists>mid x post. seg = mid @ x # post \<and> ConsNode c = NodeID x \<and> ConsProducer c = NodeID p \<and> IROpReadsNZCV x
       \<and> fused_cond IR (AnalyzeProducer IR p) x = Some (ConsCond c) \<and> AgainstNegatedConst c = IsAdd (AnalyzeProducer IR p)
       \<and> ConsConst c = NegatedConst (AnalyzeProducer IR p) \<and> ConsSize c = OpSize p)"

definition good_consumer :: "ir_lookup \<Rightarrow> ir_op list \<Rightarrow> Consumer \<Rightarrow> bool" where
  "good_consumer IR ns c \<longleftrightarrow>
     (\<exists>pre p seg post. ns = pre @ p # seg @ post \<and> Fusable (AnalyzeProducer IR p) \<and> (\<forall>n\<in>set seg. \<not> IROpWritesNZCV n) \<and> consumer_of IR p seg c)"

text \<open>
  A compare may go when each reader of its flags is fused with it, no operation that can raise a signal
  comes before such a reader, and after the readers the flags are written in full by an operation
  that does not read them, or end with the block.
\<close>

definition all_fused :: "dfce_config \<Rightarrow> ir_op \<Rightarrow> ir_op list \<Rightarrow> Consumer list \<Rightarrow> bool" where
  "all_fused cfg p seg cs \<longleftrightarrow>
     (\<forall>mid x post. seg = mid @ x # post \<and> IROpReadsNZCV x \<longrightarrow>
       (\<exists>c\<in>set cs. ConsNode c = NodeID x \<and> ConsProducer c = NodeID p) \<and> (\<forall>n\<in>set mid. IROpReadsNZCV n \<or> \<not> MayRaiseSignal cfg (Op n)))"

definition good_dead :: "dfce_config \<Rightarrow> ir_lookup \<Rightarrow> ir_op list \<Rightarrow> bool \<Rightarrow> Consumer list \<Rightarrow> nat \<Rightarrow> bool" where
  "good_dead cfg IR ns final cs d \<longleftrightarrow>
     (\<exists>pre p seg post. ns = pre @ p # seg @ post \<and> NodeID p = d \<and> Fusable (AnalyzeProducer IR p) \<and> (\<forall>n\<in>set seg. \<not> IROpWritesNZCV n)
       \<and> all_fused cfg p seg (filter ConsApply cs)
       \<and> (case post of [] \<Rightarrow> final | q # _ \<Rightarrow> IROpWritesAllNZCV q \<and> \<not> IROpReadsNZCV q))"

definition range_inv :: "dfce_config \<Rightarrow> ir_lookup \<Rightarrow> ir_op list \<Rightarrow> fusion \<Rightarrow> ir_op list \<Rightarrow> ir_op \<Rightarrow> ir_op list \<Rightarrow> bool" where
  "range_inv cfg IR ns st pre p seg \<longleftrightarrow>
     ns = pre @ p # seg \<and> Cur st = AnalyzeProducer IR p \<and> (\<forall>n\<in>set seg. \<not> IROpWritesNZCV n)
     \<and> (\<forall>c\<in>set (drop (CurFirst st) (Consumers st)). consumer_of IR p seg c)
     \<and> (\<not> CurKept st \<longrightarrow> all_fused cfg p seg (drop (CurFirst st) (Consumers st)))
     \<and> (\<not> SignalSinceCur st \<longrightarrow> (\<forall>n\<in>set seg. IROpReadsNZCV n \<or> \<not> MayRaiseSignal cfg (Op n)))"

definition scan_inv :: "dfce_config \<Rightarrow> ir_lookup \<Rightarrow> ir_op list \<Rightarrow> fusion \<Rightarrow> bool" where
  "scan_inv cfg IR ns st \<longleftrightarrow>
     CurFirst st \<le> length (Consumers st)
     \<and> (\<forall>c\<in>set (take (CurFirst st) (Consumers st)). good_consumer IR ns c)
     \<and> (\<forall>d\<in>set (DeadProducers st). good_dead cfg IR ns False (take (CurFirst st) (Consumers st)) d)
     \<and> (if Fusable (Cur st) then \<exists>pre p seg. range_inv cfg IR ns st pre p seg else drop (CurFirst st) (Consumers st) = [])"

lemma AnalyzeProducer_op [simp]: "ProdOp (AnalyzeProducer IR n) = Some n"
  by (auto simp: AnalyzeProducer_def AnalyzeOperands_def Let_def split: option.splits)

lemma writer_not_branch: "IROpWritesNZCV n \<Longrightarrow> Op n \<noteq> OP_CONDJUMP" and writer_not_select: "IROpWritesNZCV n \<Longrightarrow> Op n \<noteq> OP_NZCVSELECT"
  by (auto simp: IROpWritesNZCV_def Classify_def split: if_splits)

lemma writer_not_fused: "IROpWritesNZCV n \<Longrightarrow> fused_cond IR P n = None"
  by (simp add: fused_cond_def writer_not_branch writer_not_select)

lemma all_fused_mono:
  assumes "all_fused cfg p seg cs" and "\<And>c. c \<in> set cs \<Longrightarrow> \<exists>c'\<in>set ds. ConsNode c' = ConsNode c \<and> ConsProducer c' = ConsProducer c"
  shows "all_fused cfg p seg ds"
  unfolding all_fused_def
proof (intro allI impI)
  fix mid x post assume a: "seg = mid @ x # post \<and> IROpReadsNZCV x"
  then obtain c where c: "c \<in> set cs" "ConsNode c = NodeID x" "ConsProducer c = NodeID p" and m: "\<forall>n\<in>set mid. IROpReadsNZCV n \<or> \<not> MayRaiseSignal cfg (Op n)"
    using assms(1) unfolding all_fused_def by blast
  from assms(2) [OF c(1)] c(2,3) m
  show "(\<exists>c\<in>set ds. ConsNode c = NodeID x \<and> ConsProducer c = NodeID p) \<and> (\<forall>n\<in>set mid. IROpReadsNZCV n \<or> \<not> MayRaiseSignal cfg (Op n))" by metis
qed

lemma all_fused_snoc:
  assumes "all_fused cfg p seg cs"
    and "IROpReadsNZCV n \<Longrightarrow> (\<exists>c\<in>set cs. ConsNode c = NodeID n \<and> ConsProducer c = NodeID p) \<and> (\<forall>m\<in>set seg. IROpReadsNZCV m \<or> \<not> MayRaiseSignal cfg (Op m))"
  shows "all_fused cfg p (seg @ [n]) cs"
  unfolding all_fused_def
proof (intro allI impI)
  fix mid x post assume a: "seg @ [n] = mid @ x # post \<and> IROpReadsNZCV x"
  show "(\<exists>c\<in>set cs. ConsNode c = NodeID x \<and> ConsProducer c = NodeID p) \<and> (\<forall>n\<in>set mid. IROpReadsNZCV n \<or> \<not> MayRaiseSignal cfg (Op n))"
  proof (cases post rule: rev_cases)
    case Nil
    then have "seg = mid" "n = x" using a by auto
    then show ?thesis using a assms(2) by simp
  next
    case (snoc post' y)
    then have "seg = mid @ x # post'" using a by simp
    then show ?thesis using a assms(1) unfolding all_fused_def by blast
  qed
qed

lemma good_consumer_app: "good_consumer IR ns c \<Longrightarrow> good_consumer IR (ns @ ms) c"
  unfolding good_consumer_def by (metis append.assoc append_Cons)

lemma good_dead_app:
  assumes "good_dead cfg IR ns False cs d" and "set cs \<subseteq> set ds"
  shows "good_dead cfg IR (ns @ ms) final ds d"
proof -
  from assms(1) obtain pre p seg post where g: "ns = pre @ p # seg @ post" "NodeID p = d" "Fusable (AnalyzeProducer IR p)" "\<forall>n\<in>set seg. \<not> IROpWritesNZCV n"
    "all_fused cfg p seg (filter ConsApply cs)" "case post of [] \<Rightarrow> False | q # _ \<Rightarrow> IROpWritesAllNZCV q \<and> \<not> IROpReadsNZCV q"
    unfolding good_dead_def by blast
  have "all_fused cfg p seg (filter ConsApply ds)" by (rule all_fused_mono [OF g(5)]) (use assms(2) in auto)
  moreover have "case post @ ms of [] \<Rightarrow> final | q # _ \<Rightarrow> IROpWritesAllNZCV q \<and> \<not> IROpReadsNZCV q" using g(6) by (cases post) auto
  ultimately show ?thesis unfolding good_dead_def
    using g(1-4) by (intro exI [of _ pre] exI [of _ p] exI [of _ seg] exI [of _ "post @ ms"]) simp
qed

lemma consumer_of_app: "consumer_of IR p seg c \<Longrightarrow> consumer_of IR p (seg @ ms) c"
  unfolding consumer_of_def by (metis append.assoc append_Cons)

lemma consumer_of_apply: "consumer_of IR p seg (c\<lparr>ConsApply := a\<rparr>) = consumer_of IR p seg c"
  by (simp add: consumer_of_def)

text \<open>Closing the range of a compare: the decisions on it hold of the block so far.\<close>

lemma close_inv:
  assumes inv: "scan_inv cfg IR ns st" and c: "st' = fusion_Close Rm need st"
  shows "\<forall>c\<in>set (Consumers st'). good_consumer IR ns c"
    and "\<forall>d\<in>set (DeadProducers st'). good_dead cfg IR ns False (take (CurFirst st) (Consumers st)) d \<or>
      (\<not> need \<and> \<not> CurKept st \<and> good_dead cfg IR ns True (Consumers st') d)"
    and "take (CurFirst st) (Consumers st') = take (CurFirst st) (Consumers st)"
proof -
  have I: "CurFirst st \<le> length (Consumers st)" "\<forall>c\<in>set (take (CurFirst st) (Consumers st)). good_consumer IR ns c"
    "\<forall>d\<in>set (DeadProducers st). good_dead cfg IR ns False (take (CurFirst st) (Consumers st)) d"
    using inv by (auto simp: scan_inv_def)
  let ?old = "take (CurFirst st) (Consumers st)" and ?new = "drop (CurFirst st) (Consumers st)"
  have all: "(\<forall>c\<in>set (Consumers st'). good_consumer IR ns c) \<and>
    (\<forall>d\<in>set (DeadProducers st'). good_dead cfg IR ns False ?old d \<or> (\<not> need \<and> \<not> CurKept st \<and> good_dead cfg IR ns True (Consumers st') d))
    \<and> take (CurFirst st) (Consumers st') = ?old"
  proof (cases "Fusable (Cur st)")
    case False
    then have "?new = []" using inv by (simp add: scan_inv_def)
    then have "Consumers st = ?old" by simp
    then show ?thesis using False c I by (auto simp: fusion_Close_def)
  next
    case True
    then obtain pre p seg where o: "ns = pre @ p # seg" "Cur st = AnalyzeProducer IR p" "\<forall>n\<in>set seg. \<not> IROpWritesNZCV n"
      "\<forall>c\<in>set ?new. consumer_of IR p seg c" "\<not> CurKept st \<longrightarrow> all_fused cfg p seg ?new"
      using inv by (auto simp: scan_inv_def range_inv_def)
    define Dead where "Dead = (\<not> CurKept st \<and> \<not> need)"
    let ?new' = "map (\<lambda>c. c\<lparr>ConsApply := Dead \<or> ConsXER c\<rparr>) ?new"
    have st': "Consumers st' = ?old @ ?new'"
      "DeadProducers st' = (if Dead \<and> Rm \<and> length (Consumers st) > CurFirst st then DeadProducers st @ [NodeID p] else DeadProducers st)"
      using True c o(2) by (simp_all add: fusion_Close_def Let_def Dead_def)
    have fz: "Fusable (AnalyzeProducer IR p)" using True o(2) by simp
    have gc: "good_consumer IR ns x" if "x \<in> set ?new'" for x
    proof -
      have "consumer_of IR p seg x" using that o(4) by (auto simp: consumer_of_apply)
      then show ?thesis unfolding good_consumer_def using o(1,3) fz by (intro exI [of _ pre] exI [of _ p] exI [of _ seg] exI [of _ "[]"]) simp
    qed
    have gd: "good_dead cfg IR ns True (Consumers st') (NodeID p)" if Dead
    proof -
      have "all_fused cfg p seg ?new" using that o(5) by (simp add: Dead_def)
      then have "all_fused cfg p seg (filter ConsApply (?old @ ?new'))"
      proof (rule all_fused_mono)
        fix c assume "c \<in> set ?new"
        then show "\<exists>c'\<in>set (filter ConsApply (?old @ ?new')). ConsNode c' = ConsNode c \<and> ConsProducer c' = ConsProducer c"
          by (intro bexI [of _ "c\<lparr>ConsApply := Dead \<or> ConsXER c\<rparr>"]) (simp_all add: that)
      qed
      then show ?thesis unfolding good_dead_def st'(1) using o(1,3) fz by (intro exI [of _ pre] exI [of _ p] exI [of _ seg] exI [of _ "[]"]) simp
    qed
    show ?thesis using I gc gd st' by (auto simp: Dead_def min_def)
  qed
  then show "\<forall>c\<in>set (Consumers st'). good_consumer IR ns c"
    "\<forall>d\<in>set (DeadProducers st'). good_dead cfg IR ns False ?old d \<or> (\<not> need \<and> \<not> CurKept st \<and> good_dead cfg IR ns True (Consumers st') d)"
    "take (CurFirst st) (Consumers st') = ?old" by blast+
qed

text \<open>One operation that writes no flag: the range of the compare grows.\<close>

lemma range_other:
  assumes r: "range_inv cfg IR ns st pre p seg" and n: "\<not> IROpWritesNZCV n" "\<not> IROpReadsNZCV n"
  shows "range_inv cfg IR (ns @ [n]) (if MayRaiseSignal cfg (Op n) then st\<lparr>SignalSinceCur := True\<rparr> else st) pre p (seg @ [n])"
  using r n all_fused_snoc [of cfg p seg _ n] consumer_of_app [of IR p seg _ "[n]"] by (simp add: range_inv_def)

lemma range_unfused:
  assumes r: "range_inv cfg IR ns st pre p seg" and n: "\<not> IROpWritesNZCV n" "IROpReadsNZCV n"
  shows "range_inv cfg IR (ns @ [n]) (st\<lparr>CurKept := True\<rparr>) pre p (seg @ [n])"
  using r n consumer_of_app [of IR p seg _ "[n]"] by (simp add: range_inv_def)

lemma range_fused:
  assumes r: "range_inv cfg IR ns st pre p seg" and n: "\<not> IROpWritesNZCV n" "IROpReadsNZCV n" and f: "fused_cond IR (Cur st) n = Some c"
    and le: "CurFirst st \<le> length (Consumers st)"
  shows "range_inv cfg IR (ns @ [n]) (fusion_read IR n st) pre p (seg @ [n])"
proof -
  define k where "k = \<lparr>ConsNode = NodeID n, ConsProducer = NodeID (cur_op st), AgainstNegatedConst = IsAdd (Cur st),
    ConsConst = NegatedConst (Cur st), ConsSize = OpSize (cur_op st), ConsCond = c, ConsXER = NZCVFormReadsXER (Cond n), ConsApply = False\<rparr>"
  have st': "fusion_read IR n st = st\<lparr>Consumers := Consumers st @ [k], CurKept := CurKept st \<or> SignalSinceCur st\<rparr>"
    using f by (simp add: fusion_read_def k_def)
  have cur: "Cur st = AnalyzeProducer IR p" using r by (simp add: range_inv_def)
  have kk: "ConsNode k = NodeID n" "ConsProducer k = NodeID p" using cur by (simp_all add: k_def)
  have "consumer_of IR p (seg @ [n]) k" unfolding consumer_of_def
    using cur f n(2) by (intro exI [of _ seg] exI [of _ n] exI [of _ "[]"]) (simp add: k_def)
  moreover have "all_fused cfg p (seg @ [n]) (drop (CurFirst st) (Consumers st) @ [k])" if "\<not> CurKept st" "\<not> SignalSinceCur st"
  proof (rule all_fused_snoc)
    have "all_fused cfg p seg (drop (CurFirst st) (Consumers st))" using r that by (simp add: range_inv_def)
    then show "all_fused cfg p seg (drop (CurFirst st) (Consumers st) @ [k])" by (rule all_fused_mono) auto
  qed (use r that kk in \<open>simp_all add: range_inv_def\<close>)
  ultimately show ?thesis using r n le consumer_of_app [of IR p seg _ "[n]"] by (auto simp: range_inv_def st')
qed

lemma good_dead_closed:
  assumes "good_dead cfg IR ns True cs d" and n: "IROpWritesAllNZCV n" "\<not> IROpReadsNZCV n"
  shows "good_dead cfg IR (ns @ [n]) False cs d"
proof -
  from assms(1) obtain pre p seg post where g: "ns = pre @ p # seg @ post" "NodeID p = d" "Fusable (AnalyzeProducer IR p)" "\<forall>n\<in>set seg. \<not> IROpWritesNZCV n"
    "all_fused cfg p seg (filter ConsApply cs)" "case post of [] \<Rightarrow> True | q # _ \<Rightarrow> IROpWritesAllNZCV q \<and> \<not> IROpReadsNZCV q"
    unfolding good_dead_def by blast
  have "case post @ [n] of [] \<Rightarrow> False | q # _ \<Rightarrow> IROpWritesAllNZCV q \<and> \<not> IROpReadsNZCV q" using g(6) n by (cases post) auto
  then show ?thesis unfolding good_dead_def
    using g(1-5) by (intro exI [of _ pre] exI [of _ p] exI [of _ seg] exI [of _ "post @ [n]"]) simp
qed

lemma read_frame:
  "Cur (fusion_read IR n st) = Cur st" "CurFirst (fusion_read IR n st) = CurFirst st" "DeadProducers (fusion_read IR n st) = DeadProducers st"
  "CurFirst st \<le> length (Consumers st) \<Longrightarrow> take (CurFirst st) (Consumers (fusion_read IR n st)) = take (CurFirst st) (Consumers st)"
  "length (Consumers st) \<le> length (Consumers (fusion_read IR n st))"
  by (simp_all add: fusion_read_def split: option.split)

lemma fusion_frame:
  assumes "scan_inv cfg IR ns st" and "CurFirst st' = CurFirst st" "Cur st' = Cur st" "DeadProducers st' = DeadProducers st"
    and "CurFirst st' \<le> length (Consumers st')" "take (CurFirst st) (Consumers st') = take (CurFirst st) (Consumers st)"
    and "Fusable (Cur st) \<Longrightarrow> \<exists>pre p seg. range_inv cfg IR (ns @ [n]) st' pre p seg"
    and "\<not> Fusable (Cur st) \<Longrightarrow> Consumers st' = Consumers st"
  shows "scan_inv cfg IR (ns @ [n]) st'"
proof -
  have "good_consumer IR (ns @ [n]) c" if "c \<in> set (take (CurFirst st) (Consumers st))" for c
    using assms(1) that good_consumer_app by (simp add: scan_inv_def)
  moreover have "good_dead cfg IR (ns @ [n]) False (take (CurFirst st) (Consumers st)) d" if "d \<in> set (DeadProducers st)" for d
    using assms(1) that good_dead_app [of cfg IR ns "take (CurFirst st) (Consumers st)" d, OF _ subset_refl] by (simp add: scan_inv_def)
  moreover have "\<not> Fusable (Cur st) \<Longrightarrow> drop (CurFirst st) (Consumers st) = []" using assms(1) by (simp add: scan_inv_def)
  ultimately show ?thesis using assms(2-8) unfolding scan_inv_def by simp
qed

lemma step_read_only:
  assumes inv: "scan_inv cfg IR ns st" and n: "\<not> IROpWritesNZCV n"
  shows "scan_inv cfg IR (ns @ [n]) (fusion_op cfg IR Rm n st)"
proof (cases "IROpReadsNZCV n")
  case False
  have e: "fusion_op cfg IR Rm n st = (if MayRaiseSignal cfg (Op n) then st\<lparr>SignalSinceCur := True\<rparr> else st)"
    using False n by (simp add: fusion_op_def)
  have "\<exists>pre p seg. range_inv cfg IR (ns @ [n]) (fusion_op cfg IR Rm n st) pre p seg" if "Fusable (Cur st)"
    using inv that range_other [OF _ n False] unfolding e scan_inv_def by metis
  then show ?thesis using inv by (intro fusion_frame [OF inv]) (simp_all add: e scan_inv_def)
next
  case True
  have e: "fusion_op cfg IR Rm n st = fusion_read IR n st" using True n by (simp add: fusion_op_def)
  have le: "CurFirst st \<le> length (Consumers st)" using inv by (simp add: scan_inv_def)
  have "\<exists>pre p seg. range_inv cfg IR (ns @ [n]) (fusion_read IR n st) pre p seg" if "Fusable (Cur st)"
  proof -
    from inv that obtain pre p seg where r: "range_inv cfg IR ns st pre p seg" by (auto simp: scan_inv_def)
    show ?thesis
    proof (cases "fused_cond IR (Cur st) n")
      case None
      then show ?thesis using range_unfused [OF r n True] by (auto simp: fusion_read_def)
    next
      case (Some c)
      then show ?thesis using range_fused [OF r n True _ le] by blast
    qed
  qed
  moreover have "Consumers (fusion_read IR n st) = Consumers st" if "\<not> Fusable (Cur st)" using that by (simp add: fusion_read_def fused_cond_def)
  moreover have "CurFirst st \<le> length (Consumers (fusion_read IR n st))" using le read_frame(5) by (rule order_trans)
  ultimately show ?thesis unfolding e using le by (intro fusion_frame [OF inv]) (simp_all add: read_frame)
qed

lemma range_keep: "range_inv cfg IR ns st pre p seg \<Longrightarrow> range_inv cfg IR ns (st\<lparr>CurKept := True\<rparr>) pre p seg"
  by (simp add: range_inv_def)

lemma scan_keep:
  assumes "scan_inv cfg IR ns st"
  shows "scan_inv cfg IR ns (st\<lparr>CurKept := True\<rparr>)"
proof -
  have "\<exists>pre p seg. range_inv cfg IR ns (st\<lparr>CurKept := True\<rparr>) pre p seg" if "Fusable (Cur st)"
    using assms that range_keep unfolding scan_inv_def by metis
  then show ?thesis using assms by (simp add: scan_inv_def)
qed

lemma step_write:
  assumes inv: "scan_inv cfg IR ns st" and n: "IROpWritesNZCV n"
  shows "scan_inv cfg IR (ns @ [n]) (fusion_op cfg IR Rm n st)"
proof -
  define st1 where "st1 = (if IROpReadsNZCV n then st\<lparr>CurKept := True\<rparr> else st)"
  define st2 where "st2 = fusion_Close Rm (\<not> IROpWritesAllNZCV n) st1"
  have e: "fusion_op cfg IR Rm n st = st2\<lparr>Cur := AnalyzeProducer IR n, CurKept := False, SignalSinceCur := False, CurFirst := length (Consumers st2)\<rparr>"
    using n by (simp add: fusion_op_def fusion_read_def writer_not_fused st2_def st1_def Let_def)
  have i1: "scan_inv cfg IR ns st1" using inv scan_keep by (simp add: st1_def)
  note C = close_inv [OF i1 st2_def]
  have sub: "set (take (CurFirst st1) (Consumers st1)) \<subseteq> set (Consumers st2)" using C(3) by (metis set_take_subset)
  have "good_dead cfg IR (ns @ [n]) False (Consumers st2) d" if "d \<in> set (DeadProducers st2)" for d
    using C(2) that good_dead_app [OF _ sub] good_dead_closed [of cfg IR ns "Consumers st2" d n] by (auto simp: st1_def split: if_splits)
  moreover have "good_consumer IR (ns @ [n]) c" if "c \<in> set (Consumers st2)" for c using C(1) that good_consumer_app by blast
  moreover have "range_inv cfg IR (ns @ [n]) (fusion_op cfg IR Rm n st) ns n []"
    by (simp add: range_inv_def e all_fused_def)
  ultimately show ?thesis unfolding scan_inv_def by (auto simp: e)
qed

lemma scan_inv_fold: "scan_inv cfg IR [] st \<Longrightarrow> scan_inv cfg IR ns (fold (fusion_op cfg IR Rm) ns st)"
proof (induction ns rule: rev_induct)
  case (snoc n ns)
  then show ?case using step_write [of cfg IR ns _ n Rm] step_read_only [of cfg IR ns _ n Rm] by (cases "IROpWritesNZCV n") simp_all
qed simp

lemma fusion_scan_sound:
  assumes "st = fusion_scan cfg IR NZCVLiveOut Rm ns"
  shows "c \<in> set (Consumers st) \<Longrightarrow> good_consumer IR ns c"
    and "d \<in> set (DeadProducers st) \<Longrightarrow> good_dead cfg IR ns (\<not> NZCVLiveOut) (Consumers st) d"
proof -
  define st0 where "st0 = \<lparr>Consumers = [], DeadProducers = [], Cur = no_producer, CurKept = False, SignalSinceCur = False, CurFirst = 0\<rparr>"
  have "scan_inv cfg IR [] st0" by (simp add: scan_inv_def st0_def)
  then have i: "scan_inv cfg IR ns (fold (fusion_op cfg IR Rm) ns st0)" by (rule scan_inv_fold)
  have e: "st = fusion_Close Rm NZCVLiveOut (fold (fusion_op cfg IR Rm) ns st0)" using assms by (simp add: fusion_scan_def st0_def)
  note C = close_inv [OF i e]
  let ?f = "fold (fusion_op cfg IR Rm) ns st0"
  have sub: "set (take (CurFirst ?f) (Consumers ?f)) \<subseteq> set (Consumers st)" using C(3) by (metis set_take_subset)
  show "c \<in> set (Consumers st) \<Longrightarrow> good_consumer IR ns c" using C(1) by blast
  assume "d \<in> set (DeadProducers st)"
  with C(2) have "good_dead cfg IR ns False (take (CurFirst ?f) (Consumers ?f)) d \<or> (\<not> NZCVLiveOut \<and> good_dead cfg IR ns True (Consumers st) d)" by blast
  then show "good_dead cfg IR ns (\<not> NZCVLiveOut) (Consumers st) d" using good_dead_app [OF _ sub, of cfg IR ns d "[]"] by auto
qed

end
