(* ===== verification/FusionTheorems.thy ===== *)
theory FusionTheorems
  imports FusionScan
begin

text \<open>
  What compare fusion may do to a block, on the reference semantics of \<open>FlagArith\<close>: a fused reader
  compares the operands of the compare whose flags it read, and a compare that is dropped has
  left its flags to nobody.
\<close>

section \<open>Readers\<close>

text \<open>
  A node is computed after its arguments and once, a compare has two arguments, and there is no
  \<open>TestZ\<close>: it comes from tests narrower than 32 bits only, and the pass would not see it write the flags.
\<close>

definition args_before :: "ir_op list \<Rightarrow> bool" where
  "args_before ns \<longleftrightarrow>
     (\<forall>pre p post. ns = pre @ p # post \<longrightarrow> Op p \<noteq> OP_TESTZ \<and> (\<forall>n\<in>set (p # post). NodeID n \<notin> set (Args p))
       \<and> (Op p \<in> {OP_SUBNZCV, OP_ADDNZCV, OP_SUBWITHFLAGS, OP_ADDWITHFLAGS, OP_CONDSUBNZCV, OP_CONDADDNZCV} \<longrightarrow> length (Args p) = 2))"

text \<open>A node that holds a constant has its value when it is used.\<close>

definition constants_hold :: "(u64, 'm) ir_exec \<Rightarrow> ir_lookup \<Rightarrow> ir_op list \<Rightarrow> (u64, 'm) ir_state \<Rightarrow> bool" where
  "constants_hold exec IR ns s \<longleftrightarrow>
     (\<forall>pre p post k C. ns = pre @ p # post \<and> k \<in> set (Args p) \<and> GetConstant IR k = Some C \<longrightarrow> fst (run_code exec pre s) k = C)"

lemma non_writer: "\<not> IROpWritesNZCV n \<Longrightarrow> Op n \<noteq> OP_TESTZ \<Longrightarrow> i < 4 \<Longrightarrow> \<not> bit (writes n) i"
  using all_flags_bit [of i] by (auto simp: IROpWritesNZCV_def writes_def dest: and_zero_bit)

lemma run_op_ref:
  "fst (run_op (ref_exec cfg other) n s) k = (if k = NodeID n then fst (ref_exec cfg other n (map (fst s) (Args n)) (fst (snd s)) (snd (snd s))) else fst s k)"
  "\<not> bit (writes n) i \<Longrightarrow> fst (snd (run_op (ref_exec cfg other) n s)) i = fst (snd s) i"
  by (simp_all add: run_op_def ref_exec_def Let_def split_beta split: option.split)

lemma run_flags:
  "\<forall>n\<in>set seg. \<not> IROpWritesNZCV n \<and> Op n \<noteq> OP_TESTZ \<Longrightarrow> i < 4 \<Longrightarrow> fst (snd (run_code (ref_exec cfg other) seg s)) i = fst (snd s) i"
  by (induction seg arbitrary: s) (simp_all add: run_op_ref(2) non_writer)

lemma run_env: "k \<notin> NodeID ` set seg \<Longrightarrow> fst (run_code (ref_exec cfg other) seg s) k = fst s k"
  by (induction seg arbitrary: s) (simp_all add: run_op_ref(1))

lemma args_kept:
  assumes "args_before ns" and "ns = pre @ p # rest @ post" and "k \<in> set (Args p)"
  shows "fst (run_code (ref_exec cfg other) (p # rest) s) k = fst s k"
proof (rule run_env)
  have "\<forall>n\<in>set (p # rest @ post). NodeID n \<notin> set (Args p)" using assms(1,2) unfolding args_before_def by blast
  then show "k \<notin> NodeID ` set (p # rest)" using assms(3) by auto
qed

lemma args_op:
  assumes "args_before ns" and "n \<in> set ns"
  shows "Op n \<noteq> OP_TESTZ"
    and "Op n \<in> {OP_SUBNZCV, OP_ADDNZCV, OP_SUBWITHFLAGS, OP_ADDWITHFLAGS, OP_CONDSUBNZCV, OP_CONDADDNZCV} \<Longrightarrow> length (Args n) = 2"
proof -
  from assms(2) obtain a b where e: "ns = a @ n # b" by (meson split_list)
  then show "Op n \<noteq> OP_TESTZ" using assms(1) unfolding args_before_def by blast
  show "length (Args n) = 2" if "Op n \<in> {OP_SUBNZCV, OP_ADDNZCV, OP_SUBWITHFLAGS, OP_ADDWITHFLAGS, OP_CONDSUBNZCV, OP_CONDADDNZCV}"
    using assms(1) e that unfolding args_before_def by blast
qed

lemma constant_at:
  "constants_hold exec IR ns s \<Longrightarrow> ns = pre @ p # post \<Longrightarrow> k \<in> set (Args p) \<Longrightarrow> GetConstant IR k = Some C \<Longrightarrow> fst (run_code exec pre s) k = C"
  unfolding constants_hold_def by blast

lemma cond_low: "(\<And>i. i < 4 \<Longrightarrow> f i = g i) \<Longrightarrow> cond_holds c f = cond_holds c g"
  by (cases c) simp_all

lemma compare_writes: "Op n \<in> {OP_SUBNZCV, OP_ADDNZCV, OP_SUBWITHFLAGS, OP_ADDWITHFLAGS} \<Longrightarrow> writes n = FLAG_NZCV"
  by (auto simp: writes_def Classify_def)

lemma fusable_compare: "Fusable (AnalyzeProducer IR p) \<Longrightarrow> Op p \<in> {OP_SUBNZCV, OP_ADDNZCV, OP_SUBWITHFLAGS, OP_ADDWITHFLAGS}"
  by (auto simp: AnalyzeProducer_def split: if_splits)

text \<open>The flags right after a compare.\<close>

lemma after_compare:
  assumes f: "Fusable (AnalyzeProducer IR p)" and l: "length (Args p) = 2" and k: "\<And>C. GetConstant IR (Args p ! 1) = Some C \<Longrightarrow> env (Args p ! 1) = C"
    and r: "ResolveFusedCond (AnalyzeProducer IR p) c = Some c'"
  shows "cond_holds c (fst (snd (run_op (ref_exec cfg other) p (env, fl, m)))) \<longleftrightarrow>
    compare_at (8 * OpSize p) c' (take_bit (8 * OpSize p) (uint (env (Args p ! 0))))
      (take_bit (8 * OpSize p) (uint (if IsAdd (AnalyzeProducer IR p) then NegatedConst (AnalyzeProducer IR p) else env (Args p ! 1))))"
proof -
  define Add where "Add \<longleftrightarrow> Op p = OP_ADDWITHFLAGS \<or> Op p = OP_ADDNZCV"
  let ?P = "AnalyzeProducer IR p" and ?w = "8 * OpSize p" and ?x = "env (Args p ! 0)" and ?y = "env (Args p ! 1)"
  have P: "?P = AnalyzeOperands IR p Add" and b: "base_op (Op p) = (if Add then OP_ADD else OP_SUB)"
    using fusable_compare [OF f] by (auto simp: AnalyzeProducer_def Add_def)
  have args: "map env (Args p) = [?x, ?y]" using l by (cases "Args p"; cases "tl (Args p)") auto
  define h where "h = snd (compute (if Add then OP_ADD else OP_SUB) ?w (take_bit ?w (uint ?x)) (take_bit ?w (uint ?y)) (bit (reads p) 1 \<and> fl 1))"
  have "cond_holds c (fst (snd (run_op (ref_exec cfg other) p (env, fl, m)))) = cond_holds c h"
  proof (rule cond_low)
    fix i :: nat assume i: "i < 4"
    have "integer_op (Op p)" by (simp add: integer_op_def b)
    then show "fst (snd (run_op (ref_exec cfg other) p (env, fl, m))) i = h i"
      using all_flags_bit [OF i] compare_writes [OF fusable_compare [OF f]]
      by (simp add: run_op_def ref_exec_def Let_def arith_def operand_def args l b h_def split_beta)
  qed
  also have "\<dots> \<longleftrightarrow> compare_at ?w c' (take_bit ?w (uint ?x)) (if Add then take_bit ?w (uint (NegatedConst ?P)) else take_bit ?w (uint ?y))"
    unfolding h_def by (rule resolved_condition [OF P f r refl]) (use k in auto)
  finally show ?thesis using AnalyzeOperands_fusable(2) [OF P f] by (cases Add) simp_all
qed

text \<open>The flags and the operands of a compare stay as they are until the flags are written again.\<close>

lemma compare_range:
  assumes a: "args_before ns" and h: "constants_hold (ref_exec cfg other) IR ns s" and ns: "ns = pre @ p # mid @ post" and f: "Fusable (AnalyzeProducer IR p)"
    and w: "\<forall>n\<in>set mid. \<not> IROpWritesNZCV n" and r: "ResolveFusedCond (AnalyzeProducer IR p) c = Some c'"
    and s: "run_code (ref_exec cfg other) (pre @ p # mid) s = (env, fl, m)"
  shows "cond_holds c fl \<longleftrightarrow>
    compare_at (8 * OpSize p) c' (take_bit (8 * OpSize p) (uint (env (Args p ! 0))))
      (take_bit (8 * OpSize p) (uint (if IsAdd (AnalyzeProducer IR p) then NegatedConst (AnalyzeProducer IR p) else env (Args p ! 1))))"
proof -
  let ?exec = "ref_exec cfg other"
  obtain env0 f0 m0 where s0: "run_code ?exec pre s = (env0, f0, m0)" by (cases "run_code ?exec pre s")
  have l: "length (Args p) = 2" using args_op(2) [OF a, of p] ns fusable_compare [OF f] by auto
  have seg: "\<forall>n\<in>set mid. \<not> IROpWritesNZCV n \<and> Op n \<noteq> OP_TESTZ" using ns w args_op(1) [OF a] by simp
  have s01: "(env, fl, m) = run_code ?exec mid (run_op ?exec p (env0, f0, m0))" using s s0 by simp
  have inp: "Args p ! 0 \<in> set (Args p)" "Args p ! 1 \<in> set (Args p)" using l by simp_all
  have arg: "env k = env0 k" if "k \<in> set (Args p)" for k
    using args_kept [OF a ns that, of cfg other "(env0, f0, m0)"] s01 [symmetric] by simp
  have k: "env0 (Args p ! 1) = C" if "GetConstant IR (Args p ! 1) = Some C" for C
    using constant_at [OF h ns inp(2) that] s0 by simp
  have "cond_holds c fl = cond_holds c (fst (snd (run_op ?exec p (env0, f0, m0))))"
    by (rule cond_low) (use run_flags [OF seg, of _ cfg other "run_op ?exec p (env0, f0, m0)"] s01 in \<open>metis fst_conv snd_conv\<close>)
  also note after_compare [of IR p env0, OF f l k r]
  finally show ?thesis using arg [OF inp(1)] arg [OF inp(2)] by simp
qed

lemma consumer_condition: "fused_cond IR P n = Some c \<Longrightarrow> ResolveFusedCond P (Cond n) = Some c"
  by (auto simp: fused_cond_def split: if_splits)

text \<open>
  C18. A fused reader decides as before. Each consumer the scan records is an operation \<open>x\<close> of the block,
  with its compare \<open>p\<close> before it. When the block has run up to \<open>x\<close>, from any state, the condition of \<open>x\<close>
  holds of the flags if and only if the recorded condition holds of the operands of \<open>p\<close> as they are
  then, at the recorded size, with the recorded constant in place of the second operand of a sum.
\<close>

theorem fused_reader_decides:
  assumes "c \<in> set (Consumers (fusion_scan cfg IR NZCVLiveOut Rm ns))" and "args_before ns" and "constants_hold (ref_exec cfg other) IR ns s"
  shows "\<exists>pre p mid x post env f m. ns = pre @ p # mid @ x # post \<and> NodeID p = ConsProducer c \<and> NodeID x = ConsNode c
    \<and> run_code (ref_exec cfg other) (pre @ p # mid) s = (env, f, m)
    \<and> (cond_holds (Cond x) f \<longleftrightarrow>
        compare_at (8 * ConsSize c) (ConsCond c) (take_bit (8 * ConsSize c) (uint (env (Args p ! 0))))
          (take_bit (8 * ConsSize c) (uint (if AgainstNegatedConst c then ConsConst c else env (Args p ! 1)))))"
proof -
  from fusion_scan_sound(1) [OF refl assms(1)] obtain pre p seg post where g: "ns = pre @ p # seg @ post" "Fusable (AnalyzeProducer IR p)"
    "\<forall>n\<in>set seg. \<not> IROpWritesNZCV n" "consumer_of IR p seg c" unfolding good_consumer_def by blast
  from g(4) obtain mid x post' where x: "seg = mid @ x # post'" "ConsNode c = NodeID x" "ConsProducer c = NodeID p"
    "fused_cond IR (AnalyzeProducer IR p) x = Some (ConsCond c)" "AgainstNegatedConst c = IsAdd (AnalyzeProducer IR p)"
    "ConsConst c = NegatedConst (AnalyzeProducer IR p)" "ConsSize c = OpSize p" unfolding consumer_of_def by blast
  obtain env f m where s1: "run_code (ref_exec cfg other) (pre @ p # mid) s = (env, f, m)" by (cases "run_code (ref_exec cfg other) (pre @ p # mid) s")
  have ns: "ns = pre @ p # mid @ x # post' @ post" using g(1) x(1) by simp
  note compare_range [OF assms(2,3) ns g(2) _ consumer_condition [OF x(4)] s1]
  then show ?thesis using ns s1 x(1-3,5-7) g(3)
    by (intro exI [of _ pre] exI [of _ p] exI [of _ mid] exI [of _ x] exI [of _ "post' @ post"] exI [of _ env] exI [of _ f] exI [of _ m]) simp
qed

section \<open>Dropped compares\<close>

text \<open>The readers that are rewritten to compare the operands of \<open>p\<close>; they read no flag any more.\<close>

definition fused_with :: "Consumer list \<Rightarrow> ir_op \<Rightarrow> ir_op \<Rightarrow> bool" where
  "fused_with cs p n \<longleftrightarrow> (\<exists>c\<in>set cs. ConsApply c \<and> ConsProducer c = NodeID p \<and> ConsNode c = NodeID n)"

lemma low_dead: "X AND FLAG_NZCV = (0 :: u8) \<longleftrightarrow> (\<forall>i<4. \<not> bit X i)"
proof
  show "X AND FLAG_NZCV = 0 \<Longrightarrow> \<forall>i<4. \<not> bit X i" using all_flags_bit by (auto dest: and_zero_bit)
  show "\<forall>i<4. \<not> bit X i \<Longrightarrow> X AND FLAG_NZCV = 0" by (rule bit_word_eqI) (use bit_of_small_flags in \<open>auto simp: bit_and_iff\<close>)
qed

lemma live_code_dead:
  assumes "\<forall>n\<in>set ns. \<not> IROpReadsNZCV n" and "X AND FLAG_NZCV = 0"
  shows "live_code ns X AND FLAG_NZCV = 0"
  using assms by (induction ns) (auto simp: low_dead bit_live_op IROpReadsNZCV_def reads_def)

lemma live_code_killed:
  assumes "IROpWritesAllNZCV q" and "\<not> IROpReadsNZCV q"
  shows "live_code (q # ns) X AND FLAG_NZCV = 0"
proof -
  have "bit (writes q) i" if "i < 4" for i
    using assms(1) that all_flags_bit [OF that] unfolding IROpWritesAllNZCV_def writes_def by (metis bit_and_iff)
  then show ?thesis using assms(2) by (simp add: low_dead bit_live_op IROpReadsNZCV_def reads_def)
qed

text \<open>
  C24. A compare that is dropped has left its flags to nobody. It starts a range of operations that
  write no flag; once the readers fused with it have stopped reading, no flag is live after it, under the flags
  \<open>X\<close> that are live out of the block; and no operation that may raise a signal comes before one of
  those readers, so that no signal frame has to hold the flags for a resumed reader.
\<close>

theorem dropped_compare_dead:
  assumes "st = fusion_scan cfg IR (X AND FLAG_NZCV \<noteq> 0) Rm ns" and "d \<in> set (DeadProducers st)"
  shows "\<exists>pre p seg post. ns = pre @ p # seg @ post \<and> NodeID p = d \<and> Fusable (AnalyzeProducer IR p) \<and> (\<forall>n\<in>set seg. \<not> IROpWritesNZCV n)
    \<and> live_code (filter (\<lambda>n. \<not> fused_with (Consumers st) p n) seg @ post) X AND FLAG_NZCV = 0
    \<and> (\<forall>mid x rest. seg = mid @ x # rest \<and> IROpReadsNZCV x \<longrightarrow> (\<forall>n\<in>set mid. IROpReadsNZCV n \<or> \<not> MayRaiseSignal cfg (Op n)))"
proof -
  from fusion_scan_sound(2) [OF assms] obtain pre p seg post where g: "ns = pre @ p # seg @ post" "NodeID p = d" "Fusable (AnalyzeProducer IR p)"
    "\<forall>n\<in>set seg. \<not> IROpWritesNZCV n" "all_fused cfg p seg (filter ConsApply (Consumers st))"
    "case post of [] \<Rightarrow> \<not> X AND FLAG_NZCV \<noteq> 0 | q # _ \<Rightarrow> IROpWritesAllNZCV q \<and> \<not> IROpReadsNZCV q" unfolding good_dead_def by blast
  have post: "live_code post X AND FLAG_NZCV = 0"
  proof (cases post)
    case (Cons q qs)
    then show ?thesis using g(6) live_code_killed [of q qs X] by simp
  qed (use g(6) in simp)
  have "\<not> IROpReadsNZCV n" if n: "n \<in> set (filter (\<lambda>n. \<not> fused_with (Consumers st) p n) seg)" for n
  proof
    assume r: "IROpReadsNZCV n"
    from n obtain mid rest where "seg = mid @ n # rest" by (auto dest: split_list)
    then obtain c where "c \<in> set (filter ConsApply (Consumers st))" "ConsNode c = NodeID n" "ConsProducer c = NodeID p"
      using g(5) r unfolding all_fused_def by blast
    then show False using n by (auto simp: fused_with_def)
  qed
  then have "live_code (filter (\<lambda>n. \<not> fused_with (Consumers st) p n) seg @ post) X AND FLAG_NZCV = 0"
    using live_code_dead [OF _ post] by simp
  moreover have "\<forall>mid x rest. seg = mid @ x # rest \<and> IROpReadsNZCV x \<longrightarrow> (\<forall>n\<in>set mid. IROpReadsNZCV n \<or> \<not> MayRaiseSignal cfg (Op n))"
    using g(5) unfolding all_fused_def by blast
  ultimately show ?thesis using g(1-4) by (intro exI [of _ pre] exI [of _ p] exI [of _ seg] exI [of _ post]) simp
qed

section \<open>Chains of two compares\<close>

text \<open>\<open>RunChain\<close> up to the rewrite: the conditional compare at index \<open>i\<close>, the compare before it and the branch after it.\<close>

record chain_match =
  ChainP :: nat
  ChainR :: nat
  ChainPp :: Producer
  ChainQp :: Producer
  ChainCond1 :: CondClass
  ChainCond2 :: CondClass
  FalseResult :: bool

definition touches_nzcv :: "ir_op \<Rightarrow> bool" where
  "touches_nzcv n \<longleftrightarrow> IROpReadsNZCV n \<or> IROpWritesNZCV n"

definition RunChain_match :: "dfce_config \<Rightarrow> ir_lookup \<Rightarrow> bool \<Rightarrow> ir_op list \<Rightarrow> nat \<Rightarrow> chain_match option" where
  "RunChain_match cfg IR NZCVLiveOut ns i =
     (let Q = ns ! i in
      if NZCVLiveOut then None
      else if Op Q \<noteq> OP_CONDSUBNZCV \<and> Op Q \<noteq> OP_CONDADDNZCV then None
      else case find (\<lambda>j. touches_nzcv (ns ! j)) (rev [0..<i]) of
        None \<Rightarrow> None
      | Some PIdx \<Rightarrow>
        let P = ns ! PIdx in
        if Op P \<notin> {OP_SUBNZCV, OP_ADDNZCV, OP_SUBWITHFLAGS, OP_ADDWITHFLAGS} then None
        else case find (\<lambda>k. touches_nzcv (ns ! k)) [i + 1..<length ns] of
          None \<Rightarrow> None
        | Some RIdx \<Rightarrow>
          let R = ns ! RIdx in
          if Op R \<noteq> OP_CONDJUMP then None
          else if \<not> FromNZCV R \<or> VCmpElementSize R \<noteq> 255 \<or> FromChainCR R then None
          else if \<exists>a\<in>set (Args R). IR a \<noteq> None then None
          else if \<exists>j\<in>set [PIdx + 1..<RIdx]. \<not> touches_nzcv (ns ! j) \<and> MayRaiseSignal cfg (Op (ns ! j)) then None
          else
            let Pp = AnalyzeProducer IR P; Qp = AnalyzeOperands IR Q (Op Q = OP_CONDADDNZCV) in
            if \<not> Fusable Pp \<or> \<not> Fusable Qp then None
            else case (ResolveFusedCond Pp (Cond Q), ResolveFusedCond Qp (Cond R)) of
                (Some Cond1, Some Cond2) \<Rightarrow>
                  Some \<lparr>ChainP = PIdx, ChainR = RIdx, ChainPp = Pp, ChainQp = Qp, ChainCond1 = Cond1, ChainCond2 = Cond2,
                        FalseResult = EvalCondAgainstNZCV (Cond R) (FalseNZCV Q)\<rparr>
              | _ \<Rightarrow> None)"

text \<open>
  A conditional compare, \<open>IR.json\<close>: the flags of the compare when its condition holds, the four bits
  of \<open>FalseNZCV\<close> otherwise.
\<close>

definition ccmp_flags :: "ir_op \<Rightarrow> u64 list \<Rightarrow> flagstate \<Rightarrow> flagstate" where
  "ccmp_flags n vs f =
     (if cond_holds (Cond n) f
      then snd (compute (if Op n = OP_CONDADDNZCV then OP_ADD else OP_SUB) (8 * OpSize n) (operand (8 * OpSize n) vs 0) (operand (8 * OpSize n) vs 1) False)
      else nibble (FalseNZCV n))"

definition conditional_compares :: "(u64, 'm) ir_exec \<Rightarrow> bool" where
  "conditional_compares other \<longleftrightarrow>
     (\<forall>n vs f m. Op n = OP_CONDSUBNZCV \<or> Op n = OP_CONDADDNZCV \<longrightarrow> fst (snd (other n vs f m)) = ccmp_flags n vs f)"

lemma ccmp_info:
  assumes "Op n = OP_CONDSUBNZCV \<or> Op n = OP_CONDADDNZCV"
  shows "writes n = FLAG_NZCV" "reads n = FlagsForCondClassType (Cond n)" "\<not> integer_op (Op n)"
  using assms by (auto simp: writes_def reads_def Classify_def integer_op_def)

lemma after_ccmp:
  assumes q: "Op q = OP_CONDSUBNZCV \<or> Op q = OP_CONDADDNZCV" and o: "conditional_compares other" and i: "i < 4"
  shows "fst (snd (run_op (ref_exec cfg other) q (env, f, m))) i = ccmp_flags q (map env (Args q)) f i"
proof -
  have "cond_holds (Cond q) (\<lambda>i. bit (reads q) i \<and> f i) = cond_holds (Cond q) f"
    by (rule cond_flags_suffice) (simp add: agree_def ccmp_info [OF q])
  then have "ccmp_flags q vs (\<lambda>i. bit (reads q) i \<and> f i) = ccmp_flags q vs f" for vs by (simp add: ccmp_flags_def)
  moreover have "fst (snd (other q vs g m)) = ccmp_flags q vs g" for vs g using o q unfolding conditional_compares_def by blast
  ultimately show ?thesis using all_flags_bit [OF i] ccmp_info [OF q]
    by (simp add: run_op_def ref_exec_def Let_def arith_def split_beta)
qed

lemma resolved_literal: "ResolveFusedCond P c = Some c' \<Longrightarrow> cond_holds c (nibble K) = EvalCondAgainstNZCV c K"
  using EvalCond_nibble [of c K] by (auto simp: ResolveFusedCond_def split: if_splits)

lemma ccmp_decides:
  assumes q: "Op q = OP_CONDSUBNZCV \<or> Op q = OP_CONDADDNZCV" and P: "P = AnalyzeOperands IR q (Op q = OP_CONDADDNZCV)" "Fusable P"
    and r: "ResolveFusedCond P c = Some c'" and l: "length (Args q) = 2" and k: "\<And>C. GetConstant IR (Args q ! 1) = Some C \<Longrightarrow> env (Args q ! 1) = C"
  shows "cond_holds c (ccmp_flags q (map env (Args q)) f) \<longleftrightarrow>
    (if cond_holds (Cond q) f
     then compare_at (8 * OpSize q) c' (take_bit (8 * OpSize q) (uint (env (Args q ! 0))))
       (take_bit (8 * OpSize q) (uint (if IsAdd P then NegatedConst P else env (Args q ! 1))))
     else EvalCondAgainstNZCV c (FalseNZCV q))"
proof -
  let ?w = "8 * OpSize q" and ?x = "env (Args q ! 0)" and ?y = "env (Args q ! 1)"
  have args: "map env (Args q) = [?x, ?y]" using l by (cases "Args q"; cases "tl (Args q)") auto
  have "cond_holds c (snd (compute (if Op q = OP_CONDADDNZCV then OP_ADD else OP_SUB) ?w (take_bit ?w (uint ?x)) (take_bit ?w (uint ?y)) False)) \<longleftrightarrow>
    compare_at ?w c' (take_bit ?w (uint ?x)) (if Op q = OP_CONDADDNZCV then take_bit ?w (uint (NegatedConst P)) else take_bit ?w (uint ?y))"
    by (rule resolved_condition [OF P r refl]) (use k in auto)
  then show ?thesis using AnalyzeOperands_fusable(2) [OF P] resolved_literal [OF r, of "FalseNZCV q"]
    by (simp add: ccmp_flags_def args operand_def if_distrib [of "\<lambda>z. take_bit ?w (uint z)"] cong: if_cong)
qed

text \<open>The positions of a match.\<close>

lemma find_before:
  assumes "find p (rev [0..<i]) = Some j"
  shows "j < i" "p j" "\<And>k. j < k \<Longrightarrow> k < i \<Longrightarrow> \<not> p k"
proof -
  from assms have "find p (rev [0..<i]) = Some j" .
  then obtain n where n: "n < i" "p (i - 1 - n)" "j = i - 1 - n" "\<forall>k<n. \<not> p (i - 1 - k)"
    by (auto simp: find_Some_iff rev_nth)
  then show "j < i" "p j" by simp_all
  show "\<not> p k" if "j < k" "k < i" for k
    using n(4) [rule_format, of "i - 1 - k"] n(1,3) that by simp
qed

lemma find_after:
  assumes "find p [a..<b] = Some j"
  shows "a \<le> j" "j < b" "p j" "\<And>k. a \<le> k \<Longrightarrow> k < j \<Longrightarrow> \<not> p k"
proof -
  from assms obtain n where n: "n < b - a" "p (a + n)" "j = a + n" "\<forall>k<n. \<not> p (a + k)" by (auto simp: find_Some_iff)
  then show "a \<le> j" "j < b" "p j" by simp_all
  show "\<not> p k" if "a \<le> k" "k < j" for k using n(4) [rule_format, of "k - a"] n(3) that by simp
qed

definition mid_code :: "nat \<Rightarrow> nat \<Rightarrow> 'a list \<Rightarrow> 'a list" where
  "mid_code a b xs = take (b - Suc a) (drop (Suc a) xs)"

lemma mid_code_split: "a < b \<Longrightarrow> b \<le> length xs \<Longrightarrow> take b xs = take a xs @ xs ! a # mid_code a b xs"
  using take_add [of a "Suc (b - Suc a)" xs] by (simp add: mid_code_def Cons_nth_drop_Suc [symmetric])

lemma mid_code_nth: "y \<in> set (mid_code a b xs) \<Longrightarrow> b \<le> length xs \<Longrightarrow> \<exists>k. a < k \<and> k < b \<and> y = xs ! k"
  by (auto simp: mid_code_def in_set_conv_nth) (metis add_Suc less_add_Suc1 less_diff_conv add.commute)

lemma RunChain_match_cases:
  assumes "RunChain_match cfg IR live ns i = Some M"
  shows "Op (ns ! i) = OP_CONDSUBNZCV \<or> Op (ns ! i) = OP_CONDADDNZCV"
    and "find (\<lambda>j. touches_nzcv (ns ! j)) (rev [0..<i]) = Some (ChainP M)"
    and "find (\<lambda>k. touches_nzcv (ns ! k)) [i + 1..<length ns] = Some (ChainR M)"
    and "ChainPp M = AnalyzeProducer IR (ns ! ChainP M)" "Fusable (ChainPp M)"
    and "ChainQp M = AnalyzeOperands IR (ns ! i) (Op (ns ! i) = OP_CONDADDNZCV)" "Fusable (ChainQp M)"
    and "ResolveFusedCond (ChainPp M) (Cond (ns ! i)) = Some (ChainCond1 M)"
    and "ResolveFusedCond (ChainQp M) (Cond (ns ! ChainR M)) = Some (ChainCond2 M)"
    and "FalseResult M = EvalCondAgainstNZCV (Cond (ns ! ChainR M)) (FalseNZCV (ns ! i))"
  using assms unfolding RunChain_match_def Let_def by (auto split: if_splits option.splits)

lemma untouched_mid:
  assumes "args_before ns" and "\<And>k. a < k \<Longrightarrow> k < b \<Longrightarrow> \<not> touches_nzcv (ns ! k)" and "b \<le> length ns"
  shows "\<forall>n\<in>set (mid_code a b ns). \<not> IROpWritesNZCV n \<and> Op n \<noteq> OP_TESTZ"
proof
  fix n assume n: "n \<in> set (mid_code a b ns)"
  then obtain k where "a < k" "k < b" "n = ns ! k" using mid_code_nth [OF n assms(3)] by blast
  moreover have "n \<in> set ns" using calculation assms(3) by simp
  ultimately show "\<not> IROpWritesNZCV n \<and> Op n \<noteq> OP_TESTZ" using assms(2) args_op(1) [OF assms(1)] by (auto simp: touches_nzcv_def)
qed

lemma split_three:
  assumes "a < b" "b < c" "c < length xs"
  shows "take c xs = take a xs @ xs ! a # mid_code a b xs @ xs ! b # mid_code b c xs"
    and "xs = take a xs @ xs ! a # (mid_code a b xs @ xs ! b # mid_code b c xs) @ drop c xs"
    and "xs = take b xs @ xs ! b # mid_code b c xs @ drop c xs"
proof -
  show t: "take c xs = take a xs @ xs ! a # mid_code a b xs @ xs ! b # mid_code b c xs"
    using mid_code_split [of b c xs] mid_code_split [of a b xs] assms by simp
  show "xs = take a xs @ xs ! a # (mid_code a b xs @ xs ! b # mid_code b c xs) @ drop c xs"
    using append_take_drop_id [of c xs] t by simp
  show "xs = take b xs @ xs ! b # mid_code b c xs @ drop c xs"
    using append_take_drop_id [of c xs] mid_code_split [of b c xs] assms by simp
qed

text \<open>
  C19. The chain predicate. When \<open>RunChain\<close> matches a conditional compare, its compare and its branch,
  and the block has run up to the branch from any state, the branch is taken if and only if: the first
  resolved condition holds of the operands of the compare and the second of those of the
  conditional compare, or the first does not hold and the literal answer is true.
\<close>

theorem chain_decides:
  assumes "RunChain_match cfg IR live ns i = Some M" and "args_before ns" and "constants_hold (ref_exec cfg other) IR ns s"
    and "conditional_compares other" and "run_code (ref_exec cfg other) (take (ChainR M) ns) s = (env, f, m)"
  shows "cond_holds (Cond (ns ! ChainR M)) f \<longleftrightarrow>
    (let P = ns ! ChainP M; Q = ns ! i; w1 = 8 * OpSize P; w2 = 8 * OpSize Q in
     if compare_at w1 (ChainCond1 M) (take_bit w1 (uint (env (Args P ! 0))))
          (take_bit w1 (uint (if IsAdd (ChainPp M) then NegatedConst (ChainPp M) else env (Args P ! 1))))
     then compare_at w2 (ChainCond2 M) (take_bit w2 (uint (env (Args Q ! 0))))
          (take_bit w2 (uint (if IsAdd (ChainQp M) then NegatedConst (ChainQp M) else env (Args Q ! 1))))
     else FalseResult M)"
proof -
  note M = RunChain_match_cases [OF assms(1)]
  note pb = find_before [OF M(2)] and ra = find_after [OF M(3)]
  define P Q mid1 mid2 where "P = ns ! ChainP M" and "Q = ns ! i" and "mid1 = mid_code (ChainP M) i ns" and "mid2 = mid_code i (ChainR M) ns"
  have ix: "ChainP M < i" "i < ChainR M" "ChainR M < length ns" using pb(1) ra(1,2) by simp_all
  note sp = split_three [OF ix, folded P_def Q_def mid1_def mid2_def]
  let ?x = "ref_exec cfg other"
  have ti: "take i ns = take (ChainP M) ns @ P # mid1" using mid_code_split [of "ChainP M" i ns] ix by (simp add: P_def mid1_def)
  obtain env2 f2 m2 where s2: "run_code ?x (take i ns) s = (env2, f2, m2)" by (cases "run_code ?x (take i ns) s")
  have s4: "run_code ?x (Q # mid2) (env2, f2, m2) = (env, f, m)" using assms(5) s2 unfolding sp(1) ti by simp
  have q: "Op Q = OP_CONDSUBNZCV \<or> Op Q = OP_CONDADDNZCV" using M(1) by (simp add: Q_def)
  have fP: "Fusable (AnalyzeProducer IR P)" using M(4,5) by (simp add: P_def)
  have l: "length (Args P) = 2" "length (Args Q) = 2"
    using args_op(2) [OF assms(2), of P] args_op(2) [OF assms(2), of Q] fusable_compare [OF fP] q ix by (auto simp: P_def Q_def)
  have a4: "env k = env2 k" if "k \<in> set (Args P)" for k
    using args_kept [OF assms(2) sp(2) that, of cfg other "run_code ?x (take (ChainP M) ns) s"]
      args_kept [OF assms(2), of "take (ChainP M) ns" P mid1 "Q # mid2 @ drop (ChainR M) ns" k cfg other "run_code ?x (take (ChainP M) ns) s"] sp(2) that s2 s4 ti by simp
  have a2: "env k = env2 k" if "k \<in> set (Args Q)" for k
    using args_kept [OF assms(2) sp(3) that, of cfg other "(env2, f2, m2)"] s4 by simp
  have kQ: "env2 (Args Q ! 1) = C" if "GetConstant IR (Args Q ! 1) = Some C" for C
    using constant_at [OF assms(3) sp(3) _ that] l s2 by simp
  have u1: "\<forall>n\<in>set mid1. \<not> IROpWritesNZCV n \<and> Op n \<noteq> OP_TESTZ" unfolding mid1_def
    by (rule untouched_mid [OF assms(2) pb(3)]) (use ix in simp_all)
  have u2: "\<forall>n\<in>set mid2. \<not> IROpWritesNZCV n \<and> Op n \<noteq> OP_TESTZ" unfolding mid2_def
    by (rule untouched_mid [OF assms(2) ra(4)]) (use ix in simp_all)
  note g = compare_range [OF assms(2,3) _ fP _ M(8) [unfolded M(4), folded P_def Q_def] s2 [unfolded ti], folded P_def]
  have "cond_holds (Cond (ns ! ChainR M)) f = cond_holds (Cond (ns ! ChainR M)) (ccmp_flags Q (map env2 (Args Q)) f2)"
    by (rule cond_low) (use run_flags [OF u2, of _ cfg other "run_op ?x Q (env2, f2, m2)"] s4 after_ccmp [OF q assms(4)] in simp)
  also have "\<dots> \<longleftrightarrow> (if cond_holds (Cond Q) f2
     then compare_at (8 * OpSize Q) (ChainCond2 M) (take_bit (8 * OpSize Q) (uint (env2 (Args Q ! 0))))
       (take_bit (8 * OpSize Q) (uint (if IsAdd (ChainQp M) then NegatedConst (ChainQp M) else env2 (Args Q ! 1))))
     else FalseResult M)"
    unfolding M(10) Q_def by (rule ccmp_decides [OF M(1,6,7,9)]) (use l(2) kQ in \<open>simp_all add: Q_def\<close>)
  finally show ?thesis using g [of "Q # mid2 @ drop (ChainR M) ns"] sp(2) u1 M(4) a4 [of "Args P ! 0"] a4 [of "Args P ! 1"] a2 [of "Args Q ! 0"] a2 [of "Args Q ! 1"] l
    by (simp add: Let_def P_def [symmetric] Q_def [symmetric])
qed

section \<open>A block\<close>

lemma args_before_Cons:
  "args_before (n # ns) \<longleftrightarrow> Op n \<noteq> OP_TESTZ \<and> (\<forall>x\<in>set (n # ns). NodeID x \<notin> set (Args n))
     \<and> (Op n \<in> {OP_SUBNZCV, OP_ADDNZCV, OP_SUBWITHFLAGS, OP_ADDWITHFLAGS, OP_CONDSUBNZCV, OP_CONDADDNZCV} \<longrightarrow> length (Args n) = 2) \<and> args_before ns"
  unfolding args_before_def Cons_eq_append_conv by blast

lemma args_before_Nil: "args_before []"
  by (simp add: args_before_def)

definition pair_code :: "ir_op list" where
  "pair_code =
     [cmn_op\<lparr>NodeID := 7, Op := OP_OTHER 0, Args := []\<rparr>, cmn_op\<lparr>NodeID := 8, Op := OP_OTHER 0, Args := []\<rparr>,
      cmn_op\<lparr>NodeID := 9, Op := OP_SUBNZCV, Args := [7, 8]\<rparr>,
      cmn_op\<lparr>NodeID := 11, Op := OP_CONDJUMP, Args := [], Cond := Cond_UGE, FromNZCV := True\<rparr>]"

definition chain_code :: "ir_op list" where
  "chain_code = butlast pair_code @ [cmn_op\<lparr>NodeID := 10, Op := OP_CONDSUBNZCV, Args := [8, 7], Cond := Cond_NEQ, FalseNZCV := 2\<rparr>, last pair_code]"

definition pair_lookup :: ir_lookup where
  "pair_lookup = map_of (map (\<lambda>n. (NodeID n, n)) chain_code)"

abbreviation pair_cfg :: dfce_config where "pair_cfg \<equiv> ref_config (\<lambda>_. False) False False False"

definition pair_exec :: "(u64, unit) ir_exec" where
  "pair_exec n vs f m = (of_nat (NodeID n), ccmp_flags n vs f, m)"

lemma pair_ok: "args_before pair_code" "args_before chain_code"
  by (simp_all add: args_before_Cons args_before_Nil pair_code_def chain_code_def)

lemma no_constants: "GetConstant pair_lookup k = None"
  by (simp add: GetConstant_def pair_lookup_def chain_code_def pair_code_def)

lemma pair_scan:
  "Consumers (fusion_scan pair_cfg pair_lookup False True pair_code) =
     [\<lparr>ConsNode = 11, ConsProducer = 9, AgainstNegatedConst = False, ConsConst = 0, ConsSize = 4, ConsCond = Cond_UGE, ConsXER = True, ConsApply = True\<rparr>]"
  "DeadProducers (fusion_scan pair_cfg pair_lookup False True pair_code) = [9]"
  by code_simp+

lemma chain_found:
  "map_option (\<lambda>M. (ChainP M, ChainR M, ChainCond1 M, ChainCond2 M, FalseResult M)) (RunChain_match pair_cfg pair_lookup False chain_code 3) = Some (2, 4, Cond_NEQ, Cond_UGE, True)"
  by code_simp

lemma pair_constants: "constants_hold exec pair_lookup ns s"
  by (simp add: constants_hold_def no_constants)

text \<open>The TestZ that the elimination makes of a narrow test is not seen: the branch is fused with the compare before it.\<close>

lemma testz_hides_compare:
  "map ConsProducer (Consumers (fusion_scan pair_cfg pair_lookup False True
     (butlast pair_code @ [cmn_op\<lparr>NodeID := 12, Op := OP_TESTZ, OpSize := 2, Args := [7, 8]\<rparr>, last pair_code]))) = [9]"
  by code_simp

theorem fused_reader_decides_witness:
  "\<exists>pre p mid x post env f m. pair_code = pre @ p # mid @ x # post \<and> NodeID p = 9 \<and> NodeID x = 11
    \<and> run_code (ref_exec pair_cfg pair_exec) (pre @ p # mid) (\<lambda>_. 0, \<lambda>_. False, ()) = (env, f, m)
    \<and> (cond_holds (Cond x) f \<longleftrightarrow> compare_at 32 Cond_UGE (take_bit 32 (uint (env (Args p ! 0)))) (take_bit 32 (uint (env (Args p ! 1)))))"
  using fused_reader_decides [OF _ pair_ok(1) pair_constants, of _ pair_cfg False True pair_exec "(\<lambda>_. 0, \<lambda>_. False, ())"] unfolding pair_scan
  by fastforce

theorem dropped_compare_dead_witness:
  "\<exists>pre p seg post. pair_code = pre @ p # seg @ post \<and> NodeID p = 9 \<and> Fusable (AnalyzeProducer pair_lookup p) \<and> (\<forall>n\<in>set seg. \<not> IROpWritesNZCV n)
    \<and> live_code (filter (\<lambda>n. \<not> fused_with (Consumers (fusion_scan pair_cfg pair_lookup (0 AND FLAG_NZCV \<noteq> (0 :: u8)) True pair_code)) p n) seg @ post) 0 AND FLAG_NZCV = 0
    \<and> (\<forall>mid x rest. seg = mid @ x # rest \<and> IROpReadsNZCV x \<longrightarrow> (\<forall>n\<in>set mid. IROpReadsNZCV n \<or> \<not> MayRaiseSignal pair_cfg (Op n)))"
  by (rule dropped_compare_dead [OF refl]) (simp add: pair_scan)

theorem chain_decides_witness:
  "\<exists>M env f m. RunChain_match pair_cfg pair_lookup False chain_code 3 = Some M
    \<and> run_code (ref_exec pair_cfg pair_exec) (take (ChainR M) chain_code) (\<lambda>_. 0, \<lambda>_. False, ()) = (env, f, m)
    \<and> (cond_holds (Cond (chain_code ! ChainR M)) f \<longleftrightarrow>
      (let P = chain_code ! ChainP M; Q = chain_code ! 3; w1 = 8 * OpSize P; w2 = 8 * OpSize Q in
       if compare_at w1 (ChainCond1 M) (take_bit w1 (uint (env (Args P ! 0))))
            (take_bit w1 (uint (if IsAdd (ChainPp M) then NegatedConst (ChainPp M) else env (Args P ! 1))))
       then compare_at w2 (ChainCond2 M) (take_bit w2 (uint (env (Args Q ! 0))))
            (take_bit w2 (uint (if IsAdd (ChainQp M) then NegatedConst (ChainQp M) else env (Args Q ! 1))))
       else FalseResult M))"
proof -
  obtain M where M: "RunChain_match pair_cfg pair_lookup False chain_code 3 = Some M" using chain_found by (cases "RunChain_match pair_cfg pair_lookup False chain_code 3") simp_all
  obtain env f m where s: "run_code (ref_exec pair_cfg pair_exec) (take (ChainR M) chain_code) (\<lambda>_. 0, \<lambda>_. False, ()) = (env, f, m)"
    by (cases "run_code (ref_exec pair_cfg pair_exec) (take (ChainR M) chain_code) (\<lambda>_. 0, \<lambda>_. False, ())")
  have o: "conditional_compares pair_exec" by (simp add: conditional_compares_def pair_exec_def)
  from M s chain_decides [OF M pair_ok(2) pair_constants o s] show ?thesis by blast
qed

end
