(* ===== verification/Spec2Isabelle.thy ===== *)
theory Spec2Isabelle
  imports Varlen RipTable SeccompInstall IntervalList VMAProtect GranuleTable WriteMutexLive NZCVSound DecodeTableSpec UnitCoherence FlagElimTheorems FusionTheorems
begin

text \<open>
  \<^bold>\<open>POWERarm\<close> runs AArch64 Linux programs on POWER hosts. FEXCore decodes guest code, translates it
  unit by unit through an intermediate representation to POWER code, and keeps the translations in
  code buffers; the Linux layer emulates system calls, tracks the guest's memory mappings and tells
  FEXCore when guest code changes. This development models the parts whose errors would be silent:
  the bookkeeping that decides which translation runs, whether it is still valid, which guest
  address a host address belongs to, and which system calls a guest may make.

  \<^bold>\<open>Parts and theories.\<close> Each theory opens with the files that it models; a definition keeps the name
  of the function or type it translates.

  \<^item> \<open>Prelude\<close>: word types, little-endian memory, and lemmas on words and lists.
  \<^item> \<open>Varlen\<close>, \<open>RipTable\<close>: \<open>Utils/variable_length_integer.h\<close> and the table that the JIT writes behind
    each unit (\<open>JIT.cpp\<close>) and that \<open>Core.cpp\<close> walks to find the guest address of a fault. Encoders and
    decoders work on byte lists. Round trips, the size bound that the JIT reserves, and the
    correctness of the walk.
  \<^item> \<open>Bpf\<close>, \<open>Seccomp\<close>, \<open>SeccompInstall\<close>: the classic BPF interpreter and the seccomp emulator of
    \<open>LinuxSyscalls/Seccomp\<close>. A machine state, a step function that can fail, filters with reference
    counts, and a step relation of installs, clones and exits. Validated filters return; in every
    reachable state filters are alive and the verdict is that of the whole chain, except for the one
    call whose key equals that of an empty cache entry (\<open>zero_key\<close>: instruction pointer 0, first
    argument -1), which is allowed without running a filter.
  \<^item> \<open>IntervalList\<close>: \<open>IntervalList.h\<close> and the forced-TSO ranges of \<open>Core.cpp\<close>, against sets of addresses.
  \<^item> \<open>OrderedMap\<close>, \<open>VMATracking\<close>, \<open>VMAProtect\<close>: \<open>SyscallsVMATracking\<close>. The map of mappings and the lists of
    the mappings of each resource; each operation against a function from addresses to attributes.
  \<^item> \<open>GranuleTable\<close>: \<open>GranuleTable.cpp\<close>, guest page protections on hosts with larger pages. Addresses
    and sizes are 64-bit words and round and wrap as in the code; the page loop may not end near the top
    of memory, and the theorems on pages ask for ranges that end below it.
  \<^item> \<open>CodeGranules\<close>, \<open>BlockLinks\<close>, \<open>GuestMap\<close>, \<open>GuestMapSpec\<close>: the database of translated blocks of a code
    buffer (\<open>SMCCodeGranules.h\<close> and the \<open>GuestToHostMap\<close> of \<open>LookupCache.h\<close>): the bitmap of granules with
    code, the pool of links between blocks, the page index, and the three kinds of invalidation. The
    balance of links is stated for histories in which no pair is linked while it is still linked.
  \<^item> \<open>LookupCache\<close>, \<open>LookupCacheSpec\<close>: the two levels of cache of a thread before that database.
  \<^item> \<open>CodeManager\<close>, \<open>CodeManagerSpec\<close>, \<open>CodeReach\<close>, \<open>CodeProtocol\<close>: the fan-out of \<open>Core.cpp\<close>, \<open>Context.cpp\<close>,
    \<open>ThreadManager.h\<close> and \<open>SyscallsSMCTracking.cpp\<close> over buffers and threads. The locale
    \<open>code_invalidation\<close> states what every form of invalidation promises and is interpreted on the hard,
    the soft and the precise form. Reachable states and histories are inductive, with an event for
    every registration and every relink of a retained block; no lookup of an address other than 0
    returns a stale translation. The address 0 marks an empty entry of the first cache, and
    \<open>null_lookup_reachable\<close> shows a reachable state in which its lookup returns invalidated code.
  \<^item> \<open>WriteMutex\<close>, \<open>WriteMutexSpec\<close>, \<open>WriteMutexLive\<close>: the mutex of code invalidation
    (\<open>WritePriorityMutex.h\<close>) as a machine with one step for each atomic access and futex call of each
    thread. Exclusion, exact counts, priority of writers, and freedom from deadlock.
  \<^item> \<open>NZCVScan\<close>, \<open>NZCVSound\<close>: the scan of guest code that finds flags dead at an exit
    (\<open>NZCVExitCensus.cpp\<close>). A dead verdict is sound for every processor that respects the word classes,
    and depends on the words in the witness extent only.
  \<^item> \<open>DecodeTable\<close>, \<open>DecodeTableSpec\<close>: the A64 decode table, its generator
    (\<open>a64_decode_table_generator.py\<close>) and its lookup (\<open>DecodeTable.cpp\<close>), equal to the first match in the
    order of priority.
  \<^item> \<open>Decoder\<close>, \<open>DecoderSpec\<close>, \<open>DecoderLayout\<close>, \<open>DecoderUnit\<close>, \<open>DecoderTheorems\<close>: the block decoder
    (\<open>A64Frontend/Decoder.cpp\<close>) with checked accesses to its vectors: executable ranges, slots and
    region discovery, layout and pages, the units that it returns (where blocks start and end, and that
    they are continued and the followed branches reached), and the census, faults and sequences of units.
  \<^item> \<open>NZCVPeek\<close>: the policy that drops flags at exits (\<open>NZCVPeek.cpp\<close>) and what a unit then tracks.
  \<^item> \<open>FlagOps\<close>, \<open>FlagElim\<close>: the pass that removes dead flag calculations
    (\<open>RedundantFlagCalculationElimination.cpp\<close>): the classification of the operations and its packed
    form; the control flow graph, the backward liveness over a worklist with its rewrites, the
    forward reach of the entry, the permissions for the back end, and the folding of compares into
    branches. \<open>FlagSem\<close> is what it has to keep, a semantics of units with the operations as parameters;
    the locale \<open>ir_semantics\<close> of \<open>FlagElimSound\<close> states what the classification promises of an operation, and
    \<open>FlagArith\<close> interprets it on integer arithmetic with the flags of the processor. \<open>FlagElimRun\<close>,
    \<open>FlagPermit\<close>, \<open>FlagReach\<close> and \<open>FlagElimTheorems\<close> prove that the pass ends, computes the liveness and
    the reach exactly, and keeps what every unit computes.
  \<^item> \<open>CompareFuse\<close>, \<open>FusionScan\<close>, \<open>FusionTheorems\<close>: compare fusion (\<open>CompareBranchFusion.cpp\<close>) up to its
    rewrites: which compares and conditions it accepts, the scan of a block and the match of a chain
    of two compares, refused when the flags are live out of the block. A fused reader and a matched chain decide as before; a dropped compare has left
    its flags to nobody.
  \<^item> \<open>UnitCoherence\<close>: decoder, flag policy, registration, invalidation and lookup together: the code that
    runs is a translation of guest memory as it is, if changes of memory are reported. A relink is an
    event with the hash of the memory at that time, and the theorem concludes through the check of
    the hash by \<open>TryRelink\<close>, for hashes that do not collide on the contents at hand (\<open>no_collision\<close>).

  \<^bold>\<open>Interaction.\<close> The decoder collects a unit, the frontend translates it, the flag policy widens what it
  tracks and marks the exits where the flags are dead, the flag elimination starts its liveness from
  these marks, and compilation registers it with its pages and extent (\<open>CompileBlock_register\<close>) in the
  database of the current buffer; threads find it through their caches; writes to guest code, changes
  of mappings and instruction cache maintenance reach the invalidations of the code manager, which
  visit every buffer and thread under the mutex. The mapping tracker supplies the mirrors of a page
  to the instruction cache maintenance.

  \<^bold>\<open>State and errors.\<close> Records and explicit state passing; failures and fatal assertions are values of
  option or sum types. Machine integers are words of their width, and wrap-around is kept. Library
  containers are lists or maps with the order that the code relies on. Allocation failures, hash
  functions, kernel calls and processors are arguments. Locks are not part of the states of other
  components: their operations run under the lock that the code takes, one after the other.

  \<^bold>\<open>Bounds and fuel.\<close> Loops are recursion on their data, or functions with a termination proof. The BPF
  interpreter counts steps, and as many as the program has instructions suffice. The walk of the
  flag scan ends because a round either reads one of at most 96 words or takes a path from the stack.
  The mutex is proved for fewer than 16384 threads, the capacity of its writer count. The decoder is
  proved for units below the top of memory and for fewer than \<open>2\<^sup>2\<^sup>9\<close> units, after which its generations
  repeat; the fuel of its layout is the number of slots of the window, which no run exceeds, and that
  of its page loop is any number above the number of pages up to the end of the range. The page loop of
  the granule table is a partial function, and it is proved to return for ranges that end at least 64 KiB
  below the top of memory. The fuel of the
  flag elimination is \<open>dfce_fuel n = 4 * n * (n + 1) + n\<close> for \<open>n\<close> blocks: the four flags of a block change
  at most four times. Its correctness is stated for units that test 32 or 64 bits, since narrower tests
  become an opcode that the classification does not know, and for switches that leave fusion off.

  \<^bold>\<open>Not modelled.\<close> The translators from A64 to the intermediate representation, the rewrites of compare
  fusion, register allocation and the remaining passes, the POWER back end and its emitter, and the
  dispatcher: their correctness is a statement about two instruction sets, which needs formal semantics
  of both. The emitter tables of \<open>CodeEmitter\<close> for Arm
  hosts are not used on POWER. The fault path of the tracking of self-modifying code, signal
  delivery, the ELF loader and the bulk of the system calls are dominated by kernel effects. The
  code cache on disk, thunks, the server, the configuration and the tools are glue or input and
  output. Vendored libraries, tests and documents are left out.
\<close>

end
